(* ===== verification/Prelude.thy ===== *)
theory Prelude
  imports Main "HOL-Library.Word"
begin

text \<open>
  Shared vocabulary of the development: the integer types of the sources, the result codes,
  the outcome of memory allocation, and the generic facts on lists and words that several
  components use.
\<close>

unbundle bit_operations_syntax

section \<open>Types\<close>

type_synonym u8 = "8 word"
type_synonym u16 = "16 word"
type_synonym u32 = "32 word"
type_synonym u64 = "64 word"

text \<open>
  Result codes are C integers that the sources also combine with bitwise or, so they are
  numbers here and not an enumeration.
\<close>

type_synonym rc = nat

abbreviation (input) SQLITE_OK :: rc where "SQLITE_OK \<equiv> 0"
abbreviation (input) SQLITE_ERROR :: rc where "SQLITE_ERROR \<equiv> 1"
abbreviation (input) SQLITE_BUSY :: rc where "SQLITE_BUSY \<equiv> 5"
abbreviation (input) SQLITE_NOMEM :: rc where "SQLITE_NOMEM \<equiv> 7"
abbreviation (input) SQLITE_CORRUPT :: rc where "SQLITE_CORRUPT \<equiv> 11"

text \<open>
  The outcome of the calls to the memory allocator that are still to come: \<open>a 0\<close> says
  whether the next call returns memory, \<open>a 1\<close> the one after it, and so on. An operation
  that allocates takes the sequence and returns what is left of it.
\<close>

type_synonym alloc = "nat \<Rightarrow> bool"

definition malloc_ok :: "alloc \<Rightarrow> bool" where
  "malloc_ok a = a 0"

definition malloc_rest :: "alloc \<Rightarrow> alloc" where
  "malloc_rest a = (\<lambda>n. a (Suc n))"

definition no_oom :: "alloc \<Rightarrow> bool" where
  "no_oom a \<longleftrightarrow> (\<forall>n. a n)"

lemma no_oom_ok [simp]: "no_oom a \<Longrightarrow> malloc_ok a"
  by (simp add: no_oom_def malloc_ok_def)

lemma no_oom_rest [simp]: "no_oom a \<Longrightarrow> no_oom (malloc_rest a)"
  by (simp add: no_oom_def malloc_rest_def)

lemma no_oom_True [simp]: "no_oom (\<lambda>_. True)"
  by (simp add: no_oom_def)

section \<open>Division rounded up\<close>

lemma ceil_div_le:
  fixes n :: nat
  assumes "n \<le> c * m"
  shows "n div c + (if n mod c \<noteq> 0 then 1 else 0) \<le> m"
proof (cases "n = c * m")
  case True
  then show ?thesis by (cases "c = 0") auto
next
  case False
  with assms have "n < m * c" by (simp add: mult.commute)
  then have "n div c < m" by (rule less_mult_imp_div_less)
  then show ?thesis by simp
qed

lemma le_ceil_div:
  fixes n :: nat
  assumes "0 < c"
  shows "n \<le> c * (n div c + (if n mod c \<noteq> 0 then 1 else 0))"
  using mult_div_mod_eq [of c n] mod_less_divisor [OF assms, of n]
  by (simp only: distrib_left split: if_split) linarith

section \<open>Lists\<close>

text \<open>A read of an array of pointers: the null pointer is \<open>None\<close>.\<close>

definition slot :: "'a option list \<Rightarrow> nat \<Rightarrow> 'a option" where
  "slot xs k = (if k < length xs then xs ! k else None)"

lemma slot_Some: "slot xs k = Some x \<Longrightarrow> k < length xs \<and> xs ! k = Some x"
  by (auto simp: slot_def split: if_splits)

lemma slot_Some_in_set: "slot xs k = Some x \<Longrightarrow> Some x \<in> set xs"
  using slot_Some by (metis nth_mem)

lemma slot_update: "slot (xs[k := v]) j = (if j = k \<and> k < length xs then v else slot xs j)"
  by (simp add: slot_def nth_list_update)

lemma slot_replicate [simp]: "slot (replicate n None) k = None"
  by (simp add: slot_def)

lemma size_slot [termination_simp]:
  "slot xs k = Some x \<Longrightarrow> f x < size_list (size_option f) xs"
proof -
  assume "slot xs k = Some x"
  then have "Some x \<in> set xs" by (rule slot_Some_in_set)
  then have "size_option f (Some x) \<le> size_list (size_option f) xs"
    by (intro size_list_estimation') auto
  then show ?thesis by simp
qed

lemma nth_update_zero: "hs ! s = 0 \<Longrightarrow> hs ! j > 0 \<Longrightarrow> hs[s := w] ! j = (hs ! j :: nat)"
  by (metis less_irrefl nth_list_update_neq)

text \<open>The number of slots of a table that hold a value.\<close>

definition count_used :: "nat list \<Rightarrow> nat" where
  "count_used hs = length (filter (\<lambda>v. v \<noteq> 0) hs)"

lemma count_used_update:
  "h < length hs \<Longrightarrow> hs ! h = 0 \<Longrightarrow> v \<noteq> 0 \<Longrightarrow> count_used (hs[h := v]) = Suc (count_used hs)"
proof (induction hs arbitrary: h)
  case Nil
  then show ?case by simp
next
  case (Cons x xs)
  then show ?case by (cases h) (auto simp: count_used_def)
qed

lemma count_used_replicate [simp]: "count_used (replicate n 0) = 0"
  by (simp add: count_used_def filter_replicate)

lemma count_used_le: "count_used hs \<le> length hs"
  by (simp add: count_used_def)

lemma free_slot_exists: "count_used hs < length hs \<Longrightarrow> \<exists>s<length hs. hs ! s = 0"
proof (rule ccontr)
  assume lt: "count_used hs < length hs" and none: "\<not> (\<exists>s<length hs. hs ! s = 0)"
  then have "filter (\<lambda>v. v \<noteq> 0) hs = hs"
    by (intro filter_True) (auto simp: in_set_conv_nth)
  with lt show False by (simp add: count_used_def)
qed

section \<open>Words\<close>

text \<open>
  Equality of 64-bit words bit by bit, with the bit positions as numerals, so that the
  simplifier computes each position through shifts, masks and casts.
\<close>

lemma word64_eqI:
  fixes a b :: u64
  assumes "list_all (\<lambda>n. bit a n = bit b n)
    [0, 1, 2, 3, 4, 5, 6, 7, 8, 9, 10, 11, 12, 13, 14, 15, 16, 17, 18, 19, 20, 21, 22, 23, 24, 25, 26, 27, 28, 29, 30, 31, 32, 33, 34, 35, 36, 37, 38, 39, 40, 41, 42, 43, 44, 45, 46, 47, 48, 49, 50, 51, 52, 53, 54, 55, 56, 57, 58, 59, 60, 61, 62, 63]"
  shows "a = b"
proof (rule bit_word_eqI)
  fix n
  assume "n < LENGTH(64)"
  then have "n \<in> set [0..<64]" by simp
  moreover have "[0..<64] =
    [0, 1, 2, 3, 4, 5, 6, 7, 8, 9, 10, 11, 12, 13, 14, 15, 16, 17, 18, 19, 20, 21, 22, 23, 24, 25, 26, 27, 28, 29, 30, 31, 32, 33, 34, 35, 36, 37, 38, 39, 40, 41, 42, 43, 44, 45, 46, 47, 48, 49, 50, 51, 52, 53, 54, 55, 56, 57, 58, 59, 60, 61, 62, 63]"
    by (simp add: upt_rec)
  ultimately show "bit a n = bit b n" using assms by (simp only: list_all_iff)
qed

lemma word32_eqI:
  fixes a b :: u32
  assumes "list_all (\<lambda>n. bit a n = bit b n)
    [0, 1, 2, 3, 4, 5, 6, 7, 8, 9, 10, 11, 12, 13, 14, 15, 16, 17, 18, 19, 20, 21, 22, 23, 24, 25, 26, 27, 28, 29, 30, 31]"
  shows "a = b"
proof (rule bit_word_eqI)
  fix n
  assume "n < LENGTH(32)"
  then have "n \<in> set [0..<32]" by simp
  moreover have "[0..<32] =
    [0, 1, 2, 3, 4, 5, 6, 7, 8, 9, 10, 11, 12, 13, 14, 15, 16, 17, 18, 19, 20, 21, 22, 23, 24, 25, 26, 27, 28, 29, 30, 31]"
    by (simp add: upt_rec)
  ultimately show "bit a n = bit b n" using assms by (simp only: list_all_iff)
qed

lemma word8_eqI:
  fixes a b :: u8
  assumes "list_all (\<lambda>n. bit a n = bit b n) [0, 1, 2, 3, 4, 5, 6, 7]"
  shows "a = b"
proof (rule bit_word_eqI)
  fix n
  assume "n < LENGTH(8)"
  then have "n \<in> set [0, 1, 2, 3, 4, 5, 6, 7]" by auto
  then show "bit a n = bit b n" using assms by (simp only: list_all_iff)
qed

text \<open>A fact about bytes is a fact about 256 numbers.\<close>

lemma all_u8: "list_all (\<lambda>n. P (word_of_nat n)) [0..<256] \<Longrightarrow> P (c :: u8)"
proof -
  assume all: "list_all (\<lambda>n. P (word_of_nat n)) [0..<256]"
  have "unat c < 256" using unsigned_less [of c] by simp
  then have "unat c \<in> set [0..<256]" by simp
  with all have "P (word_of_nat (unat c))" by (simp only: list_all_iff)
  then show ?thesis by simp
qed

lemma bit_u8_beyond [simp]: "8 \<le> n \<Longrightarrow> \<not> bit (w :: u8) n"
  using bit_imp_le_length by force

lemma bit_u64_beyond [simp]: "64 \<le> n \<Longrightarrow> \<not> bit (w :: u64) n"
  using bit_imp_le_length by force

lemmas word_bits = bit_simps bit_u8_beyond bit_u64_beyond

lemma unat_drop_bit_div: "unat (drop_bit k (v :: 'a::len word)) = unat v div 2 ^ k"
  by (simp only: unat_drop_bit_eq) (simp only: drop_bit_eq_div)

lemma drop_bit_zero_iff: "drop_bit k (v :: 'a::len word) = 0 \<longleftrightarrow> unat v < 2 ^ k"
proof -
  have "drop_bit k v = 0 \<longleftrightarrow> unat (drop_bit k v) = 0" by (simp only: unsigned_eq_0_iff)
  also have "\<dots> \<longleftrightarrow> unat v div 2 ^ k = 0" by (simp only: unat_drop_bit_div)
  also have "\<dots> \<longleftrightarrow> unat v < 2 ^ k" by (simp add: div_eq_0_iff)
  finally show ?thesis .
qed

lemma unat_less_bits: "unat (v :: 'a::len word) < 2 ^ n \<longleftrightarrow> (\<forall>k. \<not> bit v (n + k))"
proof -
  have "drop_bit n v = 0 \<longleftrightarrow> (\<forall>k. \<not> bit v (n + k))"
  proof (intro iffI allI)
    fix k
    assume "drop_bit n v = 0"
    then have "\<not> bit (drop_bit n v) k" by simp
    then show "\<not> bit v (n + k)" by (simp add: bit_drop_bit_eq)
  next
    assume "\<forall>k. \<not> bit v (n + k)"
    then show "drop_bit n v = 0" by (intro bit_word_eqI) (simp add: bit_drop_bit_eq)
  qed
  then show ?thesis by (simp only: drop_bit_zero_iff)
qed

lemma take_bit_small: "unat (v :: 'a::len word) < 2 ^ n \<Longrightarrow> take_bit n v = v"
  by (simp add: word_unat_eq_iff unsigned_take_bit_eq take_bit_nat_eq_self)

lemma less_0x80_8: "(b :: u8) < 0x80 \<longleftrightarrow> \<not> bit b 7"
proof -
  have "b < 0x80 \<longleftrightarrow> unat b < 2 ^ 7" by (simp add: word_less_nat_alt)
  also have "\<dots> \<longleftrightarrow> (\<forall>k. \<not> bit b (7 + k))" by (rule unat_less_bits)
  also have "\<dots> \<longleftrightarrow> \<not> bit b 7"
  proof (intro iffI allI)
    fix k
    assume "\<not> bit b 7"
    then show "\<not> bit b (7 + k)" by (cases k) auto
  qed (metis add_0_right)
  finally show ?thesis .
qed

lemma and_0x80_32: "(a :: u32) AND 0x80 = 0 \<longleftrightarrow> \<not> bit a 7"
  using bit_iff_and_push_bit_not_eq_0 [of a 7] by (simp add: push_bit_of_1)

lemma and_0x80_8: "(a :: u8) AND 0x80 = 0 \<longleftrightarrow> \<not> bit a 7"
  using bit_iff_and_push_bit_not_eq_0 [of a 7] by (simp add: push_bit_of_1)

end
