(* ===== verification/Page_Set.thy ===== *)
theory Page_Set
  imports Prelude
begin

text \<open>
  The interface of a set of 32-bit page numbers as the pager uses it: create, test, set (which
  may fail for lack of memory) and clear. The locale states what the pager relies on; its
  lemmas carry single operations over to whole programs of operations and to the set of
  pages that test positive. \<open>Bitvec\<close> provides the interface.
\<close>

text \<open>A program of operations, run until the first one that reports an error.\<close>

datatype page_op = SetPage nat | ClearPage nat

fun page_of :: "page_op \<Rightarrow> nat" where
  "page_of (SetPage i) = i"
| "page_of (ClearPage i) = i"

fun page_effect :: "page_op \<Rightarrow> nat set \<Rightarrow> nat set" where
  "page_effect (SetPage i) P = insert i P"
| "page_effect (ClearPage i) P = P - {i}"

fun run_pages ::
  "(alloc \<Rightarrow> 's \<Rightarrow> nat \<Rightarrow> (alloc \<times> rc \<times> 's) option) \<Rightarrow> ('s \<Rightarrow> nat \<Rightarrow> 's option)
     \<Rightarrow> alloc \<Rightarrow> 's \<Rightarrow> page_op list \<Rightarrow> (rc \<times> 's) option" where
  "run_pages st cl a s [] = Some (SQLITE_OK, s)"
| "run_pages st cl a s (SetPage i # ops) =
     (case st a s i of
        None \<Rightarrow> None
      | Some (a', rc, s') \<Rightarrow>
          if rc \<noteq> SQLITE_OK then Some (rc, s') else run_pages st cl a' s' ops)"
| "run_pages st cl a s (ClearPage i # ops) =
     (case cl s i of None \<Rightarrow> None | Some s' \<Rightarrow> run_pages st cl a s' ops)"

locale page_set =
  fixes wf :: "'s \<Rightarrow> bool"
    and size_of :: "'s \<Rightarrow> nat"
    and create :: "nat \<Rightarrow> 's"
    and test :: "'s \<Rightarrow> nat \<Rightarrow> bool option"
    and set_page :: "alloc \<Rightarrow> 's \<Rightarrow> nat \<Rightarrow> (alloc \<times> rc \<times> 's) option"
  assumes create: "sz < 2 ^ 32 \<Longrightarrow> wf (create sz) \<and> size_of (create sz) = sz \<and>
      (\<forall>j < 2 ^ 32. test (create sz) j = Some False)"
    and test_total: "wf s \<Longrightarrow> \<exists>b. test s j = Some b"
    and set_returns: "wf s \<Longrightarrow> 0 < i \<Longrightarrow> i \<le> size_of s \<Longrightarrow>
      \<exists>a' rc s'. set_page a s i = Some (a', rc, s') \<and> wf s' \<and> size_of s' = size_of s \<and>
        (no_oom a \<longrightarrow> rc = SQLITE_OK \<and> no_oom a')"
    and set_ok: "wf s \<Longrightarrow> 0 < i \<Longrightarrow> i \<le> size_of s \<Longrightarrow> j < 2 ^ 32 \<Longrightarrow>
      set_page a s i = Some (a', SQLITE_OK, s') \<Longrightarrow> test s' j = Some (j = i \<or> test s j = Some True)"
    and set_sound: "wf s \<Longrightarrow> 0 < i \<Longrightarrow> i \<le> size_of s \<Longrightarrow> j < 2 ^ 32 \<Longrightarrow>
      set_page a s i = Some (a', rc, s') \<Longrightarrow> test s' j = Some True \<Longrightarrow> j = i \<or> test s j = Some True"
begin

definition pages :: "'s \<Rightarrow> nat set" where
  "pages s = {j. j < 2 ^ 32 \<and> test s j = Some True}"

lemma pages_create: "sz < 2 ^ 32 \<Longrightarrow> pages (create sz) = {}"
  using create by (auto simp: pages_def)

lemma pages_set_ok:
  assumes "wf s" "0 < i" "i \<le> size_of s" "i < 2 ^ 32" "set_page a s i = Some (a', SQLITE_OK, s')"
  shows "pages s' = insert i (pages s)"
  using assms set_ok [OF assms(1-3) _ assms(5)] by (auto simp: pages_def)

lemma pages_set_sound:
  assumes "wf s" "0 < i" "i \<le> size_of s" "set_page a s i = Some (a', rc, s')"
  shows "pages s' \<subseteq> insert i (pages s)"
  using set_sound [OF assms(1-3) _ assms(4)] by (auto simp: pages_def)

end

locale page_set_clear = page_set wf size_of create test set_page
  for wf :: "'s \<Rightarrow> bool" and size_of create test set_page +
  fixes clear_page :: "'s \<Rightarrow> nat \<Rightarrow> 's option"
  assumes clear: "wf s \<Longrightarrow> 0 < i \<Longrightarrow> i \<le> size_of s \<Longrightarrow>
      \<exists>s'. clear_page s i = Some s' \<and> wf s' \<and> size_of s' = size_of s \<and>
        (\<forall>j < 2 ^ 32. test s' j = Some (j \<noteq> i \<and> test s j = Some True))"
begin

lemma run_pages_spec:
  assumes "wf s" "size_of s < 2 ^ 32" "\<forall>op\<in>set ops. 0 < page_of op \<and> page_of op \<le> size_of s"
  shows "\<exists>rc s'. run_pages set_page clear_page a s ops = Some (rc, s') \<and> wf s' \<and>
     size_of s' = size_of s \<and> (rc = SQLITE_OK \<longrightarrow> pages s' = fold page_effect ops (pages s)) \<and>
     (no_oom a \<longrightarrow> rc = SQLITE_OK)"
  using assms
proof (induction ops arbitrary: a s)
  case Nil
  then show ?case by simp
next
  case (Cons op ops)
  show ?case
  proof (cases op)
    case (SetPage i)
    with Cons.prems have i: "0 < i" "i \<le> size_of s" "i < 2 ^ 32" by auto
    obtain a1 rc1 s1 where 1: "set_page a s i = Some (a1, rc1, s1)" "wf s1" "size_of s1 = size_of s"
      "no_oom a \<longrightarrow> rc1 = SQLITE_OK \<and> no_oom a1"
      using set_returns [OF Cons.prems(1) i(1,2)] by blast
    show ?thesis
    proof (cases "rc1 = SQLITE_OK")
      case True
      have "pages s1 = insert i (pages s)"
        using pages_set_ok [OF Cons.prems(1) i] 1(1) True by simp
      with Cons.IH [of s1 a1] Cons.prems SetPage 1 True show ?thesis by auto
    next
      case False
      with SetPage 1 show ?thesis by auto
    qed
  next
    case (ClearPage i)
    with Cons.prems have i: "0 < i" "i \<le> size_of s" by auto
    obtain s1 where 1: "clear_page s i = Some s1" "wf s1" "size_of s1 = size_of s"
      "\<forall>j < 2 ^ 32. test s1 j = Some (j \<noteq> i \<and> test s j = Some True)"
      using clear [OF Cons.prems(1) i] by blast
    then have "pages s1 = pages s - {i}" by (auto simp: pages_def)
    with Cons.IH [of s1 a] Cons.prems ClearPage 1 show ?thesis by auto
  qed
qed

end

end
