(* ===== verification/Bitvec.thy ===== *)
theory Bitvec
  imports Page_Set
begin

text \<open>
  The page bitmap of \<open>bitvec.c\<close>: a fixed-size set of page numbers that is a plain bitmap
  while it is small, an open-addressing hash table while it is sparse, and an array of
  sub-bitmaps once the hash table fills up. The theory models every operation of the file
  (creation, test, set with its subdivision and rehash, clear, size) and shows that a
  well-formed object behaves as a set of numbers between 1 and its size, also when memory
  runs out in the middle of a subdivision.
\<close>

section \<open>Representation\<close>

text \<open>The geometry, for 4-byte \<open>u32\<close> and 8-byte pointers.\<close>

definition BITVEC_SZ :: nat where "BITVEC_SZ = 512"
definition BITVEC_USIZE :: nat where "BITVEC_USIZE = ((BITVEC_SZ - 3 * 4) div 8) * 8"
definition BITVEC_SZELEM :: nat where "BITVEC_SZELEM = 8"
definition BITVEC_NELEM :: nat where "BITVEC_NELEM = BITVEC_USIZE div 1"
definition BITVEC_NBIT :: nat where "BITVEC_NBIT = BITVEC_NELEM * BITVEC_SZELEM"
definition BITVEC_NINT :: nat where "BITVEC_NINT = BITVEC_USIZE div 4"
definition BITVEC_MXHASH :: nat where "BITVEC_MXHASH = BITVEC_NINT div 2"
definition BITVEC_HASH :: "nat \<Rightarrow> nat" where "BITVEC_HASH x = (x * 1) mod BITVEC_NINT"
definition BITVEC_NPTR :: nat where "BITVEC_NPTR = BITVEC_USIZE div 8"

lemma bitvec_geometry:
  "BITVEC_SZELEM = 8" "BITVEC_NELEM = 496" "BITVEC_NBIT = 3968" "BITVEC_NINT = 124"
  "BITVEC_MXHASH = 62" "BITVEC_NPTR = 62"
  by (simp_all add: BITVEC_SZELEM_def BITVEC_NELEM_def BITVEC_NBIT_def BITVEC_NINT_def
      BITVEC_MXHASH_def BITVEC_NPTR_def BITVEC_USIZE_def BITVEC_SZ_def)

text \<open>
  The struct, with its union as a tagged one: which member is live is determined by
  \<open>iSize\<close> and \<open>iDivisor\<close>, which the invariant below records. Page numbers are
  32-bit values; they are natural numbers here, and the only subtraction that can wrap
  (the \<open>i--\<close> of the test for bit 0) is written out modulo \<open>2 ^ 32\<close>.
\<close>

datatype 'b bitvec_u = ABitmap "u8 list" | AHash "nat list" | ApSub "'b option list"

datatype bitvec = Bitvec (iSize: nat) (nSet: nat) (iDivisor: nat) (bv_u: "bitvec bitvec_u")

section \<open>Operations\<close>

text \<open>
  \<open>sqlite3BitvecCreate\<close>: zeroed memory reads as an empty bitmap or an empty hash table,
  according to the size.
\<close>

definition bv_new :: "nat \<Rightarrow> bitvec" where
  "bv_new sz = Bitvec sz 0 0
     (if sz \<le> BITVEC_NBIT then ABitmap (replicate BITVEC_NELEM 0)
      else AHash (replicate BITVEC_NINT 0))"

definition BitvecCreate :: "alloc \<Rightarrow> nat \<Rightarrow> alloc \<times> bitvec option" where
  "BitvecCreate a sz =
     (malloc_rest a, if malloc_ok a then Some (bv_new sz) else None)"

text \<open>
  One probe sequence of the hash table, starting at slot \<open>h\<close>: it ends at a zero slot or
  at the value looked for. \<open>None\<close> stands for a loop that has gone round the whole table
  without ending, that is, for a loop that does not end.
\<close>

datatype probe = Found | Free nat

fun bv_probe :: "nat \<Rightarrow> nat list \<Rightarrow> nat \<Rightarrow> nat \<Rightarrow> probe option" where
  "bv_probe 0 hs h i = None"
| "bv_probe (Suc n) hs h i =
     (if hs ! h = 0 then Some (Free h)
      else if hs ! h = i then Some Found
      else bv_probe n hs ((h + 1) mod BITVEC_NINT) i)"

definition bm_bit :: "u8 list \<Rightarrow> nat \<Rightarrow> bool" where
  "bm_bit bs i = (bs ! (i div BITVEC_SZELEM) AND push_bit (i mod BITVEC_SZELEM) 1 \<noteq> 0)"

text \<open>
  The loop and the leaf of \<open>sqlite3BitvecTestNotNull\<close>, with \<open>i\<close> counted from 0. A
  struct whose live union member is not the one the code reads is never reached from a
  well-formed object.
\<close>

fun bv_test_loop :: "bitvec \<Rightarrow> nat \<Rightarrow> bool option" where
  "bv_test_loop (Bitvec sz n d un) i =
     (if d \<noteq> 0 then
        (case un of
           ApSub subs \<Rightarrow>
             (case slot subs (i div d) of
                None \<Rightarrow> Some False
              | Some q \<Rightarrow> bv_test_loop q (i mod d))
         | _ \<Rightarrow> None)
      else if sz \<le> BITVEC_NBIT then
        (case un of ABitmap bs \<Rightarrow> Some (bm_bit bs i) | _ \<Rightarrow> None)
      else
        (case un of
           AHash hs \<Rightarrow>
             map_option (\<lambda>r. r = Found) (bv_probe BITVEC_NINT hs (BITVEC_HASH i) (i + 1))
         | _ \<Rightarrow> None))"

definition BitvecTestNotNull :: "bitvec \<Rightarrow> nat \<Rightarrow> bool option" where
  "BitvecTestNotNull p i =
     (let i' = (i + 2 ^ 32 - 1) mod 2 ^ 32
      in if i' \<ge> iSize p then Some False else bv_test_loop p i')"

definition BitvecTest :: "bitvec option \<Rightarrow> nat \<Rightarrow> bool option" where
  "BitvecTest pp i = (case pp of None \<Rightarrow> Some False | Some p \<Rightarrow> BitvecTestNotNull p i)"

text \<open>
  \<open>sqlite3BitvecSet\<close>. The recursive function follows the descent through the
  sub-bitmaps and the re-insertion of all values after a subdivision, which is a call of
  the routine on the same object; each takes one unit of fuel. \<open>None\<close> is running out of
  fuel or a probe that does not end; \<open>bv_set_total\<close> below shows that neither happens.
\<close>

primrec bv_insert_all ::
  "(alloc \<Rightarrow> bitvec \<Rightarrow> nat \<Rightarrow> (alloc \<times> rc \<times> bitvec) option) \<Rightarrow> nat list
     \<Rightarrow> alloc \<times> rc \<times> bitvec \<Rightarrow> (alloc \<times> rc \<times> bitvec) option" where
  "bv_insert_all ins [] s = Some s"
| "bv_insert_all ins (v # vs) s =
     (case s of (a, rc, p) \<Rightarrow>
        if v = 0 then bv_insert_all ins vs s
        else (case ins a p v of
                None \<Rightarrow> None
              | Some (a', rc', p') \<Rightarrow> bv_insert_all ins vs (a', rc OR rc', p')))"

definition bv_divisor :: "nat \<Rightarrow> nat" where
  "bv_divisor sz =
     (let d = sz div BITVEC_NPTR;
          d = (if sz mod BITVEC_NPTR \<noteq> 0 then d + 1 else d)
      in if d < BITVEC_NBIT then BITVEC_NBIT else d)"

primrec bv_set :: "nat \<Rightarrow> alloc \<Rightarrow> bitvec \<Rightarrow> nat \<Rightarrow> (alloc \<times> rc \<times> bitvec) option" where
  "bv_set 0 a p i = None"
| "bv_set (Suc f) a p i =
     (case p of Bitvec sz n d un \<Rightarrow>
        if sz > BITVEC_NBIT \<and> d \<noteq> 0 then
          (case un of
             ApSub subs \<Rightarrow>
               (let bin = (i - 1) div d; i' = (i - 1) mod d in
                case (case slot subs bin of
                        None \<Rightarrow> BitvecCreate a d
                      | Some q \<Rightarrow> (a, Some q)) of
                  (a', None) \<Rightarrow> Some (a', SQLITE_NOMEM, p)
                | (a', Some q) \<Rightarrow>
                    map_option (\<lambda>(a'', rc, q').
                        (a'', rc, Bitvec sz n d (ApSub (subs[bin := Some q']))))
                      (bv_set f a' q (i' + 1)))
           | _ \<Rightarrow> None)
        else if sz \<le> BITVEC_NBIT then
          (case un of
             ABitmap bs \<Rightarrow>
               (let k = (i - 1) div BITVEC_SZELEM in
                Some (a, SQLITE_OK, Bitvec sz n d
                  (ABitmap (bs[k := bs ! k OR push_bit ((i - 1) mod BITVEC_SZELEM) 1]))))
           | _ \<Rightarrow> None)
        else
          (case un of
             AHash hs \<Rightarrow>
               (let h = BITVEC_HASH (i - 1);
                    end = (\<lambda>h. Some (a, SQLITE_OK, Bitvec sz (n + 1) d (AHash (hs[h := i]))));
                    rehash = (\<lambda>h.
                      if n \<ge> BITVEC_MXHASH then
                        (if \<not> malloc_ok a then Some (malloc_rest a, SQLITE_NOMEM, p)
                         else bv_insert_all (bv_set f) (i # hs)
                                (malloc_rest a, SQLITE_OK,
                                 Bitvec sz n (bv_divisor sz) (ApSub (replicate BITVEC_NPTR None))))
                      else end h)
                in if hs ! h = 0 then
                     (if n < BITVEC_NINT - 1 then end h else rehash h)
                   else (case bv_probe BITVEC_NINT hs h i of
                           None \<Rightarrow> None
                         | Some Found \<Rightarrow> Some (a, SQLITE_OK, p)
                         | Some (Free h') \<Rightarrow> rehash h'))
           | _ \<Rightarrow> None))"

text \<open>
  Nine units of fuel are enough for every 32-bit size: four levels of subdivision, two
  units each, and one for the plain bitmap at the bottom.
\<close>

definition BitvecSet :: "alloc \<Rightarrow> bitvec option \<Rightarrow> nat \<Rightarrow> (alloc \<times> rc \<times> bitvec option) option" where
  "BitvecSet a pp i =
     (case pp of
        None \<Rightarrow> Some (a, SQLITE_OK, None)
      | Some p \<Rightarrow> map_option (\<lambda>(a', rc, p'). (a', rc, Some p')) (bv_set 9 a p i))"

text \<open>\<open>sqlite3BitvecClear\<close>: the hash table is rebuilt without the cleared value.\<close>

fun bv_free_slot :: "nat \<Rightarrow> nat list \<Rightarrow> nat \<Rightarrow> nat option" where
  "bv_free_slot 0 hs h = None"
| "bv_free_slot (Suc n) hs h =
     (if hs ! h = 0 then Some h
      else bv_free_slot n hs (if h + 1 \<ge> BITVEC_NINT then 0 else h + 1))"

fun bv_rebuild :: "nat list \<Rightarrow> nat \<Rightarrow> nat \<times> nat list \<Rightarrow> (nat \<times> nat list) option" where
  "bv_rebuild [] i s = Some s"
| "bv_rebuild (v # vs) i (n, hs) =
     (if v \<noteq> 0 \<and> v \<noteq> i then
        (case bv_free_slot BITVEC_NINT hs (BITVEC_HASH (v - 1)) of
           None \<Rightarrow> None
         | Some h \<Rightarrow> bv_rebuild vs i (n + 1, hs[h := v]))
      else bv_rebuild vs i (n, hs))"

fun bv_clear_loop :: "bitvec \<Rightarrow> nat \<Rightarrow> bitvec option" where
  "bv_clear_loop (Bitvec sz n d un) i =
     (if d \<noteq> 0 then
        (case un of
           ApSub subs \<Rightarrow>
             (case slot subs (i div d) of
                None \<Rightarrow> Some (Bitvec sz n d un)
              | Some q \<Rightarrow>
                  map_option (\<lambda>q'. Bitvec sz n d (ApSub (subs[i div d := Some q'])))
                    (bv_clear_loop q (i mod d)))
         | _ \<Rightarrow> None)
      else if sz \<le> BITVEC_NBIT then
        (case un of
           ABitmap bs \<Rightarrow>
             (let k = i div BITVEC_SZELEM in
              Some (Bitvec sz n d
                (ABitmap (bs[k := bs ! k AND NOT (push_bit (i mod BITVEC_SZELEM) 1)]))))
         | _ \<Rightarrow> None)
      else
        (case un of
           AHash hs \<Rightarrow>
             map_option (\<lambda>(n', hs'). Bitvec sz n' d (AHash hs'))
               (bv_rebuild hs (i + 1) (0, replicate BITVEC_NINT 0))
         | _ \<Rightarrow> None))"

definition BitvecClear :: "bitvec option \<Rightarrow> nat \<Rightarrow> bitvec option option" where
  "BitvecClear pp i =
     (case pp of
        None \<Rightarrow> Some None
      | Some p \<Rightarrow> map_option Some (bv_clear_loop p (i - 1)))"

definition BitvecSize :: "bitvec \<Rightarrow> nat" where
  "BitvecSize p = iSize p"

section \<open>Facts about the parts\<close>

subsection \<open>The plain bitmap\<close>

lemma bm_bit_iff: "bm_bit bs i \<longleftrightarrow> bit (bs ! (i div 8)) (i mod 8)"
  by (simp add: bm_bit_def bitvec_geometry bit_iff_and_push_bit_not_eq_0)

lemma div_mod_8_eq: "(i::nat) div 8 = j div 8 \<Longrightarrow> i mod 8 = j mod 8 \<Longrightarrow> i = j"
  by (metis div_mult_mod_eq)

lemma byte_bits:
  fixes w :: u8
  shows byte_set_bit: "bit (w OR 2 ^ (k mod 8)) (j mod 8) \<longleftrightarrow> j mod 8 = k mod 8 \<or> bit w (j mod 8)"
    and byte_clear_bit: "bit (w AND NOT (2 ^ (k mod 8))) (j mod 8) \<longleftrightarrow> j mod 8 \<noteq> k mod 8 \<and> bit w (j mod 8)"
  by (auto simp: bit_or_iff bit_and_iff bit_not_iff bit_exp_iff)

lemma bm_bit_set:
  assumes "i div 8 < length bs"
  shows "bm_bit (bs[i div 8 := bs ! (i div 8) OR push_bit (i mod 8) 1]) j
       \<longleftrightarrow> j = i \<or> bm_bit bs j"
proof (cases "j div 8 = i div 8")
  case True
  then have "j = i \<longleftrightarrow> j mod 8 = i mod 8" using div_mod_8_eq [of j i] by auto
  with assms True show ?thesis by (simp add: bm_bit_iff byte_set_bit)
next
  case False
  then show ?thesis by (auto simp: bm_bit_iff)
qed

lemma bm_bit_clear:
  assumes "i div 8 < length bs"
  shows "bm_bit (bs[i div 8 := bs ! (i div 8) AND NOT (push_bit (i mod 8) 1)]) j
       \<longleftrightarrow> j \<noteq> i \<and> bm_bit bs j"
proof (cases "j div 8 = i div 8")
  case True
  then have "j = i \<longleftrightarrow> j mod 8 = i mod 8" using div_mod_8_eq [of j i] by auto
  with assms True show ?thesis by (simp add: bm_bit_iff byte_clear_bit)
next
  case False
  then show ?thesis by (auto simp: bm_bit_iff)
qed

subsection \<open>The hash table\<close>

definition hash_reach :: "nat list \<Rightarrow> nat \<Rightarrow> nat \<Rightarrow> bool" where
  "hash_reach hs h v \<longleftrightarrow>
     (\<exists>d<BITVEC_NINT. hs ! ((h + d) mod BITVEC_NINT) = v \<and>
        (\<forall>e<d. hs ! ((h + e) mod BITVEC_NINT) \<noteq> 0))"

definition hash_wf :: "nat \<Rightarrow> nat list \<Rightarrow> bool" where
  "hash_wf sz hs \<longleftrightarrow> length hs = BITVEC_NINT \<and> count_used hs < BITVEC_NINT \<and>
     (\<forall>v\<in>set hs. v \<le> sz \<and> (v \<noteq> 0 \<longrightarrow> hash_reach hs (BITVEC_HASH (v - 1)) v))"

lemma hash_lt: "BITVEC_HASH x < BITVEC_NINT"
  by (simp add: BITVEC_HASH_def bitvec_geometry)

text \<open>Where a probe stops: at the first slot that is zero or holds the value.\<close>

lemma bv_probe_stops:
  assumes "\<exists>d<n. hs ! ((h + d) mod BITVEC_NINT) = 0" "h < BITVEC_NINT" "i \<noteq> 0"
  shows "\<exists>d<n. (\<forall>e<d. hs ! ((h + e) mod BITVEC_NINT) \<notin> {0, i}) \<and>
     (hs ! ((h + d) mod BITVEC_NINT) = 0 \<and>
        bv_probe n hs h i = Some (Free ((h + d) mod BITVEC_NINT)) \<or>
      hs ! ((h + d) mod BITVEC_NINT) = i \<and> bv_probe n hs h i = Some Found)"
  using assms
proof (induction n hs h i rule: bv_probe.induct)
  case (1 hs h i)
  then show ?case by simp
next
  case (2 n hs h i)
  let ?at = "\<lambda>h d. hs ! ((h + d) mod BITVEC_NINT)"
  show ?case
  proof (cases "hs ! h = 0 \<or> hs ! h = i")
    case True
    with "2.prems" show ?thesis by (intro exI [of _ 0]) auto
  next
    case False
    have shift: "?at (Suc h mod BITVEC_NINT) d = ?at h (Suc d)" for d
      by (metis add_Suc_shift mod_add_left_eq)
    from "2.prems"(1) obtain d where d: "d < Suc n" "?at h d = 0" by blast
    with False "2.prems"(2) obtain d' where "d = Suc d'" by (cases d) auto
    with d have "\<exists>d<n. ?at ((h + 1) mod BITVEC_NINT) d = 0"
      by (intro exI [of _ d']) (simp add: shift)
    from "2.IH" [OF _ _ this] False "2.prems"(2,3) obtain d where
      d: "d < n" "\<forall>e<d. ?at h (Suc e) \<notin> {0, i}"
      "?at h (Suc d) = 0 \<and> bv_probe n hs ((h + 1) mod BITVEC_NINT) i =
           Some (Free ((h + Suc d) mod BITVEC_NINT)) \<or>
       ?at h (Suc d) = i \<and> bv_probe n hs ((h + 1) mod BITVEC_NINT) i = Some Found"
      by (auto simp: bitvec_geometry mod_simps)
    have "\<forall>e<Suc d. ?at h e \<notin> {0, i}"
      using d(2) False "2.prems"(2) by (auto simp: less_Suc_eq_0_disj)
    with d False show ?thesis by (intro exI [of _ "Suc d"]) auto
  qed
qed

lemma zero_slot_ahead:
  assumes "length hs = BITVEC_NINT" "count_used hs < BITVEC_NINT" "h < BITVEC_NINT"
  shows "\<exists>d<BITVEC_NINT. hs ! ((h + d) mod BITVEC_NINT) = 0"
proof -
  from free_slot_exists assms obtain s where s: "s < BITVEC_NINT" "hs ! s = 0" by metis
  show ?thesis
    using s assms(3)
    by (intro exI [of _ "(s + BITVEC_NINT - h) mod BITVEC_NINT"])
       (simp add: mod_simps bitvec_geometry)
qed

lemma hash_reach_mem: "length hs = BITVEC_NINT \<Longrightarrow> hash_reach hs h v \<Longrightarrow> v \<in> set hs"
  by (auto simp: hash_reach_def bitvec_geometry)

lemma bv_probe_wf:
  assumes wf: "hash_wf sz hs" and i: "0 < i"
  shows "i \<in> set hs \<Longrightarrow> bv_probe BITVEC_NINT hs (BITVEC_HASH (i - 1)) i = Some Found"
    and "i \<notin> set hs \<Longrightarrow> \<exists>d<BITVEC_NINT. let s = (BITVEC_HASH (i - 1) + d) mod BITVEC_NINT in
           bv_probe BITVEC_NINT hs (BITVEC_HASH (i - 1)) i = Some (Free s) \<and> hs ! s = 0 \<and>
           (\<forall>e<d. hs ! ((BITVEC_HASH (i - 1) + e) mod BITVEC_NINT) \<noteq> 0)"
proof -
  let ?h = "BITVEC_HASH (i - 1)"
  let ?at = "\<lambda>d. hs ! ((?h + d) mod BITVEC_NINT)"
  have len: "length hs = BITVEC_NINT" using wf by (simp add: hash_wf_def)
  from wf have "\<exists>d<BITVEC_NINT. ?at d = 0"
    by (intro zero_slot_ahead hash_lt) (simp_all add: hash_wf_def)
  from bv_probe_stops [OF this hash_lt] i obtain d where d: "d < BITVEC_NINT"
    "\<forall>e<d. ?at e \<notin> {0, i}"
    "?at d = 0 \<and> bv_probe BITVEC_NINT hs ?h i = Some (Free ((?h + d) mod BITVEC_NINT)) \<or>
     ?at d = i \<and> bv_probe BITVEC_NINT hs ?h i = Some Found"
    by blast
  have in_set: "?at e \<in> set hs" for e
    using len by (simp add: bitvec_geometry)
  show "bv_probe BITVEC_NINT hs ?h i = Some Found" if "i \<in> set hs"
  proof -
    from that wf i have "hash_reach hs ?h i" by (simp add: hash_wf_def)
    then obtain r where r: "?at r = i" "\<forall>e<r. ?at e \<noteq> 0" by (auto simp: hash_reach_def)
    have "?at d \<noteq> 0"
    proof
      assume z: "?at d = 0"
      with r have "r \<le> d" by (metis not_le)
      with z r(1) i d(2) show False by (metis insertCI le_neq_implies_less less_irrefl)
    qed
    with d(3) show ?thesis by blast
  qed
  show "\<exists>d<BITVEC_NINT. let s = (?h + d) mod BITVEC_NINT in
           bv_probe BITVEC_NINT hs ?h i = Some (Free s) \<and> hs ! s = 0 \<and>
           (\<forall>e<d. ?at e \<noteq> 0)" if "i \<notin> set hs"
    using d that in_set [of d] by (intro exI [of _ d]) (auto simp: Let_def)
qed

text \<open>Filling a free slot at the end of the value's probe sequence.\<close>

lemma hash_reach_update:
  assumes "hash_reach hs h v" "hs ! s = 0" "v \<noteq> 0" "w \<noteq> 0" "length hs = BITVEC_NINT"
  shows "hash_reach (hs[s := w]) h v"
proof -
  from assms(1) obtain d where d: "d < BITVEC_NINT" "hs ! ((h + d) mod BITVEC_NINT) = v"
    "\<forall>e<d. hs ! ((h + e) mod BITVEC_NINT) \<noteq> 0"
    by (auto simp: hash_reach_def)
  with assms show ?thesis
    unfolding hash_reach_def
    by (intro exI [of _ d]) (auto simp: nth_update_zero)
qed

lemma set_update_free:
  assumes "s < length hs" "hs ! s = 0"
  shows "set (hs[s := v]) - {0} = insert v (set hs - {0}) - {0}"
proof -
  have "x \<in> set (hs[s := v]) \<longleftrightarrow> x = v \<or> x \<in> set hs" if "x \<noteq> 0" for x
  proof
    show "x \<in> set (hs[s := v]) \<Longrightarrow> x = v \<or> x \<in> set hs"
      using set_update_subset_insert [of hs s v] by blast
    show "x = v \<or> x \<in> set hs \<Longrightarrow> x \<in> set (hs[s := v])"
      using assms that by (auto simp: in_set_conv_nth nth_list_update)
  qed
  then show ?thesis by auto
qed

lemma hash_put:
  assumes wf: "hash_wf sz hs" and v: "0 < v" "v \<le> sz" and room: "Suc (count_used hs) < BITVEC_NINT"
    and d: "d < BITVEC_NINT" "s = (BITVEC_HASH (v - 1) + d) mod BITVEC_NINT" "hs ! s = 0"
      "\<forall>e<d. hs ! ((BITVEC_HASH (v - 1) + e) mod BITVEC_NINT) \<noteq> 0"
  shows "hash_wf sz (hs[s := v])"
    and "set (hs[s := v]) - {0} = insert v (set hs - {0})"
    and "count_used (hs[s := v]) = Suc (count_used hs)"
proof -
  have len: "length hs = BITVEC_NINT" using wf by (simp add: hash_wf_def)
  have s: "s < length hs" using d(2) len by (simp add: bitvec_geometry)
  show count: "count_used (hs[s := v]) = Suc (count_used hs)"
    using s d(3) v by (simp add: count_used_update)
  show set: "set (hs[s := v]) - {0} = insert v (set hs - {0})"
    using set_update_free [OF s d(3)] v by auto
  have here: "hash_reach (hs[s := v]) (BITVEC_HASH (v - 1)) v"
    unfolding hash_reach_def using d s v
    by (intro exI [of _ d]) (auto simp: nth_list_update)
  have "w \<le> sz \<and> (w \<noteq> 0 \<longrightarrow> hash_reach (hs[s := v]) (BITVEC_HASH (w - 1)) w)"
    if w: "w \<in> set (hs[s := v])" for w
  proof (cases "w = 0 \<or> w = v")
    case True
    with v here show ?thesis by auto
  next
    case False
    with w set have "w \<in> set hs" by auto
    with wf have "w \<le> sz" "hash_reach hs (BITVEC_HASH (w - 1)) w"
      using False by (auto simp: hash_wf_def)
    with False v d(3) len show ?thesis by (auto intro: hash_reach_update)
  qed
  with len room count show "hash_wf sz (hs[s := v])" by (simp add: hash_wf_def)
qed

lemma hash_wf_empty: "hash_wf sz (replicate BITVEC_NINT 0)"
  by (simp add: hash_wf_def bitvec_geometry)

lemma bv_free_slot_probe:
  "\<forall>v\<in>set hs. v \<noteq> i \<Longrightarrow> i \<noteq> 0 \<Longrightarrow> length hs = BITVEC_NINT \<Longrightarrow> h < BITVEC_NINT \<Longrightarrow>
   bv_free_slot n hs h = (case bv_probe n hs h i of Some (Free s) \<Rightarrow> Some s | _ \<Rightarrow> None)"
proof (induction n hs h rule: bv_free_slot.induct)
  case (1 hs h)
  then show ?case by simp
next
  case (2 n hs h)
  have step: "(if h + 1 \<ge> BITVEC_NINT then 0 else h + 1) = (h + 1) mod BITVEC_NINT"
    using "2.prems"(4) by (auto simp: le_Suc_eq)
  have "hs ! h \<noteq> i" using "2.prems" by auto
  moreover have "(h + 1) mod BITVEC_NINT < BITVEC_NINT" by (simp add: bitvec_geometry)
  ultimately show ?case
    using "2.IH" [OF _ "2.prems"(1-3)] unfolding bv_free_slot.simps bv_probe.simps step
    by (simp split: probe.splits)
qed

lemma bv_free_slot_wf:
  assumes "hash_wf sz hs" "h < BITVEC_NINT"
  shows "\<exists>d<BITVEC_NINT. let s = (h + d) mod BITVEC_NINT in
           bv_free_slot BITVEC_NINT hs h = Some s \<and> hs ! s = 0 \<and>
           (\<forall>e<d. hs ! ((h + e) mod BITVEC_NINT) \<noteq> 0)"
proof -
  have len: "length hs = BITVEC_NINT" and fresh: "\<forall>v\<in>set hs. v \<noteq> Suc sz"
    using assms(1) by (auto simp: hash_wf_def)
  from assms have "\<exists>d<BITVEC_NINT. hs ! ((h + d) mod BITVEC_NINT) = 0"
    by (intro zero_slot_ahead) (simp_all add: hash_wf_def)
  from bv_probe_stops [OF this assms(2), of "Suc sz"] obtain d where d: "d < BITVEC_NINT"
    "\<forall>e<d. hs ! ((h + e) mod BITVEC_NINT) \<notin> {0, Suc sz}"
    "hs ! ((h + d) mod BITVEC_NINT) = 0 \<and>
       bv_probe BITVEC_NINT hs h (Suc sz) = Some (Free ((h + d) mod BITVEC_NINT)) \<or>
     hs ! ((h + d) mod BITVEC_NINT) = Suc sz \<and> bv_probe BITVEC_NINT hs h (Suc sz) = Some Found"
    by blast
  have "hs ! ((h + d) mod BITVEC_NINT) \<noteq> Suc sz"
    using fresh len by (simp add: bitvec_geometry)
  with d have "bv_probe BITVEC_NINT hs h (Suc sz) = Some (Free ((h + d) mod BITVEC_NINT))"
    "hs ! ((h + d) mod BITVEC_NINT) = 0"
    by blast+
  with d bv_free_slot_probe [OF fresh _ len assms(2)] show ?thesis
    by (intro exI [of _ d]) (auto simp: Let_def)
qed

lemma bv_rebuild_wf:
  "\<forall>v\<in>set vs. v \<le> sz \<Longrightarrow> hash_wf sz hs \<Longrightarrow> count_used hs + count_used vs < BITVEC_NINT \<Longrightarrow>
   \<exists>hs'. bv_rebuild vs i (count_used hs, hs) = Some (count_used hs', hs') \<and> hash_wf sz hs' \<and>
     set hs' - {0} = (set hs - {0}) \<union> (set vs - {0, i})"
proof (induction vs arbitrary: hs)
  case Nil
  then show ?case by auto
next
  case (Cons v vs)
  show ?case
  proof (cases "v \<noteq> 0 \<and> v \<noteq> i")
    case True
    obtain d where d: "d < BITVEC_NINT"
      "bv_free_slot BITVEC_NINT hs (BITVEC_HASH (v - 1)) =
         Some ((BITVEC_HASH (v - 1) + d) mod BITVEC_NINT)"
      "hs ! ((BITVEC_HASH (v - 1) + d) mod BITVEC_NINT) = 0"
      "\<forall>e<d. hs ! ((BITVEC_HASH (v - 1) + e) mod BITVEC_NINT) \<noteq> 0"
      using bv_free_slot_wf [OF Cons.prems(2) hash_lt [of "v - 1"]] by (auto simp: Let_def)
    let ?hs = "hs[(BITVEC_HASH (v - 1) + d) mod BITVEC_NINT := v]"
    have put: "hash_wf sz ?hs" "set ?hs - {0} = insert v (set hs - {0})"
      "count_used ?hs = Suc (count_used hs)"
      using hash_put [OF Cons.prems(2) _ _ _ d(1) refl d(3,4)] Cons.prems(1,3) True
      by (auto simp: count_used_def)
    have "count_used ?hs + count_used vs < BITVEC_NINT"
      using Cons.prems(3) put(3) True by (simp add: count_used_def)
    with Cons.IH [of ?hs] Cons.prems(1) put(1) obtain hs' where
      hs': "bv_rebuild vs i (count_used ?hs, ?hs) = Some (count_used hs', hs')" "hash_wf sz hs'"
      "set hs' - {0} = (set ?hs - {0}) \<union> (set vs - {0, i})"
      by auto
    with True d(2) put show ?thesis by (intro exI [of _ hs']) auto
  next
    case False
    with Cons.prems have "count_used hs + count_used vs < BITVEC_NINT"
      by (simp add: count_used_def split: if_splits)
    with Cons.IH [of hs] Cons.prems obtain hs' where
      "bv_rebuild vs i (count_used hs, hs) = Some (count_used hs', hs')" "hash_wf sz hs'"
      "set hs' - {0} = (set hs - {0}) \<union> (set vs - {0, i})"
      by auto
    with False show ?thesis by (intro exI [of _ hs']) auto
  qed
qed

section \<open>Well-formed objects\<close>

fun bv_wf :: "bitvec \<Rightarrow> bool" where
  "bv_wf (Bitvec sz n d un) \<longleftrightarrow>
     (case un of
        ABitmap bs \<Rightarrow> sz \<le> BITVEC_NBIT \<and> d = 0 \<and> length bs = BITVEC_NELEM
      | AHash hs \<Rightarrow> BITVEC_NBIT < sz \<and> d = 0 \<and> hash_wf sz hs \<and> n = count_used hs
      | ApSub subs \<Rightarrow> BITVEC_NBIT < sz \<and> d = bv_divisor sz \<and> length subs = BITVEC_NPTR \<and>
          (\<forall>k. case slot subs k of None \<Rightarrow> True | Some q \<Rightarrow> bv_wf q \<and> iSize q = d))"

lemma bv_new_wf: "bv_wf (bv_new sz)" "iSize (bv_new sz) = sz"
  by (auto simp: bv_new_def hash_wf_empty)

lemma bv_divisor_bounds:
  "BITVEC_NBIT \<le> bv_divisor sz" "sz \<le> BITVEC_NPTR * bv_divisor sz"
  "sz \<le> BITVEC_NBIT * 62 ^ Suc k \<Longrightarrow> bv_divisor sz \<le> BITVEC_NBIT * 62 ^ k"
proof -
  show "BITVEC_NBIT \<le> bv_divisor sz" by (simp add: bv_divisor_def Let_def)
  have "sz \<le> 62 * (sz div 62 + (if sz mod 62 \<noteq> 0 then 1 else 0))"
    by (rule le_ceil_div) simp
  then show "sz \<le> BITVEC_NPTR * bv_divisor sz"
    by (auto simp: bv_divisor_def Let_def bitvec_geometry)
  assume le: "sz \<le> BITVEC_NBIT * 62 ^ Suc k"
  let ?m = "BITVEC_NBIT * 62 ^ k"
  have "sz \<le> 62 * ?m" using le by simp
  then have "sz div 62 + (if sz mod 62 \<noteq> 0 then 1 else 0) \<le> ?m" by (rule ceil_div_le)
  moreover have "BITVEC_NBIT \<le> ?m" by simp
  ultimately show "bv_divisor sz \<le> ?m"
    by (auto simp: bv_divisor_def Let_def bitvec_geometry)
qed

lemma bv_divisor_pos: "0 < bv_divisor sz"
  using bv_divisor_bounds(1) [of sz] by (simp add: bitvec_geometry)

lemma bv_bin_lt: "i < sz \<Longrightarrow> i div bv_divisor sz < BITVEC_NPTR"
  using bv_divisor_bounds(2) [of sz] bv_divisor_pos
  by (simp add: less_mult_imp_div_less)

text \<open>The set an object stands for, bits counted from 0 as in the loops.\<close>

definition bv_has :: "bitvec \<Rightarrow> nat \<Rightarrow> bool" where
  "bv_has p i \<longleftrightarrow> bv_test_loop p i = Some True"

lemma bv_has_sub:
  "d \<noteq> 0 \<Longrightarrow> bv_has (Bitvec sz n d (ApSub subs)) i \<longleftrightarrow>
     (\<exists>q. slot subs (i div d) = Some q \<and> bv_has q (i mod d))"
  by (auto simp: bv_has_def split: option.splits)

lemma bv_has_hash:
  assumes "hash_wf sz hs" "BITVEC_NBIT < sz"
  shows "bv_test_loop (Bitvec sz n 0 (AHash hs)) i = Some (Suc i \<in> set hs)"
proof (cases "Suc i \<in> set hs")
  case True
  with assms bv_probe_wf(1) [OF assms(1), of "Suc i"] show ?thesis by simp
next
  case False
  with assms bv_probe_wf(2) [OF assms(1), of "Suc i"] show ?thesis by (auto simp: Let_def)
qed

lemma bv_test_loop_total: "bv_wf p \<Longrightarrow> \<exists>b. bv_test_loop p i = Some b"
proof (induction p i rule: bv_test_loop.induct)
  case (1 sz n d un i)
  show ?case
  proof (cases un)
    case (ABitmap bs)
    with "1.prems" show ?thesis by simp
  next
    case (AHash hs)
    with "1.prems" bv_has_hash [of sz hs n i] show ?thesis by auto
  next
    case (ApSub subs)
    with "1.prems" have d: "d \<noteq> 0" using bv_divisor_pos [of sz] by simp
    show ?thesis
    proof (cases "slot subs (i div d)")
      case None
      with ApSub d show ?thesis by (intro exI [of _ False]) simp
    next
      case (Some q)
      with "1.prems" ApSub have "bv_wf q" by (auto dest: spec [of _ "i div d"])
      with "1.IH" [OF d ApSub Some] ApSub d Some show ?thesis by simp
    qed
  qed
qed

lemma bv_new_empty: "i < sz \<Longrightarrow> \<not> bv_has (bv_new sz) i"
proof (cases "sz \<le> BITVEC_NBIT")
  case True
  then have "bv_has (bv_new sz) i \<longleftrightarrow> bm_bit (replicate BITVEC_NELEM 0) i"
    by (simp add: bv_has_def bv_new_def)
  moreover assume "i < sz"
  with True have "i div 8 < BITVEC_NELEM" by (simp add: bitvec_geometry)
  ultimately show ?thesis by (simp add: bm_bit_iff)
next
  case False
  then show ?thesis using bv_has_hash [OF hash_wf_empty [of sz], of 0 i]
    by (simp add: bv_new_def bv_has_def del: bv_test_loop.simps)
qed

section \<open>Setting a bit\<close>

text \<open>
  What a call of the set routine leaves behind: a well-formed object of the same size that
  holds nothing new but \<open>i\<close>; exactly the old values and \<open>i\<close> when the call succeeds; and it
  succeeds whenever every allocation does.
\<close>

definition bv_set_post ::
  "alloc \<Rightarrow> bitvec \<Rightarrow> nat set \<Rightarrow> (alloc \<times> rc \<times> bitvec) option \<Rightarrow> bool" where
  "bv_set_post a p I r \<longleftrightarrow>
     (\<exists>a' rc p'. r = Some (a', rc, p') \<and> bv_wf p' \<and> iSize p' = iSize p \<and>
        (iDivisor p \<noteq> 0 \<longrightarrow> iDivisor p' \<noteq> 0) \<and>
        (\<forall>j<iSize p. bv_has p' j \<longrightarrow> Suc j \<in> I \<or> bv_has p j) \<and>
        (rc = SQLITE_OK \<longrightarrow> (\<forall>j<iSize p. bv_has p' j \<longleftrightarrow> Suc j \<in> I \<or> bv_has p j)) \<and>
        (no_oom a \<longrightarrow> rc = SQLITE_OK \<and> no_oom a'))"

lemma bv_set_postI:
  assumes "r = Some (a', rc, p')" "bv_wf p'" "iSize p' = iSize p"
    "iDivisor p \<noteq> 0 \<Longrightarrow> iDivisor p' \<noteq> 0"
    "\<And>j. j < iSize p \<Longrightarrow> bv_has p' j \<Longrightarrow> Suc j \<in> I \<or> bv_has p j"
    "\<And>j. rc = SQLITE_OK \<Longrightarrow> j < iSize p \<Longrightarrow> Suc j \<in> I \<or> bv_has p j \<Longrightarrow> bv_has p' j"
    "no_oom a \<Longrightarrow> rc = SQLITE_OK \<and> no_oom a'"
  shows "bv_set_post a p I r"
  using assms unfolding bv_set_post_def by blast

lemma bv_insert_all_post:
  assumes ins: "\<And>a p v. bv_wf p \<Longrightarrow> iSize p = sz \<Longrightarrow> iDivisor p \<noteq> 0 \<Longrightarrow> 0 < v \<Longrightarrow> v \<le> sz \<Longrightarrow>
      bv_set_post a p {v} (ins a p v)"
  shows "bv_wf p \<Longrightarrow> iSize p = sz \<Longrightarrow> iDivisor p \<noteq> 0 \<Longrightarrow> \<forall>v\<in>set vs. v \<le> sz \<Longrightarrow>
    \<exists>a' rc' p'. bv_insert_all ins vs (a, rc, p) = Some (a', rc', p') \<and> bv_wf p' \<and> iSize p' = sz \<and>
      iDivisor p' \<noteq> 0 \<and> (\<forall>j < sz. bv_has p' j \<longrightarrow> Suc j \<in> set vs \<or> bv_has p j) \<and>
      (rc' = SQLITE_OK \<longrightarrow> rc = SQLITE_OK \<and>
         (\<forall>j < sz. bv_has p' j \<longleftrightarrow> Suc j \<in> set vs \<or> bv_has p j)) \<and>
      (no_oom a \<longrightarrow> rc' = rc \<and> no_oom a')"
proof (induction vs arbitrary: a rc p)
  case Nil
  then show ?case by simp
next
  case (Cons v vs)
  show ?case
  proof (cases "v = 0")
    case True
    with Cons.IH [of p a rc] Cons.prems show ?thesis by simp
  next
    case False
    with Cons.prems ins [of p v a] obtain a1 rc1 p1 where
      1: "ins a p v = Some (a1, rc1, p1)" "bv_wf p1" "iSize p1 = sz" "iDivisor p1 \<noteq> 0"
      "\<forall>j < sz. bv_has p1 j \<longrightarrow> Suc j = v \<or> bv_has p j"
      "rc1 = SQLITE_OK \<longrightarrow> (\<forall>j < sz. bv_has p1 j \<longleftrightarrow> Suc j = v \<or> bv_has p j)"
      "no_oom a \<longrightarrow> rc1 = SQLITE_OK \<and> no_oom a1"
      by (auto simp: bv_set_post_def)
    from Cons.IH [of p1 a1 "rc OR rc1"] 1(2-4) Cons.prems(4) obtain a2 rc2 p2 where
      2: "bv_insert_all ins vs (a1, rc OR rc1, p1) = Some (a2, rc2, p2)" "bv_wf p2"
      "iSize p2 = sz" "iDivisor p2 \<noteq> 0"
      "\<forall>j < sz. bv_has p2 j \<longrightarrow> Suc j \<in> set vs \<or> bv_has p1 j"
      "rc2 = SQLITE_OK \<longrightarrow> rc OR rc1 = SQLITE_OK \<and>
         (\<forall>j < sz. bv_has p2 j \<longleftrightarrow> Suc j \<in> set vs \<or> bv_has p1 j)"
      "no_oom a1 \<longrightarrow> rc2 = rc OR rc1 \<and> no_oom a2"
      by auto
    have "bv_insert_all ins (v # vs) (a, rc, p) = Some (a2, rc2, p2)"
      using False 1(1) 2(1) by simp
    moreover have "\<forall>j < sz. bv_has p2 j \<longrightarrow> Suc j \<in> set (v # vs) \<or> bv_has p j"
      using 1(5) 2(5) by auto
    moreover have "rc2 = SQLITE_OK \<longrightarrow> rc = SQLITE_OK \<and>
         (\<forall>j < sz. bv_has p2 j \<longleftrightarrow> Suc j \<in> set (v # vs) \<or> bv_has p j)"
      using 1(6) 2(6) by (auto simp: or_eq_0_iff)
    moreover have "no_oom a \<longrightarrow> rc2 = rc \<and> no_oom a2"
      using 1(7) 2(7) by simp
    ultimately show ?thesis using 2(2-4) by blast
  qed
qed

text \<open>The hash-table leaf: a value found, put into a free slot, or the table subdivided.\<close>

lemma bv_has_hash_iff:
  "hash_wf sz hs \<Longrightarrow> BITVEC_NBIT < sz \<Longrightarrow> bv_has (Bitvec sz n 0 (AHash hs)) j \<longleftrightarrow> Suc j \<in> set hs"
  using bv_has_hash [of sz hs n j] by (simp add: bv_has_def del: bv_test_loop.simps)

lemma bv_set_hash_put:
  assumes "hash_wf sz hs" "BITVEC_NBIT < sz" "0 < i" "i \<le> sz"
    and "Suc (count_used hs) < BITVEC_NINT" "d < BITVEC_NINT"
    and "s = (BITVEC_HASH (i - 1) + d) mod BITVEC_NINT" "hs ! s = 0"
    and "\<forall>e<d. hs ! ((BITVEC_HASH (i - 1) + e) mod BITVEC_NINT) \<noteq> 0"
  shows "bv_set_post a (Bitvec sz (count_used hs) 0 (AHash hs)) {i}
           (Some (a, SQLITE_OK, Bitvec sz (count_used hs + 1) 0 (AHash (hs[s := i]))))"
proof -
  note put = hash_put [OF assms(1,3-9)]
  have "Suc j \<in> set (hs[s := i]) \<longleftrightarrow> Suc j = i \<or> Suc j \<in> set hs" for j
    using put(2) assms(3) by (metis Diff_iff empty_iff insert_iff nat.distinct(1))
  with put assms(1,2) show ?thesis
    by (intro bv_set_postI [OF refl]) (auto simp: bv_has_hash_iff)
qed

lemma bv_split_wf:
  assumes "BITVEC_NBIT < sz"
  shows "bv_wf (Bitvec sz n (bv_divisor sz) (ApSub (replicate BITVEC_NPTR None)))"
    and "\<not> bv_has (Bitvec sz n (bv_divisor sz) (ApSub (replicate BITVEC_NPTR None))) j"
  using assms bv_divisor_pos [of sz] by (simp_all add: bv_has_sub)

lemma bv_set_hash_rehash:
  assumes ins: "\<And>a p v. bv_wf p \<Longrightarrow> iSize p = sz \<Longrightarrow> iDivisor p \<noteq> 0 \<Longrightarrow> 0 < v \<Longrightarrow> v \<le> sz \<Longrightarrow>
      bv_set_post a p {v} (ins a p v)"
    and wf: "hash_wf sz hs" "BITVEC_NBIT < sz" "0 < i" "i \<le> sz" "n = count_used hs"
  shows "bv_set_post a (Bitvec sz n 0 (AHash hs)) {i}
     (if \<not> malloc_ok a then Some (malloc_rest a, SQLITE_NOMEM, Bitvec sz n 0 (AHash hs))
      else bv_insert_all ins (i # hs)
             (malloc_rest a, SQLITE_OK,
              Bitvec sz n (bv_divisor sz) (ApSub (replicate BITVEC_NPTR None))))"
proof (cases "malloc_ok a")
  case False
  with wf show ?thesis
    by (auto intro!: bv_set_postI simp: bv_has_hash_iff)
next
  case True
  let ?p = "Bitvec sz n (bv_divisor sz) (ApSub (replicate BITVEC_NPTR None))"
  have "\<forall>v\<in>set (i # hs). v \<le> sz" using wf by (auto simp: hash_wf_def)
  from bv_insert_all_post [OF ins bv_split_wf(1) [OF wf(2), of n] _ _ this, of "malloc_rest a" SQLITE_OK]
    bv_divisor_pos [of sz]
  obtain a' rc' p' where
    "bv_insert_all ins (i # hs) (malloc_rest a, SQLITE_OK, ?p) = Some (a', rc', p')" "bv_wf p'"
    "iSize p' = sz" "\<forall>j < sz. bv_has p' j \<longrightarrow> Suc j \<in> set (i # hs) \<or> bv_has ?p j"
    "rc' = SQLITE_OK \<longrightarrow> (\<forall>j < sz. bv_has p' j \<longleftrightarrow> Suc j \<in> set (i # hs) \<or> bv_has ?p j)"
    "no_oom (malloc_rest a) \<longrightarrow> rc' = SQLITE_OK \<and> no_oom a'"
    by auto
  with True wf bv_split_wf(2) [OF wf(2), of n] show ?thesis
    by (intro bv_set_postI [where a' = a' and rc = rc' and p' = p'])
       (auto simp: bv_has_hash_iff)
qed

text \<open>One step down: the result for a sub-bitmap carried over to the object above it.\<close>

lemma div_mod_eq_iff: "(j :: nat) = k \<longleftrightarrow> j div d = k div d \<and> j mod d = k mod d"
  by (metis div_mult_mod_eq)

lemma bv_sub_store_has:
  assumes "length subs = BITVEC_NPTR" "bin < BITVEC_NPTR" "d \<noteq> 0"
  shows "bv_has (Bitvec sz n d (ApSub (subs[bin := Some q]))) j \<longleftrightarrow>
     (if j div d = bin then bv_has q (j mod d) else bv_has (Bitvec sz n d (ApSub subs)) j)"
  using assms by (auto simp: bv_has_sub slot_update)

lemma bv_sub_store_wf:
  assumes "bv_wf (Bitvec sz n d (ApSub subs))" "bv_wf q" "iSize q = d"
  shows "bv_wf (Bitvec sz n d (ApSub (subs[bin := Some q])))"
  using assms by (auto simp: slot_update)

lemma bv_set_descend:
  assumes wf: "bv_wf (Bitvec sz n d (ApSub subs))" and i: "0 < i" "i \<le> sz"
    and q: "iSize q = d"
      "\<And>j. j div d = (i - 1) div d \<Longrightarrow> bv_has (Bitvec sz n d (ApSub subs)) j \<longleftrightarrow> bv_has q (j mod d)"
    and post: "bv_set_post a' q {(i - 1) mod d + 1} r" and mem: "no_oom a \<Longrightarrow> no_oom a'"
  shows "bv_set_post a (Bitvec sz n d (ApSub subs)) {i}
     (map_option (\<lambda>(a'', rc, q'). (a'', rc,
        Bitvec sz n d (ApSub (subs[(i - 1) div d := Some q'])))) r)"
proof -
  have d: "d = bv_divisor sz" "length subs = BITVEC_NPTR" "d \<noteq> 0"
    using wf bv_divisor_pos [of sz] by auto
  have bin: "(i - 1) div d < BITVEC_NPTR" using bv_bin_lt [of "i - 1" sz] i d by simp
  from post obtain a'' rc q' where r: "r = Some (a'', rc, q')" "bv_wf q'" "iSize q' = d"
    "\<forall>j<d. bv_has q' j \<longrightarrow> j = (i - 1) mod d \<or> bv_has q j"
    "rc = SQLITE_OK \<longrightarrow> (\<forall>j<d. bv_has q' j \<longleftrightarrow> j = (i - 1) mod d \<or> bv_has q j)"
    "no_oom a' \<longrightarrow> rc = SQLITE_OK \<and> no_oom a''"
    using q(1) by (auto simp: bv_set_post_def)
  let ?p = "Bitvec sz n d (ApSub subs)"
  let ?p' = "Bitvec sz n d (ApSub (subs[(i - 1) div d := Some q']))"
  have has: "bv_has ?p' j \<longleftrightarrow> (if j div d = (i - 1) div d then bv_has q' (j mod d) else bv_has ?p j)"
    for j using bv_sub_store_has [OF d(2) bin d(3)] .
  have here: "Suc j = i \<longleftrightarrow> j div d = (i - 1) div d \<and> j mod d = (i - 1) mod d" for j
    using i div_mod_eq_iff [of j "i - 1" d] by auto
  have lt: "j mod d < d" for j using d(3) by simp
  show ?thesis
  proof (rule bv_set_postI)
    show "map_option (\<lambda>(a'', rc, q'). (a'', rc,
        Bitvec sz n d (ApSub (subs[(i - 1) div d := Some q'])))) r = Some (a'', rc, ?p')"
      by (simp add: r(1))
    show "bv_wf ?p'" using bv_sub_store_wf [OF wf r(2,3)] .
    show "Suc j \<in> {i} \<or> bv_has ?p j" if "bv_has ?p' j" for j
      using that [unfolded has] r(4) lt [of j] q(2) [of j] here [of j] by (auto split: if_splits)
    show "bv_has ?p' j" if "rc = SQLITE_OK" "Suc j \<in> {i} \<or> bv_has ?p j" for j
      unfolding has using that r(5) lt [of j] q(2) [of j] here [of j] by auto
    show "rc = SQLITE_OK \<and> no_oom a''" if "no_oom a" using r(6) mem that by blast
  qed (simp_all add: d(3))
qed

lemma bv_set_bitmap:
  assumes "sz \<le> BITVEC_NBIT" "length bs = BITVEC_NELEM" "0 < i" "i \<le> sz"
  shows "bv_set_post a (Bitvec sz n 0 (ABitmap bs)) {i} (bv_set (Suc f) a (Bitvec sz n 0 (ABitmap bs)) i)"
proof -
  have lt: "(i - 1) div 8 < length bs"
    using assms by (simp add: bitvec_geometry)
  have "bv_has (Bitvec sz n 0 (ABitmap bs)) j \<longleftrightarrow> bm_bit bs j" for bs j
    using assms by (simp add: bv_has_def)
  then show ?thesis
    using assms bm_bit_set [OF lt]
    by (intro bv_set_postI [where a' = a and rc = SQLITE_OK])
       (auto simp: Let_def bitvec_geometry)
qed

theorem bv_set_correct:
  "bv_wf p \<Longrightarrow> 0 < i \<Longrightarrow> i \<le> iSize p \<Longrightarrow> iSize p \<le> BITVEC_NBIT * 62 ^ k \<Longrightarrow>
   2 * k + 1 \<le> f \<or> iDivisor p \<noteq> 0 \<and> 2 * k \<le> f \<Longrightarrow> bv_set_post a p {i} (bv_set f a p i)"
proof (induction f arbitrary: p i k a)
  case 0
  then show ?case by (cases p) (auto split: bitvec_u.splits)
next
  case (Suc f)
  obtain sz n d un where p: "p = Bitvec sz n d un" by (cases p)
  show ?case
  proof (cases un)
    case (ABitmap bs)
    with Suc.prems p show ?thesis by (simp add: bv_set_bitmap del: bv_set.simps)
  next
    case (AHash hs)
    with Suc.prems p have wf: "hash_wf sz hs" "BITVEC_NBIT < sz" "0 < i" "i \<le> sz" "n = count_used hs" "d = 0"
      by auto
    have ins: "bv_set_post a p {v} (bv_set f a p v)"
      if "bv_wf p" "iSize p = sz" "iDivisor p \<noteq> 0" "0 < v" "v \<le> sz" for a p v
      using that Suc.prems(4,5) p wf(6) by (intro Suc.IH [where k = k]) auto
    note rehash = bv_set_hash_rehash [of sz "bv_set f" hs i n a, OF ins wf(1-5)]
    show ?thesis
    proof (cases "hs ! BITVEC_HASH (i - 1) = 0")
      case True
      have "bv_set_post a p {i} (Some (a, SQLITE_OK, Bitvec sz (n + 1) d (AHash (hs[BITVEC_HASH (i - 1) := i]))))"
        if "n < BITVEC_NINT - 1"
        using bv_set_hash_put [of sz hs i 0 "BITVEC_HASH (i - 1)" a] wf that True hash_lt [of "i - 1"] p AHash
        by simp
      moreover have "BITVEC_MXHASH \<le> n" if "\<not> n < BITVEC_NINT - 1"
        using that by (simp add: bitvec_geometry)
      ultimately show ?thesis
        using rehash True p AHash wf(2,6) by (simp add: Let_def del: bv_insert_all.simps)
    next
      case False
      show ?thesis
      proof (cases "i \<in> set hs")
        case True
        with False wf p AHash bv_probe_wf(1) [OF wf(1,3)] show ?thesis
          by (auto intro!: bv_set_postI simp: bv_has_hash_iff)
      next
        case fresh: False
        then obtain e where e: "e < BITVEC_NINT"
          "bv_probe BITVEC_NINT hs (BITVEC_HASH (i - 1)) i = Some (Free ((BITVEC_HASH (i - 1) + e) mod BITVEC_NINT))"
          "hs ! ((BITVEC_HASH (i - 1) + e) mod BITVEC_NINT) = 0"
          "\<forall>e'<e. hs ! ((BITVEC_HASH (i - 1) + e') mod BITVEC_NINT) \<noteq> 0"
          using bv_probe_wf(2) [OF wf(1,3)] by (auto simp: Let_def)
        have "bv_set_post a p {i} (Some (a, SQLITE_OK,
            Bitvec sz (n + 1) d (AHash (hs[(BITVEC_HASH (i - 1) + e) mod BITVEC_NINT := i]))))"
          if "n < BITVEC_MXHASH"
          using bv_set_hash_put [OF wf(1-4) _ e(1) refl e(3,4), of a] that wf(5,6) p AHash
          by (simp add: bitvec_geometry)
        then show ?thesis
          using rehash False e(2) p AHash wf(2,6) by (simp add: Let_def del: bv_insert_all.simps)
      qed
    qed
  next
    case (ApSub subs)
    with Suc.prems p have d: "BITVEC_NBIT < sz" "d = bv_divisor sz" "length subs = BITVEC_NPTR" "d \<noteq> 0" "i \<le> sz"
      using bv_divisor_pos [of sz] by auto
    obtain k' where k: "k = Suc k'" using Suc.prems(4) d(1) p by (cases k) auto
    have le: "d \<le> BITVEC_NBIT * 62 ^ k'" using bv_divisor_bounds(3) Suc.prems(4) p k d(2) by simp
    have IH: "bv_set_post a' q {(i - 1) mod d + 1} (bv_set f a' q ((i - 1) mod d + 1))"
      if "bv_wf q" "iSize q = d" for a' q
      using that Suc.prems(5) k le d(4) by (intro Suc.IH [where k = k']) (auto simp: Suc_leI)
    have wf: "bv_wf (Bitvec sz n d (ApSub subs))" using Suc.prems(1) by (simp only: p ApSub)
    show ?thesis
    proof (cases "slot subs ((i - 1) div d)")
      case (Some q)
      with Suc.prems(1) p ApSub have q: "bv_wf q" "iSize q = d"
        by (auto dest: spec [of _ "(i - 1) div d"])
      show ?thesis
        using bv_set_descend [OF wf Suc.prems(2) d(5) q(2) _ IH [OF q]] Some d p ApSub
        by (simp add: Let_def bv_has_sub)
    next
      case None
      have "\<not> bv_has (bv_new d) (j mod d)" for j using bv_new_empty d(4) by simp
      then have "bv_set_post a (Bitvec sz n d (ApSub subs)) {i}
         (map_option (\<lambda>(a'', rc, q'). (a'', rc,
            Bitvec sz n d (ApSub (subs[(i - 1) div d := Some q']))))
           (bv_set f (malloc_rest a) (bv_new d) ((i - 1) mod d + 1)))"
        using bv_set_descend [OF wf Suc.prems(2) d(5) bv_new_wf(2) _ IH [OF bv_new_wf]] None d
        by (simp add: bv_has_sub)
      moreover have "bv_set_post a p {i} (Some (malloc_rest a, SQLITE_NOMEM, p))" if "\<not> malloc_ok a"
        using that Suc.prems(1) by (intro bv_set_postI [OF refl]) auto
      ultimately show ?thesis using None d p ApSub by (simp add: Let_def BitvecCreate_def)
    qed
  qed
qed

section \<open>Clearing a bit\<close>

lemma bv_clear_hash:
  assumes wf: "hash_wf sz hs" "BITVEC_NBIT < sz"
  shows "\<exists>n' hs'. bv_clear_loop (Bitvec sz n 0 (AHash hs)) i = Some (Bitvec sz n' 0 (AHash hs')) \<and>
     n' = count_used hs' \<and> hash_wf sz hs' \<and> (\<forall>j. Suc j \<in> set hs' \<longleftrightarrow> j \<noteq> i \<and> Suc j \<in> set hs)"
proof -
  have "\<forall>v\<in>set hs. v \<le> sz" "count_used hs < BITVEC_NINT" using wf by (auto simp: hash_wf_def)
  then obtain hs' where hs': "bv_rebuild hs (i + 1) (0, replicate BITVEC_NINT 0) = Some (count_used hs', hs')"
    "hash_wf sz hs'" "set hs' - {0} = set hs - {0, i + 1}"
    using bv_rebuild_wf [of hs sz "replicate BITVEC_NINT 0" "i + 1"] hash_wf_empty by auto
  have "Suc j \<in> set hs' \<longleftrightarrow> j \<noteq> i \<and> Suc j \<in> set hs" for j
  proof -
    have "Suc j \<in> set hs' \<longleftrightarrow> Suc j \<in> set hs' - {0}" by simp
    then show ?thesis unfolding hs'(3) by auto
  qed
  with hs' wf(2) show ?thesis by (intro exI [of _ "count_used hs'"] exI [of _ hs']) simp
qed

lemma bv_clear_correct:
  "bv_wf p \<Longrightarrow> i < iSize p \<Longrightarrow>
   \<exists>p'. bv_clear_loop p i = Some p' \<and> bv_wf p' \<and> iSize p' = iSize p \<and>
     (\<forall>j<iSize p. bv_has p' j \<longleftrightarrow> j \<noteq> i \<and> bv_has p j)"
proof (induction p i rule: bv_clear_loop.induct)
  case (1 sz n d un i)
  show ?case
  proof (cases un)
    case (ABitmap bs)
    with "1.prems" have lt: "i div 8 < length bs" "sz \<le> BITVEC_NBIT" "d = 0"
      by (auto simp: bitvec_geometry)
    then have "bv_has (Bitvec sz n 0 (ABitmap bs)) j \<longleftrightarrow> bm_bit bs j" for bs j
      by (simp add: bv_has_def)
    with ABitmap "1.prems" lt bm_bit_clear [OF lt(1)] show ?thesis
      by (simp add: Let_def bitvec_geometry)
  next
    case (AHash hs)
    with "1.prems" have wf: "hash_wf sz hs" "BITVEC_NBIT < sz" "d = 0" by auto
    from bv_clear_hash [OF wf(1,2), of n i] AHash wf show ?thesis
      by (auto simp: bv_has_hash_iff simp del: bv_clear_loop.simps)
  next
    case (ApSub subs)
    with "1.prems"(1) have wf: "bv_wf (Bitvec sz n d (ApSub subs))" by (simp only:)
    then have d: "d = bv_divisor sz" "length subs = BITVEC_NPTR" "d \<noteq> 0"
      using bv_divisor_pos [of sz] by auto
    have bin: "i div d < BITVEC_NPTR" using bv_bin_lt [of i sz] "1.prems"(2) d by simp
    show ?thesis
    proof (cases "slot subs (i div d)")
      case None
      with ApSub d wf show ?thesis by (auto simp: bv_has_sub simp del: bv_wf.simps)
    next
      case (Some q)
      with wf have q: "bv_wf q" "iSize q = d" by (auto dest: spec [of _ "i div d"])
      have "i mod d < iSize q" using q d by simp
      from "1.IH" [OF d(3) ApSub Some q(1) this] q(2) obtain q' where
        q': "bv_clear_loop q (i mod d) = Some q'" "bv_wf q'" "iSize q' = d"
        "\<forall>j<d. bv_has q' j \<longleftrightarrow> j \<noteq> i mod d \<and> bv_has q j"
        by auto
      let ?p' = "Bitvec sz n d (ApSub (subs[i div d := Some q']))"
      have "bv_has ?p' j \<longleftrightarrow> j \<noteq> i \<and> bv_has (Bitvec sz n d (ApSub subs)) j" for j
      proof -
        have "j mod d < d" using d(3) by simp
        with q'(4) Some d(3) show ?thesis
          using bv_sub_store_has [OF d(2) bin d(3), of sz n q' j] div_mod_eq_iff [of j i d]
          by (auto simp: bv_has_sub)
      qed
      with q'(1) ApSub Some d(3) bv_sub_store_wf [OF wf q'(2,3), of "i div d"] show ?thesis
        by (simp del: bv_wf.simps)
    qed
  qed
qed

section \<open>The interface, and the properties of the component\<close>

text \<open>The largest 32-bit size stays below four levels of subdivision.\<close>

lemma four_levels: "sz < 2 ^ 32 \<Longrightarrow> sz \<le> BITVEC_NBIT * 62 ^ 4"
  by (simp add: bitvec_geometry)

lemma BitvecTestNotNull_iff:
  assumes "iSize p < 2 ^ 32" "j < 2 ^ 32"
  shows "BitvecTestNotNull p j =
     (if 0 < j \<and> j \<le> iSize p then bv_test_loop p (j - 1) else Some False)"
proof (cases "j = 0")
  case True
  with assms show ?thesis by (simp add: BitvecTestNotNull_def)
next
  case False
  then have "(j + 2 ^ 32 - 1) mod 2 ^ 32 = j - 1"
    using assms(2) by (simp add: mod_if)
  with False show ?thesis by (auto simp: BitvecTestNotNull_def Let_def)
qed

lemma BitvecTestNotNull_has:
  assumes "bv_wf p" "iSize p < 2 ^ 32" "j < 2 ^ 32"
  shows "BitvecTestNotNull p j = Some (0 < j \<and> j \<le> iSize p \<and> bv_has p (j - 1))"
  using BitvecTestNotNull_iff [OF assms(2,3)] bv_test_loop_total [OF assms(1), of "j - 1"]
  by (auto simp: bv_has_def)

definition bv_valid :: "bitvec \<Rightarrow> bool" where
  "bv_valid p \<longleftrightarrow> bv_wf p \<and> iSize p < 2 ^ 32"

lemma bv_set_9:
  assumes "bv_valid p" "0 < i" "i \<le> iSize p"
  shows "bv_set_post a p {i} (bv_set 9 a p i)"
  using assms four_levels by (intro bv_set_correct [where k = 4]) (auto simp: bv_valid_def)

lemma BitvecTestNotNull_total: "bv_valid p \<Longrightarrow> \<exists>b. BitvecTestNotNull p j = Some b"
  using bv_test_loop_total [of p]
  by (auto simp: BitvecTestNotNull_def bv_valid_def Let_def)

interpretation bv: page_set_clear bv_valid iSize bv_new BitvecTestNotNull "bv_set 9"
  "\<lambda>p i. bv_clear_loop p (i - 1)"
proof unfold_locales
  fix sz :: nat
  assume "sz < 2 ^ 32"
  then show "bv_valid (bv_new sz) \<and> iSize (bv_new sz) = sz \<and>
      (\<forall>j < 2 ^ 32. BitvecTestNotNull (bv_new sz) j = Some False)"
    using bv_new_wf [of sz] bv_new_empty [of _ sz] by (auto simp: bv_valid_def BitvecTestNotNull_has)
next
  fix s and i :: nat and a
  assume "bv_valid s" "0 < i" "i \<le> iSize s"
  from bv_set_9 [OF this, of a] this(1)
  show "\<exists>a' rc s'. bv_set 9 a s i = Some (a', rc, s') \<and> bv_valid s' \<and> iSize s' = iSize s \<and>
      (no_oom a \<longrightarrow> rc = SQLITE_OK \<and> no_oom a')"
    by (auto simp: bv_set_post_def bv_valid_def)
next
  fix s s' and i j :: nat and a a'
  assume *: "bv_valid s" "0 < i" "i \<le> iSize s" "j < 2 ^ 32" "bv_set 9 a s i = Some (a', SQLITE_OK, s')"
  then show "BitvecTestNotNull s' j = Some (j = i \<or> BitvecTestNotNull s j = Some True)"
    using bv_set_9 [OF *(1-3), of a]
    by (auto simp: bv_set_post_def bv_valid_def BitvecTestNotNull_has)
next
  fix s s' and i j :: nat and a a' rc
  assume *: "bv_valid s" "0 < i" "i \<le> iSize s" "j < 2 ^ 32" "bv_set 9 a s i = Some (a', rc, s')"
    "BitvecTestNotNull s' j = Some True"
  then show "j = i \<or> BitvecTestNotNull s j = Some True"
    using bv_set_9 [OF *(1-3), of a]
    by (cases j) (auto simp: bv_set_post_def bv_valid_def BitvecTestNotNull_has)
next
  fix s and i :: nat
  assume *: "bv_valid s" "0 < i" "i \<le> iSize s"
  then have "i - 1 < iSize s" by simp
  from bv_clear_correct [OF _ this] * show "\<exists>s'. bv_clear_loop s (i - 1) = Some s' \<and> bv_valid s' \<and>
      iSize s' = iSize s \<and>
      (\<forall>j < 2 ^ 32. BitvecTestNotNull s' j = Some (j \<noteq> i \<and> BitvecTestNotNull s j = Some True))"
    by (fastforce simp: bv_valid_def BitvecTestNotNull_has)
qed (simp add: BitvecTestNotNull_total)

text \<open>
  C17. Setting a bit of a valid object, when memory is available, ends with \<open>SQLITE_OK\<close> in a
  valid object of the same size; afterwards every 32-bit page number tests positive exactly
  if it is the one set or tested positive before. This covers the plain bitmap, the hash
  table, the subdivision of a full table with the re-insertion of its values, and the
  creation of sub-bitmaps on the way down.
\<close>

theorem bitvec_set_adds_bit:
  assumes "bv_valid p" "0 < i" "i \<le> BitvecSize p" "no_oom a"
  shows "\<exists>a' p'. BitvecSet a (Some p) i = Some (a', SQLITE_OK, Some p') \<and> bv_valid p' \<and>
     BitvecSize p' = BitvecSize p \<and>
     (\<forall>j < 2 ^ 32. BitvecTest (Some p') j = Some (j = i \<or> BitvecTest (Some p) j = Some True))"
proof -
  have i: "i \<le> iSize p" using assms(3) by (simp add: BitvecSize_def)
  from bv.set_returns [OF assms(1,2) i] assms(4) obtain a' p' where
    set: "bv_set 9 a p i = Some (a', SQLITE_OK, p')" "bv_valid p'" "iSize p' = iSize p"
    by blast
  with bv.set_ok [OF assms(1,2) i _ set(1)] show ?thesis
    by (auto simp: BitvecSet_def BitvecTest_def BitvecSize_def)
qed

theorem bitvec_set_adds_bit_witness:
  "\<exists>a' p'. BitvecSet (\<lambda>_. True) (Some (bv_new 100000)) 77777 = Some (a', SQLITE_OK, Some p') \<and>
     BitvecTest (Some p') 77777 = Some True"
proof -
  have "bv_valid (bv_new 100000)" by (simp add: bv.create)
  from bitvec_set_adds_bit [OF this, of 77777 "\<lambda>_. True"] bv_new_wf(2) [of 100000]
  show ?thesis by (force simp: BitvecSize_def)
qed

text \<open>
  C18. Whatever allocations fail, and however far a subdivision has got when they do, setting
  a bit returns (it does not loop), leaves a valid object of the same size, and the object
  never tests positive for a page number that was neither set now nor positive before. When
  the result code is \<open>SQLITE_OK\<close> nothing is lost either.
\<close>

theorem bitvec_set_oom_safe:
  assumes "bv_valid p" "0 < i" "i \<le> BitvecSize p"
  shows "\<exists>a' rc p'. BitvecSet a (Some p) i = Some (a', rc, Some p') \<and> bv_valid p' \<and>
     BitvecSize p' = BitvecSize p \<and>
     (\<forall>j < 2 ^ 32. BitvecTest (Some p') j = Some True \<longrightarrow> j = i \<or> BitvecTest (Some p) j = Some True) \<and>
     (rc = SQLITE_OK \<longrightarrow> BitvecTest (Some p') i = Some True \<and>
        (\<forall>j < 2 ^ 32. BitvecTest (Some p) j = Some True \<longrightarrow> BitvecTest (Some p') j = Some True))"
proof -
  have i: "i \<le> iSize p" "i < 2 ^ 32" using assms by (simp_all add: BitvecSize_def bv_valid_def)
  from bv.set_returns [OF assms(1,2) i(1)] obtain a' rc p' where
    set: "bv_set 9 a p i = Some (a', rc, p')" "bv_valid p'" "iSize p' = iSize p"
    by blast
  have "BitvecTestNotNull p' j = Some (j = i \<or> BitvecTestNotNull p j = Some True)"
    if "rc = SQLITE_OK" "j < 2 ^ 32" for j
    using bv.set_ok [OF assms(1,2) i(1) that(2)] set(1) that(1) by simp
  with bv.set_sound [OF assms(1,2) i(1) _ set(1)] set i(2) show ?thesis
    by (auto simp: BitvecSet_def BitvecTest_def BitvecSize_def)
qed

theorem bitvec_set_oom_safe_witness:
  "\<exists>a' rc p'. BitvecSet (\<lambda>_. False) (Some (bv_new 100000)) 77777 = Some (a', rc, Some p') \<and> bv_valid p'"
proof -
  have "bv_valid (bv_new 100000)" by (simp add: bv.create)
  from bitvec_set_oom_safe [OF this, of 77777 "\<lambda>_. False"] bv_new_wf(2) [of 100000]
  show ?thesis by (auto simp: BitvecSize_def)
qed

text \<open>
  C19. Clearing a bit returns a valid object of the same size in which that page number tests
  negative and every other one tests as before, although the whole hash table is rebuilt.
\<close>

theorem bitvec_clear_removes_bit:
  assumes "bv_valid p" "0 < i" "i \<le> BitvecSize p"
  shows "\<exists>p'. BitvecClear (Some p) i = Some (Some p') \<and> bv_valid p' \<and>
     BitvecSize p' = BitvecSize p \<and>
     (\<forall>j < 2 ^ 32. BitvecTest (Some p') j = Some (j \<noteq> i \<and> BitvecTest (Some p) j = Some True))"
proof -
  have "i \<le> iSize p" using assms(3) by (simp add: BitvecSize_def)
  from bv.clear [OF assms(1,2) this] show ?thesis
    by (auto simp: BitvecClear_def BitvecTest_def BitvecSize_def)
qed

theorem bitvec_clear_removes_bit_witness:
  "\<exists>p'. BitvecClear (Some (bv_new 5000)) 17 = Some (Some p') \<and> BitvecTest (Some p') 17 = Some False"
proof -
  have "bv_valid (bv_new 5000)" by (simp add: bv.create)
  from bitvec_clear_removes_bit [OF this, of 17] bv_new_wf(2) [of 5000]
  show ?thesis by (force simp: BitvecSize_def)
qed

end
