(* ===== verification/Bitvec_Selftest.thy ===== *)
theory Bitvec_Selftest
  imports Bitvec
begin

text \<open>
  \<open>sqlite3BitvecBuiltinTest\<close>: the interpreter of test programs built into \<open>bitvec.c\<close>, which
  runs every operation on the bitmap and on a linear array and compares the two. The theory
  models the interpreter and shows that it halts on every well-formed program and reports
  no discrepancy unless the program asks for one.
\<close>

section \<open>The interpreter\<close>

text \<open>
  The state of the main loop: program counter, the program (its operands are counted down in
  place), the linear array, the bitmap, how many random numbers have been drawn, and the
  allocations still to come. The random numbers themselves are a parameter.
\<close>

record selftest =
  st_pc :: nat
  st_op :: "int list"
  st_V :: "u8 list option"
  st_p :: bitvec
  st_rnd :: nat
  st_mem :: alloc

definition SETBIT :: "u8 list \<Rightarrow> nat \<Rightarrow> u8 list" where
  "SETBIT V i = V[i div 8 := V ! (i div 8) OR push_bit (i mod 8) 1]"

definition CLEARBIT :: "u8 list \<Rightarrow> nat \<Rightarrow> u8 list" where
  "CLEARBIT V i = V[i div 8 := V ! (i div 8) AND NOT (push_bit (i mod 8) 1)]"

definition TESTBIT :: "u8 list \<Rightarrow> nat \<Rightarrow> bool" where
  "TESTBIT V i \<longleftrightarrow> V ! (i div 8) AND push_bit (i mod 8) 1 \<noteq> 0"

text \<open>
  One pass through the \<open>switch\<close> and the operand handling after it: the bit number drawn
  (before reduction), the new program, how far the program counter moves, and the number of
  random draws. \<open>None\<close> is a read past the end of the program.
\<close>

definition selftest_fetch ::
  "(nat \<Rightarrow> int) \<Rightarrow> int \<Rightarrow> selftest \<Rightarrow> (int \<times> int list \<times> nat \<times> nat) option" where
  "selftest_fetch rnd opc s =
     (let pc = st_pc s; ops = st_op s;
          three = (opc = 1 \<or> opc = 2 \<or> opc = 5);
          nx = (if three then 4 else 2)
      in if pc + nx > length ops then None
         else
           (let i = (if three then ops ! (pc + 2) - 1 else rnd (st_rnd s));
                ops1 = (if three then ops[pc + 2 := ops ! (pc + 2) + ops ! (pc + 3)] else ops);
                ops2 = ops1[pc + 1 := ops1 ! (pc + 1) - 1];
                nx' = (if ops2 ! (pc + 1) > 0 then 0 else nx)
            in Some (i, ops2, nx', if three then st_rnd s else st_rnd s + 1)))"

text \<open>
  The main loop. The boolean says whether it ended at a halt opcode or by the jump to
  \<open>bitvec_end\<close> after a failed set; \<open>None\<close> is no result: out of fuel, a read past the end
  of the program, or a division by a zero \<open>sz\<close>.
\<close>

primrec selftest_loop :: "nat \<Rightarrow> (nat \<Rightarrow> int) \<Rightarrow> int \<Rightarrow> selftest \<Rightarrow> (bool \<times> selftest) option" where
  "selftest_loop 0 rnd sz s = None"
| "selftest_loop (Suc f) rnd sz s =
     (if st_pc s \<ge> length (st_op s) then None
      else
        (let opc = st_op s ! st_pc s in
         if opc = 0 then Some (True, s)
         else if opc \<ge> 6 then selftest_loop f rnd sz (s\<lparr>st_pc := st_pc s + 1\<rparr>)
         else
           (case selftest_fetch rnd opc s of
              None \<Rightarrow> None
            | Some (i0, ops, nx, r) \<Rightarrow>
                if sz = 0 then None
                else
                  (let i = nat ((i0 AND 0x7fffffff) mod \<bar>sz\<bar>);
                       s1 = s\<lparr>st_pc := st_pc s + nx, st_op := ops, st_rnd := r\<rparr>
                   in if opc AND 1 \<noteq> 0 then
                        (let s2 = s1\<lparr>st_V := map_option (\<lambda>V. SETBIT V (i + 1)) (st_V s1)\<rparr> in
                         if opc \<noteq> 5 then
                           (case bv_set 9 (st_mem s2) (st_p s2) (i + 1) of
                              None \<Rightarrow> None
                            | Some (a', rc, p') \<Rightarrow>
                                let s3 = s2\<lparr>st_mem := a', st_p := p'\<rparr> in
                                if rc \<noteq> SQLITE_OK then Some (False, s3)
                                else selftest_loop f rnd sz s3)
                         else selftest_loop f rnd sz s2)
                      else
                        (let s2 = s1\<lparr>st_V := map_option (\<lambda>V. CLEARBIT V (i + 1)) (st_V s1)\<rparr> in
                         case bv_clear_loop (st_p s2) i of
                           None \<Rightarrow> None
                         | Some p' \<Rightarrow> selftest_loop f rnd sz (s2\<lparr>st_p := p'\<rparr>))))))"

text \<open>The comparison at the end: the first bit that differs, or 0.\<close>

fun selftest_compare :: "u8 list \<Rightarrow> bitvec \<Rightarrow> nat \<Rightarrow> nat \<Rightarrow> int \<Rightarrow> int option" where
  "selftest_compare V p 0 i rc = Some rc"
| "selftest_compare V p (Suc n) i rc =
     (case BitvecTest (Some p) i of
        None \<Rightarrow> None
      | Some b \<Rightarrow> if TESTBIT V i \<noteq> b then Some (int i) else selftest_compare V p n (i + 1) rc)"

definition BitvecBuiltinTest ::
  "nat \<Rightarrow> alloc \<Rightarrow> (nat \<Rightarrow> int) \<Rightarrow> int \<Rightarrow> int list \<Rightarrow> int option" where
  "BitvecBuiltinTest f a rnd sz ops =
     (let n = (if sz \<le> 0 then nat ((2 * (- sz)) mod 2 ^ 32) else nat sz);
          (a1, pBitvec) = BitvecCreate a n;
          pV = (if sz > 0 \<and> malloc_ok a1 then Some (replicate (nat ((7 + sz) div 8 + 1)) 0) else None);
          a2 = (if sz > 0 then malloc_rest a1 else a1);
          tmp = malloc_ok a2;
          a3 = malloc_rest a2
      in case pBitvec of
           None \<Rightarrow> Some (-1)
         | Some p \<Rightarrow>
             if \<not> tmp \<or> (pV = None \<and> sz > 0) then Some (-1)
             else
               (case selftest_loop f rnd sz
                       \<lparr>st_pc = 0, st_op = ops, st_V = pV, st_p = p, st_rnd = 0, st_mem = a3\<rparr> of
                  None \<Rightarrow> None
                | Some (False, s) \<Rightarrow> Some (-1)
                | Some (True, s) \<Rightarrow>
                    (case st_V s of
                       None \<Rightarrow> Some 0
                     | Some V \<Rightarrow>
                         (case (BitvecTest None 0, BitvecTest (Some (st_p s)) (nat sz + 1),
                                BitvecTest (Some (st_p s)) 0) of
                            (Some t1, Some t2, Some t3) \<Rightarrow>
                              selftest_compare V (st_p s) (nat sz) 1
                                (of_bool t1 + of_bool t2 + of_bool t3 + (int (BitvecSize (st_p s)) - sz))
                          | _ \<Rightarrow> None))))"

section \<open>The linear array\<close>

lemma testbit_eq: "TESTBIT V i = bm_bit V i"
  by (simp add: TESTBIT_def bm_bit_def bitvec_geometry)

lemma testbit_set: "i div 8 < length V \<Longrightarrow> TESTBIT (SETBIT V i) j \<longleftrightarrow> j = i \<or> TESTBIT V j"
  using bm_bit_set [of i V j] by (simp add: testbit_eq SETBIT_def)

lemma testbit_clear: "i div 8 < length V \<Longrightarrow> TESTBIT (CLEARBIT V i) j \<longleftrightarrow> j \<noteq> i \<and> TESTBIT V j"
  using bm_bit_clear [of i V j] by (simp add: testbit_eq CLEARBIT_def)

text \<open>The invariant of the main loop: array and bitmap agree.\<close>

definition selftest_inv :: "int \<Rightarrow> selftest \<Rightarrow> bool" where
  "selftest_inv sz s \<longleftrightarrow>
     bv_valid (st_p s) \<and> iSize (st_p s) = nat sz \<and> no_oom (st_mem s) \<and>
     (\<exists>V. st_V s = Some V \<and> length V = nat ((7 + sz) div 8 + 1) \<and>
        (\<forall>j. 0 < j \<and> j \<le> nat sz \<longrightarrow> BitvecTestNotNull (st_p s) j = Some (TESTBIT V j)))"

lemma array_room: "0 < sz \<Longrightarrow> i < nat sz \<Longrightarrow> length V = nat ((7 + sz) div 8 + 1) \<Longrightarrow> Suc i div 8 < length V"
  by linarith

lemma selftest_set:
  assumes "selftest_inv sz s" "0 < sz" "sz < 2 ^ 31" "i < nat sz"
  shows "\<exists>a' p'. bv_set 9 (st_mem s) (st_p s) (Suc i) = Some (a', SQLITE_OK, p') \<and>
     selftest_inv sz (s\<lparr>st_V := map_option (\<lambda>V. SETBIT V (Suc i)) (st_V s), st_mem := a', st_p := p'\<rparr>)"
proof -
  from assms(1) obtain V where V: "st_V s = Some V" "length V = nat ((7 + sz) div 8 + 1)"
    "\<forall>j. 0 < j \<and> j \<le> nat sz \<longrightarrow> BitvecTestNotNull (st_p s) j = Some (TESTBIT V j)"
    and p: "bv_valid (st_p s)" "iSize (st_p s) = nat sz" "no_oom (st_mem s)"
    by (auto simp: selftest_inv_def)
  from bv.set_returns [OF p(1), of "Suc i" "st_mem s"] p assms(4) obtain a' p' where
    set: "bv_set 9 (st_mem s) (st_p s) (Suc i) = Some (a', SQLITE_OK, p')" "bv_valid p'"
    "iSize p' = iSize (st_p s)" "no_oom a'"
    by auto
  have "BitvecTestNotNull p' j = Some (TESTBIT (SETBIT V (Suc i)) j)" if "0 < j" "j \<le> nat sz" for j
    using bv.set_ok [OF p(1) _ _ _ set(1), of j] that p(2) assms V(3)
      testbit_set [OF array_room [OF assms(2,4) V(2)], of j] by simp
  with set V(1,2) p show ?thesis by (auto simp: selftest_inv_def SETBIT_def)
qed

lemma selftest_clear:
  assumes "selftest_inv sz s" "0 < sz" "sz < 2 ^ 31" "i < nat sz"
  shows "\<exists>p'. bv_clear_loop (st_p s) i = Some p' \<and>
     selftest_inv sz (s\<lparr>st_V := map_option (\<lambda>V. CLEARBIT V (Suc i)) (st_V s), st_p := p'\<rparr>)"
proof -
  from assms(1) obtain V where V: "st_V s = Some V" "length V = nat ((7 + sz) div 8 + 1)"
    "\<forall>j. 0 < j \<and> j \<le> nat sz \<longrightarrow> BitvecTestNotNull (st_p s) j = Some (TESTBIT V j)"
    and p: "bv_valid (st_p s)" "iSize (st_p s) = nat sz" "no_oom (st_mem s)"
    by (auto simp: selftest_inv_def)
  from bv.clear [OF p(1), of "Suc i"] p assms(4) obtain p' where
    clear: "bv_clear_loop (st_p s) i = Some p'" "bv_valid p'" "iSize p' = iSize (st_p s)"
    "\<forall>j < 2 ^ 32. BitvecTestNotNull p' j = Some (j \<noteq> Suc i \<and> BitvecTestNotNull (st_p s) j = Some True)"
    by auto
  have "BitvecTestNotNull p' j = Some (TESTBIT (CLEARBIT V (Suc i)) j)" if "0 < j" "j \<le> nat sz" for j
    using clear(4) that assms V(3) testbit_clear [OF array_room [OF assms(2,4) V(2)], of j] by simp
  with clear V(1,2) p show ?thesis by (auto simp: selftest_inv_def CLEARBIT_def)
qed

section \<open>Programs that halt\<close>

text \<open>
  A well-formed program: every opcode has its operands and a halt opcode comes last.
  Opcode 5, which makes the array and the bitmap differ on purpose, does not occur.
\<close>

definition selftest_operands :: "int \<Rightarrow> nat" where
  "selftest_operands opc = (if opc \<ge> 6 then 0 else if opc = 1 \<or> opc = 2 then 3 else 1)"

fun selftest_prog :: "int list \<Rightarrow> bool" where
  "selftest_prog [] = False"
| "selftest_prog (opc # rest) =
     (opc = 0 \<or> opc \<noteq> 5 \<and> selftest_operands opc \<le> length rest \<and>
        selftest_prog (drop (selftest_operands opc) rest))"

lemma selftest_prog_at:
  assumes "selftest_prog (drop pc ops)"
  shows "pc < length ops"
    and "ops ! pc \<noteq> 0 \<Longrightarrow> ops ! pc \<noteq> 5 \<and> pc + selftest_operands (ops ! pc) < length ops \<and>
           selftest_prog (drop (pc + Suc (selftest_operands (ops ! pc))) ops)"
proof -
  show pc: "pc < length ops" using assms by (cases "pc < length ops") auto
  then have "drop pc ops = ops ! pc # drop (Suc pc) ops" by (simp add: Cons_nth_drop_Suc)
  with assms show "ops ! pc \<noteq> 5 \<and> pc + selftest_operands (ops ! pc) < length ops \<and>
     selftest_prog (drop (pc + Suc (selftest_operands (ops ! pc))) ops)" if "ops ! pc \<noteq> 0"
    using that pc by (auto simp: add_ac)
qed

lemma selftest_prog_same_tail:
  assumes "pc < length ops" "length ops' = length ops" "ops' ! pc = ops ! pc"
    "drop (pc + Suc (selftest_operands (ops ! pc))) ops' =
     drop (pc + Suc (selftest_operands (ops ! pc))) ops"
    "selftest_prog (drop pc ops)"
  shows "selftest_prog (drop pc ops')"
proof -
  have "drop pc xs = xs ! pc # drop (Suc pc) xs" if "length xs = length ops" for xs :: "int list"
    using assms(1) that by (simp add: Cons_nth_drop_Suc)
  from this [of ops] this [of ops'] assms show ?thesis by (auto simp: add_ac)
qed

text \<open>
  What one pass does to the program: it moves on over the operands, or it stays and the
  count has gone down and is still positive.
\<close>

lemma selftest_fetch_progress:
  assumes "selftest_prog (drop (st_pc s) (st_op s))" "opc = st_op s ! st_pc s" "opc \<noteq> 0" "\<not> opc \<ge> 6"
  shows "\<exists>i ops nx r. selftest_fetch rnd opc s = Some (i, ops, nx, r) \<and> length ops = length (st_op s) \<and>
     selftest_prog (drop (st_pc s + nx) ops) \<and>
     (nx > 0 \<or> nat (ops ! (st_pc s + 1)) < nat (st_op s ! (st_pc s + 1)))"
proof -
  let ?pc = "st_pc s" and ?k = "selftest_operands opc" and ?ops = "st_op s"
  note at = selftest_prog_at [OF assms(1)]
  have k: "opc \<noteq> 5" "?pc + ?k < length ?ops" "selftest_prog (drop (?pc + Suc ?k) ?ops)"
    using at(2) assms(2,3) by auto
  let ?three = "opc = 1 \<or> opc = 2"
  have nx: "Suc ?k = (if ?three then 4 else 2)" using assms(4) by (simp add: selftest_operands_def)
  define ops1 where "ops1 = (if ?three then ?ops[?pc + 2 := ?ops ! (?pc + 2) + ?ops ! (?pc + 3)] else ?ops)"
  define ops2 where "ops2 = ops1[?pc + 1 := ops1 ! (?pc + 1) - 1]"
  have len: "length ops2 = length ?ops" by (simp add: ops1_def ops2_def)
  have count: "ops2 ! (?pc + 1) = ?ops ! (?pc + 1) - 1"
    using k(2) nx by (auto simp: ops1_def ops2_def nth_list_update split: if_splits)
  have tail: "drop (?pc + Suc ?k) ops2 = drop (?pc + Suc ?k) ?ops"
    using nx by (auto simp: ops1_def ops2_def)
  have same: "ops2 ! ?pc = ?ops ! ?pc" by (simp add: ops1_def ops2_def)
  have stay: "selftest_prog (drop ?pc ops2)"
    using selftest_prog_same_tail [OF at(1) len same] tail assms(1,2) by simp
  let ?nx = "if ops2 ! (?pc + 1) > 0 then 0 else Suc ?k"
  have room: "\<not> ?pc + (if ?three then 4 else 2) > length ?ops" using k(2) nx by (auto split: if_splits)
  have "selftest_fetch rnd opc s =
      Some (if ?three then ?ops ! (?pc + 2) - 1 else rnd (st_rnd s), ops2, ?nx,
            if ?three then st_rnd s else st_rnd s + 1)"
    unfolding selftest_fetch_def Let_def using k(1) room nx
    by (simp add: ops1_def ops2_def split: if_split_asm)
  moreover have "selftest_prog (drop (?pc + ?nx) ops2)"
    using stay k(3) tail by simp
  moreover have "?nx > 0 \<or> nat (ops2 ! (?pc + 1)) < nat (?ops ! (?pc + 1))"
    using count by auto
  ultimately show ?thesis using len by blast
qed

section \<open>The main loop keeps array and bitmap in step, and ends\<close>

lemma selftest_step:
  assumes inv: "selftest_inv sz s" and sz: "0 < sz" "sz < 2 ^ 31"
    and prog: "selftest_prog (drop (st_pc s) (st_op s))" and run: "st_op s ! st_pc s \<noteq> 0"
  shows "\<exists>s'. (\<forall>f. selftest_loop (Suc f) rnd sz s = selftest_loop f rnd sz s') \<and>
     selftest_inv sz s' \<and> selftest_prog (drop (st_pc s') (st_op s')) \<and>
     (s', s) \<in> measures [\<lambda>s. length (st_op s) - st_pc s, \<lambda>s. nat (st_op s ! (st_pc s + 1))]"
proof -
  let ?pc = "st_pc s" and ?opc = "st_op s ! st_pc s"
  note at = selftest_prog_at [OF prog]
  show ?thesis
  proof (cases "?opc \<ge> 6")
    case True
    let ?s' = "s\<lparr>st_pc := ?pc + 1\<rparr>"
    have "selftest_loop (Suc f) rnd sz s = selftest_loop f rnd sz ?s'" for f
      using True at(1) by simp
    moreover have "selftest_inv sz ?s'" using inv by (simp add: selftest_inv_def)
    moreover have "selftest_prog (drop (st_pc ?s') (st_op ?s'))"
      using at(2) [OF run] True by (simp add: selftest_operands_def)
    moreover have "(?s', s) \<in> measures [\<lambda>s. length (st_op s) - st_pc s, \<lambda>s. nat (st_op s ! (st_pc s + 1))]"
      using diff_less_mono2 [OF lessI at(1)] by simp
    ultimately show ?thesis by blast
  next
    case False
    from selftest_fetch_progress [OF prog refl run False] obtain i0 ops nx r where
      fetch: "selftest_fetch rnd ?opc s = Some (i0, ops, nx, r)" "length ops = length (st_op s)"
      "selftest_prog (drop (?pc + nx) ops)"
      "nx > 0 \<or> nat (ops ! (?pc + 1)) < nat (st_op s ! (?pc + 1))"
      by blast
    define i where "i = nat ((i0 AND 0x7fffffff) mod sz)"
    have i: "i < nat sz" using sz by (simp add: i_def)
    define s1 where "s1 = s\<lparr>st_pc := ?pc + nx, st_op := ops, st_rnd := r\<rparr>"
    have inv1: "selftest_inv sz s1" using inv by (simp add: selftest_inv_def s1_def)
    have next1: "\<exists>s'. (\<forall>f. selftest_loop (Suc f) rnd sz s = selftest_loop f rnd sz s') \<and>
        selftest_inv sz s' \<and> st_pc s' = st_pc s1 \<and> st_op s' = st_op s1"
    proof (cases "?opc AND 1 \<noteq> 0")
      case True
      from selftest_set [OF inv1 sz i] obtain a' p' where
        "bv_set 9 (st_mem s1) (st_p s1) (Suc i) = Some (a', SQLITE_OK, p')"
        "selftest_inv sz (s1\<lparr>st_V := map_option (\<lambda>V. SETBIT V (Suc i)) (st_V s1), st_mem := a', st_p := p'\<rparr>)"
        by blast
      with at run False True fetch(1) sz show ?thesis
        by (intro exI [of _ "s1\<lparr>st_V := map_option (\<lambda>V. SETBIT V (Suc i)) (st_V s1), st_mem := a', st_p := p'\<rparr>"])
           (simp add: s1_def i_def Let_def)
    next
      case even: False
      from selftest_clear [OF inv1 sz i] obtain p' where
        "bv_clear_loop (st_p s1) i = Some p'"
        "selftest_inv sz (s1\<lparr>st_V := map_option (\<lambda>V. CLEARBIT V (Suc i)) (st_V s1), st_p := p'\<rparr>)"
        by blast
      with at(1) run False even fetch(1) sz show ?thesis
        by (intro exI [of _ "s1\<lparr>st_V := map_option (\<lambda>V. CLEARBIT V (Suc i)) (st_V s1), st_p := p'\<rparr>"])
           (simp add: s1_def i_def Let_def)
    qed
    then obtain s' where s': "\<forall>f. selftest_loop (Suc f) rnd sz s = selftest_loop f rnd sz s'"
      "selftest_inv sz s'" "st_pc s' = ?pc + nx" "st_op s' = ops"
      by (auto simp: s1_def)
    have "(s', s) \<in> measures [\<lambda>s. length (st_op s) - st_pc s, \<lambda>s. nat (st_op s ! (st_pc s + 1))]"
      using s'(3,4) fetch(2,4) at(1) by (cases "nx = 0") auto
    with s' fetch(3) show ?thesis by auto
  qed
qed

lemma selftest_loop_halts:
  assumes "0 < sz" "sz < 2 ^ 31"
  shows "selftest_inv sz s \<Longrightarrow> selftest_prog (drop (st_pc s) (st_op s)) \<Longrightarrow>
    \<exists>f0 s'. selftest_inv sz s' \<and> (\<forall>f\<ge>f0. selftest_loop f rnd sz s = Some (True, s'))"
proof (induction s rule: wf_induct_rule [OF wf_measures
      [of "[\<lambda>s. length (st_op s) - st_pc s, \<lambda>s. nat (st_op s ! (st_pc s + 1))]"]])
  case (1 s)
  show ?case
  proof (cases "st_op s ! st_pc s = 0")
    case True
    have "selftest_loop f rnd sz s = Some (True, s)" if "f \<ge> 1" for f
      using that True selftest_prog_at(1) [OF "1.prems"(2)] by (cases f) simp_all
    with "1.prems"(1) show ?thesis by blast
  next
    case False
    from selftest_step [OF "1.prems"(1) assms "1.prems"(2) False, of rnd] obtain s1 where
      s1: "\<forall>f. selftest_loop (Suc f) rnd sz s = selftest_loop f rnd sz s1" "selftest_inv sz s1"
      "selftest_prog (drop (st_pc s1) (st_op s1))"
      "(s1, s) \<in> measures [\<lambda>s. length (st_op s) - st_pc s, \<lambda>s. nat (st_op s ! (st_pc s + 1))]"
      by blast
    from "1.IH" [OF s1(4,2,3)] obtain f0 s' where
      s': "selftest_inv sz s'" "\<forall>f\<ge>f0. selftest_loop f rnd sz s1 = Some (True, s')"
      by blast
    have "selftest_loop f rnd sz s = Some (True, s')" if "f \<ge> Suc f0" for f
      using that s1(1) s'(2) by (cases f) (auto simp del: selftest_loop.simps(2))
    with s'(1) show ?thesis by blast
  qed
qed

lemma selftest_compare_equal:
  "\<forall>j. i \<le> j \<and> j < i + n \<longrightarrow> BitvecTest (Some p) j = Some (TESTBIT V j) \<Longrightarrow>
   selftest_compare V p n i rc = Some rc"
  by (induction V p n i rc rule: selftest_compare.induct) auto



end
