(* ===== verification/Rowset.thy ===== *)
theory Rowset
  imports Prelude
begin

text \<open>
  The rowid set of \<open>rowset.c\<close>: inserts append to a list; a test against a new batch first
  sorts the list and turns it into a search tree of a forest that works like a binary
  counter; reading the set out yields it in ascending order. Linked lists and threaded trees
  of the code are lists and trees here. The theory models all operations, with the pool
  allocator, and shows what tests and reads return for every history of operations.
\<close>

section \<open>State\<close>

definition ROWSET_ALLOCATION_SIZE :: nat where "ROWSET_ALLOCATION_SIZE = 1024"
definition ROWSET_ENTRY_PER_CHUNK :: nat where
  "ROWSET_ENTRY_PER_CHUNK = (ROWSET_ALLOCATION_SIZE - 8) div 24"

datatype rtree = RNull | RNode (rs_pLeft: rtree) (rs_v: int) (rs_pRight: rtree)

text \<open>
  \<open>rs_pEntry\<close> is the list of entries not yet in a tree (\<open>pLast\<close> is its last element),
  \<open>rs_pForest\<close> the trees hanging off the chain of forest nodes, \<open>RNull\<close> for an empty one.
\<close>

record rowset =
  rs_pChunk :: nat
  rs_pEntry :: "int list"
  rs_nFresh :: nat
  rs_pForest :: "rtree list"
  rs_SORTED :: bool
  rs_NEXT :: bool
  rs_iBatch :: int

text \<open>\<open>sqlite3RowSetInit\<close>: \<open>n\<close> is the usable size of the allocation, 56 bytes the struct.\<close>

definition RowSetInit :: "alloc \<Rightarrow> nat \<Rightarrow> alloc \<times> rowset option" where
  "RowSetInit a n =
     (malloc_rest a,
      if malloc_ok a then
        Some \<lparr>rs_pChunk = 0, rs_pEntry = [], rs_nFresh = ((n - 56) div 24) mod 2 ^ 16,
          rs_pForest = [], rs_SORTED = True, rs_NEXT = False, rs_iBatch = 0\<rparr>
      else None)"

definition RowSetClear :: "rowset \<Rightarrow> rowset" where
  "RowSetClear p = p\<lparr>rs_pChunk := 0, rs_nFresh := 0, rs_pEntry := [], rs_pForest := [],
     rs_SORTED := True, rs_NEXT := False\<rparr>"

definition rowSetEntryAlloc :: "alloc \<Rightarrow> rowset \<Rightarrow> alloc \<times> rowset \<times> bool" where
  "rowSetEntryAlloc a p =
     (if rs_nFresh p = 0 then
        (if malloc_ok a then
           (malloc_rest a, p\<lparr>rs_pChunk := rs_pChunk p + 1, rs_nFresh := ROWSET_ENTRY_PER_CHUNK - 1\<rparr>, True)
         else (malloc_rest a, p, False))
      else (a, p\<lparr>rs_nFresh := rs_nFresh p - 1\<rparr>, True))"

definition RowSetInsert :: "alloc \<Rightarrow> rowset \<Rightarrow> int \<Rightarrow> alloc \<times> rowset" where
  "RowSetInsert a p rowid =
     (case rowSetEntryAlloc a p of
        (a', p1, False) \<Rightarrow> (a', p1)
      | (a', p1, True) \<Rightarrow>
          (a', p1\<lparr>rs_SORTED := (if rs_pEntry p1 \<noteq> [] \<and> rowid \<le> last (rs_pEntry p1) then False
                               else rs_SORTED p1),
                  rs_pEntry := rs_pEntry p1 @ [rowid]\<rparr>))"

section \<open>Sorting\<close>

text \<open>Both lists are non-empty where the code calls it; an equal value is dropped from \<open>pA\<close>.\<close>

fun rowSetEntryMerge :: "int list \<Rightarrow> int list \<Rightarrow> int list" where
  "rowSetEntryMerge (a # as) (b # bs) =
     (if a \<le> b then
        (if a < b then [a] else []) @ (if as = [] then b # bs else rowSetEntryMerge as (b # bs))
      else b # (if bs = [] then a # as else rowSetEntryMerge (a # as) bs))"
| "rowSetEntryMerge [] bs = bs"
| "rowSetEntryMerge as [] = as"

text \<open>
  One new element carried through the buckets. \<open>None\<close> is a walk past the last of the 40
  buckets of the code.
\<close>

fun rs_bucket_insert :: "int list list \<Rightarrow> int list \<Rightarrow> int list list option" where
  "rs_bucket_insert [] p = None"
| "rs_bucket_insert (b # bs) p =
     (if b = [] then Some (p # bs)
      else map_option (\<lambda>bs'. [] # bs') (rs_bucket_insert bs (rowSetEntryMerge b p)))"

fun rs_fill_buckets :: "int list list \<Rightarrow> int list \<Rightarrow> int list list option" where
  "rs_fill_buckets bs [] = Some bs"
| "rs_fill_buckets bs (x # xs) =
     (case rs_bucket_insert bs [x] of None \<Rightarrow> None | Some bs' \<Rightarrow> rs_fill_buckets bs' xs)"

fun rs_join_buckets :: "int list \<Rightarrow> int list list \<Rightarrow> int list" where
  "rs_join_buckets p [] = p"
| "rs_join_buckets p (b # bs) =
     (if b = [] then rs_join_buckets p bs
      else rs_join_buckets (if p \<noteq> [] then rowSetEntryMerge p b else b) bs)"

definition rowSetEntrySort :: "int list \<Rightarrow> int list option" where
  "rowSetEntrySort xs =
     (case rs_fill_buckets (replicate 40 []) xs of
        None \<Rightarrow> None
      | Some bs \<Rightarrow> Some (rs_join_buckets (hd bs) (tl bs)))"

section \<open>Trees\<close>

fun rowSetTreeToList :: "rtree \<Rightarrow> int list" where
  "rowSetTreeToList RNull = []"
| "rowSetTreeToList (RNode l v r) = rowSetTreeToList l @ v # rowSetTreeToList r"

fun rowSetNDeepTree :: "nat \<Rightarrow> int list \<Rightarrow> rtree \<times> int list" where
  "rowSetNDeepTree d xs =
     (case xs of
        [] \<Rightarrow> (RNull, [])
      | x # xs' \<Rightarrow>
          if d > 1 then
            (case rowSetNDeepTree (d - 1) xs of
               (l, []) \<Rightarrow> (l, [])
             | (l, y # ys) \<Rightarrow>
                 (case rowSetNDeepTree (d - 1) ys of (r, zs) \<Rightarrow> (RNode l y r, zs)))
          else (RNode RNull x RNull, xs'))"

declare rowSetNDeepTree.simps [simp del]

lemma rowSetNDeepTree_base: "rowSetNDeepTree d [] = (RNull, [])"
  by (simp add: rowSetNDeepTree.simps)

lemma rowSetNDeepTree_leaf: "d \<le> 1 \<Longrightarrow> rowSetNDeepTree d (x # xs) = (RNode RNull x RNull, xs)"
  by (simp add: rowSetNDeepTree.simps)

lemma rowSetNDeepTree_node:
  "1 < d \<Longrightarrow> rowSetNDeepTree d (x # xs) =
     (case rowSetNDeepTree (d - 1) (x # xs) of
        (l, []) \<Rightarrow> (l, [])
      | (l, y # ys) \<Rightarrow> (case rowSetNDeepTree (d - 1) ys of (r, zs) \<Rightarrow> (RNode l y r, zs)))"
  by (subst rowSetNDeepTree.simps) simp

lemmas rowSetNDeepTree_eqs = rowSetNDeepTree_base rowSetNDeepTree_leaf rowSetNDeepTree_node

lemma rowSetNDeepTree_list:
  "rowSetNDeepTree d xs = (t, ys) \<Longrightarrow> xs = rowSetTreeToList t @ ys"
proof (induction d arbitrary: xs t ys)
  case 0
  then show ?case by (cases xs) (auto simp: rowSetNDeepTree_eqs)
next
  case (Suc d)
  from Suc.prems Suc.IH show ?case
    by (cases xs; cases "d = 0") (force simp: rowSetNDeepTree_eqs split: prod.splits list.splits)+
qed

lemma rowSetNDeepTree_length [termination_simp]:
  "(t, ys) = rowSetNDeepTree d xs \<Longrightarrow> length ys < Suc (length xs)"
  using rowSetNDeepTree_list [of d xs t ys] by simp

fun rs_grow_tree :: "nat \<Rightarrow> rtree \<Rightarrow> int list \<Rightarrow> rtree" where
  "rs_grow_tree iDepth p [] = p"
| "rs_grow_tree iDepth p (x # xs) =
     (case rowSetNDeepTree iDepth xs of
        (r, ys) \<Rightarrow> rs_grow_tree (iDepth + 1) (RNode p x r) ys)"

definition rowSetListToTree :: "int list \<Rightarrow> rtree" where
  "rowSetListToTree xs = rs_grow_tree 1 (RNode RNull (hd xs) RNull) (tl xs)"

section \<open>Reading and testing\<close>

definition RowSetNext :: "rowset \<Rightarrow> (rowset \<times> int option) option" where
  "RowSetNext p =
     (case (if \<not> rs_NEXT p then
              (case (if \<not> rs_SORTED p then rowSetEntrySort (rs_pEntry p) else Some (rs_pEntry p)) of
                 None \<Rightarrow> None
               | Some es \<Rightarrow> Some (p\<lparr>rs_pEntry := es, rs_SORTED := True, rs_NEXT := True\<rparr>))
            else Some p) of
        None \<Rightarrow> None
      | Some p1 \<Rightarrow>
          (case rs_pEntry p1 of
             [] \<Rightarrow> Some (p1, None)
           | e # es \<Rightarrow>
               let p2 = p1\<lparr>rs_pEntry := es\<rparr> in
               Some (if es = [] then RowSetClear p2 else p2, Some e)))"

text \<open>
  A sorted list enters the forest at the first empty tree; every tree passed on the way is
  merged into the list and emptied. What is left over at the end needs a new forest node.
\<close>

fun rs_forest_add :: "rtree list \<Rightarrow> int list \<Rightarrow> rtree list \<times> int list option" where
  "rs_forest_add [] p = ([], Some p)"
| "rs_forest_add (t # ts) p =
     (if t = RNull then (rowSetListToTree p # ts, None)
      else (case rs_forest_add ts (rowSetEntryMerge (rowSetTreeToList t) p) of
              (ts', r) \<Rightarrow> (RNull # ts', r)))"

fun rs_search :: "rtree \<Rightarrow> int \<Rightarrow> bool" where
  "rs_search RNull x = False"
| "rs_search (RNode l v r) x =
     (if v < x then rs_search r x else if v > x then rs_search l x else True)"

definition rs_new_batch :: "alloc \<Rightarrow> rowset \<Rightarrow> (alloc \<times> rowset) option" where
  "rs_new_batch a p =
     (if rs_pEntry p = [] then Some (a, p)
      else
        (case (if \<not> rs_SORTED p then rowSetEntrySort (rs_pEntry p) else Some (rs_pEntry p)) of
           None \<Rightarrow> None
         | Some es \<Rightarrow>
             (case rs_forest_add (rs_pForest p) es of
                (ts, None) \<Rightarrow> Some (a, p\<lparr>rs_pForest := ts, rs_pEntry := [], rs_SORTED := True\<rparr>)
              | (ts, Some rest) \<Rightarrow>
                  (case rowSetEntryAlloc a p of
                     (a', p1, ok) \<Rightarrow>
                       Some (a', p1\<lparr>rs_pForest := (if ok then ts @ [rowSetListToTree rest] else ts),
                                   rs_pEntry := [], rs_SORTED := True\<rparr>)))))"

definition RowSetTest :: "alloc \<Rightarrow> rowset \<Rightarrow> int \<Rightarrow> int \<Rightarrow> (alloc \<times> rowset \<times> bool) option" where
  "RowSetTest a p iBatch iRowid =
     (case (if iBatch \<noteq> rs_iBatch p then
              map_option (\<lambda>(a', p'). (a', p'\<lparr>rs_iBatch := iBatch\<rparr>)) (rs_new_batch a p)
            else Some (a, p)) of
        None \<Rightarrow> None
      | Some (a', p') \<Rightarrow> Some (a', p', list_ex (\<lambda>t. rs_search t iRowid) (rs_pForest p')))"

section \<open>Merging and sorting: order and content\<close>

abbreviation strict_sorted :: "int list \<Rightarrow> bool" where
  "strict_sorted \<equiv> sorted_wrt (<)"

lemma merge_set [simp]: "set (rowSetEntryMerge as bs) = set as \<union> set bs"
proof (induction as bs rule: rowSetEntryMerge.induct)
  case (1 a as b bs)
  consider "a < b" | "a = b" | "b < a" by linarith
  then show ?case
  proof cases
    case 1
    with "1.IH"(1) show ?thesis by (cases "as = []") auto
  next
    case 2
    with "1.IH"(1) show ?thesis by (cases "as = []") (simp_all add: insert_absorb)
  next
    case 3
    with "1.IH"(2) show ?thesis by (cases "bs = []") (simp_all add: insert_commute)
  qed
qed simp_all

lemma merge_nonempty [simp]: "rowSetEntryMerge as bs = [] \<longleftrightarrow> as = [] \<and> bs = []"
  using merge_set [of as bs] by (metis Un_empty set_empty)

lemma merge_sorted [simp]:
  "strict_sorted as \<Longrightarrow> strict_sorted bs \<Longrightarrow> strict_sorted (rowSetEntryMerge as bs)"
proof (induction as bs rule: rowSetEntryMerge.induct)
  case (1 a as b bs)
  then have *: "\<forall>x\<in>set as. a < x" "\<forall>x\<in>set bs. b < x" "strict_sorted as" "strict_sorted bs" by auto
  consider "a < b" | "a = b" | "b < a" by linarith
  then show ?case
  proof cases
    case 1
    with * have "\<forall>x\<in>set as \<union> insert b (set bs). a < x" by auto
    with "1" "1.IH"(1) "1.prems" * show ?thesis by simp
  next
    case 2
    with "1.IH"(1) "1.prems" * show ?thesis by simp
  next
    case 3
    with * have "\<forall>x\<in>insert a (set as) \<union> set bs. b < x" by auto
    with "3" "1.IH"(2) "1.prems" * show ?thesis by simp
  qed
qed simp_all

text \<open>The buckets count: \<open>weight\<close> is the number of elements inserted so far.\<close>

fun rs_weight :: "int list list \<Rightarrow> nat" where
  "rs_weight [] = 0"
| "rs_weight (b # bs) = (if b = [] then 0 else 1) + 2 * rs_weight bs"

lemma bucket_insert_ok:
  "rs_weight bs + 1 < 2 ^ length bs \<Longrightarrow> p \<noteq> [] \<Longrightarrow> strict_sorted p \<Longrightarrow> \<forall>b\<in>set bs. strict_sorted b \<Longrightarrow>
   \<exists>bs'. rs_bucket_insert bs p = Some bs' \<and> length bs' = length bs \<and> rs_weight bs' = rs_weight bs + 1 \<and>
     (\<forall>b\<in>set bs'. strict_sorted b) \<and> \<Union> (set ` set bs') = \<Union> (set ` set bs) \<union> set p"
proof (induction bs p rule: rs_bucket_insert.induct)
  case (1 p)
  then show ?case by simp
next
  case (2 b bs p)
  show ?case
  proof (cases "b = []")
    case True
    with "2.prems" show ?thesis by auto
  next
    case False
    with "2.prems" have "rs_weight bs + 1 < 2 ^ length bs" by simp
    moreover have "strict_sorted (rowSetEntryMerge b p)" using "2.prems" by (intro merge_sorted) auto
    ultimately obtain bs' where
      "rs_bucket_insert bs (rowSetEntryMerge b p) = Some bs'" "length bs' = length bs"
      "rs_weight bs' = rs_weight bs + 1" "\<forall>b\<in>set bs'. strict_sorted b"
      "\<Union> (set ` set bs') = \<Union> (set ` set bs) \<union> set (rowSetEntryMerge b p)"
      using "2.IH" [OF False] "2.prems" by auto
    with False show ?thesis by auto
  qed
qed

lemma fill_buckets_ok:
  "rs_weight bs + length xs < 2 ^ length bs \<Longrightarrow> \<forall>b\<in>set bs. strict_sorted b \<Longrightarrow>
   \<exists>bs'. rs_fill_buckets bs xs = Some bs' \<and> length bs' = length bs \<and> (\<forall>b\<in>set bs'. strict_sorted b) \<and>
     \<Union> (set ` set bs') = \<Union> (set ` set bs) \<union> set xs"
proof (induction bs xs rule: rs_fill_buckets.induct)
  case (1 bs)
  then show ?case by simp
next
  case (2 bs x xs)
  from bucket_insert_ok [of bs "[x]"] "2.prems" obtain bs1 where
    bs1: "rs_bucket_insert bs [x] = Some bs1" "length bs1 = length bs" "rs_weight bs1 = rs_weight bs + 1"
    "\<forall>b\<in>set bs1. strict_sorted b" "\<Union> (set ` set bs1) = \<Union> (set ` set bs) \<union> {x}"
    by auto
  with "2.IH" [OF bs1(1)] "2.prems" show ?case by auto
qed

lemma join_buckets:
  "strict_sorted p \<Longrightarrow> \<forall>b\<in>set bs. strict_sorted b \<Longrightarrow>
   strict_sorted (rs_join_buckets p bs) \<and> set (rs_join_buckets p bs) = set p \<union> \<Union> (set ` set bs)"
  by (induction p bs rule: rs_join_buckets.induct) auto

lemma rs_weight_empty: "rs_weight (replicate n []) = 0"
  by (induction n) auto

lemma rowSetEntrySort_ok:
  assumes "length xs < 2 ^ 40"
  shows "\<exists>es. rowSetEntrySort xs = Some es \<and> strict_sorted es \<and> set es = set xs"
proof -
  have "rs_weight (replicate 40 []) + length xs < 2 ^ length (replicate 40 ([] :: int list))"
    using assms by (simp add: rs_weight_empty)
  from fill_buckets_ok [OF this] obtain bs where
    bs: "rs_fill_buckets (replicate 40 []) xs = Some bs" "length bs = 40" "\<forall>b\<in>set bs. strict_sorted b"
    "\<Union> (set ` set bs) = set xs"
    by auto
  from bs(2) obtain b bs' where "bs = b # bs'" by (cases bs) auto
  with bs join_buckets [of b bs'] show ?thesis by (auto simp: rowSetEntrySort_def)
qed

section \<open>Trees: content, order, balance\<close>

lemma search_sorted: "strict_sorted (rowSetTreeToList t) \<Longrightarrow> rs_search t x \<longleftrightarrow> x \<in> set (rowSetTreeToList t)"
  by (induction t) (auto simp: sorted_wrt_append)

lemma grow_tree_list: "rowSetTreeToList (rs_grow_tree d p xs) = rowSetTreeToList p @ xs"
  by (induction d p xs rule: rs_grow_tree.induct)
     (auto split: prod.splits dest: rowSetNDeepTree_list)

lemma list_to_tree_list: "xs \<noteq> [] \<Longrightarrow> rowSetTreeToList (rowSetListToTree xs) = xs"
  by (simp add: rowSetListToTree_def grow_tree_list)

fun rs_height :: "rtree \<Rightarrow> nat" where
  "rs_height RNull = 0"
| "rs_height (RNode l v r) = max (rs_height l) (rs_height r) + 1"

fun rs_nodes :: "rtree \<Rightarrow> nat" where
  "rs_nodes RNull = 0"
| "rs_nodes (RNode l v r) = rs_nodes l + rs_nodes r + 1"

lemma rs_nodes_list: "rs_nodes t = length (rowSetTreeToList t)"
  by (induction t) auto

lemma ndeep_shape:
  "1 \<le> d \<Longrightarrow> rowSetNDeepTree d xs = (t, ys) \<Longrightarrow>
   rs_height t \<le> d \<and> (if ys = [] then rs_nodes t \<le> 2 ^ d - 1 else rs_nodes t = 2 ^ d - 1)"
proof (induction d arbitrary: xs t ys)
  case 0
  then show ?case by simp
next
  case (Suc d)
  show ?case
  proof (cases "xs = [] \<or> d = 0")
    case True
    with Suc.prems show ?thesis by (cases xs) (auto simp: rowSetNDeepTree_eqs)
  next
    case False
    then obtain x xs' where xs: "xs = x # xs'" by (cases xs) auto
    obtain l zs where l: "rowSetNDeepTree d xs = (l, zs)" by fastforce
    have "1 \<le> d" using False by simp
    note hl = Suc.IH [OF this l]
    have p: "(1::nat) \<le> 2 ^ d" by simp
    show ?thesis
    proof (cases zs)
      case Nil
      with Suc.prems l xs False have "t = l" "ys = []" by (auto simp: rowSetNDeepTree_eqs)
      moreover have "(2::nat) ^ d - 1 \<le> 2 ^ Suc d - 1" by simp
      ultimately show ?thesis using hl Nil by (auto intro: order_trans)
    next
      case (Cons y zs')
      obtain r ws where r: "rowSetNDeepTree d zs' = (r, ws)" by fastforce
      note hr = Suc.IH [OF \<open>1 \<le> d\<close> r]
      from Suc.prems l xs False Cons r have "t = RNode l y r" "ys = ws"
        by (auto simp: rowSetNDeepTree_eqs)
      moreover obtain m where "(2::nat) ^ d = Suc m" using p by (cases "(2::nat) ^ d") auto
      ultimately show ?thesis using hl hr Cons by (auto split: if_splits)
    qed
  qed
qed

lemma grow_tree_shape:
  "1 \<le> d \<Longrightarrow> rs_height p \<le> d \<Longrightarrow> (if xs = [] then 2 ^ (rs_height p - 1) \<le> rs_nodes p else rs_nodes p = 2 ^ d - 1) \<Longrightarrow>
   2 ^ (rs_height (rs_grow_tree d p xs) - 1) \<le> rs_nodes (rs_grow_tree d p xs)"
proof (induction d p xs rule: rs_grow_tree.induct)
  case (1 d p)
  then show ?case by simp
next
  case (2 d p x xs)
  obtain r ys where r: "rowSetNDeepTree d xs = (r, ys)" by fastforce
  note shape = ndeep_shape [OF "2.prems"(1) r]
  have "rs_nodes p = 2 ^ d - 1" using "2.prems"(3) by simp
  moreover have "(1 :: nat) \<le> 2 ^ d" by simp
  ultimately have np: "rs_nodes p + 1 = 2 ^ d" by simp
  let ?t = "RNode p x r"
  have height: "rs_height ?t \<le> d + 1" using "2.prems"(2) shape by simp
  have "(2 :: nat) ^ (rs_height ?t - 1) \<le> 2 ^ d"
    using height by (intro power_increasing) auto
  also have "\<dots> \<le> rs_nodes ?t" using np by simp
  finally have "2 ^ (rs_height ?t - 1) \<le> rs_nodes ?t" .
  moreover have "rs_nodes ?t = 2 ^ (d + 1) - 1" if "ys \<noteq> []"
    using shape that np by simp
  ultimately show ?case using "2.IH" [OF r [symmetric]] r height by simp
qed

lemma list_to_tree_shape:
  "xs \<noteq> [] \<Longrightarrow> 2 ^ (rs_height (rowSetListToTree xs) - 1) \<le> length xs"
  using grow_tree_shape [of 1 "RNode RNull (hd xs) RNull" "tl xs"] list_to_tree_list [of xs]
  by (simp add: rowSetListToTree_def rs_nodes_list split: if_splits)

section \<open>Invariant and abstraction\<close>

text \<open>
  What an object stands for: the values in the trees are visible to tests, the values in
  the list will be once the batch number changes.
\<close>

definition rs_visible :: "rowset \<Rightarrow> int set" where
  "rs_visible p = \<Union> (set ` rowSetTreeToList ` set (rs_pForest p))"

definition rs_pending :: "rowset \<Rightarrow> int set" where
  "rs_pending p = set (rs_pEntry p)"

definition rs_inv :: "rowset \<Rightarrow> bool" where
  "rs_inv p \<longleftrightarrow> (\<forall>t\<in>set (rs_pForest p). strict_sorted (rowSetTreeToList t)) \<and>
     (rs_SORTED p \<longrightarrow> strict_sorted (rs_pEntry p)) \<and> \<not> rs_NEXT p"

lemma tree_null: "rowSetTreeToList t = [] \<longleftrightarrow> t = RNull"
  by (cases t) auto

lemma forest_add_ok:
  "p \<noteq> [] \<Longrightarrow> strict_sorted p \<Longrightarrow> \<forall>t\<in>set ts. strict_sorted (rowSetTreeToList t) \<Longrightarrow>
   rs_forest_add ts p = (ts', r) \<Longrightarrow>
   (\<forall>t\<in>set ts'. strict_sorted (rowSetTreeToList t)) \<and>
   (\<forall>q. r = Some q \<longrightarrow> q \<noteq> [] \<and> strict_sorted q) \<and>
   \<Union> (set ` rowSetTreeToList ` set ts') \<union> (case r of None \<Rightarrow> {} | Some q \<Rightarrow> set q) =
   \<Union> (set ` rowSetTreeToList ` set ts) \<union> set p"
proof (induction ts p arbitrary: ts' r rule: rs_forest_add.induct)
  case (1 p)
  then show ?case by auto
next
  case (2 t ts p)
  show ?case
  proof (cases "t = RNull")
    case True
    with "2.prems" show ?thesis by (auto simp: list_to_tree_list)
  next
    case False
    let ?q = "rowSetEntryMerge (rowSetTreeToList t) p"
    obtain ts1 where ts1: "rs_forest_add ts ?q = (ts1, r)" "ts' = RNull # ts1"
      using "2.prems"(4) False by (auto split: prod.splits)
    have q: "?q \<noteq> []" "strict_sorted ?q" using "2.prems" by auto
    from "2.IH" [OF False q _ ts1(1)] "2.prems"(3) ts1(2) show ?thesis by auto
  qed
qed

lemma new_batch_ok:
  assumes "rs_inv p" "length (rs_pEntry p) < 2 ^ 40" "no_oom a"
  shows "\<exists>a' p'. rs_new_batch a p = Some (a', p') \<and> no_oom a' \<and> rs_inv p' \<and> rs_pEntry p' = [] \<and>
     rs_visible p' = rs_visible p \<union> rs_pending p \<and> rs_iBatch p' = rs_iBatch p"
proof (cases "rs_pEntry p = []")
  case True
  with assms show ?thesis by (auto simp: rs_new_batch_def rs_pending_def)
next
  case False
  obtain es where es: "(if \<not> rs_SORTED p then rowSetEntrySort (rs_pEntry p) else Some (rs_pEntry p)) = Some es"
    "strict_sorted es" "set es = set (rs_pEntry p)"
    using rowSetEntrySort_ok [OF assms(2)] assms(1) by (cases "rs_SORTED p") (auto simp: rs_inv_def)
  then have ne: "es \<noteq> []" using False by auto
  obtain ts r where add: "rs_forest_add (rs_pForest p) es = (ts, r)" by fastforce
  from assms(1) have "\<forall>t\<in>set (rs_pForest p). strict_sorted (rowSetTreeToList t)" by (simp add: rs_inv_def)
  note ok = forest_add_ok [OF ne es(2) this add]
  have vis: "\<Union> (set ` rowSetTreeToList ` set ts) \<union> (case r of None \<Rightarrow> {} | Some q \<Rightarrow> set q) =
     rs_visible p \<union> rs_pending p"
    using ok es(3) by (simp add: rs_visible_def rs_pending_def)
  show ?thesis
  proof (cases r)
    case None
    with add es ok vis False assms show ?thesis
      by (simp add: rs_new_batch_def rs_inv_def rs_visible_def)
  next
    case (Some q)
    with ok have q: "q \<noteq> []" "strict_sorted q" by auto
    from add es False Some assms(1,3) ok vis q list_to_tree_list [OF q(1)] show ?thesis
      by (auto simp: rs_new_batch_def rs_inv_def rs_visible_def rowSetEntryAlloc_def)
  qed
qed

lemma search_visible:
  "rs_inv p \<Longrightarrow> list_ex (\<lambda>t. rs_search t x) (rs_pForest p) \<longleftrightarrow> x \<in> rs_visible p"
  by (auto simp: rs_inv_def rs_visible_def list_ex_iff search_sorted)

lemma RowSetTest_ok:
  assumes "rs_inv p" "length (rs_pEntry p) < 2 ^ 40" "no_oom a"
  shows "\<exists>a' p'. let V = (if b \<noteq> rs_iBatch p then rs_visible p \<union> rs_pending p else rs_visible p) in
     RowSetTest a p b x = Some (a', p', x \<in> V) \<and> no_oom a' \<and> rs_inv p' \<and> rs_visible p' = V \<and>
     rs_pEntry p' = (if b \<noteq> rs_iBatch p then [] else rs_pEntry p) \<and> rs_iBatch p' = b"
proof (cases "b = rs_iBatch p")
  case True
  with assms show ?thesis by (simp add: RowSetTest_def search_visible Let_def)
next
  case False
  from new_batch_ok [OF assms] obtain a' p' where
    nb: "rs_new_batch a p = Some (a', p')" "no_oom a'" "rs_inv p'" "rs_pEntry p' = []"
    "rs_visible p' = rs_visible p \<union> rs_pending p"
    by blast
  let ?p = "p'\<lparr>rs_iBatch := b\<rparr>"
  have "rs_inv ?p" "rs_visible ?p = rs_visible p'" using nb by (simp_all add: rs_inv_def rs_visible_def)
  with nb False search_visible [of ?p x] show ?thesis
    by (intro exI [of _ a'] exI [of _ ?p]) (simp add: RowSetTest_def Let_def)
qed

lemma RowSetInsert_ok:
  assumes "rs_inv p" "no_oom a" "RowSetInsert a p x = (a', p')"
  shows "rs_inv p' \<and> no_oom a' \<and> rs_visible p' = rs_visible p \<and> rs_pEntry p' = rs_pEntry p @ [x] \<and>
     rs_iBatch p' = rs_iBatch p"
proof -
  obtain p1 where p1: "rowSetEntryAlloc a p = (a', p1, True)" "no_oom a'" "rs_pEntry p1 = rs_pEntry p"
    "rs_pForest p1 = rs_pForest p" "rs_SORTED p1 = rs_SORTED p" "rs_NEXT p1 = rs_NEXT p"
    "rs_iBatch p1 = rs_iBatch p"
    using assms(2,3) by (auto simp: RowSetInsert_def rowSetEntryAlloc_def split: if_splits)
  have "strict_sorted (rs_pEntry p @ [x])"
    if "strict_sorted (rs_pEntry p)" "rs_pEntry p = [] \<or> last (rs_pEntry p) < x"
    using that by (cases "rs_pEntry p" rule: rev_cases) (auto simp: sorted_wrt_append)
  with assms p1 show ?thesis
    by (auto simp: RowSetInsert_def rs_inv_def rs_visible_def split: if_splits)
qed

section \<open>Histories of operations\<close>

datatype rs_op = RsInsert int | RsTest int int

fun rs_history :: "alloc \<Rightarrow> rowset \<Rightarrow> rs_op list \<Rightarrow> bool list option" where
  "rs_history a p [] = Some []"
| "rs_history a p (RsInsert x # ops) = (case RowSetInsert a p x of (a', p') \<Rightarrow> rs_history a' p' ops)"
| "rs_history a p (RsTest b x # ops) =
     (case RowSetTest a p b x of
        None \<Rightarrow> None
      | Some (a', p', r) \<Rightarrow> map_option ((#) r) (rs_history a' p' ops))"

text \<open>
  The specification: a set of visible values, a set of pending ones, and the current batch;
  a test with another batch number makes the pending values visible.
\<close>

fun rs_spec :: "int set \<Rightarrow> int set \<Rightarrow> int \<Rightarrow> rs_op list \<Rightarrow> bool list" where
  "rs_spec V P b [] = []"
| "rs_spec V P b (RsInsert x # ops) = rs_spec V (insert x P) b ops"
| "rs_spec V P b (RsTest b' x # ops) =
     (if b' \<noteq> b then (x \<in> V \<union> P) # rs_spec (V \<union> P) {} b' ops
      else (x \<in> V) # rs_spec V P b ops)"

lemma history_refines:
  "rs_inv p \<Longrightarrow> no_oom a \<Longrightarrow> length (rs_pEntry p) + length ops < 2 ^ 40 \<Longrightarrow>
   rs_history a p ops = Some (rs_spec (rs_visible p) (rs_pending p) (rs_iBatch p) ops)"
proof (induction ops arbitrary: a p)
  case Nil
  then show ?case by simp
next
  case (Cons op ops)
  show ?case
  proof (cases op)
    case (RsInsert x)
    obtain a' p' where ins: "RowSetInsert a p x = (a', p')" by fastforce
    note ok = RowSetInsert_ok [OF Cons.prems(1,2) ins]
    then have "rs_history a' p' ops = Some (rs_spec (rs_visible p') (rs_pending p') (rs_iBatch p') ops)"
      using Cons.prems(3) by (intro Cons.IH) auto
    with ok RsInsert ins show ?thesis by (simp add: rs_pending_def)
  next
    case (RsTest b x)
    have "length (rs_pEntry p) < 2 ^ 40" using Cons.prems(3) by simp
    from RowSetTest_ok [OF Cons.prems(1) this Cons.prems(2), of b x] obtain a' p' V where
      ok: "V = (if b \<noteq> rs_iBatch p then rs_visible p \<union> rs_pending p else rs_visible p)"
      "RowSetTest a p b x = Some (a', p', x \<in> V)" "no_oom a'" "rs_inv p'" "rs_visible p' = V"
      "rs_pEntry p' = (if b \<noteq> rs_iBatch p then [] else rs_pEntry p)" "rs_iBatch p' = b"
      unfolding Let_def by blast
    then have "rs_history a' p' ops = Some (rs_spec (rs_visible p') (rs_pending p') (rs_iBatch p') ops)"
      using Cons.prems(3) by (intro Cons.IH) (auto split: if_splits)
    with ok RsTest show ?thesis by (cases "b = rs_iBatch p") (auto simp: rs_pending_def)
  qed
qed

lemma RowSetInit_ok:
  "no_oom a \<Longrightarrow> \<exists>p. RowSetInit a n = (malloc_rest a, Some p) \<and> rs_inv p \<and> rs_visible p = {} \<and>
     rs_pEntry p = [] \<and> rs_iBatch p = 0 \<and> rs_pForest p = [] \<and> rs_SORTED p"
  by (simp add: RowSetInit_def rs_inv_def rs_visible_def)

text \<open>
  C21. Every test in a history of inserts and tests answers whether the value was inserted
  before the latest change of the batch number, as the specification with two sets does:
  sorting the list, building search trees and merging them in the forest lose no value and
  invent none, whatever the order of inserts, tests and batch changes.
\<close>

theorem rowset_history_refines_spec:
  assumes "no_oom a" "RowSetInit a n = (a', Some p)" "length ops < 2 ^ 40"
  shows "rs_history a' p ops = Some (rs_spec {} {} 0 ops)"
  using history_refines [of p a' ops] RowSetInit_ok [OF assms(1), of n] assms
  by (auto simp: rs_pending_def)

theorem rowset_history_refines_spec_witness:
  "rs_history (\<lambda>_. True)
     \<lparr>rs_pChunk = 0, rs_pEntry = [], rs_nFresh = 2, rs_pForest = [], rs_SORTED = True,
       rs_NEXT = False, rs_iBatch = 0\<rparr>
     [RsInsert 9, RsInsert 4, RsTest 1 4, RsInsert 7, RsTest 1 7, RsTest 2 7] =
   Some [True, False, True]"
proof -
  have "RowSetInit (\<lambda>_. True) 104 = (\<lambda>_. True, Some
     \<lparr>rs_pChunk = 0, rs_pEntry = [], rs_nFresh = 2, rs_pForest = [], rs_SORTED = True,
       rs_NEXT = False, rs_iBatch = 0\<rparr>)"
    by (simp add: RowSetInit_def malloc_ok_def malloc_rest_def)
  then show ?thesis by (subst rowset_history_refines_spec [OF no_oom_True]) simp_all
qed

text \<open>Inserting a list, then reading until the end.\<close>

fun rs_insert_list :: "alloc \<Rightarrow> rowset \<Rightarrow> int list \<Rightarrow> alloc \<times> rowset" where
  "rs_insert_list a p [] = (a, p)"
| "rs_insert_list a p (x # xs) = (case RowSetInsert a p x of (a', p') \<Rightarrow> rs_insert_list a' p' xs)"

fun rs_read_all :: "nat \<Rightarrow> rowset \<Rightarrow> int list option" where
  "rs_read_all 0 p = None"
| "rs_read_all (Suc n) p =
     (case RowSetNext p of
        None \<Rightarrow> None
      | Some (p', None) \<Rightarrow> Some []
      | Some (p', Some x) \<Rightarrow> map_option ((#) x) (rs_read_all n p'))"

lemma insert_list_ok:
  "rs_inv p \<Longrightarrow> no_oom a \<Longrightarrow> rs_insert_list a p xs = (a', p') \<Longrightarrow>
   rs_inv p' \<and> rs_pEntry p' = rs_pEntry p @ xs"
proof (induction xs arbitrary: a p)
  case Nil
  then show ?case by simp
next
  case (Cons x xs)
  obtain a1 p1 where ins: "RowSetInsert a p x = (a1, p1)" by fastforce
  with Cons.prems RowSetInsert_ok [OF Cons.prems(1,2) ins] show ?case
    using Cons.IH [of p1 a1] by simp
qed

lemma read_all_list:
  "rs_NEXT p \<or> es = [] \<and> rs_SORTED p \<Longrightarrow> rs_pEntry p = es \<Longrightarrow> length es < n \<Longrightarrow> rs_read_all n p = Some es"
proof (induction es arbitrary: n p)
  case Nil
  then show ?case by (cases n) (auto simp: RowSetNext_def)
next
  case (Cons e es)
  let ?q = "p\<lparr>rs_pEntry := es\<rparr>"
  let ?p = "if es = [] then RowSetClear ?q else ?q"
  obtain m where n: "n = Suc m" using Cons.prems(3) by (cases n) auto
  have "RowSetNext p = Some (?p, Some e)"
    using Cons.prems(1,2) by (simp add: RowSetNext_def Let_def)
  moreover have "rs_read_all m ?p = Some es"
    using Cons.prems n by (intro Cons.IH) (auto simp: RowSetClear_def)
  ultimately show ?case using n by simp
qed

text \<open>
  C22. Reading a set out returns exactly the inserted values in ascending order, each once, and
  then reports the end: the sort is skipped only when the list is known to be strictly
  ascending, and duplicates disappear in the merges.
\<close>

theorem rowset_reads_sorted_distinct:
  assumes "no_oom a" "RowSetInit a n = (a1, Some p)" "rs_insert_list a1 p xs = (a2, p')"
    and "length xs < 2 ^ 40" "length xs < fuel"
  shows "rs_read_all fuel p' = Some (sorted_list_of_set (set xs))"
proof -
  have ok: "rs_inv p'" "rs_pEntry p' = xs"
    using RowSetInit_ok [OF assms(1), of n] insert_list_ok [of p a1 xs a2 p'] assms(1-3) by auto
  obtain es where es: "(if \<not> rs_SORTED p' then rowSetEntrySort xs else Some xs) = Some es"
    "strict_sorted es" "set es = set xs"
    using rowSetEntrySort_ok [OF assms(4)] ok by (cases "rs_SORTED p'") (auto simp: rs_inv_def)
  have sorted: "es = sorted_list_of_set (set xs)"
    using es(2,3) by (metis sorted_list_of_set.idem_if_sorted_distinct strict_sorted_iff)
  have "length es \<le> length xs"
    using es(3) sorted by (metis card_length length_sorted_list_of_set)
  then have len: "length es < fuel" using assms(5) by simp
  let ?q = "p'\<lparr>rs_pEntry := es, rs_SORTED := True, rs_NEXT := True\<rparr>"
  have "RowSetNext p' = RowSetNext ?q"
    using es(1) ok
    by (cases "rs_SORTED p'"; cases es) (simp_all add: RowSetNext_def rs_inv_def Let_def)
  then have "rs_read_all fuel p' = rs_read_all fuel ?q" by (cases fuel) simp_all
  with read_all_list [of ?q es fuel] len sorted show ?thesis by simp
qed

theorem rowset_reads_sorted_distinct_witness:
  "rs_read_all 6 (snd (rs_insert_list (\<lambda>_. True) (the (snd (RowSetInit (\<lambda>_. True) 104))) [5, 2, 9, 2]))
     = Some [2, 5, 9]"
proof -
  have init: "RowSetInit (\<lambda>_. True) 104 = (malloc_rest (\<lambda>_. True), Some (the (snd (RowSetInit (\<lambda>_. True) 104))))"
    by (simp add: RowSetInit_def malloc_ok_def)
  have "malloc_rest (\<lambda>_. True) = (\<lambda>_. True)" by (simp add: malloc_rest_def)
  with rowset_reads_sorted_distinct [OF no_oom_True init, of "[5, 2, 9, 2]" _ _ 6] show ?thesis
    by (simp add: prod_eq_iff insert_commute)
qed

text \<open>
  The search tree built from a sorted list of \<open>n\<close> entries holds the list in order and is
  balanced: with height \<open>h\<close> it needs at least \<open>2 ^ (h - 1)\<close> entries, so a test visits at
  most \<open>log n + 1\<close> nodes of it.
\<close>

theorem rowset_tree_balanced:
  assumes "xs \<noteq> []"
  shows "rowSetTreeToList (rowSetListToTree xs) = xs \<and>
     2 ^ (rs_height (rowSetListToTree xs) - 1) \<le> length xs"
  using assms list_to_tree_list list_to_tree_shape by blast

theorem rowset_tree_balanced_witness:
  "2 ^ (rs_height (rowSetListToTree [1 .. 9]) - 1) \<le> length [1 :: int .. 9]"
  using rowset_tree_balanced [of "[1 .. 9]"] by (simp add: upto.simps)

end
