(* ===== verification/Codec.thy ===== *)
theory Codec
  imports Prelude
begin

text \<open>
  The interface of the self-delimiting byte encodings: a writer that returns bytes and a reader
  that finds a value at the start of a byte sequence and says how many bytes it took. The
  clients read several values in a row, or up to a known end, and rely on nothing else.
\<close>

text \<open>The bytes from position \<open>k\<close> on, as the pointer \<open>p + k\<close> of the code sees them.\<close>

definition at :: "u8 list \<Rightarrow> nat \<Rightarrow> nat \<Rightarrow> u8" where
  "at bs k = (\<lambda>i. bs ! (k + i))"

lemma at_append: "k = length xs \<Longrightarrow> at (xs @ ys) k = (\<lambda>i. ys ! i)"
  by (rule ext) (simp add: at_def nth_append)

text \<open>\<open>n\<close> values in a row, starting at position \<open>k\<close>: the values and the position after them.\<close>

fun read_values :: "((nat \<Rightarrow> u8) \<Rightarrow> 'a \<times> nat) \<Rightarrow> u8 list \<Rightarrow> nat \<Rightarrow> nat \<Rightarrow> 'a list \<times> nat" where
  "read_values dec bs k 0 = ([], k)"
| "read_values dec bs k (Suc n) =
     (case dec (at bs k) of (x, m) \<Rightarrow> (case read_values dec bs (k + m) n of (xs, e) \<Rightarrow> (x # xs, e)))"

locale codec =
  fixes valid :: "'a \<Rightarrow> bool" and enc :: "'a \<Rightarrow> u8 list" and dec :: "(nat \<Rightarrow> u8) \<Rightarrow> 'a \<times> nat"
  assumes dec_enc: "valid x \<Longrightarrow> dec (\<lambda>i. (enc x @ rest) ! i) = (x, length (enc x))"
    and enc_nonempty: "valid x \<Longrightarrow> enc x \<noteq> []"
begin

lemma dec_at: "valid x \<Longrightarrow> dec (at (pre @ enc x @ rest) (length pre)) = (x, length (enc x))"
  by (simp add: at_append dec_enc)

lemma read_values_enc:
  "\<forall>x\<in>set xs. valid x \<Longrightarrow>
   read_values dec (pre @ concat (map enc xs) @ rest) (length pre) (length xs) =
     (xs, length pre + length (concat (map enc xs)))"
proof (induction xs arbitrary: pre)
  case Nil
  then show ?case by simp
next
  case (Cons x xs)
  have "dec (at (pre @ enc x @ concat (map enc xs) @ rest) (length pre)) = (x, length (enc x))"
    using Cons.prems by (intro dec_at) simp
  moreover have "read_values dec ((pre @ enc x) @ concat (map enc xs) @ rest) (length (pre @ enc x)) (length xs) =
     (xs, length (pre @ enc x) + length (concat (map enc xs)))"
    using Cons.prems by (intro Cons.IH) simp
  ultimately show ?case by simp
qed

text \<open>No encoding is a proper prefix of another, and different values have different encodings.\<close>

lemma enc_prefix_free: "valid x \<Longrightarrow> valid y \<Longrightarrow> enc x @ r = enc y @ s \<Longrightarrow> x = y \<and> r = s"
  using dec_enc [of x r] dec_enc [of y s] by auto

lemma enc_inj: "valid x \<Longrightarrow> valid y \<Longrightarrow> enc x = enc y \<Longrightarrow> x = y"
  using enc_prefix_free [of x y "[]" "[]"] by simp

end

end
