(* ===== verification/Varint.thy ===== *)
theory Varint
  imports Codec
begin

text \<open>
  The variable-length integers of the file format (\<open>util.c\<close>): the writer with its two fast
  paths, the hand-scheduled reader, the saturating 32-bit reader and the length function.
  The reader is shown to be the plain seven-bits-per-byte decoder on all inputs, and the
  four routines are shown to fit together.
\<close>

section \<open>The routines\<close>

text \<open>\<open>sqlite3PutVarint\<close> returns the bytes it writes; the count it returns is their number.\<close>

fun put_groups :: "nat \<Rightarrow> u64 \<Rightarrow> u8 list" where
  "put_groups 0 v = []"
| "put_groups (Suc n) v = put_groups n (drop_bit 7 v) @ [ucast (v AND 0x7f) OR 0x80]"

fun put_buf :: "nat \<Rightarrow> u64 \<Rightarrow> u8 list" where
  "put_buf 0 v = []"
| "put_buf (Suc f) v =
     (ucast (v AND 0x7f) OR 0x80) # (if drop_bit 7 v \<noteq> 0 then put_buf f (drop_bit 7 v) else [])"

definition putVarint64 :: "u64 \<Rightarrow> u8 list" where
  "putVarint64 v =
     (if v AND push_bit 32 0xff000000 \<noteq> 0 then
        put_groups 8 (drop_bit 8 v) @ [ucast v]
      else
        (let buf = put_buf 10 v; buf0 = hd buf AND 0x7f
         in rev (buf0 # tl buf)))"

definition PutVarint :: "u64 \<Rightarrow> u8 list" where
  "PutVarint v =
     (if v \<le> 0x7f then [ucast (v AND 0x7f)]
      else if v \<le> 0x3fff then [ucast (drop_bit 7 v AND 0x7f) OR 0x80, ucast (v AND 0x7f)]
      else putVarint64 v)"

definition SLOT_2_0 :: u32 where "SLOT_2_0 = 0x001fc07f"
definition SLOT_4_2_0 :: u32 where "SLOT_4_2_0 = 0xf01fc07f"

text \<open>
  \<open>sqlite3GetVarint\<close>, statement by statement; \<open>p k\<close> is the \<open>k\<close>-th byte, \<open>a1\<close>, \<open>a2\<close>, \dots\ the
  successive values of the C variables. The result is the value and the bytes read.
\<close>

definition top :: "u8 \<Rightarrow> bool" where "top b \<longleftrightarrow> bit b 7"

definition w32 :: "u8 \<Rightarrow> u32" where "w32 b = ucast b"

definition join64 :: "u32 \<Rightarrow> u32 \<Rightarrow> u64" where
  "join64 s a = push_bit 32 (ucast s) OR ucast a"

definition GetVarint :: "(nat \<Rightarrow> u8) \<Rightarrow> u64 \<times> nat" where
  "GetVarint p =
     (if \<not> top (p 0) then (ucast (p 0), 1)
      else if \<not> top (p 1) then
        (ucast (push_bit 7 (w32 (p 0) AND 0x7f) OR w32 (p 1)), 2)
      else
      let a1 = push_bit 14 (w32 (p 0)) OR w32 (p 2); b1 = w32 (p 1) in
      if a1 AND 0x80 = 0 then
        (ucast ((a1 AND SLOT_2_0) OR push_bit 7 (b1 AND 0x7f)), 3)
      else
      let a2 = a1 AND SLOT_2_0; b2 = push_bit 14 b1 OR w32 (p 3) in
      if b2 AND 0x80 = 0 then
        (ucast (push_bit 7 a2 OR (b2 AND SLOT_2_0)), 4)
      else
      let b3 = b2 AND SLOT_2_0; s1 = a2; a3 = push_bit 14 a2 OR w32 (p 4) in
      if a3 AND 0x80 = 0 then
        (join64 (drop_bit 18 s1) (a3 OR push_bit 7 b3), 5)
      else
      let s2 = push_bit 7 s1 OR b3; b4 = push_bit 14 b3 OR w32 (p 5) in
      if b4 AND 0x80 = 0 then
        (join64 (drop_bit 18 s2) (push_bit 7 (a3 AND SLOT_2_0) OR b4), 6)
      else
      let a4 = push_bit 14 a3 OR w32 (p 6) in
      if a4 AND 0x80 = 0 then
        (join64 (drop_bit 11 s2) ((a4 AND SLOT_4_2_0) OR push_bit 7 (b4 AND SLOT_2_0)), 7)
      else
      let a5 = a4 AND SLOT_2_0; b5 = push_bit 14 b4 OR w32 (p 7) in
      if b5 AND 0x80 = 0 then
        (join64 (drop_bit 4 s2) (push_bit 7 a5 OR (b5 AND SLOT_4_2_0)), 8)
      else
      let a6 = push_bit 15 a5 OR w32 (p 8);
          a7 = a6 OR push_bit 8 (b5 AND SLOT_2_0);
          s3 = push_bit 4 s2 OR drop_bit 3 (w32 (p 4) AND 0x7f)
      in (join64 s3 a7, 9))"

definition GetVarint32 :: "(nat \<Rightarrow> u8) \<Rightarrow> u32 \<times> nat" where
  "GetVarint32 p =
     (if p 1 AND 0x80 = 0 then (push_bit 7 (w32 (p 0) AND 0x7f) OR w32 (p 1), 2)
      else if p 2 AND 0x80 = 0 then
        (push_bit 14 (w32 (p 0) AND 0x7f) OR push_bit 7 (w32 (p 1) AND 0x7f) OR w32 (p 2), 3)
      else
        (case GetVarint p of
           (v64, n) \<Rightarrow>
             if v64 AND 0xffffffff \<noteq> v64 then (0xffffffff, n) else (ucast v64, n)))"

text \<open>The macro around it, which reads the one-byte case itself.\<close>

definition getVarint32 :: "(nat \<Rightarrow> u8) \<Rightarrow> u32 \<times> nat" where
  "getVarint32 p = (if p 0 < 0x80 then (w32 (p 0), 1) else GetVarint32 p)"

fun varint_len_loop :: "nat \<Rightarrow> u64 \<Rightarrow> nat \<Rightarrow> nat option" where
  "varint_len_loop 0 v i = None"
| "varint_len_loop (Suc f) v i =
     (let v' = drop_bit 7 v in if v' \<noteq> 0 then varint_len_loop f v' (i + 1) else Some i)"

definition VarintLen :: "u64 \<Rightarrow> nat option" where
  "VarintLen v = varint_len_loop 10 v 1"

section \<open>The format\<close>

text \<open>
  Seven bits a byte, most significant group first, up to eight bytes with the top bit set;
  a ninth byte counts in full.
\<close>

fun varint_ref :: "nat \<Rightarrow> nat \<Rightarrow> u64 \<Rightarrow> (nat \<Rightarrow> u8) \<Rightarrow> u64 \<times> nat" where
  "varint_ref 0 k acc p = (push_bit 8 acc OR ucast (p k), k + 1)"
| "varint_ref (Suc n) k acc p =
     (let acc' = push_bit 7 acc OR ucast (p k AND 0x7f) in
      if top (p k) then varint_ref n (k + 1) acc' p else (acc', k + 1))"

definition varint_value :: "(nat \<Rightarrow> u8) \<Rightarrow> u64 \<times> nat" where
  "varint_value p = varint_ref 8 0 0 p"

text \<open>The first \<open>k\<close> groups of a sequence of bytes.\<close>

fun groups :: "nat \<Rightarrow> (nat \<Rightarrow> u8) \<Rightarrow> u64" where
  "groups 0 p = 0"
| "groups (Suc k) p = push_bit 7 (groups k p) OR ucast (p k AND 0x7f)"

lemma groups_numeral:
  "groups (numeral k) p =
     push_bit 7 (groups (pred_numeral k) p) OR ucast (p (pred_numeral k) AND 0x7f)"
  by (simp add: numeral_eq_Suc)

lemma varint_ref_groups:
  "\<forall>i<n. top (p (k + i)) \<Longrightarrow> varint_ref (n + m) k (groups k p) p = varint_ref m (k + n) (groups (k + n) p) p"
proof (induction n arbitrary: k)
  case 0
  then show ?case by simp
next
  case (Suc n)
  then have "top (p k)" "\<forall>i<n. top (p (Suc k + i))" by auto
  with Suc.IH [of "Suc k"] show ?case by (simp add: Let_def)
qed

lemma varint_value_short:
  assumes "n < 8" "\<forall>i<n. top (p i)" "\<not> top (p n)"
  shows "varint_value p = (groups (Suc n) p, Suc n)"
proof -
  obtain m where m: "(8 :: nat) = n + Suc m" using assms(1) by (metis less_iff_Suc_add add_Suc_right)
  have "varint_ref (n + Suc m) 0 (groups 0 p) p = varint_ref (Suc m) (0 + n) (groups (0 + n) p) p"
    using assms(2) by (intro varint_ref_groups) simp
  also have "\<dots> = (groups (Suc n) p, Suc n)" using assms(3) by simp
  finally show ?thesis by (simp only: varint_value_def m groups.simps(1))
qed

lemma varint_value_long:
  "\<forall>i<8. top (p i) \<Longrightarrow> varint_value p = (push_bit 8 (groups 8 p) OR ucast (p 8), 9)"
  using varint_ref_groups [of 8 p 0 0] by (simp add: varint_value_def)

section \<open>The reader is the format\<close>

text \<open>
  The nine exits of the reader, one per length: the value that the shifts and masks on the
  32-bit variables put together is the concatenation of the seven-bit groups.
\<close>

lemma GetVarint_exits:
  "\<not> bit (p 0) 7 \<Longrightarrow> GetVarint p = (groups 1 p, 1)"
  "bit (p 0) 7 \<Longrightarrow> \<not> bit (p 1) 7 \<Longrightarrow> GetVarint p = (groups 2 p, 2)"
  "bit (p 0) 7 \<Longrightarrow> bit (p 1) 7 \<Longrightarrow> \<not> bit (p 2) 7 \<Longrightarrow> GetVarint p = (groups 3 p, 3)"
  "bit (p 0) 7 \<Longrightarrow> bit (p 1) 7 \<Longrightarrow> bit (p 2) 7 \<Longrightarrow> \<not> bit (p 3) 7 \<Longrightarrow> GetVarint p = (groups 4 p, 4)"
  "bit (p 0) 7 \<Longrightarrow> bit (p 1) 7 \<Longrightarrow> bit (p 2) 7 \<Longrightarrow> bit (p 3) 7 \<Longrightarrow> \<not> bit (p 4) 7 \<Longrightarrow>
     GetVarint p = (groups 5 p, 5)"
  "bit (p 0) 7 \<Longrightarrow> bit (p 1) 7 \<Longrightarrow> bit (p 2) 7 \<Longrightarrow> bit (p 3) 7 \<Longrightarrow> bit (p 4) 7 \<Longrightarrow>
     \<not> bit (p 5) 7 \<Longrightarrow> GetVarint p = (groups 6 p, 6)"
  "bit (p 0) 7 \<Longrightarrow> bit (p 1) 7 \<Longrightarrow> bit (p 2) 7 \<Longrightarrow> bit (p 3) 7 \<Longrightarrow> bit (p 4) 7 \<Longrightarrow>
     bit (p 5) 7 \<Longrightarrow> \<not> bit (p 6) 7 \<Longrightarrow> GetVarint p = (groups 7 p, 7)"
  "bit (p 0) 7 \<Longrightarrow> bit (p 1) 7 \<Longrightarrow> bit (p 2) 7 \<Longrightarrow> bit (p 3) 7 \<Longrightarrow> bit (p 4) 7 \<Longrightarrow>
     bit (p 5) 7 \<Longrightarrow> bit (p 6) 7 \<Longrightarrow> \<not> bit (p 7) 7 \<Longrightarrow> GetVarint p = (groups 8 p, 8)"
  "bit (p 0) 7 \<Longrightarrow> bit (p 1) 7 \<Longrightarrow> bit (p 2) 7 \<Longrightarrow> bit (p 3) 7 \<Longrightarrow> bit (p 4) 7 \<Longrightarrow>
     bit (p 5) 7 \<Longrightarrow> bit (p 6) 7 \<Longrightarrow> bit (p 7) 7 \<Longrightarrow>
     GetVarint p = (push_bit 8 (groups 8 p) OR ucast (p 8), 9)"
  by (subst GetVarint_def,
      simp add: Let_def top_def and_0x80_32 bit_or_iff bit_and_iff bit_push_bit_iff w32_def
        bit_ucast_iff SLOT_2_0_def SLOT_4_2_0_def,
      rule word64_eqI, simp add: word_bits join64_def groups_numeral)+

theorem GetVarint_value: "GetVarint p = varint_value p"
proof -
  have short: "varint_value p = (groups k p, k)"
    if "0 < k" "k \<le> 8" "\<forall>i<k - 1. bit (p i) 7" "\<not> bit (p (k - 1)) 7" for k
    using varint_value_short [of "k - 1" p] that by (simp add: top_def)
  have long: "varint_value p = (push_bit 8 (groups 8 p) OR ucast (p 8), 9)"
    if "\<forall>i<8. bit (p i) 7"
    using varint_value_long [of p] that by (simp add: top_def)
  show ?thesis
  proof (cases "\<forall>i<8. bit (p i) 7")
    case True
    with long show ?thesis by (simp add: GetVarint_exits(9))
  next
    case False
    then obtain j where j: "j < 8" "\<not> bit (p j) 7" by auto
    then obtain k where k: "\<not> bit (p k) 7" "\<forall>i<k. bit (p i) 7"
      using exists_least_iff [of "\<lambda>i. \<not> bit (p i) 7"] by blast
    have "k < 8" using j k(2) by (metis le_less_trans not_le)
    note k = k(1) \<open>k < 8\<close> k(2)
    have v: "varint_value p = (groups (Suc k) p, Suc k)" using k by (intro short) auto
    from k(2) have "k = 0 \<or> k = 1 \<or> k = 2 \<or> k = 3 \<or> k = 4 \<or> k = 5 \<or> k = 6 \<or> k = 7" by auto
    then show ?thesis
      using v k(1) k(3) [rule_format, of 0] k(3) [rule_format, of 1] k(3) [rule_format, of 2]
        k(3) [rule_format, of 3] k(3) [rule_format, of 4] k(3) [rule_format, of 5] k(3) [rule_format, of 6]
      by (elim disjE) (simp_all add: GetVarint_exits groups_numeral)
  qed
qed

section \<open>Writing\<close>

lemma length_put_groups [simp]: "length (put_groups n v) = n"
  by (induction n arbitrary: v) auto

lemma put_groups_top: "i < n \<Longrightarrow> top (put_groups n v ! i)"
  by (induction n arbitrary: v) (auto simp: nth_append less_Suc_eq top_def bit_simps)

lemma groups_put_groups:
  "n \<le> length xs \<Longrightarrow> take n xs = put_groups n v \<Longrightarrow> groups n (\<lambda>i. xs ! i) = take_bit (7 * n) v"
proof (induction n arbitrary: v)
  case 0
  then show ?case by simp
next
  case (Suc n)
  have len: "n < length xs" using Suc.prems(1) by simp
  have "take n xs @ [xs ! n] = put_groups n (drop_bit 7 v) @ [ucast (v AND 0x7f) OR 0x80]"
    using Suc.prems(2) take_Suc_conv_app_nth [OF len] by simp
  then have xs: "take n xs = put_groups n (drop_bit 7 v)" "xs ! n = ucast (v AND 0x7f) OR 0x80"
    by (auto simp: append_eq_append_conv)
  have "groups n (\<lambda>i. xs ! i) = take_bit (7 * n) (drop_bit 7 v)"
    using Suc.IH xs(1) len by simp
  moreover have "ucast ((ucast (v AND 0x7f) OR 0x80 :: u8) AND 0x7f) = take_bit 7 v"
    by (rule word64_eqI) (simp add: word_bits)
  ultimately have "groups (Suc n) (\<lambda>i. xs ! i) = push_bit 7 (take_bit (7 * n) (drop_bit 7 v)) OR take_bit 7 v"
    by (simp add: xs(2))
  also have "\<dots> = take_bit (7 * Suc n) v"
    by (rule bit_word_eqI) (auto simp: bit_simps)
  finally show ?case .
qed

text \<open>The number of seven-bit groups of a value below \<open>2 ^ 56\<close>.\<close>

definition has_groups :: "nat \<Rightarrow> u64 \<Rightarrow> bool" where
  "has_groups n v \<longleftrightarrow> 1 \<le> n \<and> unat v < 2 ^ (7 * n) \<and> (\<forall>m. 1 \<le> m \<and> m < n \<longrightarrow> 2 ^ (7 * m) \<le> unat v)"

lemma has_groups_exists: "unat v < 2 ^ (7 * k) \<Longrightarrow> 1 \<le> k \<Longrightarrow> \<exists>n\<le>k. has_groups n v"
proof -
  assume "unat v < 2 ^ (7 * k)" "1 \<le> k"
  then obtain n where n: "1 \<le> n \<and> unat v < 2 ^ (7 * n)"
    "\<forall>m<n. \<not> (1 \<le> m \<and> unat v < 2 ^ (7 * m))"
    using exists_least_iff [of "\<lambda>n. 1 \<le> n \<and> unat v < 2 ^ (7 * n)"] by blast
  then have "has_groups n v" by (auto simp: has_groups_def not_less)
  moreover have "n \<le> k" using n(2) \<open>unat v < _\<close> \<open>1 \<le> k\<close> by (meson not_le)
  ultimately show ?thesis by blast
qed

lemma has_groups_1: "has_groups (Suc 0) v \<longleftrightarrow> drop_bit 7 v = 0"
  by (auto simp: has_groups_def drop_bit_zero_iff)

lemma has_groups_Suc:
  assumes "has_groups (Suc (Suc n)) v"
  shows "has_groups (Suc n) (drop_bit 7 v)" "drop_bit 7 v \<noteq> 0"
proof -
  have div: "unat (drop_bit 7 v) = unat v div 128"
    by (simp only: unat_drop_bit_div) simp
  have v: "unat v < 2 ^ (7 * Suc (Suc n))" "\<And>m. 1 \<le> m \<Longrightarrow> m < Suc (Suc n) \<Longrightarrow> 2 ^ (7 * m) \<le> unat v"
    using assms by (auto simp: has_groups_def)
  have "2 ^ (7 * m) \<le> unat v div 128" if "1 \<le> m" "m < Suc n" for m
  proof -
    have "2 ^ (7 * Suc m) \<le> unat v" using v(2) [of "Suc m"] that by simp
    then show ?thesis by (simp add: less_eq_div_iff_mult_less_eq power_add mult.commute)
  qed
  moreover have "unat v div 128 < 2 ^ (7 * Suc n)"
    using v(1) by (simp add: less_mult_imp_div_less power_add)
  ultimately show "has_groups (Suc n) (drop_bit 7 v)" by (auto simp: has_groups_def div)
  show "drop_bit 7 v \<noteq> 0" using v(2) [of 1] by (simp add: drop_bit_zero_iff)
qed

lemma put_buf_groups: "has_groups n v \<Longrightarrow> n \<le> f \<Longrightarrow> put_buf f v = rev (put_groups n v)"
proof (induction f arbitrary: n v)
  case 0
  then show ?case by (simp add: has_groups_def)
next
  case (Suc f)
  obtain m where n: "n = Suc m" using Suc.prems(1) by (cases n) (auto simp: has_groups_def)
  show ?case
  proof (cases m)
    case 0
    with Suc.prems n show ?thesis by (simp add: has_groups_1)
  next
    case (Suc k)
    with has_groups_Suc [of k v] Suc.prems n Suc.IH [of m "drop_bit 7 v"] show ?thesis by simp
  qed
qed

lemma varint_len_groups: "has_groups n v \<Longrightarrow> n \<le> f \<Longrightarrow> varint_len_loop f v i = Some (i + n - 1)"
proof (induction f arbitrary: n v i)
  case 0
  then show ?case by (simp add: has_groups_def)
next
  case (Suc f)
  obtain m where n: "n = Suc m" using Suc.prems(1) by (cases n) (auto simp: has_groups_def)
  show ?case
  proof (cases m)
    case 0
    with Suc.prems n show ?thesis by (simp add: has_groups_1)
  next
    case (Suc k)
    with has_groups_Suc [of k v] Suc.prems n Suc.IH [of m "drop_bit 7 v"] show ?thesis by simp
  qed
qed

lemma high_byte: "(v :: u64) AND 0xff00000000000000 = 0 \<longleftrightarrow> unat v < 2 ^ 56"
proof -
  have "v AND 0xff00000000000000 = push_bit 56 (drop_bit 56 v)"
    by (rule word64_eqI) (simp add: word_bits)
  moreover have "drop_bit 56 (push_bit 56 (drop_bit 56 v)) = drop_bit 56 v"
    by (rule word64_eqI) (simp add: word_bits)
  ultimately show ?thesis by (metis drop_bit_zero_iff push_bit_of_0 drop_bit_of_0)
qed

lemma low7: "(ucast ((w :: u64) AND 0x7f) OR 0x80 :: u8) AND 0x7f = ucast (w AND 0x7f)"
  by (rule word8_eqI) (simp add: word_bits)

lemma fast_paths: "(v :: u64) \<le> 0x7f \<longleftrightarrow> unat v < 128" "v \<le> 0x3fff \<longleftrightarrow> unat v < 16384"
  by (auto simp: word_le_nat_alt)

text \<open>All three paths of the writer produce the groups of the value, most significant first.\<close>

lemma PutVarint_groups:
  assumes "has_groups (Suc n) v" "n < 8"
  shows "PutVarint v = put_groups n (drop_bit 7 v) @ [ucast (v AND 0x7f)]"
proof -
  have v: "unat v < 2 ^ (7 * Suc n)" "\<And>m. 1 \<le> m \<Longrightarrow> m \<le> n \<Longrightarrow> 2 ^ (7 * m) \<le> unat v"
    using assms(1) by (auto simp: has_groups_def)
  consider "n = 0" | "n = 1" | "2 \<le> n" by linarith
  then show ?thesis
  proof cases
    case 1
    with v(1) show ?thesis by (simp add: PutVarint_def fast_paths)
  next
    case 2
    with v(1) v(2) [of 1] show ?thesis by (simp add: PutVarint_def fast_paths)
  next
    case 3
    have "(2 :: nat) ^ (7 * Suc n) \<le> 2 ^ 56" using assms(2) by (intro power_increasing) auto
    with v(1) have "unat v < 2 ^ 56" by linarith
    moreover have "put_buf 10 v = rev (put_groups (Suc n) v)"
      using put_buf_groups [OF assms(1), of 10] assms(2) by simp
    ultimately show ?thesis
      using v(2) [of 2] 3 by (simp add: PutVarint_def putVarint64_def fast_paths high_byte low7)
  qed
qed

lemma PutVarint_nine: "2 ^ 56 \<le> unat v \<Longrightarrow> PutVarint v = put_groups 8 (drop_bit 8 v) @ [ucast v]"
  using high_byte [of v] by (simp add: PutVarint_def putVarint64_def fast_paths)

lemma PutVarint_cases:
  obtains (short) n where "n < 8" "has_groups (Suc n) v"
    "PutVarint v = put_groups n (drop_bit 7 v) @ [ucast (v AND 0x7f)]"
  | (nine) "2 ^ 56 \<le> unat v" "PutVarint v = put_groups 8 (drop_bit 8 v) @ [ucast v]"
proof (cases "unat v < 2 ^ 56")
  case True
  then obtain n where n: "n \<le> 8" "has_groups n v" using has_groups_exists [of v 8] by auto
  then obtain m where "n = Suc m" by (cases n) (auto simp: has_groups_def)
  with n PutVarint_groups [of m v] show ?thesis by (intro short) auto
next
  case False
  with PutVarint_nine show ?thesis by (intro nine) auto
qed

section \<open>The properties of the routines\<close>

lemma take_append_nth: "n \<le> length xs \<Longrightarrow> take n (xs @ ys) = take n xs"
  by simp

lemma GetVarint_PutVarint: "GetVarint (\<lambda>i. (PutVarint v @ rest) ! i) = (v, length (PutVarint v))"
proof (cases v rule: PutVarint_cases)
  case (short n)
  let ?g = "put_groups n (drop_bit 7 v)"
  let ?xs = "?g @ [ucast (v AND 0x7f)] @ rest"
  have "groups n (\<lambda>i. ?xs ! i) = take_bit (7 * n) (drop_bit 7 v)"
    by (rule groups_put_groups) simp_all
  moreover have "ucast (ucast (v AND 0x7f) AND 0x7f :: u8) = take_bit 7 v"
    by (rule word64_eqI) (simp add: word_bits)
  ultimately have "groups (Suc n) (\<lambda>i. ?xs ! i) = push_bit 7 (take_bit (7 * n) (drop_bit 7 v)) OR take_bit 7 v"
    by (simp add: nth_append)
  also have "\<dots> = take_bit (7 * Suc n) v"
    by (rule bit_word_eqI) (auto simp: bit_simps)
  also have "\<dots> = v"
    using short(2) by (intro take_bit_small) (simp add: has_groups_def)
  finally have val: "groups (Suc n) (\<lambda>i. ?xs ! i) = v" .
  have "\<forall>i<n. top (?xs ! i)" by (simp add: nth_append put_groups_top)
  moreover have "\<not> top (?xs ! n)" by (simp add: nth_append top_def bit_simps)
  ultimately have "varint_value (\<lambda>i. ?xs ! i) = (v, Suc n)"
    using varint_value_short [of n "\<lambda>i. ?xs ! i"] short(1) val by simp
  with short(3) show ?thesis by (simp add: GetVarint_value)
next
  case nine
  let ?xs = "put_groups 8 (drop_bit 8 v) @ [ucast v] @ rest"
  have "\<forall>i<8. top (?xs ! i)" by (simp add: nth_append put_groups_top)
  from varint_value_long [OF this] have
    "varint_value (\<lambda>i. ?xs ! i) = (push_bit 8 (groups 8 (\<lambda>i. ?xs ! i)) OR ucast (?xs ! 8), 9)" .
  also have "groups 8 (\<lambda>i. ?xs ! i) = take_bit (7 * 8) (drop_bit 8 v)"
    by (rule groups_put_groups) simp_all
  also have "?xs ! 8 = ucast v" by (simp add: nth_append)
  also have "push_bit 8 (take_bit (7 * 8) (drop_bit 8 v)) OR ucast (ucast v :: u8) = v"
    by (rule word64_eqI) (simp add: word_bits)
  finally have "varint_value (\<lambda>i. ?xs ! i) = (v, 9)" .
  with nine(2) show ?thesis by (simp add: GetVarint_value)
qed

interpretation varint: codec "\<lambda>_. True" PutVarint GetVarint
proof unfold_locales
  show "GetVarint (\<lambda>i. (PutVarint x @ rest) ! i) = (x, length (PutVarint x))" for x rest
    by (rule GetVarint_PutVarint)
  show "PutVarint x \<noteq> []" for x by (cases x rule: PutVarint_cases) auto
qed

lemma PutVarint_length: "1 \<le> length (PutVarint v)" "length (PutVarint v) \<le> 9"
  by (cases v rule: PutVarint_cases; simp)+

text \<open>
  C23. Reading back what the writer wrote gives the value and takes exactly the bytes that were
  written, for all 64-bit values and whatever bytes follow: the two fast paths, the loop
  over a buffer, and the nine-byte form with its full last byte all agree with the reader.
\<close>

theorem varint_roundtrip:
  "GetVarint (at (PutVarint v @ rest) 0) = (v, length (PutVarint v)) \<and>
   1 \<le> length (PutVarint v) \<and> length (PutVarint v) \<le> 9"
proof -
  have "at (PutVarint v @ rest) 0 = (\<lambda>i. (PutVarint v @ rest) ! i)" by (simp add: at_def)
  then show ?thesis using PutVarint_length [of v] by (simp add: varint.dec_enc)
qed

text \<open>
  C24. The hand-scheduled reader, which assembles two 32-bit halves with shared masks, computes
  for every byte sequence (canonical or not) the value and the length that the seven-bits-
  per-byte definition of the format gives.
\<close>

theorem varint_reader_is_format: "GetVarint p = varint_value p"
proof -
  show ?thesis by (rule GetVarint_value)
qed

lemma groups_bound: "unat (groups n p) < 2 ^ (7 * n)"
proof (induction n)
  case 0
  then show ?case by simp
next
  case (Suc n)
  then have hi: "\<not> bit (groups n p) (7 * n + k)" for k by (simp only: unat_less_bits) simp
  have "\<not> bit (groups (Suc n) p) (7 * Suc n + k)" for k
  proof -
    have "\<not> bit (p n AND 0x7f) (7 * Suc n + k)"
    proof
      assume "bit (p n AND 0x7f) (7 * Suc n + k)"
      moreover from this have "7 * Suc n + k < 8" using bit_imp_le_length by force
      then have "n = 0" "k = 0" by simp_all
      ultimately show False by (simp add: bit_simps)
    qed
    then show ?thesis using hi [of k] by (simp add: bit_simps algebra_simps)
  qed
  then show ?case by (simp only: unat_less_bits) simp
qed

lemma varint_value_cases:
  obtains (short) n where "n < 8" "varint_value p = (groups (Suc n) p, Suc n)"
  | (long) "varint_value p = (push_bit 8 (groups 8 p) OR ucast (p 8), 9)"
proof (cases "\<forall>i<8. top (p i)")
  case True
  with varint_value_long long show ?thesis by blast
next
  case False
  then obtain j where j: "j < 8" "\<not> top (p j)" by auto
  then obtain k where k: "\<not> top (p k)" "\<forall>i<k. top (p i)"
    using exists_least_iff [of "\<lambda>i. \<not> top (p i)"] by blast
  with j have "k < 8" by (metis le_less_trans not_le)
  with k varint_value_short [of k p] short show ?thesis by blast
qed

text \<open>
  C25. No byte sequence that reads as a value is shorter than the one the writer produces for
  it: the writer's encoding is minimal.
\<close>

theorem varint_writer_minimal: "length (PutVarint (fst (GetVarint p))) \<le> snd (GetVarint p)"
proof (cases p rule: varint_value_cases)
  case (short n)
  let ?v = "groups (Suc n) p"
  have "unat ?v < 2 ^ (7 * Suc n)" by (rule groups_bound)
  from has_groups_exists [OF this] obtain m where m: "m \<le> Suc n" "has_groups m ?v" by auto
  then obtain k where k: "m = Suc k" by (cases m) (auto simp: has_groups_def)
  have "length (PutVarint ?v) = m" using PutVarint_groups [of k ?v] m k short(1) by simp
  with m short(2) show ?thesis by (simp add: GetVarint_value)
next
  case long
  with PutVarint_length [of "fst (GetVarint p)"] show ?thesis by (simp add: GetVarint_value)
qed

lemma groups_le_max32: "k \<le> 4 \<Longrightarrow> groups k p \<le> 0xffffffff"
proof -
  assume "k \<le> 4"
  then have "(2 :: nat) ^ (7 * k) \<le> 2 ^ 28" by (intro power_increasing) auto
  with groups_bound [of k p] show ?thesis by (simp add: word_le_nat_alt)
qed

lemma mask_max32: "(v :: u64) AND 0xffffffff \<noteq> v \<longleftrightarrow> \<not> v \<le> 0xffffffff"
proof -
  have "v AND 0xffffffff = take_bit 32 v" by (rule word64_eqI) (simp add: word_bits)
  moreover have "take_bit 32 v = v \<longleftrightarrow> unat v < 2 ^ 32"
    by (metis take_bit_small take_bit_nat_less_exp unsigned_take_bit_eq)
  ultimately show ?thesis by (auto simp: word_le_nat_alt)
qed

text \<open>
  C26. The 32-bit reader with its macro returns, for every byte sequence, the length that the
  64-bit reader finds and the value capped at the largest 32-bit number; a varint that does
  not fit is never truncated.
\<close>

theorem varint32_saturates:
  "getVarint32 p =
     (case GetVarint p of (v, n) \<Rightarrow> (if v \<le> 0xffffffff then ucast v else 0xffffffff, n))"
proof -
  have words: "\<not> bit (p 0) 7 \<Longrightarrow> w32 (p 0) = ucast (groups 1 p)"
    "\<not> bit (p 1) 7 \<Longrightarrow> push_bit 7 (w32 (p 0) AND 0x7f) OR w32 (p 1) = ucast (groups 2 p)"
    "\<not> bit (p 2) 7 \<Longrightarrow> push_bit 14 (w32 (p 0) AND 0x7f) OR push_bit 7 (w32 (p 1) AND 0x7f) OR w32 (p 2)
       = ucast (groups 3 p)"
    by (rule word32_eqI; simp add: word_bits w32_def groups_numeral)+
  consider "\<not> bit (p 0) 7" | "bit (p 0) 7" "\<not> bit (p 1) 7"
    | "bit (p 0) 7" "bit (p 1) 7" "\<not> bit (p 2) 7" | "bit (p 0) 7" "bit (p 1) 7" "bit (p 2) 7"
    by blast
  then show ?thesis
  proof cases
    case 1
    then show ?thesis
      using words(1) groups_le_max32 [of 1 p] by (simp add: getVarint32_def less_0x80_8 GetVarint_exits(1))
  next
    case 2
    then show ?thesis
      using words(2) groups_le_max32 [of 2 p]
      by (simp add: getVarint32_def GetVarint32_def less_0x80_8 and_0x80_8 GetVarint_exits(2))
  next
    case 3
    then show ?thesis
      using words(3) groups_le_max32 [of 3 p]
      by (simp add: getVarint32_def GetVarint32_def less_0x80_8 and_0x80_8 GetVarint_exits(3))
  next
    case 4
    then show ?thesis
      by (simp add: getVarint32_def GetVarint32_def less_0x80_8 and_0x80_8 mask_max32 split: prod.splits)
  qed
qed

text \<open>
  C27. The length function counts the seven-bit groups of the value. That is the number of bytes
  written for every value below \<open>2 ^ 63\<close>; for the values above it answers 10, one more than
  the nine bytes that the writer produces.
\<close>

theorem varint_len_counts_groups:
  "VarintLen v = Some (if unat v < 2 ^ 63 then length (PutVarint v) else 10)"
proof -
  have "unat v < 2 ^ (7 * 10)" using unsigned_less [of v] by (rule less_trans) simp
  from has_groups_exists [OF this] obtain n where n: "n \<le> 10" "has_groups n v" by auto
  then obtain m where m: "n = Suc m" by (cases n) (auto simp: has_groups_def)
  have len: "VarintLen v = Some n"
    using varint_len_groups [OF n(2), of 10 1] n(1) by (simp add: VarintLen_def)
  have bnd: "unat v < 2 ^ (7 * n)" "\<And>m. 1 \<le> m \<Longrightarrow> m < n \<Longrightarrow> 2 ^ (7 * m) \<le> unat v"
    using n(2) by (auto simp: has_groups_def)
  consider "n \<le> 8" | "n = 9" | "n = 10" using n(1) by linarith
  then show ?thesis
  proof cases
    case 1
    then have "(2 :: nat) ^ (7 * n) \<le> 2 ^ 56" by (intro power_increasing) auto
    with bnd(1) have "unat v < 2 ^ 63" by simp
    with PutVarint_groups [of m v] 1 n(2) m len show ?thesis by simp
  next
    case 2
    with bnd(1) bnd(2) [of 8] PutVarint_nine [of v] len show ?thesis by simp
  next
    case 3
    with bnd(2) [of 9] len show ?thesis by simp
  qed
qed

end
