(* ===== verification/Str.thy ===== *)
theory Str
  imports Prelude
begin

text \<open>
  Zero-terminated strings as the utility routines of \<open>util.c\<close> treat them: comparison and
  hashing without regard to the case of ASCII letters, and the removal of SQL quotes. A
  string is the list of its bytes up to the terminator, so no byte of it is zero
  (\<open>is_cstr\<close>); the terminator shows as the end of the list.
\<close>

section \<open>Case folding\<close>

definition is_cstr :: "u8 list \<Rightarrow> bool" where
  "is_cstr z \<longleftrightarrow> 0 \<notin> set z"

lemma is_cstr_simps [simp]:
  "is_cstr []" "is_cstr (c # z) \<longleftrightarrow> c \<noteq> 0 \<and> is_cstr z"
  by (auto simp: is_cstr_def)

text \<open>The table \<open>sqlite3UpperToLower\<close> (\<open>SQLITE_ASCII\<close>): only the entries 65 to 90 differ from their index.\<close>

definition UpperToLower :: "u8 \<Rightarrow> u8" where
  "UpperToLower c = (if 65 \<le> c \<and> c \<le> 90 then c + 32 else c)"

lemma UpperToLower_0 [simp]: "UpperToLower c = 0 \<longleftrightarrow> c = 0" "UpperToLower 0 = 0"
proof -
  show "UpperToLower c = 0 \<longleftrightarrow> c = 0"
    by (rule all_u8 [where P = "\<lambda>c. UpperToLower c = 0 \<longleftrightarrow> c = 0"]) code_simp
qed (simp add: UpperToLower_def)

section \<open>The routines\<close>

fun StrICmp :: "u8 list \<Rightarrow> u8 list \<Rightarrow> int" where
  "StrICmp (a # as) (b # bs) =
     (if a = b then (if a = 0 then 0 else StrICmp as bs)
      else
        (let c = uint (UpperToLower a) - uint (UpperToLower b) in
         if c \<noteq> 0 then c else StrICmp as bs))"
| "StrICmp [] (b # bs) = (if b = 0 then 0 else 0 - uint (UpperToLower b))"
| "StrICmp (a # as) [] = (if a = 0 then 0 else uint (UpperToLower a) - 0)"
| "StrICmp [] [] = 0"

text \<open>The public functions also take null pointers.\<close>

definition sqlite3_stricmp :: "u8 list option \<Rightarrow> u8 list option \<Rightarrow> int" where
  "sqlite3_stricmp zLeft zRight =
     (case zLeft of
        None \<Rightarrow> (if zRight \<noteq> None then -1 else 0)
      | Some l \<Rightarrow> (case zRight of None \<Rightarrow> 1 | Some r \<Rightarrow> StrICmp l r))"

fun strnicmp_loop :: "u8 list \<Rightarrow> u8 list \<Rightarrow> nat \<Rightarrow> int" where
  "strnicmp_loop as bs 0 = 0"
| "strnicmp_loop [] bs (Suc N) =
     0 - (case bs of [] \<Rightarrow> 0 | b # _ \<Rightarrow> uint (UpperToLower b))"
| "strnicmp_loop (a # as) bs (Suc N) =
     (case bs of
        [] \<Rightarrow> (if a \<noteq> 0 \<and> UpperToLower a = 0 then strnicmp_loop as [] N else uint (UpperToLower a) - 0)
      | b # bs' \<Rightarrow>
          if a \<noteq> 0 \<and> UpperToLower a = UpperToLower b then strnicmp_loop as bs' N
          else uint (UpperToLower a) - uint (UpperToLower b))"

definition sqlite3_strnicmp :: "u8 list option \<Rightarrow> u8 list option \<Rightarrow> int \<Rightarrow> int" where
  "sqlite3_strnicmp zLeft zRight N =
     (case zLeft of
        None \<Rightarrow> (if zRight \<noteq> None then -1 else 0)
      | Some l \<Rightarrow> (case zRight of None \<Rightarrow> 1 | Some r \<Rightarrow> strnicmp_loop l r (nat N)))"

fun strihash_loop :: "u8 \<Rightarrow> u8 list \<Rightarrow> u8" where
  "strihash_loop h [] = h"
| "strihash_loop h (c # z) = (if c \<noteq> 0 then strihash_loop (h + UpperToLower c) z else h)"

definition StrIHash :: "u8 list option \<Rightarrow> u8" where
  "StrIHash z = (case z of None \<Rightarrow> 0 | Some s \<Rightarrow> strihash_loop 0 s)"

text \<open>
  \<open>sqlite3Dequote\<close>; \<open>[ ]\<close>, single, double and back quotes are the quote characters. The
  loop returns what it writes; a string that ends without its closing quote violates the
  assertion of the loop and is \<open>None\<close>.
\<close>

definition Isquote :: "u8 \<Rightarrow> bool" where
  "Isquote c \<longleftrightarrow> c = 34 \<or> c = 39 \<or> c = 91 \<or> c = 96"

fun dequote_loop :: "u8 \<Rightarrow> u8 list \<Rightarrow> u8 list option" where
  "dequote_loop q [] = None"
| "dequote_loop q (c # z) =
     (if c = q then
        (case z of
           [] \<Rightarrow> Some []
         | d # z' \<Rightarrow> if d = q then map_option ((#) q) (dequote_loop q z') else Some [])
      else map_option ((#) c) (dequote_loop q z))"

definition Dequote :: "u8 list \<Rightarrow> u8 list option" where
  "Dequote z =
     (case z of
        [] \<Rightarrow> Some z
      | c # z' \<Rightarrow>
          if \<not> Isquote c then Some z
          else dequote_loop (if c = 91 then 93 else c) z')"

section \<open>Comparison is comparison of the folded strings\<close>

abbreviation fold_case :: "u8 list \<Rightarrow> u8 list" where
  "fold_case \<equiv> map UpperToLower"

lemma uint_u8 [simp]:
  "uint (a :: u8) = uint b \<longleftrightarrow> a = b" "uint a = 0 \<longleftrightarrow> a = 0" "0 < uint a \<longleftrightarrow> a \<noteq> 0"
proof -
  show "uint a = uint b \<longleftrightarrow> a = b" by (rule word_uint_eq_iff [symmetric])
  show zero: "uint a = 0 \<longleftrightarrow> a = 0" by (rule unsigned_eq_0_iff)
  show "0 < uint a \<longleftrightarrow> a \<noteq> 0" using zero by (simp add: order_less_le)
qed

lemma StrICmp_0: "is_cstr a \<Longrightarrow> is_cstr b \<Longrightarrow> StrICmp a b = 0 \<longleftrightarrow> fold_case a = fold_case b"
  by (induction a b rule: StrICmp.induct) (simp_all add: Let_def)

text \<open>The reference order: lexicographic, a proper prefix first.\<close>

fun lex_less :: "u8 list \<Rightarrow> u8 list \<Rightarrow> bool" where
  "lex_less as [] = False"
| "lex_less [] (b # bs) = True"
| "lex_less (a # as) (b # bs) = (a < b \<or> a = b \<and> lex_less as bs)"

lemma StrICmp_neg: "is_cstr a \<Longrightarrow> is_cstr b \<Longrightarrow> StrICmp a b < 0 \<longleftrightarrow> lex_less (fold_case a) (fold_case b)"
  by (induction a b rule: StrICmp.induct) (auto simp: Let_def word_less_def)

lemma StrICmp_sym: "is_cstr a \<Longrightarrow> is_cstr b \<Longrightarrow> StrICmp b a = - StrICmp a b"
  by (induction a b rule: StrICmp.induct) (auto simp: Let_def)

lemma strnicmp_0:
  "is_cstr a \<Longrightarrow> is_cstr b \<Longrightarrow> strnicmp_loop a b N = 0 \<longleftrightarrow> take N (fold_case a) = take N (fold_case b)"
  by (induction a b N rule: strnicmp_loop.induct) (auto split: list.splits)

lemma strihash_fold: "is_cstr z \<Longrightarrow> strihash_loop h z = sum_list (h # fold_case z)"
  by (induction z arbitrary: h) (auto simp: add.assoc)



section \<open>Quoting\<close>

text \<open>A string as SQL writes it between quotes \<open>q\<close>: every \<open>q\<close> inside is doubled.\<close>

fun double_quotes :: "u8 \<Rightarrow> u8 list \<Rightarrow> u8 list" where
  "double_quotes q [] = []"
| "double_quotes q (c # z) = (if c = q then [q, q] else [c]) @ double_quotes q z"

lemma dequote_double: "dequote_loop q (double_quotes q s @ [q]) = Some s"
  by (induction s) auto

lemma dequote_length: "dequote_loop q z = Some s \<Longrightarrow> length s < length z"
proof (induction q z arbitrary: s rule: dequote_loop.induct)
  case (1 q)
  then show ?case by simp
next
  case (2 q c z)
  from "2.prems" "2.IH" show ?case
    by (fastforce split: if_splits list.splits)
qed

text \<open>
  C29. Removing the quotes undoes SQL quoting, for each of the four quote styles: the string
  between the opening quote and its closing mate comes back, with every doubled closing
  quote made single. The result is shorter than the input by at least the two quotes, so
  the in-place rewriting stays within the buffer.
\<close>

theorem dequote_undoes_quoting:
  assumes "Isquote c" and "q = (if c = 91 then 93 else c)"
  shows "Dequote (c # double_quotes q s @ [q]) = Some s \<and>
    (\<forall>z r. Dequote (c # z) = Some r \<longrightarrow> length r + 1 < length (c # z))"
  using assms dequote_double [of q s] dequote_length [of q] by (simp add: Dequote_def)

theorem dequote_undoes_quoting_witness:
  "Dequote [39, 105, 116, 39, 39, 115, 39] = Some [105, 116, 39, 115]"
  using dequote_undoes_quoting [of 39 39 "[105, 116, 39, 115]"] by (simp add: Isquote_def)

end
