(* ===== verification/Ci_Map.thy ===== *)
theory Ci_Map
  imports Str
begin

text \<open>
  The interface of the symbol tables: a finite map from names, compared without regard to
  case, to values. The schema code of the sources uses tables only through these operations.
  A client is a sequence of requests; its answers are determined by the laws alone.
\<close>

datatype 'v map_req = Find "u8 list" | Insert "u8 list" 'v | Delete "u8 list"

fun req_key :: "'v map_req \<Rightarrow> u8 list" where
  "req_key (Find k) = k"
| "req_key (Insert k v) = k"
| "req_key (Delete k) = k"

text \<open>The reference: a map on folded names that answers with the value present before.\<close>

fun ref_step :: "(u8 list \<rightharpoonup> 'v) \<Rightarrow> 'v map_req \<Rightarrow> (u8 list \<rightharpoonup> 'v) \<times> 'v option" where
  "ref_step m (Find k) = (m, m (fold_case k))"
| "ref_step m (Insert k v) = (m(fold_case k \<mapsto> v), m (fold_case k))"
| "ref_step m (Delete k) = (m(fold_case k := None), m (fold_case k))"

fun ref_run :: "(u8 list \<rightharpoonup> 'v) \<Rightarrow> 'v map_req list \<Rightarrow> 'v option list" where
  "ref_run m [] = []"
| "ref_run m (r # rs) = (case ref_step m r of (m', a) \<Rightarrow> a # ref_run m' rs)"

locale ci_map =
  fixes valid :: "'s \<Rightarrow> bool"
    and find :: "'s \<Rightarrow> u8 list \<Rightarrow> 'v option"
    and update :: "'e \<Rightarrow> 's \<Rightarrow> u8 list \<Rightarrow> 'v option \<Rightarrow> 's \<times> 'v option"
    and env_ok :: "'s \<Rightarrow> 'e \<Rightarrow> bool"
  assumes find_fold: "valid s \<Longrightarrow> is_cstr k \<Longrightarrow> is_cstr k' \<Longrightarrow> fold_case k = fold_case k' \<Longrightarrow>
      find s k = find s k'"
    and update_valid: "valid s \<Longrightarrow> is_cstr k \<Longrightarrow> env_ok s e \<Longrightarrow> valid (fst (update e s k v))"
    and update_find: "valid s \<Longrightarrow> is_cstr k \<Longrightarrow> is_cstr k' \<Longrightarrow> env_ok s e \<Longrightarrow>
      find (fst (update e s k v)) k' = (if fold_case k' = fold_case k then v else find s k')"
    and update_old: "valid s \<Longrightarrow> is_cstr k \<Longrightarrow> env_ok s e \<Longrightarrow> snd (update e s k v) = find s k"
begin

fun step :: "'e \<Rightarrow> 's \<Rightarrow> 'v map_req \<Rightarrow> 's \<times> 'v option" where
  "step e s (Find k) = (s, find s k)"
| "step e s (Insert k v) = update e s k (Some v)"
| "step e s (Delete k) = update e s k None"

fun run :: "'s \<Rightarrow> ('e \<times> 'v map_req) list \<Rightarrow> 'v option list" where
  "run s [] = []"
| "run s ((e, r) # rs) = (case step e s r of (s', a) \<Rightarrow> a # run s' rs)"

text \<open>The environment (what the allocator does) has to be suitable at every step.\<close>

fun run_env :: "'s \<Rightarrow> ('e \<times> 'v map_req) list \<Rightarrow> bool" where
  "run_env s [] = True"
| "run_env s ((e, r) # rs) \<longleftrightarrow> env_ok s e \<and> run_env (fst (step e s r)) rs"

definition abstracts :: "'s \<Rightarrow> (u8 list \<rightharpoonup> 'v) \<Rightarrow> bool" where
  "abstracts s m \<longleftrightarrow> (\<forall>k. is_cstr k \<longrightarrow> find s k = m (fold_case k))"

lemma step_refines:
  assumes "valid s" "abstracts s m" "is_cstr (req_key r)" "env_ok s e"
  shows "valid (fst (step e s r))" "abstracts (fst (step e s r)) (fst (ref_step m r))"
    "snd (step e s r) = snd (ref_step m r)"
  using assms
  by (cases r; simp add: update_valid update_find update_old abstracts_def)+

theorem run_refines:
  "valid s \<Longrightarrow> abstracts s m \<Longrightarrow> \<forall>(e, r)\<in>set rs. is_cstr (req_key r) \<Longrightarrow> run_env s rs \<Longrightarrow>
   run s rs = ref_run m (map snd rs)"
proof (induction s rs arbitrary: m rule: run.induct)
  case (1 s)
  then show ?case by simp
next
  case (2 s e r rs)
  have ok: "is_cstr (req_key r)" "env_ok s e" using "2.prems" by auto
  note step = step_refines [OF "2.prems"(1,2) ok]
  obtain s' a where s': "step e s r = (s', a)" by fastforce
  obtain m' b where m': "ref_step m r = (m', b)" by fastforce
  have "run s' rs = ref_run m' (map snd rs)"
    using "2.IH" [OF s' [symmetric], of m'] step s' m' "2.prems"(3,4) by simp
  then show ?case using step(3) s' m' by simp
qed

end

end
