(* ===== verification/Hash_Table.thy ===== *)
theory Hash_Table
  imports Ci_Map "HOL-Library.Multiset"
begin

text \<open>
  The symbol table of \<open>hash.c\<close>. All elements are on one doubly linked list, modelled as the list
  of the elements, each with its address; the optional bucket array points into that list:
  a bucket is the address of its first element and their number, and its elements are the
  next ones of the list. The invariant states that the elements of a bucket are contiguous,
  and the operations are shown to keep it and to implement a case-insensitive map.
\<close>

section \<open>State\<close>

record 'v hashelem =
  he_addr :: nat
  he_data :: 'v
  he_pKey :: "u8 list"
  he_h :: u32

record ht_entry =
  ht_count :: nat
  ht_chain :: nat

record 'v hashtab =
  h_htsize :: nat
  h_count :: nat
  h_first :: "'v hashelem list"
  h_ht :: "ht_entry list option"

definition HashInit :: "'v hashtab" where
  "HashInit = \<lparr>h_htsize = 0, h_count = 0, h_first = [], h_ht = None\<rparr>"

definition HashClear :: "'v hashtab \<Rightarrow> 'v hashtab" where
  "HashClear pH = pH\<lparr>h_first := [], h_ht := None, h_htsize := 0, h_count := 0\<rparr>"

fun strHash_loop :: "u32 \<Rightarrow> u8 list \<Rightarrow> u32" where
  "strHash_loop h [] = h"
| "strHash_loop h (c # z) =
     (if c \<noteq> 0 then strHash_loop ((h + (0xdf AND ucast c)) * 0x9e3779b1) z else h)"

definition strHash :: "u8 list \<Rightarrow> u32" where
  "strHash z = strHash_loop 0 z"

section \<open>The linked list\<close>

text \<open>Linking a new element before the one at an address; taking an element out.\<close>

fun link_before :: "nat \<Rightarrow> 'v hashelem \<Rightarrow> 'v hashelem list \<Rightarrow> 'v hashelem list" where
  "link_before a new [] = [new]"
| "link_before a new (e # es) = (if he_addr e = a then new # e # es else e # link_before a new es)"

fun unlink :: "nat \<Rightarrow> 'v hashelem list \<Rightarrow> 'v hashelem list" where
  "unlink a [] = []"
| "unlink a (e # es) = (if he_addr e = a then es else e # unlink a es)"

text \<open>The address in \<open>elem->next\<close> (0 for the null pointer at the end).\<close>

fun next_of :: "nat \<Rightarrow> 'v hashelem list \<Rightarrow> nat" where
  "next_of a [] = 0"
| "next_of a (e # es) =
     (if he_addr e = a then (case es of [] \<Rightarrow> 0 | f # _ \<Rightarrow> he_addr f) else next_of a es)"

section \<open>Operations\<close>

text \<open>\<open>h % htsize\<close>, and the same computed without a large natural number.\<close>

definition ht_index :: "u32 \<Rightarrow> nat \<Rightarrow> nat" where
  "ht_index h n = unat h mod n"

lemma ht_index_code [code]: "ht_index h n = nat (uint h mod int n)"
proof -
  have h: "uint h = int (unat h)" by simp
  show ?thesis by (simp only: ht_index_def h zmod_int [symmetric] nat_int)
qed

definition insertElement :: "'v hashtab \<Rightarrow> nat option \<Rightarrow> 'v hashelem \<Rightarrow> 'v hashtab" where
  "insertElement pH b new =
     (let pHead = (case (b, h_ht pH) of
                     (Some i, Some t) \<Rightarrow> if ht_count (t ! i) \<noteq> 0 then Some (ht_chain (t ! i)) else None
                   | _ \<Rightarrow> None);
          ht' = (case (b, h_ht pH) of
                   (Some i, Some t) \<Rightarrow>
                     Some (t[i := (t ! i)\<lparr>ht_count := ht_count (t ! i) + 1, ht_chain := he_addr new\<rparr>])
                 | _ \<Rightarrow> h_ht pH)
      in pH\<lparr>h_ht := ht',
            h_first := (case pHead of Some a \<Rightarrow> link_before a new (h_first pH) | None \<Rightarrow> new # h_first pH)\<rparr>)"

definition bucket_of :: "nat \<Rightarrow> 'v hashelem \<Rightarrow> nat" where
  "bucket_of n e = ht_index (he_h e) n"

definition SOFT_LIMIT :: nat where "SOFT_LIMIT = 1024"

text \<open>
  \<open>rehash\<close>: \<open>m n\<close> is the usable size of what the allocator returns for a request of \<open>n\<close> bytes,
  \<open>None\<close> if it fails. An entry of the array takes 16 bytes.
\<close>

definition rehash :: "(nat \<Rightarrow> nat option) \<Rightarrow> 'v hashtab \<Rightarrow> nat \<Rightarrow> 'v hashtab \<times> bool" where
  "rehash m pH size0 =
     (let size1 = (if size0 * 16 > SOFT_LIMIT then SOFT_LIMIT div 16 else size0) in
      if size1 = h_htsize pH then (pH, False)
      else
        (case m (size1 * 16) of
           None \<Rightarrow> (pH, False)
         | Some bytes \<Rightarrow>
             let n = bytes div 16;
                 pH1 = pH\<lparr>h_ht := Some (replicate n \<lparr>ht_count = 0, ht_chain = 0\<rparr>), h_htsize := n,
                          h_first := []\<rparr>
             in (foldl (\<lambda>p e. insertElement p (Some (bucket_of n e)) e) pH1 (h_first pH), True)))"

fun scan :: "u32 \<Rightarrow> u8 list \<Rightarrow> nat \<Rightarrow> 'v hashelem list \<Rightarrow> 'v hashelem option" where
  "scan h k 0 es = None"
| "scan h k (Suc n) [] = None"
| "scan h k (Suc n) (e # es) =
     (if h = he_h e \<and> StrICmp (he_pKey e) k = 0 then Some e else scan h k n es)"

definition findElementWithHash :: "'v hashtab \<Rightarrow> u8 list \<Rightarrow> 'v hashelem option \<times> u32" where
  "findElementWithHash pH k =
     (let h = strHash k in
      (case h_ht pH of
         Some t \<Rightarrow>
           (let en = t ! ht_index h (h_htsize pH)
            in scan h k (ht_count en) (dropWhile (\<lambda>e. he_addr e \<noteq> ht_chain en) (h_first pH)))
       | None \<Rightarrow> scan h k (h_count pH) (h_first pH), h))"

definition removeElement :: "'v hashtab \<Rightarrow> 'v hashelem \<Rightarrow> 'v hashtab" where
  "removeElement pH elem =
     (let nx = next_of (he_addr elem) (h_first pH);
          ht' = (case h_ht pH of
                   None \<Rightarrow> None
                 | Some t \<Rightarrow>
                     let i = bucket_of (h_htsize pH) elem in
                     Some (t[i := (t ! i)\<lparr>ht_chain := (if ht_chain (t ! i) = he_addr elem then nx
                                                       else ht_chain (t ! i)),
                                          ht_count := ht_count (t ! i) - 1\<rparr>]));
          pH1 = pH\<lparr>h_first := unlink (he_addr elem) (h_first pH), h_ht := ht', h_count := h_count pH - 1\<rparr>
      in if h_count pH1 = 0 then HashClear pH1 else pH1)"

definition HashFind :: "'v hashtab \<Rightarrow> u8 list \<Rightarrow> 'v option" where
  "HashFind pH k = map_option he_data (fst (findElementWithHash pH k))"

definition replace_elem :: "nat \<Rightarrow> u8 list \<Rightarrow> 'v \<Rightarrow> 'v hashelem list \<Rightarrow> 'v hashelem list" where
  "replace_elem a k d es = map (\<lambda>e. if he_addr e = a then e\<lparr>he_data := d, he_pKey := k\<rparr> else e) es"

text \<open>
  \<open>sqlite3HashInsert\<close>; the environment is the address of the new element, if the allocation
  succeeds, and the allocator's answer for the bucket array.
\<close>

definition HashInsert ::
  "nat option \<times> (nat \<Rightarrow> nat option) \<Rightarrow> 'v hashtab \<Rightarrow> u8 list \<Rightarrow> 'v option \<Rightarrow> 'v hashtab \<times> 'v option" where
  "HashInsert env pH k data =
     (case findElementWithHash pH k of
        (Some elem, h) \<Rightarrow>
          (case data of
             None \<Rightarrow> removeElement pH elem
           | Some d \<Rightarrow> pH\<lparr>h_first := replace_elem (he_addr elem) k d (h_first pH)\<rparr>,
           Some (he_data elem))
      | (None, h) \<Rightarrow>
          (case data of
             None \<Rightarrow> (pH, None)
           | Some d \<Rightarrow>
               (case fst env of
                  None \<Rightarrow> (pH, data)
                | Some addr \<Rightarrow>
                    let new = \<lparr>he_addr = addr, he_data = d, he_pKey = k, he_h = h\<rparr>;
                        pH1 = pH\<lparr>h_count := h_count pH + 1\<rparr>;
                        pH2 = (if h_count pH1 \<ge> 5 \<and> h_count pH1 > 2 * h_htsize pH1
                               then fst (rehash (snd env) pH1 (h_count pH1 * 3)) else pH1)
                    in (insertElement pH2
                          (if h_ht pH2 \<noteq> None then Some (bucket_of (h_htsize pH2) new) else None) new,
                        None))))"

section \<open>Contiguous elements of a list\<close>

text \<open>The elements of \<open>xs\<close> that satisfy \<open>P\<close> stand next to each other.\<close>

fun contig :: "('a \<Rightarrow> bool) \<Rightarrow> 'a list \<Rightarrow> bool" where
  "contig P [] = True"
| "contig P (x # xs) = (if P x then list_all (\<lambda>y. \<not> P y) (dropWhile P xs) else contig P xs)"

lemma contig_cong: "(\<And>x. x \<in> set xs \<Longrightarrow> P x = Q x) \<Longrightarrow> contig P xs = contig Q xs"
proof (induction xs)
  case Nil
  then show ?case by simp
next
  case (Cons x xs)
  have "dropWhile P xs = dropWhile Q xs" using Cons.prems by (intro dropWhile_cong) auto
  moreover have "list_all (\<lambda>y. \<not> P y) (dropWhile Q xs) = list_all (\<lambda>y. \<not> Q y) (dropWhile Q xs)"
    using Cons.prems by (intro list.pred_cong) (auto dest: set_dropWhileD)
  ultimately show ?case using Cons by simp
qed

lemma none_contig: "list_all (\<lambda>y. \<not> P y) xs \<Longrightarrow> contig P xs"
  by (induction xs) auto

lemma none_dropWhile: "list_all (\<lambda>y. \<not> P y) xs \<Longrightarrow> dropWhile P xs = xs"
  by (cases xs) auto

lemma none_dropWhile_mono: "list_all (\<lambda>y. \<not> P y) xs \<Longrightarrow> list_all (\<lambda>y. \<not> P y) (dropWhile P xs)"
  by (simp add: none_dropWhile)

lemma none_after_drop: "list_all (\<lambda>y. \<not> P y) (dropWhile P xs) \<Longrightarrow> contig P xs"
  by (induction xs) (auto intro: none_contig)

lemma take_none_after: "list_all (\<lambda>y. \<not> P y) (dropWhile P ys) \<Longrightarrow> take (length (filter P ys)) ys = filter P ys"
proof (induction ys)
  case Nil
  then show ?case by simp
next
  case (Cons y ys)
  show ?case
  proof (cases "P y")
    case True
    with Cons show ?thesis by simp
  next
    case False
    with Cons.prems have "filter P (y # ys) = []" by (auto simp: list_all_iff filter_empty_conv)
    then show ?thesis by (simp only:) simp
  qed
qed

lemma contig_filter:
  "contig P xs \<Longrightarrow> take (length (filter P xs)) (dropWhile (\<lambda>x. \<not> P x) xs) = filter P xs"
  by (induction xs) (simp_all add: take_none_after)

lemma none_insert:
  "\<not> P a \<Longrightarrow> \<not> P n \<Longrightarrow> list_all (\<lambda>y. \<not> P y) (dropWhile P (l @ a # r)) \<Longrightarrow>
   list_all (\<lambda>y. \<not> P y) (dropWhile P (l @ n # a # r))"
  by (induction l) auto

lemma none_remove:
  "list_all (\<lambda>y. \<not> P y) (dropWhile P (l @ a # r)) \<Longrightarrow> list_all (\<lambda>y. \<not> P y) (dropWhile P (l @ r))"
  by (induction l) (auto split: if_splits simp: none_dropWhile)

lemma contig_insert_other:
  "contig P (l @ a # r) \<Longrightarrow> \<not> P a \<Longrightarrow> \<not> P n \<Longrightarrow> contig P (l @ n # a # r)"
  by (induction l) (auto simp: none_insert)

lemma contig_insert_head:
  "contig P (l @ a # r) \<Longrightarrow> P a \<Longrightarrow> list_all (\<lambda>y. \<not> P y) l \<Longrightarrow> contig P (l @ n # a # r)"
  by (induction l) auto

lemma contig_remove: "contig P (l @ a # r) \<Longrightarrow> contig P (l @ r)"
  by (induction l) (auto simp: none_remove intro: none_after_drop split: if_splits)

section \<open>The invariant\<close>

abbreviation in_bucket :: "nat \<Rightarrow> nat \<Rightarrow> 'v hashelem \<Rightarrow> bool" where
  "in_bucket n b e \<equiv> bucket_of n e = b"

definition bucket_ok :: "nat \<Rightarrow> 'v hashelem list \<Rightarrow> ht_entry \<Rightarrow> nat \<Rightarrow> bool" where
  "bucket_ok n es en b \<longleftrightarrow>
     ht_count en = length (filter (in_bucket n b) es) \<and>
     (\<forall>e B. filter (in_bucket n b) es = e # B \<longrightarrow> ht_chain en = he_addr e) \<and>
     contig (in_bucket n b) es"

definition links_ok :: "'v hashtab \<Rightarrow> bool" where
  "links_ok pH \<longleftrightarrow> distinct (map he_addr (h_first pH)) \<and>
     (case h_ht pH of
        None \<Rightarrow> h_htsize pH = 0
      | Some t \<Rightarrow> length t = h_htsize pH \<and> 0 < h_htsize pH \<and>
          (\<forall>b<h_htsize pH. bucket_ok (h_htsize pH) (h_first pH) (t ! b) b))"

abbreviation elem_key :: "'v hashelem \<Rightarrow> u8 list" where
  "elem_key e \<equiv> fold_case (he_pKey e)"

definition keys_ok :: "'v hashelem list \<Rightarrow> bool" where
  "keys_ok es \<longleftrightarrow> distinct (map elem_key es) \<and>
     (\<forall>e\<in>set es. is_cstr (he_pKey e) \<and> he_h e = strHash (he_pKey e))"

definition hash_inv :: "'v hashtab \<Rightarrow> bool" where
  "hash_inv pH \<longleftrightarrow> links_ok pH \<and> h_count pH = length (h_first pH) \<and> keys_ok (h_first pH)"

lemma filter_split: "filter P xs = x # B \<Longrightarrow> \<exists>l r. xs = l @ x # r \<and> list_all (\<lambda>y. \<not> P y) l \<and> P x"
  by (auto dest!: filter_eq_ConsD simp: list_all_iff)

lemma none_filter: "list_all (\<lambda>y. \<not> P y) xs \<longleftrightarrow> filter P xs = []"
  by (auto simp: list_all_iff filter_empty_conv)

lemma link_before_at: "he_addr x = a \<Longrightarrow> a \<notin> he_addr ` set l \<Longrightarrow> link_before a new (l @ x # r) = l @ new # x # r"
  by (induction l) auto

lemma unlink_at: "he_addr x = a \<Longrightarrow> a \<notin> he_addr ` set l \<Longrightarrow> unlink a (l @ x # r) = l @ r"
  by (induction l) auto

lemma next_of_at:
  "he_addr x = a \<Longrightarrow> a \<notin> he_addr ` set l \<Longrightarrow>
   next_of a (l @ x # r) = (case r of [] \<Rightarrow> 0 | f # _ \<Rightarrow> he_addr f)"
  by (induction l) auto

lemma bucket_less: "0 < n \<Longrightarrow> bucket_of n e < n"
  by (simp add: bucket_of_def ht_index_def)

section \<open>Insertion keeps the links\<close>

lemma bucket_ok_insert_other:
  "bucket_ok n (l @ x # r) en c \<Longrightarrow> bucket_of n x \<noteq> c \<Longrightarrow> bucket_of n new \<noteq> c \<Longrightarrow>
   bucket_ok n (l @ new # x # r) en c"
  by (auto simp: bucket_ok_def contig_insert_other)

lemma bucket_ok_insert_here:
  assumes "bucket_ok n (l @ x # r) en b" "bucket_of n x = b" "bucket_of n new = b"
    "list_all (\<lambda>y. bucket_of n y \<noteq> b) l"
  shows "bucket_ok n (l @ new # x # r) (en\<lparr>ht_count := ht_count en + 1, ht_chain := he_addr new\<rparr>) b"
  using assms by (auto simp: bucket_ok_def contig_insert_head none_filter)

lemma bucket_ok_cons_other:
  "bucket_ok n es en c \<Longrightarrow> bucket_of n new \<noteq> c \<Longrightarrow> bucket_ok n (new # es) en c"
  by (auto simp: bucket_ok_def)

lemma bucket_ok_cons_here:
  "bucket_ok n es en b \<Longrightarrow> bucket_of n new = b \<Longrightarrow> ht_count en = 0 \<Longrightarrow>
   bucket_ok n (new # es) (en\<lparr>ht_count := ht_count en + 1, ht_chain := he_addr new\<rparr>) b"
  by (auto simp: bucket_ok_def none_filter [symmetric] none_dropWhile)

lemma insertElement_links:
  assumes links: "links_ok pH" and fresh: "he_addr new \<notin> he_addr ` set (h_first pH)"
    and b: "b = (if h_ht pH \<noteq> None then Some (bucket_of (h_htsize pH) new) else None)"
  shows "links_ok (insertElement pH b new) \<and>
    mset (h_first (insertElement pH b new)) = add_mset new (mset (h_first pH)) \<and>
    h_count (insertElement pH b new) = h_count pH \<and> h_htsize (insertElement pH b new) = h_htsize pH \<and>
    (h_ht (insertElement pH b new) = None \<longleftrightarrow> h_ht pH = None)"
proof (cases "h_ht pH")
  case None
  with assms show ?thesis by (auto simp: insertElement_def links_ok_def)
next
  case (Some t)
  let ?n = "h_htsize pH" and ?i = "bucket_of (h_htsize pH) new"
  let ?en = "(t ! ?i)\<lparr>ht_count := ht_count (t ! ?i) + 1, ht_chain := he_addr new\<rparr>"
  have n: "0 < ?n" "length t = ?n" and dist: "distinct (map he_addr (h_first pH))"
    and ok: "\<And>c. c < ?n \<Longrightarrow> bucket_ok ?n (h_first pH) (t ! c) c"
    using links Some by (auto simp: links_ok_def)
  have i: "?i < ?n" using n(1) by (rule bucket_less)
  have bi: "b = Some ?i" using b Some by simp
  show ?thesis
  proof (cases "ht_count (t ! ?i) = 0")
    case True
    then have ins: "insertElement pH b new = pH\<lparr>h_ht := Some (t[?i := ?en]), h_first := new # h_first pH\<rparr>"
      by (simp add: insertElement_def bi Some)
    have "bucket_ok ?n (new # h_first pH) (t[?i := ?en] ! c) c" if "c < ?n" for c
    proof (cases "c = ?i")
      case True
      with bucket_ok_cons_here [OF ok [OF i] refl \<open>ht_count (t ! ?i) = 0\<close>] n(2) i show ?thesis by simp
    next
      case False
      with bucket_ok_cons_other [OF ok [OF that], of new] show ?thesis by simp
    qed
    then show ?thesis using dist fresh n Some by (simp add: ins links_ok_def)
  next
    case False
    with ok [OF i] obtain x B where "filter (in_bucket ?n ?i) (h_first pH) = x # B"
      by (cases "filter (in_bucket ?n ?i) (h_first pH)") (auto simp: bucket_ok_def)
    moreover from this obtain l r where lr: "h_first pH = l @ x # r"
      "list_all (\<lambda>y. bucket_of ?n y \<noteq> ?i) l" "bucket_of ?n x = ?i"
      using filter_split by fast
    ultimately have chain: "ht_chain (t ! ?i) = he_addr x"
      using ok [OF i] by (simp add: bucket_ok_def)
    have "he_addr x \<notin> he_addr ` set l" using dist lr(1) by auto
    then have ins: "insertElement pH b new = pH\<lparr>h_ht := Some (t[?i := ?en]), h_first := l @ new # x # r\<rparr>"
      using False by (simp add: insertElement_def bi Some chain lr(1) link_before_at)
    have "bucket_ok ?n (l @ new # x # r) (t[?i := ?en] ! c) c" if "c < ?n" for c
    proof (cases "c = ?i")
      case True
      with bucket_ok_insert_here [of ?n l x r "t ! ?i" ?i new] ok [OF i] lr n(2) i show ?thesis
        by simp
    next
      case False
      with bucket_ok_insert_other [of ?n l x r "t ! c" c new] ok [OF that] lr show ?thesis by simp
    qed
    then show ?thesis using dist fresh n Some lr(1) by (auto simp: ins links_ok_def)
  qed
qed

lemma rehash_fold:
  "links_ok p \<Longrightarrow> h_ht p \<noteq> None \<Longrightarrow> h_htsize p = n \<Longrightarrow> distinct (map he_addr (es @ h_first p)) \<Longrightarrow>
   q = foldl (\<lambda>p e. insertElement p (Some (bucket_of n e)) e) p es \<Longrightarrow>
   links_ok q \<and> mset (h_first q) = mset es + mset (h_first p) \<and> h_count q = h_count p \<and>
   h_htsize q = n \<and> h_ht q \<noteq> None"
proof (induction es arbitrary: p)
  case Nil
  then show ?case by simp
next
  case (Cons e es)
  let ?p = "insertElement p (Some (bucket_of n e)) e"
  have fresh: "he_addr e \<notin> he_addr ` set (h_first p)" using Cons.prems(4) by auto
  have ok: "links_ok ?p" "h_ht ?p \<noteq> None" "h_htsize ?p = n" "h_count ?p = h_count p"
    "mset (h_first ?p) = add_mset e (mset (h_first p))"
    using insertElement_links [OF Cons.prems(1) fresh, of "Some (bucket_of n e)"] Cons.prems(2,3) by auto
  have "mset (map he_addr (es @ h_first ?p)) = mset (map he_addr ((e # es) @ h_first p))"
    using ok(5) by simp
  then have "distinct (map he_addr (es @ h_first ?p))"
    using Cons.prems(4) mset_eq_imp_distinct_iff by blast
  from Cons.IH [OF ok(1-3) this] Cons.prems(5) show ?case using ok by simp
qed

text \<open>What the allocator promises: at least the bytes that were asked for, never for zero bytes.\<close>

definition malloc_size_ok :: "(nat \<Rightarrow> nat option) \<Rightarrow> bool" where
  "malloc_size_ok m \<longleftrightarrow> (\<forall>n k. m n = Some k \<longrightarrow> 0 < n \<and> n \<le> k)"

lemma rehash_links:
  assumes links: "links_ok pH" and m: "malloc_size_ok m"
  shows "links_ok (fst (rehash m pH sz0)) \<and>
    mset (h_first (fst (rehash m pH sz0))) = mset (h_first pH) \<and>
    h_count (fst (rehash m pH sz0)) = h_count pH"
proof -
  define size1 where "size1 = (if sz0 * 16 > SOFT_LIMIT then SOFT_LIMIT div 16 else sz0)"
  show ?thesis
  proof (cases "size1 = h_htsize pH \<or> m (size1 * 16) = None")
    case True
    then have "rehash m pH sz0 = (pH, False)"
      by (auto simp: rehash_def size1_def [symmetric] Let_def)
    with links show ?thesis by simp
  next
    case False
    then obtain bytes where bytes: "m (size1 * 16) = Some bytes" by auto
    define n where "n = bytes div 16"
    have "0 < size1 * 16" "size1 * 16 \<le> bytes" using m bytes unfolding malloc_size_ok_def by blast+
    then have "0 < n" by (simp add: n_def div_greater_zero_iff)
    define p1 where "p1 = pH\<lparr>h_ht := Some (replicate n \<lparr>ht_count = 0, ht_chain = 0\<rparr>), h_htsize := n,
      h_first := []\<rparr>"
    have "links_ok p1" using \<open>0 < n\<close> by (simp add: links_ok_def p1_def bucket_ok_def)
    moreover have "h_ht p1 \<noteq> None" "h_htsize p1 = n" "h_first p1 = []" "h_count p1 = h_count pH"
      by (simp_all add: p1_def)
    moreover from this have "distinct (map he_addr (h_first pH @ h_first p1))"
      using links by (simp add: links_ok_def)
    moreover have "fst (rehash m pH sz0) =
        foldl (\<lambda>p e. insertElement p (Some (bucket_of n e)) e) p1 (h_first pH)"
      using False bytes by (simp add: rehash_def size1_def [symmetric] Let_def n_def p1_def)
    ultimately show ?thesis using rehash_fold [of p1 n "h_first pH" "fst (rehash m pH sz0)"] by simp
  qed
qed

section \<open>Lookup\<close>

lemma strHash_fold_step: "0xdf AND (ucast (UpperToLower c) :: u32) = 0xdf AND ucast c"
  by (rule all_u8 [where P = "\<lambda>c. 0xdf AND (ucast (UpperToLower c) :: u32) = 0xdf AND ucast c"])
    code_simp

lemma strHash_loop_fold: "strHash_loop h (fold_case z) = strHash_loop h z"
  by (induction z arbitrary: h) (simp_all add: strHash_fold_step)

lemma strHash_fold: "fold_case a = fold_case b \<Longrightarrow> strHash a = strHash b"
  by (metis strHash_def strHash_loop_fold)

lemma scan_take: "scan h k n es = List.find (\<lambda>e. h = he_h e \<and> StrICmp (he_pKey e) k = 0) (take n es)"
proof (induction n arbitrary: es)
  case 0
  then show ?case by simp
next
  case (Suc n)
  then show ?case by (cases es) auto
qed

lemma find_filter: "(\<And>x. x \<in> set xs \<Longrightarrow> Q x \<Longrightarrow> P x) \<Longrightarrow> List.find Q (filter P xs) = List.find Q xs"
  by (induction xs) auto

lemma dropWhile_to: "list_all Q l \<Longrightarrow> \<not> Q x \<Longrightarrow> dropWhile Q (l @ x # r) = x # r"
  by (induction l) auto

lemma match_iff:
  "keys_ok es \<Longrightarrow> e \<in> set es \<Longrightarrow> is_cstr k \<Longrightarrow>
   (strHash k = he_h e \<and> StrICmp (he_pKey e) k = 0) \<longleftrightarrow> elem_key e = fold_case k"
  using strHash_fold [of "he_pKey e" k] by (auto simp: keys_ok_def StrICmp_0)

lemma bucket_scan:
  assumes "bucket_ok n es en b" "distinct (map he_addr es)"
  shows "take (ht_count en) (dropWhile (\<lambda>e. he_addr e \<noteq> ht_chain en) es) = filter (in_bucket n b) es"
proof (cases "filter (in_bucket n b) es")
  case Nil
  with assms show ?thesis by (simp add: bucket_ok_def)
next
  case (Cons x B)
  obtain l r where es: "es = l @ x # r" "list_all (\<lambda>y. \<not> in_bucket n b y) l" "in_bucket n b x"
    using filter_split [OF Cons] by fast
  have "ht_chain en = he_addr x" using assms(1) Cons by (simp add: bucket_ok_def)
  then have "dropWhile (\<lambda>e. he_addr e \<noteq> ht_chain en) es = x # r"
    unfolding es(1) using assms(2) es(1) by (intro dropWhile_to) (auto simp: list_all_iff image_iff)
  also have "\<dots> = dropWhile (\<lambda>y. \<not> in_bucket n b y) es"
    unfolding es(1) using es(2,3) by (intro dropWhile_to [symmetric]) (auto simp: list_all_iff)
  finally show ?thesis using contig_filter [of "in_bucket n b" es] assms(1) by (simp add: bucket_ok_def)
qed

lemma findElement_spec:
  assumes inv: "hash_inv pH" and k: "is_cstr k"
  shows "findElementWithHash pH k =
    (List.find (\<lambda>e. elem_key e = fold_case k) (h_first pH), strHash k)"
proof -
  let ?es = "h_first pH" and ?Q = "\<lambda>e. strHash k = he_h e \<and> StrICmp (he_pKey e) k = 0"
  have keys: "keys_ok ?es" and links: "links_ok pH" and count: "h_count pH = length ?es"
    using inv by (auto simp: hash_inv_def)
  have Q: "List.find ?Q ?es = List.find (\<lambda>e. elem_key e = fold_case k) ?es"
    using match_iff [OF keys _ k] by (intro find_cong) auto
  show ?thesis
  proof (cases "h_ht pH")
    case None
    then show ?thesis by (simp add: findElementWithHash_def Let_def scan_take count Q)
  next
    case (Some t)
    let ?n = "h_htsize pH"
    let ?b = "ht_index (strHash k) ?n"
    have b: "?b < ?n" using links Some by (simp add: links_ok_def ht_index_def)
    then have ok: "bucket_ok ?n ?es (t ! ?b) ?b" and dist: "distinct (map he_addr ?es)"
      using links Some by (auto simp: links_ok_def)
    have "List.find ?Q (filter (in_bucket ?n ?b) ?es) = List.find ?Q ?es"
      by (intro find_filter) (simp add: bucket_of_def)
    with Some show ?thesis
      by (simp add: findElementWithHash_def Let_def scan_take bucket_scan [OF ok dist] Q)
  qed
qed

lemma find_elem:
  assumes "List.find Q xs = Some e" "distinct (map f xs)"
  obtains l r where "xs = l @ e # r" "Q e" "f e \<notin> f ` set l" "f e \<notin> f ` set r"
proof -
  from assms(1) have "e \<in> set xs" "Q e" by (auto simp: find_Some_iff)
  moreover from this obtain l r where "xs = l @ e # r" by (auto simp: in_set_conv_decomp)
  ultimately show ?thesis using assms(2) that by auto
qed

section \<open>Removal and replacement\<close>

lemma bucket_ok_remove_other:
  "bucket_ok n (l @ x # r) en c \<Longrightarrow> bucket_of n x \<noteq> c \<Longrightarrow> bucket_ok n (l @ r) en c"
  by (auto simp: bucket_ok_def dest: contig_remove)

lemma contig_next: "contig P (l @ x # r) \<Longrightarrow> P x \<Longrightarrow> filter P l = [] \<Longrightarrow> filter P r = y # B \<Longrightarrow> hd r = y"
proof -
  assume a: "contig P (l @ x # r)" "P x" "filter P l = []" "filter P r = y # B"
  have "contig P (l' @ x # r) \<Longrightarrow> filter P l' = [] \<Longrightarrow> contig P (x # r)" for l'
    by (induction l') (auto split: if_splits)
  with a have "contig P (x # r)" by blast
  with a(2) have none: "list_all (\<lambda>y. \<not> P y) (dropWhile P r)" by simp
  from a(4) obtain z zs where r: "r = z # zs" by (cases r) auto
  have "P z"
  proof (rule ccontr)
    assume "\<not> P z"
    with none r have "filter P r = []" by (simp add: none_filter)
    with a(4) show False by simp
  qed
  with a(4) r show ?thesis by simp
qed

lemma bucket_ok_remove_here:
  assumes ok: "bucket_ok n (l @ x # r) en b" and b: "bucket_of n x = b"
    and dist: "distinct (map he_addr (l @ x # r))"
  shows "bucket_ok n (l @ r)
    (en\<lparr>ht_chain := (if ht_chain en = he_addr x then (case r of [] \<Rightarrow> 0 | f # _ \<Rightarrow> he_addr f) else ht_chain en),
        ht_count := ht_count en - 1\<rparr>) b"
proof -
  let ?P = "in_bucket n b"
  have c: "contig ?P (l @ x # r)" using ok by (simp add: bucket_ok_def)
  have "contig ?P (l @ r)" using c by (rule contig_remove)
  moreover have "ht_count en = Suc (length (filter ?P (l @ r)))" using ok b by (simp add: bucket_ok_def)
  moreover have "(if ht_chain en = he_addr x then (case r of [] \<Rightarrow> 0 | f # _ \<Rightarrow> he_addr f) else ht_chain en)
      = he_addr e" if eB: "filter ?P (l @ r) = e # B" for e B
  proof (cases "filter ?P l")
    case Nil
    then have ch: "ht_chain en = he_addr x" and r: "filter ?P r = e # B"
      using ok b eB by (auto simp: bucket_ok_def)
    have "hd r = e" using contig_next [OF c _ Nil r] b by simp
    with r ch show ?thesis by (cases r) auto
  next
    case (Cons y ys)
    then have ch: "ht_chain en = he_addr y" and e: "e = y" using ok eB by (auto simp: bucket_ok_def)
    have "y \<in> set l" using Cons by (metis filter_is_subset list.set_intros(1) subsetD)
    then have "he_addr y \<noteq> he_addr x" using dist by (auto simp: image_iff)
    with ch e show ?thesis by simp
  qed
  ultimately show ?thesis by (simp add: bucket_ok_def)
qed

lemma keys_ok_remove: "keys_ok (l @ x # r) \<Longrightarrow> keys_ok (l @ r)"
  by (auto simp: keys_ok_def)

lemma removeElement_inv:
  assumes inv: "hash_inv pH" and elem: "h_first pH = l @ elem # r"
  shows "hash_inv (removeElement pH elem) \<and> h_first (removeElement pH elem) = l @ r"
proof -
  let ?n = "h_htsize pH"
  have dist: "distinct (map he_addr (l @ elem # r))"
    using inv elem by (simp only: hash_inv_def links_ok_def)
  have count: "h_count pH = length (l @ elem # r)" and keys: "keys_ok (l @ r)"
    using inv elem keys_ok_remove [of l elem r] by (simp_all add: hash_inv_def)
  have at: "unlink (he_addr elem) (h_first pH) = l @ r"
    "next_of (he_addr elem) (h_first pH) = (case r of [] \<Rightarrow> 0 | f # _ \<Rightarrow> he_addr f)"
    using dist elem by (simp_all add: unlink_at next_of_at)
  show ?thesis
  proof (cases "l @ r = []")
    case True
    then show ?thesis
      using count by (simp add: removeElement_def Let_def HashClear_def hash_inv_def links_ok_def keys_ok_def)
  next
    case False
    then have rem: "removeElement pH elem = pH\<lparr>h_first := l @ r, h_count := h_count pH - 1,
      h_ht := map_option (\<lambda>t. let i = bucket_of ?n elem in
        t[i := (t ! i)\<lparr>ht_chain := (if ht_chain (t ! i) = he_addr elem
                                     then (case r of [] \<Rightarrow> 0 | f # _ \<Rightarrow> he_addr f) else ht_chain (t ! i)),
                       ht_count := ht_count (t ! i) - 1\<rparr>]) (h_ht pH)\<rparr>"
      using count by (cases "h_ht pH") (auto simp: removeElement_def Let_def at)
    have "links_ok (removeElement pH elem)"
    proof (cases "h_ht pH")
      case None
      with inv dist show ?thesis by (auto simp: rem links_ok_def hash_inv_def)
    next
      case (Some t)
      let ?i = "bucket_of ?n elem"
      let ?en = "(t ! ?i)\<lparr>ht_chain := (if ht_chain (t ! ?i) = he_addr elem
        then (case r of [] \<Rightarrow> 0 | f # _ \<Rightarrow> he_addr f) else ht_chain (t ! ?i)), ht_count := ht_count (t ! ?i) - 1\<rparr>"
      have n: "0 < ?n" "length t = ?n" and ok: "\<And>c. c < ?n \<Longrightarrow> bucket_ok ?n (l @ elem # r) (t ! c) c"
        using inv Some elem by (auto simp: links_ok_def hash_inv_def)
      have i: "?i < ?n" using n(1) by (rule bucket_less)
      have "bucket_ok ?n (l @ r) (t[?i := ?en] ! c) c" if "c < ?n" for c
      proof (cases "c = ?i")
        case True
        with bucket_ok_remove_here [OF ok [OF i] refl dist] n(2) i show ?thesis by simp
      next
        case False
        with bucket_ok_remove_other [OF ok [OF that]] show ?thesis by simp
      qed
      then show ?thesis using dist n Some by (simp add: rem links_ok_def Let_def)
    qed
    then show ?thesis using count keys by (simp add: hash_inv_def rem)
  qed
qed

lemma replace_at:
  "distinct (map he_addr (l @ x # r)) \<Longrightarrow>
   replace_elem (he_addr x) k d (l @ x # r) = l @ x\<lparr>he_data := d, he_pKey := k\<rparr> # r"
proof -
  let ?f = "\<lambda>e. if he_addr e = he_addr x then e\<lparr>he_data := d, he_pKey := k\<rparr> else e"
  assume "distinct (map he_addr (l @ x # r))"
  then have "\<forall>e\<in>set l \<union> set r. he_addr e \<noteq> he_addr x" by (auto simp: image_iff)
  then have "map ?f l = l" "map ?f r = r" by (auto intro!: map_idI)
  then show ?thesis by (simp add: replace_elem_def)
qed

lemma contig_map: "contig P (map f xs) = contig (P \<circ> f) xs"
proof (induction xs)
  case Nil
  then show ?case by simp
next
  case (Cons x xs)
  have "dropWhile P (map f xs) = map f (dropWhile (P \<circ> f) xs)" by (simp add: dropWhile_map)
  with Cons show ?case by (simp add: list_all_iff comp_def)
qed

lemma links_ok_transfer:
  assumes "links_ok pH" "map he_addr es = map he_addr (h_first pH)"
    and "\<And>n en b. bucket_ok n (h_first pH) en b \<Longrightarrow> bucket_ok n es en b"
  shows "links_ok (pH\<lparr>h_first := es\<rparr>)"
  using assms by (cases "h_ht pH") (auto simp: links_ok_def)

lemma replace_inv:
  assumes inv: "hash_inv pH" and elem: "h_first pH = l @ elem # r" and k: "is_cstr k"
    and key: "elem_key elem = fold_case k"
  shows "hash_inv (pH\<lparr>h_first := replace_elem (he_addr elem) k d (h_first pH)\<rparr>)"
proof -
  let ?f = "\<lambda>e. if he_addr e = he_addr elem then e\<lparr>he_data := d, he_pKey := k\<rparr> else e"
  let ?es = "h_first pH"
  have links: "links_ok pH" using inv by (simp add: hash_inv_def)
  have map: "replace_elem (he_addr elem) k d ?es = map ?f ?es" by (simp add: replace_elem_def)
  have bkt: "bucket_of n (?f e) = bucket_of n e" and addr: "he_addr (?f e) = he_addr e" for n e
    by (simp_all add: bucket_of_def)
  have "bucket_ok n (map ?f ?es) en b" if "bucket_ok n ?es en b" for n en b
    using that by (auto simp only: bucket_ok_def filter_map contig_map comp_def bkt addr length_map
        map_eq_Cons_conv)
  moreover have "map he_addr (map ?f ?es) = map he_addr ?es" by simp
  ultimately have "links_ok (pH\<lparr>h_first := map ?f ?es\<rparr>)"
    by (intro links_ok_transfer [OF links]) auto
  moreover have "keys_ok (l @ elem\<lparr>he_data := d, he_pKey := k\<rparr> # r)"
  proof -
    have "keys_ok (l @ elem # r)" using inv elem by (simp add: hash_inv_def)
    then show ?thesis using k key strHash_fold [of k "he_pKey elem"] by (auto simp: keys_ok_def)
  qed
  moreover have "map ?f ?es = l @ elem\<lparr>he_data := d, he_pKey := k\<rparr> # r"
    using links replace_at [of l elem r k d] elem by (simp add: links_ok_def replace_elem_def)
  moreover have "length ?es = Suc (length l + length r)" by (simp add: elem)
  ultimately show ?thesis using inv by (simp add: hash_inv_def map)
qed

section \<open>The table is a case-insensitive map\<close>

definition hash_map :: "'v hashelem list \<Rightarrow> u8 list \<rightharpoonup> 'v" where
  "hash_map es = map_of (map (\<lambda>e. (elem_key e, he_data e)) es)"

lemma find_hash_map: "map_option he_data (List.find (\<lambda>e. elem_key e = k) es) = hash_map es k"
  by (induction es) (auto simp: hash_map_def)

lemma HashFind_map: "hash_inv pH \<Longrightarrow> is_cstr k \<Longrightarrow> HashFind pH k = hash_map (h_first pH) (fold_case k)"
  by (simp add: HashFind_def findElement_spec find_hash_map)

lemma hash_map_mset:
  assumes "mset es = mset fs" "distinct (map elem_key es)"
  shows "hash_map es = hash_map fs"
proof -
  have "mset (map elem_key es) = mset (map elem_key fs)" using assms(1) by simp
  then have "distinct (map elem_key fs)" using assms(2) mset_eq_imp_distinct_iff by blast
  moreover have "set es = set fs" using assms(1) by (rule mset_eq_setD)
  ultimately show ?thesis
    using assms(2) map_of_inject_set [of "map (\<lambda>e. (elem_key e, he_data e)) es"
        "map (\<lambda>e. (elem_key e, he_data e)) fs"]
    by (simp add: hash_map_def comp_def)
qed

lemma hash_map_append:
  "hash_map (l @ es) k = (case hash_map l k of None \<Rightarrow> hash_map es k | Some v \<Rightarrow> Some v)"
  by (simp add: hash_map_def map_add_def split: option.splits)

lemma hash_map_None: "hash_map es k = None \<longleftrightarrow> k \<notin> elem_key ` set es"
  by (auto simp: hash_map_def map_of_eq_None_iff image_iff)

lemma hash_map_Cons: "hash_map (e # es) k = (if k = elem_key e then Some (he_data e) else hash_map es k)"
  by (simp add: hash_map_def)

definition hash_env_ok :: "'v hashtab \<Rightarrow> nat option \<times> (nat \<Rightarrow> nat option) \<Rightarrow> bool" where
  "hash_env_ok pH env \<longleftrightarrow>
     (\<forall>a. fst env = Some a \<longrightarrow> a \<notin> he_addr ` set (h_first pH)) \<and> malloc_size_ok (snd env)"

text \<open>The three ways an insertion changes the list.\<close>

lemma HashInsert_hit:
  assumes inv: "hash_inv pH" and k: "is_cstr k"
    and hit: "List.find (\<lambda>e. elem_key e = fold_case k) (h_first pH) = Some elem"
  shows "hash_inv (fst (HashInsert env pH k v)) \<and> snd (HashInsert env pH k v) = Some (he_data elem) \<and>
    hash_map (h_first (fst (HashInsert env pH k v))) = (hash_map (h_first pH))(fold_case k := v)"
proof -
  have dist: "distinct (map elem_key (h_first pH))" using inv by (simp add: hash_inv_def keys_ok_def)
  obtain l r where es: "h_first pH = l @ elem # r" and key: "elem_key elem = fold_case k"
    and only: "elem_key elem \<notin> elem_key ` set l" "elem_key elem \<notin> elem_key ` set r"
    using find_elem [OF hit dist] by metis
  have none: "hash_map l (fold_case k) = None" "hash_map r (fold_case k) = None"
    using only key by (simp_all add: hash_map_None)
  have find: "findElementWithHash pH k = (Some elem, strHash k)"
    using findElement_spec [OF inv k] hit by simp
  show ?thesis
  proof (cases v)
    case None
    then have "HashInsert env pH k v = (removeElement pH elem, Some (he_data elem))"
      by (simp add: HashInsert_def find)
    moreover have "hash_map (l @ r) = (hash_map (l @ elem # r))(fold_case k := None)"
      using none key by (auto simp: fun_eq_iff hash_map_append hash_map_Cons split: option.splits)
    ultimately show ?thesis using removeElement_inv [OF inv es] es None by simp
  next
    case (Some d)
    then have "HashInsert env pH k v =
        (pH\<lparr>h_first := replace_elem (he_addr elem) k d (h_first pH)\<rparr>, Some (he_data elem))"
      by (simp add: HashInsert_def find)
    moreover have "replace_elem (he_addr elem) k d (h_first pH) = l @ elem\<lparr>he_data := d, he_pKey := k\<rparr> # r"
      using inv replace_at [of l elem r k d] es by (simp add: hash_inv_def links_ok_def)
    moreover have "hash_map (l @ elem\<lparr>he_data := d, he_pKey := k\<rparr> # r) =
        (hash_map (l @ elem # r))(fold_case k \<mapsto> d)"
      using none key by (auto simp: fun_eq_iff hash_map_append hash_map_Cons split: option.splits)
    ultimately show ?thesis using replace_inv [OF inv es k key, of d] es Some by simp
  qed
qed

lemma HashInsert_miss:
  assumes inv: "hash_inv pH" and k: "is_cstr k" and env: "hash_env_ok pH env"
    and addr: "fst env = Some a"
    and miss: "List.find (\<lambda>e. elem_key e = fold_case k) (h_first pH) = None"
  shows "hash_inv (fst (HashInsert env pH k (Some d))) \<and> snd (HashInsert env pH k (Some d)) = None \<and>
    hash_map (h_first (fst (HashInsert env pH k (Some d)))) = (hash_map (h_first pH))(fold_case k \<mapsto> d)"
proof -
  let ?new = "\<lparr>he_addr = a, he_data = d, he_pKey = k, he_h = strHash k\<rparr>"
  let ?p1 = "pH\<lparr>h_count := h_count pH + 1\<rparr>"
  define p2 where "p2 = (if h_count ?p1 \<ge> 5 \<and> h_count ?p1 > 2 * h_htsize ?p1
    then fst (rehash (snd env) ?p1 (h_count ?p1 * 3)) else ?p1)"
  define p3 where "p3 = insertElement p2
    (if h_ht p2 \<noteq> None then Some (bucket_of (h_htsize p2) ?new) else None) ?new"
  have links: "links_ok ?p1" and keys: "keys_ok (h_first pH)" and count: "h_count pH = length (h_first pH)"
    using inv by (auto simp: hash_inv_def links_ok_def split: option.splits)
  have "links_ok p2 \<and> mset (h_first p2) = mset (h_first pH) \<and> h_count p2 = h_count pH + 1"
    using rehash_links [OF links, of "snd env"] env links by (simp add: p2_def hash_env_ok_def)
  note p2 = this
  have "he_addr ?new \<notin> he_addr ` set (h_first p2)"
    using env addr p2 mset_eq_setD [of "h_first p2" "h_first pH"] by (simp add: hash_env_ok_def)
  from insertElement_links [OF _ this refl] p2
  have p3: "links_ok p3" "mset (h_first p3) = add_mset ?new (mset (h_first pH))" "h_count p3 = h_count pH + 1"
    by (simp_all add: p3_def)
  have ins: "HashInsert env pH k (Some d) = (p3, None)"
    using findElement_spec [OF inv k] miss addr
    by (simp add: HashInsert_def p3_def p2_def Let_def del: not_None_eq)
  have fresh: "fold_case k \<notin> elem_key ` set (h_first pH)" using miss by (auto simp: find_None_iff)
  have m: "mset (h_first p3) = mset (?new # h_first pH)" using p3(2) by simp
  have dist: "distinct (map elem_key (?new # h_first pH))" using keys fresh by (simp add: keys_ok_def)
  have "mset (map elem_key (h_first p3)) = mset (map elem_key (?new # h_first pH))"
    using m by (simp only: mset_map)
  then have dist3: "distinct (map elem_key (h_first p3))" using dist mset_eq_imp_distinct_iff by blast
  have "keys_ok (h_first p3)"
    using dist3 keys k mset_eq_setD [OF m] by (simp add: keys_ok_def)
  moreover have "length (h_first p3) = Suc (length (h_first pH))" using mset_eq_length [OF m] by simp
  ultimately have "hash_inv p3" using p3 count by (simp add: hash_inv_def)
  moreover have "hash_map (h_first p3) = hash_map (?new # h_first pH)"
    by (rule hash_map_mset [OF m dist3])
  then have "hash_map (h_first p3) = (hash_map (h_first pH))(fold_case k \<mapsto> d)"
    by (auto simp: fun_eq_iff hash_map_Cons)
  ultimately show ?thesis by (simp add: ins)
qed

lemma HashInsert_map:
  assumes "hash_inv pH" "is_cstr k" "hash_env_ok pH env" "fst env \<noteq> None"
  shows "hash_inv (fst (HashInsert env pH k v)) \<and>
    hash_map (h_first (fst (HashInsert env pH k v))) = (hash_map (h_first pH))(fold_case k := v) \<and>
    snd (HashInsert env pH k v) = hash_map (h_first pH) (fold_case k)"
proof (cases "List.find (\<lambda>e. elem_key e = fold_case k) (h_first pH)")
  case None
  then have none: "hash_map (h_first pH) (fold_case k) = None"
    using find_hash_map [of "fold_case k" "h_first pH"] by simp
  show ?thesis
  proof (cases v)
    case None
    then have "HashInsert env pH k v = (pH, None)"
      using findElement_spec [OF assms(1,2)] \<open>List.find _ _ = None\<close> by (simp add: HashInsert_def)
    with assms(1) none None show ?thesis by (auto simp: fun_eq_iff)
  next
    case (Some d)
    obtain a where "fst env = Some a" using assms(4) by auto
    from HashInsert_miss [OF assms(1-3) this None, of d] Some none show ?thesis by simp
  qed
next
  case (Some elem)
  with HashInsert_hit [OF assms(1,2) Some, of env v] find_hash_map [of "fold_case k" "h_first pH"]
  show ?thesis by simp
qed

text \<open>All allocations of elements succeed; those of bucket arrays may fail.\<close>

definition hash_env_full :: "'v hashtab \<Rightarrow> nat option \<times> (nat \<Rightarrow> nat option) \<Rightarrow> bool" where
  "hash_env_full pH env \<longleftrightarrow> hash_env_ok pH env \<and> fst env \<noteq> None"

interpretation hash: ci_map hash_inv HashFind HashInsert hash_env_full
  by unfold_locales (simp_all add: HashFind_map HashInsert_map hash_env_full_def del: not_None_eq)

text \<open>A client of the table, with the answers it sees and the allocations it relies on.\<close>

definition hash_request ::
  "nat option \<times> (nat \<Rightarrow> nat option) \<Rightarrow> 'v hashtab \<Rightarrow> 'v map_req \<Rightarrow> 'v hashtab \<times> 'v option" where
  "hash_request env pH r =
     (case r of
        Find k \<Rightarrow> (pH, HashFind pH k)
      | Insert k v \<Rightarrow> HashInsert env pH k (Some v)
      | Delete k \<Rightarrow> HashInsert env pH k None)"

fun hash_client ::
  "'v hashtab \<Rightarrow> ((nat option \<times> (nat \<Rightarrow> nat option)) \<times> 'v map_req) list \<Rightarrow> 'v option list" where
  "hash_client pH [] = []"
| "hash_client pH ((env, r) # rs) =
     (case hash_request env pH r of (pH', a) \<Rightarrow> a # hash_client pH' rs)"

fun hash_allocs ::
  "'v hashtab \<Rightarrow> ((nat option \<times> (nat \<Rightarrow> nat option)) \<times> 'v map_req) list \<Rightarrow> bool" where
  "hash_allocs pH [] = True"
| "hash_allocs pH ((env, r) # rs) \<longleftrightarrow>
     fst env \<noteq> None \<and> the (fst env) \<notin> he_addr ` set (h_first pH) \<and>
     hash_allocs (fst (hash_request env pH r)) rs"

lemma hash_request_step: "hash_request env pH r = hash.step env pH r"
  by (cases r) (simp_all add: hash_request_def)

lemma hash_client_run: "hash_client pH rs = hash.run pH rs"
  by (induction pH rs rule: hash_client.induct) (simp_all add: hash_request_step split: prod.split)

lemma hash_allocs_run:
  "hash_allocs pH rs \<Longrightarrow> \<forall>(env, r)\<in>set rs. malloc_size_ok (snd env) \<Longrightarrow> hash.run_env pH rs"
  by (induction pH rs rule: hash_allocs.induct)
    (auto simp: hash_request_step hash_env_full_def hash_env_ok_def)

lemma HashInit_inv: "hash_inv HashInit"
  by (simp add: hash_inv_def links_ok_def keys_ok_def HashInit_def)

text \<open>
  C30. A symbol table that starts empty answers every sequence of lookups, insertions,
  replacements and deletions as a map from lower-cased names to values does, with the bucket
  array absent, in place or rebuilt at any moment, and also when an allocation of the bucket
  array fails.
\<close>

theorem hash_refines_map:
  assumes "\<forall>(env, r)\<in>set rs. is_cstr (req_key r)"
    and "\<forall>(env, r)\<in>set rs. malloc_size_ok (snd env)" "hash_allocs HashInit rs"
  shows "hash_client HashInit rs = ref_run Map.empty (map snd rs)"
proof -
  have "hash.abstracts HashInit Map.empty"
    by (simp add: hash.abstracts_def HashFind_def findElementWithHash_def HashInit_def)
  from hash.run_refines [OF HashInit_inv this assms(1) hash_allocs_run [OF assms(3,2)]] show ?thesis
    by (simp only: hash_client_run)
qed

text \<open>
  C31. Every insertion keeps the invariant of the table (unique addresses, the elements of each
  bucket contiguous behind its head with the right count, stored hashes, distinct names) and
  an insertion that cannot allocate its element returns the new value and changes nothing.
\<close>

theorem hash_insert_invariant:
  assumes "hash_inv pH" "is_cstr k" "hash_env_ok pH env"
  shows "hash_inv (fst (HashInsert env pH k v)) \<and>
    (fst env = None \<and> HashFind pH k = None \<longrightarrow> HashInsert env pH k v = (pH, v))"
proof (cases "fst env = None \<and> HashFind pH k = None")
  case True
  then have "HashInsert env pH k v = (pH, v)"
    using findElement_spec [OF assms(1,2)]
    by (cases v) (auto simp: HashInsert_def HashFind_def)
  with assms(1) show ?thesis by simp
next
  case False
  show ?thesis
  proof (cases "List.find (\<lambda>e. elem_key e = fold_case k) (h_first pH)")
    case None
    then have "fst env \<noteq> None" using False findElement_spec [OF assms(1,2)] by (auto simp: HashFind_def)
    with HashInsert_map [OF assms, of v] show ?thesis by (simp del: not_None_eq)
  next
    case (Some elem)
    with HashInsert_hit [OF assms(1,2) Some, of env v] findElement_spec [OF assms(1,2)] show ?thesis
      by (simp add: HashFind_def)
  qed
qed

text \<open>Concrete runs: five insertions that build the array, a case-folded lookup, a deletion.\<close>

abbreviation (input) roomy :: "nat \<Rightarrow> nat option" where
  "roomy n \<equiv> (if n = 0 then None else Some n)"

theorem hash_refines_map_witness:
  "hash_client HashInit
     [((Some 1, roomy), Insert [65] (10 :: nat)), ((Some 2, roomy), Insert [66] 20),
      ((Some 3, roomy), Insert [67] 30), ((Some 4, roomy), Insert [68] 40),
      ((Some 5, roomy), Insert [69] 50), ((Some 6, roomy), Find [98]),
      ((Some 6, roomy), Delete [99]), ((Some 6, roomy), Find [67])] =
   [None, None, None, None, None, Some 20, Some 30, None]"
proof -
  let ?rs = "[((Some 1, roomy), Insert [65] (10 :: nat)), ((Some 2, roomy), Insert [66] 20),
      ((Some 3, roomy), Insert [67] 30), ((Some 4, roomy), Insert [68] 40),
      ((Some 5, roomy), Insert [69] 50), ((Some 6, roomy), Find [98]),
      ((Some 6, roomy), Delete [99]), ((Some 6, roomy), Find [67])]
      :: ((nat option \<times> (nat \<Rightarrow> nat option)) \<times> nat map_req) list"
  have "malloc_size_ok roomy" by (simp add: malloc_size_ok_def)
  then have "\<forall>(env, r)\<in>set ?rs. malloc_size_ok (snd env)" by simp
  moreover have "hash_allocs HashInit ?rs" by code_simp
  moreover have "\<forall>(env, r)\<in>set ?rs. is_cstr (req_key r)" by simp
  ultimately have "hash_client HashInit ?rs = ref_run Map.empty (map snd ?rs)"
    by (intro hash_refines_map)
  also have "\<dots> = [None, None, None, None, None, Some 20, Some 30, None]"
    by (simp add: UpperToLower_def)
  finally show ?thesis .
qed

theorem hash_insert_invariant_witness:
  "hash_inv (fst (HashInsert (Some 7, \<lambda>_. None) (HashInit :: nat hashtab) [97] (Some 3)))"
  by (intro hash_insert_invariant [THEN conjunct1])
    (simp_all only: HashInit_inv, simp_all add: HashInit_def hash_env_ok_def malloc_size_ok_def)

end
