(* ===== verification/Util_Arith.thy ===== *)
theory Util_Arith
  imports Codec "HOL-Library.Signed_Division"
begin

text \<open>
  The integer helpers of \<open>util.c\<close>: 64-bit arithmetic with overflow detection, the logarithmic
  estimates of the planner, and the four-byte big-endian numbers of the file format. Signed
  64-bit variables are integers in the range of the type; every arithmetic step of the
  overflow checks goes through \<open>chk64\<close>, so that a step that overflowed in C, which is undefined
  behaviour there, would show as \<open>None\<close>.
\<close>

section \<open>Checked arithmetic\<close>

definition LARGEST_INT64 :: int where "LARGEST_INT64 = 0xffffffff + 0x7fffffff * 2 ^ 32"
definition SMALLEST_INT64 :: int where "SMALLEST_INT64 = - 1 - LARGEST_INT64"

definition in_i64 :: "int \<Rightarrow> bool" where
  "in_i64 x \<longleftrightarrow> SMALLEST_INT64 \<le> x \<and> x \<le> LARGEST_INT64"

definition chk64 :: "int \<Rightarrow> (int \<Rightarrow> 'a option) \<Rightarrow> 'a option" where
  "chk64 x k = (if in_i64 x then k x else None)"

text \<open>
  The result is the return code with the new value of \<open>*pA\<close>. These are the portable bodies, for
  compilers without the overflow builtins.
\<close>

definition AddInt64 :: "int \<Rightarrow> int \<Rightarrow> (nat \<times> int) option" where
  "AddInt64 iA iB =
     (let ok = chk64 (iA + iB) (\<lambda>r. Some (0, r)) in
      if iB \<ge> 0 then
        (if iA > 0 then chk64 (LARGEST_INT64 - iA) (\<lambda>d. if d < iB then Some (1, iA) else ok) else ok)
      else
        (if iA < 0 then
           chk64 (iA + LARGEST_INT64) (\<lambda>s. chk64 (- s) (\<lambda>d. chk64 (iB + 1) (\<lambda>b1.
             if d > b1 then Some (1, iA) else ok)))
         else ok))"

definition SubInt64 :: "int \<Rightarrow> int \<Rightarrow> (nat \<times> int) option" where
  "SubInt64 iA iB =
     (if iB = SMALLEST_INT64 then
        (if iA \<ge> 0 then Some (1, iA) else chk64 (iA - iB) (\<lambda>r. Some (0, r)))
      else chk64 (- iB) (\<lambda>nb. AddInt64 iA nb))"

definition MulInt64 :: "int \<Rightarrow> int \<Rightarrow> (nat \<times> int) option" where
  "MulInt64 iA iB =
     (let ok = chk64 (iA * iB) (\<lambda>r. Some (0, r)); overflow = Some (1, iA) in
      if iB > 0 then
        (if iA > LARGEST_INT64 sdiv iB then overflow
         else if iA < SMALLEST_INT64 sdiv iB then overflow else ok)
      else if iB < 0 then
        (if iA > 0 then (if iB < SMALLEST_INT64 sdiv iA then overflow else ok)
         else if iA < 0 then
           (if iB = SMALLEST_INT64 then overflow
            else if iA = SMALLEST_INT64 then overflow
            else chk64 (- iB) (\<lambda>nb. chk64 (- iA) (\<lambda>na. if na > LARGEST_INT64 sdiv nb then overflow else ok)))
         else ok)
      else ok)"

definition AbsInt32 :: "int \<Rightarrow> int" where
  "AbsInt32 x = (if x \<ge> 0 then x else if x = - (2 ^ 31) then 0x7fffffff else - x)"

lemmas i64_defs = in_i64_def chk64_def LARGEST_INT64_def SMALLEST_INT64_def

lemma le_div_iff: "0 < b \<Longrightarrow> a \<le> n div b \<longleftrightarrow> a * b \<le> (n :: int)"
proof
  assume b: "0 < b" and "a \<le> n div b"
  then have "a * b \<le> n div b * b" by (intro mult_right_mono) auto
  also have "\<dots> \<le> n" using b div_mult_mod_eq [of n b] pos_mod_sign [of b n] by linarith
  finally show "a * b \<le> n" .
next
  assume b: "0 < b" and le: "a * b \<le> n"
  show "a \<le> n div b"
  proof (rule ccontr)
    assume "\<not> a \<le> n div b"
    then have "(n div b + 1) * b \<le> a * b" using b by (intro mult_right_mono) auto
    then have "n div b * b + b \<le> n" using le by (simp add: distrib_right)
    then show False using b div_mult_mod_eq [of n b] pos_mod_bound [of b n] by linarith
  qed
qed

lemma gt_sdiv: "0 \<le> n \<Longrightarrow> 0 < b \<Longrightarrow> n sdiv b < a \<longleftrightarrow> n < a * (b :: int)"
  using le_div_iff [of b a n] by (cases "n = 0") (auto simp: signed_divide_int_def not_le [symmetric])

lemma lt_sdiv: "n < 0 \<Longrightarrow> 0 < b \<Longrightarrow> a < n sdiv b \<longleftrightarrow> a * b < (n :: int)"
  using le_div_iff [of b "- a" "- n"] by (auto simp: signed_divide_int_def not_le [symmetric])

lemma AddInt64_spec:
  "in_i64 a \<Longrightarrow> in_i64 b \<Longrightarrow> AddInt64 a b = Some (if in_i64 (a + b) then (0, a + b) else (1, a))"
  by (auto simp: AddInt64_def i64_defs Let_def)

lemma SubInt64_spec:
  "in_i64 a \<Longrightarrow> in_i64 b \<Longrightarrow> SubInt64 a b = Some (if in_i64 (a - b) then (0, a - b) else (1, a))"
proof (cases "b = SMALLEST_INT64")
  case True
  assume "in_i64 a"
  with True show ?thesis by (auto simp: SubInt64_def i64_defs)
next
  case False
  assume ab: "in_i64 a" "in_i64 b"
  with False have "in_i64 (- b)" by (simp add: i64_defs)
  with ab False show ?thesis by (simp add: SubInt64_def chk64_def AddInt64_spec)
qed

lemma MulInt64_spec:
  assumes a: "in_i64 a" and b: "in_i64 b"
  shows "MulInt64 a b = Some (if in_i64 (a * b) then (0, a * b) else (1, a))"
proof -
  have S: "SMALLEST_INT64 < 0" "0 \<le> LARGEST_INT64" "- SMALLEST_INT64 = LARGEST_INT64 + 1"
    by (simp_all add: i64_defs)
  consider (pos) "0 < b" | (mixed) "b < 0" "0 < a" | (neg) "b < 0" "a < 0" | (zero) "b \<le> 0" "a * b = 0"
    by fastforce
  then show ?thesis
  proof cases
    case pos
    then show ?thesis
      using S by (auto simp: MulInt64_def Let_def gt_sdiv lt_sdiv chk64_def in_i64_def)
  next
    case mixed
    then have "a * b < 0" by (simp add: mult_pos_neg)
    with mixed S show ?thesis
      by (auto simp: MulInt64_def Let_def gt_sdiv lt_sdiv chk64_def in_i64_def mult.commute)
  next
    case neg
    have prod: "a * b = (- a) * (- b)" by simp
    show ?thesis
    proof (cases "b = SMALLEST_INT64 \<or> a = SMALLEST_INT64")
      case True
      have "1 * - SMALLEST_INT64 \<le> (- a) * (- b)"
      proof (cases "b = SMALLEST_INT64")
        case True
        with neg S show ?thesis by (intro mult_mono) auto
      next
        case False
        with \<open>b = SMALLEST_INT64 \<or> a = SMALLEST_INT64\<close> neg S have "- SMALLEST_INT64 * 1 \<le> (- a) * (- b)"
          by (intro mult_mono) auto
        then show ?thesis by simp
      qed
      then have "\<not> in_i64 (a * b)" using S by (simp add: in_i64_def)
      with True neg show ?thesis by (auto simp: MulInt64_def Let_def)
    next
      case False
      with a b have "in_i64 (- a)" "in_i64 (- b)" by (auto simp: i64_defs)
      moreover have "0 < a * b" using neg by (simp add: mult_neg_neg)
      ultimately show ?thesis
        using neg False S gt_sdiv [of LARGEST_INT64 "- b" "- a"]
        by (auto simp: MulInt64_def Let_def chk64_def in_i64_def)
    qed
  next
    case zero
    moreover from this have "\<not> 0 < b" "b < 0 \<Longrightarrow> a = 0" by auto
    moreover have "in_i64 0" using S by (simp add: in_i64_def)
    ultimately show ?thesis by (cases "b < 0") (simp_all add: MulInt64_def Let_def chk64_def)
  qed
qed

text \<open>
  C32. Addition, subtraction and multiplication of 64-bit integers report overflow exactly when the
  mathematical result does not fit, leave the variable unchanged then, and otherwise store the
  exact result; no step of the tests themselves overflows.
\<close>

theorem int64_arithmetic_exact:
  assumes "in_i64 a" "in_i64 b"
  shows "AddInt64 a b = Some (if in_i64 (a + b) then (0, a + b) else (1, a)) \<and>
    SubInt64 a b = Some (if in_i64 (a - b) then (0, a - b) else (1, a)) \<and>
    MulInt64 a b = Some (if in_i64 (a * b) then (0, a * b) else (1, a))"
  using assms by (simp add: AddInt64_spec SubInt64_spec MulInt64_spec)

theorem int64_arithmetic_exact_witness:
  "MulInt64 (- 3037000500) 3037000500 = Some (1, - 3037000500) \<and>
   SubInt64 (- 1) SMALLEST_INT64 = Some (0, LARGEST_INT64)"
  using int64_arithmetic_exact [of "- 3037000500" 3037000500] int64_arithmetic_exact [of "- 1" SMALLEST_INT64]
  by (simp add: i64_defs)

section \<open>Logarithmic estimates\<close>

definition logest_x :: "int list" where
  "logest_x = [10, 10, 9, 9, 8, 8, 7, 7, 7, 6, 6, 6, 5, 5, 5, 4, 4, 4, 4, 3, 3, 3, 3, 3, 3,
     2, 2, 2, 2, 2, 2, 2]"

definition LogEstAdd :: "int \<Rightarrow> int \<Rightarrow> int" where
  "LogEstAdd a b =
     (if a \<ge> b then
        (if a > b + 49 then a else if a > b + 31 then a + 1 else a + logest_x ! nat (a - b))
      else
        (if b > a + 49 then b else if b > a + 31 then b + 1 else b + logest_x ! nat (b - a)))"

text \<open>The portable shift loops, and the table of the last three bits.\<close>

definition logest_a :: "int list" where
  "logest_a = [0, 2, 3, 5, 6, 7, 8, 9]"

function logest_up :: "nat \<Rightarrow> int \<Rightarrow> nat \<times> int" where
  "logest_up x y = (if 0 < x \<and> x < 8 then logest_up (2 * x) (y - 10) else (x, y))"
  by auto
termination by (relation "measure (\<lambda>(x, y). 8 - x)") auto

function logest_down4 :: "nat \<Rightarrow> int \<Rightarrow> nat \<times> int" where
  "logest_down4 x y = (if x > 255 then logest_down4 (x div 16) (y + 40) else (x, y))"
  by auto
termination by (relation "measure fst") auto

function logest_down1 :: "nat \<Rightarrow> int \<Rightarrow> nat \<times> int" where
  "logest_down1 x y = (if x > 15 then logest_down1 (x div 2) (y + 10) else (x, y))"
  by auto
termination by (relation "measure fst") auto

definition LogEst :: "nat \<Rightarrow> int" where
  "LogEst x =
     (if x < 2 then 0
      else
        (case (if x < 8 then logest_up x 40
               else (case logest_down4 x 40 of (x', y') \<Rightarrow> logest_down1 x' y')) of
           (x', y') \<Rightarrow> logest_a ! (x' mod 8) + y' - 10))"

text \<open>\<open>sqlite3LogEstToInt\<close> for estimates that are not negative, as the planner keeps them.\<close>

definition LogEstToInt :: "nat \<Rightarrow> nat" where
  "LogEstToInt x =
     (let n = x mod 10; q = x div 10;
          n' = (if n \<ge> 5 then n - 2 else if n \<ge> 1 then n - 1 else n)
      in if q > 60 then 2 ^ 63 - 1
         else if q \<ge> 3 then ((n' + 8) * 2 ^ (q - 3)) mod 2 ^ 64
         else (n' + 8) div 2 ^ (3 - q))"

declare logest_up.simps [simp del] logest_down4.simps [simp del] logest_down1.simps [simp del]

text \<open>The loops shift until the value has four bits; what is shifted out is lost.\<close>

lemma logest_down1_val:
  "8 \<le> x \<Longrightarrow> \<exists>e m. logest_down1 x y = (m, y + 10 * int e) \<and> 8 \<le> m \<and> m < 16 \<and> x div 2 ^ e = m"
proof (induction x y rule: logest_down1.induct)
  case (1 x y)
  show ?case
  proof (cases "x > 15")
    case True
    then have "8 \<le> x div 2" by simp
    from "1.IH" [OF True this] obtain e m where
      em: "logest_down1 (x div 2) (y + 10) = (m, y + 10 + 10 * int e)" "8 \<le> m" "m < 16" "x div 2 div 2 ^ e = m"
      by blast
    then show ?thesis using True
      by (intro exI [of _ "Suc e"] exI [of _ m]) (simp add: logest_down1.simps [of x] div_mult2_eq)
  next
    case False
    with "1.prems" show ?thesis
      by (intro exI [of _ 0] exI [of _ x]) (simp add: logest_down1.simps [of x])
  qed
qed

lemma logest_down4_val:
  "8 \<le> x \<Longrightarrow> \<exists>e m. logest_down4 x y = (m, y + 10 * int e) \<and> 8 \<le> m \<and> x div 2 ^ e = m"
proof (induction x y rule: logest_down4.induct)
  case (1 x y)
  show ?case
  proof (cases "x > 255")
    case True
    then have "8 \<le> x div 16" by simp
    from "1.IH" [OF True this] obtain e m where
      em: "logest_down4 (x div 16) (y + 40) = (m, y + 40 + 10 * int e)" "8 \<le> m" "x div 16 div 2 ^ e = m"
      by blast
    then show ?thesis using True
      by (intro exI [of _ "e + 4"] exI [of _ m])
        (simp add: logest_down4.simps [of x] div_mult2_eq [symmetric] power_add mult.commute)
  next
    case False
    with "1.prems" show ?thesis
      by (intro exI [of _ 0] exI [of _ x]) (simp add: logest_down4.simps [of x])
  qed
qed

lemma LogEst_normal:
  assumes "8 \<le> x"
  obtains e m where "8 \<le> m" "m < 16" "x div 2 ^ e = m" "LogEst x = logest_a ! (m - 8) + 10 * int (e + 3)"
proof -
  obtain e1 m1 where 1: "logest_down4 x 40 = (m1, 40 + 10 * int e1)" "8 \<le> m1" "x div 2 ^ e1 = m1"
    using logest_down4_val [OF assms] by blast
  obtain e2 m where 2: "logest_down1 m1 (40 + 10 * int e1) = (m, 40 + 10 * int e1 + 10 * int e2)"
    "8 \<le> m" "m < 16" "m1 div 2 ^ e2 = m"
    using logest_down1_val [OF 1(2)] by blast
  have "x div 2 ^ (e1 + e2) = m" using 1(3) 2(4) by (simp add: power_add div_mult2_eq)
  moreover have "m mod 8 = m - 8" using 2(2,3) by (simp add: mod_if)
  ultimately show ?thesis
    using assms 1 2 that [of m "e1 + e2"] by (simp add: LogEst_def)
qed

text \<open>The eight mantissas: what the table promises about tenth powers.\<close>

lemma mantissa_cases: "8 \<le> m \<Longrightarrow> m < 16 \<Longrightarrow>
  m = 8 \<or> m = 9 \<or> m = 10 \<or> m = 11 \<or> m = 12 \<or> m = 13 \<or> m = 14 \<or> m = (15 :: nat)"
  by linarith

lemma mantissa_bounds:
  assumes "8 \<le> m" "m < 16"
  shows "0 \<le> logest_a ! (m - 8)" "2 ^ nat (logest_a ! (m - 8) + 30) \<le> 2 * m ^ 10"
    "(m + 1) ^ 10 \<le> 2 ^ nat (logest_a ! (m - 8) + 32)"
  using mantissa_cases [OF assms] by (elim disjE; simp add: logest_a_def)+

lemma LogEst_bounds:
  assumes x: "8 \<le> x"
  shows "0 \<le> LogEst x" "2 ^ nat (LogEst x) \<le> 2 * x ^ 10" "x ^ 10 < 2 ^ nat (LogEst x + 2)"
proof -
  obtain e m where m: "8 \<le> m" "m < 16" and em: "x div 2 ^ e = m"
    "LogEst x = logest_a ! (m - 8) + 10 * int (e + 3)"
    using LogEst_normal [OF x] by blast
  have a: "0 \<le> logest_a ! (m - 8)" using m by (rule mantissa_bounds(1))
  then show "0 \<le> LogEst x" using em(2) by simp
  have lo: "m * 2 ^ e \<le> x" using em(1) by (metis div_times_less_eq_dividend)
  have hi: "x < (m + 1) * 2 ^ e" using em(1) by (metis add.commute dividend_less_times_div
      mult.commute mult_Suc_right plus_1_eq_Suc zero_less_numeral zero_less_power)
  obtain k where k: "logest_a ! (m - 8) = int k" using a by (rule nonneg_int_cases)
  have y1: "nat (LogEst x) = nat (logest_a ! (m - 8) + 30) + 10 * e"
    and y2: "nat (LogEst x + 2) = nat (logest_a ! (m - 8) + 32) + 10 * e"
    using em(2) by (simp_all add: k nat_eq_iff)
  have "(2 :: nat) ^ nat (LogEst x) = 2 ^ nat (logest_a ! (m - 8) + 30) * (2 ^ e) ^ 10"
    by (simp only: y1 power_add power_mult mult.commute [of 10])
  also have "\<dots> \<le> (2 * m ^ 10) * (2 ^ e) ^ 10"
    by (intro mult_right_mono mantissa_bounds(2) m) simp
  also have "\<dots> = 2 * (m * 2 ^ e) ^ 10" by (simp only: power_mult_distrib mult.assoc)
  also have "\<dots> \<le> 2 * x ^ 10" using lo by (intro mult_left_mono power_mono) auto
  finally show "2 ^ nat (LogEst x) \<le> 2 * x ^ 10" .
  have "x ^ 10 < ((m + 1) * 2 ^ e) ^ 10" using hi by (intro power_strict_mono) auto
  also have "\<dots> = (m + 1) ^ 10 * (2 ^ e) ^ 10" by (simp only: power_mult_distrib)
  also have "\<dots> \<le> 2 ^ nat (logest_a ! (m - 8) + 32) * (2 ^ e) ^ 10"
    by (intro mult_right_mono mantissa_bounds(3) m) simp
  also have "\<dots> = 2 ^ nat (LogEst x + 2)"
    by (simp only: y2 power_add power_mult mult.commute [of 10])
  finally show "x ^ 10 < 2 ^ nat (LogEst x + 2)" .
qed

lemma small_cases: "0 < x \<Longrightarrow> x < 8 \<Longrightarrow>
  x = 1 \<or> x = 2 \<or> x = 3 \<or> x = 4 \<or> x = 5 \<or> x = 6 \<or> x = (7 :: nat)"
  by linarith

lemma LogEst_small:
  "LogEst (Suc 0) = 0" "LogEst 2 = 10" "LogEst 3 = 16" "LogEst 4 = 20" "LogEst 5 = 23" "LogEst 6 = 26" "LogEst 7 = 28"
  by (simp_all add: LogEst_def logest_up.simps logest_a_def)

text \<open>
  C33. The estimate is ten times the binary logarithm up to one unit above and two below, for
  every positive 64-bit value: in terms of tenth powers, which need no logarithm,
  \<open>2 ^ y \<le> 2 * x ^ 10\<close> and \<open>x ^ 10 < 2 ^ (y + 2)\<close>.
\<close>

theorem logest_accuracy:
  assumes "0 < x"
  shows "0 \<le> LogEst x \<and> 2 ^ nat (LogEst x) \<le> 2 * x ^ 10 \<and> x ^ 10 < 2 ^ nat (LogEst x + 2)"
proof (cases "x < 8")
  case True
  from small_cases [OF assms True] show ?thesis by (elim disjE) (simp_all add: LogEst_small)
next
  case False
  then show ?thesis using LogEst_bounds [of x] by simp
qed

theorem logest_accuracy_witness: "LogEst 1000 = 99 \<and> 2 ^ 99 \<le> 2 * (1000 :: nat) ^ 10"
proof -
  have "LogEst 1000 = 99"
    by (simp add: LogEst_def logest_down4.simps logest_down1.simps logest_a_def)
  with logest_accuracy [of 1000] show ?thesis by simp
qed

text \<open>Back to an integer.\<close>

lemma mantissa_back:
  assumes "8 \<le> m" "m < 16"
  shows "(let n = nat (logest_a ! (m - 8)) in (if n \<ge> 5 then n - 2 else if n \<ge> 1 then n - 1 else n) + 8) = m"
    "nat (logest_a ! (m - 8)) < 10"
  using mantissa_cases [OF assms] by (elim disjE; simp add: logest_a_def)+

text \<open>
  C34. Converting an integer to an estimate and back keeps its four most significant bits: small
  values come back exactly, larger ones rounded down to four bits, and values of \<open>2 ^ 61\<close> and
  more come back as the largest signed 64-bit integer.
\<close>

theorem logest_roundtrip:
  assumes "0 < x"
  shows "if x < 8 then LogEstToInt (nat (LogEst x)) = x
    else \<exists>e. 8 \<le> x div 2 ^ e \<and> x div 2 ^ e < 16 \<and>
      LogEstToInt (nat (LogEst x)) = (if x < 2 ^ 61 then x div 2 ^ e * 2 ^ e else 2 ^ 63 - 1)"
proof (cases "x < 8")
  case True
  from small_cases [OF assms True] show ?thesis
    by (elim disjE) (simp_all add: LogEst_small LogEstToInt_def Let_def)
next
  case False
  then have "8 \<le> x" by simp
  then obtain e m where m: "8 \<le> m" "m < 16" and em: "x div 2 ^ e = m"
    "LogEst x = logest_a ! (m - 8) + 10 * int (e + 3)"
    using LogEst_normal by blast
  note a = mantissa_bounds(1) [OF m] mantissa_back [OF m]
  have y: "nat (LogEst x) = nat (logest_a ! (m - 8)) + 10 * (e + 3)" using em(2) a(1) by simp
  have qr: "nat (LogEst x) div 10 = e + 3" "nat (LogEst x) mod 10 = nat (logest_a ! (m - 8))"
    using a(3) by (simp_all only: y div_mult_self2 mod_mult_self2 div_less mod_less)
  have "e \<le> 57 \<longleftrightarrow> x < 2 ^ 61"
  proof
    assume "e \<le> 57"
    then have "(2 :: nat) ^ e \<le> 2 ^ 57" by (intro power_increasing) auto
    moreover have "x < 16 * 2 ^ e" using em(1) m(2) by (metis div_less_iff_less_mult zero_less_numeral zero_less_power)
    ultimately show "x < 2 ^ 61" by simp
  next
    assume x: "x < 2 ^ 61"
    show "e \<le> 57"
    proof (rule ccontr)
      assume "\<not> e \<le> 57"
      then have "(2 :: nat) ^ 58 \<le> 2 ^ e" by (intro power_increasing) auto
      moreover have "8 * 2 ^ e \<le> x" using em(1) m(1) by (metis less_eq_div_iff_mult_less_eq zero_less_numeral zero_less_power)
      ultimately show False using x by simp
    qed
  qed
  moreover have "m * 2 ^ e < 2 ^ 64" if "e \<le> 57"
  proof -
    have "(2 :: nat) ^ e \<le> 2 ^ 57" using that by (intro power_increasing) auto
    then have "m * 2 ^ e \<le> 15 * 2 ^ 57" using m(2) by (intro mult_mono) auto
    then show ?thesis by simp
  qed
  ultimately have "LogEstToInt (nat (LogEst x)) = (if x < 2 ^ 61 then m * 2 ^ e else 2 ^ 63 - 1)"
    using a(2) by (cases "e \<le> 57") (simp_all add: LogEstToInt_def qr Let_def)
  with em(1) m False show ?thesis by auto
qed

theorem logest_roundtrip_witness: "LogEstToInt (nat (LogEst 7)) = 7"
  using logest_roundtrip [of 7] by simp

section \<open>Bytes\<close>

definition Get4byte :: "(nat \<Rightarrow> u8) \<Rightarrow> u32" where
  "Get4byte p = push_bit 24 (ucast (p 0)) OR push_bit 16 (ucast (p 1)) OR push_bit 8 (ucast (p 2)) OR ucast (p 3)"

definition Put4byte :: "u32 \<Rightarrow> u8 list" where
  "Put4byte v = [ucast (drop_bit 24 v), ucast (drop_bit 16 v), ucast (drop_bit 8 v), ucast v]"

lemma Get_Put4byte: "Get4byte (\<lambda>i. (Put4byte v @ rest) ! i) = v"
  by (rule word32_eqI) (simp add: Get4byte_def Put4byte_def word_bits)

interpretation be32: codec "\<lambda>_. True" Put4byte "\<lambda>p. (Get4byte p, 4)"
  by unfold_locales (simp_all add: Get_Put4byte, simp_all add: Put4byte_def)

lemma Put_Get4byte: "Put4byte (Get4byte p) = [p 0, p 1, p 2, p 3]"
  by (simp add: Put4byte_def, intro conjI; rule word8_eqI; simp add: Get4byte_def word_bits)

text \<open>\<open>sqlite3HexToInt\<close> for ASCII, and the conversion of the digits of a blob literal.\<close>

definition HexToInt :: "u8 \<Rightarrow> u8" where
  "HexToInt h = (h + 9 * (1 AND drop_bit 6 h)) AND 0xf"

fun hex_pairs :: "u8 list \<Rightarrow> nat \<Rightarrow> nat \<Rightarrow> nat \<Rightarrow> u8 list" where
  "hex_pairs z n i 0 = []"
| "hex_pairs z n i (Suc f) =
     (if i < n then (push_bit 4 (HexToInt (z ! i)) OR HexToInt (z ! (i + 1))) # hex_pairs z n (i + 2) f
      else [0])"

text \<open>The allocation, then \<open>n - 1\<close> as the loop bound; the zero byte is the terminator.\<close>

definition HexToBlob :: "alloc \<Rightarrow> u8 list \<Rightarrow> nat \<Rightarrow> alloc \<times> u8 list option" where
  "HexToBlob a z n = (malloc_rest a, if malloc_ok a then Some (hex_pairs z (n - 1) 0 (n + 1)) else None)"

text \<open>Writing a digit in lower or upper case, and a byte as two digits.\<close>

definition hex_digit :: "bool \<Rightarrow> u8 \<Rightarrow> u8" where
  "hex_digit up d = (if d < 10 then 48 + d else if up then 55 + d else 87 + d)"

fun hex_encode :: "(nat \<Rightarrow> bool) \<Rightarrow> u8 list \<Rightarrow> u8 list" where
  "hex_encode up [] = []"
| "hex_encode up (b # bs) =
     hex_digit (up 0) (drop_bit 4 b) # hex_digit (up 1) (b AND 0xf) # hex_encode (\<lambda>k. up (k + 2)) bs"

lemma HexToInt_digit: "d < 16 \<Longrightarrow> HexToInt (hex_digit up d) = d"
proof -
  have "d < 16 \<longrightarrow> HexToInt (hex_digit True d) = d \<and> HexToInt (hex_digit False d) = d"
    by (rule all_u8 [where P = "\<lambda>d. d < 16 \<longrightarrow>
          HexToInt (hex_digit True d) = d \<and> HexToInt (hex_digit False d) = d"]) code_simp
  then show "d < 16 \<Longrightarrow> HexToInt (hex_digit up d) = d" by (cases up) auto
qed

lemma nibbles: "drop_bit 4 (b :: u8) < 16" "b AND 0xf < 16"
  by (rule all_u8 [where P = "\<lambda>b. drop_bit 4 b < 16"], code_simp)
    (rule all_u8 [where P = "\<lambda>b. b AND 0xf < 16"], code_simp)

lemma length_hex_encode [simp]: "length (hex_encode up bs) = 2 * length bs"
  by (induction bs arbitrary: up) auto

lemma hex_pairs_encode:
  "i = length pre \<Longrightarrow> n + 1 = length pre + 2 * length bs \<Longrightarrow> length bs < f \<Longrightarrow>
   hex_pairs (pre @ hex_encode up bs @ post) n i f = bs @ [0]"
proof (induction bs arbitrary: pre i f up)
  case Nil
  then show ?case by (cases f) auto
next
  case (Cons b bs)
  obtain g where f: "f = Suc g" using Cons.prems(3) by (cases f) auto
  let ?d1 = "hex_digit (up 0) (drop_bit 4 b)" and ?d2 = "hex_digit (up 1) (b AND 0xf)"
  have "hex_pairs ((pre @ [?d1, ?d2]) @ hex_encode (\<lambda>k. up (k + 2)) bs @ post) n (i + 2) g = bs @ [0]"
    using Cons.prems f by (intro Cons.IH) auto
  moreover have "push_bit 4 (drop_bit 4 b) OR (b AND 0xf) = b"
    by (rule word8_eqI) (simp add: word_bits)
  ultimately show ?case
    using Cons.prems by (simp add: f nth_append HexToInt_digit nibbles)
qed

text \<open>
  C35. Reading a blob literal gives back the bytes it was written from, whatever mixture of upper
  and lower case its digits have and whatever follows them (the closing quote of the
  literal), followed by a zero byte, unless memory runs out.
\<close>

theorem hex_blob_roundtrip:
  "snd (HexToBlob a (hex_encode up bs @ post) (2 * length bs)) =
     (if malloc_ok a then Some (bs @ [0]) else None)"
  using hex_pairs_encode [of 0 "[]" "2 * length bs - 1" bs "2 * length bs + 1" up post]
  by (cases bs) (simp_all add: HexToBlob_def)

theorem hex_blob_roundtrip_witness:
  "snd (HexToBlob (\<lambda>_. True) [54, 70, 54, 101, 39] 4) = Some [111, 110, 0]"
proof -
  have "hex_encode (\<lambda>k. k = 1) [111, 110] @ [39] = [54, 70, 54, 101, 39]" by code_simp
  moreover have "snd (HexToBlob (\<lambda>_. True) (hex_encode (\<lambda>k. k = 1) [111, 110] @ [39]) (2 * length [111 :: u8, 110])) =
      (if malloc_ok (\<lambda>_. True) then Some ([111, 110] @ [0]) else None)"
    by (rule hex_blob_roundtrip)
  ultimately show ?thesis by (simp add: malloc_ok_def)
qed

end
