(* ===== verification/Util_Parse.thy ===== *)
theory Util_Parse
  imports Str Util_Arith
begin

text \<open>
  Integers as text (\<open>util.c\<close>): rendering a 64-bit integer, parsing one from UTF-8 or UTF-16 with
  its five result codes, the hexadecimal form, and the 32-bit variants. The parsers are
  shown to compute the value of the digits they find, saturated as documented, and to
  invert the rendering.
\<close>

section \<open>Characters\<close>

definition Isspace :: "u8 \<Rightarrow> bool" where "Isspace c \<longleftrightarrow> 9 \<le> c \<and> c \<le> 13 \<or> c = 32"
definition Isdigit :: "u8 \<Rightarrow> bool" where "Isdigit c \<longleftrightarrow> 48 \<le> c \<and> c \<le> 57"
definition Isxdigit :: "u8 \<Rightarrow> bool" where
  "Isxdigit c \<longleftrightarrow> 48 \<le> c \<and> c \<le> 57 \<or> 65 \<le> c \<and> c \<le> 70 \<or> 97 \<le> c \<and> c \<le> 102"

section \<open>Rendering\<close>

function text_loop :: "nat \<Rightarrow> u8 list \<Rightarrow> u8 list" where
  "text_loop x zTemp =
     (let zTemp' = (word_of_nat (x mod 10) + 48) # zTemp
      in if x div 10 = 0 then zTemp' else text_loop (x div 10) zTemp')"
  by auto
termination by (relation "measure fst") auto

definition Int64ToText :: "int \<Rightarrow> u8 list" where
  "Int64ToText v =
     (let x = (if v < 0 then (if v = SMALLEST_INT64 then 2 ^ 63 else nat (- v)) else nat v);
          z = text_loop x []
      in if v < 0 then 45 # z else z)"

section \<open>Parsing 64-bit integers\<close>

text \<open>
  \<open>z\<close> is the buffer, \<open>p\<close> the position of \<open>zNum\<close> in it, \<open>e\<close> that of \<open>zEnd\<close>. Skipping characters, and
  reading digits into a 64-bit accumulator:
\<close>

function skip_while :: "(u8 \<Rightarrow> bool) \<Rightarrow> u8 list \<Rightarrow> nat \<Rightarrow> nat \<Rightarrow> nat \<Rightarrow> nat" where
  "skip_while P z e incr p =
     (if 0 < incr \<and> p < e \<and> P (z ! p) then skip_while P z e incr (p + incr) else p)"
  by auto
termination by (relation "measure (\<lambda>(P, z, e, incr, p). e - p)") auto

function digit_loop :: "u8 list \<Rightarrow> nat \<Rightarrow> nat \<Rightarrow> nat \<Rightarrow> nat \<Rightarrow> nat \<Rightarrow> nat \<times> nat" where
  "digit_loop z e incr p i u =
     (if 0 < incr \<and> p + i < e \<and> Isdigit (z ! (p + i))
      then digit_loop z e incr p (i + incr) ((u * 10 + unat (z ! (p + i)) - 48) mod 2 ^ 64)
      else (i, u))"
  by auto
termination by (relation "measure (\<lambda>(z, e, incr, p, i, u). e - (p + i))") auto

declare text_loop.simps [simp del] skip_while.simps [simp del] digit_loop.simps [simp del]

definition pow63 :: "u8 list" where
  "pow63 = [57, 50, 50, 51, 51, 55, 50, 48, 51, 54, 56, 53, 52, 55, 55, 53, 56, 48]"

fun pow63_loop :: "(nat \<Rightarrow> u8) \<Rightarrow> nat \<Rightarrow> u8 list \<Rightarrow> int" where
  "pow63_loop rd i [] = 0"
| "pow63_loop rd i (d # ds) =
     (let c = (uint (rd i) - uint d) * 10 in if c = 0 then pow63_loop rd (i + 1) ds else c)"

definition compare2pow63 :: "u8 list \<Rightarrow> nat \<Rightarrow> nat \<Rightarrow> int" where
  "compare2pow63 z p incr =
     (let c = pow63_loop (\<lambda>i. z ! (p + i * incr)) 0 pow63
      in if c = 0 then uint (z ! (p + 18 * incr)) - 56 else c)"

abbreviation (input) SQLITE_UTF8 :: nat where "SQLITE_UTF8 \<equiv> 1"
abbreviation (input) SQLITE_UTF16LE :: nat where "SQLITE_UTF16LE \<equiv> 2"
abbreviation (input) SQLITE_UTF16BE :: nat where "SQLITE_UTF16BE \<equiv> 3"

text \<open>Where \<open>zNum\<close> starts, where \<open>zEnd\<close> is, the step, and whether a high byte is not zero.\<close>

definition atoi_setup :: "u8 list \<Rightarrow> nat \<Rightarrow> nat \<times> nat \<times> nat \<times> bool" where
  "atoi_setup z enc =
     (if enc = SQLITE_UTF8 then (0, length z, 1, False)
      else
        (let n = length z - length z mod 2;
             i = skip_while (\<lambda>c. c = 0) z n 2 (3 - enc)
         in (enc mod 2, if even i then i + 1 else i - 1, 2, i < n)))"

definition Atoi64 :: "u8 list \<Rightarrow> nat \<Rightarrow> int \<times> int" where
  "Atoi64 z enc =
     (case atoi_setup z enc of (p0, e, incr, nonNum) \<Rightarrow>
      let p1 = skip_while Isspace z e incr p0;
          neg = (p1 < e \<and> z ! p1 = 45);
          zStart = (if p1 < e \<and> (z ! p1 = 45 \<or> z ! p1 = 43) then p1 + incr else p1);
          zNum = skip_while (\<lambda>c. c = 48) z e incr zStart;
          (i, u) = digit_loop z e incr zNum 0 0;
          num = (if int u > LARGEST_INT64 then (if neg then SMALLEST_INT64 else LARGEST_INT64)
                 else if neg then - int u else int u);
          rc = (if i = 0 \<and> zStart = zNum then -1
                else if nonNum then 1
                else if zNum + i < e \<and> skip_while Isspace z e incr (zNum + i) < e then 1
                else 0)
      in if i < 19 * incr then (rc, num)
         else
           (let c = (if i > 19 * incr then 1 else compare2pow63 z zNum incr) in
            if c < 0 then (rc, num)
            else (if c > 0 then 2 else if neg then rc else 3,
                  if neg then SMALLEST_INT64 else LARGEST_INT64)))"

section \<open>Code units\<close>

text \<open>The bytes that a loop with a given start, end and step sees.\<close>

function units :: "u8 list \<Rightarrow> nat \<Rightarrow> nat \<Rightarrow> nat \<Rightarrow> u8 list" where
  "units z e incr p = (if 0 < incr \<and> p < e then z ! p # units z e incr (p + incr) else [])"
  by auto
termination by (relation "measure (\<lambda>(z, e, incr, p). e - p)") auto

declare units.simps [simp del]

lemma units_step: "0 < incr \<Longrightarrow> p < e \<Longrightarrow> units z e incr p = z ! p # units z e incr (p + incr)"
  by (subst units.simps) simp

lemma units_end: "\<not> p < e \<Longrightarrow> units z e incr p = []"
  by (subst units.simps) simp

lemma units_Nil: "0 < incr \<Longrightarrow> units z e incr p = [] \<longleftrightarrow> \<not> p < e"
  by (subst units.simps) simp

lemma skip_units:
  "0 < incr \<Longrightarrow> units z e incr (skip_while P z e incr p) = dropWhile P (units z e incr p) \<and>
     skip_while P z e incr p = p + incr * length (takeWhile P (units z e incr p))"
proof (induction P z e incr p rule: skip_while.induct)
  case (1 P z e incr p)
  show ?case
  proof (cases "p < e \<and> P (z ! p)")
    case True
    have skip: "skip_while P z e incr p = skip_while P z e incr (p + incr)"
      using True "1.prems" by (subst skip_while.simps) simp
    have IH: "units z e incr (skip_while P z e incr (p + incr)) = dropWhile P (units z e incr (p + incr))"
      "skip_while P z e incr (p + incr) = p + incr + incr * length (takeWhile P (units z e incr (p + incr)))"
      using 1 True by blast+
    have "units z e incr p = z ! p # units z e incr (p + incr)" using True "1.prems" by (simp add: units_step)
    then have "dropWhile P (units z e incr p) = dropWhile P (units z e incr (p + incr))"
      "length (takeWhile P (units z e incr p)) = Suc (length (takeWhile P (units z e incr (p + incr))))"
      using True by simp_all
    then show ?thesis unfolding skip using IH(1) IH(2) by (intro conjI) (simp_all only: mult_Suc_right add.assoc)
  next
    case False
    then have "skip_while P z e incr p = p" by (subst skip_while.simps) auto
    with False "1.prems" show ?thesis by (cases "p < e") (simp_all add: units_step units_end)
  qed
qed

lemma units_nth: "0 < incr \<Longrightarrow> i < length (units z e incr p) \<Longrightarrow> units z e incr p ! i = z ! (p + i * incr)"
proof (induction z e incr p arbitrary: i rule: units.induct)
  case (1 z e incr p)
  then have "p < e" by (metis length_pos_if_in_set list.size(3) not_less0 units_end)
  with 1 show ?case by (cases i) (simp_all add: units_step add.assoc)
qed

text \<open>The value of a sequence of digits.\<close>

definition digits_val :: "u8 list \<Rightarrow> nat" where
  "digits_val ds = foldl (\<lambda>v d. v * 10 + (unat d - 48)) 0 ds"

lemma foldl_digits: "foldl (\<lambda>v d. v * 10 + (unat d - 48)) u ds = u * 10 ^ length ds + digits_val ds"
proof (induction ds arbitrary: u)
  case Nil
  then show ?case by (simp add: digits_val_def)
next
  case (Cons d ds)
  have "digits_val (d # ds) = (unat d - 48) * 10 ^ length ds + digits_val ds"
    using Cons [of "unat d - 48"] by (simp add: digits_val_def)
  with Cons show ?case by (simp add: algebra_simps)
qed

lemma digits_val_simps [simp]:
  "digits_val [] = 0"
  "digits_val (d # ds) = (unat d - 48) * 10 ^ length ds + digits_val ds"
  using foldl_digits [of "unat d - 48" ds] by (simp_all add: digits_val_def)

lemma Isdigit_unat: "Isdigit d \<longleftrightarrow> 48 \<le> unat d \<and> unat d \<le> 57"
  by (simp add: Isdigit_def word_le_nat_alt)

lemma digits_val_less: "list_all Isdigit ds \<Longrightarrow> digits_val ds < 10 ^ length ds"
proof (induction ds)
  case Nil
  then show ?case by simp
next
  case (Cons d ds)
  then have "unat d - 48 \<le> 9" "digits_val ds < 10 ^ length ds" by (auto simp: Isdigit_unat)
  then have "(unat d - 48) * 10 ^ length ds \<le> 9 * 10 ^ length ds" by (intro mult_right_mono) auto
  with \<open>digits_val ds < _\<close> show ?case
    by (simp only: digits_val_simps length_Cons power_Suc)
qed

lemma digits_val_zeros: "list_all (\<lambda>c. c = 48) zs \<Longrightarrow> digits_val (zs @ ds) = digits_val ds"
  by (induction zs) auto

lemma digits_val_ge:
  "Isdigit d \<Longrightarrow> d \<noteq> 48 \<Longrightarrow> 10 ^ length ds \<le> digits_val (d # ds)"
proof -
  assume "Isdigit d" "d \<noteq> 48"
  then have "1 \<le> unat d - 48" by (auto simp: Isdigit_unat word_unat_eq_iff)
  then have "1 * 10 ^ length ds \<le> (unat d - 48) * 10 ^ length ds" by (rule mult_right_mono) simp
  then show ?thesis by (simp only: digits_val_simps)
qed

lemma digit_loop_units:
  "0 < incr \<Longrightarrow> ds = takeWhile Isdigit (units z e incr (p + i)) \<Longrightarrow> u < 2 ^ 64 \<Longrightarrow>
   digit_loop z e incr p i u =
     (i + incr * length ds, (u * 10 ^ length ds + digits_val ds) mod 2 ^ 64)"
proof (induction z e incr p i u arbitrary: ds rule: digit_loop.induct)
  case (1 z e incr p i u)
  show ?case
  proof (cases "p + i < e \<and> Isdigit (z ! (p + i))")
    case True
    let ?d = "z ! (p + i)"
    obtain ds' where ds: "ds = ?d # ds'" "ds' = takeWhile Isdigit (units z e incr (p + (i + incr)))"
      using "1.prems" True by (simp add: units_step add.assoc)
    have d: "48 \<le> unat ?d" using True by (simp add: Isdigit_unat)
    let ?u = "(u * 10 + unat ?d - 48) mod 2 ^ 64"
    have "digit_loop z e incr p i u = digit_loop z e incr p (i + incr) ?u"
      using True "1.prems"(1) by (subst digit_loop.simps) simp
    also have "\<dots> = (i + incr + incr * length ds', (?u * 10 ^ length ds' + digits_val ds') mod 2 ^ 64)"
      using "1.IH" [OF _ "1.prems"(1) ds(2)] True "1.prems"(1) by simp
    also have "(?u * 10 ^ length ds' + digits_val ds') mod 2 ^ 64 =
        ((u * 10 + unat ?d - 48) * 10 ^ length ds' + digits_val ds') mod 2 ^ 64"
      by (simp only: mod_add_left_eq [symmetric, of "_ * _"] mod_mult_left_eq)
    also have "(u * 10 + unat ?d - 48) * 10 ^ length ds' + digits_val ds' = u * 10 ^ length ds + digits_val ds"
    proof -
      have "u * 10 + unat ?d - 48 = u * 10 + (unat ?d - 48)" using d by simp
      then show ?thesis by (simp add: ds(1) distrib_right)
    qed
    finally show ?thesis by (simp add: ds(1))
  next
    case False
    then have "ds = []" using "1.prems" by (cases "p + i < e") (simp_all add: units_step units_end)
    moreover have "digit_loop z e incr p i u = (i, u)" using False by (subst digit_loop.simps) auto
    ultimately show ?thesis using "1.prems" by simp
  qed
qed

section \<open>What the parser computes\<close>

text \<open>
  The reference: skip white space, take a sign, take all digits; saturate the value; report no
  digits, an overflow, the boundary value, or trailing text.
\<close>

definition atoi_spec :: "u8 list \<Rightarrow> bool \<Rightarrow> int \<times> int" where
  "atoi_spec s nonNum =
     (let t = dropWhile Isspace s;
          neg = (t \<noteq> [] \<and> hd t = 45);
          t' = (if t \<noteq> [] \<and> (hd t = 45 \<or> hd t = 43) then tl t else t);
          ds = takeWhile Isdigit t'; rest = dropWhile Isdigit t';
          v = int (digits_val ds)
      in (if ds = [] then -1
          else if v > 2 ^ 63 then 2
          else if v = 2 ^ 63 \<and> \<not> neg then 3
          else if nonNum \<or> list_ex (\<lambda>c. \<not> Isspace c) rest then 1
          else 0,
          if neg then max SMALLEST_INT64 (- v) else min LARGEST_INT64 v))"

text \<open>Comparing nineteen digits with \<open>2 ^ 63\<close>.\<close>

lemma pow63_loop_sign:
  assumes "length ds = length ps" "list_all Isdigit ds" "list_all Isdigit ps"
    "\<And>k. k < length ds \<Longrightarrow> rd (i + k) = ds ! k"
  shows "(pow63_loop rd i ps < 0 \<longleftrightarrow> digits_val ds < digits_val ps) \<and>
    (pow63_loop rd i ps = 0 \<longleftrightarrow> digits_val ds = digits_val ps)"
  using assms
proof (induction ps arbitrary: i ds)
  case Nil
  then show ?case by simp
next
  case (Cons q ps)
  then obtain d ds' where ds: "ds = d # ds'" by (cases ds) auto
  have d: "rd i = d" using Cons.prems(4) [of 0] ds by simp
  have dig: "Isdigit d" "Isdigit q" "list_all Isdigit ds'" "list_all Isdigit ps" "length ds' = length ps"
    using Cons.prems ds by simp_all
  have "rd (Suc i + k) = ds' ! k" if "k < length ds'" for k using Cons.prems(4) [of "Suc k"] that ds by simp
  with Cons.IH [of ds' "Suc i"] dig
  have IH: "(pow63_loop rd (Suc i) ps < 0 \<longleftrightarrow> digits_val ds' < digits_val ps) \<and>
    (pow63_loop rd (Suc i) ps = 0 \<longleftrightarrow> digits_val ds' = digits_val ps)" by simp
  let ?X = "10 ^ length ps :: nat"
  have lt: "digits_val ds' < ?X" "digits_val ps < ?X"
    using digits_val_less [OF dig(3)] digits_val_less [OF dig(4)] dig(5) by simp_all
  have dq: "48 \<le> unat d" "48 \<le> unat q" using dig by (simp_all add: Isdigit_unat)
  have val: "digits_val ds = (unat d - 48) * ?X + digits_val ds'" "digits_val (q # ps) = (unat q - 48) * ?X + digits_val ps"
    using ds dig(5) by simp_all
  have mono: "(a + 1) * ?X \<le> b * ?X" if "a < b" for a b :: nat using that by (intro mult_right_mono) auto
  have cmp: "uint d - uint q = int (unat d) - int (unat q)" by simp
  consider "unat d < unat q" | "unat d = unat q" | "unat q < unat d" by linarith
  then show ?case
  proof cases
    case 1
    then have "uint d < uint q" by (simp add: word_less_nat_alt flip: word_less_def)
    have "digits_val ds < digits_val (q # ps)"
      using mono [of "unat d - 48" "unat q - 48", OF diff_less_mono [OF 1 dq(1)]] lt(1)
      unfolding val by (simp add: distrib_right)
    with \<open>uint d < uint q\<close> show ?thesis by (auto simp: Let_def d)
  next
    case 2
    then have "d = q" by (simp add: word_unat_eq_iff)
    with IH show ?thesis by (simp add: Let_def d val)
  next
    case 3
    then have "uint q < uint d" by (simp add: word_less_nat_alt flip: word_less_def)
    have "digits_val (q # ps) < digits_val ds"
      using mono [of "unat q - 48" "unat d - 48", OF diff_less_mono [OF 3 dq(2)]] lt(2)
      unfolding val by (simp add: distrib_right)
    with \<open>uint q < uint d\<close> show ?thesis by (auto simp: Let_def d)
  qed
qed

lemma digits_val_append: "digits_val (xs @ ys) = digits_val xs * 10 ^ length ys + digits_val ys"
  by (induction xs) (simp_all add: power_add distrib_right)

lemma digits_val_pow63: "digits_val pow63 = 922337203685477580" "list_all Isdigit pow63" "length pow63 = 18"
  by (simp_all add: pow63_def Isdigit_def)

lemma compare2pow63_sign:
  assumes len: "length ds = 19" and dig: "list_all Isdigit ds"
    and rd: "\<And>k. k < 19 \<Longrightarrow> z ! (p + k * incr) = ds ! k"
  shows "(compare2pow63 z p incr < 0 \<longleftrightarrow> digits_val ds < 2 ^ 63) \<and>
    (compare2pow63 z p incr = 0 \<longleftrightarrow> digits_val ds = 2 ^ 63)"
proof -
  let ?hi = "take 18 ds" and ?c = "pow63_loop (\<lambda>i. z ! (p + i * incr)) 0 pow63"
  have split: "ds = ?hi @ [ds ! 18]"
    using len take_Suc_conv_app_nth [of 18 ds] by simp
  have last: "Isdigit (ds ! 18)" using dig len by (simp add: list_all_length)
  have c: "(?c < 0 \<longleftrightarrow> digits_val ?hi < 922337203685477580) \<and> (?c = 0 \<longleftrightarrow> digits_val ?hi = 922337203685477580)"
    using pow63_loop_sign [of ?hi pow63 "\<lambda>i. z ! (p + i * incr)" 0] len rd dig digits_val_pow63
    by (simp add: list_all_length)
  have val: "digits_val ds = digits_val ?hi * 10 + (unat (ds ! 18) - 48)"
    by (subst split) (simp add: digits_val_append)
  obtain n where n: "unat (ds ! 18) = n" "uint (ds ! 18) = int n" by simp
  have u: "48 \<le> n" "n \<le> 57" using last n(1) by (simp_all add: Isdigit_unat)
  have z18: "z ! (p + 18 * incr) = ds ! 18" using rd [of 18] by simp
  show ?thesis
  proof (cases "?c = 0")
    case True
    with c have "digits_val ?hi = 922337203685477580" by simp
    with True u show ?thesis by (simp add: compare2pow63_def Let_def z18 val n)
  next
    case False
    then have cmp: "compare2pow63 z p incr = ?c" by (simp add: compare2pow63_def Let_def)
    have "n - 48 \<le> 9" using u by simp
    consider "digits_val ?hi < 922337203685477580" | "922337203685477580 < digits_val ?hi"
      using c False by linarith
    then show ?thesis
    proof cases
      case 1
      with c \<open>n - 48 \<le> 9\<close> have "?c < 0" "digits_val ds < 2 ^ 63" by (simp_all add: val n)
      then show ?thesis by (simp add: cmp)
    next
      case 2
      with c \<open>n - 48 \<le> 9\<close> have "0 < ?c" "2 ^ 63 < digits_val ds" by (simp_all add: val n)
      then show ?thesis by (simp add: cmp)
    qed
  qed
qed

lemma units_drop: "0 < incr \<Longrightarrow> units z e incr (p + incr * k) = drop k (units z e incr p)"
proof (induction k arbitrary: p)
  case 0
  then show ?case by simp
next
  case (Suc k)
  show ?case
  proof (cases "p < e")
    case True
    with Suc show ?thesis by (simp add: units_step [of incr p] flip: add.assoc)
  next
    case False
    then have "\<not> p + incr * Suc k < e" by simp
    with False show ?thesis by (metis units_end drop_Nil)
  qed
qed

lemma takeWhile_digits:
  "takeWhile Isdigit xs = takeWhile (\<lambda>c. c = 48) xs @ takeWhile Isdigit (dropWhile (\<lambda>c. c = 48) xs)"
  "dropWhile Isdigit xs = dropWhile Isdigit (dropWhile (\<lambda>c. c = 48) xs)"
  by (induction xs) (auto simp: Isdigit_def)

lemma dropWhile_nonempty: "dropWhile P xs \<noteq> [] \<longleftrightarrow> list_ex (\<lambda>c. \<not> P c) xs"
  by (induction xs) auto

text \<open>The value and the verdict from the digits without their leading zeros.\<close>

lemma atoi_digits:
  assumes incr: "0 < incr" and ds: "ds = takeWhile Isdigit (units z e incr p)"
    and lead: "ds \<noteq> [] \<Longrightarrow> hd ds \<noteq> 48" and v: "v = int (digits_val ds)"
    and iu: "digit_loop z e incr p 0 0 = (i, u)"
  shows "i = incr * length ds"
    "(if i < 19 * incr then (rc, if int u > LARGEST_INT64 then (if neg then SMALLEST_INT64 else LARGEST_INT64)
                 else if neg then - int u else int u)
      else
        (let c = (if i > 19 * incr then 1 else compare2pow63 z p incr) in
            if c < 0 then (rc, if int u > LARGEST_INT64 then (if neg then SMALLEST_INT64 else LARGEST_INT64)
                 else if neg then - int u else int u)
            else (if c > 0 then 2 else if neg then rc else 3,
                  if neg then SMALLEST_INT64 else LARGEST_INT64))) =
     (if v > 2 ^ 63 then 2 else if v = 2 ^ 63 \<and> \<not> neg then 3 else rc,
      if neg then max SMALLEST_INT64 (- v) else min LARGEST_INT64 v)"
proof -
  have dig: "list_all Isdigit ds" unfolding ds by (simp add: list_all_iff) (meson set_takeWhileD)
  have iu': "i = incr * length ds" "u = digits_val ds mod 2 ^ 64"
    using digit_loop_units [OF incr, of ds z e p 0 0] ds iu by simp_all
  show "i = incr * length ds" by (rule iu'(1))
  have len: "i < 19 * incr \<longleftrightarrow> length ds < 19" "i > 19 * incr \<longleftrightarrow> length ds > 19"
    using incr by (auto simp: iu'(1) mult.commute)
  have L: "LARGEST_INT64 = 2 ^ 63 - 1" "SMALLEST_INT64 = - (2 ^ 63)" by (simp_all add: i64_defs)
  consider "length ds < 19" | "length ds = 19" | "19 < length ds" by linarith
  then show "(if i < 19 * incr then (rc, if int u > LARGEST_INT64 then (if neg then SMALLEST_INT64 else LARGEST_INT64)
                 else if neg then - int u else int u)
      else
        (let c = (if i > 19 * incr then 1 else compare2pow63 z p incr) in
            if c < 0 then (rc, if int u > LARGEST_INT64 then (if neg then SMALLEST_INT64 else LARGEST_INT64)
                 else if neg then - int u else int u)
            else (if c > 0 then 2 else if neg then rc else 3,
                  if neg then SMALLEST_INT64 else LARGEST_INT64))) =
     (if v > 2 ^ 63 then 2 else if v = 2 ^ 63 \<and> \<not> neg then 3 else rc,
      if neg then max SMALLEST_INT64 (- v) else min LARGEST_INT64 v)"
  proof cases
    case 1
    then have "(10 :: nat) ^ length ds \<le> 10 ^ 18" by (intro power_increasing) auto
    with digits_val_less [OF dig] have "digits_val ds < 10 ^ 18" by linarith
    with 1 show ?thesis by (auto simp: len L iu'(2) v)
  next
    case 2
    with digits_val_less [OF dig] have u: "u = digits_val ds" by (simp add: iu'(2))
    have "z ! (p + k * incr) = ds ! k" if "k < 19" for k
    proof -
      have "k < length ds" using 2 that by simp
      moreover from this have "k < length (units z e incr p)" using length_takeWhile_le ds by (metis less_le_trans)
      ultimately show ?thesis using units_nth [OF incr] ds takeWhile_nth by metis
    qed
    from compare2pow63_sign [OF 2 dig this]
    have "compare2pow63 z p incr < 0 \<longleftrightarrow> v < 2 ^ 63" "compare2pow63 z p incr = 0 \<longleftrightarrow> v = 2 ^ 63"
      by (simp_all add: v)
    then show ?thesis using 2 by (auto simp: len L v u Let_def)
  next
    case 3
    then obtain d ds' where d: "ds = d # ds'" by (cases ds) auto
    then have "10 ^ length ds' \<le> digits_val ds"
      using digits_val_ge [of d ds'] dig lead by simp
    moreover have "(10 :: nat) ^ 19 \<le> 10 ^ length ds'" using 3 d by (intro power_increasing) auto
    ultimately have "10 ^ 19 \<le> digits_val ds" by linarith
    then have "10 ^ 19 \<le> v" unfolding v by (simp flip: of_nat_le_iff)
    then show ?thesis using 3 by (simp add: len L)
  qed
qed

lemma Atoi64_units:
  assumes start: "atoi_setup z enc = (p0, e, incr, nonNum)" and incr: "0 < incr"
  shows "Atoi64 z enc = atoi_spec (units z e incr p0) nonNum"
proof -
  define s where "s = units z e incr p0"
  define p1 where "p1 = skip_while Isspace z e incr p0"
  define t where "t = dropWhile Isspace s"
  define neg where "neg = (p1 < e \<and> z ! p1 = 45)"
  define zStart where "zStart = (if p1 < e \<and> (z ! p1 = 45 \<or> z ! p1 = 43) then p1 + incr else p1)"
  define t' where "t' = (if t \<noteq> [] \<and> (hd t = 45 \<or> hd t = 43) then tl t else t)"
  define zNum where "zNum = skip_while (\<lambda>c. c = 48) z e incr zStart"
  define ds' where "ds' = takeWhile Isdigit (units z e incr zNum)"
  define rest where "rest = dropWhile Isdigit t'"
  obtain i u where iu: "digit_loop z e incr zNum 0 0 = (i, u)" by fastforce
  have t: "units z e incr p1 = t"
    unfolding p1_def t_def s_def using skip_units [OF incr] by blast
  have t_ne: "p1 < e \<longleftrightarrow> t \<noteq> []" using units_Nil [OF incr, of z e p1] t by blast
  have hd_t: "z ! p1 = hd t" if "t \<noteq> []" using units_step [OF incr, of p1 e z] t t_ne that by (metis list.sel(1))
  have neg: "neg = (t \<noteq> [] \<and> hd t = 45)" using t_ne hd_t by (auto simp: neg_def)
  have t': "units z e incr zStart = t'"
    using t t_ne hd_t units_step [OF incr, of p1 e z] by (auto simp: zStart_def t'_def)
  have zNum: "units z e incr zNum = dropWhile (\<lambda>c. c = 48) t'"
    "zNum = zStart + incr * length (takeWhile (\<lambda>c. c = 48) t')"
    unfolding zNum_def t' [symmetric] using skip_units [OF incr, of z e "\<lambda>c. c = 48" zStart] by blast+
  have ds: "takeWhile Isdigit t' = takeWhile (\<lambda>c. c = 48) t' @ ds'"
    using takeWhile_digits(1) [of t'] by (simp add: ds'_def zNum(1))
  have lead: "hd ds' \<noteq> 48" if "ds' \<noteq> []"
  proof -
    have ds'_eq: "ds' = takeWhile Isdigit (dropWhile (\<lambda>c. c = 48) t')" by (simp only: ds'_def zNum(1))
    show ?thesis
    proof (cases "dropWhile (\<lambda>c. c = 48) t'")
      case Nil
      then have "ds' = []" by (simp only: ds'_eq takeWhile.simps)
      with that show ?thesis by blast
    next
      case (Cons a as)
      then have "a \<noteq> 48" using hd_dropWhile [of "\<lambda>c. c = 48" t'] by auto
      then show ?thesis using that Cons by (simp add: ds'_eq split: if_splits)
    qed
  qed
  have val: "digits_val (takeWhile Isdigit t') = digits_val ds'"
    by (subst ds) (rule digits_val_zeros, simp add: list_all_iff, meson set_takeWhileD)
  note main = atoi_digits [OF incr ds'_def lead refl iu]
  have rest: "units z e incr (zNum + i) = rest"
  proof -
    have "units z e incr (zNum + i) = drop (length ds') (units z e incr zNum)"
      using units_drop [OF incr] main(1) by simp
    also have "\<dots> = dropWhile Isdigit (units z e incr zNum)" by (simp add: ds'_def dropWhile_eq_drop)
    finally show ?thesis using takeWhile_digits(2) [of t'] by (simp add: zNum(1) rest_def)
  qed
  have nodigits: "i = 0 \<and> zStart = zNum \<longleftrightarrow> takeWhile Isdigit t' = []"
    using incr main(1) zNum(2) by (auto simp: ds)
  have trailing: "zNum + i < e \<and> skip_while Isspace z e incr (zNum + i) < e \<longleftrightarrow>
      list_ex (\<lambda>c. \<not> Isspace c) rest"
  proof -
    have "skip_while Isspace z e incr (zNum + i) < e \<longleftrightarrow> dropWhile Isspace rest \<noteq> []"
      using skip_units [OF incr, of z e Isspace "zNum + i"] units_Nil [OF incr] rest by metis
    moreover have "zNum + i \<le> skip_while Isspace z e incr (zNum + i)"
      using skip_units [OF incr, of z e Isspace "zNum + i"] by simp
    ultimately show ?thesis unfolding dropWhile_nonempty by (meson le_less_trans)
  qed
  have "Atoi64 z enc =
     (let v = int (digits_val ds');
          rc = (if takeWhile Isdigit t' = [] then -1 else if nonNum then 1
                else if list_ex (\<lambda>c. \<not> Isspace c) rest then 1 else 0)
      in (if v > 2 ^ 63 then 2 else if v = 2 ^ 63 \<and> \<not> neg then 3 else rc,
          if neg then max SMALLEST_INT64 (- v) else min LARGEST_INT64 v))"
    unfolding Atoi64_def start prod.case Let_def
      p1_def [symmetric] neg_def [symmetric] zStart_def [symmetric] zNum_def [symmetric] iu
      nodigits trailing
    by (rule main(2) [unfolded Let_def])
  also have "\<dots> = atoi_spec s nonNum"
  proof (cases "takeWhile Isdigit t' = []")
    case True
    then have "digits_val ds' = 0" using val by simp
    with True show ?thesis
      unfolding atoi_spec_def Let_def t_def [symmetric] t'_def [symmetric] rest_def [symmetric]
        neg [symmetric] val by simp
  next
    case False
    then show ?thesis
      unfolding atoi_spec_def Let_def t_def [symmetric] t'_def [symmetric] rest_def [symmetric]
        neg [symmetric] val by simp
  qed
  finally show ?thesis by (simp only: s_def)
qed

lemma units_one: "units (pre @ s) (length pre + length s) 1 (length pre) = s"
proof (induction s arbitrary: pre)
  case Nil
  then show ?case by (simp add: units_end)
next
  case (Cons c s)
  from Cons [of "pre @ [c]"] show ?case by (simp add: units_step nth_append)
qed

lemma Atoi64_utf8: "Atoi64 z SQLITE_UTF8 = atoi_spec z False"
  using Atoi64_units [of z 1 0 "length z" 1 False] units_one [of "[]" z]
  by (simp add: atoi_setup_def)

text \<open>UTF-16 text whose high bytes are zero, in the two byte orders.\<close>

definition utf16le :: "u8 list \<Rightarrow> u8 list" where "utf16le s = concat (map (\<lambda>c. [c, 0]) s)"
definition utf16be :: "u8 list \<Rightarrow> u8 list" where "utf16be s = concat (map (\<lambda>c. [0, c]) s)"

lemma utf16_simps [simp]:
  "utf16le [] = []" "utf16le (c # s) = c # 0 # utf16le s" "length (utf16le s) = 2 * length s"
  "utf16be [] = []" "utf16be (c # s) = 0 # c # utf16be s" "length (utf16be s) = 2 * length s"
proof -
  show "length (utf16le s) = 2 * length s" "length (utf16be s) = 2 * length s"
    by (induction s) (simp_all add: utf16le_def utf16be_def)
qed (simp_all add: utf16le_def utf16be_def)

lemma skip_stop: "\<not> (p < e \<and> P (z ! p)) \<Longrightarrow> skip_while P z e incr p = p"
  by (subst skip_while.simps) auto

lemma skip_go: "0 < incr \<Longrightarrow> p < e \<Longrightarrow> P (z ! p) \<Longrightarrow> skip_while P z e incr p = skip_while P z e incr (p + incr)"
  by (subst skip_while.simps) simp

lemma skip_le:
  "length pre + 2 * length s \<le> e \<Longrightarrow>
   skip_while (\<lambda>c. c = 0) (pre @ utf16le s @ post) e 2 (length pre + 1) =
     skip_while (\<lambda>c. c = 0) (pre @ utf16le s @ post) e 2 (length pre + 2 * length s + 1)"
proof (induction s arbitrary: pre)
  case Nil
  then show ?case by simp
next
  case (Cons c s)
  have "skip_while (\<lambda>c. c = 0) (pre @ utf16le (c # s) @ post) e 2 (length pre + 1) =
      skip_while (\<lambda>c. c = 0) (pre @ utf16le (c # s) @ post) e 2 (length pre + 1 + 2)"
    using Cons.prems by (intro skip_go) (simp_all add: nth_append)
  with Cons.IH [of "pre @ [c, 0]"] Cons.prems show ?case by simp
qed

lemma skip_be:
  "length pre + 2 * length s \<le> e \<Longrightarrow>
   skip_while (\<lambda>c. c = 0) (pre @ utf16be s @ post) e 2 (length pre) =
     skip_while (\<lambda>c. c = 0) (pre @ utf16be s @ post) e 2 (length pre + 2 * length s)"
proof (induction s arbitrary: pre)
  case Nil
  then show ?case by simp
next
  case (Cons c s)
  have "skip_while (\<lambda>c. c = 0) (pre @ utf16be (c # s) @ post) e 2 (length pre) =
      skip_while (\<lambda>c. c = 0) (pre @ utf16be (c # s) @ post) e 2 (length pre + 2)"
    using Cons.prems by (intro skip_go) (simp_all add: nth_append)
  with Cons.IH [of "pre @ [0, c]"] Cons.prems show ?case by simp
qed

lemma units_le:
  "e = length pre + 2 * length s \<Longrightarrow> units (pre @ utf16le s @ post) e 2 (length pre) = s"
proof (induction s arbitrary: pre)
  case Nil
  then show ?case by (simp add: units_end)
next
  case (Cons c s)
  from Cons.IH [of "pre @ [c, 0]"] Cons.prems show ?case by (simp add: units_step nth_append)
qed

lemma units_be:
  "e = length pre + 2 * length s + 1 \<Longrightarrow> units (pre @ utf16be s @ post) e 2 (length pre + 1) = s"
proof (induction s arbitrary: pre)
  case Nil
  then show ?case by (simp add: units_end)
next
  case (Cons c s)
  from Cons.IH [of "pre @ [0, c]"] Cons.prems show ?case by (simp add: units_step nth_append)
qed

lemma even_part_gt: "2 \<le> m \<Longrightarrow> 1 < m - m mod (2 :: nat)"
  by presburger

lemma Atoi64_utf16le:
  "post = [] \<or> (\<exists>c h r. post = c # h # r \<and> h \<noteq> 0) \<Longrightarrow>
   Atoi64 (utf16le s @ post) SQLITE_UTF16LE = atoi_spec s (post \<noteq> [])"
proof -
  assume post: "post = [] \<or> (\<exists>c h r. post = c # h # r \<and> h \<noteq> 0)"
  let ?z = "utf16le s @ post" and ?n = "2 * length s"
  let ?e = "length ?z - length ?z mod 2"
  have n: "?n \<le> ?e" "post \<noteq> [] \<longleftrightarrow> ?n + 1 < ?e" "post = [] \<Longrightarrow> ?e = ?n"
  proof -
    have e: "?e = ?n + (length post - length post mod 2)"
      by (simp add: Nat.add_diff_assoc mod_less_eq_dividend)
    show "?n \<le> ?e" "post = [] \<Longrightarrow> ?e = ?n" by (simp_all only: e) simp_all
    have "1 < length post - length post mod 2" if "post \<noteq> []"
    proof -
      have "2 \<le> length post" using post that by auto
      then show ?thesis by (rule even_part_gt)
    qed
    then show "post \<noteq> [] \<longleftrightarrow> ?n + 1 < ?e" unfolding e by (cases "post = []") simp_all
  qed
  have "skip_while (\<lambda>c. c = 0) ?z ?e 2 1 = ?n + 1"
    using skip_le [of "[]" s ?e post] n(1) post n(2)
    by (auto simp: skip_stop nth_append)
  then have "atoi_setup ?z SQLITE_UTF16LE = (0, ?n, 2, post \<noteq> [])"
    using n by (simp add: atoi_setup_def Let_def)
  with Atoi64_units units_le [of ?n "[]" s post] show ?thesis by simp
qed

lemma Atoi64_utf16be:
  "post = [] \<or> (\<exists>h c r. post = h # c # r \<and> h \<noteq> 0) \<Longrightarrow>
   Atoi64 (utf16be s @ post) SQLITE_UTF16BE = atoi_spec s (post \<noteq> [])"
proof -
  assume post: "post = [] \<or> (\<exists>h c r. post = h # c # r \<and> h \<noteq> 0)"
  let ?z = "utf16be s @ post" and ?n = "2 * length s"
  let ?e = "length ?z - length ?z mod 2"
  have n: "?n \<le> ?e" "post \<noteq> [] \<longleftrightarrow> ?n < ?e" "post = [] \<Longrightarrow> ?e = ?n"
  proof -
    have e: "?e = ?n + (length post - length post mod 2)"
      by (simp add: Nat.add_diff_assoc mod_less_eq_dividend)
    show "?n \<le> ?e" "post = [] \<Longrightarrow> ?e = ?n" by (simp_all only: e) simp_all
    have "1 < length post - length post mod 2" if "post \<noteq> []"
    proof -
      have "2 \<le> length post" using post that by auto
      then show ?thesis by (rule even_part_gt)
    qed
    then show "post \<noteq> [] \<longleftrightarrow> ?n < ?e" unfolding e by (cases "post = []") fastforce+
  qed
  have "skip_while (\<lambda>c. c = 0) ?z ?e 2 0 = ?n"
    using skip_be [of "[]" s ?e post] n(1) post n(2)
    by (auto simp: skip_stop nth_append)
  then have "atoi_setup ?z SQLITE_UTF16BE = (1, ?n + 1, 2, post \<noteq> [])"
    using n by (simp add: atoi_setup_def Let_def)
  with Atoi64_units units_be [of "?n + 1" "[]" s post] show ?thesis by simp
qed

text \<open>
  C36. Parsing a 64-bit integer computes the reference in all three encodings: the value of the
  digits, saturated, with the result code that says no digits, trailing text, overflow or the
  boundary value \<open>2 ^ 63\<close>. For UTF-16, \<open>post\<close> starts at the first character with a non-zero high
  byte; parsing stops there and says so.
\<close>

theorem atoi64_computes_value:
  "Atoi64 z SQLITE_UTF8 = atoi_spec z False \<and>
   (le = [] \<or> (\<exists>c h r. le = c # h # r \<and> h \<noteq> 0) \<longrightarrow>
      Atoi64 (utf16le z @ le) SQLITE_UTF16LE = atoi_spec z (le \<noteq> [])) \<and>
   (be = [] \<or> (\<exists>h c r. be = h # c # r \<and> h \<noteq> 0) \<longrightarrow>
      Atoi64 (utf16be z @ be) SQLITE_UTF16BE = atoi_spec z (be \<noteq> []))"
  using Atoi64_utf8 [of z] Atoi64_utf16le [of le z] Atoi64_utf16be [of be z] by blast

theorem atoi64_computes_value_witness:
  "Atoi64 (utf16le [45, 49, 50]) SQLITE_UTF16LE = (0, - 12) \<and>
   Atoi64 (utf16be [49, 50] @ [4, 17]) SQLITE_UTF16BE = (1, 12)"
proof -
  have "atoi_spec [45, 49, 50] False = (0, - 12)" "atoi_spec [49, 50] True = (1, 12)" by code_simp+
  then show ?thesis
    using atoi64_computes_value [of "[45, 49, 50]" "[]"] atoi64_computes_value [of "[49, 50]" _ "[4, 17]"]
    by simp
qed

section \<open>Rendering and parsing\<close>

lemma digit_char: "d < 10 \<Longrightarrow> unat ((word_of_nat d :: u8) + 48) = d + 48"
proof -
  assume "d < 10"
  then have "unat (word_of_nat d :: u8) = d" by (simp add: unsigned_of_nat take_bit_nat_eq_self)
  with \<open>d < 10\<close> show ?thesis by (simp add: unat_word_ariths)
qed

lemma text_loop_val:
  "list_all Isdigit zs \<Longrightarrow>
   list_all Isdigit (text_loop x zs) \<and> text_loop x zs \<noteq> [] \<and>
   digits_val (text_loop x zs) = x * 10 ^ length zs + digits_val zs"
proof (induction x zs rule: text_loop.induct)
  case (1 x zs)
  let ?d = "(word_of_nat (x mod 10) + 48 :: u8)"
  have d: "unat ?d = x mod 10 + 48" by (rule digit_char) simp
  then have dig: "Isdigit ?d" by (simp add: Isdigit_unat)
  show ?case
  proof (cases "x div 10 = 0")
    case True
    then have "x mod 10 = x" by (simp add: div_eq_0_iff)
    with True d dig "1.prems" show ?thesis by (simp add: text_loop.simps [of x])
  next
    case False
    then have step: "text_loop x zs = text_loop (x div 10) (?d # zs)"
      by (simp add: text_loop.simps [of x] Let_def)
    have "x * 10 ^ length zs = (x div 10 * 10 + x mod 10) * 10 ^ length zs" by simp
    with "1.IH" [OF refl False] "1.prems" dig d show ?thesis
      unfolding step by (simp only: digits_val_simps length_Cons power_Suc distrib_right mult.assoc) simp
  qed
qed

lemma Atoi64_text:
  assumes "in_i64 v"
  shows "Atoi64 (Int64ToText v) SQLITE_UTF8 = (0, v)"
proof -
  obtain x where rendered: "Int64ToText v = (if v < 0 then 45 # text_loop x [] else text_loop x [])"
    and x: "int x = \<bar>v\<bar>"
    by (cases "v < 0"; cases "v = SMALLEST_INT64") (auto simp: Int64ToText_def Let_def i64_defs)
  let ?ds = "text_loop x []"
  have ds: "list_all Isdigit ?ds" "?ds \<noteq> []" "digits_val ?ds = x"
    using text_loop_val [of "[]" x] by simp_all
  obtain d ds' where cons: "?ds = d # ds'" using ds(2) by (cases ?ds) auto
  have not_sp: "\<not> Isspace d" "d \<noteq> 45" "d \<noteq> 43"
    using ds(1) cons by (auto simp: Isdigit_def Isspace_def word_le_nat_alt)
  have take: "takeWhile Isdigit ?ds = ?ds" "dropWhile Isdigit ?ds = []"
    using ds(1) by (simp_all add: list_all_iff)
  have L: "LARGEST_INT64 = 2 ^ 63 - 1" "SMALLEST_INT64 = - (2 ^ 63)" by (simp_all add: i64_defs)
  show ?thesis
  proof (cases "v < 0")
    case True
    then have "Int64ToText v = 45 # ?ds" by (simp add: rendered)
    moreover have "atoi_spec (45 # ?ds) False = (0, v)"
      using True x assms L ds(2) by (simp add: atoi_spec_def Let_def Isspace_def in_i64_def take ds(3))
    ultimately show ?thesis by (simp only: Atoi64_utf8)
  next
    case False
    then have "Int64ToText v = ?ds" by (simp add: rendered)
    moreover have "atoi_spec ?ds False = (0, v)"
      using False take ds(2,3) x assms L not_sp cons by (simp add: atoi_spec_def Let_def in_i64_def)
    ultimately show ?thesis by (simp only: Atoi64_utf8)
  qed
qed

text \<open>
  C37. Rendering a 64-bit integer as text and parsing the text gives the integer back with result
  code 0, for all values, the smallest included.
\<close>

theorem int64_text_roundtrip:
  assumes "in_i64 v"
  shows "Atoi64 (Int64ToText v) SQLITE_UTF8 = (0, v)"
  using assms by (rule Atoi64_text)

theorem int64_text_roundtrip_witness:
  "Atoi64 (Int64ToText (- 9223372036854775808)) SQLITE_UTF8 = (0, - 9223372036854775808)"
  by (rule int64_text_roundtrip) (simp add: i64_defs)

section \<open>The 32-bit and hexadecimal forms\<close>

text \<open>
  These take zero-terminated strings: \<open>ch z i\<close> is \<open>z[i]\<close>, zero at the end. A loop over a class of
  characters is the longest prefix in the class.
\<close>

definition ch :: "u8 list \<Rightarrow> nat \<Rightarrow> u8" where
  "ch z i = (if i < length z then z ! i else 0)"

definition hex_val :: "u8 list \<Rightarrow> nat" where
  "hex_val ds = foldl (\<lambda>u d. u * 16 + unat (HexToInt d)) 0 ds"

definition is_hex_prefix :: "u8 list \<Rightarrow> bool" where
  "is_hex_prefix z \<longleftrightarrow> ch z 0 = 48 \<and> (ch z 1 = 120 \<or> ch z 1 = 88)"

text \<open>\<open>sqlite3GetInt32\<close>: the value, or \<open>None\<close> for the return value 0.\<close>

definition GetInt32 :: "u8 list \<Rightarrow> int option" where
  "GetInt32 zNum =
     (let neg = (ch zNum 0 = 45) in
      if \<not> (ch zNum 0 = 45 \<or> ch zNum 0 = 43) \<and> is_hex_prefix zNum \<and> Isxdigit (ch zNum 2) then
        (let z = dropWhile (\<lambda>c. c = 48) (drop 2 zNum);
             ds = takeWhile Isxdigit (take 8 z); u = hex_val ds mod 2 ^ 32
         in if u < 2 ^ 31 \<and> \<not> Isxdigit (ch z (length ds)) then Some (int u) else None)
      else
        (let z0 = (if ch zNum 0 = 45 \<or> ch zNum 0 = 43 then drop 1 zNum else zNum) in
         if \<not> Isdigit (ch z0 0) then None
         else
           (let z = dropWhile (\<lambda>c. c = 48) z0;
                ds = takeWhile Isdigit (take 11 z);
                v = int (digits_val ds)
            in if length ds > 10 then None
               else if v - (if neg then 1 else 0) > 2147483647 then None
               else Some (if neg then - v else v))))"

text \<open>\<open>sqlite3GetUInt32\<close>: return value and \<open>*pI\<close>.\<close>

fun uint32_loop :: "u8 list \<Rightarrow> nat \<Rightarrow> nat \<Rightarrow> nat \<times> nat" where
  "uint32_loop [] i v = (if i = 0 then (0, 0) else (1, v mod 2 ^ 32))"
| "uint32_loop (c # z) i v =
     (if Isdigit c then
        (let v' = (v * 10 + unat c - 48) mod 2 ^ 64 in
         if v' > 4294967296 then (0, 0) else uint32_loop z (i + 1) v')
      else if i = 0 \<or> c \<noteq> 0 then (0, 0) else (1, v mod 2 ^ 32))"

definition GetUInt32 :: "u8 list \<Rightarrow> nat \<times> nat" where
  "GetUInt32 z = uint32_loop z 0 0"

text \<open>\<open>sqlite3DecOrHexToI64\<close>; the hexadecimal digits are read as an unsigned number modulo \<open>2 ^ 64\<close>.\<close>

definition as_i64 :: "nat \<Rightarrow> int" where
  "as_i64 u = (if u < 2 ^ 63 then int u else int u - 2 ^ 64)"

definition strspn_set :: "u8 \<Rightarrow> bool" where
  "strspn_set c \<longleftrightarrow> c = 43 \<or> c = 45 \<or> c = 32 \<or> c = 10 \<or> c = 9 \<or> Isdigit c"

definition DecOrHexToI64 :: "u8 list \<Rightarrow> int \<times> int" where
  "DecOrHexToI64 z =
     (if is_hex_prefix z then
        (let z' = dropWhile (\<lambda>c. c = 48) (drop 2 z);
             ds = takeWhile Isxdigit z'
         in (if length ds > 16 then 2 else if ch z' (length ds) \<noteq> 0 then 1 else 0,
             as_i64 (hex_val ds mod 2 ^ 64)))
      else
        (let n = length (takeWhile strspn_set z) mod 2 ^ 30;
             n' = (if ch z n \<noteq> 0 then n + 1 else n)
         in Atoi64 (take n' z) SQLITE_UTF8))"

lemma list_all_take: "list_all P xs \<Longrightarrow> list_all P (take n xs)"
  by (auto simp: list_all_iff dest: in_set_takeD)

lemma list_all_dropWhile: "list_all P xs \<Longrightarrow> list_all P (dropWhile Q xs)"
  by (auto simp: list_all_iff dest: set_dropWhileD)

lemma drop_zeros_append:
  "list_all Isdigit ds \<Longrightarrow> rest = [] \<or> \<not> Isdigit (hd rest) \<Longrightarrow>
   dropWhile (\<lambda>c. c = 48) (ds @ rest) = dropWhile (\<lambda>c. c = 48) ds @ rest"
proof (induction ds)
  case Nil
  then show ?case by (cases rest) (auto simp: Isdigit_def)
qed auto

lemma take_digits:
  assumes "list_all Isdigit ds" "rest = [] \<or> \<not> Isdigit (hd rest)"
  shows "takeWhile Isdigit (take n (ds @ rest)) = take n ds"
proof -
  have "takeWhile Isdigit (take n ds @ take m rest) = take n ds" if "m = n - length ds" for m
  proof (cases "take m rest")
    case Nil
    have "\<forall>x\<in>set (take n ds). Isdigit x" using assms(1) by (auto simp: list_all_iff dest: in_set_takeD)
    then show ?thesis unfolding Nil by simp
  next
    case (Cons c r)
    then have "\<not> Isdigit c" using assms(2) by (cases m; cases rest) auto
    moreover have "\<forall>x\<in>set (take n ds). Isdigit x" using assms(1) by (auto simp: list_all_iff dest: in_set_takeD)
    ultimately show ?thesis using Cons by (simp add: takeWhile_tail)
  qed
  then show ?thesis by simp
qed

lemma dropWhile_zeros_val: "digits_val (dropWhile (\<lambda>c. c = 48) ds) = digits_val ds"
  by (induction ds) auto

lemma GetInt32_digits:
  assumes dig: "list_all Isdigit ds" and rest: "rest = [] \<or> \<not> Isdigit (hd rest)" and ne: "ds \<noteq> []"
  shows "(let z = dropWhile (\<lambda>c. c = 48) (ds @ rest); es = takeWhile Isdigit (take 11 z); v = int (digits_val es)
     in if length es > 10 then None
        else if v - (if neg then 1 else 0) > 2147483647 then None
        else Some (if neg then - v else v)) =
     (let v = int (digits_val ds) in
      if v - (if neg then 1 else 0) \<le> 2147483647 then Some (if neg then - v else v) else None)"
proof -
  let ?es = "dropWhile (\<lambda>c. c = 48) ds"
  have es: "list_all Isdigit ?es" "digits_val ?es = digits_val ds"
    using dig by (simp_all add: list_all_dropWhile dropWhile_zeros_val)
  have take: "takeWhile Isdigit (take 11 (dropWhile (\<lambda>c. c = 48) (ds @ rest))) = take 11 ?es"
    using drop_zeros_append [OF dig rest] take_digits [OF es(1) rest] by simp
  show ?thesis
  proof (cases "length ?es \<le> 10")
    case True
    then show ?thesis by (simp add: take es(2) Let_def not_le)
  next
    case False
    then obtain d es' where d: "?es = d # es'" by (cases ?es) auto
    then have "d \<noteq> 48" using hd_dropWhile [of "\<lambda>c. c = 48" ds] by auto
    then have "10 ^ length es' \<le> digits_val ds" using digits_val_ge [of d es'] es d by simp
    moreover have "(10 :: nat) ^ 10 \<le> 10 ^ length es'" using False d by (intro power_increasing) auto
    ultimately have "(10 :: nat) ^ 10 \<le> digits_val ds" by linarith
    then have "10 ^ 10 \<le> int (digits_val ds)" by (simp flip: of_nat_le_iff)
    then show ?thesis using False by (simp add: take Let_def)
  qed
qed

text \<open>
  The 32-bit parser accepts an optional sign and digits followed by anything that is not a
  digit, exactly when the value fits in a signed 32-bit integer, and returns that value; the
  number of leading zeros does not matter.
\<close>

theorem getint32_value:
  assumes "list_all Isdigit ds" "ds \<noteq> []" "rest = [] \<or> \<not> Isdigit (hd rest)"
    and "v = (if sg = [45] then - int (digits_val ds) else int (digits_val ds))"
    and "sg = [45] \<or> sg = [43] \<or> sg = [] \<and> \<not> is_hex_prefix (ds @ rest)"
  shows "GetInt32 (sg @ ds @ rest) = (if - (2 ^ 31) \<le> v \<and> v < 2 ^ 31 then Some v else None)"
proof -
  obtain d ds' where d: "ds = d # ds'" using assms(2) by (cases ds) auto
  have dig: "Isdigit (ch (ds @ rest) 0)" "d \<noteq> 45" "d \<noteq> 43"
    using assms(1) d by (auto simp: ch_def Isdigit_def word_le_nat_alt)
  have c0: "ch (ds @ rest) 0 = d" by (simp add: d ch_def)
  note main = GetInt32_digits [OF assms(1,3,2)]
  from assms(5) show ?thesis
  proof (elim disjE conjE)
    assume s: "sg = [45]"
    have "GetInt32 (45 # ds @ rest) = (let v = int (digits_val ds) in
      if v - 1 \<le> 2147483647 then Some (- v) else None)"
      using main [of True] dig(1) unfolding GetInt32_def by (simp add: ch_def)
    then show ?thesis using s assms(4) by (auto simp: Let_def)
  next
    assume s: "sg = [43]"
    have "GetInt32 (43 # ds @ rest) = (let v = int (digits_val ds) in
      if v \<le> 2147483647 then Some v else None)"
      using main [of False] dig(1) unfolding GetInt32_def by (simp add: ch_def)
    then show ?thesis using s assms(4) by (auto simp: Let_def)
  next
    assume s: "sg = []" and "\<not> is_hex_prefix (ds @ rest)"
    then have "GetInt32 (ds @ rest) = (let v = int (digits_val ds) in
      if v \<le> 2147483647 then Some v else None)"
      using main [of False] dig by (simp add: GetInt32_def c0 Let_def)
    then show ?thesis using s assms(4) by (auto simp: Let_def)
  qed
qed

theorem getint32_value_witness: "GetInt32 [45, 50, 49, 52, 55, 52, 56, 51, 54, 52, 56, 32] = Some (- 2147483648)"
  using getint32_value [of "[50, 49, 52, 55, 52, 56, 51, 54, 52, 56]" "[32]" "- 2147483648" "[45]"]
  by (simp add: Isdigit_def)

lemma uint32_loop_digits:
  "list_all Isdigit ds \<Longrightarrow> v \<le> 2 ^ 32 \<Longrightarrow>
   uint32_loop (ds @ rest) i v =
     (let t = v * 10 ^ length ds + digits_val ds in
      if t \<le> 2 ^ 32 then uint32_loop rest (i + length ds) t else (0, 0))"
proof (induction ds arbitrary: i v)
  case Nil
  then show ?case by simp
next
  case (Cons d ds)
  have d: "Isdigit d" "48 \<le> unat d" "unat d \<le> 57" using Cons.prems by (simp_all add: Isdigit_unat)
  let ?v = "v * 10 + (unat d - 48)"
  have v: "(v * 10 + unat d - 48) mod 2 ^ 64 = ?v"
    using d Cons.prems(2) by simp
  have t: "v * 10 ^ length (d # ds) + digits_val (d # ds) = ?v * 10 ^ length ds + digits_val ds"
    by (simp add: distrib_right)
  show ?case
  proof (cases "?v \<le> 2 ^ 32")
    case True
    with Cons.IH [of ?v "i + 1"] Cons.prems(1) d(1) v show ?thesis
      unfolding t by (simp add: Let_def)
  next
    case False
    have "w \<le> w * 10 ^ length ds + digits_val ds" for w :: nat
      by (rule order_trans [of _ "w * 10 ^ length ds"]) simp_all
    from this [of ?v] False have "\<not> ?v * 10 ^ length ds + digits_val ds \<le> 2 ^ 32" by (meson le_trans)
    with False d(1,2) v show ?thesis unfolding t by (simp add: Let_def)
  qed
qed

text \<open>
  C39. The unsigned 32-bit parser accepts exactly the digit strings with a value of at most
  \<open>2 ^ 32\<close>, nothing before or after them, and returns the value modulo \<open>2 ^ 32\<close>. Its bound is one
  too large: the text \<open>4294967296\<close> is reported as a success with the value 0.
\<close>

theorem getuint32_accepts:
  assumes "list_all Isdigit ds"
  shows "GetUInt32 ds =
      (if ds \<noteq> [] \<and> digits_val ds \<le> 2 ^ 32 then (1, digits_val ds mod 2 ^ 32) else (0, 0)) \<and>
    (\<not> Isdigit c \<and> c \<noteq> 0 \<longrightarrow> GetUInt32 (ds @ c # rest) = (0, 0))"
  using uint32_loop_digits [OF assms, of 0 "[]" 0] uint32_loop_digits [OF assms, of 0 "c # rest" 0]
  by (auto simp: GetUInt32_def Let_def)

theorem getuint32_accepts_witness:
  "GetUInt32 [52, 50, 57, 52, 57, 54, 55, 50, 57, 54] = (1, 0)"
  using getuint32_accepts [of "[52, 50, 57, 52, 57, 54, 55, 50, 57, 54]" 1 "[]"]
  by (simp add: Isdigit_def)

lemma text_loop_length: "x < 10 ^ k \<Longrightarrow> 1 \<le> k \<Longrightarrow> length (text_loop x zs) \<le> k + length zs"
proof (induction k arbitrary: x zs)
  case 0
  then show ?case by simp
next
  case (Suc k)
  show ?case
  proof (cases "x div 10 = 0")
    case True
    then show ?thesis by (simp add: text_loop.simps [of x])
  next
    case False
    then have step: "text_loop x zs = text_loop (x div 10) ((word_of_nat (x mod 10) + 48) # zs)"
      by (simp add: text_loop.simps [of x] Let_def)
    have "x div 10 < 10 ^ k" using Suc.prems(1) by (simp add: less_mult_imp_div_less mult.commute)
    moreover from this False have "1 \<le> k" by (cases k) auto
    ultimately show ?thesis unfolding step using Suc.IH [of "x div 10" "(word_of_nat (x mod 10) + 48) # zs"] by simp
  qed
qed

lemma Int64ToText_chars:
  assumes "in_i64 v"
  shows "list_all strspn_set (Int64ToText v)" "length (Int64ToText v) \<le> 20" "\<not> is_hex_prefix (Int64ToText v)"
proof -
  obtain x where z: "Int64ToText v = (if v < 0 then 45 # text_loop x [] else text_loop x [])"
    and x: "int x = \<bar>v\<bar>"
    by (cases "v < 0"; cases "v = SMALLEST_INT64") (auto simp: Int64ToText_def Let_def i64_defs)
  have ds: "list_all Isdigit (text_loop x [])" using text_loop_val [of "[]" x] by simp
  then show "list_all strspn_set (Int64ToText v)"
    unfolding z by (auto simp: list_all_iff strspn_set_def)
  have "int x < 10 ^ 19" using x assms by (simp add: i64_defs abs_if split: if_splits)
  then have "x < 10 ^ 19" by simp
  from text_loop_length [OF this, of "[]"] show "length (Int64ToText v) \<le> 20" unfolding z by simp
  have "ch (Int64ToText v) 1 = 0 \<or> Isdigit (ch (Int64ToText v) 1)"
    using ds unfolding z by (cases "text_loop x []"; cases "tl (text_loop x [])") (auto simp: ch_def)
  then show "\<not> is_hex_prefix (Int64ToText v)"
    by (auto simp: is_hex_prefix_def Isdigit_def word_le_nat_alt)
qed

text \<open>
  C38. The parser for literals reads a hexadecimal literal of at most sixteen significant digits as
  a two's complement number, reports more digits as an overflow and trailing text as such;
  anything the renderer produces it reads back exactly.
\<close>

theorem dec_or_hex_value:
  assumes "list_all Isxdigit ds" "ds = [] \<or> hd ds \<noteq> 48" "rest = [] \<or> \<not> Isxdigit (hd rest)"
    and "x = 120 \<or> x = 88" "rest = [] \<or> hd rest \<noteq> 48" "is_cstr rest" "in_i64 v"
  shows "DecOrHexToI64 (48 # x # replicate n 48 @ ds @ rest) =
      (if length ds > 16 then 2 else if rest \<noteq> [] then 1 else 0, as_i64 (hex_val ds mod 2 ^ 64)) \<and>
    DecOrHexToI64 (Int64ToText v) = (0, v)"
proof
  let ?z = "48 # x # replicate n 48 @ ds @ rest"
  have "dropWhile (\<lambda>c. c = 48) (replicate n 48 @ ds @ rest) = ds @ rest"
    using assms(2,5) by (induction n; cases ds; cases rest) auto
  moreover have "takeWhile Isxdigit (ds @ rest) = ds"
    using assms(1,3) by (cases rest) (auto simp: list_all_iff takeWhile_tail)
  moreover have "ch (ds @ rest) (length ds) \<noteq> 0 \<longleftrightarrow> rest \<noteq> []"
    using assms(6) by (cases rest) (auto simp: ch_def)
  moreover have "is_hex_prefix ?z" using assms(4) by (auto simp: is_hex_prefix_def ch_def)
  ultimately show "DecOrHexToI64 ?z =
      (if length ds > 16 then 2 else if rest \<noteq> [] then 1 else 0, as_i64 (hex_val ds mod 2 ^ 64))"
    by (simp add: DecOrHexToI64_def Let_def)
next
  let ?t = "Int64ToText v"
  note t = Int64ToText_chars [OF assms(7)]
  have "takeWhile strspn_set ?t = ?t" using t(1) by (simp add: list_all_iff)
  then have "length (takeWhile strspn_set ?t) = length ?t" by (rule arg_cong)
  then have n: "length (takeWhile strspn_set ?t) mod 2 ^ 30 = length ?t"
    using t(2) by (simp only: mod_less less_trans [of _ 21 "2 ^ 30"]) simp
  have "ch ?t (length ?t) = 0" by (simp add: ch_def)
  then have "DecOrHexToI64 ?t = Atoi64 ?t SQLITE_UTF8"
    unfolding DecOrHexToI64_def n Let_def using t(3) by simp
  then show "DecOrHexToI64 ?t = (0, v)" using Atoi64_text [OF assms(7)] by simp
qed

theorem dec_or_hex_value_witness:
  "DecOrHexToI64 [48, 120, 48, 102, 70] = (0, 255) \<and> DecOrHexToI64 (Int64ToText (- 7)) = (0, - 7)"
proof -
  have "hex_val [102, 70] = 255" by code_simp
  then show ?thesis
    using dec_or_hex_value [of "[102, 70]" "[]" 120 "- 7" 1]
    by (simp add: Isxdigit_def i64_defs as_i64_def)
qed

end
