(* ===== verification/Disk.thy ===== *)
theory Disk
  imports Util_Arith
begin

text \<open>
  The files of the pager and what a crash can leave of them. The journal is a sequence of bytes,
  the database file a sequence of pages (the pager writes whole pages at page boundaries and
  cuts the file at page boundaries). A write is durable only after the next sync of its file.
  Until then a crash may apply it, lose it, or, if it crosses a sector boundary, leave
  anything in the place it covers; writes within one sector are all or nothing, and the bytes
  of a hole are zero. This is the assumption under which \<open>pager.c\<close> documents its \<open>FULL\<close> mode.
\<close>

section \<open>Bytes of a file\<close>

definition os_write :: "u8 list \<Rightarrow> nat \<Rightarrow> u8 list \<Rightarrow> u8 list" where
  "os_write f off bs = take off (f @ replicate (off - length f) 0) @ bs @ drop (off + length bs) f"

text \<open>\<open>None\<close> is the short read.\<close>

definition os_read :: "u8 list \<Rightarrow> nat \<Rightarrow> nat \<Rightarrow> u8 list option" where
  "os_read f n off = (if off + n \<le> length f then Some (take n (drop off f)) else None)"

definition read32bits :: "u8 list \<Rightarrow> nat \<Rightarrow> nat option" where
  "read32bits f off = map_option (\<lambda>bs. unat (Get4byte (\<lambda>i. bs ! i))) (os_read f 4 off)"

text \<open>The bytes \<open>bs\<close> stand at offset \<open>off\<close>.\<close>

definition bytes_at :: "u8 list \<Rightarrow> nat \<Rightarrow> u8 list \<Rightarrow> bool" where
  "bytes_at f off bs \<longleftrightarrow> (\<forall>i<length bs. off + i < length f \<and> f ! (off + i) = bs ! i)"

lemma length_os_write: "length (os_write f off bs) = max (length f) (off + length bs)"
  by (simp add: os_write_def)

lemma os_write_nth:
  "i < length (os_write f off bs) \<Longrightarrow> os_write f off bs ! i =
     (if off \<le> i \<and> i < off + length bs then bs ! (i - off) else if i < length f then f ! i else 0)"
  by (auto simp: os_write_def length_os_write nth_append min_def)

lemma bytes_at_write [simp]: "bytes_at (os_write f off bs) off bs"
  by (auto simp: bytes_at_def length_os_write os_write_nth)

lemma bytes_at_write_part:
  "pre @ bs @ post = cs \<Longrightarrow> o' = off + length pre \<Longrightarrow> bytes_at (os_write f off cs) o' bs"
  by (auto simp: bytes_at_def length_os_write os_write_nth nth_append)

lemma bytes_at_other:
  "bytes_at f o' bs \<Longrightarrow> o' + length bs \<le> off \<or> off + length cs \<le> o' \<Longrightarrow> bytes_at (os_write f off cs) o' bs"
  by (auto simp: bytes_at_def length_os_write os_write_nth)

lemma bytes_at_append: "bytes_at f off (xs @ ys) \<longleftrightarrow> bytes_at f off xs \<and> bytes_at f (off + length xs) ys"
proof
  assume all: "bytes_at f off (xs @ ys)"
  have "off + (length xs + i) < length f \<and> f ! (off + (length xs + i)) = ys ! i" if "i < length ys" for i
    using all that unfolding bytes_at_def by (metis add_less_cancel_left length_append nth_append_length_plus)
  moreover have "bytes_at f off xs" using all by (auto simp: bytes_at_def nth_append)
  ultimately show "bytes_at f off xs \<and> bytes_at f (off + length xs) ys" by (simp add: bytes_at_def add.assoc)
next
  assume "bytes_at f off xs \<and> bytes_at f (off + length xs) ys"
  then have x: "\<And>i. i < length xs \<Longrightarrow> off + i < length f \<and> f ! (off + i) = xs ! i"
    and y: "\<And>i. i < length ys \<Longrightarrow> off + length xs + i < length f \<and> f ! (off + length xs + i) = ys ! i"
    by (auto simp: bytes_at_def)
  show "bytes_at f off (xs @ ys)"
    unfolding bytes_at_def
  proof (intro allI impI)
    fix i
    assume "i < length (xs @ ys)"
    then show "off + i < length f \<and> f ! (off + i) = (xs @ ys) ! i"
      using x [of i] y [of "i - length xs"] by (cases "i < length xs") (auto simp: nth_append)
  qed
qed

lemma bytes_at_read:
  assumes "bytes_at f off bs"
  shows "off + length bs \<le> length f \<or> bs = []" "bs \<noteq> [] \<Longrightarrow> os_read f (length bs) off = Some bs"
proof -
  show len: "off + length bs \<le> length f \<or> bs = []"
  proof (cases bs rule: rev_cases)
    case (snoc xs x)
    then have "off + length xs < length f" using assms by (simp add: bytes_at_def)
    with snoc show ?thesis by simp
  qed simp
  show "os_read f (length bs) off = Some bs" if "bs \<noteq> []"
  proof -
    have le: "off + length bs \<le> length f" using len that by simp
    then have "take (length bs) (drop off f) = bs"
      using assms by (intro nth_equalityI) (auto simp: bytes_at_def)
    with le show ?thesis by (simp add: os_read_def)
  qed
qed

lemma length_Put4byte [simp]: "length (Put4byte v) = 4"
  by (simp add: Put4byte_def)

lemma read_Put4byte: "bytes_at f off (Put4byte v) \<Longrightarrow> read32bits f off = Some (unat v)"
proof -
  assume at: "bytes_at f off (Put4byte v)"
  have "Put4byte v \<noteq> []" by (simp add: Put4byte_def)
  from bytes_at_read(2) [OF at this] have "os_read f 4 off = Some (Put4byte v)" by simp
  then show ?thesis using Get_Put4byte [of v "[]"] by (simp add: read32bits_def)
qed

section \<open>The journal magic\<close>

definition aJournalMagic :: "u8 list" where
  "aJournalMagic = [0xd9, 0xd5, 0x05, 0xf9, 0x20, 0xa1, 0x63, 0xd7]"

lemma length_magic [simp]: "length aJournalMagic = 8"
  by (simp add: aJournalMagic_def)

lemma magic_nonzero: "i < 8 \<Longrightarrow> aJournalMagic ! i \<noteq> 0"
proof -
  assume "i < 8"
  then have "aJournalMagic ! i \<in> set aJournalMagic" by simp
  moreover have "0 \<notin> set aJournalMagic" by (simp add: aJournalMagic_def)
  ultimately show ?thesis by metis
qed

text \<open>No journal header starts at \<open>h\<close>.\<close>

definition magic_free :: "u8 list \<Rightarrow> nat \<Rightarrow> bool" where
  "magic_free c h \<longleftrightarrow> (\<exists>i<8. length c \<le> h + i \<or> c ! (h + i) \<noteq> aJournalMagic ! i)"

lemma magic_free_iff: "magic_free c h \<longleftrightarrow> \<not> bytes_at c h aJournalMagic"
  by (auto simp: magic_free_def bytes_at_def not_less)

lemma magic_free_read: "magic_free c h \<Longrightarrow> os_read c 8 h \<noteq> Some aJournalMagic"
proof
  assume free: "magic_free c h" and read: "os_read c 8 h = Some aJournalMagic"
  then have le: "h + 8 \<le> length c" and t: "take 8 (drop h c) = aJournalMagic"
    by (auto simp: os_read_def split: if_splits)
  from free obtain i where i: "i < 8" "length c \<le> h + i \<or> c ! (h + i) \<noteq> aJournalMagic ! i"
    by (auto simp: magic_free_def)
  from t have "take 8 (drop h c) ! i = aJournalMagic ! i" by simp
  then show False using i le by simp
qed

section \<open>Crashes\<close>

definition same_sector :: "nat \<Rightarrow> nat \<Rightarrow> u8 list \<Rightarrow> bool" where
  "same_sector ss off bs \<longleftrightarrow> off div ss = (off + length bs - 1) div ss"

text \<open>What one write that is not durable can leave of the file \<open>c\<close>.\<close>

definition torn :: "u8 list \<Rightarrow> nat \<Rightarrow> nat \<Rightarrow> u8 list \<Rightarrow> bool" where
  "torn c off n c' \<longleftrightarrow> length c \<le> length c' \<and> length c' \<le> max (length c) (off + n) \<and>
     (\<forall>i<length c'. \<not> (off \<le> i \<and> i < off + n) \<longrightarrow> c' ! i = (if i < length c then c ! i else 0))"

datatype jop = PWrite nat "u8 list" | PTruncate nat

primrec apply_jop :: "u8 list \<Rightarrow> jop \<Rightarrow> u8 list" where
  "apply_jop c (PWrite off bs) = os_write c off bs"
| "apply_jop c (PTruncate n) = take n c"

primrec jop_torn :: "nat \<Rightarrow> jop \<Rightarrow> u8 list \<Rightarrow> u8 list \<Rightarrow> bool" where
  "jop_torn ss (PWrite off bs) c c' \<longleftrightarrow> \<not> same_sector ss off bs \<and> torn c off (length bs) c'"
| "jop_torn ss (PTruncate n) c c' \<longleftrightarrow> False"

definition crash_write :: "nat \<Rightarrow> u8 list \<Rightarrow> jop \<Rightarrow> u8 list \<Rightarrow> bool" where
  "crash_write ss c w c' \<longleftrightarrow> c' = c \<or> c' = apply_jop c w \<or> jop_torn ss w c c'"

inductive crash_file :: "nat \<Rightarrow> u8 list \<Rightarrow> jop list \<Rightarrow> u8 list \<Rightarrow> bool" for ss dur where
  crash_none: "crash_file ss dur [] dur"
| crash_snoc: "crash_file ss dur ws c \<Longrightarrow> crash_write ss c w c' \<Longrightarrow> crash_file ss dur (ws @ [w]) c'"

inductive_cases crash_noneE [elim!]: "crash_file ss dur [] c"
inductive_cases crash_snocE: "crash_file ss dur (ws @ [w]) c"

text \<open>Every write happening is one of the outcomes.\<close>

lemma crash_file_all: "crash_file ss dur ws (foldl apply_jop dur ws)"
proof (induction ws rule: rev_induct)
  case (snoc w ws)
  then show ?case by (auto simp: crash_write_def intro: crash_snoc)
qed (simp add: crash_none)

lemma crash_write_torn: "crash_write ss c (PWrite off bs) c' \<Longrightarrow> torn c off (length bs) c'"
  by (auto simp: crash_write_def torn_def length_os_write os_write_nth)

lemma crash_write_sector:
  "crash_write ss c (PWrite off bs) c' \<Longrightarrow> same_sector ss off bs \<Longrightarrow> c' = c \<or> c' = os_write c off bs"
  by (simp add: crash_write_def)

lemma torn_bytes_at:
  "torn c off n c' \<Longrightarrow> bytes_at c o' bs \<Longrightarrow> o' + length bs \<le> off \<or> off + n \<le> o' \<Longrightarrow> bytes_at c' o' bs"
  by (fastforce simp: torn_def bytes_at_def)

lemma torn_magic_free:
  "torn c off n c' \<Longrightarrow> magic_free c h \<Longrightarrow> h + 8 \<le> off \<or> off + n \<le> h \<Longrightarrow> magic_free c' h"
proof -
  assume t: "torn c off n c'" and "magic_free c h" and d: "h + 8 \<le> off \<or> off + n \<le> h"
  then obtain i where i: "i < 8" "length c \<le> h + i \<or> c ! (h + i) \<noteq> aJournalMagic ! i"
    by (auto simp: magic_free_def)
  have "length c' \<le> h + i \<or> c' ! (h + i) \<noteq> aJournalMagic ! i"
  proof (cases "h + i < length c'")
    case True
    with t d i(1) have "c' ! (h + i) = (if h + i < length c then c ! (h + i) else 0)"
      by (auto simp: torn_def)
    with i magic_nonzero [OF i(1)] show ?thesis by (metis not_less)
  qed simp
  with i(1) show ?thesis by (auto simp: magic_free_def)
qed

lemma magic_free_write:
  "8 \<le> length bs \<Longrightarrow> take 8 bs \<noteq> aJournalMagic \<Longrightarrow> magic_free (os_write c h bs) h"
proof -
  assume bs: "8 \<le> length bs" "take 8 bs \<noteq> aJournalMagic"
  then obtain i where "i < 8" "bs ! i \<noteq> aJournalMagic ! i"
    by (metis length_take length_magic min.absorb2 nth_equalityI nth_take)
  then show ?thesis using bs(1)
    by (auto simp: magic_free_def length_os_write os_write_nth intro!: exI [of _ i])
qed

section \<open>The disk\<close>

text \<open>
  \<open>j_exists\<close>: the journal is in its directory; \<open>j_sure\<close>: that is durable. Creating the
  file is durable from its first sync on, which also syncs the directory; deleting it is
  durable if the directory is synced, and otherwise a crash may bring the file back. (A file
  created while an earlier deletion is not durable is not covered: a crash could bring the
  earlier one back.)
\<close>

record disk =
  j_exists :: bool
  j_sure :: bool
  j_cur :: "u8 list"
  j_dur :: "u8 list"
  j_pend :: "jop list"
  d_cur :: "u8 list list"
  d_dur :: "u8 list list"
  d_touched :: "nat set"
  d_low :: nat

datatype ioop =
  JOpen | JWrite nat "u8 list" | JTruncate nat | JSync | JDelete bool
| DWrite nat "u8 list" | DTruncate nat | DSync

text \<open>Page \<open>pgno\<close> of the database file, numbered from 1; a write past the end extends the file.\<close>

definition put_page :: "nat \<Rightarrow> u8 list list \<Rightarrow> nat \<Rightarrow> u8 list \<Rightarrow> u8 list list" where
  "put_page ps db pgno d =
     (let db' = db @ replicate (pgno - length db) (replicate ps 0) in db'[pgno - 1 := d])"

definition j_op :: "jop \<Rightarrow> disk \<Rightarrow> disk" where
  "j_op w s = s\<lparr>j_cur := apply_jop (j_cur s) w, j_pend := j_pend s @ [w]\<rparr>"

fun disk_step :: "nat \<Rightarrow> disk \<Rightarrow> ioop \<Rightarrow> disk" where
  "disk_step ps s JOpen =
     (if \<not> j_exists s then s\<lparr>j_exists := True, j_sure := False, j_cur := [], j_dur := [], j_pend := []\<rparr> else s)"
| "disk_step ps s (JWrite off bs) = j_op (PWrite off bs) s"
| "disk_step ps s (JTruncate n) = j_op (PTruncate n) s"
| "disk_step ps s JSync = s\<lparr>j_sure := True, j_dur := j_cur s, j_pend := []\<rparr>"
| "disk_step ps s (JDelete dirsync) = s\<lparr>j_exists := False, j_sure := dirsync\<rparr>"
| "disk_step ps s (DWrite pgno d) =
     s\<lparr>d_cur := put_page ps (d_cur s) pgno d, d_touched := insert pgno (d_touched s)\<rparr>"
| "disk_step ps s (DTruncate n) =
     s\<lparr>d_cur := take n (d_cur s), d_touched := d_touched s \<union> {n<..length (d_cur s)},
       d_low := min n (d_low s)\<rparr>"
| "disk_step ps s DSync = s\<lparr>d_dur := d_cur s, d_touched := {}, d_low := length (d_cur s)\<rparr>"

text \<open>
  After a crash: the journal is what the writes since its last sync left of it. A page of the
  database written or cut off since the last sync holds anything; the file may have grown,
  and is no shorter than it was at some time since the last sync.
\<close>

definition crash_db :: "disk \<Rightarrow> u8 list list \<Rightarrow> bool" where
  "crash_db s db \<longleftrightarrow>
     (\<forall>p<length (d_dur s). Suc p \<notin> d_touched s \<longrightarrow> p < length db \<and> db ! p = d_dur s ! p) \<and>
     d_low s \<le> length db \<and> (d_touched s = {} \<longrightarrow> db = d_dur s)"

definition crash_disk :: "nat \<Rightarrow> disk \<Rightarrow> u8 list option \<Rightarrow> u8 list list \<Rightarrow> bool" where
  "crash_disk ss s j db \<longleftrightarrow>
     (case j of None \<Rightarrow> \<not> (j_exists s \<and> j_sure s)
      | Some c \<Rightarrow> (j_exists s \<or> \<not> j_sure s) \<and> crash_file ss (j_dur s) (j_pend s) c) \<and>
     crash_db s db"

lemma length_put_page: "0 < pgno \<Longrightarrow> length (put_page ps db pgno d) = max (length db) pgno"
  by (simp add: put_page_def)

lemma put_page_nth:
  "0 < pgno \<Longrightarrow> p < length (put_page ps db pgno d) \<Longrightarrow> put_page ps db pgno d ! p =
     (if Suc p = pgno then d else if p < length db then db ! p else replicate ps 0)"
  by (auto simp: put_page_def nth_list_update nth_append)

text \<open>What the system calls keep: the current journal is the durable one with the writes done.\<close>

definition disk_wf :: "disk \<Rightarrow> bool" where
  "disk_wf s \<longleftrightarrow> j_cur s = foldl apply_jop (j_dur s) (j_pend s)"

lemma disk_wf_step: "disk_wf s \<Longrightarrow> disk_wf (disk_step ps s op)"
  by (cases op) (auto simp: disk_wf_def j_op_def)

lemma disk_wf_outcome: "disk_wf s \<Longrightarrow> crash_file ss (j_dur s) (j_pend s) (j_cur s)"
  by (simp add: disk_wf_def crash_file_all)

end
