(* ===== verification/Pcache.thy ===== *)
theory Pcache
  imports Prelude "HOL-Library.Multiset"
begin

text \<open>
  The pages the pager holds in memory, as \<open>pcache.c\<close> keeps them: a page is in the cache or
  not, carries its flags, and is on the list of dirty pages, most recently added first, exactly
  while its dirty flag is set. Reference counts are left to the callers; only their sum is kept
  because truncation of the cache looks at it.
\<close>

section \<open>State and operations\<close>

record pghdr =
  pg_data :: "u8 list"
  pg_dirty :: bool
  pg_need_sync :: bool
  pg_writeable :: bool
  pg_dont_write :: bool

record pcache =
  pc_pages :: "nat \<Rightarrow> pghdr option"
  pc_dirty :: "nat list"
  pc_nRefSum :: nat

definition on_page :: "nat \<Rightarrow> (pghdr \<Rightarrow> pghdr) \<Rightarrow> pcache \<Rightarrow> pcache" where
  "on_page n f c = c\<lparr>pc_pages := (pc_pages c)(n := map_option f (pc_pages c n))\<rparr>"

definition PcacheMakeDirty :: "nat \<Rightarrow> pcache \<Rightarrow> pcache" where
  "PcacheMakeDirty n c =
     (case pc_pages c n of
        None \<Rightarrow> c
      | Some h \<Rightarrow>
          if \<not> pg_dirty h \<or> pg_dont_write h then
            let c = on_page n (\<lambda>h. h\<lparr>pg_dont_write := False\<rparr>) c in
            if \<not> pg_dirty h then (on_page n (\<lambda>h. h\<lparr>pg_dirty := True\<rparr>) c)\<lparr>pc_dirty := n # pc_dirty c\<rparr> else c
          else c)"

definition PcacheMakeClean :: "nat \<Rightarrow> pcache \<Rightarrow> pcache" where
  "PcacheMakeClean n c =
     on_page n (\<lambda>h. h\<lparr>pg_dirty := False, pg_need_sync := False, pg_writeable := False\<rparr>)
       (c\<lparr>pc_dirty := remove1 n (pc_dirty c)\<rparr>)"

definition PcacheCleanAll :: "pcache \<Rightarrow> pcache" where
  "PcacheCleanAll c = fold PcacheMakeClean (pc_dirty c) c"

definition PcacheClearWritable :: "pcache \<Rightarrow> pcache" where
  "PcacheClearWritable c =
     fold (\<lambda>n. on_page n (\<lambda>h. h\<lparr>pg_need_sync := False, pg_writeable := False\<rparr>)) (pc_dirty c) c"

definition PcacheClearSyncFlags :: "pcache \<Rightarrow> pcache" where
  "PcacheClearSyncFlags c = fold (\<lambda>n. on_page n (\<lambda>h. h\<lparr>pg_need_sync := False\<rparr>)) (pc_dirty c) c"

definition PcacheDrop :: "nat \<Rightarrow> pcache \<Rightarrow> pcache" where
  "PcacheDrop n c =
     c\<lparr>pc_dirty := (case pc_pages c n of
                     Some h \<Rightarrow> if pg_dirty h then remove1 n (pc_dirty c) else pc_dirty c
                   | None \<Rightarrow> pc_dirty c),
       pc_pages := (pc_pages c)(n := None)\<rparr>"

definition PcacheTruncate :: "nat \<Rightarrow> nat \<Rightarrow> pcache \<Rightarrow> pcache" where
  "PcacheTruncate szPage pgno c =
     (let c = fold (\<lambda>n c. if n > pgno then PcacheMakeClean n c else c) (pc_dirty c) c;
          (pgno, c) = (if pgno = 0 \<and> pc_nRefSum c \<noteq> 0
                       then (1, on_page 1 (\<lambda>h. h\<lparr>pg_data := replicate szPage 0\<rparr>) c) else (pgno, c))
      in c\<lparr>pc_pages := (\<lambda>n. if n \<le> pgno then pc_pages c n else None)\<rparr>)"

definition PcacheClear :: "nat \<Rightarrow> pcache \<Rightarrow> pcache" where
  "PcacheClear szPage c = PcacheTruncate szPage 0 c"

section \<open>The sorted list of dirty pages\<close>

fun pcacheMergeDirtyList :: "nat list \<Rightarrow> nat list \<Rightarrow> nat list" where
  "pcacheMergeDirtyList (a # as) (b # bs) =
     (if a < b then a # pcacheMergeDirtyList as (b # bs) else b # pcacheMergeDirtyList (a # as) bs)"
| "pcacheMergeDirtyList [] bs = bs"
| "pcacheMergeDirtyList as [] = as"

definition N_SORT_BUCKET :: nat where "N_SORT_BUCKET = 32"

text \<open>
  One page, as a list of one, carried up the buckets; the empty bucket is the null pointer.
  The last bucket takes what is carried there even when it is in use.
\<close>

fun dirty_bucket_insert :: "nat list list \<Rightarrow> nat list \<Rightarrow> nat list list" where
  "dirty_bucket_insert [] p = []"
| "dirty_bucket_insert [b] p = [if b = [] then p else pcacheMergeDirtyList b p]"
| "dirty_bucket_insert (b # b' # bs) p =
     (if b = [] then p # b' # bs else [] # dirty_bucket_insert (b' # bs) (pcacheMergeDirtyList b p))"

definition pcacheSortDirtyList :: "nat list \<Rightarrow> nat list" where
  "pcacheSortDirtyList pIn =
     (let a = fold (\<lambda>p a. dirty_bucket_insert a [p]) pIn (replicate N_SORT_BUCKET [])
      in fold (\<lambda>b p. if b = [] then p else if p \<noteq> [] then pcacheMergeDirtyList p b else b) (tl a) (hd a))"

definition PcacheDirtyList :: "pcache \<Rightarrow> nat list" where
  "PcacheDirtyList c = pcacheSortDirtyList (pc_dirty c)"

lemma dirty_merge_mset: "mset (pcacheMergeDirtyList as bs) = mset as + mset bs"
  by (induction as bs rule: pcacheMergeDirtyList.induct) auto

lemma dirty_merge_set [simp]: "set (pcacheMergeDirtyList as bs) = set as \<union> set bs"
  by (metis dirty_merge_mset set_mset_mset set_mset_union)

lemma dirty_merge_sorted: "sorted as \<Longrightarrow> sorted bs \<Longrightarrow> sorted (pcacheMergeDirtyList as bs)"
  by (induction as bs rule: pcacheMergeDirtyList.induct) auto

lemma bucket_insert_mset:
  "a \<noteq> [] \<Longrightarrow> mset (concat (dirty_bucket_insert a p)) = mset (concat a) + mset p"
  by (induction a p rule: dirty_bucket_insert.induct) (auto simp: dirty_merge_mset)

lemma bucket_insert_sorted:
  "sorted p \<Longrightarrow> \<forall>b\<in>set a. sorted b \<Longrightarrow> \<forall>b\<in>set (dirty_bucket_insert a p). sorted b"
  by (induction a p rule: dirty_bucket_insert.induct) (auto simp: dirty_merge_sorted)

lemma bucket_insert_length [simp]: "length (dirty_bucket_insert a p) = length a"
  by (induction a p rule: dirty_bucket_insert.induct) auto

lemma dirty_buckets_fill:
  "a \<noteq> [] \<Longrightarrow> \<forall>b\<in>set a. sorted b \<Longrightarrow> r = fold (\<lambda>p a. dirty_bucket_insert a [p]) ps a \<Longrightarrow>
   mset (concat r) = mset (concat a) + mset ps \<and> (\<forall>b\<in>set r. sorted b) \<and> r \<noteq> []"
proof (induction ps arbitrary: a)
  case (Cons p ps)
  have ne: "dirty_bucket_insert a [p] \<noteq> []" using Cons.prems(1) by (metis bucket_insert_length length_0_conv)
  have so: "\<forall>b\<in>set (dirty_bucket_insert a [p]). sorted b" using Cons.prems(2) by (intro bucket_insert_sorted) simp_all
  from Cons.IH [OF ne so] Cons.prems(1,3) show ?case by (simp add: bucket_insert_mset)
qed simp

lemma dirty_buckets_join:
  "\<forall>b\<in>set bs. sorted b \<Longrightarrow> sorted p \<Longrightarrow>
   r = fold (\<lambda>b p. if b = [] then p else if p \<noteq> [] then pcacheMergeDirtyList p b else b) bs p \<Longrightarrow>
   mset r = mset p + mset (concat bs) \<and> sorted r"
  by (induction bs arbitrary: p) (auto simp: dirty_merge_mset dirty_merge_sorted)

lemma pcacheSortDirtyList_sort: "pcacheSortDirtyList ps = sort ps"
proof -
  define r where "r = fold (\<lambda>p a. dirty_bucket_insert a [p]) ps (replicate N_SORT_BUCKET [])"
  have r: "mset (concat r) = mset ps" "\<forall>b\<in>set r. sorted b" "r \<noteq> []"
    using dirty_buckets_fill [of "replicate N_SORT_BUCKET []" r ps] by (simp_all add: r_def N_SORT_BUCKET_def)
  then have m: "mset (hd r) + mset (concat (tl r)) = mset ps"
    by (metis concat.simps(2) list.collapse mset_append)
  have s: "\<forall>b\<in>set (tl r). sorted b" "sorted (hd r)" using r by (auto dest: list.set_sel)
  define q where "q = fold (\<lambda>b p. if b = [] then p else if p \<noteq> [] then pcacheMergeDirtyList p b else b) (tl r) (hd r)"
  from dirty_buckets_join [OF s q_def] m have "mset q = mset ps" "sorted q" by simp_all
  then have "sort ps = q" by (rule properties_for_sort)
  moreover have "pcacheSortDirtyList ps = q" by (simp only: pcacheSortDirtyList_def Let_def r_def q_def)
  ultimately show ?thesis by simp
qed

section \<open>What the operations keep\<close>

text \<open>The dirty list holds each dirty page once and nothing else.\<close>

definition pcache_ok :: "pcache \<Rightarrow> bool" where
  "pcache_ok c \<longleftrightarrow> distinct (pc_dirty c) \<and>
     (\<forall>n. n \<in> set (pc_dirty c) \<longleftrightarrow> (\<exists>h. pc_pages c n = Some h \<and> pg_dirty h))"

lemma pcache_okD:
  "pcache_ok c \<Longrightarrow> distinct (pc_dirty c)"
  "pcache_ok c \<Longrightarrow> n \<in> set (pc_dirty c) \<Longrightarrow> \<exists>h. pc_pages c n = Some h \<and> pg_dirty h"
  "pcache_ok c \<Longrightarrow> pc_pages c n = Some h \<Longrightarrow> pg_dirty h \<Longrightarrow> n \<in> set (pc_dirty c)"
  unfolding pcache_ok_def by blast+

lemma on_page_simps [simp]:
  "pc_dirty (on_page n f c) = pc_dirty c"
  "pc_nRefSum (on_page n f c) = pc_nRefSum c"
  "pc_pages (on_page n f c) m = (if m = n then map_option f (pc_pages c n) else pc_pages c m)"
  by (simp_all add: on_page_def)

lemma on_page_ok:
  "(\<And>h. pg_dirty (f h) = pg_dirty h) \<Longrightarrow> pcache_ok (on_page n f c) \<longleftrightarrow> pcache_ok c"
  by (auto simp: pcache_ok_def)

lemma MakeDirty_pages:
  "pc_pages (PcacheMakeDirty n c) m =
     (if m = n then map_option (\<lambda>h. h\<lparr>pg_dirty := True, pg_dont_write := False\<rparr>) (pc_pages c n) else pc_pages c m)"
  by (auto simp: PcacheMakeDirty_def Let_def split: option.splits)

lemma MakeDirty_ok: "pcache_ok c \<Longrightarrow> pcache_ok (PcacheMakeDirty n c)"
  by (auto simp: PcacheMakeDirty_def Let_def pcache_ok_def split: option.splits)

lemma MakeClean_pages:
  "pc_pages (PcacheMakeClean n c) m =
     (if m = n then map_option (\<lambda>h. h\<lparr>pg_dirty := False, pg_need_sync := False, pg_writeable := False\<rparr>) (pc_pages c n)
      else pc_pages c m)"
  by (simp add: PcacheMakeClean_def)

lemma MakeClean_ok: "pcache_ok c \<Longrightarrow> pcache_ok (PcacheMakeClean n c)"
  unfolding pcache_ok_def by (auto simp: PcacheMakeClean_def) 

lemma fold_MakeClean_pages:
  "pc_pages (fold PcacheMakeClean ns c) m =
     (if m \<in> set ns then map_option (\<lambda>h. h\<lparr>pg_dirty := False, pg_need_sync := False, pg_writeable := False\<rparr>) (pc_pages c m)
      else pc_pages c m)"
  by (induction ns arbitrary: c) (auto simp: MakeClean_pages option.map_comp comp_def)

lemma CleanAll_pages:
  "pc_pages (PcacheCleanAll c) m =
     (if m \<in> set (pc_dirty c)
      then map_option (\<lambda>h. h\<lparr>pg_dirty := False, pg_need_sync := False, pg_writeable := False\<rparr>) (pc_pages c m)
      else pc_pages c m)"
  by (simp add: PcacheCleanAll_def fold_MakeClean_pages)

lemma CleanAll_ok: "pcache_ok c \<Longrightarrow> pcache_ok (PcacheCleanAll c)"
proof -
  have "pcache_ok c \<Longrightarrow> pcache_ok (fold PcacheMakeClean ns c)" for ns
    by (induction ns arbitrary: c) (simp_all add: MakeClean_ok)
  then show "pcache_ok c \<Longrightarrow> pcache_ok (PcacheCleanAll c)" by (simp add: PcacheCleanAll_def)
qed

lemma CleanAll_dirty: "pcache_ok c \<Longrightarrow> pc_dirty (PcacheCleanAll c) = []"
proof -
  assume c: "pcache_ok c"
  have "\<not> (\<exists>h. pc_pages (PcacheCleanAll c) n = Some h \<and> pg_dirty h)" for n
    using c by (cases "pc_pages c n") (auto simp: CleanAll_pages pcache_ok_def)
  then have "\<And>n. n \<notin> set (pc_dirty (PcacheCleanAll c))"
    using CleanAll_ok [OF c] by (simp add: pcache_ok_def)
  then show ?thesis by (cases "pc_dirty (PcacheCleanAll c)") auto
qed

text \<open>The pages that are left when a transaction has ended.\<close>

lemma ended_pages:
  assumes c: "pcache_ok c" and h: "pc_pages (PcacheTruncate sz n (PcacheCleanAll c)) m = Some h"
  shows "\<not> pg_dirty h \<and> (m \<le> n \<and> (\<exists>k. pc_pages c m = Some k \<and> pg_data h = pg_data k) \<or>
    n = 0 \<and> (\<exists>k. pc_pages c m = Some k) \<and> (m = 0 \<or> m = 1 \<and> pg_data h = replicate sz 0))"
proof -
  have clean: "\<exists>k'. pc_pages c m = Some k' \<and> pg_data k = pg_data k' \<and> \<not> pg_dirty k" if "pc_pages (PcacheCleanAll c) m = Some k" for m k
    using that c by (cases "pc_pages c m") (auto simp: CleanAll_pages pcache_ok_def split: if_splits)
  show ?thesis
    using h by (auto simp: PcacheTruncate_def CleanAll_dirty [OF c] Let_def split: if_splits dest!: clean)
qed

lemma fold_on_page:
  "\<forall>h. f (f h) = f h \<Longrightarrow> pc_pages (fold (\<lambda>n. on_page n f) ns c) m =
     (if m \<in> set ns then map_option f (pc_pages c m) else pc_pages c m)"
  "pc_dirty (fold (\<lambda>n. on_page n f) ns c) = pc_dirty c"
  "pc_nRefSum (fold (\<lambda>n. on_page n f) ns c) = pc_nRefSum c"
  by (induction ns arbitrary: c) (auto simp: option.map_comp comp_def)

lemma ClearSyncFlags_pages:
  "pc_pages (PcacheClearSyncFlags c) m =
     (if m \<in> set (pc_dirty c) then map_option (\<lambda>h. h\<lparr>pg_need_sync := False\<rparr>) (pc_pages c m) else pc_pages c m)"
  by (simp add: PcacheClearSyncFlags_def fold_on_page)

lemma ClearSyncFlags_dirty [simp]: "pc_dirty (PcacheClearSyncFlags c) = pc_dirty c"
  by (simp add: PcacheClearSyncFlags_def fold_on_page)

lemma ClearSyncFlags_ok: "pcache_ok c \<Longrightarrow> pcache_ok (PcacheClearSyncFlags c)"
  unfolding pcache_ok_def by (auto simp: ClearSyncFlags_pages)

text \<open>C40. \<open>sqlite3PcacheDirtyList\<close> lists every dirty page once, in ascending page order.\<close>

theorem dirty_list_sorted:
  assumes "pcache_ok c"
  shows "sorted_wrt (<) (PcacheDirtyList c) \<and>
    set (PcacheDirtyList c) = {n. \<exists>h. pc_pages c n = Some h \<and> pg_dirty h}"
  using assms by (auto simp: PcacheDirtyList_def pcacheSortDirtyList_sort pcache_ok_def strict_sorted_iff)

definition dirty_page :: pghdr where
  "dirty_page = \<lparr>pg_data = [], pg_dirty = True, pg_need_sync = False, pg_writeable = True, pg_dont_write = False\<rparr>"

theorem dirty_list_sorted_witness:
  "set (PcacheDirtyList \<lparr>pc_pages = [1 \<mapsto> dirty_page, 4 \<mapsto> dirty_page, 7 \<mapsto> dirty_page], pc_dirty = [7, 1, 4], pc_nRefSum = 0\<rparr>) = {1, 4, 7}"
proof -
  have "pcache_ok \<lparr>pc_pages = [1 \<mapsto> dirty_page, 4 \<mapsto> dirty_page, 7 \<mapsto> dirty_page], pc_dirty = [7, 1, 4], pc_nRefSum = 0\<rparr>"
    by (auto simp: pcache_ok_def dirty_page_def)
  from dirty_list_sorted [OF this] show ?thesis by (auto simp: dirty_page_def)
qed

end
