(* ===== verification/Pager_State.thy ===== *)
theory Pager_State
  imports Disk Pcache Bitvec
begin

text \<open>
  The state of \<open>pager.c\<close> and the system calls it makes. A pager function is a function from the
  pager to a result code and the pager after it. Reads and writes go to the files of
  \<open>disk\<close>; \<open>past\<close> collects the disk after every system call, latest first, so that a crash
  can be put anywhere. The results of the calls still to come (locks included) are \<open>os\<close>,
  those of the allocator \<open>mem\<close>, and the random numbers \<open>rnd\<close>: a call that fails does nothing
  and its code is returned.
\<close>

section \<open>State\<close>

datatype estate =
  PAGER_OPEN | PAGER_READER | PAGER_WRITER_LOCKED | PAGER_WRITER_CACHEMOD
| PAGER_WRITER_DBMOD | PAGER_WRITER_FINISHED | PAGER_ERROR

fun estate_nr :: "estate \<Rightarrow> nat" where
  "estate_nr PAGER_OPEN = 0"
| "estate_nr PAGER_READER = 1"
| "estate_nr PAGER_WRITER_LOCKED = 2"
| "estate_nr PAGER_WRITER_CACHEMOD = 3"
| "estate_nr PAGER_WRITER_DBMOD = 4"
| "estate_nr PAGER_WRITER_FINISHED = 5"
| "estate_nr PAGER_ERROR = 6"

lemma estate_nr_inj: "estate_nr a = estate_nr b \<Longrightarrow> a = b"
  by (cases a; cases b) simp_all

instantiation estate :: linorder
begin
definition less_eq_estate :: "estate \<Rightarrow> estate \<Rightarrow> bool" where
  "a \<le> b \<longleftrightarrow> estate_nr a \<le> estate_nr b"
definition less_estate :: "estate \<Rightarrow> estate \<Rightarrow> bool" where
  "a < b \<longleftrightarrow> estate_nr a < estate_nr b"
instance
  by standard (auto simp: less_eq_estate_def less_estate_def estate_nr_inj)
end

lemmas estate_order = less_eq_estate_def less_estate_def

datatype jmode = JM_DELETE | JM_PERSIST | JM_TRUNCATE

text \<open>
  How a system call that changes a file or a lock can fail, with the codes of the VFS. None of
  them is \<open>SQLITE_OK\<close>, \<open>SQLITE_DONE\<close> or \<open>SQLITE_IOERR_SHORT_READ\<close>, which the pager tests for.
\<close>

datatype fault =
  Fault_BUSY | Fault_IOERR | Fault_IOERR_WRITE | Fault_IOERR_FSYNC | Fault_IOERR_TRUNCATE
| Fault_IOERR_DELETE | Fault_FULL | Fault_CANTOPEN | Fault_READONLY_DBMOVED

fun fault_code :: "fault \<Rightarrow> rc" where
  "fault_code Fault_BUSY = 5"
| "fault_code Fault_IOERR = 10"
| "fault_code Fault_IOERR_WRITE = 778"
| "fault_code Fault_IOERR_FSYNC = 1034"
| "fault_code Fault_IOERR_TRUNCATE = 1546"
| "fault_code Fault_IOERR_DELETE = 2570"
| "fault_code Fault_FULL = 13"
| "fault_code Fault_CANTOPEN = 14"
| "fault_code Fault_READONLY_DBMOVED = 1032"

lemma fault_code_facts [simp]: "fault_code f \<noteq> 0" "fault_code f \<noteq> 101" "fault_code f \<noteq> 522"
  by (cases f; simp)+

record savepoint =
  iOffset :: nat
  iHdrOffset :: nat
  pInSavepoint :: bitvec
  nOrig :: nat
  iSubRec :: nat
  bTruncateOnRelease :: bool

record pager =
  pageSize :: nat
  sectorSize :: nat
  noSync :: bool
  fullSync :: bool
  extraSync :: bool
  exclusiveMode :: bool
  safeAppend :: bool
  sequential :: bool
  journalMode :: jmode
  journalSizeLimit :: "nat option"
  eState :: estate
  errCode :: rc
  dbSize :: nat
  dbOrigSize :: nat
  dbFileSize :: nat
  mxPgno :: nat
  jfd_open :: bool
  journalOff :: nat
  journalHdr :: nat
  nRec :: nat
  cksumInit :: u32
  pInJournal :: "bitvec option"
  aSavepoint :: "savepoint list"
  nSubRec :: nat
  sjfd :: "u8 list"
  changeCountDone :: bool
  dbFileVers :: "u8 list"
  hasHeldSharedLock :: bool
  nReserve :: u8
  doNotSpill :: u8
  pPCache :: pcache
  os :: "nat \<Rightarrow> fault option"
  mem :: alloc
  rnd :: "nat \<Rightarrow> u32"
  disk :: disk
  past :: "disk list"

type_synonym pager_op = "pager \<Rightarrow> rc \<times> pager"

abbreviation (input) SQLITE_IOERR :: rc where "SQLITE_IOERR \<equiv> 10"
abbreviation (input) SQLITE_FULL :: rc where "SQLITE_FULL \<equiv> 13"
abbreviation (input) SQLITE_DONE :: rc where "SQLITE_DONE \<equiv> 101"
abbreviation (input) SQLITE_IOERR_SHORT_READ :: rc where "SQLITE_IOERR_SHORT_READ \<equiv> 522"

definition JOURNAL_HDR_SZ :: "pager \<Rightarrow> nat" where "JOURNAL_HDR_SZ p = sectorSize p"
definition JOURNAL_PG_SZ :: "pager \<Rightarrow> nat" where "JOURNAL_PG_SZ p = pageSize p + 8"
definition PENDING_BYTE :: nat where "PENDING_BYTE = 0x40000000"
definition PAGER_SJ_PGNO :: "pager \<Rightarrow> nat" where "PAGER_SJ_PGNO p = PENDING_BYTE div pageSize p + 1"

definition SPILLFLAG_OFF :: u8 where "SPILLFLAG_OFF = 0x01"
definition SPILLFLAG_ROLLBACK :: u8 where "SPILLFLAG_ROLLBACK = 0x02"
definition SPILLFLAG_NOSYNC :: u8 where "SPILLFLAG_NOSYNC = 0x04"

section \<open>Calls\<close>

text \<open>\<open>rc = f(); if( rc!=SQLITE_OK ) return rc; g()\<close>\<close>

definition andThen :: "pager_op \<Rightarrow> pager_op \<Rightarrow> pager_op" where
  "andThen f g p = (case f p of (rc, p) \<Rightarrow> if rc = SQLITE_OK then g p else (rc, p))"

definition upd :: "(pager \<Rightarrow> pager) \<Rightarrow> pager_op" where
  "upd f p = (SQLITE_OK, f p)"

definition whenP :: "(pager \<Rightarrow> bool) \<Rightarrow> pager_op \<Rightarrow> pager_op" where
  "whenP b f p = (if b p then f p else (SQLITE_OK, p))"

text \<open>A call that changes no file: a lock, a file control.\<close>

definition os_ask :: pager_op where
  "os_ask p = (case os p 0 of None \<Rightarrow> SQLITE_OK | Some f \<Rightarrow> fault_code f, p\<lparr>os := \<lambda>n. os p (Suc n)\<rparr>)"

definition do_io :: "ioop \<Rightarrow> pager \<Rightarrow> pager" where
  "do_io op p = p\<lparr>disk := disk_step (pageSize p) (disk p) op,
                  past := disk_step (pageSize p) (disk p) op # past p\<rparr>"

definition os_call :: "ioop \<Rightarrow> pager_op" where
  "os_call op = andThen os_ask (upd (do_io op))"

lemma os_call_eq:
  "os_call op p =
     (case os p 0 of
        None \<Rightarrow> (SQLITE_OK, do_io op (p\<lparr>os := \<lambda>n. os p (Suc n)\<rparr>))
      | Some f \<Rightarrow> (fault_code f, p\<lparr>os := \<lambda>n. os p (Suc n)\<rparr>))"
  by (simp add: os_call_def andThen_def os_ask_def upd_def split: option.split)

definition write32bits :: "nat \<Rightarrow> u32 \<Rightarrow> pager_op" where
  "write32bits off v = os_call (JWrite off (Put4byte v))"

definition on_cache :: "(pcache \<Rightarrow> pcache) \<Rightarrow> pager \<Rightarrow> pager" where
  "on_cache f p = p\<lparr>pPCache := f (pPCache p)\<rparr>"

definition set_data :: "nat \<Rightarrow> u8 list \<Rightarrow> pager \<Rightarrow> pager" where
  "set_data n d = on_cache (on_page n (\<lambda>h. h\<lparr>pg_data := d\<rparr>))"

definition set_need_sync :: "nat \<Rightarrow> pager \<Rightarrow> pager" where
  "set_need_sync n = on_cache (on_page n (\<lambda>h. h\<lparr>pg_need_sync := True\<rparr>))"

definition PagerLookup :: "pager \<Rightarrow> nat \<Rightarrow> pghdr option" where
  "PagerLookup p n = pc_pages (pPCache p) n"

definition page_data :: "pager \<Rightarrow> nat \<Rightarrow> u8 list" where
  "page_data p n = (case PagerLookup p n of Some h \<Rightarrow> pg_data h | None \<Rightarrow> [])"

definition page_need_sync :: "pager \<Rightarrow> nat \<Rightarrow> bool" where
  "page_need_sync p n = (case PagerLookup p n of Some h \<Rightarrow> pg_need_sync h | None \<Rightarrow> False)"

text \<open>\<open>sqlite3BitvecSet\<close> with the allocator of the pager; on valid objects it always returns.\<close>

definition bitvec_add :: "alloc \<Rightarrow> bitvec option \<Rightarrow> nat \<Rightarrow> alloc \<times> rc \<times> bitvec option" where
  "bitvec_add a b n = (case BitvecSet a b n of Some r \<Rightarrow> r | None \<Rightarrow> (a, SQLITE_NOMEM, b))"

definition in_journal :: "pager \<Rightarrow> nat \<Rightarrow> bool" where
  "in_journal p n = (BitvecTest (pInJournal p) n = Some True)"

fun sp_add :: "nat \<Rightarrow> savepoint list \<Rightarrow> alloc \<Rightarrow> alloc \<times> rc \<times> savepoint list" where
  "sp_add n [] a = (a, SQLITE_OK, [])"
| "sp_add n (s # ss) a =
     (let (a, rc, s) =
            (if n \<le> nOrig s then
               (case bitvec_add a (Some (pInSavepoint s)) n of
                  (a, rc, Some b) \<Rightarrow> (a, rc, s\<lparr>pInSavepoint := b\<rparr>)
                | (a, rc, None) \<Rightarrow> (a, rc, s))
             else (a, SQLITE_OK, s));
          (a, rc', ss) = sp_add n ss a
      in (a, rc OR rc', s # ss))"

definition addToSavepointBitvecs :: "nat \<Rightarrow> pager_op" where
  "addToSavepointBitvecs n p =
     (let (a, rc, ss) = sp_add n (aSavepoint p) (mem p) in (rc, p\<lparr>mem := a, aSavepoint := ss\<rparr>))"

definition pager_error :: "pager \<Rightarrow> rc \<Rightarrow> rc \<times> pager" where
  "pager_error p rc =
     (let rc2 = rc AND 0xff in
      (rc, if rc2 = SQLITE_FULL \<or> rc2 = SQLITE_IOERR then p\<lparr>errCode := rc, eState := PAGER_ERROR\<rparr> else p))"

section \<open>Rules\<close>

text \<open>No call to the system or to the allocator fails.\<close>

definition calm :: "pager \<Rightarrow> bool" where
  "calm p \<longleftrightarrow> os p = (\<lambda>_. None) \<and> no_oom (mem p)"

text \<open>
  \<open>runs E S P f Q\<close>: started in \<open>P\<close>, the call leaves in \<open>past\<close> only disks of the property \<open>S\<close>,
  whether it succeeds or not; it ends in \<open>Q\<close> if it returns \<open>SQLITE_OK\<close>; and if \<open>E\<close>, it does
  return \<open>SQLITE_OK\<close> when nothing fails.
\<close>

definition runs :: "bool \<Rightarrow> (disk \<Rightarrow> bool) \<Rightarrow> (pager \<Rightarrow> bool) \<Rightarrow> pager_op \<Rightarrow> (pager \<Rightarrow> bool) \<Rightarrow> bool" where
  "runs E S P f Q \<longleftrightarrow>
     (\<forall>p. P p \<longrightarrow> (\<forall>d\<in>set (past p). S d) \<longrightarrow>
        (\<forall>d\<in>set (past (snd (f p))). S d) \<and> (fst (f p) = SQLITE_OK \<longrightarrow> Q (snd (f p))) \<and>
        (E \<and> calm p \<longrightarrow> fst (f p) = SQLITE_OK \<and> calm (snd (f p))))"

lemma runsI:
  "(\<And>p rc p'. P p \<Longrightarrow> \<forall>d\<in>set (past p). S d \<Longrightarrow> f p = (rc, p') \<Longrightarrow>
      (\<forall>d\<in>set (past p'). S d) \<and> (rc = SQLITE_OK \<longrightarrow> Q p') \<and> (E \<and> calm p \<longrightarrow> rc = SQLITE_OK \<and> calm p')) \<Longrightarrow>
   runs E S P f Q"
  unfolding runs_def by (metis prod.collapse)

lemma runsD:
  "runs E S P f Q \<Longrightarrow> P p \<Longrightarrow> \<forall>d\<in>set (past p). S d \<Longrightarrow> f p = (rc, p') \<Longrightarrow>
     (\<forall>d\<in>set (past p'). S d) \<and> (rc = SQLITE_OK \<longrightarrow> Q p') \<and> (E \<and> calm p \<longrightarrow> rc = SQLITE_OK \<and> calm p')"
  unfolding runs_def by (metis fst_conv snd_conv)

lemma runs_weaken: "runs E S P f Q \<Longrightarrow> runs False S P f Q"
  unfolding runs_def by blast

lemma runs_andThen: "runs E S P f Q \<Longrightarrow> runs E S Q g R \<Longrightarrow> runs E S P (andThen f g) R"
proof (rule runsI)
  fix p rc p'
  assume f: "runs E S P f Q" and g: "runs E S Q g R" and P: "P p" "\<forall>d\<in>set (past p). S d"
    and fg: "andThen f g p = (rc, p')"
  obtain r1 p1 where p1: "f p = (r1, p1)" by (cases "f p")
  note F = runsD [OF f P p1]
  show "(\<forall>d\<in>set (past p'). S d) \<and> (rc = SQLITE_OK \<longrightarrow> R p') \<and> (E \<and> calm p \<longrightarrow> rc = SQLITE_OK \<and> calm p')"
  proof (cases "r1 = SQLITE_OK")
    case True
    then have "g p1 = (rc, p')" using fg p1 by (simp add: andThen_def)
    with True F runsD [OF g, of p1 rc p'] show ?thesis by blast
  next
    case False
    then have "(rc, p') = (r1, p1)" using fg p1 by (simp add: andThen_def)
    with False F show ?thesis by blast
  qed
qed

lemma runs_pre: "runs E S P f Q \<Longrightarrow> (\<And>p. P' p \<Longrightarrow> P p) \<Longrightarrow> runs E S P' f Q"
  unfolding runs_def by blast

lemma runs_post: "runs E S P f Q \<Longrightarrow> (\<And>p. Q p \<Longrightarrow> Q' p) \<Longrightarrow> runs E S P f Q'"
  unfolding runs_def by blast

lemma runs_cong: "runs E S P f Q \<Longrightarrow> (\<And>p. P p \<Longrightarrow> g p = f p) \<Longrightarrow> runs E S P g Q"
  unfolding runs_def by simp

lemma runs_ok: "(\<And>p. P p \<Longrightarrow> Q p) \<Longrightarrow> runs E S P (\<lambda>p. (SQLITE_OK, p)) Q"
  unfolding runs_def by simp

lemma runs_upd:
  "(\<And>p. P p \<Longrightarrow> past (f p) = past p \<and> os (f p) = os p \<and> mem (f p) = mem p \<and> Q (f p)) \<Longrightarrow> runs E S P (upd f) Q"
  unfolding runs_def upd_def calm_def by auto

lemma runs_when:
  "runs E S (\<lambda>p. P p \<and> b p) f Q \<Longrightarrow> (\<And>p. P p \<Longrightarrow> \<not> b p \<Longrightarrow> Q p) \<Longrightarrow> runs E S P (whenP b f) Q"
  unfolding runs_def whenP_def by auto

lemma runs_case:
  "runs E S (\<lambda>p. P p \<and> b p) f Q \<Longrightarrow> runs E S (\<lambda>p. P p \<and> \<not> b p) g Q \<Longrightarrow> runs E S P (\<lambda>p. if b p then f p else g p) Q"
  unfolding runs_def by auto

lemma runs_ask: "(\<And>p o'. P p \<Longrightarrow> Q (p\<lparr>os := o'\<rparr>)) \<Longrightarrow> runs E S P os_ask Q"
  unfolding runs_def os_ask_def calm_def by auto

lemma runs_io:
  assumes "\<And>p. P p \<Longrightarrow> S (disk_step (pageSize p) (disk p) op)"
    "\<And>p o'. P p \<Longrightarrow> Q (do_io op (p\<lparr>os := o'\<rparr>))"
  shows "runs E S P (os_call op) Q"
  using assms unfolding runs_def os_call_def andThen_def os_ask_def upd_def do_io_def calm_def by auto

lemma runs_fix: "(\<And>p0. P p0 \<Longrightarrow> runs E S (\<lambda>p. p = p0) f Q) \<Longrightarrow> runs E S P f Q"
  unfolding runs_def by blast

lemma runs_map:
  assumes "runs E S P f (\<lambda>p. Q (h p))" "\<And>p. past (h p) = past p \<and> os (h p) = os p \<and> mem (h p) = mem p"
  shows "runs E S P (\<lambda>p. let (rc, p) = f p in (rc, h p)) Q"
  using assms unfolding runs_def by (auto simp: calm_def split: prod.splits)

lemma do_io_simps [simp]:
  "disk (do_io op p) = disk_step (pageSize p) (disk p) op"
  "past (do_io op p) = disk_step (pageSize p) (disk p) op # past p"
  by (simp_all add: do_io_def)

section \<open>What a call leaves alone\<close>

text \<open>\<open>keeps obs f\<close>: the call \<open>f\<close> changes nothing of what \<open>obs\<close> shows of the pager.\<close>

definition keeps :: "(pager \<Rightarrow> 'a) \<Rightarrow> pager_op \<Rightarrow> bool" where
  "keeps obs f \<longleftrightarrow> (\<forall>p. obs (snd (f p)) = obs p)"

lemma keepsD: "keeps obs f \<Longrightarrow> f p = (rc, p') \<Longrightarrow> obs p' = obs p"
  unfolding keeps_def by (metis snd_conv)

lemma keeps_andThen: "keeps obs f \<Longrightarrow> keeps obs g \<Longrightarrow> keeps obs (andThen f g)"
proof -
  assume f: "keeps obs f" and g: "keeps obs g"
  have "obs (snd (andThen f g p)) = obs p" for p
    using f g by (cases "f p") (simp add: keeps_def andThen_def, metis snd_conv)
  then show ?thesis by (simp add: keeps_def)
qed

lemma keeps_upd: "(\<And>p. obs (f p) = obs p) \<Longrightarrow> keeps obs (upd f)"
  by (simp add: keeps_def upd_def)

lemma keeps_whenP: "keeps obs f \<Longrightarrow> keeps obs (whenP b f)"
  by (simp add: keeps_def whenP_def)

lemma keeps_if: "keeps obs f \<Longrightarrow> keeps obs g \<Longrightarrow> keeps obs (\<lambda>p. if b p then f p else g p)"
  by (simp add: keeps_def)

lemma keeps_ask: "(\<And>p y. obs (p\<lparr>os := y\<rparr>) = obs p) \<Longrightarrow> keeps obs os_ask"
  by (simp add: keeps_def os_ask_def)

lemma keeps_call: "(\<And>p y. obs (p\<lparr>os := y\<rparr>) = obs p) \<Longrightarrow> (\<And>p. obs (do_io op p) = obs p) \<Longrightarrow> keeps obs (os_call op)"
  unfolding os_call_def by (intro keeps_andThen keeps_ask keeps_upd)

lemma keeps_param: "(\<And>p. keeps obs (f p)) \<Longrightarrow> keeps obs (\<lambda>p. f p p)"
  by (simp add: keeps_def)

lemma keeps_first: "keeps obs f \<Longrightarrow> (\<And>p. obs (h p) = obs p) \<Longrightarrow> keeps obs (\<lambda>p. f (h p))"
  by (simp add: keeps_def)

lemma keeps_after: "keeps obs f \<Longrightarrow> (\<And>p. obs (h p) = obs p) \<Longrightarrow> keeps obs (\<lambda>p. let (rc, p) = f p in (rc, h p))"
  by (simp add: keeps_def split: prod.splits) (metis snd_conv)

end
