(* ===== verification/Pager_Journal.thy ===== *)
theory Pager_Journal
  imports Pager_State
begin

text \<open>
  The rollback journal as it is written: journal headers, page records, the sub-journal of the
  savepoints, the start of a transaction, \<open>sqlite3PagerWrite\<close>, and the sync that makes the
  records usable for a rollback.
\<close>

section \<open>Journal headers\<close>

definition journalHdrOffset :: "pager \<Rightarrow> nat" where
  "journalHdrOffset p =
     (let c = journalOff p
      in if c \<noteq> 0 then ((c - 1) div JOURNAL_HDR_SZ p + 1) * JOURNAL_HDR_SZ p else 0)"

text \<open>The loop that fills the header sector with copies of the buffer.\<close>

function hdr_loop :: "u8 list \<Rightarrow> nat \<Rightarrow> nat \<Rightarrow> pager_op" where
  "hdr_loop zHeader sz nWrite p =
     (if nWrite < sz \<and> zHeader \<noteq> [] then
        (let (rc, p) = os_call (JWrite (journalOff p) zHeader) p;
             p = p\<lparr>journalOff := journalOff p + length zHeader\<rparr>
         in if rc = SQLITE_OK then hdr_loop zHeader sz (nWrite + length zHeader) p else (rc, p))
      else (SQLITE_OK, p))"
  by auto
termination
  by (relation "measure (\<lambda>(z, sz, n, p). sz - n)") (auto intro!: diff_less_mono2)

declare hdr_loop.simps [simp del]

definition journal_header :: "pager \<Rightarrow> nat \<Rightarrow> u8 list" where
  "journal_header p nHeader =
     (if noSync p \<or> safeAppend p then aJournalMagic @ Put4byte 0xffffffff else replicate 12 0) @
     Put4byte (cksumInit p) @ Put4byte (word_of_nat (dbOrigSize p)) @
     Put4byte (word_of_nat (sectorSize p)) @ Put4byte (word_of_nat (pageSize p)) @
     replicate (nHeader - 28) 0"

definition writeJournalHdr :: pager_op where
  "writeJournalHdr p =
     (let nHeader = (if pageSize p > JOURNAL_HDR_SZ p then JOURNAL_HDR_SZ p else pageSize p);
          p = p\<lparr>aSavepoint := map (\<lambda>s. if iHdrOffset s = 0 then s\<lparr>iHdrOffset := journalOff p\<rparr> else s) (aSavepoint p)\<rparr>;
          p = p\<lparr>journalHdr := journalHdrOffset p, journalOff := journalHdrOffset p\<rparr>;
          p = p\<lparr>cksumInit := rnd p 0, rnd := \<lambda>n. rnd p (Suc n)\<rparr>
      in hdr_loop (journal_header p nHeader) (JOURNAL_HDR_SZ p) 0 p)"

section \<open>Page records\<close>

fun cksum_loop :: "u8 list \<Rightarrow> nat \<Rightarrow> u32 \<Rightarrow> u32" where
  "cksum_loop aData i cksum = (if i > 0 then cksum_loop aData (i - 200) (cksum + ucast (aData ! i)) else cksum)"

declare cksum_loop.simps [simp del]

definition pager_cksum :: "pager \<Rightarrow> u8 list \<Rightarrow> u32" where
  "pager_cksum p aData = cksum_loop aData (pageSize p - 200) (cksumInit p)"

text \<open>The bookkeeping after the record is in the file.\<close>

definition page_journaled :: "nat \<Rightarrow> pager_op" where
  "page_journaled n p =
     (let p = p\<lparr>journalOff := journalOff p + (8 + pageSize p), nRec := nRec p + 1\<rparr>;
          (a, rc, b) = bitvec_add (mem p) (pInJournal p) n;
          p = p\<lparr>mem := a, pInJournal := b\<rparr>;
          (rc', p) = addToSavepointBitvecs n p
      in (rc OR rc', p))"

definition pagerAddPageToRollbackJournal :: "nat \<Rightarrow> pager_op" where
  "pagerAddPageToRollbackJournal n p =
     (let iOff = journalOff p;
          pData2 = page_data p n;
          cksum = pager_cksum p pData2;
          p = set_need_sync n p
      in andThen (write32bits iOff (word_of_nat n))
           (andThen (os_call (JWrite (iOff + 4) pData2))
             (andThen (write32bits (iOff + pageSize p + 4) cksum) (page_journaled n))) p)"

section \<open>The sub-journal\<close>

fun subj_scan :: "nat \<Rightarrow> savepoint list \<Rightarrow> bool \<times> savepoint list" where
  "subj_scan n [] = (False, [])"
| "subj_scan n (s # ss) =
     (if nOrig s \<ge> n \<and> BitvecTestNotNull (pInSavepoint s) n = Some False
      then (True, s # map (\<lambda>s. s\<lparr>bTruncateOnRelease := False\<rparr>) ss)
      else (let (r, ss) = subj_scan n ss in (r, s # ss)))"

definition subjRequiresPage :: "nat \<Rightarrow> pager \<Rightarrow> bool \<times> pager" where
  "subjRequiresPage n p = (let (r, ss) = subj_scan n (aSavepoint p) in (r, p\<lparr>aSavepoint := ss\<rparr>))"

definition sj_write :: "nat \<Rightarrow> u8 list \<Rightarrow> pager_op" where
  "sj_write off bs = andThen os_ask (upd (\<lambda>p. p\<lparr>sjfd := os_write (sjfd p) off bs\<rparr>))"

definition subjournalPage :: "nat \<Rightarrow> pager_op" where
  "subjournalPage n p =
     (let offset = nSubRec p * (4 + pageSize p)
      in andThen os_ask
           (andThen (sj_write offset (Put4byte (word_of_nat n)))
             (andThen (sj_write (offset + 4) (page_data p n))
               (andThen (upd (\<lambda>p. p\<lparr>nSubRec := nSubRec p + 1\<rparr>)) (addToSavepointBitvecs n)))) p)"

definition subjournalPageIfRequired :: "nat \<Rightarrow> pager_op" where
  "subjournalPageIfRequired n p =
     (let (r, p) = subjRequiresPage n p in if r then subjournalPage n p else (SQLITE_OK, p))"

section \<open>The start of a transaction\<close>

definition PagerBegin :: "bool \<Rightarrow> pager_op" where
  "PagerBegin exFlag p =
     (if errCode p \<noteq> 0 then (errCode p, p)
      else if eState p = PAGER_READER then
        andThen os_ask (andThen (whenP (\<lambda>p. exFlag) os_ask)
          (upd (\<lambda>p. p\<lparr>eState := PAGER_WRITER_LOCKED, dbFileSize := dbSize p, dbOrigSize := dbSize p, journalOff := 0\<rparr>))) p
      else (SQLITE_OK, p))"

definition journal_open :: pager_op where
  "journal_open =
     whenP (\<lambda>p. \<not> jfd_open p)
       (andThen os_ask (andThen (os_call JOpen) (upd (\<lambda>p. p\<lparr>jfd_open := True\<rparr>))))"

definition pager_open_journal :: pager_op where
  "pager_open_journal p =
     (if errCode p \<noteq> 0 then (errCode p, p)
      else (case BitvecCreate (mem p) (dbSize p) of
          (a, None) \<Rightarrow> (SQLITE_NOMEM, p\<lparr>mem := a\<rparr>)
        | (a, Some b) \<Rightarrow>
            (let (rc, p) = andThen journal_open
                   (andThen (upd (\<lambda>p. p\<lparr>nRec := 0, journalOff := 0, journalHdr := 0\<rparr>)) writeJournalHdr)
                   (p\<lparr>mem := a, pInJournal := Some b\<rparr>)
             in (rc, if rc \<noteq> SQLITE_OK then p\<lparr>pInJournal := None, journalOff := 0\<rparr>
                     else p\<lparr>eState := PAGER_WRITER_CACHEMOD\<rparr>))))"

section \<open>Making a page writable\<close>

definition pager_write :: "nat \<Rightarrow> pager_op" where
  "pager_write n =
     andThen (whenP (\<lambda>p. eState p = PAGER_WRITER_LOCKED) pager_open_journal)
    (andThen (upd (on_cache (PcacheMakeDirty n)))
    (andThen (whenP (\<lambda>p. case pInJournal p of None \<Rightarrow> False | Some b \<Rightarrow> BitvecTestNotNull b n = Some False)
       (\<lambda>p. if n \<le> dbOrigSize p then pagerAddPageToRollbackJournal n p
            else (SQLITE_OK, if eState p \<noteq> PAGER_WRITER_DBMOD then set_need_sync n p else p)))
    (andThen (upd (on_cache (on_page n (\<lambda>h. h\<lparr>pg_writeable := True\<rparr>))))
       (\<lambda>p. let (rc, p) = (if aSavepoint p \<noteq> [] then subjournalPageIfRequired n p else (SQLITE_OK, p))
            in (rc, if dbSize p < n then p\<lparr>dbSize := n\<rparr> else p)))))"

section \<open>Syncing the journal\<close>

definition clear_stale_header :: pager_op where
  "clear_stale_header p =
     (let iNextHdrOffset = journalHdrOffset p
      in if os_read (j_cur (disk p)) 8 iNextHdrOffset = Some aJournalMagic
         then os_call (JWrite iNextHdrOffset [0]) p else (SQLITE_OK, p))"

definition syncJournal :: "bool \<Rightarrow> pager_op" where
  "syncJournal newHdr =
     andThen os_ask
    (andThen (whenP (\<lambda>p. \<not> noSync p)
       (\<lambda>p. if jfd_open p then
              andThen (whenP (\<lambda>p. \<not> safeAppend p)
                (\<lambda>p. let zHeader = aJournalMagic @ Put4byte (word_of_nat (nRec p))
                     in andThen clear_stale_header
                          (andThen (whenP (\<lambda>p. fullSync p \<and> \<not> sequential p) (os_call JSync))
                            (os_call (JWrite (journalHdr p) zHeader))) p))
             (andThen (whenP (\<lambda>p. \<not> sequential p) (os_call JSync))
             (andThen (upd (\<lambda>p. p\<lparr>journalHdr := journalOff p\<rparr>))
                (whenP (\<lambda>p. newHdr \<and> \<not> safeAppend p) (andThen (upd (\<lambda>p. p\<lparr>nRec := 0\<rparr>)) writeJournalHdr)))) p
            else (SQLITE_OK, p\<lparr>journalHdr := journalOff p\<rparr>)))
       (upd (\<lambda>p. (on_cache PcacheClearSyncFlags p)\<lparr>eState := PAGER_WRITER_DBMOD\<rparr>)))"

end
