(* ===== verification/Pager_Commit.thy ===== *)
theory Pager_Commit
  imports Pager_Journal
begin

text \<open>
  Reading pages into the cache, writing dirty pages out, and the two phases of a commit.
\<close>

section \<open>Reading\<close>

definition db_page :: "nat \<Rightarrow> disk \<Rightarrow> nat \<Rightarrow> u8 list" where
  "db_page ps d n = (if n \<le> length (d_cur d) then d_cur d ! (n - 1) else replicate ps 0)"

definition readDbPage :: "nat \<Rightarrow> pager_op" where
  "readDbPage n =
     andThen os_ask (upd (\<lambda>p.
       let d = db_page (pageSize p) (disk p) n;
           p = set_data n d p
       in if n = 1 then p\<lparr>dbFileVers := take 16 (drop 24 d)\<rparr> else p))"

definition new_page :: "nat \<Rightarrow> pager \<Rightarrow> pager" where
  "new_page n p = on_cache (\<lambda>c. c\<lparr>pc_pages := (pc_pages c)(n \<mapsto>
     \<lparr>pg_data = replicate (pageSize p) 0, pg_dirty = False, pg_need_sync = False,
      pg_writeable = False, pg_dont_write = False\<rparr>)\<rparr>) p"

text \<open>The failure exit drops the page that was added to the cache.\<close>

definition or_drop :: "nat \<Rightarrow> pager_op \<Rightarrow> pager_op" where
  "or_drop n f p = (let (rc, p) = f p in (rc, if rc = SQLITE_OK then p else on_cache (PcacheDrop n) p))"

definition getPageNormal :: "nat \<Rightarrow> bool \<Rightarrow> pager_op" where
  "getPageNormal n noContent p =
     (if n = 0 then (SQLITE_CORRUPT, p)
      else if PagerLookup p n \<noteq> None \<and> \<not> noContent then (SQLITE_OK, p)
      else
        let p = (if PagerLookup p n = None then new_page n p else p)
        in if n = PAGER_SJ_PGNO p then (SQLITE_CORRUPT, on_cache (PcacheDrop n) p)
           else if dbSize p < n \<or> noContent then
             (if n > mxPgno p then
                (SQLITE_FULL, if n \<le> dbSize p then p else on_cache (PcacheDrop n) p)
              else
                let p = (if noContent then
                           let (a, rc, b) = (if n \<le> dbOrigSize p then bitvec_add (mem p) (pInJournal p) n
                                             else (mem p, SQLITE_OK, pInJournal p));
                               (rc, p) = addToSavepointBitvecs n (p\<lparr>mem := a, pInJournal := b\<rparr>)
                           in p
                         else p)
                in (SQLITE_OK, set_data n (replicate (pageSize p) 0) p))
           else or_drop n (readDbPage n) p)"

section \<open>Pages that share a sector\<close>

definition large_sector_range :: "nat \<Rightarrow> pager \<Rightarrow> nat \<times> nat" where
  "large_sector_range n p =
     (let nPagePerSector = sectorSize p div pageSize p;
          pg1 = (n - 1) - (n - 1) mod nPagePerSector + 1;
          nPageCount = dbSize p
      in (pg1, if n > nPageCount then (n - pg1) + 1
               else if pg1 + nPagePerSector - 1 > nPageCount then nPageCount + 1 - pg1
               else nPagePerSector))"

fun large_sector_loop :: "nat \<Rightarrow> nat list \<Rightarrow> bool \<Rightarrow> pager \<Rightarrow> rc \<times> bool \<times> pager" where
  "large_sector_loop n [] needSync p = (SQLITE_OK, needSync, p)"
| "large_sector_loop n (pg # pgs) needSync p =
     (let (rc, needSync, p) =
            (if pg = n \<or> \<not> in_journal p pg then
               (if pg \<noteq> PAGER_SJ_PGNO p then
                  (let (rc, p) = getPageNormal pg False p
                   in if rc = SQLITE_OK then
                        (let (rc, p) = pager_write pg p in (rc, needSync \<or> page_need_sync p pg, p))
                      else (rc, needSync, p))
                else (SQLITE_OK, needSync, p))
             else (SQLITE_OK, needSync \<or> page_need_sync p pg, p))
      in if rc = SQLITE_OK then large_sector_loop n pgs needSync p else (rc, needSync, p))"

definition pagerWriteLargeSector :: "nat \<Rightarrow> pager_op" where
  "pagerWriteLargeSector n p =
     (let p = p\<lparr>doNotSpill := doNotSpill p OR SPILLFLAG_NOSYNC\<rparr>;
          (pg1, nPage) = large_sector_range n p;
          (rc, needSync, p) = large_sector_loop n [pg1..<pg1 + nPage] False p;
          p = (if rc = SQLITE_OK \<and> needSync then fold set_need_sync [pg1..<pg1 + nPage] p else p)
      in (rc, p\<lparr>doNotSpill := doNotSpill p AND NOT SPILLFLAG_NOSYNC\<rparr>))"

definition PagerWrite :: "nat \<Rightarrow> pager_op" where
  "PagerWrite n p =
     (if (case PagerLookup p n of Some h \<Rightarrow> pg_writeable h | None \<Rightarrow> False) \<and> dbSize p \<ge> n then
        (if aSavepoint p \<noteq> [] then subjournalPageIfRequired n p else (SQLITE_OK, p))
      else if errCode p \<noteq> 0 then (errCode p, p)
      else if sectorSize p > pageSize p then pagerWriteLargeSector n p
      else pager_write n p)"

definition PagerDontWrite :: "nat \<Rightarrow> pager \<Rightarrow> pager" where
  "PagerDontWrite n p =
     (if (case PagerLookup p n of Some h \<Rightarrow> pg_dirty h | None \<Rightarrow> False) \<and> aSavepoint p = []
      then on_cache (on_page n (\<lambda>h. h\<lparr>pg_dont_write := True, pg_writeable := False\<rparr>)) p else p)"

section \<open>Writing pages to the database file\<close>

definition SQLITE_VERSION_NUMBER :: u32 where "SQLITE_VERSION_NUMBER = 3051002"

definition put_at :: "nat \<Rightarrow> u8 list \<Rightarrow> u8 list \<Rightarrow> u8 list" where
  "put_at off bs d = take off d @ bs @ drop (off + length bs) d"

definition pager_write_changecounter :: "nat \<Rightarrow> pager \<Rightarrow> pager" where
  "pager_write_changecounter n p =
     (let change_counter = Get4byte (\<lambda>i. dbFileVers p ! i) + 1;
          d = page_data p n;
          d = put_at 24 (Put4byte change_counter) d;
          d = put_at 92 (Put4byte change_counter) d;
          d = put_at 96 (Put4byte SQLITE_VERSION_NUMBER) d
      in set_data n d p)"

definition write_page_out :: "nat \<Rightarrow> pager_op" where
  "write_page_out pgno p =
     (let p = (if pgno = 1 then pager_write_changecounter pgno p else p);
          pData = page_data p pgno;
          (rc, p) = os_call (DWrite pgno pData) p;
          p = (if pgno = 1 then p\<lparr>dbFileVers := take 16 (drop 24 pData)\<rparr> else p);
          p = (if pgno > dbFileSize p then p\<lparr>dbFileSize := pgno\<rparr> else p)
      in (rc, p))"

fun pager_write_pagelist :: "nat list \<Rightarrow> pager_op" where
  "pager_write_pagelist [] p = (SQLITE_OK, p)"
| "pager_write_pagelist (pgno # pList) p =
     andThen
       (whenP (\<lambda>p. pgno \<le> dbSize p \<and> (case PagerLookup p pgno of Some h \<Rightarrow> \<not> pg_dont_write h | None \<Rightarrow> False))
         (write_page_out pgno))
       (pager_write_pagelist pList) p"

definition pagerStress :: "nat \<Rightarrow> pager_op" where
  "pagerStress n p =
     (if errCode p \<noteq> 0 then (SQLITE_OK, p)
      else if doNotSpill p \<noteq> 0 \<and>
        (doNotSpill p AND (SPILLFLAG_ROLLBACK OR SPILLFLAG_OFF) \<noteq> 0 \<or> page_need_sync p n) then (SQLITE_OK, p)
      else
        let (rc, p) =
          andThen (whenP (\<lambda>p. page_need_sync p n \<or> eState p = PAGER_WRITER_CACHEMOD) (syncJournal True))
         (andThen (pager_write_pagelist [n])
           (upd (on_cache (PcacheMakeClean n)))) p
        in pager_error p rc)"

definition pager_truncate :: "nat \<Rightarrow> pager_op" where
  "pager_truncate nPage =
     whenP (\<lambda>p. eState p \<ge> PAGER_WRITER_DBMOD \<or> eState p = PAGER_OPEN)
       (andThen os_ask
         (\<lambda>p. let currentSize = length (d_cur (disk p)) in
              if currentSize \<noteq> nPage then
                andThen (if currentSize > nPage then os_call (DTruncate nPage)
                         else os_call (DWrite nPage (replicate (pageSize p) 0)))
                  (upd (\<lambda>p. p\<lparr>dbFileSize := nPage\<rparr>)) p
              else (SQLITE_OK, p)))"

section \<open>Commit\<close>

definition pager_incr_changecounter :: pager_op where
  "pager_incr_changecounter =
     whenP (\<lambda>p. \<not> changeCountDone p \<and> dbSize p > 0)
       (andThen (getPageNormal 1 False)
       (andThen (PagerWrite 1)
         (upd (\<lambda>p. (pager_write_changecounter 1 p)\<lparr>changeCountDone := True\<rparr>))))"

definition PagerSync :: pager_op where
  "PagerSync = andThen os_ask (whenP (\<lambda>p. \<not> noSync p) (os_call DSync))"

definition PagerTruncateImage :: "nat \<Rightarrow> pager \<Rightarrow> pager" where
  "PagerTruncateImage nPage p = p\<lparr>dbSize := nPage\<rparr>"

definition CommitPhaseOne :: "bool \<Rightarrow> pager_op" where
  "CommitPhaseOne bNoSync p =
     (if errCode p \<noteq> 0 then (errCode p, p)
      else if eState p < PAGER_WRITER_CACHEMOD then (SQLITE_OK, p)
      else
        andThen pager_incr_changecounter
       (andThen (syncJournal False)
       (andThen (\<lambda>p. pager_write_pagelist (PcacheDirtyList (pPCache p)) p)
       (andThen (upd (on_cache PcacheCleanAll))
       (andThen (whenP (\<lambda>p. dbSize p > dbFileSize p)
          (\<lambda>p. pager_truncate (dbSize p - (if dbSize p = PAGER_SJ_PGNO p then 1 else 0)) p))
       (andThen (whenP (\<lambda>p. \<not> bNoSync) PagerSync)
         (upd (\<lambda>p. p\<lparr>eState := PAGER_WRITER_FINISHED\<rparr>))))))) p)"

definition releaseAllSavepoints :: "pager \<Rightarrow> pager" where
  "releaseAllSavepoints p =
     p\<lparr>sjfd := (if exclusiveMode p then sjfd p else []), aSavepoint := [], nSubRec := 0\<rparr>"

definition zeroJournalHdr :: "bool \<Rightarrow> pager_op" where
  "zeroJournalHdr doTruncate =
     whenP (\<lambda>p. journalOff p \<noteq> 0)
       (\<lambda>p. let iLimit = journalSizeLimit p in
            andThen (if doTruncate \<or> iLimit = Some 0 then os_call (JTruncate 0)
                     else os_call (JWrite 0 (replicate 28 0)))
           (andThen (whenP (\<lambda>p. \<not> noSync p) (os_call JSync))
              (case iLimit of
                 None \<Rightarrow> upd id
               | Some l \<Rightarrow> whenP (\<lambda>p. l > 0 \<and> length (j_cur (disk p)) > l) (os_call (JTruncate l)))) p)"

definition finalize_journal :: "bool \<Rightarrow> pager_op" where
  "finalize_journal hasSuper =
     whenP jfd_open
       (\<lambda>p. if journalMode p = JM_TRUNCATE then
              (let (rc, p) = whenP (\<lambda>p. journalOff p \<noteq> 0)
                     (andThen (os_call (JTruncate 0)) (whenP fullSync (os_call JSync))) p
               in (rc, p\<lparr>journalOff := 0\<rparr>))
            else if journalMode p = JM_PERSIST \<or> exclusiveMode p then
              (let (rc, p) = zeroJournalHdr hasSuper p in (rc, p\<lparr>journalOff := 0\<rparr>))
            else
              os_call (JDelete (extraSync p)) (p\<lparr>jfd_open := False\<rparr>))"

text \<open>\<open>reserved\<close> says whether the lock held is at least a \<open>RESERVED\<close> lock.\<close>

definition pager_end_transaction :: "bool \<Rightarrow> bool \<Rightarrow> bool \<Rightarrow> pager_op" where
  "pager_end_transaction reserved hasSuper bCommit p =
     (if eState p < PAGER_WRITER_LOCKED \<and> \<not> reserved then (SQLITE_OK, p)
      else
        let p = releaseAllSavepoints p;
            (rc, p) = finalize_journal hasSuper p;
            p = p\<lparr>pInJournal := None, nRec := 0\<rparr>;
            p = (if rc = SQLITE_OK
                 then on_cache (\<lambda>c. PcacheTruncate (pageSize p) (dbSize p) (PcacheCleanAll c)) p else p);
            (rc, p) = (if rc = SQLITE_OK \<and> bCommit \<and> dbFileSize p > dbSize p
                       then pager_truncate (dbSize p) p else (rc, p));
            (rc, p) = (if rc = SQLITE_OK \<and> bCommit then os_ask p else (rc, p));
            (rc2, p) = (if \<not> exclusiveMode p then os_ask p else (SQLITE_OK, p))
        in (if rc = SQLITE_OK then rc2 else rc, p\<lparr>eState := PAGER_READER\<rparr>))"

definition CommitPhaseTwo :: pager_op where
  "CommitPhaseTwo p =
     (if errCode p \<noteq> 0 then (errCode p, p)
      else if eState p = PAGER_WRITER_LOCKED \<and> exclusiveMode p \<and> journalMode p = JM_PERSIST
      then (SQLITE_OK, p\<lparr>eState := PAGER_READER\<rparr>)
      else (let (rc, p) = pager_end_transaction True False True p in pager_error p rc))"

end
