(* ===== verification/Pager_Playback.thy ===== *)
theory Pager_Playback
  imports Pager_Commit
begin

text \<open>
  Rolling a journal back: reading headers and records, \<open>pager_playback\<close>, the test whether a
  journal is hot, and the part of \<open>sqlite3PagerSharedLock\<close> that recovers a database; and
  that all of it terminates on every input.
\<close>

section \<open>Reading the journal\<close>

text \<open>
  Whether a 32-bit header field is a power of two is tested as the code does it, with
  \<open>(x-1)&x\<close>. \<open>sqlite3PagerSetPagesize\<close> is called here with an empty cache.
\<close>

definition SQLITE_MAX_PAGE_SIZE :: nat where "SQLITE_MAX_PAGE_SIZE = 65536"
definition MAX_SECTOR_SIZE :: nat where "MAX_SECTOR_SIZE = 0x10000"

definition valid_sizes :: "nat \<Rightarrow> nat \<Rightarrow> bool" where
  "valid_sizes iPageSize iSectorSize \<longleftrightarrow>
     \<not> (iPageSize < 512 \<or> iSectorSize < 32 \<or> iPageSize > SQLITE_MAX_PAGE_SIZE \<or> iSectorSize > MAX_SECTOR_SIZE \<or>
        (iPageSize - 1) AND iPageSize \<noteq> 0 \<or> (iSectorSize - 1) AND iSectorSize \<noteq> 0)"

text \<open>The number of records and the database size are \<open>Some\<close> when the result is \<open>SQLITE_OK\<close>.\<close>

definition readJournalHdr :: "bool \<Rightarrow> nat \<Rightarrow> pager \<Rightarrow> rc \<times> nat \<times> nat \<times> pager" where
  "readJournalHdr isHot journalSize p =
     (let p = p\<lparr>journalOff := journalHdrOffset p\<rparr>;
          jfd = j_cur (disk p);
          iHdrOff = journalOff p
      in if journalOff p + JOURNAL_HDR_SZ p > journalSize then (SQLITE_DONE, 0, 0, p)
         else
           let rc = (if isHot \<or> iHdrOff \<noteq> journalHdr p then
                       (case os_read jfd 8 iHdrOff of
                          None \<Rightarrow> SQLITE_IOERR_SHORT_READ
                        | Some aMagic \<Rightarrow> if aMagic \<noteq> aJournalMagic then SQLITE_DONE else SQLITE_OK)
                     else SQLITE_OK)
           in if rc \<noteq> SQLITE_OK then (rc, 0, 0, p)
              else (case (read32bits jfd (iHdrOff + 8), read32bits jfd (iHdrOff + 12), read32bits jfd (iHdrOff + 16)) of
                  (Some pNRec, Some ck, Some pDbSize) \<Rightarrow>
                    let p = p\<lparr>cksumInit := word_of_nat ck\<rparr> in
                    if journalOff p = 0 then
                      (case (read32bits jfd (iHdrOff + 20), read32bits jfd (iHdrOff + 24)) of
                         (Some iSectorSize, Some iPageSize) \<Rightarrow>
                           let iPageSize = (if iPageSize = 0 then pageSize p else iPageSize) in
                           if \<not> valid_sizes iPageSize iSectorSize then (SQLITE_DONE, pNRec, pDbSize, p)
                           else
                             let p = p\<lparr>pageSize := iPageSize, sectorSize := iSectorSize\<rparr>
                             in (SQLITE_OK, pNRec, pDbSize, p\<lparr>journalOff := journalOff p + JOURNAL_HDR_SZ p\<rparr>)
                       | _ \<Rightarrow> (SQLITE_IOERR_SHORT_READ, pNRec, pDbSize, p))
                    else (SQLITE_OK, pNRec, pDbSize, p\<lparr>journalOff := journalOff p + JOURNAL_HDR_SZ p\<rparr>)
                | _ \<Rightarrow> (SQLITE_IOERR_SHORT_READ, 0, 0, p)))"

text \<open>
  One record of the journal (\<open>isMainJrnl\<close>) or of the sub-journal at \<open>pOffset\<close>. \<open>pDone\<close> is the
  bitmap of pages already rolled back.
\<close>

definition playback_synced :: "bool \<Rightarrow> nat \<Rightarrow> nat \<Rightarrow> pager \<Rightarrow> bool" where
  "playback_synced isMainJrnl pOffset pgno p =
     (if isMainJrnl then noSync p \<or> pOffset \<le> journalHdr p else \<not> page_need_sync p pgno)"

definition restore_nReserve :: "nat \<Rightarrow> u8 list \<Rightarrow> pager \<Rightarrow> pager" where
  "restore_nReserve pgno aData p =
     (if pgno = 1 \<and> nReserve p \<noteq> aData ! 20 then p\<lparr>nReserve := aData ! 20\<rparr> else p)"

definition playback_page :: "bool \<Rightarrow> nat \<Rightarrow> nat \<Rightarrow> u8 list \<Rightarrow> pager_op" where
  "playback_page isMainJrnl pOffset pgno aData p =
     (let p = restore_nReserve pgno aData p;
          (rc, p) =
            (if (eState p \<ge> PAGER_WRITER_DBMOD \<or> eState p = PAGER_OPEN) \<and> playback_synced isMainJrnl pOffset pgno p then
               (let (rc, p) = os_call (DWrite pgno aData) p
                in (rc, if pgno > dbFileSize p then p\<lparr>dbFileSize := pgno\<rparr> else p))
             else if \<not> isMainJrnl \<and> PagerLookup p pgno = None then
               (let p = p\<lparr>doNotSpill := doNotSpill p OR SPILLFLAG_ROLLBACK\<rparr>;
                    (rc, p) = getPageNormal pgno True p;
                    p = p\<lparr>doNotSpill := doNotSpill p AND NOT SPILLFLAG_ROLLBACK\<rparr>
                in (rc, if rc = SQLITE_OK then on_cache (PcacheMakeDirty pgno) p else p))
             else (SQLITE_OK, p))
      in (rc,
          if PagerLookup p pgno \<noteq> None then
            (let p = set_data pgno aData p
             in if pgno = 1 then p\<lparr>dbFileVers := take 16 (drop 24 aData)\<rparr> else p)
          else p))"

definition pager_playback_one_page ::
  "bool \<Rightarrow> bool \<Rightarrow> nat \<Rightarrow> bitvec option \<Rightarrow> pager \<Rightarrow> rc \<times> nat \<times> bitvec option \<times> pager" where
  "pager_playback_one_page isMainJrnl isSavepnt pOffset pDone p =
     (let jfd = (if isMainJrnl then j_cur (disk p) else sjfd p)
      in case (read32bits jfd pOffset, os_read jfd (pageSize p) (pOffset + 4)) of
           (Some pgno, Some aData) \<Rightarrow>
             let pOffset = pOffset + (pageSize p + 4 + (if isMainJrnl then 4 else 0)) in
             if pgno = 0 \<or> pgno = PAGER_SJ_PGNO p then (SQLITE_DONE, pOffset, pDone, p)
             else if pgno > dbSize p \<or> BitvecTest pDone pgno = Some True then (SQLITE_OK, pOffset, pDone, p)
             else
               let rc = (if isMainJrnl then
                           (case read32bits jfd (pOffset - 4) of
                              None \<Rightarrow> SQLITE_IOERR_SHORT_READ
                            | Some cksum \<Rightarrow>
                                if \<not> isSavepnt \<and> unat (pager_cksum p aData) \<noteq> cksum then SQLITE_DONE else SQLITE_OK)
                         else SQLITE_OK)
               in if rc \<noteq> SQLITE_OK then (rc, pOffset, pDone, p)
                  else
                    let (a, rc, pDone) = bitvec_add (mem p) pDone pgno;
                        p = p\<lparr>mem := a\<rparr>
                    in if rc \<noteq> SQLITE_OK then (rc, pOffset, pDone, p)
                       else (let (rc, p) = playback_page isMainJrnl pOffset pgno aData p in (rc, pOffset, pDone, p))
         | _ \<Rightarrow> (SQLITE_IOERR_SHORT_READ, pOffset, pDone, p))"

text \<open>
  The name of a super-journal at the end of a journal, empty if there is none. Characters of
  the name are signed, so that each is subtracted from the checksum with its sign.
\<close>

definition readSuperJournal :: "u8 list \<Rightarrow> nat \<Rightarrow> u8 list" where
  "readSuperJournal c nSuper =
     (let szJ = length c
      in if szJ < 16 then []
         else (case (read32bits c (szJ - 16), read32bits c (szJ - 12), os_read c 8 (szJ - 8)) of
             (Some len, Some cksum, Some aMagic) \<Rightarrow>
               if len \<ge> nSuper \<or> len > szJ - 16 \<or> len = 0 \<or> aMagic \<noteq> aJournalMagic then []
               else (case os_read c len (szJ - 16 - len) of
                   Some zSuper \<Rightarrow>
                     if (word_of_nat cksum :: u32) - (\<Sum>z\<leftarrow>zSuper. scast z) \<noteq> 0 then [] else takeWhile (\<lambda>z. z \<noteq> 0) zSuper
                 | None \<Rightarrow> [])
           | _ \<Rightarrow> []))"

section \<open>Rolling back\<close>

text \<open>
  The loop over the records of one header. \<open>SQLITE_DONE\<close> from a record ends the whole
  rollback by moving to the end of the file; a short read ends it too; the flag tells the
  caller to stop.
\<close>

primrec playback_records :: "nat \<Rightarrow> nat \<Rightarrow> pager \<Rightarrow> rc \<times> bool \<times> pager" where
  "playback_records 0 szJ p = (SQLITE_OK, False, p)"
| "playback_records (Suc u) szJ p =
     (let (rc, off, _, p) = pager_playback_one_page True False (journalOff p) None p;
          p = p\<lparr>journalOff := off\<rparr>
      in if rc = SQLITE_OK then playback_records u szJ p
         else if rc = SQLITE_DONE then (SQLITE_OK, False, p\<lparr>journalOff := szJ\<rparr>)
         else if rc = SQLITE_IOERR_SHORT_READ then (SQLITE_OK, True, p)
         else (rc, True, p))"

definition playback_segment :: "bool \<Rightarrow> nat \<Rightarrow> bool \<Rightarrow> pager \<Rightarrow> rc \<times> bool \<times> bool \<times> pager" where
  "playback_segment isHot szJ needPagerReset p =
     (case readJournalHdr isHot szJ p of (rc, nR, mxPg, p) \<Rightarrow>
        if rc \<noteq> SQLITE_OK then (if rc = SQLITE_DONE then SQLITE_OK else rc, True, needPagerReset, p)
        else
          let nR = (if nR = 0xffffffff then (szJ - JOURNAL_HDR_SZ p) div JOURNAL_PG_SZ p else nR);
              nR = (if nR = 0 \<and> \<not> isHot \<and> journalHdr p + JOURNAL_HDR_SZ p = journalOff p
                      then (szJ - journalOff p) div JOURNAL_PG_SZ p else nR);
              (rc, p) = (if journalOff p = JOURNAL_HDR_SZ p then
                           andThen (pager_truncate mxPg)
                             (upd (\<lambda>p. p\<lparr>dbSize := mxPg, mxPgno := max (mxPgno p) mxPg\<rparr>)) p
                         else (SQLITE_OK, p))
          in if rc \<noteq> SQLITE_OK then (rc, True, needPagerReset, p)
             else
               let p = (if nR \<noteq> 0 \<and> needPagerReset then on_cache (PcacheClear (pageSize p)) p else p);
                   (rc, stop, p) = playback_records nR szJ p
               in (rc, stop, needPagerReset \<and> nR = 0, p))"

text \<open>
  The outer loop. Each header that is read moves \<open>journalOff\<close> forward by a sector at least, so
  the size of the file bounds the number of rounds.
\<close>

fun playback_loop :: "nat \<Rightarrow> bool \<Rightarrow> nat \<Rightarrow> bool \<Rightarrow> pager \<Rightarrow> (rc \<times> pager) option" where
  "playback_loop 0 isHot szJ needPagerReset p = None"
| "playback_loop (Suc fuel) isHot szJ needPagerReset p =
     (case playback_segment isHot szJ needPagerReset p of (rc, stop, needPagerReset, p) \<Rightarrow>
        if rc \<noteq> SQLITE_OK \<or> stop then Some (rc, p)
        else playback_loop fuel isHot szJ needPagerReset p)"

text \<open>
  The code from the label \<open>end_playback\<close> on. If the journal names a super-journal, it is deleted
  here when no other journal needs it; that is another file and not part of the model.
\<close>

definition end_playback :: "nat \<Rightarrow> nat \<Rightarrow> nat \<Rightarrow> rc \<times> pager \<Rightarrow> rc \<times> pager" where
  "end_playback mxPathname savedPageSize savedSectorSize r =
     (let (rc, p) = r;
          p = (if rc = SQLITE_OK then p\<lparr>pageSize := savedPageSize\<rparr> else p);
          p = p\<lparr>changeCountDone := False\<rparr>;
          hasSuper = (readSuperJournal (j_cur (disk p)) (1 + mxPathname) \<noteq> []);
          (rc, p) = (if rc = SQLITE_OK then
                       andThen (whenP (\<lambda>p. eState p \<ge> PAGER_WRITER_DBMOD \<or> eState p = PAGER_OPEN) PagerSync)
                         (pager_end_transaction True hasSuper False) p
                     else (rc, p))
      in (rc, p\<lparr>sectorSize := savedSectorSize\<rparr>))"

text \<open>\<open>superExists\<close> says whether a file of the given name exists.\<close>

definition pager_playback :: "(u8 list \<Rightarrow> bool) \<Rightarrow> nat \<Rightarrow> bool \<Rightarrow> pager \<Rightarrow> (rc \<times> pager) option" where
  "pager_playback superExists mxPathname isHot p =
     (let szJ = length (j_cur (disk p));
          zSuper = readSuperJournal (j_cur (disk p)) (1 + mxPathname);
          finish = end_playback mxPathname (pageSize p) (sectorSize p)
      in if zSuper \<noteq> [] \<and> \<not> superExists zSuper then Some (finish (SQLITE_OK, p))
         else map_option finish (playback_loop (szJ + 2) isHot szJ isHot (p\<lparr>journalOff := 0\<rparr>)))"

section \<open>Recovery\<close>

definition hasHotJournal :: "bool \<Rightarrow> pager \<Rightarrow> bool \<times> pager" where
  "hasHotJournal locked p =
     (if \<not> j_exists (disk p) \<or> locked then (False, p)
      else if length (d_cur (disk p)) = 0 \<and> \<not> jfd_open p then
        (let (rc, p) = os_ask p in (False, if rc = SQLITE_OK then do_io (JDelete False) p else p))
      else (case os_read (j_cur (disk p)) 1 0 of Some [first] \<Rightarrow> first \<noteq> 0 | _ \<Rightarrow> False, p))"

definition pagerSyncHotJournal :: pager_op where
  "pagerSyncHotJournal =
     andThen (whenP (\<lambda>p. \<not> noSync p) (os_call JSync))
       (upd (\<lambda>p. p\<lparr>journalHdr := length (j_cur (disk p))\<rparr>))"

definition pager_reset :: "pager \<Rightarrow> pager" where
  "pager_reset p = on_cache (PcacheClear (pageSize p)) p"

definition pager_unlock :: "pager \<Rightarrow> pager" where
  "pager_unlock p =
     (let p = releaseAllSavepoints (p\<lparr>pInJournal := None\<rparr>);
          p = (if \<not> exclusiveMode p then (snd (os_ask p))\<lparr>jfd_open := False, eState := PAGER_OPEN\<rparr> else p);
          p = (if errCode p \<noteq> 0 then
                 (pager_reset p)\<lparr>changeCountDone := False, eState := PAGER_OPEN, errCode := 0\<rparr> else p)
      in p\<lparr>journalOff := 0, journalHdr := 0\<rparr>)"

definition pagerPagecount :: "pager \<Rightarrow> nat \<times> pager" where
  "pagerPagecount p =
     (let nPage = length (d_cur (disk p)) in (nPage, p\<lparr>mxPgno := max (mxPgno p) nPage\<rparr>))"

definition recover_hot :: "(u8 list \<Rightarrow> bool) \<Rightarrow> nat \<Rightarrow> pager \<Rightarrow> (rc \<times> pager) option" where
  "recover_hot superExists mxPathname p =
     (let (rc, p) = andThen os_ask
            (whenP (\<lambda>p. \<not> jfd_open p) (andThen os_ask
               (whenP (\<lambda>p. j_exists (disk p)) (andThen os_ask (upd (\<lambda>p. p\<lparr>jfd_open := True\<rparr>)))))) p
      in if rc \<noteq> SQLITE_OK then Some (rc, p)
         else if jfd_open p then
           (let (rc, p) = pagerSyncHotJournal p
            in if rc \<noteq> SQLITE_OK then Some (rc, p)
               else map_option (\<lambda>(rc, p). (rc, p\<lparr>eState := PAGER_OPEN\<rparr>)) (pager_playback superExists mxPathname True p))
         else Some (SQLITE_OK, p))"

definition check_version :: "pager_op" where
  "check_version =
     whenP hasHeldSharedLock
       (andThen os_ask
         (upd (\<lambda>p. let vers = (if d_cur (disk p) = [] then replicate 16 0 else take 16 (drop 24 (hd (d_cur (disk p)))))
                   in if dbFileVers p \<noteq> vers then pager_reset p else p)))"

definition PagerSharedLock :: "(u8 list \<Rightarrow> bool) \<Rightarrow> nat \<Rightarrow> bool \<Rightarrow> pager \<Rightarrow> (rc \<times> pager) option" where
  "PagerSharedLock superExists mxPathname locked p =
     map_option (\<lambda>(rc, p).
         if rc \<noteq> SQLITE_OK then (rc, pager_unlock p)
         else (rc, p\<lparr>eState := PAGER_READER, hasHeldSharedLock := True\<rparr>))
       (if eState p = PAGER_OPEN then
          (let (rc, p) = os_ask p
           in if rc \<noteq> SQLITE_OK then Some (rc, p)
              else
                let (hot, p) = hasHotJournal locked p;
                    r = (if hot then
                           map_option (\<lambda>(rc, p). if rc \<noteq> SQLITE_OK then pager_error p rc else (rc, p))
                             (recover_hot superExists mxPathname p)
                         else Some (SQLITE_OK, p))
                in map_option (\<lambda>(rc, p). if rc \<noteq> SQLITE_OK then (rc, p)
                     else andThen check_version
                            (upd (\<lambda>p. let (n, p) = pagerPagecount p in p\<lparr>dbSize := n\<rparr>)) p) r)
        else Some (SQLITE_OK, p))"

section \<open>Rolling back a transaction of one's own\<close>

abbreviation (input) SQLITE_ABORT :: rc where "SQLITE_ABORT \<equiv> 4"

definition PagerRollback :: "(u8 list \<Rightarrow> bool) \<Rightarrow> nat \<Rightarrow> pager \<Rightarrow> (rc \<times> pager) option" where
  "PagerRollback superExists mxPathname p =
     (if eState p = PAGER_ERROR then Some (errCode p, p)
      else if eState p \<le> PAGER_READER then Some (SQLITE_OK, p)
      else if \<not> jfd_open p \<or> eState p = PAGER_WRITER_LOCKED then
        (let st = eState p; (rc, p) = pager_end_transaction True False False p
         in Some (if st > PAGER_WRITER_LOCKED then (rc, p\<lparr>errCode := SQLITE_ABORT, eState := PAGER_ERROR\<rparr>)
                  else pager_error p rc))
      else map_option (\<lambda>(rc, p). pager_error p rc) (pager_playback superExists mxPathname False p))"

definition pagerUnlockAndRollback :: "(u8 list \<Rightarrow> bool) \<Rightarrow> nat \<Rightarrow> pager \<Rightarrow> pager option" where
  "pagerUnlockAndRollback superExists mxPathname p =
     map_option pager_unlock
       (if eState p \<noteq> PAGER_ERROR \<and> eState p \<noteq> PAGER_OPEN then
          if eState p \<ge> PAGER_WRITER_LOCKED then map_option snd (PagerRollback superExists mxPathname p)
          else Some (if \<not> exclusiveMode p then snd (pager_end_transaction False False False p) else p)
        else Some p)"

section \<open>Termination\<close>

text \<open>What reading back leaves alone.\<close>

lemma on_cache_sel [simp]:
  "sectorSize (on_cache f p) = sectorSize p" "journalOff (on_cache f p) = journalOff p"
  "sectorSize (set_data n d p) = sectorSize p" "journalOff (set_data n d p) = journalOff p"
  by (simp_all add: on_cache_def set_data_def)

abbreviation (input) steady :: "pager_op \<Rightarrow> bool" where
  "steady \<equiv> keeps (\<lambda>p. (sectorSize p, journalOff p))"

lemma steady_ask: "steady os_ask" by (rule keeps_ask) simp
lemma steady_io: "steady (os_call op)" by (rule keeps_call) (simp_all add: do_io_def)

lemma steady_truncate: "steady (pager_truncate n)"
proof -
  have u: "steady (upd (\<lambda>p. p\<lparr>dbFileSize := k\<rparr>))" for k by (simp add: keeps_def upd_def)
  have "steady (\<lambda>p. let currentSize = length (d_cur (disk p)) in
              if currentSize \<noteq> n then
                andThen (if currentSize > n then os_call (DTruncate n)
                         else os_call (DWrite n (replicate (pageSize p) 0)))
                  (upd (\<lambda>p. p\<lparr>dbFileSize := n\<rparr>)) p
              else (SQLITE_OK, p))"
    using keeps_andThen [OF steady_io u] by (simp add: keeps_def Let_def)
  from keeps_andThen [OF steady_ask this] show ?thesis by (simp add: pager_truncate_def keeps_def whenP_def)
qed

lemma restore_nReserve_sel [simp]:
  "sectorSize (restore_nReserve n d p) = sectorSize p" "journalOff (restore_nReserve n d p) = journalOff p"
  by (simp_all add: restore_nReserve_def)

lemma steady_page: "steady (playback_page True off n d)"
  unfolding keeps_def
proof
  fix p
  obtain rc q where w: "os_call (DWrite n d) (restore_nReserve n d p) = (rc, q)" by fastforce
  then have "sectorSize q = sectorSize p" "journalOff q = journalOff p"
    using keepsD [OF steady_io w] by simp_all
  then show "(sectorSize (snd (playback_page True off n d p)), journalOff (snd (playback_page True off n d p))) =
      (sectorSize p, journalOff p)"
    by (simp add: playback_page_def w Let_def)
qed

lemma one_page_steady:
  assumes run: "pager_playback_one_page True sv off b p = (rc, off', b', p')"
  shows "sectorSize p' = sectorSize p \<and> journalOff p' = journalOff p \<and> off \<le> off'"
proof (cases "read32bits (j_cur (disk p)) off")
  case None
  then show ?thesis using run by (simp add: pager_playback_one_page_def)
next
  case (Some n)
  note n = this
  show ?thesis
  proof (cases "os_read (j_cur (disk p)) (pageSize p) (off + 4)")
    case None
    then show ?thesis using run n by (simp add: pager_playback_one_page_def)
  next
    case (Some d)
    obtain a r2 b2 where add: "bitvec_add (mem p) b n = (a, r2, b2)" by (metis prod_cases3)
    obtain r3 q where pp: "playback_page True (off + (8 + pageSize p)) n d (p\<lparr>mem := a\<rparr>) = (r3, q)" by fastforce
    have "sectorSize q = sectorSize p" "journalOff q = journalOff p"
      using steady_page [of "off + (8 + pageSize p)" n d, unfolded keeps_def, rule_format, of "p\<lparr>mem := a\<rparr>"] pp by simp_all
    then show ?thesis using run n Some
      by (auto simp: pager_playback_one_page_def Let_def add pp split: if_splits)
  qed
qed

lemma journalHdr_le:
  assumes pos: "0 < sectorSize p"
  shows "journalOff p \<le> journalHdrOffset p"
proof (cases "journalOff p")
  case (Suc k)
  have "k = sectorSize p * (k div sectorSize p) + k mod sectorSize p" by (rule mult_div_mod_eq [symmetric])
  then have "Suc k \<le> sectorSize p * (k div sectorSize p) + sectorSize p" using mod_less_divisor [OF pos, of k] by linarith
  then show ?thesis by (simp add: journalHdrOffset_def JOURNAL_HDR_SZ_def Suc algebra_simps)
qed simp

lemma segment_in_file:
  assumes run: "playback_segment isHot szJ r p = (rc, False, r', p')" and s: "0 < sectorSize p" 
  shows "journalOff p < szJ"
proof (rule ccontr)
  assume c: "\<not> journalOff p < szJ"
  have "szJ < journalHdrOffset p + sectorSize p" using c journalHdr_le [OF s] s by simp
  then have "readJournalHdr isHot szJ p = (SQLITE_DONE, 0, 0, p\<lparr>journalOff := journalHdrOffset p\<rparr>)"
    by (simp add: readJournalHdr_def Let_def JOURNAL_HDR_SZ_def)
  then show False using run by (simp add: playback_segment_def)
qed

text \<open>The records of a segment only move the offset on, or to the end of the file.\<close>

lemma records_advance:
  "playback_records u szJ p = (rc, stop, p') \<Longrightarrow>
     sectorSize p' = sectorSize p \<and> (min szJ (journalOff p) \<le> journalOff p')"
proof (induction u arbitrary: p)
  case (Suc u)
  obtain r off b q where o: "pager_playback_one_page True False (journalOff p) None p = (r, off, b, q)"
    by (metis prod_cases4)
  note S = one_page_steady [OF o]
  show ?case
  proof (cases "r = SQLITE_OK")
    case True
    then have "playback_records u szJ (q\<lparr>journalOff := off\<rparr>) = (rc, stop, p')" using Suc.prems o by simp
    from Suc.IH [OF this] show ?thesis using S by auto
  next
    case False
    then show ?thesis using Suc.prems o S by (auto simp: Let_def split: if_splits)
  qed
qed simp

text \<open>A header that is read lies in the file, and the offset moves past it.\<close>

lemma header_advance:
  assumes run: "readJournalHdr isHot szJ p = (SQLITE_OK, n, m, p')" and s: "journalOff p = 0 \<or> 0 < sectorSize p"
  shows "0 < sectorSize p' \<and> journalOff p < journalOff p' \<and> (journalOff p = 0 \<or> journalOff p' \<le> szJ)"
proof -
  note le = journalHdr_le [of p]
  have z: "journalHdrOffset p = 0 \<Longrightarrow> journalOff p = 0" using journalHdr_le [of p] s by auto
  have z0: "journalOff p = 0 \<Longrightarrow> journalHdrOffset p = 0" by (simp add: journalHdrOffset_def)
  show ?thesis
    using run s le z z0
    by (auto simp: readJournalHdr_def Let_def JOURNAL_HDR_SZ_def valid_sizes_def split: if_splits option.splits)
qed

lemma segment_advance:
  assumes run: "playback_segment isHot szJ r p = (rc, False, r', p')" and s: "journalOff p = 0 \<or> 0 < sectorSize p"
  shows "0 < sectorSize p' \<and> min szJ (Suc (journalOff p)) \<le> journalOff p'"
proof -
  obtain rc1 n m q where h: "readJournalHdr isHot szJ p = (rc1, n, m, q)" by (metis prod_cases4)
  have ok: "rc1 = SQLITE_OK" using run h by (auto simp: playback_segment_def split: if_splits)
  note H = header_advance [OF h [unfolded ok] s]
  define grow where "grow = andThen (pager_truncate m) (upd (\<lambda>p. p\<lparr>dbSize := m, mxPgno := max (mxPgno p) m\<rparr>))"
  have "steady grow" unfolding grow_def by (intro keeps_andThen steady_truncate) (simp add: keeps_def upd_def)
  then have "steady (\<lambda>q. if journalOff q = JOURNAL_HDR_SZ q then grow q else (SQLITE_OK, q))"
    by (simp add: keeps_def)
  moreover obtain rc2 q2 where t: "(if journalOff q = JOURNAL_HDR_SZ q then grow q else (SQLITE_OK, q)) = (rc2, q2)" by fastforce
  ultimately have S: "sectorSize q2 = sectorSize q" "journalOff q2 = journalOff q"
    using keepsD [of _ "\<lambda>q. if journalOff q = JOURNAL_HDR_SZ q then grow q else (SQLITE_OK, q)" q rc2 q2] by blast+
  have "rc2 = SQLITE_OK" using run h ok t by (auto simp: playback_segment_def Let_def grow_def [symmetric] split: if_splits)
  define nR0 where "nR0 = (if n = 0xffffffff then (szJ - JOURNAL_HDR_SZ q) div JOURNAL_PG_SZ q else n)"
  define nR where "nR = (if nR0 = 0 \<and> \<not> isHot \<and> journalHdr q + JOURNAL_HDR_SZ q = journalOff q
                           then (szJ - journalOff q) div JOURNAL_PG_SZ q else nR0)"
  define q3 where "q3 = (if nR \<noteq> 0 \<and> r then on_cache (PcacheClear (pageSize q2)) q2 else q2)"
  obtain rc4 stop q4 where pr: "playback_records nR szJ q3 = (rc4, stop, q4)" by (metis prod_cases3)
  have "playback_segment isHot szJ r p = (rc4, stop, r \<and> nR = 0, q4)"
    unfolding playback_segment_def h case_prod_conv ok grow_def [symmetric] Let_def t
    using \<open>rc2 = SQLITE_OK\<close> pr by (simp only: simp_thms if_False case_prod_conv nR0_def [symmetric] nR_def [symmetric] q3_def [symmetric])
  then have "playback_records nR szJ q3 = (rc, False, p')" using run pr by simp
  from records_advance [OF this] have "sectorSize p' = sectorSize q" "min szJ (journalOff q) \<le> journalOff p'"
    using S by (simp_all add: q3_def split: if_splits)
  then show ?thesis using H by auto
qed

lemma loop_terminates:
  "0 < sectorSize p \<Longrightarrow> szJ < fuel + journalOff p \<Longrightarrow> 0 < fuel \<Longrightarrow> playback_loop fuel isHot szJ r p \<noteq> None"
proof (induction fuel arbitrary: r p)
  case (Suc fuel)
  obtain rc stop r' q where seg: "playback_segment isHot szJ r p = (rc, stop, r', q)" by (metis prod_cases4)
  show ?case
  proof (cases "rc \<noteq> SQLITE_OK \<or> stop")
    case True
    then show ?thesis using seg by simp
  next
    case False
    then have A: "0 < sectorSize q" "min szJ (Suc (journalOff p)) \<le> journalOff q" "journalOff p < szJ"
      using segment_advance [of isHot szJ r p rc r' q] segment_in_file [of isHot szJ r p rc r' q] seg Suc.prems by auto
    then have "playback_loop fuel isHot szJ r' q \<noteq> None"
      by (intro Suc.IH) (use Suc.prems in auto)
    then show ?thesis using seg False by simp
  qed
qed simp


lemma playback_returns: "pager_playback superExists mxPathname isHot p \<noteq> None"
proof -
  let ?szJ = "length (j_cur (disk p))"
  let ?p = "p\<lparr>journalOff := 0\<rparr>"
  obtain rc stop r' q where seg: "playback_segment isHot ?szJ isHot ?p = (rc, stop, r', q)" by (metis prod_cases4)
  have "playback_loop (?szJ + 2) isHot ?szJ isHot ?p \<noteq> None"
  proof (cases "rc \<noteq> SQLITE_OK \<or> stop ")
    case True
    then show ?thesis using seg by auto
  next
    case False
    then have "0 < sectorSize q "
      using segment_advance [of isHot ?szJ isHot ?p rc r' q] seg by simp
    then have "playback_loop (Suc ?szJ) isHot ?szJ r' q \<noteq> None"
      by (intro loop_terminates) (use False in auto)
    then show ?thesis using seg False by simp
  qed
  then show ?thesis by (simp add: pager_playback_def Let_def del: not_None_eq)
qed

text \<open>
  C8. Recovery terminates: whatever bytes the journal and the database hold, taking the shared lock
  returns, whether the journal is rolled back or not.
\<close>

theorem shared_lock_terminates:
  "\<exists>rc p'. PagerSharedLock superExists mxPathname locked p = Some (rc, p')"
proof -
  have "recover_hot superExists mxPathname q = None \<longleftrightarrow> False" for q
    using playback_returns [of superExists mxPathname True]
    by (simp add: recover_hot_def Let_def del: not_None_eq split: prod.split)
  then have "PagerSharedLock superExists mxPathname locked p = None \<longleftrightarrow> False"
    by (simp add: PagerSharedLock_def Let_def del: not_None_eq split: prod.split)
  then show ?thesis by (cases "PagerSharedLock superExists mxPathname locked p") auto
qed

end
