(* ===== verification/Pager_Format.thy ===== *)
theory Pager_Format
  imports Pager_Playback
begin

text \<open>
  The rollback journal as a format: what a journal must look like for \<open>pager_playback\<close> to
  restore a database, in which disks every crash leaves such a journal, and how the format
  survives further writes. A journal is a list of segments, each with its checksum
  initialiser and its records, starting at sector boundaries; after the last one no header
  follows.
\<close>

section \<open>The format\<close>

record jgeom =
  jg_ps :: nat
  jg_ss :: nat

type_synonym jrec = "nat \<times> u8 list"
type_synonym jseg = "u32 \<times> jrec list"

definition header_tail :: "jgeom \<Rightarrow> u32 \<Rightarrow> nat \<Rightarrow> u8 list" where
  "header_tail g ck n0 = Put4byte ck @ Put4byte (word_of_nat n0) @
     Put4byte (word_of_nat (jg_ss g)) @ Put4byte (word_of_nat (jg_ps g))"

definition record_bytes :: "jgeom \<Rightarrow> u32 \<Rightarrow> jrec \<Rightarrow> u8 list" where
  "record_bytes g ck r = Put4byte (word_of_nat (fst r)) @ snd r @ Put4byte (cksum_loop (snd r) (jg_ps g - 200) ck)"

definition records_bytes :: "jgeom \<Rightarrow> u32 \<Rightarrow> jrec list \<Rightarrow> u8 list" where
  "records_bytes g ck rs = concat (map (record_bytes g ck) rs)"

definition seg_end :: "jgeom \<Rightarrow> nat \<Rightarrow> jseg \<Rightarrow> nat" where
  "seg_end g h s = h + jg_ss g + length (snd s) * (jg_ps g + 8)"

definition round_up :: "nat \<Rightarrow> nat \<Rightarrow> nat" where
  "round_up ss x = (if x \<noteq> 0 then ((x - 1) div ss + 1) * ss else 0)"

definition seg_at :: "jgeom \<Rightarrow> nat \<Rightarrow> u8 list \<Rightarrow> nat \<Rightarrow> jseg \<Rightarrow> bool" where
  "seg_at g n0 c h s \<longleftrightarrow>
     bytes_at c h (aJournalMagic @ Put4byte (word_of_nat (length (snd s))) @ header_tail g (fst s) n0) \<and>
     h + jg_ss g \<le> length c \<and>
     bytes_at c (h + jg_ss g) (records_bytes g (fst s) (snd s))"

fun segs_at :: "jgeom \<Rightarrow> nat \<Rightarrow> u8 list \<Rightarrow> nat \<Rightarrow> jseg list \<Rightarrow> bool" where
  "segs_at g n0 c h [] \<longleftrightarrow> magic_free c h"
| "segs_at g n0 c h (s # ss) \<longleftrightarrow> seg_at g n0 c h s \<and> segs_at g n0 c (round_up (jg_ss g) (seg_end g h s)) ss"

fun segs_end :: "jgeom \<Rightarrow> nat \<Rightarrow> jseg list \<Rightarrow> nat" where
  "segs_end g h [] = h"
| "segs_end g h (s # ss) = segs_end g (round_up (jg_ss g) (seg_end g h s)) ss"

definition seg_pages :: "jseg list \<Rightarrow> nat set" where
  "seg_pages segs = fst ` set (concat (map snd segs))"

definition lock_page :: "jgeom \<Rightarrow> nat" where "lock_page g = PENDING_BYTE div jg_ps g + 1"

text \<open>The records hold pages of the original database, and their number can be stored.\<close>

definition segs_good :: "jgeom \<Rightarrow> u8 list list \<Rightarrow> jseg list \<Rightarrow> bool" where
  "segs_good g orig segs \<longleftrightarrow>
     (\<forall>s\<in>set segs. length (snd s) < 2 ^ 32 - 1 \<and>
        (\<forall>r\<in>set (snd s). 0 < fst r \<and> fst r \<le> length orig \<and> fst r \<noteq> lock_page g \<and> snd r = orig ! (fst r - 1)))"

definition geom_ok :: "jgeom \<Rightarrow> u8 list list \<Rightarrow> bool" where
  "geom_ok g orig \<longleftrightarrow> valid_sizes (jg_ps g) (jg_ss g) \<and> length orig < 2 ^ 32 - 1 \<and> (\<forall>d\<in>set orig. length d = jg_ps g)"

text \<open>
  What a crash must leave: without a journal the original database; with one, a chain of
  segments whose records cover every page of the database that is not intact.
\<close>

definition journal_ok :: "jgeom \<Rightarrow> u8 list list \<Rightarrow> jseg list \<Rightarrow> u8 list \<Rightarrow> u8 list list \<Rightarrow> bool" where
  "journal_ok g orig segs c db \<longleftrightarrow>
     segs_at g (length orig) c 0 segs \<and> segs_good g orig segs \<and> (segs = [] \<longrightarrow> db = orig) \<and>
     (\<forall>q<length orig. Suc q \<notin> seg_pages segs \<longrightarrow> q < length db \<and> db ! q = orig ! q) \<and>
     (db = [] \<longrightarrow> orig = [])"

definition recoverable :: "jgeom \<Rightarrow> u8 list list \<Rightarrow> u8 list option \<Rightarrow> u8 list list \<Rightarrow> bool" where
  "recoverable g orig j db \<longleftrightarrow>
     (case j of None \<Rightarrow> db = orig | Some c \<Rightarrow> \<exists>segs. journal_ok g orig segs c db)"

definition safe_disk :: "jgeom \<Rightarrow> u8 list list \<Rightarrow> disk \<Rightarrow> bool" where
  "safe_disk g orig d \<longleftrightarrow> (\<forall>j db. crash_disk (jg_ss g) d j db \<longrightarrow> recoverable g orig j db)"

text \<open>The part of a disk's safety that concerns the database file.\<close>

definition db_covered :: "u8 list list \<Rightarrow> jseg list \<Rightarrow> disk \<Rightarrow> bool" where
  "db_covered orig segs d \<longleftrightarrow>
     (segs = [] \<longrightarrow> d_touched d = {} \<and> d_dur d = orig) \<and>
     (\<forall>q<length orig. Suc q \<notin> seg_pages segs \<longrightarrow> Suc q \<notin> d_touched d \<and> q < length (d_dur d) \<and> d_dur d ! q = orig ! q) \<and>
     (orig \<noteq> [] \<longrightarrow> 0 < d_low d)"

definition journal_covers :: "jgeom \<Rightarrow> u8 list list \<Rightarrow> disk \<Rightarrow> u8 list \<Rightarrow> bool" where
  "journal_covers g orig d c \<longleftrightarrow>
     (\<exists>segs. segs_at g (length orig) c 0 segs \<and> segs_good g orig segs \<and> db_covered orig segs d)"

lemma safe_diskI:
  assumes "\<And>c. crash_file (jg_ss g) (j_dur d) (j_pend d) c \<Longrightarrow> journal_covers g orig d c"
    "\<not> (j_exists d \<and> j_sure d) \<Longrightarrow> d_touched d = {} \<and> d_dur d = orig"
  shows "safe_disk g orig d"
  unfolding safe_disk_def
proof (intro allI impI)
  fix j db
  assume crash: "crash_disk (jg_ss g) d j db"
  show "recoverable g orig j db"
  proof (cases j)
    case None
    then show ?thesis using crash assms(2) by (simp add: crash_disk_def crash_db_def recoverable_def)
  next
    case (Some c)
    then have c: "crash_file (jg_ss g) (j_dur d) (j_pend d) c" and db: "crash_db d db"
      using crash by (simp_all add: crash_disk_def)
    from assms(1) [OF c] obtain segs where
      segs: "segs_at g (length orig) c 0 segs" "segs_good g orig segs" "db_covered orig segs d"
      by (auto simp: journal_covers_def)
    have "segs = [] \<longrightarrow> db = orig" using segs(3) db by (simp add: db_covered_def crash_db_def)
    moreover have "q < length db \<and> db ! q = orig ! q" if "q < length orig" "Suc q \<notin> seg_pages segs" for q
      using segs(3) db that unfolding db_covered_def crash_db_def by metis
    moreover have "db = [] \<longrightarrow> orig = []" using segs(3) db by (auto simp: db_covered_def crash_db_def)
    ultimately have "journal_ok g orig segs c db" using segs(1,2) by (simp add: journal_ok_def)
    with Some show ?thesis by (auto simp: recoverable_def)
  qed
qed

section \<open>Sizes and rounding\<close>

lemma length_header_tail [simp]: "length (header_tail g ck n0) = 16"
  by (simp add: header_tail_def)

lemma length_records_bytes:
  "\<forall>r\<in>set rs. length (snd r) = jg_ps g \<Longrightarrow> length (records_bytes g ck rs) = length rs * (jg_ps g + 8)"
  by (induction rs) (auto simp: records_bytes_def record_bytes_def)

lemma round_up_ge: "0 < ss \<Longrightarrow> x \<le> round_up ss x"
proof (cases x)
  case (Suc y)
  assume "0 < ss"
  then have "y < (y div ss + 1) * ss" by (simp add: dividend_less_div_times)
  then show ?thesis by (simp add: round_up_def Suc)
qed (simp add: round_up_def)

lemma round_up_mult: "ss dvd round_up ss x"
  by (simp add: round_up_def)

lemma round_up_id: "0 < ss \<Longrightarrow> ss dvd x \<Longrightarrow> round_up ss x = x"
proof -
  assume pos: "0 < ss" and "ss dvd x"
  then obtain k where x: "x = ss * k" by auto
  show ?thesis
  proof (cases k)
    case (Suc j)
    then have "x - 1 = (ss - 1) + ss * j" using x pos by simp
    then have "(x - 1) div ss = (ss - 1) div ss + j" using pos by (simp only: div_mult_self2)
    then have "(x - 1) div ss = j" using pos by simp
    then show ?thesis using x Suc pos by (simp add: round_up_def mult.commute)
  qed (simp add: x round_up_def)
qed

lemma journalHdrOffset_round_up: "journalHdrOffset p = round_up (sectorSize p) (journalOff p)"
  by (simp add: journalHdrOffset_def round_up_def JOURNAL_HDR_SZ_def)

lemma valid_sizesD:
  "valid_sizes ps ss \<Longrightarrow> 512 \<le> ps \<and> ps \<le> 65536 \<and> 32 \<le> ss \<and> ss \<le> 65536"
  by (auto simp: valid_sizes_def SQLITE_MAX_PAGE_SIZE_def MAX_SECTOR_SIZE_def)

lemma geom_okD:
  assumes "geom_ok g orig"
  shows "512 \<le> jg_ps g" "jg_ps g \<le> 65536" "32 \<le> jg_ss g" "jg_ss g \<le> 65536" "valid_sizes (jg_ps g) (jg_ss g)"
    "length orig < 2 ^ 32 - 1" "q < length orig \<Longrightarrow> length (orig ! q) = jg_ps g"
  using assms valid_sizesD [of "jg_ps g" "jg_ss g"] unfolding geom_ok_def by auto

lemma unat_small: "n < 2 ^ 32 \<Longrightarrow> unat (word_of_nat n :: u32) = n"
  by (simp add: unat_of_nat take_bit_nat_eq_self)

lemma seg_end_gt: "h + jg_ss g \<le> seg_end g h s"
  by (simp add: seg_end_def)

lemma segs_end_ge: "0 < jg_ss g \<Longrightarrow> h \<le> segs_end g h segs"
proof (induction segs arbitrary: h)
  case (Cons s ss)
  have "h \<le> round_up (jg_ss g) (seg_end g h s)"
    using round_up_ge [OF Cons.prems, of "seg_end g h s"] seg_end_gt [of h g s] by simp
  with Cons.IH [OF Cons.prems] show ?case by (metis le_trans segs_end.simps(2))
qed simp

lemma segs_end_append:
  "segs_end g h (segs @ [s]) = round_up (jg_ss g) (seg_end g (segs_end g h segs) s)"
  by (induction segs arbitrary: h) simp_all

lemma segs_end_dvd: "jg_ss g dvd h \<Longrightarrow> jg_ss g dvd segs_end g h segs"
  by (induction segs arbitrary: h) (simp_all add: round_up_mult)

lemma seg_pages_append: "seg_pages (a @ b) = seg_pages a \<union> seg_pages b"
  by (auto simp: seg_pages_def)

lemma seg_pages_simps [simp]:
  "seg_pages [] = {}" "seg_pages (s # ss) = fst ` set (snd s) \<union> seg_pages ss"
  by (auto simp: seg_pages_def)

section \<open>Writes that the format survives\<close>

lemma bytes_at_torn_before:
  "torn c off n c' \<Longrightarrow> bytes_at c o' bs \<Longrightarrow> o' + length bs \<le> off \<Longrightarrow> bytes_at c' o' bs"
  by (blast intro: torn_bytes_at)

lemma recs_length:
  "geom_ok g orig \<Longrightarrow> segs_good g orig segs \<Longrightarrow> s \<in> set segs \<Longrightarrow> \<forall>r\<in>set (snd s). length (snd r) = jg_ps g"
proof
  fix r
  assume g: "geom_ok g orig" "segs_good g orig segs" "s \<in> set segs" "r \<in> set (snd s)"
  then have "0 < fst r" "fst r \<le> length orig" "snd r = orig ! (fst r - 1)" by (auto simp: segs_good_def)
  then show "length (snd r) = jg_ps g" using geom_okD(7) [OF g(1), of "fst r - 1"] by simp
qed

lemma seg_at_torn:
  assumes "geom_ok g orig" "\<forall>r\<in>set (snd s). length (snd r) = jg_ps g"
    and "torn c off n c'" "seg_at g n0 c h s" "seg_end g h s \<le> off"
  shows "seg_at g n0 c' h s"
proof -
  have len: "length c \<le> length c'" using assms(3) by (simp add: torn_def)
  have "h + 28 \<le> off" using assms(5) geom_okD(3) [OF assms(1)] by (simp add: seg_end_def)
  moreover have "h + jg_ss g + length (records_bytes g (fst s) (snd s)) \<le> off"
    using assms(2,5) by (simp add: length_records_bytes seg_end_def)
  ultimately show ?thesis
    using assms(4) len unfolding seg_at_def
    by (intro conjI) (auto intro: bytes_at_torn_before [OF assms(3)])
qed

lemma seg_end_le_round: "0 < jg_ss g \<Longrightarrow> seg_end g h s \<le> segs_end g h (s # ss)"
  using round_up_ge [of "jg_ss g" "seg_end g h s"] segs_end_ge [of g "round_up (jg_ss g) (seg_end g h s)" ss]
  by simp

text \<open>A write past the header position after the last segment.\<close>

lemma segs_at_torn:
  assumes "geom_ok g orig"
  shows "segs_good g orig segs \<Longrightarrow> torn c off n c' \<Longrightarrow> segs_at g n0 c h segs \<Longrightarrow>
    segs_end g h segs + 8 \<le> off \<Longrightarrow> segs_at g n0 c' h segs"
proof (induction segs arbitrary: h)
  case Nil
  then show ?case by (auto intro: torn_magic_free)
next
  case (Cons s ss)
  have "seg_end g h s \<le> off"
    using seg_end_le_round [of g h s ss] geom_okD(3) [OF assms] Cons.prems(4) by simp
  then have "seg_at g n0 c' h s"
    using seg_at_torn [OF assms recs_length [OF assms Cons.prems(1)] Cons.prems(2)] Cons.prems(3) by simp
  moreover have "segs_good g orig ss" using Cons.prems(1) by (simp add: segs_good_def)
  ultimately show ?case using Cons by simp
qed

text \<open>A header without the magic at the position after the last segment.\<close>

lemma segs_at_blank:
  assumes "geom_ok g orig"
  shows "segs_good g orig segs \<Longrightarrow> segs_at g n0 c h segs \<Longrightarrow> 8 \<le> length bs \<Longrightarrow>
    take 8 bs \<noteq> aJournalMagic \<Longrightarrow> segs_at g n0 (os_write c (segs_end g h segs) bs) h segs"
proof (induction segs arbitrary: h)
  case Nil
  then show ?case by (simp add: magic_free_write)
next
  case (Cons s ss)
  let ?c' = "os_write c (segs_end g h (s # ss)) bs"
  have t: "torn c (segs_end g h (s # ss)) (length bs) ?c'"
    by (rule crash_write_torn [of 0]) (simp add: crash_write_def)
  have "seg_end g h s \<le> segs_end g h (s # ss)"
    using seg_end_le_round [of g h s ss] geom_okD(3) [OF assms] by simp
  then have "seg_at g n0 ?c' h s"
    using seg_at_torn [OF assms recs_length [OF assms Cons.prems(1)] t] Cons.prems(2) by simp
  moreover have "segs_good g orig ss" using Cons.prems(1) by (simp add: segs_good_def)
  ultimately show ?case using Cons.IH [of "round_up (jg_ss g) (seg_end g h s)"] Cons.prems by simp
qed

text \<open>A new segment, once its header is in place.\<close>

lemma segs_at_snoc:
  assumes "geom_ok g orig"
  shows "segs_good g orig segs \<Longrightarrow> segs_at g n0 c h segs \<Longrightarrow> e = segs_end g h segs \<Longrightarrow>
    torn c e 12 c' \<Longrightarrow> seg_at g n0 c' e s \<Longrightarrow> magic_free c' (round_up (jg_ss g) (seg_end g e s)) \<Longrightarrow>
    segs_at g n0 c' h (segs @ [s])"
proof (induction segs arbitrary: h)
  case Nil
  then show ?case by simp
next
  case (Cons t ss)
  have "seg_end g h t \<le> e"
    using seg_end_le_round [of g h t ss] geom_okD(3) [OF assms] Cons.prems(3) by simp
  then have "seg_at g n0 c' h t"
    using seg_at_torn [OF assms recs_length [OF assms Cons.prems(1)] Cons.prems(4)] Cons.prems(2) by simp
  moreover have "segs_good g orig ss" using Cons.prems(1) by (simp add: segs_good_def)
  ultimately show ?case using Cons by simp
qed

end
