(* ===== verification/Pager_Recovery.thy ===== *)
theory Pager_Recovery
  imports Pager_Format
begin

text \<open>
  Recovery is correct: from every disk that a crash may leave, \<open>sqlite3PagerSharedLock\<close> finds
  the hot journal, rolls it back and leaves the original database; and if it is itself
  interrupted anywhere, what it leaves can be recovered again.
\<close>

section \<open>Reading what was written\<close>

lemma header_tail_reads:
  assumes "bytes_at c (h + 12) (header_tail g ck n0)"
  shows "read32bits c (h + 12) = Some (unat ck)" "read32bits c (h + 16) = Some (unat (word_of_nat n0 :: u32))"
    "read32bits c (h + 20) = Some (unat (word_of_nat (jg_ss g) :: u32))"
    "read32bits c (h + 24) = Some (unat (word_of_nat (jg_ps g) :: u32))"
proof -
  have b: "bytes_at c (h + 12) (Put4byte ck)" "bytes_at c (h + 16) (Put4byte (word_of_nat n0))"
      "bytes_at c (h + 20) (Put4byte (word_of_nat (jg_ss g)))" "bytes_at c (h + 24) (Put4byte (word_of_nat (jg_ps g)))"
    using assms by (simp_all add: header_tail_def bytes_at_append add.assoc)
  show "read32bits c (h + 12) = Some (unat ck)" "read32bits c (h + 16) = Some (unat (word_of_nat n0 :: u32))"
    "read32bits c (h + 20) = Some (unat (word_of_nat (jg_ss g) :: u32))"
    "read32bits c (h + 24) = Some (unat (word_of_nat (jg_ps g) :: u32))"
    by (rule read_Put4byte [OF b(1)] read_Put4byte [OF b(2)] read_Put4byte [OF b(3)] read_Put4byte [OF b(4)])+
qed

lemma bytes_at_parts:
  assumes "geom_ok g orig" "seg_at g n0 c h s"
  shows "os_read c 8 h = Some aJournalMagic"
    "read32bits c (h + 8) = Some (unat (word_of_nat (length (snd s)) :: u32))"
    "read32bits c (h + 12) = Some (unat (fst s))"
    "read32bits c (h + 16) = Some (unat (word_of_nat n0 :: u32))"
    "read32bits c (h + 20) = Some (unat (word_of_nat (jg_ss g) :: u32))"
    "read32bits c (h + 24) = Some (unat (word_of_nat (jg_ps g) :: u32))"
proof -
  have m: "bytes_at c h aJournalMagic" and b: "bytes_at c (h + 8) (Put4byte (word_of_nat (length (snd s))))"
    and tail: "bytes_at c (h + 12) (header_tail g (fst s) n0)"
    using assms(2) by (simp_all add: seg_at_def bytes_at_append add.assoc)
  from m have "os_read c (length aJournalMagic) h = Some aJournalMagic"
    by (rule bytes_at_read(2)) (simp add: aJournalMagic_def)
  then show "os_read c 8 h = Some aJournalMagic" by simp
  show "read32bits c (h + 8) = Some (unat (word_of_nat (length (snd s)) :: u32))" by (rule read_Put4byte [OF b])
qed (use header_tail_reads assms(2) in \<open>auto simp: seg_at_def bytes_at_append add.assoc\<close>)

lemma readJournalHdr_seg:
  assumes g: "geom_ok g orig" and seg: "seg_at g (length orig) c h s" and len: "length (snd s) < 2 ^ 32"
    and p: "j_cur (disk p) = c" "pageSize p = jg_ps g" "sectorSize p = jg_ss g"
    and h: "h = round_up (jg_ss g) (journalOff p)"
  shows "readJournalHdr isHot (length c) p =
    (SQLITE_OK, length (snd s), length orig, p\<lparr>journalOff := h + jg_ss g, cksumInit := fst s\<rparr>)"
proof -
  note G = geom_okD [OF g]
  have le: "h + jg_ss g \<le> length c" using seg by (simp add: seg_at_def)
  have off: "journalHdrOffset p = h" by (simp add: journalHdrOffset_round_up h p)
  have n0: "unat (word_of_nat (length orig) :: u32) = length orig" "unat (word_of_nat (length (snd s)) :: u32) = length (snd s)"
    "unat (word_of_nat (jg_ss g) :: u32) = jg_ss g" "unat (word_of_nat (jg_ps g) :: u32) = jg_ps g"
    using G(2,4,6) len by (intro unat_small; simp)+
  have same: "p\<lparr>pageSize := jg_ps g, sectorSize := jg_ss g, journalOff := j, cksumInit := k\<rparr> = p\<lparr>journalOff := j, cksumInit := k\<rparr>" for j k
    using p by (cases p) simp
  show ?thesis
  proof (cases "h = 0")
    case True
    note parts = bytes_at_parts [OF g seg, unfolded True add_0]
    show ?thesis
      using le parts G(1,5) True
      by (simp add: readJournalHdr_def Let_def off JOURNAL_HDR_SZ_def p n0 same)
  next
    case False
    then show ?thesis
      using le bytes_at_parts [OF g seg] by (simp add: readJournalHdr_def Let_def off JOURNAL_HDR_SZ_def p n0)
  qed
qed

lemma readJournalHdr_end:
  assumes "magic_free c h" "j_cur (disk p) = c" "h = journalHdrOffset p" "8 \<le> JOURNAL_HDR_SZ p"
  shows "\<exists>a b. readJournalHdr True (length c) p = (SQLITE_DONE, a, b, p\<lparr>journalOff := h\<rparr>)"
proof (cases "h + JOURNAL_HDR_SZ p > length c")
  case True
  then show ?thesis using assms by (simp add: readJournalHdr_def Let_def JOURNAL_HDR_SZ_def)
next
  case False
  then obtain m where m: "os_read c 8 h = Some m" using assms(4) by (simp add: os_read_def)
  then have "m \<noteq> aJournalMagic" using magic_free_read [OF assms(1)] by auto
  then show ?thesis using assms m False by (simp add: readJournalHdr_def Let_def JOURNAL_HDR_SZ_def)
qed

section \<open>One record\<close>

text \<open>A pager that is rolling the journal \<open>c\<close> back and has restored the pages \<open>D\<close>.\<close>

definition rolling :: "jgeom \<Rightarrow> u8 list list \<Rightarrow> jseg list \<Rightarrow> u8 list \<Rightarrow> pager \<Rightarrow> bool" where
  "rolling g orig segs c p \<longleftrightarrow>
     eState p = PAGER_OPEN \<and> (\<forall>n. PagerLookup p n = None) \<and> pageSize p = jg_ps g \<and> sectorSize p = jg_ss g \<and>
     \<not> noSync p \<and> journalHdr p = length c \<and> jfd_open p \<and>
     j_cur (disk p) = c \<and> j_dur (disk p) = c \<and> j_pend (disk p) = [] \<and> j_exists (disk p) \<and> j_sure (disk p) \<and>
     db_covered orig segs (disk p)"

definition restored :: "u8 list list \<Rightarrow> jseg list \<Rightarrow> nat set \<Rightarrow> pager \<Rightarrow> bool" where
  "restored orig segs D p \<longleftrightarrow>
     dbSize p = length orig \<and> length (d_cur (disk p)) = length orig \<and>
     (\<forall>q<length orig. Suc q \<in> D \<or> Suc q \<notin> seg_pages segs \<longrightarrow> d_cur (disk p) ! q = orig ! q)"

lemma rolling_safe:
  assumes "segs_at g (length orig) c 0 segs" "segs_good g orig segs"
    and "j_dur d = c" "j_pend d = []" "j_exists d" "j_sure d" "db_covered orig segs d"
  shows "safe_disk g orig d"
proof (rule safe_diskI)
  fix c'
  assume "crash_file (jg_ss g) (j_dur d) (j_pend d) c'"
  then have "c' = c" using assms(3,4) by auto
  then show "journal_covers g orig d c'" using assms(1,2,7) by (auto simp: journal_covers_def)
qed (use assms in simp)

lemma db_covered_write:
  "db_covered orig segs d \<Longrightarrow> n \<in> seg_pages segs \<or> length orig < n \<Longrightarrow> segs \<noteq> [] \<Longrightarrow>
   db_covered orig segs (disk_step ps d (DWrite n x))"
  by (auto simp: db_covered_def)

lemma pager_cksum_loop: "pager_cksum p d = cksum_loop d (pageSize p - 200) (cksumInit p)"
  by (simp add: pager_cksum_def)

text \<open>The part of \<open>pager_playback_one_page\<close> before the page is restored finds a good record.\<close>

lemma one_record:
  assumes rec: "bytes_at c off (record_bytes g ck r)" "length (snd r) = jg_ps g" "512 \<le> jg_ps g"
    and r: "0 < fst r" "fst r < 2 ^ 32" "fst r \<noteq> lock_page g" "fst r \<le> dbSize p"
    and p: "j_cur (disk p) = c" "pageSize p = jg_ps g" "cksumInit p = ck"
  shows "pager_playback_one_page True False off None p =
    (let (rc, p) = playback_page True (off + (jg_ps g + 8)) (fst r) (snd r) p in (rc, off + (jg_ps g + 8), None, p))"
proof -
  have n: "unat (word_of_nat (fst r) :: u32) = fst r" using r(2) by (rule unat_small)
  have parts: "bytes_at c off (Put4byte (word_of_nat (fst r)))" "bytes_at c (off + 4) (snd r)"
    "bytes_at c (off + (4 + jg_ps g)) (Put4byte (cksum_loop (snd r) (jg_ps g - 200) ck))"
    using rec by (simp_all add: record_bytes_def bytes_at_append add.assoc)
  have ne: "snd r \<noteq> []" using rec(2,3) by auto
  have rd: "read32bits c off = Some (fst r)" "os_read c (jg_ps g) (off + 4) = Some (snd r)"
    using read_Put4byte [OF parts(1)] n bytes_at_read(2) [OF parts(2) ne] rec(2) by simp_all
  have "off + (jg_ps g + 8) - 4 = off + (4 + jg_ps g)" by simp
  then have ckr: "read32bits c (off + (jg_ps g + 8) - 4) = Some (unat (cksum_loop (snd r) (jg_ps g - 200) ck))"
    using read_Put4byte [OF parts(3)] by (simp only:)
  have lk: "PAGER_SJ_PGNO p = lock_page g" by (simp add: PAGER_SJ_PGNO_def lock_page_def p(2))
  have bv: "bitvec_add (mem p) None (fst r) = (mem p, SQLITE_OK, None)" by (simp add: bitvec_add_def BitvecSet_def)
  have same: "p\<lparr>mem := mem p\<rparr> = p" by simp
  show ?thesis
    using r rd ckr p
    by (simp add: pager_playback_one_page_def Let_def lk bv same BitvecTest_def pager_cksum_loop add.commute add.left_commute)
qed

text \<open>What the call for one record of the journal amounts to during recovery.\<close>

lemma playback_one_record:
  assumes "bytes_at c off (record_bytes g ck r)" "length (snd r) = jg_ps g" "512 \<le> jg_ps g"
    and r: "0 < fst r" "fst r < 2 ^ 32" "fst r \<noteq> lock_page g" "fst r \<le> dbSize p"
    and p: "rolling g orig segs c p" "cksumInit p = ck" "off + (jg_ps g + 8) \<le> length c"
  shows "\<exists>p1 rc p2. pager_playback_one_page True False off None p = (rc, off + (jg_ps g + 8), None, p2) \<and>
    os_call (DWrite (fst r) (snd r)) p1 = (rc, p2\<lparr>dbFileSize := dbFileSize p1\<rparr>) \<and>
    p1 = p\<lparr>nReserve := nReserve p1\<rparr>"
proof -
  define p1 where "p1 = restore_nReserve (fst r) (snd r) p"
  obtain rc p3 where p3: "os_call (DWrite (fst r) (snd r)) p1 = (rc, p3)" by (cases "os_call (DWrite (fst r) (snd r)) p1")
  have f3: "dbFileSize p3 = dbFileSize p1" "pPCache p3 = pPCache p1"
    using p3 by (auto simp: os_call_eq do_io_def split: option.splits)
  define p2 where "p2 = (if fst r > dbFileSize p3 then p3\<lparr>dbFileSize := fst r\<rparr> else p3)"
  have pg: "pageSize p = jg_ps g" and look: "\<And>n. PagerLookup p n = None" and st: "eState p = PAGER_OPEN"
    and jh: "journalHdr p = length c" and cur: "j_cur (disk p) = c"
    using p(1) by (simp_all add: rolling_def)
  have p1f: "eState p1 = PAGER_OPEN" "journalHdr p1 = length c" "\<And>n. PagerLookup p1 n = None"
    using st jh look by (simp_all add: p1_def PagerLookup_def restore_nReserve_def)
  have pp: "playback_page True (off + (jg_ps g + 8)) (fst r) (snd r) p = (rc, p2)"
    using p3 p1f f3 p(3)
    by (simp add: playback_page_def p1_def [symmetric] Let_def playback_synced_def p2_def PagerLookup_def)
  have "pager_playback_one_page True False off None p = (rc, off + (jg_ps g + 8), None, p2)"
    using one_record [OF assms(1-3) r cur pg p(2)] pp by simp
  moreover have "os_call (DWrite (fst r) (snd r)) p1 = (rc, p2\<lparr>dbFileSize := dbFileSize p1\<rparr>)"
    using p3 f3 by (cases p3) (simp add: p2_def)
  moreover have "p1 = p\<lparr>nReserve := nReserve p1\<rparr>" by (simp add: p1_def restore_nReserve_def)
  ultimately show ?thesis by blast
qed

text \<open>
  The outcome of one step of the recovery: nothing unsafe in the past, the next state if the
  step succeeds, success if nothing fails, and no error that the loop would swallow.
\<close>

definition outcome :: "(disk \<Rightarrow> bool) \<Rightarrow> (pager \<Rightarrow> bool) \<Rightarrow> pager \<Rightarrow> rc \<times> pager \<Rightarrow> bool" where
  "outcome S Q p r \<longleftrightarrow>
     (\<forall>d\<in>set (past (snd r)). S d) \<and> (fst r = SQLITE_OK \<longrightarrow> Q (snd r)) \<and>
     (calm p \<longrightarrow> fst r = SQLITE_OK \<and> calm (snd r)) \<and> fst r \<noteq> SQLITE_DONE \<and> fst r \<noteq> SQLITE_IOERR_SHORT_READ"

lemma outcome_os_call:
  assumes "S (disk_step (pageSize p) (disk p) op)" "\<forall>d\<in>set (past p). S d" "\<And>o'. Q (do_io op (p\<lparr>os := o'\<rparr>))"
  shows "outcome S Q p (os_call op p)"
  using assms by (auto simp: outcome_def os_call_eq calm_def do_io_def split: option.splits)

lemma restored_write:
  assumes "restored orig segs D p" "0 < n" "n \<le> length orig"
  shows "restored orig segs (insert n D) (do_io (DWrite n (orig ! (n - 1))) p)"
  using assms
  by (auto simp: restored_def do_io_def length_put_page put_page_nth max_def)

lemma rolling_write:
  assumes "rolling g orig segs c p" "n \<in> seg_pages segs" "segs \<noteq> []"
  shows "rolling g orig segs c (do_io (DWrite n x) p)"
  using assms db_covered_write [of orig segs "disk p" n "pageSize p" x]
  by (simp add: rolling_def do_io_def PagerLookup_def)

lemma record_step:
  assumes g: "geom_ok g orig" "segs_at g (length orig) c 0 segs" "segs_good g orig segs"
    and s: "s \<in> set segs" "r \<in> set (snd s)" "bytes_at c off (record_bytes g (fst s) r)" "off + (jg_ps g + 8) \<le> length c"
    and p: "rolling g orig segs c p" "restored orig segs D p" "cksumInit p = fst s"
    and past: "\<forall>d\<in>set (past p). safe_disk g orig d"
  shows "\<exists>rc p2. pager_playback_one_page True False off None p = (rc, off + (jg_ps g + 8), None, p2) \<and>
    outcome (safe_disk g orig) (\<lambda>p. rolling g orig segs c p \<and> restored orig segs (insert (fst r) D) p \<and> cksumInit p = fst s)
      p (rc, p2)"
proof -
  have r: "0 < fst r" "fst r \<le> length orig" "fst r \<noteq> lock_page g" "snd r = orig ! (fst r - 1)"
    using g(3) s(1,2) by (auto simp: segs_good_def)
  have len: "length (snd r) = jg_ps g" using recs_length [OF g(1,3) s(1)] s(2) by blast
  have lt: "fst r < 2 ^ 32" using r(2) geom_okD(6) [OF g(1)] by linarith
  have mem: "fst r \<in> seg_pages segs" using s(1,2) by (auto simp: seg_pages_def)
  have ne: "segs \<noteq> []" using s(1) by auto
  have db: "fst r \<le> dbSize p" using p(2) r(2) by (simp add: restored_def)
  obtain p1 rc p2 where one: "pager_playback_one_page True False off None p = (rc, off + (jg_ps g + 8), None, p2)"
    and io: "os_call (DWrite (fst r) (snd r)) p1 = (rc, p2\<lparr>dbFileSize := dbFileSize p1\<rparr>)"
    and p1: "p1 = p\<lparr>nReserve := nReserve p1\<rparr>"
    using playback_one_record [OF s(3) len geom_okD(1) [OF g(1)] r(1) lt r(3) db p(1,3) s(4)] by blast
  have P1: "rolling g orig segs c p1" "restored orig segs D p1" "cksumInit p1 = fst s" "past p1 = past p" "calm p1 = calm p"
  proof -
    from p1 obtain x where "p1 = p\<lparr>nReserve := x\<rparr>" by blast
    then show "rolling g orig segs c p1" "restored orig segs D p1" "cksumInit p1 = fst s" "past p1 = past p" "calm p1 = calm p"
      using p by (simp_all add: rolling_def restored_def PagerLookup_def calm_def)
  qed
  have "safe_disk g orig (disk_step (pageSize p1) (disk p1) (DWrite (fst r) (snd r)))"
    using rolling_write [OF P1(1) mem ne, of "snd r"]
    by (intro rolling_safe [OF g(2,3)]) (simp_all add: rolling_def)
  then have "outcome (safe_disk g orig)
      (\<lambda>p. rolling g orig segs c p \<and> restored orig segs (insert (fst r) D) p \<and> cksumInit p = fst s) p1
      (os_call (DWrite (fst r) (snd r)) p1)"
  proof (rule outcome_os_call)
    fix o'
    have Po: "rolling g orig segs c (p1\<lparr>os := o'\<rparr>)" "restored orig segs D (p1\<lparr>os := o'\<rparr>)"
      using P1(1,2) by (simp_all add: rolling_def restored_def PagerLookup_def)
    show "rolling g orig segs c (do_io (DWrite (fst r) (snd r)) (p1\<lparr>os := o'\<rparr>)) \<and>
      restored orig segs (insert (fst r) D) (do_io (DWrite (fst r) (snd r)) (p1\<lparr>os := o'\<rparr>)) \<and>
      cksumInit (do_io (DWrite (fst r) (snd r)) (p1\<lparr>os := o'\<rparr>)) = fst s"
      using rolling_write [OF Po(1) mem ne] restored_write [OF Po(2) r(1,2)] P1(3) r(4) by (simp add: do_io_def)
  qed (use P1(4) past in simp)
  then have "outcome (safe_disk g orig)
      (\<lambda>p. rolling g orig segs c p \<and> restored orig segs (insert (fst r) D) p \<and> cksumInit p = fst s) p (rc, p2)"
    using io P1(5) by (simp add: outcome_def rolling_def restored_def PagerLookup_def calm_def)
  with one show ?thesis by blast
qed

section \<open>One segment\<close>

lemma outcome_trans:
  assumes "outcome S Q p (rc, p1)" "rc = SQLITE_OK \<Longrightarrow> outcome S R p1 r" "rc \<noteq> SQLITE_OK \<Longrightarrow> r = (rc, p1)"
  shows "outcome S R p r"
  using assms by (cases "rc = SQLITE_OK") (auto simp: outcome_def)

lemma outcome_post: "outcome S Q p r \<Longrightarrow> (\<And>p. Q p \<Longrightarrow> R p) \<Longrightarrow> outcome S R p r"
  by (auto simp: outcome_def)

lemma outcome_cong: "calm p = calm p' \<Longrightarrow> outcome S Q p r \<Longrightarrow> outcome S Q p' r"
  by (simp add: outcome_def)

lemma length_record_bytes: "length (snd r) = jg_ps g \<Longrightarrow> length (record_bytes g ck r) = jg_ps g + 8"
  by (simp add: record_bytes_def)

lemma records_in_file:
  assumes "geom_ok g orig" "segs_good g orig segs" "s \<in> set segs" "bytes_at c off (records_bytes g ck (snd s))" "off \<le> length c"
  shows "off + length (snd s) * (jg_ps g + 8) \<le> length c"
proof (cases "snd s = []")
  case False
  have len: "length (records_bytes g ck (snd s)) = length (snd s) * (jg_ps g + 8)"
    using recs_length [OF assms(1-3)] by (simp add: length_records_bytes)
  with False have "records_bytes g ck (snd s) \<noteq> []" by auto
  with bytes_at_read(1) [OF assms(4)] len show ?thesis by simp
qed (use assms(5) in simp)

text \<open>
  The loop over the records of a segment that starts at or after \<open>lo\<close> and ends by \<open>hi\<close>: if one
  record takes \<open>I D\<close> to \<open>I\<close> of one page more, all of them do.
\<close>

lemma records_loop_gen:
  assumes len: "\<And>r. r \<in> set (snd s) \<Longrightarrow> length (snd r) = jg_ps g"
    and step: "\<And>off r p D. r \<in> set (snd s) \<Longrightarrow> bytes_at c off (record_bytes g (fst s) r) \<Longrightarrow> lo \<le> off \<Longrightarrow>
      off + (jg_ps g + 8) \<le> hi \<Longrightarrow> I D p \<Longrightarrow> \<forall>d\<in>set (past p). S d \<Longrightarrow>
      \<exists>rc p2. pager_playback_one_page True False off None p = (rc, off + (jg_ps g + 8), None, p2) \<and>
        outcome S (I (insert (fst r) D)) p (rc, p2)"
    and off_free: "\<And>D p x. I D (p\<lparr>journalOff := x\<rparr>) = I D p"
  shows "set rs \<subseteq> set (snd s) \<Longrightarrow> bytes_at c off (records_bytes g (fst s) rs) \<Longrightarrow> journalOff p = off \<Longrightarrow> lo \<le> off \<Longrightarrow>
    off + length rs * (jg_ps g + 8) \<le> hi \<Longrightarrow> I D p \<Longrightarrow> \<forall>d\<in>set (past p). S d \<Longrightarrow>
    \<exists>rc stop p'. playback_records (length rs) szJ p = (rc, stop, p') \<and> (rc = SQLITE_OK \<longrightarrow> \<not> stop) \<and>
      outcome S (\<lambda>p'. I (D \<union> fst ` set rs) p' \<and> journalOff p' = off + length rs * (jg_ps g + 8)) p (rc, p')"
proof (induction rs arbitrary: off p D)
  case Nil
  then show ?case by (intro exI [of _ SQLITE_OK] exI [of _ False] exI [of _ p]) (simp add: outcome_def)
next
  case (Cons r rs)
  have rin: "r \<in> set (snd s)" using Cons.prems(1) by simp
  have lr: "length (record_bytes g (fst s) r) = jg_ps g + 8" using len [OF rin] by (simp add: length_record_bytes)
  have b: "bytes_at c off (record_bytes g (fst s) r)"
    "bytes_at c (off + (jg_ps g + 8)) (records_bytes g (fst s) rs)"
    using Cons.prems(2) lr by (simp_all add: records_bytes_def bytes_at_append)
  have hi: "off + (jg_ps g + 8) \<le> hi" "off + (jg_ps g + 8) + length rs * (jg_ps g + 8) \<le> hi" using Cons.prems(5) by simp_all
  obtain rc p2 where one: "pager_playback_one_page True False off None p = (rc, off + (jg_ps g + 8), None, p2)"
    and o1: "outcome S (I (insert (fst r) D)) p (rc, p2)"
    using step [OF rin b(1) Cons.prems(4) hi(1) Cons.prems(6,7)] by blast
  define p3 where "p3 = p2\<lparr>journalOff := off + (jg_ps g + 8)\<rparr>"
  have step': "playback_records (length (r # rs)) szJ p =
      (if rc = SQLITE_OK then playback_records (length rs) szJ p3
       else if rc = SQLITE_DONE then (SQLITE_OK, False, p3\<lparr>journalOff := szJ\<rparr>)
       else if rc = SQLITE_IOERR_SHORT_READ then (SQLITE_OK, True, p3) else (rc, True, p3))"
    using one Cons.prems(3) by (simp add: p3_def)
  have o3: "outcome S (I (insert (fst r) D)) p (rc, p3)"
    using o1 by (simp add: outcome_def p3_def off_free calm_def)
  show ?case
  proof (cases "rc = SQLITE_OK")
    case True
    have P3: "I (insert (fst r) D) p3" "\<forall>d\<in>set (past p3). S d" using o3 True by (simp_all add: outcome_def)
    have sub: "set rs \<subseteq> set (snd s)" using Cons.prems(1) by simp
    have jo: "journalOff p3 = off + (jg_ps g + 8)" by (simp add: p3_def)
    have lo: "lo \<le> off + (jg_ps g + 8)" using Cons.prems(4) by simp
    obtain rc' stop p' where
      l: "playback_records (length rs) szJ p3 = (rc', stop, p')" "rc' = SQLITE_OK \<longrightarrow> \<not> stop"
      and o': "outcome S (\<lambda>p'. I (insert (fst r) D \<union> fst ` set rs) p' \<and>
        journalOff p' = off + (jg_ps g + 8) + length rs * (jg_ps g + 8)) p3 (rc', p')"
      using Cons.IH [OF sub b(2) jo lo hi(2) P3] by blast
    have "outcome S (\<lambda>p'. I (D \<union> fst ` set (r # rs)) p' \<and> journalOff p' = off + length (r # rs) * (jg_ps g + 8)) p (rc', p')"
      using o3 o' True by (auto simp: outcome_def add.assoc)
    with step' l True show ?thesis by auto
  next
    case False
    then have "rc \<noteq> SQLITE_DONE" "rc \<noteq> SQLITE_IOERR_SHORT_READ" using o3 by (simp_all add: outcome_def)
    with step' False o3 show ?thesis by (auto simp: outcome_def)
  qed
qed

lemma records_loop:
  assumes g: "geom_ok g orig" "segs_at g (length orig) c 0 segs" "segs_good g orig segs" "s \<in> set segs"
    and b: "bytes_at c (journalOff p) (records_bytes g (fst s) (snd s))" "journalOff p + length (snd s) * (jg_ps g + 8) \<le> length c"
    and p: "rolling g orig segs c p" "restored orig segs D p" "cksumInit p = fst s" "\<forall>d\<in>set (past p). safe_disk g orig d"
  shows "\<exists>rc stop p'. playback_records (length (snd s)) szJ p = (rc, stop, p') \<and> (rc = SQLITE_OK \<longrightarrow> \<not> stop) \<and>
      outcome (safe_disk g orig) (\<lambda>p'. rolling g orig segs c p' \<and> restored orig segs (D \<union> fst ` set (snd s)) p' \<and>
        journalOff p' = journalOff p + length (snd s) * (jg_ps g + 8)) p (rc, p')"
proof -
  let ?I = "\<lambda>D p. rolling g orig segs c p \<and> restored orig segs D p \<and> cksumInit p = fst s"
  have I: "?I D p" using p by simp
  have free: "?I D (p\<lparr>journalOff := x\<rparr>) = ?I D p" for D p x by (simp add: rolling_def restored_def PagerLookup_def)
  have "\<exists>rc stop p'. playback_records (length (snd s)) szJ p = (rc, stop, p') \<and> (rc = SQLITE_OK \<longrightarrow> \<not> stop) \<and>
      outcome (safe_disk g orig) (\<lambda>p'. ?I (D \<union> fst ` set (snd s)) p' \<and>
        journalOff p' = journalOff p + length (snd s) * (jg_ps g + 8)) p (rc, p')"
    by (rule records_loop_gen [where lo = 0 and I = ?I, OF _ _ free subset_refl b(1) refl le0 b(2) I p(4)])
      (use recs_length [OF g(1,3,4)] record_step [OF g] in blast)+
  then show ?thesis by (elim exE conjE) (auto intro!: exI elim: outcome_post)
qed

text \<open>Before the first segment is read, the database may have any length.\<close>

definition unstarted :: "u8 list list \<Rightarrow> jseg list \<Rightarrow> pager \<Rightarrow> bool" where
  "unstarted orig segs p \<longleftrightarrow>
     (segs = [] \<longrightarrow> d_cur (disk p) = orig) \<and>
     (\<forall>q<length orig. Suc q \<notin> seg_pages segs \<longrightarrow> q < length (d_cur (disk p)) \<and> d_cur (disk p) ! q = orig ! q)"

lemma PcacheClear_empty: "\<forall>n. pc_pages c n = None \<Longrightarrow> \<forall>n. pc_pages (PcacheClear sz c) n = None"
proof -
  assume none: "\<forall>n. pc_pages c n = None"
  have "\<forall>n. pc_pages (fold (\<lambda>n c. if n > 0 then PcacheMakeClean n c else c) ns c) n = None"
    if "\<forall>n. pc_pages c n = None" for ns c
    using that by (induction ns arbitrary: c) (simp_all add: MakeClean_pages)
  from this [OF none] show ?thesis
    by (simp add: PcacheClear_def PcacheTruncate_def Let_def)
qed

text \<open>Setting the length of the database file to the original one.\<close>

definition resize_op :: "nat \<Rightarrow> nat \<Rightarrow> disk \<Rightarrow> ioop" where
  "resize_op ps n d = (if length (d_cur d) > n then DTruncate n else DWrite n (replicate ps 0))"

lemma resize_disk:
  fixes ps :: nat
  assumes ne: "segs \<noteq> []" and cov: "db_covered orig segs d"
    and un: "\<And>q. q < length orig \<Longrightarrow> Suc q \<notin> seg_pages segs \<Longrightarrow> q < length (d_cur d) \<and> d_cur d ! q = orig ! q"
    and diff: "length (d_cur d) \<noteq> length orig"
  defines "d' \<equiv> disk_step ps d (resize_op ps (length orig) d)"
  shows "db_covered orig segs d'" "length (d_cur d') = length orig"
    "\<And>q. q < length orig \<Longrightarrow> Suc q \<notin> seg_pages segs \<Longrightarrow> d_cur d' ! q = orig ! q"
    "j_cur d' = j_cur d" "j_dur d' = j_dur d" "j_pend d' = j_pend d" "j_exists d' = j_exists d" "j_sure d' = j_sure d"
proof -
  let ?n = "length orig"
  have last: "?n \<in> seg_pages segs" if "length (d_cur d) < ?n"
  proof (rule ccontr)
    assume "?n \<notin> seg_pages segs"
    with that un [of "?n - 1"] have "?n - 1 < length (d_cur d)" by (cases "?n") auto
    with that show False by simp
  qed
  show "db_covered orig segs d'"
  proof (cases "length (d_cur d) > ?n")
    case True
    then show ?thesis using cov ne by (auto simp: d'_def resize_op_def db_covered_def)
  next
    case False
    with diff last have "?n \<in> seg_pages segs" by simp
    with False show ?thesis using db_covered_write [OF cov _ ne] by (simp add: d'_def resize_op_def)
  qed
  show "j_cur d' = j_cur d" "j_dur d' = j_dur d" "j_pend d' = j_pend d" "j_exists d' = j_exists d" "j_sure d' = j_sure d"
    by (simp_all add: d'_def resize_op_def)
  have "0 < ?n" if "\<not> length (d_cur d) > ?n" using that diff by linarith
  then show "length (d_cur d') = ?n" using diff by (auto simp: d'_def resize_op_def length_put_page)
  show "d_cur d' ! q = orig ! q" if q: "q < ?n" "Suc q \<notin> seg_pages segs" for q
  proof (cases "length (d_cur d) > ?n")
    case False
    have old: "q < length (d_cur d)" "d_cur d ! q = orig ! q" using un q by auto
    have "Suc q \<noteq> ?n" using last q(2) False diff by auto
    moreover have "0 < ?n" using q(1) by (rule le_less_trans [OF le0])
    moreover from this have "q < length (put_page ps (d_cur d) ?n (replicate ps 0))"
      using q(1) by (subst length_put_page) auto
    ultimately show ?thesis
      using False old by (simp only: d'_def resize_op_def disk_step.simps if_False) (simp add: put_page_nth)
  qed (use un q in \<open>simp add: d'_def resize_op_def\<close>)
qed

lemma pager_truncate_eq:
  assumes "eState p \<ge> PAGER_WRITER_DBMOD \<or> eState p = PAGER_OPEN"
  shows "pager_truncate n p =
    andThen os_ask (\<lambda>p. if length (d_cur (disk p)) \<noteq> n then
       andThen (os_call (resize_op (pageSize p) n (disk p))) (upd (\<lambda>p. p\<lparr>dbFileSize := n\<rparr>)) p
       else (SQLITE_OK, p)) p"
  using assms by (simp add: pager_truncate_def whenP_def Let_def resize_op_def if_distrib [of os_call] cong: if_cong)

lemma truncate_step:
  assumes g: "segs_at g (length orig) c 0 segs" "segs_good g orig segs" "segs \<noteq> []"
    and p: "rolling g orig segs c p" "unstarted orig segs p" "\<forall>d\<in>set (past p). safe_disk g orig d"
  shows "outcome (safe_disk g orig)
    (\<lambda>p'. rolling g orig segs c p' \<and> restored orig segs {} p' \<and> journalOff p' = journalOff p \<and> cksumInit p' = cksumInit p)
    p (andThen (pager_truncate (length orig)) (upd (\<lambda>p. p\<lparr>dbSize := length orig, mxPgno := max (mxPgno p) (length orig)\<rparr>)) p)"
proof -
  let ?d' = "disk_step (pageSize p) (disk p) (resize_op (pageSize p) (length orig) (disk p))"
  have st: "eState p = PAGER_OPEN" and cov: "db_covered orig segs (disk p)"
    and j: "j_cur (disk p) = c" "j_dur (disk p) = c" "j_pend (disk p) = []" "j_exists (disk p)" "j_sure (disk p)"
    using p(1) by (simp_all add: rolling_def)
  show ?thesis
  proof (cases "length (d_cur (disk p)) = length orig")
    case True
    then show ?thesis using p st
      by (auto simp: outcome_def andThen_def pager_truncate_eq os_ask_def upd_def calm_def
          rolling_def restored_def unstarted_def PagerLookup_def split: option.splits)
  next
    case False
    have un: "q < length orig \<Longrightarrow> Suc q \<notin> seg_pages segs \<Longrightarrow> q < length (d_cur (disk p)) \<and> d_cur (disk p) ! q = orig ! q" for q
      using p(2) by (simp add: unstarted_def)
    note R = resize_disk [OF g(3) cov un False, where ps = "pageSize p"]
    have "safe_disk g orig ?d'" using j R by (intro rolling_safe [OF g(1,2)]) simp_all
    then show ?thesis using p j R st False
      by (auto simp: outcome_def andThen_def pager_truncate_eq os_ask_def os_call_eq upd_def calm_def do_io_def
          rolling_def restored_def PagerLookup_def simp del: disk_step.simps split: option.splits)
  qed
qed

text \<open>The state in which the header at \<open>h\<close> is read, after the segments \<open>pre\<close>.\<close>

definition at_segment :: "jgeom \<Rightarrow> u8 list list \<Rightarrow> jseg list \<Rightarrow> u8 list \<Rightarrow> jseg list \<Rightarrow> pager \<Rightarrow> bool" where
  "at_segment g orig segs c pre p \<longleftrightarrow>
     rolling g orig segs c p \<and> round_up (jg_ss g) (journalOff p) = segs_end g 0 pre \<and>
     (if pre = [] then unstarted orig segs p else restored orig segs (seg_pages pre) p)"

lemma segs_at_drop:
  "segs_at g n0 c h (pre @ post) \<Longrightarrow> segs_at g n0 c (segs_end g h pre) post"
  by (induction pre arbitrary: h) simp_all

lemma segs_end_pos: "0 < jg_ss g \<Longrightarrow> pre \<noteq> [] \<Longrightarrow> 0 < segs_end g h pre"
proof (cases pre)
  case (Cons s ss)
  assume pos: "0 < jg_ss g"
  have "seg_end g h s \<le> segs_end g h (s # ss)" using pos by (rule seg_end_le_round)
  then show ?thesis using Cons seg_end_gt [of h g s] pos by simp
qed simp

lemma segment_step:
  assumes g: "geom_ok g orig" "segs_at g (length orig) c 0 segs" "segs_good g orig segs" "segs = pre @ s # post"
    and p: "at_segment g orig segs c pre p" "\<forall>d\<in>set (past p). safe_disk g orig d"
  shows "\<exists>rc stop nr' p'. playback_segment True (length c) nr p = (rc, stop, nr', p') \<and> (rc = SQLITE_OK \<longrightarrow> \<not> stop) \<and>
    outcome (safe_disk g orig) (at_segment g orig segs c (pre @ [s])) p (rc, p')"
proof -
  define h where "h = segs_end g 0 pre"
  have ss: "0 < jg_ss g" using geom_okD(3) [OF g(1)] by simp
  have sin: "s \<in> set segs" using g(4) by simp
  have seg: "seg_at g (length orig) c h s" using segs_at_drop [of g "length orig" c 0 pre "s # post"] g(2,4) by (simp add: h_def)
  have len: "length (snd s) < 2 ^ 32 - 1" using g(3) sin by (simp add: segs_good_def)
  have roll: "rolling g orig segs c p" using p(1) by (simp add: at_segment_def)
  define p1 where "p1 = p\<lparr>journalOff := h + jg_ss g, cksumInit := fst s\<rparr>"
  have rd: "readJournalHdr True (length c) p = (SQLITE_OK, length (snd s), length orig, p1)"
    unfolding p1_def using seg len roll p(1)
    by (intro readJournalHdr_seg [OF g(1) seg]) (simp_all add: rolling_def at_segment_def h_def)
  have roll1: "rolling g orig segs c p1" using roll by (simp add: p1_def rolling_def PagerLookup_def)
  have calm1: "calm p1 = calm p" by (simp add: p1_def calm_def)
  have jo1: "journalOff p1 = h + jg_ss g" "cksumInit p1 = fst s" "JOURNAL_HDR_SZ p1 = jg_ss g"
    using roll by (simp_all add: p1_def JOURNAL_HDR_SZ_def rolling_def)
  have past1: "\<forall>d\<in>set (past p1). safe_disk g orig d" using p(2) by (simp add: p1_def)
  define tr where "tr = (if journalOff p1 = JOURNAL_HDR_SZ p1 then
      andThen (pager_truncate (length orig)) (upd (\<lambda>p. p\<lparr>dbSize := length orig, mxPgno := max (mxPgno p) (length orig)\<rparr>)) p1
      else (SQLITE_OK, p1))"
  obtain rc2 p2 where p2: "tr = (rc2, p2)" by (cases tr)
  have o2: "outcome (safe_disk g orig) (\<lambda>p'. rolling g orig segs c p' \<and> restored orig segs (seg_pages pre) p' \<and>
      journalOff p' = h + jg_ss g \<and> cksumInit p' = fst s) p1 (rc2, p2)"
  proof (cases "pre = []")
    case True
    then have "h = 0" by (simp add: h_def)
    have un: "unstarted orig segs p1" using p(1) True by (simp add: at_segment_def p1_def unstarted_def)
    have "segs \<noteq> []" using g(4) by simp
    then have "outcome (safe_disk g orig) (\<lambda>p'. rolling g orig segs c p' \<and> restored orig segs {} p' \<and>
      journalOff p' = journalOff p1 \<and> cksumInit p' = cksumInit p1) p1 tr"
      using truncate_step [OF g(2,3) _ roll1 un past1] jo1 \<open>h = 0\<close> by (simp add: tr_def)
    then show ?thesis using p2 True jo1 by simp
  next
    case False
    then have "0 < h" using segs_end_pos [OF ss, of pre 0] by (simp add: h_def)
    then have "tr = (SQLITE_OK, p1)" using jo1 by (simp add: tr_def)
    moreover have "restored orig segs (seg_pages pre) p1" using p(1) False by (simp add: at_segment_def p1_def restored_def)
    ultimately show ?thesis using p2 roll1 jo1 past1 by (simp add: outcome_def)
  qed
  have nR: "length (snd s) \<noteq> 0xffffffff" using len by simp
  define p3 where "p3 = (if length (snd s) \<noteq> 0 \<and> nr then on_cache (PcacheClear (pageSize p2)) p2 else p2)"
  have seg_run: "playback_segment True (length c) nr p =
    (if rc2 \<noteq> SQLITE_OK then (rc2, True, nr, p2)
     else (let (rc, stop, p) = playback_records (length (snd s)) (length c) p3 in (rc, stop, nr \<and> length (snd s) = 0, p)))"
    using nR p2 by (simp add: playback_segment_def rd Let_def tr_def p3_def)
  show ?thesis
  proof (cases "rc2 = SQLITE_OK")
    case False
    then show ?thesis using seg_run o2 calm1 by (auto simp: outcome_def)
  next
    case True
    have P2: "rolling g orig segs c p2" "restored orig segs (seg_pages pre) p2" "journalOff p2 = h + jg_ss g" "cksumInit p2 = fst s"
      "\<forall>d\<in>set (past p2). safe_disk g orig d" "calm p1 \<longrightarrow> calm p2" using o2 True by (simp_all add: outcome_def)
    have P3: "rolling g orig segs c p3" "restored orig segs (seg_pages pre) p3" "journalOff p3 = h + jg_ss g" "cksumInit p3 = fst s"
      "\<forall>d\<in>set (past p3). safe_disk g orig d" "calm p3 = calm p2"
      using P2 PcacheClear_empty [of "pPCache p2"]
      by (simp_all add: p3_def rolling_def restored_def PagerLookup_def on_cache_def calm_def)
    have b: "bytes_at c (h + jg_ss g) (records_bytes g (fst s) (snd s))" using seg by (simp add: seg_at_def)
    have end_le: "h + jg_ss g + length (snd s) * (jg_ps g + 8) \<le> length c"
      using records_in_file [OF g(1,3) sin b] seg by (simp add: seg_at_def)
    obtain rc stop p' where l: "playback_records (length (snd s)) (length c) p3 = (rc, stop, p')" "rc = SQLITE_OK \<longrightarrow> \<not> stop"
      and o': "outcome (safe_disk g orig) (\<lambda>p'. rolling g orig segs c p' \<and> restored orig segs (seg_pages pre \<union> fst ` set (snd s)) p' \<and>
        journalOff p' = h + jg_ss g + length (snd s) * (jg_ps g + 8)) p3 (rc, p')"
      using records_loop [OF g(1-3) sin, of p3 "seg_pages pre" "length c"] b P3 end_le by auto
    have "outcome (safe_disk g orig) (at_segment g orig segs c (pre @ [s])) p3 (rc, p')"
      using o' by (rule outcome_post)
        (simp add: at_segment_def seg_pages_append segs_end_append h_def seg_end_def)
    moreover have "calm p \<longrightarrow> calm p3" using calm1 P2(6) P3(6) by simp
    ultimately have "outcome (safe_disk g orig) (at_segment g orig segs c (pre @ [s])) p (rc, p')"
      by (auto simp: outcome_def)
    with seg_run l True show ?thesis by auto
  qed
qed

section \<open>The whole journal\<close>

lemma restored_all: "restored orig segs (seg_pages segs) p \<Longrightarrow> d_cur (disk p) = orig"
  by (rule nth_equalityI) (auto simp: restored_def)

lemma segments_end:
  assumes g: "geom_ok g orig" "segs_at g (length orig) c 0 segs"
    and p: "at_segment g orig segs c segs p" "\<forall>d\<in>set (past p). safe_disk g orig d"
  shows "\<exists>nr' p'. playback_segment True (length c) nr p = (SQLITE_OK, True, nr', p') \<and>
    outcome (safe_disk g orig) (\<lambda>p'. rolling g orig segs c p' \<and> d_cur (disk p') = orig) p (SQLITE_OK, p')"
proof -
  have roll: "rolling g orig segs c p" using p(1) by (simp add: at_segment_def)
  have free: "magic_free c (segs_end g 0 segs)" using segs_at_drop [of g "length orig" c 0 segs "[]"] g(2) by simp
  have h: "journalHdrOffset p = segs_end g 0 segs" "8 \<le> JOURNAL_HDR_SZ p" "j_cur (disk p) = c"
    using p(1) roll geom_okD(3) [OF g(1)]
    by (simp_all add: journalHdrOffset_round_up at_segment_def rolling_def JOURNAL_HDR_SZ_def)
  obtain a b where "readJournalHdr True (length c) p = (SQLITE_DONE, a, b, p\<lparr>journalOff := segs_end g 0 segs\<rparr>)"
    using readJournalHdr_end [OF free h(3) _ h(2)] h(1) by metis
  then have run: "playback_segment True (length c) nr p = (SQLITE_OK, True, nr, p\<lparr>journalOff := segs_end g 0 segs\<rparr>)"
    by (simp add: playback_segment_def)
  have "d_cur (disk p) = orig"
  proof (cases "segs = []")
    case True
    then show ?thesis using p(1) by (simp add: at_segment_def unstarted_def)
  next
    case False
    then show ?thesis using p(1) by (intro restored_all [of orig segs]) (simp add: at_segment_def)
  qed
  then have "outcome (safe_disk g orig) (\<lambda>p'. rolling g orig segs c p' \<and> d_cur (disk p') = orig) p
      (SQLITE_OK, p\<lparr>journalOff := segs_end g 0 segs\<rparr>)"
    using roll p(2) by (simp add: outcome_def rolling_def PagerLookup_def calm_def)
  with run show ?thesis by blast
qed

text \<open>The loop over the segments, if each takes \<open>A pre\<close> to \<open>A\<close> of one segment more.\<close>

lemma playback_segment_reset: "playback_segment isHot szJ nr p = (rc, stop, nr', p') \<Longrightarrow> nr' \<longrightarrow> nr"
  by (auto simp: playback_segment_def Let_def split: prod.splits if_splits)

lemma segments_loop_gen:
  assumes step: "\<And>pre s post nr p. segs = pre @ s # post \<Longrightarrow> A pre p \<Longrightarrow> \<forall>d\<in>set (past p). S d \<Longrightarrow> nr \<longrightarrow> isHot \<Longrightarrow>
      \<exists>rc stop nr' p'. playback_segment isHot szJ nr p = (rc, stop, nr', p') \<and> (rc = SQLITE_OK \<longrightarrow> \<not> stop) \<and>
        outcome S (A (pre @ [s])) p (rc, p')"
    and final: "\<And>nr p. A segs p \<Longrightarrow> \<forall>d\<in>set (past p). S d \<Longrightarrow> nr \<longrightarrow> isHot \<Longrightarrow>
      \<exists>nr' p'. playback_segment isHot szJ nr p = (SQLITE_OK, True, nr', p') \<and> outcome S Q p (SQLITE_OK, p')"
  shows "segs = pre @ post \<Longrightarrow> A pre p \<Longrightarrow> \<forall>d\<in>set (past p). S d \<Longrightarrow> length post < fuel \<Longrightarrow> nr \<longrightarrow> isHot \<Longrightarrow>
    \<exists>rc p'. playback_loop fuel isHot szJ nr p = Some (rc, p') \<and> outcome S Q p (rc, p')"
proof (induction post arbitrary: pre p fuel nr)
  case Nil
  then obtain f where f: "fuel = Suc f" by (cases fuel) auto
  show ?case using final [of p nr] Nil.prems f by auto
next
  case (Cons s post)
  then obtain f where f: "fuel = Suc f" by (cases fuel) auto
  obtain rc stop nr' p' where run: "playback_segment isHot szJ nr p = (rc, stop, nr', p')" "rc = SQLITE_OK \<longrightarrow> \<not> stop"
    and o: "outcome S (A (pre @ [s])) p (rc, p')"
    using step [OF Cons.prems(1-3,5)] by blast
  show ?case
  proof (cases "rc = SQLITE_OK")
    case False
    then show ?thesis using run o f by (auto simp: outcome_def)
  next
    case True
    then have "A (pre @ [s]) p'" "\<forall>d\<in>set (past p'). S d" using o by (simp_all add: outcome_def)
    from Cons.IH [OF _ this, of f nr'] Cons.prems(1,4,5) f playback_segment_reset [OF run(1)]
    obtain rc' p'' where l: "playback_loop f isHot szJ nr' p' = Some (rc', p'')" and o': "outcome S Q p' (rc', p'')" by auto
    have "outcome S Q p (rc', p'')" using outcome_trans [OF o, of _ "(rc', p'')"] o' True by simp
    with run l f True show ?thesis by auto
  qed
qed

lemma segments_loop:
  assumes g: "geom_ok g orig" "segs_at g (length orig) c 0 segs" "segs_good g orig segs"
    and p: "at_segment g orig segs c [] p" "\<forall>d\<in>set (past p). safe_disk g orig d" "length segs < fuel"
  shows "\<exists>rc p'. playback_loop fuel True (length c) nr p = Some (rc, p') \<and>
      outcome (safe_disk g orig) (\<lambda>p'. rolling g orig segs c p' \<and> d_cur (disk p') = orig) p (rc, p')"
  by (rule segments_loop_gen [where A = "at_segment g orig segs c" and pre = "[]" and post = segs])
    (use p segment_step [OF g] segments_end [OF g(1,2)] in auto)

lemma segs_count:
  "0 < jg_ss g \<Longrightarrow> segs_at g n0 c h segs \<Longrightarrow> segs \<noteq> [] \<Longrightarrow> h + length segs * jg_ss g \<le> length c"
proof (induction segs arbitrary: h)
  case (Cons s ss)
  have one: "h + jg_ss g \<le> length c" using Cons.prems(2) by (simp add: seg_at_def)
  show ?case
  proof (cases "ss = []")
    case False
    have "round_up (jg_ss g) (seg_end g h s) + length ss * jg_ss g \<le> length c"
      using Cons.IH [OF Cons.prems(1) _ False] Cons.prems(2) by simp
    moreover have "h + jg_ss g \<le> round_up (jg_ss g) (seg_end g h s)"
      using seg_end_gt [of h g s] round_up_ge [OF Cons.prems(1), of "seg_end g h s"] by (rule le_trans)
    ultimately show ?thesis by simp
  qed (use one in simp)
qed simp

lemma segs_count_fuel: "geom_ok g orig \<Longrightarrow> segs_at g n0 c 0 segs \<Longrightarrow> length segs < length c + 2"
proof (cases "segs = []")
  case False
  assume g: "geom_ok g orig" "segs_at g n0 c 0 segs"
  have ss: "32 \<le> jg_ss g" using geom_okD(3) [OF g(1)] .
  then have "length segs * 32 \<le> length segs * jg_ss g" by simp
  also have "\<dots> \<le> length c" using segs_count [of g n0 c 0 segs] g(2) False ss by simp
  finally show ?thesis by simp
qed simp

section \<open>Finalising the journal\<close>

definition jouts :: "nat \<Rightarrow> (u8 list \<Rightarrow> bool) \<Rightarrow> disk \<Rightarrow> bool" where
  "jouts ss J d \<longleftrightarrow> (\<forall>c. crash_file ss (j_dur d) (j_pend d) c \<longrightarrow> J c)"

definition same_db :: "disk \<Rightarrow> disk \<Rightarrow> bool" where
  "same_db a b \<longleftrightarrow> d_cur a = d_cur b \<and> d_dur a = d_dur b \<and> d_touched a = d_touched b \<and> d_low a = d_low b"

text \<open>No crash leaves a journal with a header.\<close>

definition journal_gone :: "nat \<Rightarrow> disk \<Rightarrow> bool" where
  "journal_gone ss d \<longleftrightarrow> \<not> j_exists d \<and> j_sure d \<or> jouts ss (\<lambda>c. magic_free c 0) d"

lemma jouts_write:
  assumes "jouts ss J d" "\<And>c c'. J c \<Longrightarrow> crash_write ss c w c' \<Longrightarrow> J' c'"
  shows "jouts ss J' (j_op w d)"
  unfolding jouts_def
proof (intro allI impI)
  fix c'
  assume "crash_file ss (j_dur (j_op w d)) (j_pend (j_op w d)) c'"
  then have "crash_file ss (j_dur d) (j_pend d @ [w]) c'" by (simp add: j_op_def)
  then obtain c where "crash_file ss (j_dur d) (j_pend d) c" "crash_write ss c w c'" by (rule crash_snocE)
  then show "J' c'" using assms by (auto simp: jouts_def)
qed

lemma jouts_sync: "jouts ss J d \<Longrightarrow> disk_wf d \<Longrightarrow> J (j_cur d)"
  by (auto simp: jouts_def dest: disk_wf_outcome)

lemma magic_free_nil [simp]: "magic_free [] h"
  by (auto simp: magic_free_def intro: exI [of _ 0])

lemma magic_free_take: "magic_free c h \<Longrightarrow> magic_free (take n c) h"
  by (auto simp: magic_free_def min_def)

lemma magic_free_zeros: "8 \<le> n \<Longrightarrow> magic_free (os_write c h (replicate n 0)) h"
proof (rule magic_free_write)
  assume n: "8 \<le> n"
  show "8 \<le> length (replicate n (0 :: u8))" using n by simp
  show "take 8 (replicate n (0 :: u8)) \<noteq> aJournalMagic"
  proof
    assume eq: "take 8 (replicate n (0 :: u8)) = aJournalMagic"
    have "take 8 (replicate n (0 :: u8)) ! 0 = 0" using n by simp
    then show False using eq magic_nonzero [of 0] by simp
  qed
qed

text \<open>
  \<open>J\<close> is what holds of every journal that a crash may leave before the journal is finalised;
  a journal without a header has to satisfy it too. \<open>d0\<close> gives the database file.
\<close>

definition finalizing :: "nat \<Rightarrow> (u8 list \<Rightarrow> bool) \<Rightarrow> disk \<Rightarrow> pager \<Rightarrow> bool" where
  "finalizing ss J d0 p \<longleftrightarrow> same_db d0 (disk p) \<and> disk_wf (disk p) \<and> jouts ss J (disk p) \<and> \<not> noSync p"

definition headless :: "u8 list \<Rightarrow> bool" where "headless c \<longleftrightarrow> magic_free c 0"

text \<open>The settings under which the end of the journal is durable when the call returns.\<close>

definition durable_end :: "pager \<Rightarrow> bool" where
  "durable_end p \<longleftrightarrow>
     (if journalMode p = JM_TRUNCATE then fullSync p \<and> journalOff p \<noteq> 0
      else if journalMode p = JM_PERSIST \<or> exclusiveMode p then journalOff p \<noteq> 0 else extraSync p)"

lemma zero_header_outcome:
  assumes "32 \<le> ss" "crash_write ss c (PWrite 0 (replicate 28 0)) c'"
  shows "c' = c \<or> headless c'"
proof -
  have "same_sector ss 0 (replicate 28 0)" using assms(1) by (simp add: same_sector_def)
  from crash_write_sector [OF assms(2) this] show ?thesis by (auto simp: headless_def magic_free_zeros)
qed

lemma truncate_outcome: "crash_write ss c (PTruncate n) c' \<Longrightarrow> c' = c \<or> c' = take n c"
  by (simp add: crash_write_def)

lemma finalizing_write:
  assumes "finalizing ss J d0 p" "\<And>c c'. J c \<Longrightarrow> crash_write ss c w c' \<Longrightarrow> J' c'"
  shows "finalizing ss J' d0 (p\<lparr>os := o', disk := j_op w (disk p), past := x\<rparr>)"
  using assms jouts_write [of ss J "disk p" w J']
  by (auto simp: finalizing_def same_db_def disk_wf_def j_op_def)

lemma finalizing_sync:
  assumes "finalizing ss J d0 p" "J' (j_cur (disk p))"
  shows "finalizing ss J' d0 (p\<lparr>os := o', disk := disk_step ps (disk p) JSync, past := x\<rparr>)"
  using assms by (auto simp: finalizing_def same_db_def disk_wf_def jouts_def)

lemma finalize_runs:
  assumes ss: "32 \<le> ss" and J: "\<And>c. headless c \<Longrightarrow> J c"
    and S: "\<And>d. same_db d0 d \<Longrightarrow> jouts ss J d \<Longrightarrow> S d"
  shows "runs True S (\<lambda>p. finalizing ss J d0 p \<and> jfd_open p \<and> durable_end p = dur)
    (finalize_journal hasSuper)
    (\<lambda>p. finalizing ss J d0 p \<and> (dur \<longrightarrow> journal_gone ss (disk p)))"
proof (rule runs_fix)
  fix p0
  assume p0: "finalizing ss J d0 p0 \<and> jfd_open p0 \<and> durable_end p0 = dur"
  let ?F = "\<lambda>J p. finalizing ss J d0 p \<and> fullSync p = fullSync p0"
  have Sf: "S (disk p)" if "?F J p" for p using S that by (simp add: finalizing_def)
  have clear: "J c'" if "J c" "c' = c \<or> headless c'" for c c' using that J by blast
  have nil: "headless []" by (simp add: headless_def)
  have tr0: "J c'" if "J c" "crash_write ss c (PTruncate 0) c'" for c c'
    using that clear [of c c'] nil truncate_outcome [of ss c 0 c'] by auto
  have z: "J c'" if "J c" "crash_write ss c (PWrite 0 (replicate 28 0)) c'" for c c'
    using that clear zero_header_outcome [OF ss] by blast
  have hd: "headless c'" if "headless c" "crash_write ss c (PTruncate n) c'" for c c' n
    using that truncate_outcome [of ss c n c'] by (auto simp: headless_def magic_free_take)
  have hJ: "?F headless p \<Longrightarrow> ?F J p" for p using J by (auto simp: finalizing_def jouts_def)
  have gone: "?F headless p \<Longrightarrow> journal_gone ss (disk p)" for p
    by (simp add: finalizing_def journal_gone_def headless_def [abs_def])
  \<comment> \<open>one write that clears the header, then a sync\<close>
  have clear_hdr: "runs True S (?F J) (if doTr then os_call (JTruncate 0) else os_call (JWrite 0 (replicate 28 0)))
      (\<lambda>p. ?F J p \<and> headless (j_cur (disk p)))" for doTr
  proof (cases doTr)
    case True
    have "runs True S (?F J) (os_call (JTruncate 0)) (\<lambda>p. ?F J p \<and> headless (j_cur (disk p)))"
    proof (rule runs_io)
      fix p o'
      assume p: "?F J p"
      have F: "?F J (p\<lparr>os := y, disk := j_op (PTruncate 0) (disk p), past := x\<rparr>)" for x y
        using p finalizing_write [OF conjunct1 [OF p] tr0] by simp
      show "S (disk_step (pageSize p) (disk p) (JTruncate 0))" using Sf [OF F] by simp
      show "?F J (do_io (JTruncate 0) (p\<lparr>os := o'\<rparr>)) \<and> headless (j_cur (disk (do_io (JTruncate 0) (p\<lparr>os := o'\<rparr>))))"
        using F nil by (simp add: do_io_def j_op_def)
    qed
    with True show ?thesis by simp
  next
    case False
    have "runs True S (?F J) (os_call (JWrite 0 (replicate 28 0))) (\<lambda>p. ?F J p \<and> headless (j_cur (disk p)))"
    proof (rule runs_io)
      fix p o'
      assume p: "?F J p"
      have F: "?F J (p\<lparr>os := y, disk := j_op (PWrite 0 (replicate 28 0)) (disk p), past := x\<rparr>)" for x y
        using p finalizing_write [OF conjunct1 [OF p] z] by simp
      show "S (disk_step (pageSize p) (disk p) (JWrite 0 (replicate 28 0)))" using Sf [OF F] by simp
      show "?F J (do_io (JWrite 0 (replicate 28 0)) (p\<lparr>os := o'\<rparr>)) \<and>
        headless (j_cur (disk (do_io (JWrite 0 (replicate 28 0)) (p\<lparr>os := o'\<rparr>))))"
        using F by (simp add: do_io_def j_op_def headless_def magic_free_zeros)
    qed
    with False show ?thesis by simp
  qed
  have sync: "runs True S (\<lambda>p. ?F J p \<and> headless (j_cur (disk p))) (os_call JSync) (?F headless)"
  proof (rule runs_io)
    fix p o'
    assume p: "?F J p \<and> headless (j_cur (disk p))"
    have F: "?F headless (p\<lparr>os := y, disk := disk_step ps (disk p) JSync, past := x\<rparr>)" for ps x y
      using p finalizing_sync [of ss J d0 p headless] by simp
    show "S (disk_step (pageSize p) (disk p) JSync)" using Sf [OF hJ [OF F]] by simp
    show "?F headless (do_io JSync (p\<lparr>os := o'\<rparr>))" using F by (simp add: do_io_def)
  qed
  have limit: "runs True S (?F headless) (os_call (JTruncate l)) (?F headless)" for l
  proof (rule runs_io)
    fix p o'
    assume p: "?F headless p"
    have F: "?F headless (p\<lparr>os := y, disk := j_op (PTruncate l) (disk p), past := x\<rparr>)" for x y
      using p finalizing_write [OF conjunct1 [OF p] hd] by simp
    show "S (disk_step (pageSize p) (disk p) (JTruncate l))" using Sf [OF hJ [OF F]] by simp
    show "?F headless (do_io (JTruncate l) (p\<lparr>os := o'\<rparr>))" using F by (simp add: do_io_def)
  qed
  have F0: "?F J p0" using p0 by simp
  show "runs True S (\<lambda>p. p = p0) (finalize_journal hasSuper) (\<lambda>p. finalizing ss J d0 p \<and> (dur \<longrightarrow> journal_gone ss (disk p)))"
  proof (cases "journalMode p0 = JM_TRUNCATE")
    case True
    have "runs True S (\<lambda>p. p = p0) (whenP (\<lambda>p. journalOff p \<noteq> 0) (andThen (os_call (JTruncate 0)) (whenP fullSync (os_call JSync))))
        (\<lambda>p. ?F J p \<and> (fullSync p0 \<and> journalOff p0 \<noteq> 0 \<longrightarrow> ?F headless p))"
      by (rule runs_when, rule runs_andThen [OF runs_pre [OF clear_hdr [of True, simplified]]],
          use F0 in blast, rule runs_when, rule runs_post [OF runs_pre [OF sync]]) (use F0 hJ in auto)
    then have "runs True S (\<lambda>p. p = p0)
        (\<lambda>p. let (rc, p) = whenP (\<lambda>p. journalOff p \<noteq> 0) (andThen (os_call (JTruncate 0)) (whenP fullSync (os_call JSync))) p
             in (rc, p\<lparr>journalOff := 0\<rparr>))
        (\<lambda>p. finalizing ss J d0 p \<and> (dur \<longrightarrow> journal_gone ss (disk p)))"
      by (intro runs_map) (use p0 True gone in \<open>auto elim!: runs_post simp: finalizing_def durable_end_def\<close>)
    then show ?thesis by (rule runs_cong) (use p0 True in \<open>simp add: finalize_journal_def whenP_def\<close>)
  next
    case nt: False
    show ?thesis
    proof (cases "journalMode p0 = JM_PERSIST \<or> exclusiveMode p0")
      case True
      define doTr where "doTr = (hasSuper \<or> journalSizeLimit p0 = Some 0)"
      have lim: "runs True S (?F headless) (case journalSizeLimit p0 of None \<Rightarrow> upd id
          | Some l \<Rightarrow> whenP (\<lambda>p. l > 0 \<and> length (j_cur (disk p)) > l) (os_call (JTruncate l))) (?F headless)"
        by (cases "journalSizeLimit p0") (auto intro!: runs_upd runs_when runs_pre [OF limit])
      have syn: "runs True S (\<lambda>p. ?F J p \<and> headless (j_cur (disk p))) (whenP (\<lambda>p. \<not> noSync p) (os_call JSync)) (?F headless)"
        by (rule runs_when [OF runs_pre [OF sync]]) (auto simp: finalizing_def)
      have "runs True S (\<lambda>p. p = p0 \<and> journalOff p \<noteq> 0)
          (andThen (if doTr then os_call (JTruncate 0) else os_call (JWrite 0 (replicate 28 0)))
            (andThen (whenP (\<lambda>p. \<not> noSync p) (os_call JSync))
              (case journalSizeLimit p0 of None \<Rightarrow> upd id
               | Some l \<Rightarrow> whenP (\<lambda>p. l > 0 \<and> length (j_cur (disk p)) > l) (os_call (JTruncate l))))) (?F headless)"
        by (rule runs_andThen [OF runs_pre [OF clear_hdr [of doTr]] runs_andThen [OF syn lim]]) (use F0 in simp)
      then have "runs True S (\<lambda>p. p = p0) (zeroJournalHdr hasSuper)
          (\<lambda>p. ?F J p \<and> (journalOff p0 \<noteq> 0 \<longrightarrow> ?F headless p))"
        unfolding zeroJournalHdr_def
        by (intro runs_when) (erule runs_post [OF runs_cong], use F0 hJ in \<open>auto simp: doTr_def Let_def\<close>)
      then have "runs True S (\<lambda>p. p = p0) (\<lambda>p. let (rc, p) = zeroJournalHdr hasSuper p in (rc, p\<lparr>journalOff := 0\<rparr>))
          (\<lambda>p. finalizing ss J d0 p \<and> (dur \<longrightarrow> journal_gone ss (disk p)))"
        by (intro runs_map) (use p0 True nt gone in \<open>auto elim!: runs_post simp: finalizing_def durable_end_def\<close>)
      then show ?thesis by (rule runs_cong) (use p0 True nt in \<open>simp add: finalize_journal_def whenP_def\<close>)
    next
      case False
      let ?p = "p0\<lparr>jfd_open := False\<rparr>"
      have "runs True S (\<lambda>p. p = ?p) (os_call (JDelete (extraSync p0)))
          (\<lambda>p. finalizing ss J d0 p \<and> (dur \<longrightarrow> journal_gone ss (disk p)))"
        by (rule runs_io)
          (use p0 nt False in \<open>auto simp: finalizing_def same_db_def disk_wf_def jouts_def do_io_def durable_end_def
             journal_gone_def intro!: S\<close>)
      then show ?thesis using p0 nt False
        by (simp add: runs_def finalize_journal_def whenP_def calm_def)
    qed
  qed
qed

section \<open>Recovery\<close>

definition has_chain :: "jgeom \<Rightarrow> u8 list list \<Rightarrow> u8 list \<Rightarrow> bool" where
  "has_chain g orig c \<longleftrightarrow> (\<exists>segs. segs_at g (length orig) c 0 segs \<and> segs_good g orig segs)"

definition db_is :: "u8 list list \<Rightarrow> disk \<Rightarrow> bool" where
  "db_is orig d \<longleftrightarrow> d_touched d = {} \<and> d_dur d = orig \<and> d_cur d = orig \<and> (orig \<noteq> [] \<longrightarrow> 0 < d_low d)"

lemma db_is_same: "db_is orig d0 \<Longrightarrow> same_db d0 d \<Longrightarrow> db_is orig d"
  unfolding db_is_def same_db_def by metis

lemma db_is_covered: "db_is orig d \<Longrightarrow> db_covered orig segs d"
  by (auto simp: db_is_def db_covered_def)

lemma headless_chain: "headless c \<Longrightarrow> has_chain g orig c"
  by (auto simp: has_chain_def headless_def segs_good_def intro!: exI [of _ "[]"])

lemma safe_settled:
  assumes "db_is orig d0" "same_db d0 d" "jouts (jg_ss g) (has_chain g orig) d"
  shows "safe_disk g orig d"
proof (rule safe_diskI)
  have d: "db_is orig d" using assms(1,2) by (rule db_is_same)
  show "d_touched d = {} \<and> d_dur d = orig" using d by (simp add: db_is_def)
  fix c
  assume "crash_file (jg_ss g) (j_dur d) (j_pend d) c"
  then show "journal_covers g orig d c"
    using assms(3) db_is_covered [OF d] by (auto simp: jouts_def has_chain_def journal_covers_def)
qed

text \<open>The end of a transaction after a rollback: only \<open>finalize_journal\<close> touches the disk.\<close>

lemma end_transaction_runs:
  assumes "runs True S (\<lambda>p. P p \<and> jfd_open p) (finalize_journal hasSuper) Q"
    and P: "\<And>p. P p \<Longrightarrow> P (releaseAllSavepoints p) \<and> jfd_open (releaseAllSavepoints p)"
    and Q: "\<And>p q. Q p \<Longrightarrow> disk q = disk p \<Longrightarrow> noSync q = noSync p \<Longrightarrow> Q' q"
  shows "runs True S P (pager_end_transaction True hasSuper False) Q'"
proof (rule runsI)
  fix p rc p'
  assume p: "P p" "\<forall>d\<in>set (past p). S d" and run: "pager_end_transaction True hasSuper False p = (rc, p')"
  obtain r1 p1 where fj: "finalize_journal hasSuper (releaseAllSavepoints p) = (r1, p1)" by fastforce
  have past: "\<forall>d\<in>set (past (releaseAllSavepoints p)). S d" using p(2) by (simp add: releaseAllSavepoints_def)
  note F = runsD [OF assms(1) P [OF p(1)] past fj]
  have calm: "calm (releaseAllSavepoints p) = calm p" by (simp add: releaseAllSavepoints_def calm_def)
  show "(\<forall>d\<in>set (past p'). S d) \<and> (rc = SQLITE_OK \<longrightarrow> Q' p') \<and> (True \<and> calm p \<longrightarrow> rc = SQLITE_OK \<and> calm p')"
    using run fj F calm
    by (auto simp: pager_end_transaction_def Let_def on_cache_def os_ask_def calm_def
        split: if_splits option.splits prod.splits intro: Q)
qed

lemma sync_db_runs:
  assumes g: "segs_at g (length orig) c 0 segs" "segs_good g orig segs"
  shows "runs True (safe_disk g orig) (\<lambda>p. rolling g orig segs c p \<and> d_cur (disk p) = orig) PagerSync
    (\<lambda>p. finalizing (jg_ss g) (has_chain g orig) (disk p) p \<and> db_is orig (disk p) \<and> jfd_open p)"
  unfolding PagerSync_def
proof (rule runs_andThen [OF runs_ask])
  let ?P = "\<lambda>p. rolling g orig segs c p \<and> d_cur (disk p) = orig"
  show "?P (p\<lparr>os := o'\<rparr>)" if "?P p" for p o' using that by (simp add: rolling_def PagerLookup_def)
  show "runs True (safe_disk g orig) ?P (whenP (\<lambda>p. \<not> noSync p) (os_call DSync))
    (\<lambda>p. finalizing (jg_ss g) (has_chain g orig) (disk p) p \<and> db_is orig (disk p) \<and> jfd_open p)"
  proof (intro runs_when runs_io)
    fix p o'
    assume p: "?P p \<and> \<not> noSync p"
    let ?d = "disk_step (pageSize p) (disk p) DSync"
    have isd: "db_is orig ?d" using p by (simp add: db_is_def)
    have j: "j_dur ?d = c" "j_pend ?d = []" "j_exists ?d" "j_sure ?d" "j_cur ?d = c" using p by (simp_all add: rolling_def)
    show "safe_disk g orig ?d" using j db_is_covered [OF isd] by (intro rolling_safe [OF g])
    have "has_chain g orig c" using g by (auto simp: has_chain_def)
    then show "finalizing (jg_ss g) (has_chain g orig) (disk (do_io DSync (p\<lparr>os := o'\<rparr>))) (do_io DSync (p\<lparr>os := o'\<rparr>)) \<and>
      db_is orig (disk (do_io DSync (p\<lparr>os := o'\<rparr>))) \<and> jfd_open (do_io DSync (p\<lparr>os := o'\<rparr>))"
      using p isd j by (auto simp: finalizing_def same_db_def disk_wf_def jouts_def do_io_def rolling_def)
  qed (simp add: rolling_def)
qed

lemma end_recovery_runs:
  assumes g: "geom_ok g orig"
  shows "runs True (safe_disk g orig)
    (\<lambda>p. finalizing (jg_ss g) (has_chain g orig) (disk p) p \<and> db_is orig (disk p) \<and> jfd_open p)
    (pager_end_transaction True hasSuper False) (\<lambda>p. db_is orig (disk p))"
proof (rule runs_fix)
  fix p0
  assume p0: "finalizing (jg_ss g) (has_chain g orig) (disk p0) p0 \<and> db_is orig (disk p0) \<and> jfd_open p0"
  let ?F = "\<lambda>p. finalizing (jg_ss g) (has_chain g orig) (disk p0) p \<and> durable_end p = durable_end p0"
  have fin: "runs True (safe_disk g orig) (\<lambda>p. ?F p \<and> jfd_open p) (finalize_journal hasSuper)
      (\<lambda>p. finalizing (jg_ss g) (has_chain g orig) (disk p0) p \<and> (durable_end p0 \<longrightarrow> journal_gone (jg_ss g) (disk p)))"
    by (rule runs_pre [OF finalize_runs [OF geom_okD(3) [OF g]]])
      (use p0 in \<open>auto intro: headless_chain safe_settled\<close>)
  have "runs True (safe_disk g orig) (\<lambda>p. ?F p \<and> jfd_open p) (pager_end_transaction True hasSuper False) (\<lambda>p. db_is orig (disk p))"
    by (rule end_transaction_runs [OF runs_pre [OF fin]])
      (use p0 in \<open>auto simp: finalizing_def releaseAllSavepoints_def durable_end_def intro: db_is_same\<close>)
  then show "runs True (safe_disk g orig) (\<lambda>p. p = p0) (pager_end_transaction True hasSuper False) (\<lambda>p. db_is orig (disk p))"
    by (rule runs_pre) (use p0 in simp)
qed

lemma playback_runs:
  assumes g: "geom_ok g orig" "segs_at g (length orig) c 0 segs" "segs_good g orig segs"
    and p: "rolling g orig segs c p" "unstarted orig segs p" "\<forall>d\<in>set (past p). safe_disk g orig d"
    and super: "readSuperJournal c (1 + mxPathname) = []"
  shows "\<exists>rc p'. pager_playback superExists mxPathname True p = Some (rc, p') \<and>
    (\<forall>d\<in>set (past p'). safe_disk g orig d) \<and> (rc = SQLITE_OK \<longrightarrow> db_is orig (disk p')) \<and>
    (calm p \<longrightarrow> rc = SQLITE_OK \<and> calm p')"
proof -
  let ?S = "safe_disk g orig"
  have cur: "j_cur (disk p) = c" "pageSize p = jg_ps g" using p(1) by (simp_all add: rolling_def)
  define p0 where "p0 = p\<lparr>journalOff := 0\<rparr>"
  have at0: "at_segment g orig segs c [] p0" "\<forall>d\<in>set (past p0). ?S d" "calm p0 = calm p"
    using p by (simp_all add: p0_def at_segment_def rolling_def unstarted_def PagerLookup_def round_up_def calm_def)
  obtain r1 p1 where l: "playback_loop (length c + 2) True (length c) True p0 = Some (r1, p1)"
    and o1: "outcome ?S (\<lambda>p'. rolling g orig segs c p' \<and> d_cur (disk p') = orig) p0 (r1, p1)"
    using segments_loop [OF g at0(1,2) segs_count_fuel [OF g(1,2)], of True] by auto
  show ?thesis
  proof (cases "r1 = SQLITE_OK")
    case False
    then show ?thesis using l o1 at0(3) super
      by (auto simp: pager_playback_def end_playback_def Let_def cur p0_def [symmetric] outcome_def calm_def)
  next
    case True
    define p2 where "p2 = p1\<lparr>pageSize := jg_ps g, changeCountDone := False\<rparr>"
    define hs where "hs = (readSuperJournal (j_cur (disk p1)) (1 + mxPathname) \<noteq> [])"
    have P2: "rolling g orig segs c p2 \<and> d_cur (disk p2) = orig" "\<forall>d\<in>set (past p2). ?S d" "calm p \<longrightarrow> calm p2"
      using o1 True at0(3) by (auto simp: p2_def outcome_def rolling_def PagerLookup_def calm_def)
    define f where "f = andThen (whenP (\<lambda>p. eState p \<ge> PAGER_WRITER_DBMOD \<or> eState p = PAGER_OPEN) PagerSync)
      (pager_end_transaction True hs False)"
    have f: "runs True ?S (\<lambda>p. rolling g orig segs c p \<and> d_cur (disk p) = orig) f (\<lambda>p. db_is orig (disk p))"
      unfolding f_def
      by (rule runs_andThen [OF runs_when [OF runs_pre [OF sync_db_runs [OF g(2,3)]]] end_recovery_runs [OF g(1)]])
        (auto simp: rolling_def)
    obtain r4 p4 where p4: "f p2 = (r4, p4)" by fastforce
    have run: "pager_playback superExists mxPathname True p = Some (r4, p4\<lparr>sectorSize := sectorSize p\<rparr>)"
      using l True super p4
      by (simp add: pager_playback_def Let_def cur p0_def [symmetric] end_playback_def p2_def [symmetric] hs_def [symmetric]
          f_def [symmetric] del: One_nat_def)
    show ?thesis
      using run runsD [OF f P2(1,2) p4] P2(3) by (auto simp: calm_def)
  qed
qed

text \<open>A pager that opens the database after a crash: nothing in memory, the disk as it was left.\<close>

definition crashed_disk :: "u8 list option \<Rightarrow> u8 list list \<Rightarrow> disk" where
  "crashed_disk j db =
     (let c = (case j of None \<Rightarrow> [] | Some c \<Rightarrow> c) in
      \<lparr>j_exists = (j \<noteq> None), j_sure = True, j_cur = c, j_dur = c, j_pend = [],
       d_cur = db, d_dur = db, d_touched = {}, d_low = length db\<rparr>)"

definition fresh_pager :: "jgeom \<Rightarrow> u8 list option \<Rightarrow> u8 list list \<Rightarrow> pager \<Rightarrow> bool" where
  "fresh_pager g j db p \<longleftrightarrow>
     eState p = PAGER_OPEN \<and> (\<forall>n. PagerLookup p n = None) \<and> pageSize p = jg_ps g \<and> sectorSize p = jg_ss g \<and>
     \<not> noSync p \<and> \<not> jfd_open p \<and> errCode p = 0 \<and> \<not> hasHeldSharedLock p \<and> past p = [] \<and> disk p = crashed_disk j db"

lemma journal_first_byte:
  assumes "geom_ok g orig" "segs_at g n0 c 0 (s # segs)"
  shows "os_read c 1 0 = Some [0xd9]" "c \<noteq> []"
proof -
  have "bytes_at c 0 aJournalMagic" using assms(2) by (simp add: seg_at_def bytes_at_append)
  then have "0 < length c \<and> c ! 0 = aJournalMagic ! 0" by (auto simp: bytes_at_def dest!: spec [of _ 0])
  then show "c \<noteq> []" "os_read c 1 0 = Some [0xd9]"
    by (auto simp: os_read_def aJournalMagic_def take_Suc_conv_app_nth simp flip: hd_conv_nth) (cases c; simp)
qed

text \<open>The pager before and after the hot journal is synced.\<close>

definition starting :: "jgeom \<Rightarrow> u8 list option \<Rightarrow> u8 list list \<Rightarrow> pager \<Rightarrow> bool" where
  "starting g j db p \<longleftrightarrow>
     eState p = PAGER_OPEN \<and> (\<forall>n. PagerLookup p n = None) \<and> pageSize p = jg_ps g \<and> sectorSize p = jg_ss g \<and>
     \<not> noSync p \<and> \<not> hasHeldSharedLock p \<and> disk p = crashed_disk j db"

lemma journal_ok_covered:
  assumes "journal_ok g orig segs c db"
  shows "db_covered orig segs (crashed_disk (Some c) db)"
  using assms by (auto simp: journal_ok_def db_covered_def crashed_disk_def)

lemma sync_hot_runs:
  assumes ok: "journal_ok g orig segs c db"
  shows "runs True (safe_disk g orig) (\<lambda>p. starting g (Some c) db p \<and> jfd_open p) pagerSyncHotJournal
    (\<lambda>p. rolling g orig segs c p \<and> unstarted orig segs p)"
proof -
  have chain: "segs_at g (length orig) c 0 segs" "segs_good g orig segs" using ok by (simp_all add: journal_ok_def)
  have cov: "db_covered orig segs (crashed_disk (Some c) db)" using ok by (rule journal_ok_covered)
  have sync: "disk_step ps (crashed_disk (Some c) db) JSync = crashed_disk (Some c) db" for ps
    by (simp add: crashed_disk_def)
  have safe: "safe_disk g orig (crashed_disk (Some c) db)"
    by (rule rolling_safe [OF chain]) (simp_all add: crashed_disk_def cov [unfolded crashed_disk_def, simplified])
  let ?P = "\<lambda>p. starting g (Some c) db p \<and> jfd_open p"
  have "runs True (safe_disk g orig) ?P (whenP (\<lambda>p. \<not> noSync p) (os_call JSync)) ?P"
    by (intro runs_when runs_io) (auto simp: starting_def do_io_def PagerLookup_def sync safe simp del: disk_step.simps)
  moreover have "runs True (safe_disk g orig) ?P (upd (\<lambda>p. p\<lparr>journalHdr := length (j_cur (disk p))\<rparr>))
      (\<lambda>p. rolling g orig segs c p \<and> unstarted orig segs p)"
    by (rule runs_upd)
      (use ok cov in \<open>auto simp: starting_def rolling_def unstarted_def PagerLookup_def journal_ok_def crashed_disk_def\<close>)
  ultimately show ?thesis unfolding pagerSyncHotJournal_def by (rule runs_andThen)
qed

lemma recover_hot_runs:
  assumes g: "geom_ok g orig" and ok: "journal_ok g orig segs c db"
    and super: "readSuperJournal c (1 + mxPathname) = []"
    and p: "starting g (Some c) db p" "\<forall>d\<in>set (past p). safe_disk g orig d"
  shows "\<exists>rc p'. recover_hot superExists mxPathname p = Some (rc, p') \<and>
    (\<forall>d\<in>set (past p'). safe_disk g orig d) \<and> (rc = SQLITE_OK \<longrightarrow> db_is orig (disk p')) \<and>
    (calm p \<longrightarrow> rc = SQLITE_OK \<and> calm p')"
proof -
  let ?S = "safe_disk g orig" and ?O = "starting g (Some c) db"
  have chain: "segs_at g (length orig) c 0 segs" "segs_good g orig segs" using ok by (simp_all add: journal_ok_def)
  have askO: "runs True ?S ?O os_ask ?O" by (rule runs_ask) (simp add: starting_def PagerLookup_def)
  have upO: "runs True ?S ?O (upd (\<lambda>p. p\<lparr>jfd_open := True\<rparr>)) (\<lambda>p. ?O p \<and> jfd_open p)"
    by (rule runs_upd) (simp add: starting_def PagerLookup_def)
  have exO: "j_exists (disk q)" if "?O q" for q using that by (simp add: starting_def crashed_disk_def)
  define pre where "pre = andThen os_ask (whenP (\<lambda>p. \<not> jfd_open p) (andThen os_ask
      (whenP (\<lambda>p. j_exists (disk p)) (andThen os_ask (upd (\<lambda>p. p\<lparr>jfd_open := True\<rparr>))))))"
  have pre: "runs True ?S ?O pre (\<lambda>p. ?O p \<and> jfd_open p)"
    unfolding pre_def
    by (rule runs_andThen [OF askO runs_when], rule runs_andThen [OF runs_pre [OF askO]], simp,
        rule runs_when, rule runs_pre [OF runs_andThen [OF askO upO]]) (use exO in auto)
  obtain r1 p1 where p1: "pre p = (r1, p1)" by fastforce
  note R1 = runsD [OF pre p p1]
  show ?thesis
  proof (cases "r1 = SQLITE_OK")
    case False
    then show ?thesis using R1 p1 by (auto simp: recover_hot_def pre_def)
  next
    case True
    then have P1: "?O p1 \<and> jfd_open p1" "\<forall>d\<in>set (past p1). ?S d" using R1 by auto
    obtain r2 p2 where p2: "pagerSyncHotJournal p1 = (r2, p2)" by fastforce
    note R2 = runsD [OF sync_hot_runs [OF ok] P1 p2]
    show ?thesis
    proof (cases "r2 = SQLITE_OK")
      case False
      then show ?thesis using R1 R2 p1 p2 True P1 by (auto simp: recover_hot_def pre_def)
    next
      case r2: True
      then have P2: "rolling g orig segs c p2" "unstarted orig segs p2" "\<forall>d\<in>set (past p2). ?S d" using R2 by auto
      obtain r3 p3 where p3: "pager_playback superExists mxPathname True p2 = Some (r3, p3)"
        and R3: "\<forall>d\<in>set (past p3). ?S d" "r3 = SQLITE_OK \<longrightarrow> db_is orig (disk p3)" "calm p2 \<longrightarrow> r3 = SQLITE_OK \<and> calm p3"
        using playback_runs [OF g chain P2 super] by blast
      have "recover_hot superExists mxPathname p = Some (r3, p3\<lparr>eState := PAGER_OPEN\<rparr>)"
        using p1 p2 p3 True r2 P1 by (simp add: recover_hot_def pre_def [symmetric])
      then show ?thesis using R1 R2 R3 by (auto simp: calm_def)
    qed
  qed
qed

lemma pager_unlock_disk [simp]: "past (pager_unlock p) = past p" "disk (pager_unlock p) = disk p"
  by (simp_all add: pager_unlock_def releaseAllSavepoints_def pager_reset_def on_cache_def os_ask_def Let_def)

lemma pager_error_disk [simp]: "past (snd (pager_error p rc)) = past p" "fst (pager_error p rc) = rc"
  by (simp_all add: pager_error_def Let_def)

text \<open>What \<open>hasHotJournal\<close> decides on a crashed disk.\<close>

lemma hot_decision:
  assumes g: "geom_ok g orig" and rec: "recoverable g orig j db" and p: "starting g j db p" "\<not> jfd_open p" "past p = []"
  shows "\<exists>hot p1. hasHotJournal False p = (hot, p1) \<and> (\<forall>d\<in>set (past p1). safe_disk g orig d) \<and> (calm p \<longrightarrow> calm p1) \<and>
    (\<not> hot \<longrightarrow> d_cur (disk p1) = orig \<and> d_dur (disk p1) = orig \<and> \<not> hasHeldSharedLock p1) \<and>
    (hot \<longrightarrow> p1 = p \<and> (\<exists>c segs. j = Some c \<and> journal_ok g orig segs c db))"
proof (cases j)
  case None
  then have "db = orig" using rec by (simp add: recoverable_def)
  moreover have "hasHotJournal False p = (False, p)"
    using p None by (simp add: hasHotJournal_def starting_def crashed_disk_def)
  ultimately show ?thesis using p None by (intro exI [of _ False]) (auto simp: starting_def crashed_disk_def)
next
  case (Some c)
  then obtain segs where ok: "journal_ok g orig segs c db" using rec by (auto simp: recoverable_def)
  have dk: "disk p = crashed_disk (Some c) db" using p(1) Some by (simp add: starting_def)
  show ?thesis
  proof (cases "db = []")
    case True
    then have o: "orig = []" using ok by (simp add: journal_ok_def)
    let ?d = "disk_step (pageSize p) (disk p) (JDelete False)"
    have isd: "db_is orig ?d" using dk True o by (simp add: db_is_def crashed_disk_def)
    have "jouts (jg_ss g) (has_chain g orig) ?d"
      using ok dk by (auto simp: jouts_def crashed_disk_def has_chain_def journal_ok_def)
    then have "safe_disk g orig ?d" using safe_settled [OF isd] by (simp add: same_db_def)
    moreover have "j_exists (disk p)" "d_cur (disk p) = []" using dk True by (simp_all add: crashed_disk_def)
    then have hot: "hasHotJournal False p = (let (rc, p) = os_ask p in (False, if rc = SQLITE_OK then do_io (JDelete False) p else p))"
      using p(2) by (simp add: hasHotJournal_def)
    have cur: "d_cur (disk p) = orig" "d_dur (disk p) = orig" "\<not> hasHeldSharedLock p"
    proof -
      show "d_cur (disk p) = orig" "d_dur (disk p) = orig" using dk True o by (simp_all add: crashed_disk_def)
      show "\<not> hasHeldSharedLock p" using p(1) by (simp add: starting_def)
    qed
    obtain rc q where q: "os_ask p = (rc, q)" by fastforce
    then have Q: "disk q = disk p" "past q = []" "pageSize q = pageSize p" "\<not> hasHeldSharedLock q" "calm p \<longrightarrow> calm q"
      using p(3) cur(3) by (auto simp: os_ask_def calm_def)
    ultimately show ?thesis using hot q cur
      by (intro exI [of _ False] exI [of _ "if rc = SQLITE_OK then do_io (JDelete False) q else q"])
        (simp add: do_io_def calm_def)
  next
    case False
    show ?thesis
    proof (cases segs)
      case Nil
      then have "db = orig" using ok by (simp add: journal_ok_def)
      then show ?thesis using p False dk ok Some
        by (auto simp: hasHotJournal_def crashed_disk_def starting_def Let_def)
    next
      case (Cons s ss)
      then have "segs_at g (length orig) c 0 (s # ss)" using ok by (simp only: journal_ok_def)
      from journal_first_byte(1) [OF g this] have "hasHotJournal False p = (True, p)"
        using False dk by (simp add: hasHotJournal_def crashed_disk_def Let_def)
      then show ?thesis using p ok Some by auto
    qed
  qed
qed

lemma shared_lock_recovers:
  assumes g: "geom_ok g orig" and rec: "recoverable g orig j db" and p: "fresh_pager g j db p"
    and super: "\<forall>c. j = Some c \<longrightarrow> readSuperJournal c (1 + mxPathname) = []"
  shows "\<exists>rc p'. PagerSharedLock superExists mxPathname False p = Some (rc, p') \<and>
    (\<forall>d\<in>set (past p'). safe_disk g orig d) \<and>
    (rc = SQLITE_OK \<longrightarrow> d_cur (disk p') = orig \<and> d_dur (disk p') = orig \<and> dbSize p' = length orig \<and> eState p' = PAGER_READER) \<and>
    (calm p \<longrightarrow> rc = SQLITE_OK)"
proof -
  obtain r0 p0 where ask: "os_ask p = (r0, p0)" by fastforce
  have P0: "starting g j db p0" "\<not> jfd_open p0" "past p0 = []" "calm p \<longrightarrow> calm p0 \<and> r0 = SQLITE_OK" "eState p = PAGER_OPEN"
    using p ask by (auto simp: fresh_pager_def starting_def os_ask_def PagerLookup_def calm_def)
  show ?thesis
  proof (cases "r0 = SQLITE_OK")
    case False
    then show ?thesis using P0 ask by (auto simp: PagerSharedLock_def)
  next
    case r0: True
    obtain hot p1 where hot: "hasHotJournal False p0 = (hot, p1)"
      and H: "\<forall>d\<in>set (past p1). safe_disk g orig d" "calm p0 \<longrightarrow> calm p1"
        "\<not> hot \<longrightarrow> d_cur (disk p1) = orig \<and> d_dur (disk p1) = orig \<and> \<not> hasHeldSharedLock p1"
        "hot \<longrightarrow> p1 = p0 \<and> (\<exists>c segs. j = Some c \<and> journal_ok g orig segs c db)"
      using hot_decision [OF g rec P0(1-3)] by blast
    have ver: "runs True S (\<lambda>p. d_cur (disk p) = orig \<and> d_dur (disk p) = orig)
        (andThen check_version (upd (\<lambda>p. let (n, p) = pagerPagecount p in p\<lparr>dbSize := n\<rparr>)))
        (\<lambda>p. d_cur (disk p) = orig \<and> d_dur (disk p) = orig \<and> dbSize p = length orig)" for S
      unfolding check_version_def
      by (rule runs_andThen [of _ _ _ _ "\<lambda>p. d_cur (disk p) = orig \<and> d_dur (disk p) = orig"],
          rule runs_when, rule runs_andThen [OF runs_ask runs_upd])
        (auto intro!: runs_upd simp: Let_def pager_reset_def on_cache_def pagerPagecount_def)
    show ?thesis
    proof (cases hot)
      case False
      obtain r3 p3 where p3: "andThen check_version (upd (\<lambda>p. let (n, p) = pagerPagecount p in p\<lparr>dbSize := n\<rparr>)) p1 = (r3, p3)"
        by fastforce
      have c1: "d_cur (disk p1) = orig \<and> d_dur (disk p1) = orig" using H(3) False by simp
      note R = runsD [OF ver c1 H(1) p3]
      have "PagerSharedLock superExists mxPathname False p =
          Some (if r3 \<noteq> SQLITE_OK then (r3, pager_unlock p3) else (r3, p3\<lparr>eState := PAGER_READER, hasHeldSharedLock := True\<rparr>))"
        using P0(5) ask r0 hot False p3 by (simp add: PagerSharedLock_def)
      then show ?thesis using R P0(4) H(2) by auto
    next
      case True
      then obtain c segs where j: "j = Some c" and ok: "journal_ok g orig segs c db" and p1: "p1 = p0" using H(4) by blast
      have st: "starting g (Some c) db p1" using P0(1) j p1 by simp
      obtain r2 p2 where rh: "recover_hot superExists mxPathname p1 = Some (r2, p2)"
        and R2: "\<forall>d\<in>set (past p2). safe_disk g orig d" "r2 = SQLITE_OK \<longrightarrow> db_is orig (disk p2)"
          "calm p1 \<longrightarrow> r2 = SQLITE_OK \<and> calm p2"
        using recover_hot_runs [OF g ok _ st H(1)] super j by blast
      show ?thesis
      proof (cases "r2 = SQLITE_OK")
        case False
        have "PagerSharedLock superExists mxPathname False p = Some (r2, pager_unlock (snd (pager_error p2 r2)))"
          using P0(5) ask r0 hot True rh False by (simp add: PagerSharedLock_def case_prod_unfold)
        then show ?thesis using R2 H P0 False by auto
      next
        case r2: True
        obtain r3 p3 where p3: "andThen check_version (upd (\<lambda>p. let (n, p) = pagerPagecount p in p\<lparr>dbSize := n\<rparr>)) p2 = (r3, p3)"
          by fastforce
        have c2: "d_cur (disk p2) = orig \<and> d_dur (disk p2) = orig" using R2 r2 by (simp add: db_is_def)
        note R = runsD [OF ver c2 R2(1) p3]
        have "PagerSharedLock superExists mxPathname False p =
            Some (if r3 \<noteq> SQLITE_OK then (r3, pager_unlock p3) else (r3, p3\<lparr>eState := PAGER_READER, hasHeldSharedLock := True\<rparr>))"
          using P0(5) ask r0 hot True rh r2 p3 by (simp add: PagerSharedLock_def)
        then show ?thesis using R P0(4) H(2) R2(3) by auto
      qed
    qed
  qed
qed

end
