(* ===== verification/Pager_Crash.thy ===== *)
theory Pager_Crash
  imports Pager_Recovery
begin

text \<open>
  Writing is safe: during a write transaction every system call, whether the next one fails or
  the power does, leaves a disk from which recovery restores the database as it was before the
  transaction. This theory has the calls that write and sync the journal; those that write the
  database file are in \<open>Pager_Flush\<close>. This is for the settings \<open>pager.c\<close> documents as
  safe: full sync, a device without special guarantees, and sectors no larger than pages.
\<close>

section \<open>Frames\<close>

text \<open>A pager that differs from \<open>p1\<close> in the disk, and the disk satisfies \<open>D\<close>.\<close>

definition frame :: "pager \<Rightarrow> (disk \<Rightarrow> bool) \<Rightarrow> pager \<Rightarrow> bool" where
  "frame p1 D p \<longleftrightarrow> (\<exists>d x y. p = p1\<lparr>os := y, disk := d, past := x\<rparr> \<and> D d)"

lemma frame_self: "D (disk p) \<Longrightarrow> frame p D p"
  unfolding frame_def by (intro exI [of _ "disk p"] exI [of _ "past p"] exI [of _ "os p"]) simp

lemma frame_mono: "frame p1 D p \<Longrightarrow> (\<And>d. D d \<Longrightarrow> D' d) \<Longrightarrow> frame p1 D' p"
  unfolding frame_def by blast

lemma runs_io_frame:
  "(\<And>d. D d \<Longrightarrow> S (disk_step (pageSize p1) d op) \<and> D' (disk_step (pageSize p1) d op)) \<Longrightarrow>
   runs E S (frame p1 D) (os_call op) (frame p1 D')"
proof (rule runs_io)
  assume ok: "\<And>d. D d \<Longrightarrow> S (disk_step (pageSize p1) d op) \<and> D' (disk_step (pageSize p1) d op)"
  fix p
  assume "frame p1 D p"
  then obtain d x y where p: "p = p1\<lparr>os := y, disk := d, past := x\<rparr>" and d: "D d" by (auto simp: frame_def)
  show "S (disk_step (pageSize p) (disk p) op)" using ok [OF d] p by simp
  show "frame p1 D' (do_io op (p\<lparr>os := o'\<rparr>))" for o'
    unfolding frame_def using ok [OF d] p
    by (intro exI [of _ "disk_step (pageSize p1) d op"] exI [of _ "disk_step (pageSize p1) d op # x"] exI [of _ o'])
      (simp add: do_io_def)
qed

lemma runs_ask_frame: "runs E S (frame p1 D) os_ask (frame p1 D)"
proof (rule runs_ask)
  fix p o'
  assume "frame p1 D p"
  then obtain d x y where "p = p1\<lparr>os := y, disk := d, past := x\<rparr>" "D d" by (auto simp: frame_def)
  then show "frame p1 D (p\<lparr>os := o'\<rparr>)"
    unfolding frame_def by (intro exI [of _ d] exI [of _ x] exI [of _ o']) simp
qed

section \<open>The disk while records are written\<close>

definition db_part :: "u8 list list \<Rightarrow> jseg list \<Rightarrow> disk \<Rightarrow> bool" where
  "db_part orig segs d \<longleftrightarrow> db_covered orig segs d \<and> (orig \<noteq> [] \<longrightarrow> d_cur d \<noteq> []) \<and>
     (\<forall>q<length orig. Suc q \<notin> seg_pages segs \<longrightarrow> q < length (d_cur d) \<and> d_cur d ! q = orig ! q)"

text \<open>Between two segments: the segments \<open>segs\<close> are durable and no header follows.\<close>

definition between :: "jgeom \<Rightarrow> u8 list list \<Rightarrow> jseg list \<Rightarrow> disk \<Rightarrow> bool" where
  "between g orig segs d \<longleftrightarrow>
     disk_wf d \<and> j_exists d \<and> (segs \<noteq> [] \<longrightarrow> j_sure d) \<and> segs_good g orig segs \<and>
     jouts (jg_ss g) (\<lambda>c. segs_at g (length orig) c 0 segs) d \<and> db_part orig segs d"

text \<open>Inside a segment: its header, with zeros for the magic and the count, and its records are written.\<close>

definition in_segment :: "jgeom \<Rightarrow> u8 list list \<Rightarrow> jseg list \<Rightarrow> jseg \<Rightarrow> disk \<Rightarrow> bool" where
  "in_segment g orig segs s d \<longleftrightarrow>
     between g orig segs d \<and> segs_good g orig [s] \<and>
     (let h = segs_end g 0 segs in
        bytes_at (j_cur d) (h + 8) (replicate 4 0) \<and>
        bytes_at (j_cur d) (h + 12) (header_tail g (fst s) (length orig)) \<and> h + jg_ss g \<le> length (j_cur d) \<and>
        bytes_at (j_cur d) (h + jg_ss g) (records_bytes g (fst s) (snd s)))"

lemma safe_between: "between g orig segs d \<Longrightarrow> safe_disk g orig d"
proof (rule safe_diskI)
  assume b: "between g orig segs d"
  show "journal_covers g orig d c" if "crash_file (jg_ss g) (j_dur d) (j_pend d) c" for c
    using b that by (auto simp: between_def jouts_def journal_covers_def db_part_def)
  show "d_touched d = {} \<and> d_dur d = orig" if "\<not> (j_exists d \<and> j_sure d)"
    using b that by (auto simp: between_def db_part_def db_covered_def)
qed

lemma db_part_j_op [simp]: "db_part orig segs (j_op w d) = db_part orig segs d"
  by (simp add: db_part_def db_covered_def j_op_def)

lemma db_part_sync [simp]: "db_part orig segs (disk_step ps d JSync) = db_part orig segs d"
  by (simp add: db_part_def db_covered_def)

lemma disk_wf_j_op: "disk_wf d \<Longrightarrow> disk_wf (j_op w d)"
  by (simp add: disk_wf_def j_op_def)

lemma j_op_simps [simp]:
  "j_cur (j_op w d) = apply_jop (j_cur d) w" "j_exists (j_op w d) = j_exists d" "j_sure (j_op w d) = j_sure d"
  "d_cur (j_op w d) = d_cur d"
  by (simp_all add: j_op_def)

lemma between_write:
  assumes g: "geom_ok g orig" and b: "between g orig segs d" and off: "segs_end g 0 segs + 8 \<le> off"
  shows "between g orig segs (j_op (PWrite off bs) d)"
proof -
  have good: "segs_good g orig segs" using b by (simp add: between_def)
  have "jouts (jg_ss g) (\<lambda>c. segs_at g (length orig) c 0 segs) (j_op (PWrite off bs) d)"
  proof (rule jouts_write)
    show "jouts (jg_ss g) (\<lambda>c. segs_at g (length orig) c 0 segs) d" using b by (simp add: between_def)
    show "segs_at g (length orig) c' 0 segs" if "segs_at g (length orig) c 0 segs" "crash_write (jg_ss g) c (PWrite off bs) c'" for c c'
      using segs_at_torn [OF g good crash_write_torn [OF that(2)] that(1) off] .
  qed
  then show ?thesis using b by (simp add: between_def disk_wf_j_op)
qed

lemma between_header:
  assumes g: "geom_ok g orig" and b: "between g orig segs d"
    and bs: "8 \<le> length bs" "length bs \<le> jg_ss g" "take 8 bs \<noteq> aJournalMagic"
  shows "between g orig segs (j_op (PWrite (segs_end g 0 segs) bs) d)"
proof -
  have good: "segs_good g orig segs" using b by (simp add: between_def)
  have ss: "0 < jg_ss g" using geom_okD(3) [OF g] by simp
  have "jg_ss g dvd segs_end g 0 segs" by (rule segs_end_dvd) simp
  then obtain k where k: "segs_end g 0 segs = jg_ss g * k" ..
  have "(jg_ss g * k + length bs - 1) div jg_ss g = k"
  proof -
    have "jg_ss g * k + length bs - 1 = (length bs - 1) + jg_ss g * k" using bs(1) by simp
    then show ?thesis using bs(1,2) ss by (simp only: div_mult_self2) simp
  qed
  then have same: "same_sector (jg_ss g) (segs_end g 0 segs) bs" using k ss by (simp add: same_sector_def)
  have "jouts (jg_ss g) (\<lambda>c. segs_at g (length orig) c 0 segs) (j_op (PWrite (segs_end g 0 segs) bs) d)"
  proof (rule jouts_write)
    show "jouts (jg_ss g) (\<lambda>c. segs_at g (length orig) c 0 segs) d" using b by (simp add: between_def)
    fix c c'
    assume c: "segs_at g (length orig) c 0 segs" "crash_write (jg_ss g) c (PWrite (segs_end g 0 segs) bs) c'"
    from crash_write_sector [OF c(2) same] segs_at_blank [OF g good c(1) bs(1,3)]
    show "segs_at g (length orig) c' 0 segs" using c(1) by auto
  qed
  then show ?thesis using b by (simp add: between_def disk_wf_j_op)
qed

text \<open>The bytes of a segment stay when something is written behind it.\<close>

definition segment_bytes :: "jgeom \<Rightarrow> nat \<Rightarrow> nat \<Rightarrow> jseg \<Rightarrow> u8 list \<Rightarrow> bool" where
  "segment_bytes g n0 h s c \<longleftrightarrow> bytes_at c (h + 8) (replicate 4 0) \<and> bytes_at c (h + 12) (header_tail g (fst s) n0) \<and> h + jg_ss g \<le> length c \<and>
     bytes_at c (h + jg_ss g) (records_bytes g (fst s) (snd s))"

lemma in_segment_alt:
  "in_segment g orig segs s d \<longleftrightarrow> between g orig segs d \<and> segs_good g orig [s] \<and>
     segment_bytes g (length orig) (segs_end g 0 segs) s (j_cur d)"
  by (simp add: in_segment_def segment_bytes_def Let_def)

lemma good_length: "geom_ok g orig \<Longrightarrow> segs_good g orig [s] \<Longrightarrow> length (records_bytes g ck (snd s)) = length (snd s) * (jg_ps g + 8)"
  using recs_length [of g orig "[s]" s] by (simp add: length_records_bytes)

lemma segment_bytes_write:
  assumes "geom_ok g orig" "segs_good g orig [s]" "segment_bytes g n0 h s c" "seg_end g h s \<le> off"
  shows "segment_bytes g n0 h s (os_write c off bs)"
proof -
  have l: "length (records_bytes g (fst s) (snd s)) = length (snd s) * (jg_ps g + 8)" using good_length [OF assms(1,2)] .
  have "h + 28 \<le> off" using assms(4) geom_okD(3) [OF assms(1)] by (simp add: seg_end_def)
  moreover have "h + jg_ss g + length (records_bytes g (fst s) (snd s)) \<le> off" using assms(4) l by (simp add: seg_end_def)
  ultimately show ?thesis
    using assms(3) by (auto simp: segment_bytes_def length_os_write intro: bytes_at_other)
qed

lemma in_segment_write:
  assumes g: "geom_ok g orig" and s: "in_segment g orig segs s d" and off: "seg_end g (segs_end g 0 segs) s \<le> off"
  shows "in_segment g orig segs s (j_op (PWrite off bs) d)"
proof -
  have far: "segs_end g 0 segs + 8 \<le> off" using off geom_okD(3) [OF g] by (simp add: seg_end_def)
  show ?thesis
    using between_write [OF g _ far] segment_bytes_write [OF g _ _ off] s by (auto simp: in_segment_alt)
qed

section \<open>Adding a page to the journal\<close>

lemma records_snoc: "records_bytes g ck (rs @ [r]) = records_bytes g ck rs @ record_bytes g ck r"
  by (simp add: records_bytes_def)

lemma seg_end_snoc: "seg_end g h (ck, rs @ [r]) = seg_end g h (ck, rs) + (jg_ps g + 8)"
  by (simp add: seg_end_def)

text \<open>The segment \<open>s\<close> is in place and the bytes \<open>bs\<close> follow it.\<close>

definition followed_by :: "jgeom \<Rightarrow> u8 list list \<Rightarrow> jseg list \<Rightarrow> jseg \<Rightarrow> u8 list \<Rightarrow> disk \<Rightarrow> bool" where
  "followed_by g orig segs s bs d \<longleftrightarrow>
     in_segment g orig segs s d \<and> bytes_at (j_cur d) (seg_end g (segs_end g 0 segs) s) bs"

lemma followed_by_write:
  assumes g: "geom_ok g orig" and s: "followed_by g orig segs s bs d"
    and off: "off = seg_end g (segs_end g 0 segs) s + length bs"
  shows "followed_by g orig segs s (bs @ cs) (j_op (PWrite off cs) d)"
  using in_segment_write [OF g, of segs s d off cs] s off
  by (auto simp: followed_by_def bytes_at_append intro: bytes_at_other)

lemma followed_by_record:
  assumes g: "geom_ok g orig" and s: "followed_by g orig segs (ck, rs) (record_bytes g ck r) d"
    and good: "segs_good g orig [(ck, rs @ [r])]"
  shows "in_segment g orig segs (ck, rs @ [r]) d"
proof -
  have "segs_good g orig [(ck, rs)]" using s by (simp add: followed_by_def in_segment_def)
  then have "length (records_bytes g ck rs) = length rs * (jg_ps g + 8)" using good_length [OF g, of "(ck, rs)" ck] by simp
  then show ?thesis
    using s good by (auto simp: followed_by_def in_segment_def Let_def records_snoc bytes_at_append seg_end_def)
qed

lemma bitvec_add_valid:
  assumes "bv_valid b" "0 < n" "n \<le> iSize b"
  shows "\<exists>a' rc b'. bitvec_add a (Some b) n = (a', rc, Some b') \<and> bv_valid b' \<and> iSize b' = iSize b \<and>
    (rc = SQLITE_OK \<longrightarrow> bv.pages b' = insert n (bv.pages b))"
proof -
  obtain a' rc b' where r: "bv_set 9 a b n = Some (a', rc, b')" "bv_valid b'" "iSize b' = iSize b"
    using bv.set_returns [OF assms] by blast
  have "n < 2 ^ 32" using assms(1,3) by (simp add: bv_valid_def)
  then have "rc = SQLITE_OK \<longrightarrow> bv.pages b' = insert n (bv.pages b)" using bv.pages_set_ok [OF assms] r(1) by auto
  with r show ?thesis by (simp add: bitvec_add_def BitvecSet_def)
qed

lemma or_eq_0: "a OR b = 0 \<longleftrightarrow> a = 0 \<and> b = (0 :: nat)"
  by (metis or.left_neutral or_nat_def or_eq_0_iff)

text \<open>The pager after the record of page \<open>n\<close> has been added: \<open>p0\<close> is the one before.\<close>

definition page_added :: "jgeom \<Rightarrow> u8 list list \<Rightarrow> jseg list \<Rightarrow> jseg \<Rightarrow> nat \<Rightarrow> bitvec \<Rightarrow> pager \<Rightarrow> pager \<Rightarrow> bool" where
  "page_added g orig segs s n b p0 p \<longleftrightarrow>
     (\<exists>p1 b' a ss. frame (set_need_sync n p0) (in_segment g orig segs s) p1 \<and>
       p = p1\<lparr>journalOff := journalOff p0 + (8 + jg_ps g), nRec := nRec p0 + 1, mem := a, pInJournal := Some b', aSavepoint := ss\<rparr> \<and>
       bv_valid b' \<and> iSize b' = iSize b \<and> bv.pages b' = insert n (bv.pages b))"

lemma page_journaled_runs:
  assumes p0: "pageSize p0 = jg_ps g" "pInJournal p0 = Some b" "bv_valid b" "0 < n" "n \<le> iSize b"
  shows "runs False S (frame (set_need_sync n p0) (in_segment g orig segs s)) (page_journaled n) (page_added g orig segs s n b p0)"
proof (rule runsI)
  fix p rc p'
  assume p: "frame (set_need_sync n p0) (in_segment g orig segs s) p" "\<forall>d\<in>set (past p). S d"
    and run: "page_journaled n p = (rc, p')"
  from p(1) have f: "pageSize p = jg_ps g" "journalOff p = journalOff p0" "nRec p = nRec p0" "pInJournal p = Some b"
    by (auto simp: frame_def set_need_sync_def on_cache_def p0)
  obtain a' rc1 b' where add: "bitvec_add (mem p) (Some b) n = (a', rc1, Some b')" "bv_valid b'" "iSize b' = iSize b"
    "rc1 = SQLITE_OK \<longrightarrow> bv.pages b' = insert n (bv.pages b)"
    using bitvec_add_valid [OF p0(3-5)] by blast
  obtain a2 rc2 ss where sp: "sp_add n (aSavepoint p) a' = (a2, rc2, ss)" by (metis prod_cases3)
  have rp: "rc = rc1 OR rc2"
    "p' = p\<lparr>journalOff := journalOff p0 + (8 + jg_ps g), nRec := nRec p0 + 1, mem := a2, pInJournal := Some b', aSavepoint := ss\<rparr>"
    using run f add(1) sp by (auto simp: page_journaled_def addToSavepointBitvecs_def)
  have "page_added g orig segs s n b p0 p'" if "rc = SQLITE_OK"
    unfolding page_added_def
    by (rule exI [of _ p], rule exI [of _ b'], rule exI [of _ a2], rule exI [of _ ss])
      (use that p(1) rp add or_eq_0 [of rc1 rc2] in simp)
  then show "(\<forall>d\<in>set (past p'). S d) \<and> (rc = SQLITE_OK \<longrightarrow> page_added g orig segs s n b p0 p') \<and>
      (False \<and> calm p \<longrightarrow> rc = SQLITE_OK \<and> calm p')"
    using p(2) rp(2) by simp
qed

lemma add_page_runs:
  assumes g: "geom_ok g orig"
    and good: "segs_good g orig [(ck, rs @ [(n, d0)])]"
    and p0: "page_data p0 n = d0" "cksumInit p0 = ck" "pageSize p0 = jg_ps g"
      "journalOff p0 = seg_end g (segs_end g 0 segs) (ck, rs)" "in_segment g orig segs (ck, rs) (disk p0)"
      "pInJournal p0 = Some b" "bv_valid b" "n \<le> iSize b"
  shows "runs False (safe_disk g orig) (\<lambda>p. p = p0) (pagerAddPageToRollbackJournal n)
    (page_added g orig segs (ck, rs @ [(n, d0)]) n b p0)"
proof -
  let ?S = "safe_disk g orig"
  let ?p1 = "set_need_sync n p0"
  let ?off = "journalOff p0"
  let ?w = "Put4byte (word_of_nat n) :: u8 list"
  let ?ck = "pager_cksum p0 d0"
  have ps1: "pageSize ?p1 = jg_ps g" by (simp add: set_need_sync_def on_cache_def p0(3))
  have len: "length d0 = jg_ps g" using recs_length [OF g good] by auto
  have cks: "?ck = cksum_loop d0 (jg_ps g - 200) ck" by (simp add: pager_cksum_def p0)
  have rec: "record_bytes g ck (n, d0) = ?w @ d0 @ Put4byte ?ck" by (simp add: record_bytes_def cks)
  have n0: "0 < n" using good by (simp add: segs_good_def)
  have step: "runs False ?S (frame ?p1 (followed_by g orig segs (ck, rs) bs)) (os_call (JWrite o' cs))
      (frame ?p1 (followed_by g orig segs (ck, rs) (bs @ cs)))" if "o' = ?off + length bs" for bs cs o'
  proof (rule runs_io_frame)
    fix d
    assume "followed_by g orig segs (ck, rs) bs d"
    from followed_by_write [OF g this, of o' cs] that p0(4)
    have "followed_by g orig segs (ck, rs) (bs @ cs) (j_op (PWrite o' cs) d)" by simp
    then show "?S (disk_step (pageSize ?p1) d (JWrite o' cs)) \<and>
        followed_by g orig segs (ck, rs) (bs @ cs) (disk_step (pageSize ?p1) d (JWrite o' cs))"
      by (auto simp: followed_by_def in_segment_def intro: safe_between)
  qed
  have w1: "runs False ?S (\<lambda>p. p = ?p1) (write32bits ?off (word_of_nat n)) (frame ?p1 (followed_by g orig segs (ck, rs) ?w))"
    unfolding write32bits_def
    by (rule runs_pre [OF step [of ?off "[]" ?w, simplified]])
      (use p0(5) in \<open>auto intro!: frame_self simp: followed_by_def set_need_sync_def on_cache_def bytes_at_def\<close>)
  have w2: "runs False ?S (frame ?p1 (followed_by g orig segs (ck, rs) ?w)) (os_call (JWrite (?off + 4) d0))
      (frame ?p1 (followed_by g orig segs (ck, rs) (?w @ d0)))"
    by (rule step) simp
  have w3: "runs False ?S (frame ?p1 (followed_by g orig segs (ck, rs) (?w @ d0))) (write32bits (?off + jg_ps g + 4) ?ck)
      (frame ?p1 (in_segment g orig segs (ck, rs @ [(n, d0)])))"
    unfolding write32bits_def
    by (rule runs_post [OF step]) (use len rec followed_by_record [OF g _ good] in \<open>auto elim!: frame_mono\<close>)
  have "runs False ?S (\<lambda>p. p = ?p1) (andThen (write32bits ?off (word_of_nat n))
      (andThen (os_call (JWrite (?off + 4) d0)) (andThen (write32bits (?off + jg_ps g + 4) ?ck) (page_journaled n))))
      (page_added g orig segs (ck, rs @ [(n, d0)]) n b p0)"
    using p0(3,6-8) n0 by (intro runs_andThen [OF w1 runs_andThen [OF w2 runs_andThen [OF w3 page_journaled_runs]]])
  then have "runs False ?S (\<lambda>p. p = ?p1) (\<lambda>p. pagerAddPageToRollbackJournal n p0)
      (page_added g orig segs (ck, rs @ [(n, d0)]) n b p0)"
    by (rule runs_cong) (simp add: pagerAddPageToRollbackJournal_def Let_def p0(1) ps1)
  moreover have "past ?p1 = past p0" by (simp add: set_need_sync_def on_cache_def)
  ultimately show ?thesis unfolding runs_def by simp
qed

section \<open>Writing a header\<close>

definition plain_settings :: "jgeom \<Rightarrow> u8 list list \<Rightarrow> pager \<Rightarrow> bool" where
  "plain_settings g orig p \<longleftrightarrow>
     pageSize p = jg_ps g \<and> sectorSize p = jg_ss g \<and> jg_ss g \<le> jg_ps g \<and> \<not> noSync p \<and> fullSync p \<and>
     \<not> safeAppend p \<and> \<not> sequential p \<and> dbOrigSize p = length orig"

definition header_written :: "jgeom \<Rightarrow> u8 list list \<Rightarrow> jseg list \<Rightarrow> pager \<Rightarrow> pager \<Rightarrow> bool" where
  "header_written g orig segs p0 p \<longleftrightarrow>
     (\<exists>p1 ck sp r e. e = segs_end g 0 segs \<and>
       frame (p0\<lparr>aSavepoint := sp, journalHdr := e, journalOff := e, cksumInit := ck, rnd := r\<rparr>)
         (in_segment g orig segs (ck, [])) p1 \<and>
       p = p1\<lparr>journalOff := e + jg_ss g\<rparr>)"

lemma blank_not_magic [simp]: "replicate 8 0 \<noteq> aJournalMagic"
proof
  assume "replicate 8 0 = aJournalMagic"
  then have "replicate 8 0 ! 0 = aJournalMagic ! 0" by simp
  then show False using magic_nonzero [of 0] by simp
qed

lemma in_segment_header:
  assumes g: "geom_ok g orig" and b: "between g orig segs d"
  shows "in_segment g orig segs (ck, [])
    (j_op (PWrite (segs_end g 0 segs) (replicate 12 0 @ header_tail g ck (length orig) @ replicate (jg_ss g - 28) 0)) d)"
proof -
  let ?e = "segs_end g 0 segs"
  let ?bs = "replicate 12 0 @ header_tail g ck (length orig) @ replicate (jg_ss g - 28) 0"
  have len: "length ?bs = jg_ss g" using geom_okD(3) [OF g] by simp
  have "between g orig segs (j_op (PWrite ?e ?bs) d)"
    using geom_okD(3) [OF g] len by (intro between_header [OF g b]) simp_all
  moreover have "bytes_at (os_write (j_cur d) ?e ?bs) (?e + 12) (header_tail g ck (length orig))"
    by (rule bytes_at_write_part [OF refl]) simp
  moreover have "bytes_at (os_write (j_cur d) ?e ?bs) (?e + 8) (replicate 4 0)"
    by (rule bytes_at_write_part [where pre = "replicate 8 0" and post = "header_tail g ck (length orig) @ replicate (jg_ss g - 28) 0"])
      (simp_all add: numeral_eq_Suc)
  moreover have "?e + jg_ss g \<le> length (os_write (j_cur d) ?e ?bs)" using len by (simp add: length_os_write)
  ultimately show ?thesis by (simp add: in_segment_def segs_good_def Let_def records_bytes_def bytes_at_def)
qed

lemma hdr_loop_once:
  assumes "length z = sz" "0 < sz"
  shows "hdr_loop z sz 0 p = (let (rc, p) = os_call (JWrite (journalOff p) z) p in (rc, p\<lparr>journalOff := journalOff p + sz\<rparr>))"
  using assms by (subst hdr_loop.simps) (auto simp: hdr_loop.simps Let_def split: prod.split)

lemma writeJournalHdr_runs:
  assumes g: "geom_ok g orig" and p0: "plain_settings g orig p0" "between g orig segs (disk p0)"
    "round_up (jg_ss g) (journalOff p0) = segs_end g 0 segs"
  shows "runs False (safe_disk g orig) (\<lambda>p. p = p0) writeJournalHdr (header_written g orig segs p0)"
proof -
  let ?S = "safe_disk g orig" and ?e = "segs_end g 0 segs"
  define sp where "sp = map (\<lambda>s. if iHdrOffset s = 0 then s\<lparr>iHdrOffset := journalOff p0\<rparr> else s) (aSavepoint p0)"
  define ck where "ck = rnd p0 0"
  define p1 where "p1 = p0\<lparr>aSavepoint := sp, journalHdr := ?e, journalOff := ?e, cksumInit := ck, rnd := \<lambda>n. rnd p0 (Suc n)\<rparr>"
  let ?z = "replicate 12 0 @ header_tail g ck (length orig) @ replicate (jg_ss g - 28) 0 :: u8 list"
  have len: "length ?z = jg_ss g" "0 < jg_ss g" using geom_okD(3) [OF g] by simp_all
  have off: "journalHdrOffset (p0\<lparr>aSavepoint := sp\<rparr>) = ?e"
    using p0 by (simp add: journalHdrOffset_round_up plain_settings_def)
  have hdr: "journal_header p1 (jg_ss g) = ?z"
    using p0(1) by (simp add: journal_header_def p1_def plain_settings_def header_tail_def)
  have "writeJournalHdr p0 = hdr_loop ?z (jg_ss g) 0 p1"
    using p0(1) off hdr
    by (auto simp: writeJournalHdr_def Let_def JOURNAL_HDR_SZ_def plain_settings_def sp_def [symmetric] p1_def ck_def)
  then have run: "writeJournalHdr p0 =
      (let (rc, p) = os_call (JWrite ?e ?z) p1 in (rc, p\<lparr>journalOff := journalOff p + jg_ss g\<rparr>))"
    using hdr_loop_once [OF len, of p1] by (simp add: p1_def)
  have io: "runs False ?S (\<lambda>p. p = p1) (os_call (JWrite ?e ?z)) (frame p1 (in_segment g orig segs (ck, [])))"
  proof (rule runs_pre [OF runs_io_frame])
    fix d
    assume "between g orig segs d"
    from in_segment_header [OF g this, of ck]
    show "?S (disk_step (pageSize p1) d (JWrite ?e ?z)) \<and> in_segment g orig segs (ck, []) (disk_step (pageSize p1) d (JWrite ?e ?z))"
      by (auto simp: in_segment_def intro: safe_between)
  next
    show "frame p1 (between g orig segs) p" if "p = p1" for p using that p0(2) by (auto intro: frame_self simp: p1_def)
  qed
  have "runs False ?S (\<lambda>p. p = p1)
      (\<lambda>p. let (rc, p) = os_call (JWrite ?e ?z) p in (rc, p\<lparr>journalOff := journalOff p + jg_ss g\<rparr>)) (header_written g orig segs p0)"
  proof (rule runs_map [OF runs_post [OF io]])
    fix p
    assume f: "frame p1 (in_segment g orig segs (ck, [])) p"
    then have "journalOff p = ?e" by (auto simp: frame_def p1_def)
    with f show "header_written g orig segs p0 (p\<lparr>journalOff := journalOff p + jg_ss g\<rparr>)"
      unfolding header_written_def
      by (intro exI [of _ p] exI [of _ ck] exI [of _ sp] exI [of _ "\<lambda>n. rnd p0 (Suc n)"] exI [of _ ?e]) (simp add: p1_def)
  qed simp
  then show ?thesis using run unfolding runs_def by (simp add: p1_def)
qed

section \<open>Syncing the journal\<close>

lemma db_part_more: "db_part orig segs d \<Longrightarrow> db_part orig (segs @ [s]) d"
  unfolding db_part_def db_covered_def seg_pages_append by blast

definition sync_stage :: "jgeom \<Rightarrow> u8 list list \<Rightarrow> jseg list \<Rightarrow> jseg \<Rightarrow> disk \<Rightarrow> bool" where
  "sync_stage g orig segs s d \<longleftrightarrow> in_segment g orig segs s d \<and>
     magic_free (j_cur d) (round_up (jg_ss g) (seg_end g (segs_end g 0 segs) s))"

text \<open>The count has been written over the blank header, and may or may not be durable.\<close>

definition count_stage :: "jgeom \<Rightarrow> u8 list list \<Rightarrow> jseg list \<Rightarrow> jseg \<Rightarrow> disk \<Rightarrow> bool" where
  "count_stage g orig segs s d \<longleftrightarrow>
     disk_wf d \<and> j_exists d \<and> j_sure d \<and> segs_good g orig (segs @ [s]) \<and> db_part orig segs d \<and>
     segs_at g (length orig) (j_cur d) 0 (segs @ [s]) \<and>
     jouts (jg_ss g) (\<lambda>c. segs_at g (length orig) c 0 segs \<or> segs_at g (length orig) c 0 (segs @ [s])) d"

lemma safe_count_stage: "count_stage g orig segs s d \<Longrightarrow> safe_disk g orig d"
proof (rule safe_diskI)
  assume b: "count_stage g orig segs s d"
  then have good: "segs_good g orig segs" "segs_good g orig (segs @ [s])" by (simp_all add: count_stage_def segs_good_def)
  have db: "db_part orig segs d" using b by (simp add: count_stage_def)
  have cov: "db_covered orig segs d" "db_covered orig (segs @ [s]) d"
    using db db_part_more [OF db, of s] by (simp_all add: db_part_def)
  fix c
  assume "crash_file (jg_ss g) (j_dur d) (j_pend d) c"
  then have "segs_at g (length orig) c 0 segs \<or> segs_at g (length orig) c 0 (segs @ [s])"
    using b by (auto simp: count_stage_def jouts_def)
  with good cov show "journal_covers g orig d c" unfolding journal_covers_def by blast
qed (simp add: count_stage_def)

lemma count_stage_sync:
  assumes "count_stage g orig segs s d"
  shows "between g orig (segs @ [s]) (disk_step ps d JSync)"
proof -
  have "db_part orig (segs @ [s]) (disk_step ps d JSync)"
    using assms db_part_more [of orig segs d s] by (simp only: db_part_sync count_stage_def)
  moreover have "jouts (jg_ss g) (\<lambda>c. segs_at g (length orig) c 0 (segs @ [s])) (disk_step ps d JSync)"
    using assms by (auto simp: jouts_def count_stage_def)
  ultimately show ?thesis using assms by (simp add: between_def count_stage_def disk_wf_def)
qed

lemma not_magic_free: "os_read c 8 h \<noteq> Some aJournalMagic \<Longrightarrow> magic_free c h"
proof (rule ccontr)
  assume r: "os_read c 8 h \<noteq> Some aJournalMagic" and "\<not> magic_free c h"
  then have b: "bytes_at c h aJournalMagic" by (simp add: magic_free_iff)
  have "aJournalMagic \<noteq> []" by (simp add: aJournalMagic_def)
  from bytes_at_read(2) [OF b this] r show False by simp
qed

lemma magic_free_zero_byte: "magic_free (os_write c h [0]) h"
  using magic_nonzero [of 0] by (auto simp: magic_free_def length_os_write os_write_nth intro!: exI [of _ 0])

lemma stale_stage:
  assumes g: "geom_ok g orig" and s: "in_segment g orig segs s d"
    and h: "h = round_up (jg_ss g) (seg_end g (segs_end g 0 segs) s)"
  shows "os_read (j_cur d) 8 h = Some aJournalMagic \<Longrightarrow> sync_stage g orig segs s (j_op (PWrite h [0]) d)"
    "os_read (j_cur d) 8 h \<noteq> Some aJournalMagic \<Longrightarrow> sync_stage g orig segs s d"
proof -
  have "seg_end g (segs_end g 0 segs) s \<le> h" using geom_okD(3) [OF g] by (simp add: h round_up_ge)
  from in_segment_write [OF g s this, of "[0]"] show "sync_stage g orig segs s (j_op (PWrite h [0]) d)"
    by (simp add: sync_stage_def h magic_free_zero_byte)
  show "sync_stage g orig segs s d" if "os_read (j_cur d) 8 h \<noteq> Some aJournalMagic"
    using s not_magic_free [OF that] by (simp add: sync_stage_def h)
qed

lemma between_sync: "between g orig segs d \<Longrightarrow> between g orig segs (disk_step ps d JSync)"
proof -
  assume b: "between g orig segs d"
  then have j: "jouts (jg_ss g) (\<lambda>c. segs_at g (length orig) c 0 segs) d" and w: "disk_wf d" by (simp_all add: between_def)
  have "segs_at g (length orig) (j_cur d) 0 segs" using jouts_sync [OF j w] .
  then have "jouts (jg_ss g) (\<lambda>c. segs_at g (length orig) c 0 segs) (disk_step ps d JSync)" by (auto simp: jouts_def)
  moreover have "db_part orig segs (disk_step ps d JSync)" using b by (simp only: db_part_sync between_def)
  ultimately show ?thesis using b by (simp add: between_def disk_wf_def)
qed

definition synced_stage :: "jgeom \<Rightarrow> u8 list list \<Rightarrow> jseg list \<Rightarrow> jseg \<Rightarrow> disk \<Rightarrow> bool" where
  "synced_stage g orig segs s d \<longleftrightarrow> sync_stage g orig segs s d \<and> j_dur d = j_cur d \<and> j_pend d = [] \<and> j_sure d"

lemma sync_stage_sync: "sync_stage g orig segs s d \<Longrightarrow> synced_stage g orig segs s (disk_step ps d JSync)"
  using between_sync [of g orig segs d ps] by (simp add: synced_stage_def sync_stage_def in_segment_def Let_def)

lemma count_bytes_at:
  assumes "bytes_at c (h + 12) t"
  shows "bytes_at (os_write c h (aJournalMagic @ Put4byte k)) h (aJournalMagic @ Put4byte k @ t)"
proof -
  have "bytes_at (os_write c h (aJournalMagic @ Put4byte k)) (h + 12) t"
    by (rule bytes_at_other [OF assms]) simp
  moreover have "bytes_at (os_write c h (aJournalMagic @ Put4byte k)) h (aJournalMagic @ Put4byte k)" by simp
  ultimately have "bytes_at (os_write c h (aJournalMagic @ Put4byte k)) h ((aJournalMagic @ Put4byte k) @ t)"
    by (simp only: bytes_at_append [of _ _ "aJournalMagic @ Put4byte k" t]) simp
  then show ?thesis by simp
qed

lemma count_write:
  assumes g: "geom_ok g orig" and s: "synced_stage g orig segs s d"
  shows "count_stage g orig segs s
    (j_op (PWrite (segs_end g 0 segs) (aJournalMagic @ Put4byte (word_of_nat (length (snd s))))) d)"
proof -
  let ?e = "segs_end g 0 segs" and ?n0 = "length orig"
  let ?z = "aJournalMagic @ Put4byte (word_of_nat (length (snd s)))"
  let ?c' = "os_write (j_cur d) ?e ?z"
  note S = s [unfolded synced_stage_def sync_stage_def in_segment_def between_def Let_def]
  have ss: "32 \<le> jg_ss g" using geom_okD(3) [OF g] .
  have good: "segs_good g orig segs" "segs_good g orig (segs @ [s])" using S by (auto simp: segs_good_def)
  have old: "segs_at g ?n0 (j_cur d) 0 segs" using S crash_none by (auto simp: jouts_def)
  have torn: "torn (j_cur d) ?e 12 ?c'"
    using crash_write_torn [of 0 "j_cur d" ?e ?z ?c'] by (simp add: crash_write_def)
  have len: "length (records_bytes g (fst s) (snd s)) = length (snd s) * (jg_ps g + 8)"
    using S good_length [OF g] by simp
  have "bytes_at ?c' ?e (?z @ header_tail g (fst s) ?n0)"
    using S count_bytes_at [of "j_cur d" ?e "header_tail g (fst s) ?n0" "word_of_nat (length (snd s))"] by simp
  moreover have "bytes_at ?c' (?e + jg_ss g) (records_bytes g (fst s) (snd s))"
    using S ss by (intro bytes_at_other) auto
  ultimately have seg: "seg_at g ?n0 ?c' ?e s" using S by (simp add: seg_at_def length_os_write le_max_iff_disj)
  have "?e + 12 \<le> seg_end g ?e s" using ss by (simp add: seg_end_def)
  also have "\<dots> \<le> round_up (jg_ss g) (seg_end g ?e s)" using ss by (simp add: round_up_ge)
  finally have "magic_free ?c' (round_up (jg_ss g) (seg_end g ?e s))"
    using S by (intro torn_magic_free [OF torn]) simp_all
  then have new: "segs_at g ?n0 ?c' 0 (segs @ [s])" by (rule segs_at_snoc [OF g good(1) old refl torn seg])
  have "jg_ss g dvd ?e" by (rule segs_end_dvd) simp
  then have same: "same_sector (jg_ss g) ?e ?z"
  proof -
    assume "jg_ss g dvd ?e"
    then obtain k where k: "?e = jg_ss g * k" ..
    have "(?e + 12 - 1) div jg_ss g = (11 + jg_ss g * k) div jg_ss g" using k by (simp add: add.commute)
    also have "\<dots> = k" using ss by (simp only: div_mult_self2) simp
    finally show ?thesis using k ss by (simp add: same_sector_def)
  qed
  have "jouts (jg_ss g) (\<lambda>c. segs_at g ?n0 c 0 segs \<or> segs_at g ?n0 c 0 (segs @ [s])) (j_op (PWrite ?e ?z) d)"
    unfolding jouts_def
  proof (intro allI impI)
    fix c
    assume "crash_file (jg_ss g) (j_dur (j_op (PWrite ?e ?z) d)) (j_pend (j_op (PWrite ?e ?z) d)) c"
    then have "crash_file (jg_ss g) (j_cur d) ([] @ [PWrite ?e ?z]) c" using S by (simp add: j_op_def)
    then obtain c1 where "crash_file (jg_ss g) (j_cur d) [] c1" "crash_write (jg_ss g) c1 (PWrite ?e ?z) c"
      by (rule crash_snocE)
    then have "c = j_cur d \<or> c = ?c'" using crash_write_sector [OF _ same] by blast
    with old new show "segs_at g ?n0 c 0 segs \<or> segs_at g ?n0 c 0 (segs @ [s])" by blast
  qed
  then show ?thesis using S good(2) new by (simp add: count_stage_def disk_wf_j_op)
qed

text \<open>\<open>syncJournal\<close> on a pager whose current segment is \<open>s\<close>.\<close>

definition segment_open :: "jgeom \<Rightarrow> u8 list list \<Rightarrow> jseg list \<Rightarrow> jseg \<Rightarrow> pager \<Rightarrow> bool" where
  "segment_open g orig segs s p \<longleftrightarrow>
     plain_settings g orig p \<and> jfd_open p \<and> in_segment g orig segs s (disk p) \<and> nRec p = length (snd s) \<and>
     cksumInit p = fst s \<and> journalHdr p = segs_end g 0 segs \<and> journalOff p = seg_end g (segs_end g 0 segs) s"

definition journal_synced :: "jgeom \<Rightarrow> u8 list list \<Rightarrow> bool \<Rightarrow> jseg list \<Rightarrow> pager \<Rightarrow> pager \<Rightarrow> bool" where
  "journal_synced g orig newHdr segs p0 p \<longleftrightarrow>
     (let p1 = p0\<lparr>journalHdr := journalOff p0\<rparr> in
      if newHdr then \<exists>p2. frame (p1\<lparr>nRec := 0\<rparr>) (between g orig segs) p2 \<and> header_written g orig segs p2 p
      else frame p1 (between g orig segs) p)"

lemma syncJournal_steps:
  assumes g: "geom_ok g orig" and p0: "segment_open g orig segs s p0"
  defines "z \<equiv> aJournalMagic @ Put4byte (word_of_nat (length (snd s)))"
  shows "runs False (safe_disk g orig) (\<lambda>p. p = p0)
    (andThen clear_stale_header (andThen (whenP (\<lambda>p. fullSync p \<and> \<not> sequential p) (os_call JSync)) (os_call (JWrite (journalHdr p0) z))))
    (frame p0 (count_stage g orig segs s))"
proof -
  let ?S = "safe_disk g orig"
  note P = p0 [unfolded segment_open_def plain_settings_def]
  have in_seg: "in_segment g orig segs s (disk p0)" using P by simp
  have off: "journalHdrOffset p0 = round_up (jg_ss g) (seg_end g (segs_end g 0 segs) s)"
    using P by (simp add: journalHdrOffset_round_up)
  note stale = stale_stage [OF g in_seg off]
  have safe: "?S d" if "sync_stage g orig segs s d" for d
    using that by (auto simp: sync_stage_def in_segment_def intro: safe_between)
  have c1: "runs False ?S (\<lambda>p. p = p0) clear_stale_header (frame p0 (sync_stage g orig segs s))"
  proof (cases "os_read (j_cur (disk p0)) 8 (journalHdrOffset p0) = Some aJournalMagic")
    case True
    have "runs False ?S (\<lambda>p. p = p0) (os_call (JWrite (journalHdrOffset p0) [0])) (frame p0 (sync_stage g orig segs s))"
      by (rule runs_pre [OF runs_io_frame [where D = "\<lambda>d. d = disk p0"]])
        (use stale(1) [OF True] safe in \<open>auto intro: frame_self\<close>)
    then show ?thesis by (rule runs_cong) (simp add: clear_stale_header_def True)
  next
    case False
    have "runs False ?S (\<lambda>p. p = p0) (\<lambda>p. (SQLITE_OK, p)) (frame p0 (sync_stage g orig segs s))"
      by (rule runs_ok) (use stale(2) [OF False] in \<open>auto intro: frame_self\<close>)
    then show ?thesis by (rule runs_cong) (simp add: clear_stale_header_def False)
  qed
  have c2: "runs False ?S (frame p0 (sync_stage g orig segs s)) (whenP (\<lambda>p. fullSync p \<and> \<not> sequential p) (os_call JSync))
      (frame p0 (synced_stage g orig segs s))"
  proof (rule runs_when [OF runs_pre [OF runs_io_frame]])
    fix d
    assume d: "sync_stage g orig segs s d"
    have "synced_stage g orig segs s (disk_step (pageSize p0) d JSync)" by (rule sync_stage_sync [OF d])
    then show "?S (disk_step (pageSize p0) d JSync) \<and> synced_stage g orig segs s (disk_step (pageSize p0) d JSync)"
      using safe by (simp add: synced_stage_def del: disk_step.simps)
  qed (use P in \<open>auto simp: frame_def\<close>)
  have c3: "runs False ?S (frame p0 (synced_stage g orig segs s)) (os_call (JWrite (journalHdr p0) z))
      (frame p0 (count_stage g orig segs s))"
  proof (rule runs_io_frame)
    fix d
    assume "synced_stage g orig segs s d"
    from count_write [OF g this] safe_count_stage [OF count_write [OF g this]] P
    show "?S (disk_step (pageSize p0) d (JWrite (journalHdr p0) z)) \<and>
        count_stage g orig segs s (disk_step (pageSize p0) d (JWrite (journalHdr p0) z))"
      by (simp add: z_def)
  qed
  show ?thesis by (rule runs_andThen [OF c1 runs_andThen [OF c2 c3]])
qed

lemma syncJournal_runs:
  assumes g: "geom_ok g orig" and p0: "segment_open g orig segs s p0"
  shows "runs False (safe_disk g orig) (\<lambda>p. p = p0) (syncJournal newHdr)
    (\<lambda>p. \<exists>p1. journal_synced g orig newHdr (segs @ [s]) p0 p1 \<and> p = (on_cache PcacheClearSyncFlags p1)\<lparr>eState := PAGER_WRITER_DBMOD\<rparr>)"
proof -
  let ?S = "safe_disk g orig" and ?segs = "segs @ [s]"
  note P = p0 [unfolded segment_open_def plain_settings_def]
  define z where "z = aJournalMagic @ Put4byte (word_of_nat (length (snd s)))"
  have next_off: "round_up (jg_ss g) (journalOff p0) = segs_end g 0 ?segs" using P by (simp add: segs_end_append)
  have ask: "runs False ?S (\<lambda>p. p = p0) os_ask (\<lambda>p. \<exists>o'. p = p0\<lparr>os := o'\<rparr>)" by (rule runs_ask) auto
  have block: "runs False ?S (\<lambda>p. \<exists>o'. p = p0\<lparr>os := o'\<rparr>)
     (whenP (\<lambda>p. \<not> safeAppend p)
       (\<lambda>p. let zHeader = aJournalMagic @ Put4byte (word_of_nat (nRec p))
            in andThen clear_stale_header
                 (andThen (whenP (\<lambda>p. fullSync p \<and> \<not> sequential p) (os_call JSync))
                   (os_call (JWrite (journalHdr p) zHeader))) p))
     (frame p0 (count_stage g orig segs s))"
  proof (rule runs_fix, elim exE)
    fix p1 o'
    assume p1: "p1 = p0\<lparr>os := o'\<rparr>"
    then have "segment_open g orig segs s p1" using p0 by (simp add: segment_open_def plain_settings_def)
    from syncJournal_steps [OF g this] have st: "runs False ?S (\<lambda>p. p = p1)
      (andThen clear_stale_header (andThen (whenP (\<lambda>p. fullSync p \<and> \<not> sequential p) (os_call JSync)) (os_call (JWrite (journalHdr p1) z))))
      (frame p1 (count_stage g orig segs s))" by (simp only: z_def)
    have fr: "frame p0 D p" if "frame p1 D p" for D p
    proof -
      from that obtain d x y where "p = p1\<lparr>os := y, disk := d, past := x\<rparr>" "D d" by (auto simp: frame_def)
      then show ?thesis unfolding frame_def p1 by (intro exI [of _ d] exI [of _ x] exI [of _ y]) simp
    qed
    show "runs False ?S (\<lambda>p. p = p1) (whenP (\<lambda>p. \<not> safeAppend p)
       (\<lambda>p. let zHeader = aJournalMagic @ Put4byte (word_of_nat (nRec p))
            in andThen clear_stale_header
                 (andThen (whenP (\<lambda>p. fullSync p \<and> \<not> sequential p) (os_call JSync))
                   (os_call (JWrite (journalHdr p) zHeader))) p)) (frame p0 (count_stage g orig segs s))"
      by (rule runs_cong [OF runs_post [OF st fr]]) (use P p1 in \<open>auto simp: whenP_def z_def Let_def\<close>)
  qed
  have sync: "runs False ?S (frame p0 (count_stage g orig segs s)) (whenP (\<lambda>p. \<not> sequential p) (os_call JSync))
      (frame p0 (between g orig ?segs))"
  proof (rule runs_when [OF runs_pre [OF runs_io_frame]])
    fix d
    assume "count_stage g orig segs s d"
    from count_stage_sync [OF this] show "?S (disk_step (pageSize p0) d JSync) \<and> between g orig ?segs (disk_step (pageSize p0) d JSync)"
      by (auto intro: safe_between simp del: disk_step.simps)
  qed (use P in \<open>auto simp: frame_def\<close>)
  have upd1: "runs False ?S (frame p0 (between g orig ?segs)) (upd (\<lambda>p. p\<lparr>journalHdr := journalOff p\<rparr>))
      (frame (p0\<lparr>journalHdr := journalOff p0\<rparr>) (between g orig ?segs))"
  proof (rule runs_upd)
    fix p
    assume "frame p0 (between g orig ?segs) p"
    then obtain d x y where "p = p0\<lparr>os := y, disk := d, past := x\<rparr>" "between g orig ?segs d" by (auto simp: frame_def)
    then show "past (p\<lparr>journalHdr := journalOff p\<rparr>) = past p \<and> os (p\<lparr>journalHdr := journalOff p\<rparr>) = os p \<and>
      mem (p\<lparr>journalHdr := journalOff p\<rparr>) = mem p \<and>
      frame (p0\<lparr>journalHdr := journalOff p0\<rparr>) (between g orig ?segs) (p\<lparr>journalHdr := journalOff p\<rparr>)"
      unfolding frame_def by (intro conjI exI [of _ d] exI [of _ x] exI [of _ y]) simp_all
  qed
  have new: "runs False ?S (frame (p0\<lparr>journalHdr := journalOff p0\<rparr>) (between g orig ?segs))
      (whenP (\<lambda>p. newHdr \<and> \<not> safeAppend p) (andThen (upd (\<lambda>p. p\<lparr>nRec := 0\<rparr>)) writeJournalHdr))
      (journal_synced g orig newHdr ?segs p0)"
  proof (cases newHdr)
    case False
    have "runs False ?S (frame (p0\<lparr>journalHdr := journalOff p0\<rparr>) (between g orig ?segs)) (\<lambda>p. (SQLITE_OK, p))
        (journal_synced g orig newHdr ?segs p0)"
      by (rule runs_ok) (simp add: journal_synced_def False Let_def)
    then show ?thesis by (rule runs_cong) (simp add: whenP_def False)
  next
    case True
    let ?p2 = "p0\<lparr>journalHdr := journalOff p0, nRec := 0\<rparr>"
    have zero: "runs False ?S (frame (p0\<lparr>journalHdr := journalOff p0\<rparr>) (between g orig ?segs)) (upd (\<lambda>p. p\<lparr>nRec := 0\<rparr>))
        (frame ?p2 (between g orig ?segs))"
    proof (rule runs_upd)
      fix p
      assume "frame (p0\<lparr>journalHdr := journalOff p0\<rparr>) (between g orig ?segs) p"
      then obtain d x y where "p = p0\<lparr>journalHdr := journalOff p0\<rparr>\<lparr>os := y, disk := d, past := x\<rparr>" "between g orig ?segs d"
        by (auto simp: frame_def)
      then show "past (p\<lparr>nRec := 0\<rparr>) = past p \<and> os (p\<lparr>nRec := 0\<rparr>) = os p \<and> mem (p\<lparr>nRec := 0\<rparr>) = mem p \<and>
        frame ?p2 (between g orig ?segs) (p\<lparr>nRec := 0\<rparr>)"
        unfolding frame_def by (intro conjI exI [of _ d] exI [of _ x] exI [of _ y]) simp_all
    qed
    have hdr: "runs False ?S (frame ?p2 (between g orig ?segs)) writeJournalHdr (journal_synced g orig newHdr ?segs p0)"
    proof (rule runs_fix)
      fix p2
      assume f: "frame ?p2 (between g orig ?segs) p2"
      then have "plain_settings g orig p2" "between g orig ?segs (disk p2)" "round_up (jg_ss g) (journalOff p2) = segs_end g 0 ?segs"
        using P next_off by (auto simp: frame_def plain_settings_def)
      from writeJournalHdr_runs [OF g this]
      show "runs False ?S (\<lambda>p. p = p2) writeJournalHdr (journal_synced g orig newHdr ?segs p0)"
        by (rule runs_post) (use f True in \<open>auto simp: journal_synced_def Let_def\<close>)
    qed
    have "runs False ?S (\<lambda>p. frame (p0\<lparr>journalHdr := journalOff p0\<rparr>) (between g orig ?segs) p \<and> (newHdr \<and> \<not> safeAppend p))
        (andThen (upd (\<lambda>p. p\<lparr>nRec := 0\<rparr>)) writeJournalHdr) (journal_synced g orig newHdr ?segs p0)"
      by (rule runs_pre [OF runs_andThen [OF zero hdr]]) simp
    then show ?thesis by (rule runs_when) (use True P in \<open>auto simp: frame_def\<close>)
  qed
  have body: "runs False ?S (\<lambda>p. \<exists>o'. p = p0\<lparr>os := o'\<rparr>) (whenP (\<lambda>p. \<not> noSync p)
       (\<lambda>p. if jfd_open p then
              andThen (whenP (\<lambda>p. \<not> safeAppend p)
                (\<lambda>p. let zHeader = aJournalMagic @ Put4byte (word_of_nat (nRec p))
                     in andThen clear_stale_header
                          (andThen (whenP (\<lambda>p. fullSync p \<and> \<not> sequential p) (os_call JSync))
                            (os_call (JWrite (journalHdr p) zHeader))) p))
             (andThen (whenP (\<lambda>p. \<not> sequential p) (os_call JSync))
             (andThen (upd (\<lambda>p. p\<lparr>journalHdr := journalOff p\<rparr>))
                (whenP (\<lambda>p. newHdr \<and> \<not> safeAppend p) (andThen (upd (\<lambda>p. p\<lparr>nRec := 0\<rparr>)) writeJournalHdr)))) p
            else (SQLITE_OK, p\<lparr>journalHdr := journalOff p\<rparr>)))
     (journal_synced g orig newHdr ?segs p0)"
    by (rule runs_cong [OF runs_andThen [OF block runs_andThen [OF sync runs_andThen [OF upd1 new]]]])
      (use P in \<open>auto simp: whenP_def\<close>)
  show ?thesis
    unfolding syncJournal_def
    by (rule runs_andThen [OF ask runs_andThen [OF body runs_upd]]) (auto simp: on_cache_def)
qed

end
