(* ===== verification/Pager_Content.thy ===== *)
theory Pager_Content
  imports Pager_Commit
begin

text \<open>
  What the pages say. The content of a page is what the cache has of it, or else what the
  database file has. Journal work changes no content; making a page writable does not either;
  writing pages out and dropping clean pages only move content between the cache and the file.
\<close>

section \<open>Journal work\<close>

text \<open>The flag \<open>PGHDR_NEED_SYNC\<close> is the journal's; all else of a page is content.\<close>

definition core :: "pghdr \<Rightarrow> pghdr" where
  "core h = h\<lparr>pg_need_sync := False\<rparr>"

definition cores :: "pcache \<Rightarrow> nat \<Rightarrow> pghdr option" where
  "cores c n = map_option core (pc_pages c n)"

definition content :: "pager \<Rightarrow> rc \<times> nat \<times> u8 list list \<times> nat \<times> nat \<times> nat list \<times> (nat \<Rightarrow> pghdr option)" where
  "content p = (errCode p, pageSize p, d_cur (disk p), dbSize p, dbFileSize p, pc_dirty (pPCache p), cores (pPCache p))"

abbreviation kept :: "pager_op \<Rightarrow> bool" where
  "kept \<equiv> keeps content"

lemmas kept_def = keeps_def [of content]
lemmas keptD = keepsD [of content]

named_theorems kept

declare keeps_andThen [kept] keeps_upd [kept] keeps_whenP [kept] keeps_if [kept]

lemma kept_ask [kept]: "kept os_ask"
  by (rule keeps_ask) (simp add: content_def)

lemma kept_call [kept]:
  "(\<And>ps d. d_cur (disk_step ps d op) = d_cur d) \<Longrightarrow> kept (os_call op)"
  by (rule keeps_call) (simp_all add: do_io_def content_def)

lemma kept_hdr_loop: "kept (hdr_loop z sz n)"
proof -
  have "content (snd (hdr_loop z sz n p)) = content p" for p
  proof (induction z sz n p rule: hdr_loop.induct)
    case (1 z sz n p)
    show ?case
    proof (cases "n < sz \<and> z \<noteq> []")
      case True
      obtain rc q where io: "os_call (JWrite (journalOff p) z) p = (rc, q)" by fastforce
      have q: "content q = content p" by (rule keptD [OF kept_call io]) (simp add: j_op_def)
      let ?q = "q\<lparr>journalOff := journalOff q + length z\<rparr>"
      have q2: "content ?q = content p" using q by (simp add: content_def)
      from 1 [OF True io [symmetric] refl] q2 True io show ?thesis
        by (subst hdr_loop.simps) (simp add: Let_def)
    next
      case False
      then show ?thesis by (subst hdr_loop.simps) auto
    qed
  qed
  then show ?thesis by (simp add: kept_def)
qed

lemma kept_writeJournalHdr [kept]: "kept writeJournalHdr"
  unfolding kept_def
proof
  fix p
  show "content (snd (writeJournalHdr p)) = content p"
    using kept_hdr_loop unfolding kept_def writeJournalHdr_def Let_def by (simp add: content_def)
qed

lemma kept_savepoints [kept]: "kept (addToSavepointBitvecs n)"
  by (simp add: kept_def addToSavepointBitvecs_def content_def split: prod.splits)

lemma kept_page_journaled [kept]: "kept (page_journaled n)"
  unfolding kept_def
proof
  fix p :: pager
  obtain a rc b where m: "bitvec_add (mem p) (pInJournal p) n = (a, rc, b)" by (metis prod_cases3)
  define q where "q = p\<lparr>journalOff := journalOff p + (8 + pageSize p), nRec := nRec p + 1, mem := a, pInJournal := b\<rparr>"
  obtain rc' q' where sp: "addToSavepointBitvecs n q = (rc', q')" by fastforce
  have "snd (page_journaled n p) = q'" using m sp by (simp add: page_journaled_def Let_def q_def)
  moreover have "content q = content p" by (simp add: q_def content_def)
  ultimately show "content (snd (page_journaled n p)) = content p" using keptD [OF kept_savepoints sp] by simp
qed

lemma core_need_sync [simp]: "core (h\<lparr>pg_need_sync := x\<rparr>) = core h"
  by (simp add: core_def)

lemma content_need_sync [simp]: "content (set_need_sync n p) = content p"
proof -
  have "cores (on_page n (\<lambda>h. h\<lparr>pg_need_sync := True\<rparr>) c) m = cores c m" for c m
    by (cases "pc_pages c n") (simp_all add: cores_def)
  then show ?thesis by (simp add: content_def set_need_sync_def on_cache_def fun_eq_iff)
qed

lemma kept_addPage [kept]: "kept (pagerAddPageToRollbackJournal n)"
proof -
  have "content (snd (pagerAddPageToRollbackJournal n p)) = content p" for p
  proof -
    define f where "f = andThen (write32bits (journalOff p) (word_of_nat n))
           (andThen (os_call (JWrite (journalOff p + 4) (page_data p n)))
             (andThen (write32bits (journalOff p + pageSize p + 4) (pager_cksum p (page_data p n))) (page_journaled n)))"
    have "kept f" unfolding f_def write32bits_def by (intro kept) (simp_all add: j_op_def)
    moreover have "pagerAddPageToRollbackJournal n p = f (set_need_sync n p)"
      by (simp add: pagerAddPageToRollbackJournal_def Let_def f_def set_need_sync_def on_cache_def)
    ultimately show ?thesis by (simp add: kept_def)
  qed
  then show ?thesis by (simp add: kept_def)
qed

lemma kept_sj_write [kept]: "kept (sj_write off bs)"
  unfolding sj_write_def by (intro kept) (simp add: content_def)

lemma kept_subjournal [kept]: "kept (subjournalPageIfRequired n)"
proof -
  have "kept (subjournalPage n)"
    unfolding subjournalPage_def Let_def by (rule keeps_param) (intro kept, simp add: content_def)
  moreover have "content (snd (subjRequiresPage n p)) = content p" for p
    by (simp add: subjRequiresPage_def content_def split: prod.splits)
  ultimately show ?thesis
    unfolding kept_def subjournalPageIfRequired_def Let_def by (auto split: prod.split) (metis snd_conv)+
qed

lemma kept_open_journal [kept]: "kept pager_open_journal"
proof -
  let ?f = "andThen journal_open (andThen (upd (\<lambda>p. p\<lparr>nRec := 0, journalOff := 0, journalHdr := 0\<rparr>)) writeJournalHdr)"
  have f: "kept ?f"
    unfolding journal_open_def by (intro kept) (simp_all add: content_def)
  have "content (snd (pager_open_journal p)) = content p" for p
  proof (cases "errCode p = 0 \<and> malloc_ok (mem p)")
    case False
    then show ?thesis by (auto simp: pager_open_journal_def BitvecCreate_def content_def)
  next
    case True
    define q where "q = p\<lparr>mem := malloc_rest (mem p), pInJournal := Some (bv_new (dbSize p))\<rparr>"
    obtain rc q' where r: "?f q = (rc, q')" by fastforce
    have "content q' = content p" using keptD [OF f r] by (simp add: q_def content_def)
    moreover have "snd (pager_open_journal p) = (if rc \<noteq> SQLITE_OK then q'\<lparr>pInJournal := None, journalOff := 0\<rparr>
        else q'\<lparr>eState := PAGER_WRITER_CACHEMOD\<rparr>)"
      using True r by (simp add: pager_open_journal_def BitvecCreate_def q_def)
    ultimately show ?thesis by (simp add: content_def)
  qed
  then show ?thesis by (simp add: kept_def)
qed

lemma kept_clear_stale [kept]: "kept clear_stale_header"
proof -
  have "kept (\<lambda>p. if os_read (j_cur (disk p)) 8 (journalHdrOffset p) = Some aJournalMagic
         then os_call (JWrite (journalHdrOffset p) [0]) p else (SQLITE_OK, p))"
    using kept_call [of "JWrite _ [0]"] by (auto simp: kept_def j_op_def)
  then show ?thesis by (simp add: clear_stale_header_def [abs_def] Let_def)
qed

lemma content_clear_sync [simp]:
  "content (on_cache PcacheClearSyncFlags p) = content p"
proof -
  have "cores (PcacheClearSyncFlags c) m = cores c m" for c m
    by (cases "pc_pages c m") (simp_all add: cores_def ClearSyncFlags_pages)
  then show ?thesis by (simp add: content_def on_cache_def fun_eq_iff)
qed

lemma kept_sync [kept]: "kept (syncJournal newHdr)"
proof -
  have block: "kept (\<lambda>p. let zHeader = aJournalMagic @ Put4byte (word_of_nat (nRec p))
                     in andThen clear_stale_header
                          (andThen (whenP (\<lambda>p. fullSync p \<and> \<not> sequential p) (os_call JSync))
                            (os_call (JWrite (journalHdr p) zHeader))) p)"
    unfolding Let_def by (rule keeps_param) (intro kept, simp_all add: j_op_def)
  show ?thesis
    unfolding syncJournal_def
    using content_clear_sync by (intro kept block) (simp_all add: kept_def content_def)
qed

section \<open>Fetching and making writable, step by step\<close>

text \<open>What a successful fetch without \<open>PAGER_GET_NOCONTENT\<close> does.\<close>

definition page_fetched :: "nat \<Rightarrow> pager \<Rightarrow> pager \<Rightarrow> bool" where
  "page_fetched n p p' \<longleftrightarrow>
     (\<exists>c y v d. p' = p\<lparr>pPCache := c, os := y, dbFileVers := v\<rparr> \<and> pc_dirty c = pc_dirty (pPCache p) \<and>
        pc_pages c = (pc_pages (pPCache p))(n \<mapsto> \<lparr>pg_data = d, pg_dirty = False, pg_need_sync = False,
           pg_writeable = False, pg_dont_write = False\<rparr>) \<and>
        d = (if n \<le> dbSize p then db_page (pageSize p) (disk p) n else replicate (pageSize p) 0))"

lemma getPageNormal_past: "past (snd (getPageNormal n False p)) = past p"
  by (auto simp: getPageNormal_def new_page_def on_cache_def Let_def or_drop_def readDbPage_def andThen_def os_ask_def
      upd_def set_data_def split: prod.splits)

lemma getPageNormal_ok:
  assumes "getPageNormal n False p = (SQLITE_OK, p')"
  shows "0 < n" "p' = p \<and> PagerLookup p n \<noteq> None \<or> PagerLookup p n = None \<and> n \<noteq> PAGER_SJ_PGNO p \<and> page_fetched n p p'"
proof -
  show n0: "0 < n" using assms by (cases n) (simp_all add: getPageNormal_def)
  show "p' = p \<and> PagerLookup p n \<noteq> None \<or> PagerLookup p n = None \<and> n \<noteq> PAGER_SJ_PGNO p \<and> page_fetched n p p'"
  proof (cases "PagerLookup p n")
    case (Some h)
    then show ?thesis using assms n0 by (auto simp: getPageNormal_def)
  next
    case None
    define q where "q = new_page n p"
    have Q: "pageSize q = pageSize p" "dbSize q = dbSize p" "disk q = disk p" "mxPgno q = mxPgno p" "PAGER_SJ_PGNO q = PAGER_SJ_PGNO p"
      by (simp_all add: q_def new_page_def on_cache_def PAGER_SJ_PGNO_def)
    have "getPageNormal n False p = (if n = PAGER_SJ_PGNO p then (SQLITE_CORRUPT, on_cache (PcacheDrop n) q)
        else if dbSize p < n then
          (if n > mxPgno p then (SQLITE_FULL, if n \<le> dbSize p then q else on_cache (PcacheDrop n) q)
           else (SQLITE_OK, set_data n (replicate (pageSize p) 0) q))
        else or_drop n (readDbPage n) q)"
      using n0 None Q by (simp add: getPageNormal_def Let_def q_def [symmetric])
    note run = this [unfolded assms, symmetric]
    have "page_fetched n p p'" if nl: "n \<noteq> PAGER_SJ_PGNO p"
    proof (cases "dbSize p < n")
      case True
      then have "p' = set_data n (replicate (pageSize p) 0) q" using run nl by (auto split: if_splits)
      then show ?thesis using True unfolding page_fetched_def
        by (intro exI [of _ "pPCache p'"] exI [of _ "os p"] exI [of _ "dbFileVers p"] exI [of _ "replicate (pageSize p) 0"])
          (auto simp: set_data_def on_cache_def q_def new_page_def on_page_def)
    next
      case False
      then have r: "or_drop n (readDbPage n) q = (SQLITE_OK, p')" using run nl by simp
      then have ok: "os p 0 = None"
        by (auto simp: or_drop_def readDbPage_def andThen_def os_ask_def upd_def q_def new_page_def on_cache_def
            split: option.splits prod.splits if_splits)
      let ?d = "db_page (pageSize p) (disk p) n"
      have "p' = (let p = set_data n ?d (q\<lparr>os := \<lambda>k. os p (Suc k)\<rparr>) in if n = 1 then p\<lparr>dbFileVers := take 16 (drop 24 ?d)\<rparr> else p)"
        using r ok Q by (auto simp: or_drop_def readDbPage_def andThen_def os_ask_def upd_def q_def new_page_def on_cache_def Let_def)
      then show ?thesis using False unfolding page_fetched_def
        by (intro exI [of _ "pPCache p'"] exI [of _ "os p'"] exI [of _ "dbFileVers p'"] exI [of _ ?d])
          (auto simp: set_data_def on_cache_def q_def new_page_def on_page_def Let_def)
    qed
    then show ?thesis using None run by (auto split: if_splits)
  qed
qed

definition journal_step :: "nat \<Rightarrow> pager_op" where
  "journal_step n =
     whenP (\<lambda>p. case pInJournal p of None \<Rightarrow> False | Some b \<Rightarrow> BitvecTestNotNull b n = Some False)
       (\<lambda>p. if n \<le> dbOrigSize p then pagerAddPageToRollbackJournal n p
            else (SQLITE_OK, if eState p \<noteq> PAGER_WRITER_DBMOD then set_need_sync n p else p))"

text \<open>\<open>pager_write\<close> from the moment on when the journal is open.\<close>

definition write_rest :: "nat \<Rightarrow> pager_op" where
  "write_rest n =
     andThen (upd (on_cache (PcacheMakeDirty n)))
    (andThen (journal_step n)
    (andThen (upd (on_cache (on_page n (\<lambda>h. h\<lparr>pg_writeable := True\<rparr>))))
       (\<lambda>p. let (rc, p) = (if aSavepoint p \<noteq> [] then subjournalPageIfRequired n p else (SQLITE_OK, p))
            in (rc, if dbSize p < n then p\<lparr>dbSize := n\<rparr> else p))))"

lemma pager_write_rest: "pager_write n = andThen (whenP (\<lambda>p. eState p = PAGER_WRITER_LOCKED) pager_open_journal) (write_rest n)"
  by (simp add: pager_write_def write_rest_def journal_step_def)

lemma kept_journal_step [kept]: "kept (journal_step n)"
proof -
  have "kept (\<lambda>p. if n \<le> dbOrigSize p then pagerAddPageToRollbackJournal n p
            else (SQLITE_OK, if eState p \<noteq> PAGER_WRITER_DBMOD then set_need_sync n p else p))"
    by (rule keeps_if [OF kept_addPage]) (simp add: kept_def)
  then show ?thesis unfolding journal_step_def by (rule keeps_whenP)
qed

lemma kept_zero_header [kept]: "kept (zeroJournalHdr doTruncate)"
proof -
  have limit: "kept (case l of None \<Rightarrow> upd id | Some l \<Rightarrow> whenP (\<lambda>p. l > 0 \<and> length (j_cur (disk p)) > l) (os_call (JTruncate l)))" for l
    by (cases l) (auto intro!: kept simp: j_op_def)
  have "kept (\<lambda>p. let iLimit = journalSizeLimit p in
            andThen (if doTruncate \<or> iLimit = Some 0 then os_call (JTruncate 0)
                     else os_call (JWrite 0 (replicate 28 0)))
           (andThen (whenP (\<lambda>p. \<not> noSync p) (os_call JSync))
              (case iLimit of
                 None \<Rightarrow> upd id
               | Some l \<Rightarrow> whenP (\<lambda>p. l > 0 \<and> length (j_cur (disk p)) > l) (os_call (JTruncate l)))) p)"
    unfolding Let_def by (rule keeps_param) (auto intro!: kept limit simp: j_op_def)
  then show ?thesis unfolding zeroJournalHdr_def by (rule keeps_whenP)
qed

lemma kept_finalize [kept]: "kept (finalize_journal hasSuper)"
  unfolding finalize_journal_def
proof (intro kept)
  show "kept (\<lambda>p. let (rc, p) = whenP (\<lambda>p. journalOff p \<noteq> 0) (andThen (os_call (JTruncate 0)) (whenP fullSync (os_call JSync))) p
               in (rc, p\<lparr>journalOff := 0\<rparr>))"
    by (rule keeps_after) (auto intro!: kept simp: j_op_def content_def)
  show "kept (\<lambda>p. let (rc, p) = zeroJournalHdr hasSuper p in (rc, p\<lparr>journalOff := 0\<rparr>))"
    by (rule keeps_after) (auto intro!: kept simp: content_def)
  have "kept (os_call (JDelete b))" for b by (intro kept) simp
  then show "kept (\<lambda>p. os_call (JDelete (extraSync p)) (p\<lparr>jfd_open := False\<rparr>))"
    by (auto simp: kept_def content_def)
qed

end
