(* ===== verification/Pager_Session.thy ===== *)
theory Pager_Session
  imports Pager_Crash Pager_Content
begin

text \<open>
  A whole write transaction: what every call of the pager keeps between the pages in memory,
  the journal and the database file, up to the first phase of the commit.
\<close>

section \<open>The pages in memory\<close>

definition page_ok :: "jgeom \<Rightarrow> u8 list list \<Rightarrow> jseg list \<Rightarrow> nat set \<Rightarrow> nat \<Rightarrow> pghdr \<Rightarrow> bool" where
  "page_ok g orig segs journaled n h \<longleftrightarrow>
     0 < n \<and> n \<noteq> lock_page g \<and>
     (n \<le> length orig \<and> n \<notin> journaled \<longrightarrow> pg_data h = orig ! (n - 1)) \<and>
     (pg_writeable h \<or> pg_dirty h \<longrightarrow> n \<le> length orig \<longrightarrow> n \<in> journaled) \<and>
     (pg_dirty h \<and> \<not> pg_need_sync h \<longrightarrow> segs \<noteq> [] \<and> (n \<le> length orig \<longrightarrow> n \<in> seg_pages segs))"

definition cache_ok :: "jgeom \<Rightarrow> u8 list list \<Rightarrow> jseg list \<Rightarrow> nat set \<Rightarrow> pcache \<Rightarrow> bool" where
  "cache_ok g orig segs journaled c \<longleftrightarrow>
     pcache_ok c \<and> (\<forall>n h. pc_pages c n = Some h \<longrightarrow> page_ok g orig segs journaled n h) \<and>
     (\<forall>n\<in>journaled - seg_pages segs. \<exists>h. pc_pages c n = Some h \<and> pg_dirty h \<and> pg_need_sync h)"

text \<open>
  The transaction under way: \<open>segs\<close> are the segments of the journal that are durable, \<open>rs\<close> the
  records added since.
\<close>

definition writing :: "jgeom \<Rightarrow> u8 list list \<Rightarrow> jseg list \<Rightarrow> jrec list \<Rightarrow> bitvec \<Rightarrow> pager \<Rightarrow> bool" where
  "writing g orig segs rs b p \<longleftrightarrow>
     segment_open g orig segs (cksumInit p, rs) p \<and>
     pInJournal p = Some b \<and> bv_valid b \<and> iSize b = length orig \<and> bv.pages b = seg_pages segs \<union> fst ` set rs \<and>
     distinct (map fst rs) \<and> cache_ok g orig segs (bv.pages b) (pPCache p) \<and>
     eState p = (if segs = [] then PAGER_WRITER_CACHEMOD else PAGER_WRITER_DBMOD)"

definition is_writing :: "jgeom \<Rightarrow> u8 list list \<Rightarrow> pager \<Rightarrow> bool" where
  "is_writing g orig p \<longleftrightarrow> length orig \<le> dbSize p \<and> (\<exists>segs rs b. writing g orig segs rs b p)"

text \<open>The disk before the transaction writes anything.\<close>

definition start_disk :: "jgeom \<Rightarrow> u8 list list \<Rightarrow> disk \<Rightarrow> bool" where
  "start_disk g orig d \<longleftrightarrow> disk_wf d \<and> db_part orig [] d \<and> (if j_exists d then between g orig [] d else j_sure d)"

definition untouched :: "jgeom \<Rightarrow> u8 list list \<Rightarrow> pager \<Rightarrow> bool" where
  "untouched g orig p \<longleftrightarrow>
     pageSize p = jg_ps g \<and> sectorSize p = jg_ss g \<and> jg_ss g \<le> jg_ps g \<and> \<not> noSync p \<and> fullSync p \<and>
     \<not> safeAppend p \<and> \<not> sequential p \<and> dbSize p = length orig \<and> start_disk g orig (disk p) \<and>
     (jfd_open p \<longrightarrow> j_exists (disk p)) \<and> pInJournal p = None \<and>
     cache_ok g orig [] {} (pPCache p) \<and> pc_dirty (pPCache p) = []"

definition reading :: "jgeom \<Rightarrow> u8 list list \<Rightarrow> pager \<Rightarrow> bool" where
  "reading g orig p \<longleftrightarrow> untouched g orig p \<and> eState p = PAGER_READER"

definition locked :: "jgeom \<Rightarrow> u8 list list \<Rightarrow> pager \<Rightarrow> bool" where
  "locked g orig p \<longleftrightarrow> untouched g orig p \<and> eState p = PAGER_WRITER_LOCKED \<and> dbOrigSize p = length orig"

lemma safe_start: "start_disk g orig d \<Longrightarrow> safe_disk g orig d"
proof (cases "j_exists d")
  case True
  assume "start_disk g orig d"
  with True show ?thesis by (auto simp: start_disk_def intro: safe_between)
next
  case False
  assume s: "start_disk g orig d"
  show ?thesis
    unfolding safe_disk_def
  proof (intro allI impI)
    fix j db
    assume "crash_disk (jg_ss g) d j db"
    then have "j = None" "crash_db d db" using s False by (auto simp: crash_disk_def start_disk_def split: option.splits)
    then show "recoverable g orig j db"
      using s by (simp add: recoverable_def crash_db_def start_disk_def db_part_def db_covered_def)
  qed
qed

lemma cache_okD:
  "cache_ok g orig segs J c \<Longrightarrow> pcache_ok c"
  "cache_ok g orig segs J c \<Longrightarrow> pc_pages c n = Some h \<Longrightarrow> page_ok g orig segs J n h"
  "cache_ok g orig segs J c \<Longrightarrow> n \<in> J \<Longrightarrow> n \<notin> seg_pages segs \<Longrightarrow> \<exists>h. pc_pages c n = Some h \<and> pg_dirty h \<and> pg_need_sync h"
  unfolding cache_ok_def by blast+

lemma cache_okI:
  "pcache_ok c \<Longrightarrow> (\<And>n h. pc_pages c n = Some h \<Longrightarrow> page_ok g orig segs J n h) \<Longrightarrow>
   (\<And>n. n \<in> J \<Longrightarrow> n \<notin> seg_pages segs \<Longrightarrow> \<exists>h. pc_pages c n = Some h \<and> pg_dirty h \<and> pg_need_sync h) \<Longrightarrow>
   cache_ok g orig segs J c"
  unfolding cache_ok_def by blast

section \<open>The begin of a transaction\<close>

lemma begin_runs: "runs False (safe_disk g orig) (reading g orig) (PagerBegin exFlag) (locked g orig)"
proof -
  let ?R = "\<lambda>p. reading g orig p"
  have ask: "runs False (safe_disk g orig) ?R os_ask ?R" by (rule runs_ask) (simp add: reading_def untouched_def)
  have ex: "runs False (safe_disk g orig) ?R (whenP (\<lambda>p. exFlag) os_ask) ?R" by (intro runs_when runs_pre [OF ask]) simp_all
  have upd: "runs False (safe_disk g orig) ?R
      (upd (\<lambda>p. p\<lparr>eState := PAGER_WRITER_LOCKED, dbFileSize := dbSize p, dbOrigSize := dbSize p, journalOff := 0\<rparr>))
      (locked g orig)"
    by (rule runs_upd) (simp add: reading_def locked_def untouched_def)
  note body = runs_andThen [OF ask runs_andThen [OF ex upd]]
  show ?thesis
  proof (rule runsI)
    fix p rc p'
    assume p: "?R p" "\<forall>d\<in>set (past p). safe_disk g orig d" and run: "PagerBegin exFlag p = (rc, p')"
    show "(\<forall>d\<in>set (past p'). safe_disk g orig d) \<and> (rc = SQLITE_OK \<longrightarrow> locked g orig p') \<and>
        (False \<and> calm p \<longrightarrow> rc = SQLITE_OK \<and> calm p')"
    proof (cases "errCode p = 0")
      case True
      with run p(1) runsD [OF body p] show ?thesis by (simp add: PagerBegin_def reading_def)
    next
      case False
      with run p show ?thesis by (auto simp: PagerBegin_def)
    qed
  qed
qed

section \<open>Fetching a page\<close>

lemma cache_ok_add_clean:
  assumes c: "cache_ok g orig segs J c" and none: "pc_pages c n = None"
    and h: "\<not> pg_dirty h" "\<not> pg_writeable h" "0 < n" "n \<noteq> lock_page g"
      "n \<le> length orig \<and> n \<notin> J \<longrightarrow> pg_data h = orig ! (n - 1)"
    and c': "pc_pages c' = (pc_pages c)(n \<mapsto> h)" "pc_dirty c' = pc_dirty c"
  shows "cache_ok g orig segs J c'"
proof (rule cache_okI)
  note C = cache_okD [OF c]
  show "pcache_ok c'"
    unfolding pcache_ok_def
  proof (intro conjI allI)
    show "distinct (pc_dirty c')" using pcache_okD(1) [OF C(1)] by (simp only: c')
    show "m \<in> set (pc_dirty c') \<longleftrightarrow> (\<exists>h. pc_pages c' m = Some h \<and> pg_dirty h)" for m
      using C(1) none h(1) unfolding pcache_ok_def c' by (cases "m = n") simp_all
  qed
  show "page_ok g orig segs J m h'" if m: "pc_pages c' m = Some h'" for m h'
  proof (cases "m = n")
    case True
    with m have "h' = h" by (simp add: c'(1))
    then show ?thesis using h True by (simp add: page_ok_def)
  next
    case False
    with m have "pc_pages c m = Some h'" by (simp add: c'(1))
    then show ?thesis by (rule C(2))
  qed
  show "\<exists>h. pc_pages c' m = Some h \<and> pg_dirty h \<and> pg_need_sync h" if "m \<in> J" "m \<notin> seg_pages segs" for m
  proof -
    from C(3) [OF that] obtain h' where "pc_pages c m = Some h'" "pg_dirty h'" "pg_need_sync h'" by blast
    moreover from this none have "m \<noteq> n" by auto
    ultimately show ?thesis by (simp add: c'(1))
  qed
qed

lemma page_fetched_ok:
  assumes f: "page_fetched n p p'" and n: "0 < n" "n \<noteq> PAGER_SJ_PGNO p" "PagerLookup p n = None"
    and p: "pageSize p = jg_ps g" "length orig \<le> dbSize p" "cache_ok g orig segs J (pPCache p)"
      "\<forall>q<length orig. Suc q \<notin> J \<longrightarrow> q < length (d_cur (disk p)) \<and> d_cur (disk p) ! q = orig ! q"
  shows "cache_ok g orig segs J (pPCache p')" "PagerLookup p' n \<noteq> None"
proof -
  obtain c y v d where F: "p' = p\<lparr>pPCache := c, os := y, dbFileVers := v\<rparr>" "pc_dirty c = pc_dirty (pPCache p)"
    "pc_pages c = (pc_pages (pPCache p))(n \<mapsto> \<lparr>pg_data = d, pg_dirty = False, pg_need_sync = False,
       pg_writeable = False, pg_dont_write = False\<rparr>)"
    "d = (if n \<le> dbSize p then db_page (pageSize p) (disk p) n else replicate (pageSize p) 0)"
    using f unfolding page_fetched_def by blast
  have lk: "n \<noteq> lock_page g" using n(2) p(1) by (simp add: lock_page_def PAGER_SJ_PGNO_def)
  have dat: "d = orig ! (n - 1)" if "n \<le> length orig" "n \<notin> J"
  proof -
    have "n - 1 < length orig" "Suc (n - 1) \<notin> J" using that n(1) by simp_all
    then have "n - 1 < length (d_cur (disk p))" "d_cur (disk p) ! (n - 1) = orig ! (n - 1)" using p(4) by blast+
    moreover from this have "n \<le> length (d_cur (disk p))" by linarith
    moreover have "n \<le> dbSize p" using that(1) p(2) by linarith
    ultimately show ?thesis using F(4) by (simp add: db_page_def)
  qed
  have "cache_ok g orig segs J c"
    by (rule cache_ok_add_clean [OF p(3) _ _ _ n(1) lk _ F(3,2)]) (use n(3) dat in \<open>simp_all add: PagerLookup_def\<close>)
  then show "cache_ok g orig segs J (pPCache p')" by (simp add: F(1))
  show "PagerLookup p' n \<noteq> None" by (simp add: F(1,3) PagerLookup_def)
qed

lemma db_part_intact:
  "db_part orig segs d \<Longrightarrow> seg_pages segs \<subseteq> J \<Longrightarrow>
   \<forall>q<length orig. Suc q \<notin> J \<longrightarrow> q < length (d_cur d) \<and> d_cur d ! q = orig ! q"
  unfolding db_part_def by blast

lemma writing_disk:
  assumes "writing g orig segs rs b p"
  shows "in_segment g orig segs (cksumInit p, rs) (disk p)" "between g orig segs (disk p)" "db_part orig segs (disk p)"
    "segs_good g orig segs" "pageSize p = jg_ps g" "seg_pages segs \<subseteq> bv.pages b"
  using assms by (auto simp: writing_def segment_open_def plain_settings_def in_segment_def between_def)

lemma get_runs_writing:
  "runs False S (is_writing g orig) (getPageNormal n False) (\<lambda>p. is_writing g orig p \<and> PagerLookup p n \<noteq> None)"
proof (rule runsI)
  fix p rc p'
  assume p: "is_writing g orig p" "\<forall>d\<in>set (past p). S d" and run: "getPageNormal n False p = (rc, p')"
  have past: "\<forall>d\<in>set (past p'). S d" using getPageNormal_past [of n p] run p(2) by simp
  have "is_writing g orig p' \<and> PagerLookup p' n \<noteq> None" if "rc = SQLITE_OK"
  proof -
    have ok: "getPageNormal n False p = (SQLITE_OK, p')" using run that by simp
    obtain segs rs b where w: "writing g orig segs rs b p" "length orig \<le> dbSize p" using p(1) by (auto simp: is_writing_def)
    show ?thesis
    proof (cases "p' = p \<and> PagerLookup p n \<noteq> None")
      case True
      then show ?thesis using p(1) by simp
    next
      case False
      then have f: "PagerLookup p n = None" "n \<noteq> PAGER_SJ_PGNO p" "page_fetched n p p'" "0 < n"
        using getPageNormal_ok [OF ok] by auto
      have c: "cache_ok g orig segs (bv.pages b) (pPCache p)" using w(1) unfolding writing_def by blast
      note F = page_fetched_ok [OF f(3,4,2,1) writing_disk(5) [OF w(1)] w(2) c
          db_part_intact [OF writing_disk(3,6) [OF w(1)]]]
      obtain c' y v where "p' = p\<lparr>pPCache := c', os := y, dbFileVers := v\<rparr>" using f(3) by (auto simp: page_fetched_def)
      then have "writing g orig segs rs b p'" "length orig \<le> dbSize p'"
        using w F(1) by (simp_all add: writing_def segment_open_def plain_settings_def)
      then show ?thesis using F(2) by (auto simp: is_writing_def)
    qed
  qed
  then show "(\<forall>d\<in>set (past p'). S d) \<and> (rc = SQLITE_OK \<longrightarrow> is_writing g orig p' \<and> PagerLookup p' n \<noteq> None) \<and>
      (False \<and> calm p \<longrightarrow> rc = SQLITE_OK \<and> calm p')" using past by simp
qed

lemma get_untouched:
  assumes p: "untouched g orig p" and ok: "getPageNormal n False p = (SQLITE_OK, p')"
  shows "untouched g orig p' \<and> eState p' = eState p \<and> dbOrigSize p' = dbOrigSize p \<and> PagerLookup p' n \<noteq> None"
proof (cases "p' = p \<and> PagerLookup p n \<noteq> None")
  case True
  then show ?thesis using p by simp
next
  case False
  then have f: "PagerLookup p n = None" "n \<noteq> PAGER_SJ_PGNO p" "page_fetched n p p'" "0 < n"
    using getPageNormal_ok [OF ok] by auto
  have db: "db_part orig [] (disk p)" using p by (simp add: untouched_def start_disk_def)
  have P: "pageSize p = jg_ps g" "length orig \<le> dbSize p" "cache_ok g orig [] {} (pPCache p)"
    using p by (simp_all add: untouched_def)
  note F = page_fetched_ok [OF f(3,4,2,1) P db_part_intact [OF db]]
  obtain c' y v where "p' = p\<lparr>pPCache := c', os := y, dbFileVers := v\<rparr>" "pc_dirty c' = pc_dirty (pPCache p)"
    using f(3) by (auto simp: page_fetched_def)
  then show ?thesis using p F by (simp add: untouched_def)
qed

lemma get_runs_untouched:
  assumes "\<And>p. P p = (untouched g orig p \<and> Q (eState p) (dbOrigSize p))"
  shows "runs False S P (getPageNormal n False) (\<lambda>p. P p \<and> PagerLookup p n \<noteq> None)"
proof (rule runsI)
  fix p rc p'
  assume p: "P p" "\<forall>d\<in>set (past p). S d" and run: "getPageNormal n False p = (rc, p')"
  have "\<forall>d\<in>set (past p'). S d" using getPageNormal_past [of n p] run p(2) by simp
  moreover have "P p' \<and> PagerLookup p' n \<noteq> None" if "rc = SQLITE_OK"
    using get_untouched [of g orig p n p'] p(1) run that by (simp add: assms)
  ultimately show "(\<forall>d\<in>set (past p'). S d) \<and> (rc = SQLITE_OK \<longrightarrow> P p' \<and> PagerLookup p' n \<noteq> None) \<and>
      (False \<and> calm p \<longrightarrow> rc = SQLITE_OK \<and> calm p')" by simp
qed

section \<open>Opening the journal\<close>

lemma start_disk_open:
  assumes "start_disk g orig d"
  shows "between g orig [] (disk_step ps d JOpen)"
proof (cases "j_exists d")
  case True
  then show ?thesis using assms by (simp add: start_disk_def)
next
  case False
  have "jouts (jg_ss g) (\<lambda>c. segs_at g (length orig) c 0 []) (disk_step ps d JOpen)"
    using False by (auto simp: jouts_def)
  moreover have "db_part orig [] (disk_step ps d JOpen)"
    using assms False by (simp add: start_disk_def db_part_def db_covered_def)
  ultimately show ?thesis using False by (simp add: between_def disk_wf_def segs_good_def)
qed

lemma frame_upd:
  assumes "frame p1 D p" "\<And>d x y. f (p1\<lparr>os := y, disk := d, past := x\<rparr>) = p2\<lparr>os := y, disk := d, past := x\<rparr>"
  shows "frame p2 D (f p)"
  using assms unfolding frame_def by metis

lemma runs_upd_frame:
  assumes "\<And>d x y. f (p1\<lparr>os := y, disk := d, past := x\<rparr>) = p2\<lparr>os := y, disk := d, past := x\<rparr>" "mem p2 = mem p1"
  shows "runs E S (frame p1 D) (upd f) (frame p2 D)"
proof (rule runs_upd)
  fix p
  assume f: "frame p1 D p"
  then obtain d x y where p: "p = p1\<lparr>os := y, disk := d, past := x\<rparr>" by (auto simp: frame_def)
  then have "f p = p2\<lparr>os := y, disk := d, past := x\<rparr>" by (simp only: assms(1))
  then show "past (f p) = past p \<and> os (f p) = os p \<and> mem (f p) = mem p \<and> frame p2 D (f p)"
    using frame_upd [OF f assms(1)] p assms(2) by simp
qed

lemma journal_open_runs:
  assumes p0: "start_disk g orig (disk p0)" "jfd_open p0 \<longrightarrow> j_exists (disk p0)"
  shows "runs False (safe_disk g orig) (\<lambda>p. p = p0) journal_open (frame (p0\<lparr>jfd_open := True\<rparr>) (between g orig []))"
proof (cases "jfd_open p0")
  case True
  then have same: "p0\<lparr>jfd_open := True\<rparr> = p0" by (cases p0) simp
  have "between g orig [] (disk p0)" using p0 True by (simp add: start_disk_def)
  then have "runs False (safe_disk g orig) (\<lambda>p. p = p0) (\<lambda>p. (SQLITE_OK, p)) (frame (p0\<lparr>jfd_open := True\<rparr>) (between g orig []))"
    by (intro runs_ok) (auto simp: same intro: frame_self)
  then show ?thesis by (rule runs_cong) (simp add: journal_open_def whenP_def True)
next
  case False
  have ask: "runs False (safe_disk g orig) (\<lambda>p. p = p0) os_ask (frame p0 (start_disk g orig))"
    by (rule runs_pre [OF runs_ask_frame]) (use p0(1) in \<open>auto intro: frame_self\<close>)
  have op: "runs False (safe_disk g orig) (frame p0 (start_disk g orig)) (os_call JOpen) (frame p0 (between g orig []))"
    by (rule runs_io_frame) (blast intro: start_disk_open safe_between)
  have up: "runs False (safe_disk g orig) (frame p0 (between g orig [])) (upd (\<lambda>p. p\<lparr>jfd_open := True\<rparr>))
      (frame (p0\<lparr>jfd_open := True\<rparr>) (between g orig []))"
    by (rule runs_upd_frame) simp_all
  from runs_andThen [OF ask runs_andThen [OF op up]] show ?thesis
    by (rule runs_cong) (simp add: journal_open_def whenP_def False)
qed

lemma segment_open_new:
  assumes w: "header_written g orig segs p0 p" and p0: "plain_settings g orig p0" "jfd_open p0" "nRec p0 = 0"
  shows "segment_open g orig segs (cksumInit p, []) p \<and> pInJournal p = pInJournal p0 \<and> pPCache p = pPCache p0 \<and>
    eState p = eState p0 \<and> dbSize p = dbSize p0"
proof -
  obtain p1 ck sp r where f: "frame (p0\<lparr>aSavepoint := sp, journalHdr := segs_end g 0 segs, journalOff := segs_end g 0 segs, cksumInit := ck, rnd := r\<rparr>)
      (in_segment g orig segs (ck, [])) p1" and p: "p = p1\<lparr>journalOff := segs_end g 0 segs + jg_ss g\<rparr>"
    using w by (auto simp: header_written_def)
  from f obtain d x y where p1: "p1 = p0\<lparr>aSavepoint := sp, journalHdr := segs_end g 0 segs, journalOff := segs_end g 0 segs, cksumInit := ck, rnd := r\<rparr>
      \<lparr>os := y, disk := d, past := x\<rparr>" and d: "in_segment g orig segs (ck, []) d" unfolding frame_def by blast
  show ?thesis using p0 d by (simp add: p p1 segment_open_def plain_settings_def seg_end_def)
qed

lemma open_journal_runs:
  assumes g: "geom_ok g orig" and p0: "locked g orig p0"
  shows "runs False (safe_disk g orig) (\<lambda>p. p = p0) pager_open_journal
    (\<lambda>p. writing g orig [] [] (bv_new (length orig)) p \<and> dbSize p = length orig \<and> pPCache p = pPCache p0)"
proof (rule runsI)
  let ?S = "safe_disk g orig" and ?n0 = "length orig"
  let ?W = "\<lambda>p. writing g orig [] [] (bv_new ?n0) p \<and> dbSize p = ?n0 \<and> pPCache p = pPCache p0"
  fix p rc p'
  assume p: "p = p0" "\<forall>d\<in>set (past p). ?S d" and run: "pager_open_journal p = (rc, p')"
  note L = p0 [unfolded locked_def untouched_def]
  show "(\<forall>d\<in>set (past p'). ?S d) \<and> (rc = SQLITE_OK \<longrightarrow> ?W p') \<and> (False \<and> calm p \<longrightarrow> rc = SQLITE_OK \<and> calm p')"
  proof (cases "errCode p0 = 0 \<and> malloc_ok (mem p0)")
    case False
    then show ?thesis using run p by (auto simp: pager_open_journal_def BitvecCreate_def split: if_splits)
  next
    case True
    define p1 where "p1 = p0\<lparr>mem := malloc_rest (mem p0), pInJournal := Some (bv_new ?n0)\<rparr>"
    define f where "f = andThen journal_open (andThen (upd (\<lambda>p. p\<lparr>nRec := 0, journalOff := 0, journalHdr := 0\<rparr>)) writeJournalHdr)"
    obtain r2 p2 where fp: "f p1 = (r2, p2)" by fastforce
    have run': "rc = r2" "p' = (if r2 \<noteq> SQLITE_OK then p2\<lparr>pInJournal := None, journalOff := 0\<rparr> else p2\<lparr>eState := PAGER_WRITER_CACHEMOD\<rparr>)"
      using run p(1) True L fp by (auto simp: pager_open_journal_def BitvecCreate_def p1_def f_def)
    have op: "runs False ?S (\<lambda>p. p = p1) journal_open (frame (p1\<lparr>jfd_open := True\<rparr>) (between g orig []))"
      by (rule journal_open_runs) (use L in \<open>simp_all add: p1_def\<close>)
    let ?p3 = "p1\<lparr>jfd_open := True, nRec := 0, journalOff := 0, journalHdr := 0\<rparr>"
    have up: "runs False ?S (frame (p1\<lparr>jfd_open := True\<rparr>) (between g orig []))
        (upd (\<lambda>p. p\<lparr>nRec := 0, journalOff := 0, journalHdr := 0\<rparr>)) (frame ?p3 (between g orig []))"
      by (rule runs_upd_frame) simp_all
    let ?W2 = "\<lambda>p. ?W (p\<lparr>eState := PAGER_WRITER_CACHEMOD\<rparr>)"
    have hdr: "runs False ?S (frame ?p3 (between g orig [])) writeJournalHdr ?W2"
    proof (rule runs_fix)
      fix q
      assume "frame ?p3 (between g orig []) q"
      then obtain d x y where q: "q = ?p3\<lparr>os := y, disk := d, past := x\<rparr>" and d: "between g orig [] d" unfolding frame_def by blast
      have plain: "plain_settings g orig q" using L by (simp add: q plain_settings_def p1_def)
      have Q: "between g orig [] (disk q)" "round_up (jg_ss g) (journalOff q) = segs_end g 0 []" "jfd_open q" "nRec q = 0"
        using d by (simp_all add: q round_up_def)
      show "runs False ?S (\<lambda>p. p = q) writeJournalHdr ?W2"
      proof (rule runs_post [OF writeJournalHdr_runs [OF g plain Q(1,2)]])
        fix p
        assume w: "header_written g orig [] q p"
        note N = segment_open_new [OF w plain Q(3,4)]
        have bv: "bv_valid (bv_new ?n0)" "iSize (bv_new ?n0) = ?n0" "bv.pages (bv_new ?n0) = {}"
          using bv.create [of ?n0] bv.pages_create [of ?n0] geom_okD(6) [OF g] by auto
        show "?W2 p" using N bv L
          by (simp add: writing_def segment_open_def plain_settings_def q p1_def)
      qed
    qed
    have fr: "runs False ?S (\<lambda>p. p = p1) f ?W2" unfolding f_def by (rule runs_andThen [OF op runs_andThen [OF up hdr]])
    have "\<forall>d\<in>set (past p1). ?S d" using p by (simp add: p1_def)
    from runsD [OF fr refl this fp] show ?thesis using run' by auto
  qed
qed

section \<open>Making a page writable\<close>

lemma writing_cong:
  assumes "writing g orig segs rs b p"
  shows "writing g orig segs rs b (p\<lparr>aSavepoint := sp, sjfd := j, nSubRec := k, mem := m, os := y, dbSize := z\<rparr>)"
  using assms by (clarsimp simp: writing_def segment_open_def plain_settings_def)

lemma subjournal_frame:
  "subjournalPageIfRequired n p = (rc, p') \<Longrightarrow>
   \<exists>sp j k m y. p' = p\<lparr>aSavepoint := sp, sjfd := j, nSubRec := k, mem := m, os := y\<rparr>"
proof -
  assume run: "subjournalPageIfRequired n p = (rc, p')"
  obtain r ss where scan: "subj_scan n (aSavepoint p) = (r, ss)" by fastforce
  define F where "F = (\<lambda>q. \<exists>sp j k m y. q = p\<lparr>aSavepoint := sp, sjfd := j, nSubRec := k, mem := m, os := y\<rparr>)"
  have closed: "F (q\<lparr>aSavepoint := sp\<rparr>)" "F (q\<lparr>sjfd := j\<rparr>)" "F (q\<lparr>nSubRec := k\<rparr>)" "F (q\<lparr>mem := m\<rparr>)" "F (q\<lparr>os := y\<rparr>)"
    if q: "F q" for q sp j k m y
  proof -
    obtain sp' j' k' m' y' where q': "q = p\<lparr>aSavepoint := sp', sjfd := j', nSubRec := k', mem := m', os := y'\<rparr>"
      using q unfolding F_def by blast
    show "F (q\<lparr>aSavepoint := sp\<rparr>)" unfolding F_def q'
      by (intro exI [of _ sp] exI [of _ j'] exI [of _ k'] exI [of _ m'] exI [of _ y']) simp
    show "F (q\<lparr>sjfd := j\<rparr>)" unfolding F_def q'
      by (intro exI [of _ sp'] exI [of _ j] exI [of _ k'] exI [of _ m'] exI [of _ y']) simp
    show "F (q\<lparr>nSubRec := k\<rparr>)" unfolding F_def q'
      by (intro exI [of _ sp'] exI [of _ j'] exI [of _ k] exI [of _ m'] exI [of _ y']) simp
    show "F (q\<lparr>mem := m\<rparr>)" unfolding F_def q'
      by (intro exI [of _ sp'] exI [of _ j'] exI [of _ k'] exI [of _ m] exI [of _ y']) simp
    show "F (q\<lparr>os := y\<rparr>)" unfolding F_def q'
      by (intro exI [of _ sp'] exI [of _ j'] exI [of _ k'] exI [of _ m'] exI [of _ y]) simp
  qed
  have F0: "F p" unfolding F_def
    by (intro exI [of _ "aSavepoint p"] exI [of _ "sjfd p"] exI [of _ "nSubRec p"] exI [of _ "mem p"] exI [of _ "os p"]) simp
  have step: "F (snd (andThen f h q))" if "F q" "\<And>q. F q \<Longrightarrow> F (snd (f q))" "\<And>q. F q \<Longrightarrow> F (snd (h q))" for f h q
    using that by (simp add: andThen_def split: prod.splits) (metis snd_conv)
  have ask: "F (snd (os_ask q))" if "F q" for q using that closed(5) by (simp add: os_ask_def)
  have sj: "F (snd (sj_write off bs q))" if "F q" for off bs q
    unfolding sj_write_def by (rule step [OF that ask]) (simp_all add: upd_def closed(2))
  have add: "F (snd (addToSavepointBitvecs n q))" if "F q" for q
    using closed(1) [OF closed(4) [OF that]] by (simp add: addToSavepointBitvecs_def split: prod.split)
  have up: "F (snd (upd (\<lambda>p. p\<lparr>nSubRec := nSubRec p + 1\<rparr>) q))" if "F q" for q
    using closed(3) [OF that] by (simp add: upd_def)
  have rest: "F (snd (andThen (sj_write o1 b1) (andThen (sj_write o2 b2)
      (andThen (upd (\<lambda>p. p\<lparr>nSubRec := nSubRec p + 1\<rparr>)) (addToSavepointBitvecs n))) q))" if "F q" for q o1 b1 o2 b2
    by (rule step [OF that sj step [OF _ sj step [OF _ up add]]])
  have page: "F (snd (subjournalPage n q))" if "F q" for q
    unfolding subjournalPage_def Let_def by (rule step [OF that ask rest])
  have "F p'"
    using run scan page [OF closed(1) [OF F0, of ss]] closed(1) [OF F0, of ss]
    by (auto simp: subjournalPageIfRequired_def subjRequiresPage_def split: if_splits)
  then show ?thesis unfolding F_def .
qed

text \<open>The journal holds the page: dirty pages are in it.\<close>

lemma dirty_journaled_ok:
  assumes c: "cache_ok g orig segs J c" and n: "pc_pages c n = Some h0" "n \<in> J"
  shows "cache_ok g orig segs J (PcacheMakeDirty n c)"
proof (rule cache_okI)
  note C = cache_okD [OF c]
  show "pcache_ok (PcacheMakeDirty n c)" by (rule MakeDirty_ok [OF C(1)])
  show "page_ok g orig segs J m h" if m: "pc_pages (PcacheMakeDirty n c) m = Some h" for m h
  proof (cases "m = n")
    case False
    then show ?thesis using m C(2) by (simp add: MakeDirty_pages)
  next
    case True
    then have h: "h = h0\<lparr>pg_dirty := True, pg_dont_write := False\<rparr>" using m n(1) by (simp add: MakeDirty_pages)
    have sync: "n \<in> seg_pages segs" if "\<not> pg_dirty h0" using C(3) [OF n(2)] n(1) that by auto
    then have "segs \<noteq> []" if "\<not> pg_dirty h0" using that by auto
    then show ?thesis using C(2) [OF n(1)] n(2) sync True h by (cases "pg_dirty h0") (auto simp: page_ok_def)
  qed
  show "\<exists>h. pc_pages (PcacheMakeDirty n c) m = Some h \<and> pg_dirty h \<and> pg_need_sync h" if m: "m \<in> J" "m \<notin> seg_pages segs" for m
    using C(3) [OF m] by (cases "m = n") (auto simp: MakeDirty_pages)
qed

text \<open>The page is new or has just been added to the journal, and has to be synced.\<close>

lemma dirty_need_sync_ok:
  assumes c: "cache_ok g orig segs J c" and n: "pc_pages c n = Some h0" "n \<le> length orig \<longrightarrow> n \<in> J'" "J' = J \<or> J' = insert n J"
  shows "cache_ok g orig segs J' (on_page n (\<lambda>h. h\<lparr>pg_need_sync := True\<rparr>) (PcacheMakeDirty n c))"
proof (rule cache_okI)
  note C = cache_okD [OF c]
  let ?c' = "on_page n (\<lambda>h. h\<lparr>pg_need_sync := True\<rparr>) (PcacheMakeDirty n c)"
  have "pcache_ok (PcacheMakeDirty n c)" by (rule MakeDirty_ok [OF C(1)])
  then show "pcache_ok ?c'" by (simp add: on_page_ok)
  have sub: "J \<subseteq> J'" using n(3) by auto
  show "page_ok g orig segs J' m h" if m: "pc_pages ?c' m = Some h" for m h
  proof (cases "m = n")
    case False
    then have "page_ok g orig segs J m h" using m C(2) by (simp add: MakeDirty_pages)
    then show ?thesis using sub by (auto simp: page_ok_def)
  next
    case True
    then have "h = h0\<lparr>pg_dirty := True, pg_dont_write := False, pg_need_sync := True\<rparr>" using m n(1) by (simp add: MakeDirty_pages)
    then show ?thesis using C(2) [OF n(1)] n(2) True by (auto simp: page_ok_def)
  qed
  show "\<exists>h. pc_pages ?c' m = Some h \<and> pg_dirty h \<and> pg_need_sync h" if m: "m \<in> J'" "m \<notin> seg_pages segs" for m
  proof (cases "m = n")
    case True
    then show ?thesis using n(1) by (simp add: MakeDirty_pages)
  next
    case False
    then have "m \<in> J" using m(1) n(3) by auto
    from C(3) [OF this m(2)] False show ?thesis by (simp add: MakeDirty_pages)
  qed
qed

lemma dirty_new_ok:
  assumes c: "cache_ok g orig segs J c" and n: "pc_pages c n = Some h0" "length orig < n" "segs \<noteq> []"
  shows "cache_ok g orig segs J (PcacheMakeDirty n c)"
proof (rule cache_okI)
  note C = cache_okD [OF c]
  show "pcache_ok (PcacheMakeDirty n c)" by (rule MakeDirty_ok [OF C(1)])
  show "page_ok g orig segs J m h" if m: "pc_pages (PcacheMakeDirty n c) m = Some h" for m h
    using m C(2) [of m] n C(2) [OF n(1)] by (cases "m = n") (auto simp: MakeDirty_pages page_ok_def)
  show "\<exists>h. pc_pages (PcacheMakeDirty n c) m = Some h \<and> pg_dirty h \<and> pg_need_sync h" if m: "m \<in> J" "m \<notin> seg_pages segs" for m
    using C(3) [OF m] by (cases "m = n") (auto simp: MakeDirty_pages)
qed

text \<open>A page that needs no record any more may change in its data and its other flags.\<close>

lemma edit_ok:
  assumes c: "cache_ok g orig segs J c" and n: "n \<le> length orig \<longrightarrow> n \<in> J"
    and f: "\<And>h. pg_dirty (f h) = pg_dirty h \<and> pg_need_sync (f h) = pg_need_sync h"
  shows "cache_ok g orig segs J (on_page n f c)"
proof (rule cache_okI)
  note C = cache_okD [OF c]
  show "pcache_ok (on_page n f c)" using C(1) f by (simp add: on_page_ok)
  show "page_ok g orig segs J m h" if m: "pc_pages (on_page n f c) m = Some h" for m h
  proof (cases "m = n")
    case False
    then show ?thesis using m C(2) by simp
  next
    case True
    with m obtain h0 where h0: "pc_pages c n = Some h0" "h = f h0" by auto
    then show ?thesis using C(2) [OF h0(1)] n f [of h0] True by (auto simp: page_ok_def)
  qed
  show "\<exists>h. pc_pages (on_page n f c) m = Some h \<and> pg_dirty h \<and> pg_need_sync h" if m: "m \<in> J" "m \<notin> seg_pages segs" for m
    using C(3) [OF m] f by (cases "m = n") auto
qed

lemma writingD:
  assumes "writing g orig segs rs b p"
  shows "segment_open g orig segs (cksumInit p, rs) p" "pInJournal p = Some b" "bv_valid b" "iSize b = length orig"
    "bv.pages b = seg_pages segs \<union> fst ` set rs" "distinct (map fst rs)" "cache_ok g orig segs (bv.pages b) (pPCache p)"
    "eState p = (if segs = [] then PAGER_WRITER_CACHEMOD else PAGER_WRITER_DBMOD)" "dbOrigSize p = length orig"
    "plain_settings g orig p"
  using assms unfolding writing_def segment_open_def plain_settings_def by blast+

lemma records_fit:
  assumes g: "geom_ok g orig" and good: "segs_good g orig [(ck, rs)]" and d: "distinct (map fst rs)"
    and n: "0 < n" "n \<le> length orig" "n \<noteq> lock_page g" "n \<notin> fst ` set rs"
  shows "segs_good g orig [(ck, rs @ [(n, orig ! (n - 1))])]"
proof -
  let ?ns = "map fst (rs @ [(n, orig ! (n - 1))])"
  have "set ?ns \<subseteq> {1..length orig}" using good n by (auto simp: segs_good_def)
  moreover have dist: "distinct ?ns" using d n(4) by auto
  ultimately have "card (set ?ns) \<le> card {1..length orig}" by (intro card_mono) auto
  then have "length ?ns \<le> length orig" using distinct_card [OF dist] by simp
  then have "length (rs @ [(n, orig ! (n - 1))]) < 2 ^ 32 - 1" using geom_okD(6) [OF g] by simp
  then show ?thesis using good n by (auto simp: segs_good_def)
qed

text \<open>The page has been marked dirty, but is perhaps not yet in the journal.\<close>

definition marked :: "nat \<Rightarrow> pager \<Rightarrow> pager" where
  "marked n = on_cache (PcacheMakeDirty n)"

lemma marked_simps [simp]:
  "pInJournal (marked n p) = pInJournal p" "past (marked n p) = past p" "dbOrigSize (marked n p) = dbOrigSize p"
  "eState (marked n p) = eState p" "os (marked n p) = os p" "mem (marked n p) = mem p" "dbSize (marked n p) = dbSize p"
  by (simp_all add: marked_def on_cache_def)

definition journaled_state :: "jgeom \<Rightarrow> u8 list list \<Rightarrow> nat \<Rightarrow> pager \<Rightarrow> bool" where
  "journaled_state g orig n p \<longleftrightarrow>
     length orig \<le> dbSize p \<and> (\<exists>segs rs b. writing g orig segs rs b p \<and> (n \<le> length orig \<longrightarrow> n \<in> bv.pages b))"

lemma test_pages: "bv_valid b \<Longrightarrow> n < 2 ^ 32 \<Longrightarrow> BitvecTestNotNull b n = Some False \<longleftrightarrow> n \<notin> bv.pages b"
  using BitvecTestNotNull_total [of b n] by (auto simp: bv.pages_def)

lemma test_beyond: "iSize b < n \<Longrightarrow> n < 2 ^ 32 \<Longrightarrow> BitvecTestNotNull b n = Some False"
proof -
  assume n: "iSize b < n" "n < 2 ^ 32"
  then have "n + 2 ^ 32 - 1 = (n - 1) + 2 ^ 32" by simp
  then have "(n + 2 ^ 32 - 1) mod 2 ^ 32 = (n - 1 + 2 ^ 32) mod 2 ^ 32" by (simp only:)
  also have "\<dots> = (n - 1) mod 2 ^ 32" by (rule mod_add_self2)
  also have "\<dots> = n - 1" using n(2) by (intro mod_less) linarith
  finally have "(n + 2 ^ 32 - 1) mod 2 ^ 32 = n - 1" .
  moreover have "iSize b \<le> n - 1" using n(1) by linarith
  ultimately show ?thesis by (simp add: BitvecTestNotNull_def Let_def)
qed

lemma add_step:
  assumes g: "geom_ok g orig" and w: "writing g orig segs rs b q" "length orig \<le> dbSize q"
    and h: "PagerLookup q n = Some h" and n: "n \<le> length orig" "n \<notin> bv.pages b"
  shows "runs False (safe_disk g orig) (\<lambda>p. p = marked n q) (pagerAddPageToRollbackJournal n) (journaled_state g orig n)"
proof -
  note W = writingD [OF w(1)]
  note P = W(1) [unfolded segment_open_def plain_settings_def]
  have pok: "page_ok g orig segs (bv.pages b) n h" using cache_okD(2) [OF W(7)] h by (simp add: PagerLookup_def)
  then have d: "pg_data h = orig ! (n - 1)" "0 < n" "n \<noteq> lock_page g" using n by (simp_all add: page_ok_def)
  let ?d0 = "orig ! (n - 1)" and ?q = "marked n q" and ?ck = "cksumInit q"
  have inq: "in_segment g orig segs (?ck, rs) (disk q)" using P by simp
  have good0: "segs_good g orig [(?ck, rs)]" using inq by (simp add: in_segment_def)
  have nrs: "n \<notin> fst ` set rs" using n(2) W(5) by simp
  have good: "segs_good g orig [(?ck, rs @ [(n, ?d0)])]" by (rule records_fit [OF g good0 W(6) d(2) n(1) d(3) nrs])
  have Q: "page_data ?q n = ?d0" "cksumInit ?q = ?ck" "pageSize ?q = jg_ps g"
    "journalOff ?q = seg_end g (segs_end g 0 segs) (?ck, rs)" "in_segment g orig segs (?ck, rs) (disk ?q)"
    "pInJournal ?q = Some b" "n \<le> iSize b"
    using P W d(1) h inq n(1)
    by (auto simp: marked_def on_cache_def page_data_def PagerLookup_def MakeDirty_pages)
  show ?thesis
  proof (rule runs_post [OF add_page_runs [OF g good Q(1-6) W(3) Q(7)]])
    fix p
    assume added: "page_added g orig segs (?ck, rs @ [(n, ?d0)]) n b ?q p"
    obtain p1 b' a ss where f: "frame (set_need_sync n ?q) (in_segment g orig segs (?ck, rs @ [(n, ?d0)])) p1"
      and p: "p = p1\<lparr>journalOff := journalOff ?q + (8 + jg_ps g), nRec := nRec ?q + 1, mem := a, pInJournal := Some b', aSavepoint := ss\<rparr>"
      and b': "bv_valid b'" "iSize b' = iSize b" "bv.pages b' = insert n (bv.pages b)"
      using added unfolding page_added_def by blast
    from f obtain d x y where p1: "p1 = (set_need_sync n ?q)\<lparr>os := y, disk := d, past := x\<rparr>"
      and d: "in_segment g orig segs (?ck, rs @ [(n, ?d0)]) d" unfolding frame_def by blast
    have "cache_ok g orig segs (bv.pages b') (on_page n (\<lambda>h. h\<lparr>pg_need_sync := True\<rparr>) (PcacheMakeDirty n (pPCache q)))"
      using h b'(3) by (intro dirty_need_sync_ok [OF W(7)]) (auto simp: PagerLookup_def)
    then have "writing g orig segs (rs @ [(n, ?d0)]) b' p"
      using P W d b' nrs
      by (simp add: writing_def segment_open_def plain_settings_def p p1 set_need_sync_def on_cache_def marked_def seg_end_def)
    then show "journaled_state g orig n p"
      using b'(3) w(2) unfolding journaled_state_def
      by (intro conjI exI [of _ segs] exI [of _ "rs @ [(n, ?d0)]"] exI [of _ b'])
        (simp_all add: p p1 set_need_sync_def on_cache_def marked_def)
  qed
qed

lemma journal_step_runs:
  assumes g: "geom_ok g orig" and w: "writing g orig segs rs b q" "length orig \<le> dbSize q"
    and h: "PagerLookup q n = Some h" and n: "n < 2 ^ 32"
  shows "runs False (safe_disk g orig) (\<lambda>p. p = marked n q) (journal_step n) (journaled_state g orig n)"
proof -
  note W = writingD [OF w(1)]
  have hp: "pc_pages (pPCache q) n = Some h" using h by (simp add: PagerLookup_def)
  have mk: "writing g orig segs rs b (q\<lparr>pPCache := c\<rparr>)" if "cache_ok g orig segs (bv.pages b) c" for c
    using w(1) that by (clarsimp simp: writing_def segment_open_def plain_settings_def)
  have keep: "runs False (safe_disk g orig) (\<lambda>p. p = marked n q) (journal_step n) (journaled_state g orig n)"
    if c: "cache_ok g orig segs (bv.pages b) c" and J: "n \<le> length orig \<longrightarrow> n \<in> bv.pages b"
      and run: "journal_step n (marked n q) = (SQLITE_OK, q\<lparr>pPCache := c\<rparr>)" for c
    unfolding runs_def using run mk [OF c] J w(2) by (auto simp: journaled_state_def)
  show ?thesis
  proof (cases "n \<in> bv.pages b")
    case True
    then have "journal_step n (marked n q) = (SQLITE_OK, q\<lparr>pPCache := PcacheMakeDirty n (pPCache q)\<rparr>)"
      using W(2,3) n by (simp add: journal_step_def whenP_def marked_def on_cache_def test_pages)
    then show ?thesis using keep [OF dirty_journaled_ok [OF W(7) hp True]] True by blast
  next
    case False
    then have t: "BitvecTestNotNull b n = Some False" using test_pages [OF W(3) n] by simp
    show ?thesis
    proof (cases "n \<le> length orig")
      case True
      show ?thesis
        by (rule runs_cong [OF add_step [OF g w h True False]])
          (use t W(2,9) True in \<open>simp add: journal_step_def whenP_def\<close>)
    next
      case new: False
      show ?thesis
      proof (cases "segs = []")
        case True
        let ?c = "on_page n (\<lambda>h. h\<lparr>pg_need_sync := True\<rparr>) (PcacheMakeDirty n (pPCache q))"
        have "journal_step n (marked n q) = (SQLITE_OK, q\<lparr>pPCache := ?c\<rparr>)"
          using t W(2,8,9) new True by (simp add: journal_step_def whenP_def marked_def set_need_sync_def on_cache_def)
        moreover have "cache_ok g orig segs (bv.pages b) ?c"
          by (rule dirty_need_sync_ok [OF W(7) hp]) (use new in auto)
        ultimately show ?thesis using keep new by blast
      next
        case False
        have "journal_step n (marked n q) = (SQLITE_OK, q\<lparr>pPCache := PcacheMakeDirty n (pPCache q)\<rparr>)"
          using t W(2,8,9) new False by (simp add: journal_step_def whenP_def marked_def on_cache_def)
        moreover have "cache_ok g orig segs (bv.pages b) (PcacheMakeDirty n (pPCache q))"
          by (rule dirty_new_ok [OF W(7) hp]) (use new False in auto)
        ultimately show ?thesis using keep new by blast
      qed
    qed
  qed
qed

lemma write_rest_runs:
  assumes g: "geom_ok g orig" and w: "writing g orig segs rs b q" "length orig \<le> dbSize q"
    and h: "PagerLookup q n = Some h" and n: "n < 2 ^ 32"
  shows "runs False (safe_disk g orig) (\<lambda>p. p = q) (write_rest n) (is_writing g orig)"
proof -
  let ?S = "safe_disk g orig"
  have s1: "runs False ?S (\<lambda>p. p = q) (upd (on_cache (PcacheMakeDirty n))) (\<lambda>p. p = marked n q)"
    by (rule runs_upd) (simp add: marked_def on_cache_def)
  have s3: "runs False ?S (journaled_state g orig n) (upd (on_cache (on_page n (\<lambda>h. h\<lparr>pg_writeable := True\<rparr>)))) (is_writing g orig)"
  proof (rule runs_upd)
    fix p
    assume "journaled_state g orig n p"
    then obtain segs rs b where p: "length orig \<le> dbSize p" "writing g orig segs rs b p" "n \<le> length orig \<longrightarrow> n \<in> bv.pages b"
      unfolding journaled_state_def by blast
    let ?f = "on_cache (on_page n (\<lambda>h. h\<lparr>pg_writeable := True\<rparr>))"
    have c: "cache_ok g orig segs (bv.pages b) (on_page n (\<lambda>h. h\<lparr>pg_writeable := True\<rparr>) (pPCache p))"
      by (rule edit_ok [OF writingD(7) [OF p(2)] p(3)]) simp
    have "writing g orig segs rs b (?f p)"
      using p(2) c by (clarsimp simp: writing_def segment_open_def plain_settings_def on_cache_def)
    then have "is_writing g orig (?f p)" using p(1) unfolding is_writing_def by (auto simp: on_cache_def)
    then show "past (?f p) = past p \<and> os (?f p) = os p \<and> mem (?f p) = mem p \<and> is_writing g orig (?f p)"
      by (simp add: on_cache_def)
  qed
  have s4: "runs False ?S (is_writing g orig)
      (\<lambda>p. let (rc, p) = (if aSavepoint p \<noteq> [] then subjournalPageIfRequired n p else (SQLITE_OK, p))
            in (rc, if dbSize p < n then p\<lparr>dbSize := n\<rparr> else p)) (is_writing g orig)"
  proof (rule runsI)
    fix p rc p'
    assume p: "is_writing g orig p" "\<forall>d\<in>set (past p). ?S d"
      and run: "(let (rc, p) = (if aSavepoint p \<noteq> [] then subjournalPageIfRequired n p else (SQLITE_OK, p))
            in (rc, if dbSize p < n then p\<lparr>dbSize := n\<rparr> else p)) = (rc, p')"
    obtain p1 where r: "(if aSavepoint p \<noteq> [] then subjournalPageIfRequired n p else (SQLITE_OK, p)) = (rc, p1)"
      and p': "p' = (if dbSize p1 < n then p1\<lparr>dbSize := n\<rparr> else p1)" using run by (auto split: prod.splits)
    have "\<exists>sp j k m y. p1 = p\<lparr>aSavepoint := sp, sjfd := j, nSubRec := k, mem := m, os := y\<rparr>"
    proof (cases "aSavepoint p = []")
      case True
      then have "p1 = p" using r by simp
      then show ?thesis by (intro exI [of _ "aSavepoint p"] exI [of _ "sjfd p"] exI [of _ "nSubRec p"] exI [of _ "mem p"] exI [of _ "os p"]) simp
    qed (use r subjournal_frame in simp)
    then obtain sp j k m y where p1: "p1 = p\<lparr>aSavepoint := sp, sjfd := j, nSubRec := k, mem := m, os := y\<rparr>" by blast
    have p2: "p' = p\<lparr>aSavepoint := sp, sjfd := j, nSubRec := k, mem := m, os := y, dbSize := max (dbSize p) n\<rparr>"
      by (simp add: p' p1 max_def)
    then have "past p' = past p" by simp
    moreover have "is_writing g orig p'" using p(1) writing_cong p2 by (fastforce simp: is_writing_def)
    ultimately show "(\<forall>d\<in>set (past p'). ?S d) \<and> (rc = SQLITE_OK \<longrightarrow> is_writing g orig p') \<and>
        (False \<and> calm p \<longrightarrow> rc = SQLITE_OK \<and> calm p')" using p(2) by simp
  qed
  show ?thesis unfolding write_rest_def
    by (rule runs_andThen [OF s1 runs_andThen [OF journal_step_runs [OF g w h n] runs_andThen [OF s3 s4]]])
qed

text \<open>The states in which a page may be made writable.\<close>

definition can_write :: "jgeom \<Rightarrow> u8 list list \<Rightarrow> pager \<Rightarrow> bool" where
  "can_write g orig p \<longleftrightarrow> locked g orig p \<or> is_writing g orig p"

lemma pager_write_runs:
  assumes g: "geom_ok g orig" and n: "n < 2 ^ 32"
  shows "runs False (safe_disk g orig) (\<lambda>p. can_write g orig p \<and> PagerLookup p n \<noteq> None) (pager_write n) (is_writing g orig)"
proof (rule runs_fix)
  fix p0
  assume p0: "can_write g orig p0 \<and> PagerLookup p0 n \<noteq> None"
  let ?S = "safe_disk g orig"
  let ?W = "\<lambda>p. \<exists>segs rs b. writing g orig segs rs b p \<and> length orig \<le> dbSize p \<and> PagerLookup p n \<noteq> None"
  have op: "runs False ?S (\<lambda>p. p = p0) (whenP (\<lambda>p. eState p = PAGER_WRITER_LOCKED) pager_open_journal) ?W"
  proof (cases "locked g orig p0")
    case True
    then have "eState p0 = PAGER_WRITER_LOCKED" by (simp add: locked_def)
    moreover have "runs False ?S (\<lambda>p. p = p0) pager_open_journal ?W"
      by (rule runs_post [OF open_journal_runs [OF g True]]) (use p0 in \<open>auto simp: PagerLookup_def\<close>)
    ultimately show ?thesis by (intro runs_when) (auto elim: runs_pre)
  next
    case False
    then have w: "is_writing g orig p0" using p0 by (simp add: can_write_def)
    then have "eState p0 \<noteq> PAGER_WRITER_LOCKED" by (auto simp: is_writing_def dest!: writingD(8) split: if_splits)
    then have "runs False ?S (\<lambda>p. p = p0) (\<lambda>p. (SQLITE_OK, p)) ?W"
      by (intro runs_ok) (use w p0 in \<open>auto simp: is_writing_def\<close>)
    then show ?thesis by (rule runs_cong) (use \<open>eState p0 \<noteq> PAGER_WRITER_LOCKED\<close> in \<open>simp add: whenP_def\<close>)
  qed
  have rest: "runs False ?S ?W (write_rest n) (is_writing g orig)"
    by (rule runs_fix) (auto intro: write_rest_runs [OF g _ _ _ n])
  show "runs False ?S (\<lambda>p. p = p0) (pager_write n) (is_writing g orig)"
    unfolding pager_write_rest by (rule runs_andThen [OF op rest])
qed

lemma PagerWrite_runs:
  assumes g: "geom_ok g orig" and n: "n < 2 ^ 32"
  shows "runs False (safe_disk g orig) (\<lambda>p. can_write g orig p \<and> PagerLookup p n \<noteq> None) (PagerWrite n) (is_writing g orig)"
proof (rule runsI)
  fix p rc p'
  assume p: "can_write g orig p \<and> PagerLookup p n \<noteq> None" "\<forall>d\<in>set (past p). safe_disk g orig d"
    and run: "PagerWrite n p = (rc, p')"
  let ?goal = "(\<forall>d\<in>set (past p'). safe_disk g orig d) \<and> (rc = SQLITE_OK \<longrightarrow> is_writing g orig p') \<and>
      (False \<and> calm p \<longrightarrow> rc = SQLITE_OK \<and> calm p')"
  obtain h where h: "PagerLookup p n = Some h" using p(1) by auto
  have sz: "\<not> sectorSize p > pageSize p"
    using p(1) by (auto simp: can_write_def locked_def untouched_def is_writing_def dest!: writingD(10) simp: plain_settings_def)
  show ?goal
  proof (cases "pg_writeable h \<and> dbSize p \<ge> n")
    case True
    have w: "is_writing g orig p"
    proof (rule ccontr)
      assume "\<not> is_writing g orig p"
      then have l: "cache_ok g orig [] {} (pPCache p)" "dbSize p = length orig" using p(1) by (auto simp: can_write_def locked_def untouched_def)
      from cache_okD(2) [OF l(1)] h have "page_ok g orig [] {} n h" by (simp add: PagerLookup_def)
      then show False using True l(2) by (simp add: page_ok_def)
    qed
    have r: "(if aSavepoint p \<noteq> [] then subjournalPageIfRequired n p else (SQLITE_OK, p)) = (rc, p')"
      using run True h by (simp add: PagerWrite_def)
    show ?thesis
    proof (cases "aSavepoint p = []")
      case True
      then show ?thesis using r w p(2) by simp
    next
      case False
      then have "subjournalPageIfRequired n p = (rc, p')" using r by simp
      from subjournal_frame [OF this]
      obtain sp j k m y where "p' = p\<lparr>aSavepoint := sp, sjfd := j, nSubRec := k, mem := m, os := y\<rparr>" by blast
      then have p'2: "p' = p\<lparr>aSavepoint := sp, sjfd := j, nSubRec := k, mem := m, os := y, dbSize := dbSize p\<rparr>" by simp
      obtain segs rs b where W: "writing g orig segs rs b p" "length orig \<le> dbSize p" using w by (auto simp: is_writing_def)
      have "writing g orig segs rs b p'" unfolding p'2 by (rule writing_cong [OF W(1)])
      moreover have "dbSize p' = dbSize p" by (simp add: p'2)
      ultimately have "is_writing g orig p'" using W(2) unfolding is_writing_def by auto
      then show ?thesis using p'2 p(2) by simp
    qed
  next
    case False
    show ?thesis
    proof (cases "errCode p = 0")
      case True
      then have "pager_write n p = (rc, p')" using run False h sz by (auto simp: PagerWrite_def)
      from runsD [OF pager_write_runs [OF g n] p(1,2) this] show ?thesis by simp
    next
      case err: False
      then show ?thesis using run False h p(2) by (auto simp: PagerWrite_def)
    qed
  qed
qed

end
