(* ===== verification/Pager_View.thy ===== *)
theory Pager_View
  imports Pager_Content
begin

text \<open>
  The database as its client sees it. The abstract state says what each page should hold;
  \<open>holds\<close> relates it to the cache and the file. Every operation of the pager is a step of
  the abstract database: only the client's own changes to a page are visible in it.
\<close>

section \<open>The abstract database\<close>

text \<open>
  \<open>None\<close> is a page whose content no longer matters (\<open>sqlite3PagerDontWrite\<close>). The pager owns
  12 bytes of page 1, the change counter and the version.
\<close>

type_synonym db_view = "nat \<Rightarrow> u8 list option"

definition unstamped :: "u8 list \<Rightarrow> u8 list" where
  "unstamped d = take 24 d @ drop 28 (take 92 d) @ drop 100 d"

definition same_page :: "nat \<Rightarrow> u8 list \<Rightarrow> u8 list \<Rightarrow> bool" where
  "same_page n a b \<longleftrightarrow> (if n = 1 then unstamped a = unstamped b else a = b)"

definition page_view :: "pager \<Rightarrow> nat \<Rightarrow> u8 list" where
  "page_view p n = (case PagerLookup p n of Some h \<Rightarrow> pg_data h | None \<Rightarrow> db_page (pageSize p) (disk p) n)"

definition header_ok :: "pager \<Rightarrow> nat \<Rightarrow> pghdr \<Rightarrow> bool" where
  "header_ok p n h \<longleftrightarrow> 0 < n \<and> length (pg_data h) = pageSize p \<and> (pg_dirty h \<longrightarrow> n \<le> dbSize p) \<and>
     (pg_writeable h \<longrightarrow> pg_dirty h \<and> \<not> pg_dont_write h) \<and>
     (\<not> pg_dirty h \<and> \<not> pg_dont_write h \<longrightarrow> pg_data h = db_page (pageSize p) (disk p) n)"

definition content_ok :: "pager \<Rightarrow> bool" where
  "content_ok p \<longleftrightarrow> 100 \<le> pageSize p \<and> pcache_ok (pPCache p) \<and> length (d_cur (disk p)) \<le> dbFileSize p \<and>
     dbFileSize p \<le> dbSize p \<and> (\<forall>d\<in>set (d_cur (disk p)). length d = pageSize p) \<and>
     (\<forall>n h. PagerLookup p n = Some h \<longrightarrow> header_ok p n h)"

definition page_holds :: "pager \<Rightarrow> nat \<Rightarrow> u8 list \<Rightarrow> bool" where
  "page_holds p n d \<longleftrightarrow> 0 < n \<and> (\<forall>h. PagerLookup p n = Some h \<longrightarrow> \<not> pg_dont_write h) \<and> same_page n (page_view p n) d"

definition holds :: "pager \<Rightarrow> db_view \<Rightarrow> bool" where
  "holds p v \<longleftrightarrow> content_ok p \<and> (\<forall>n d. v n = Some d \<longrightarrow> page_holds p n d)"

lemma holdsD:
  "holds p v \<Longrightarrow> content_ok p" "holds p v \<Longrightarrow> v n = Some d \<Longrightarrow> page_holds p n d"
  unfolding holds_def by blast+

lemma holdsI: "content_ok p \<Longrightarrow> (\<And>n d. v n = Some d \<Longrightarrow> page_holds p n d) \<Longrightarrow> holds p v"
  unfolding holds_def by blast

lemma content_okD:
  assumes "content_ok p"
  shows "100 \<le> pageSize p" "pcache_ok (pPCache p)" "length (d_cur (disk p)) \<le> dbSize p" "dbFileSize p \<le> dbSize p"
    "d \<in> set (d_cur (disk p)) \<Longrightarrow> length d = pageSize p" "PagerLookup p n = Some h \<Longrightarrow> header_ok p n h"
    "length (d_cur (disk p)) \<le> dbFileSize p"
  using assms le_trans unfolding content_ok_def by blast+

lemma content_okI:
  "100 \<le> pageSize p \<Longrightarrow> pcache_ok (pPCache p) \<Longrightarrow> length (d_cur (disk p)) \<le> dbFileSize p \<Longrightarrow> dbFileSize p \<le> dbSize p \<Longrightarrow>
   (\<And>d. d \<in> set (d_cur (disk p)) \<Longrightarrow> length d = pageSize p) \<Longrightarrow>
   (\<And>n h. PagerLookup p n = Some h \<Longrightarrow> header_ok p n h) \<Longrightarrow> content_ok p"
  unfolding content_ok_def by blast

lemma same_page_refl [simp]: "same_page n a a"
  by (simp add: same_page_def)

lemma same_page_trans: "same_page n a b \<Longrightarrow> same_page n b c \<Longrightarrow> same_page n a c"
  by (simp add: same_page_def split: if_splits)

section \<open>Journal work changes nothing\<close>

lemma core_flags:
  "core k' = core k \<Longrightarrow> pg_data k' = pg_data k \<and> pg_dirty k' = pg_dirty k \<and> pg_writeable k' = pg_writeable k \<and> pg_dont_write k' = pg_dont_write k"
proof -
  assume e: "core k' = core k"
  show ?thesis
    using arg_cong [OF e, of pg_data] arg_cong [OF e, of pg_dirty] arg_cong [OF e, of pg_writeable]
      arg_cong [OF e, of pg_dont_write] by (simp add: core_def)
qed

lemma cores_header:
  assumes "cores c' = cores c" "pc_pages c' n = Some h'"
  obtains h where "pc_pages c n = Some h" "pg_data h' = pg_data h" "pg_dirty h' = pg_dirty h"
    "pg_writeable h' = pg_writeable h" "pg_dont_write h' = pg_dont_write h"
proof -
  have "cores c n = Some (core h')" using assms(2) unfolding assms(1) [symmetric] cores_def by simp
  then have "map_option core (pc_pages c n) = Some (core h')" by (simp only: cores_def)
  then obtain h where "pc_pages c n = Some h" "core h = core h'" by (cases "pc_pages c n") simp_all
  then show thesis using that [of h] core_flags [of h h'] by auto
qed

lemma cores_ok: "cores c' = cores c \<Longrightarrow> pc_dirty c' = pc_dirty c \<Longrightarrow> pcache_ok c \<Longrightarrow> pcache_ok c'"
  unfolding pcache_ok_def by (metis cores_header)

lemma holds_cong:
  assumes c: "content p' = content p" and h: "holds p v"
  shows "holds p' v"
proof -
  have c': "pageSize p' = pageSize p" "d_cur (disk p') = d_cur (disk p)" "dbSize p' = dbSize p" "dbFileSize p' = dbFileSize p"
    "pc_dirty (pPCache p') = pc_dirty (pPCache p)" "cores (pPCache p') = cores (pPCache p)"
    using c by (simp_all add: content_def)
  note C = content_okD [OF holdsD(1) [OF h]]
  have look: "\<exists>h. PagerLookup p n = Some h \<and> pg_data h' = pg_data h \<and> pg_dirty h' = pg_dirty h \<and>
    pg_writeable h' = pg_writeable h \<and> pg_dont_write h' = pg_dont_write h" if "PagerLookup p' n = Some h'" for n h'
    using that cores_header [OF c'(6)] unfolding PagerLookup_def by metis
  have none: "PagerLookup p' n = None \<longleftrightarrow> PagerLookup p n = None" for n
    using fun_cong [OF c'(6), of n] by (auto simp: cores_def PagerLookup_def split: option.splits)
  have db: "db_page ps (disk p') n = db_page ps (disk p) n" for ps n by (simp add: db_page_def c')
  have view: "page_view p' n = page_view p n" for n
    using look [of n] none [of n] by (cases "PagerLookup p' n") (auto simp: page_view_def db c'(1))
  show ?thesis
  proof (rule holdsI)
    show "content_ok p'"
    proof (rule content_okI)
      show "pcache_ok (pPCache p')" by (rule cores_ok [OF c'(6,5) C(2)])
      show "header_ok p' n h'" if "PagerLookup p' n = Some h'" for n h'
        using look [OF that] C(6) [of n] by (auto simp: header_ok_def db c')
    qed (use C in \<open>simp_all add: c'\<close>)
    show "page_holds p' n d" if "v n = Some d" for n d
      using holdsD(2) [OF h that] look [of n] by (auto simp: page_holds_def view)
  qed
qed

lemma holds_kept: "kept f \<Longrightarrow> f p = (rc, p') \<Longrightarrow> holds p v \<Longrightarrow> holds p' v"
  using holds_cong keptD by metis

section \<open>One page changes\<close>

lemma holds_edit:
  assumes h: "holds p v"
    and p': "pageSize p' = pageSize p" "d_cur (disk p') = d_cur (disk p)" "dbSize p \<le> dbSize p'" "dbFileSize p' = dbFileSize p"
    and pages: "pc_pages (pPCache p') = (pc_pages (pPCache p))(n \<mapsto> h')" and ok: "pcache_ok (pPCache p')"
    and hdr: "header_ok p' n h'"
    and v: "\<And>m. m \<noteq> n \<Longrightarrow> v' m = v m" "\<And>d. v' n = Some d \<Longrightarrow> \<not> pg_dont_write h' \<and> same_page n (pg_data h') d"
  shows "holds p' v'"
proof (rule holdsI)
  note C = content_okD [OF holdsD(1) [OF h]]
  have look: "PagerLookup p' m = (if m = n then Some h' else PagerLookup p m)" for m by (simp add: PagerLookup_def pages)
  have db: "db_page ps (disk p') m = db_page ps (disk p) m" for ps m by (simp add: db_page_def p')
  show "content_ok p'"
  proof (rule content_okI)
    show "header_ok p' m k" if k: "PagerLookup p' m = Some k" for m k
    proof (cases "m = n")
      case True
      then show ?thesis using k hdr by (simp add: look)
    next
      case False
      then have "header_ok p m k" using k C(6) by (simp add: look)
      then show ?thesis using p'(1,3) by (auto simp: header_ok_def db)
    qed
  qed (use C p' ok in simp_all)
  show "page_holds p' m d" if d: "v' m = Some d" for m d
  proof (cases "m = n")
    case True
    then show ?thesis using v(2) d hdr by (simp add: page_holds_def page_view_def look header_ok_def)
  next
    case False
    then show ?thesis using holdsD(2) [OF h, of m d] d v(1) [OF False]
      by (cases "PagerLookup p m") (simp_all add: page_holds_def page_view_def look db p'(1))
  qed
qed

lemma db_page_length: "content_ok p \<Longrightarrow> 0 < n \<Longrightarrow> length (db_page (pageSize p) (disk p) n) = pageSize p"
  using content_okD(5) [of p] by (auto simp: db_page_def)

lemma fetch_holds:
  assumes h: "holds p v" and run: "getPageNormal n False p = (SQLITE_OK, p')"
  shows "holds p' v" "PagerLookup p' n \<noteq> None" "0 < n" "dbSize p' = dbSize p"
proof -
  show n: "0 < n" by (rule getPageNormal_ok(1) [OF run])
  consider "p' = p" "PagerLookup p n \<noteq> None" | "PagerLookup p n = None" "page_fetched n p p'"
    using getPageNormal_ok(2) [OF run] by (elim disjE conjE) simp_all
  then have "holds p' v \<and> PagerLookup p' n \<noteq> None \<and> dbSize p' = dbSize p"
  proof cases
    case 1
    then show ?thesis using h by simp
  next
    case 2
    then obtain c y w d where F: "p' = p\<lparr>pPCache := c, os := y, dbFileVers := w\<rparr>" "pc_dirty c = pc_dirty (pPCache p)"
      "pc_pages c = (pc_pages (pPCache p))(n \<mapsto> \<lparr>pg_data = d, pg_dirty = False, pg_need_sync = False,
         pg_writeable = False, pg_dont_write = False\<rparr>)"
      "d = (if n \<le> dbSize p then db_page (pageSize p) (disk p) n else replicate (pageSize p) 0)"
      unfolding page_fetched_def by blast
    note C = content_okD [OF holdsD(1) [OF h]]
    have d: "d = db_page (pageSize p) (disk p) n" using F(4) C(3) by (simp add: db_page_def)
    have none: "pc_pages (pPCache p) n = None" using 2 by (simp add: PagerLookup_def)
    have ok: "pcache_ok c"
      unfolding pcache_ok_def
    proof (intro conjI allI)
      show "distinct (pc_dirty c)" using pcache_okD(1) [OF C(2)] by (simp only: F)
      show "m \<in> set (pc_dirty c) \<longleftrightarrow> (\<exists>h. pc_pages c m = Some h \<and> pg_dirty h)" for m
        using C(2) none unfolding pcache_ok_def F(2,3) by (cases "m = n") simp_all
    qed
    have "holds p' v"
    proof (rule holds_edit [OF h, where n = n])
      show "pc_pages (pPCache p') = (pc_pages (pPCache p))(n \<mapsto> \<lparr>pg_data = d, pg_dirty = False, pg_need_sync = False,
         pg_writeable = False, pg_dont_write = False\<rparr>)" by (simp add: F(1,3))
      show "header_ok p' n \<lparr>pg_data = d, pg_dirty = False, pg_need_sync = False, pg_writeable = False, pg_dont_write = False\<rparr>"
        using db_page_length [OF holdsD(1) [OF h] n] n d by (simp add: header_ok_def F(1))
      show "\<not> pg_dont_write \<lparr>pg_data = d, pg_dirty = False, pg_need_sync = False, pg_writeable = False, pg_dont_write = False\<rparr> \<and>
        same_page n (pg_data \<lparr>pg_data = d, pg_dirty = False, pg_need_sync = False, pg_writeable = False, pg_dont_write = False\<rparr>) e"
        if "v n = Some e" for e
        using holdsD(2) [OF h that] 2(1) d by (simp add: page_holds_def page_view_def)
    qed (use ok in \<open>simp_all add: F(1)\<close>)
    then show ?thesis by (simp add: F(1,3) PagerLookup_def)
  qed
  then show "holds p' v" "PagerLookup p' n \<noteq> None" "dbSize p' = dbSize p" by simp_all
qed

text \<open>The client changes a page it has made writable.\<close>

definition poke :: "nat \<Rightarrow> u8 list \<Rightarrow> pager \<Rightarrow> pager" where
  "poke n d p = set_data n d p"

definition writable :: "nat \<Rightarrow> pager \<Rightarrow> bool" where
  "writable n p \<longleftrightarrow> (case PagerLookup p n of Some h \<Rightarrow> pg_writeable h | None \<Rightarrow> False)"

lemma poke_holds:
  assumes h: "holds p v" and w: "writable n p" and d: "length d = pageSize p"
    and v': "\<And>m. m \<noteq> n \<Longrightarrow> v' m = v m" "\<And>e. v' n = Some e \<Longrightarrow> same_page n d e"
  shows "holds (poke n d p) v'"
proof -
  obtain k where k: "PagerLookup p n = Some k" "pg_writeable k" using w by (auto simp: writable_def split: option.splits)
  note C = content_okD [OF holdsD(1) [OF h]]
  note H = C(6) [OF k(1)]
  show ?thesis
  proof (rule holds_edit [OF h, where n = n and h' = "k\<lparr>pg_data := d\<rparr>"])
    show "pc_pages (pPCache (poke n d p)) = (pc_pages (pPCache p))(n \<mapsto> k\<lparr>pg_data := d\<rparr>)"
      using k(1) by (auto simp: poke_def set_data_def on_cache_def PagerLookup_def on_page_def)
    show "pcache_ok (pPCache (poke n d p))" using C(2) by (simp add: poke_def set_data_def on_cache_def on_page_ok)
    show "header_ok (poke n d p) n (k\<lparr>pg_data := d\<rparr>)"
      using H k(2) d by (simp add: header_ok_def poke_def set_data_def on_cache_def)
    show "\<not> pg_dont_write (k\<lparr>pg_data := d\<rparr>) \<and> same_page n (pg_data (k\<lparr>pg_data := d\<rparr>)) e" if "v' n = Some e" for e
      using v'(2) [OF that] H k(2) by (simp add: header_ok_def)
  qed (use v'(1) in \<open>simp_all add: poke_def set_data_def on_cache_def\<close>)
qed

lemma dont_write_holds:
  assumes h: "holds p v"
  shows "holds (PagerDontWrite n p) (v(n := None))"
proof (cases "(case PagerLookup p n of Some h \<Rightarrow> pg_dirty h | None \<Rightarrow> False) \<and> aSavepoint p = []")
  case False
  have "holds p (v(n := None))" using h by (auto simp: holds_def)
  then show ?thesis using False unfolding PagerDontWrite_def by (simp only: if_False)
next
  case True
  then obtain k where k: "PagerLookup p n = Some k" "pg_dirty k" by (auto split: option.splits)
  let ?k = "k\<lparr>pg_dont_write := True, pg_writeable := False\<rparr>"
  note C = content_okD [OF holdsD(1) [OF h]]
  have q: "PagerDontWrite n p = on_cache (on_page n (\<lambda>h. h\<lparr>pg_dont_write := True, pg_writeable := False\<rparr>)) p"
    using True unfolding PagerDontWrite_def by (rule if_P)
  show ?thesis
    unfolding q
  proof (rule holds_edit [OF h, where n = n and h' = ?k])
    let ?p = "on_cache (on_page n (\<lambda>h. h\<lparr>pg_dont_write := True, pg_writeable := False\<rparr>)) p"
    show "pc_pages (pPCache ?p) = (pc_pages (pPCache p))(n \<mapsto> ?k)"
      using k(1) by (auto simp: on_cache_def PagerLookup_def on_page_def)
    show "pcache_ok (pPCache ?p)" using C(2) by (simp add: on_cache_def on_page_ok)
    show "header_ok ?p n ?k" using C(6) [OF k(1)] k(2) by (simp add: header_ok_def on_cache_def)
  qed (simp_all add: on_cache_def)
qed

section \<open>Making a page writable\<close>

lemma andThen_ok: "andThen f g p = (SQLITE_OK, p') \<longleftrightarrow> (\<exists>q. f p = (SQLITE_OK, q) \<and> g q = (SQLITE_OK, p'))"
  by (auto simp: andThen_def split: prod.splits)

lemma upd_ok [simp]: "upd f p = (rc, p') \<longleftrightarrow> rc = SQLITE_OK \<and> p' = f p"
  by (auto simp: upd_def)

lemma cores_on_page: "cores c' = cores c \<Longrightarrow> (\<And>h. core (f h) = f (core h)) \<Longrightarrow> cores (on_page n f c') = cores (on_page n f c)"
proof
  fix m
  assume c: "cores c' = cores c" and f: "\<And>h. core (f h) = f (core h)"
  have "map_option core (map_option f x) = map_option f (map_option core x)" for x by (cases x) (simp_all add: f)
  then show "cores (on_page n f c') m = cores (on_page n f c) m"
    using fun_cong [OF c, of m] fun_cong [OF c, of n] by (simp add: cores_def)
qed

definition made_writable :: "nat \<Rightarrow> pager \<Rightarrow> pager" where
  "made_writable n p =
     (on_cache (\<lambda>c. on_page n (\<lambda>h. h\<lparr>pg_writeable := True\<rparr>) (PcacheMakeDirty n c)) p)\<lparr>dbSize := max (dbSize p) n\<rparr>"

lemma write_rest_content:
  assumes "write_rest n p = (SQLITE_OK, p')"
  shows "content p' = content (made_writable n p)"
proof -
  let ?f = "on_cache (on_page n (\<lambda>h. h\<lparr>pg_writeable := True\<rparr>))"
  obtain q1 where q1: "journal_step n (on_cache (PcacheMakeDirty n) p) = (SQLITE_OK, q1)"
    and r: "(let (rc, p) = (if aSavepoint (?f q1) \<noteq> [] then subjournalPageIfRequired n (?f q1) else (SQLITE_OK, ?f q1))
            in (rc, if dbSize p < n then p\<lparr>dbSize := n\<rparr> else p)) = (SQLITE_OK, p')"
    using assms by (auto simp: write_rest_def andThen_ok)
  obtain rc q2 where q2: "(if aSavepoint (?f q1) \<noteq> [] then subjournalPageIfRequired n (?f q1) else (SQLITE_OK, ?f q1)) = (rc, q2)"
    by fastforce
  have c1: "content q1 = content (on_cache (PcacheMakeDirty n) p)" by (rule keptD [OF kept_journal_step q1])
  have c2: "content q2 = content (?f q1)"
  proof (cases "aSavepoint (?f q1) = []")
    case False
    then have "subjournalPageIfRequired n (?f q1) = (rc, q2)" using q2 by simp
    then show ?thesis by (rule keptD [OF kept_subjournal])
  qed (use q2 in simp)
  have p': "p' = (if dbSize q2 < n then q2\<lparr>dbSize := n\<rparr> else q2)" using r q2 by (auto split: prod.splits)
  have cc: "cores (pPCache q1) = cores (PcacheMakeDirty n (pPCache p))" using c1 by (simp add: content_def on_cache_def)
  have "cores (on_page n (\<lambda>h. h\<lparr>pg_writeable := True\<rparr>) (pPCache q1)) =
      cores (on_page n (\<lambda>h. h\<lparr>pg_writeable := True\<rparr>) (PcacheMakeDirty n (pPCache p)))"
    by (rule cores_on_page [OF cc]) (simp add: core_def)
  then show ?thesis using c1 c2 by (auto simp: p' content_def made_writable_def on_cache_def)
qed

lemma made_writable_writable: "PagerLookup p n = Some k \<Longrightarrow> writable n (made_writable n p)"
  by (simp add: writable_def made_writable_def on_cache_def PagerLookup_def MakeDirty_pages)

lemma made_writable_holds:
  assumes h: "holds p v" and k: "PagerLookup p n = Some k"
  shows "holds (made_writable n p) v"
proof -
  let ?k = "k\<lparr>pg_dirty := True, pg_dont_write := False, pg_writeable := True\<rparr>"
  note C = content_okD [OF holdsD(1) [OF h]]
  note H = C(6) [OF k]
  have pages: "pc_pages (pPCache (made_writable n p)) = (pc_pages (pPCache p))(n \<mapsto> ?k)"
    using k by (auto simp: made_writable_def on_cache_def MakeDirty_pages PagerLookup_def)
  show "holds (made_writable n p) v"
  proof (rule holds_edit [OF h _ _ _ _ pages])
    show "pcache_ok (pPCache (made_writable n p))"
      using MakeDirty_ok [OF C(2), of n] by (simp add: made_writable_def on_cache_def on_page_ok)
    show "header_ok (made_writable n p) n ?k" using H by (simp add: header_ok_def made_writable_def on_cache_def)
    show "\<not> pg_dont_write ?k \<and> same_page n (pg_data ?k) d" if "v n = Some d" for d
      using holdsD(2) [OF h that] k by (simp add: page_holds_def page_view_def)
  qed (simp_all add: made_writable_def on_cache_def)
qed

lemma content_lookup:
  assumes "content p' = content p" "PagerLookup p n = Some k"
  obtains k' where "PagerLookup p' n = Some k'" "core k' = core k"
proof -
  have "map_option core (PagerLookup p' n) = map_option core (PagerLookup p n)"
    using assms(1) by (auto simp: content_def cores_def PagerLookup_def dest!: fun_cong [where x = n])
  then show thesis using assms(2) that by (cases "PagerLookup p' n") auto
qed

lemma content_writable: "content p' = content p \<Longrightarrow> writable n p \<Longrightarrow> writable n p'"
proof -
  assume c: "content p' = content p" and w: "writable n p"
  obtain k where k: "PagerLookup p n = Some k" "pg_writeable k" using w by (auto simp: writable_def split: option.splits)
  obtain k' where k': "PagerLookup p' n = Some k'" "core k' = core k" by (rule content_lookup [OF c k(1)])
  then show "writable n p'" using k(2) core_flags [OF k'(2)] by (simp add: writable_def)
qed

lemma PagerWrite_content:
  assumes k: "PagerLookup p n \<noteq> None" and run: "PagerWrite n p = (SQLITE_OK, p')" and sec: "sectorSize p \<le> pageSize p"
  obtains "writable n p" "n \<le> dbSize p" "content p' = content p"
  | q where "content q = content p" "PagerLookup q n \<noteq> None" "content p' = content (made_writable n q)"
proof (cases "writable n p \<and> dbSize p \<ge> n")
  case True
  then have r: "(if aSavepoint p \<noteq> [] then subjournalPageIfRequired n p else (SQLITE_OK, p)) = (SQLITE_OK, p')"
    using run by (simp add: PagerWrite_def writable_def)
  have "content p' = content p"
  proof (cases "aSavepoint p = []")
    case False
    then have "subjournalPageIfRequired n p = (SQLITE_OK, p')" using r by simp
    then show ?thesis by (rule keptD [OF kept_subjournal])
  qed (use r in simp)
  then show ?thesis using that(1) True by blast
next
  case False
  then have "pager_write n p = (SQLITE_OK, p')" using run sec by (auto simp: PagerWrite_def writable_def split: if_splits)
  then obtain q where q: "whenP (\<lambda>p. eState p = PAGER_WRITER_LOCKED) pager_open_journal p = (SQLITE_OK, q)"
    and r: "write_rest n q = (SQLITE_OK, p')" by (auto simp: pager_write_rest andThen_ok)
  have "kept (whenP (\<lambda>p. eState p = PAGER_WRITER_LOCKED) pager_open_journal)" by (intro kept)
  from keptD [OF this q] have c: "content q = content p" .
  then have "PagerLookup q n \<noteq> None" using k content_lookup [OF c] by blast
  then show ?thesis using that(2) c write_rest_content [OF r] by blast
qed

lemma PagerWrite_writable:
  assumes "PagerLookup p n \<noteq> None" "PagerWrite n p = (SQLITE_OK, p')" "sectorSize p \<le> pageSize p"
  shows "writable n p'"
  using assms
proof (cases rule: PagerWrite_content)
  case 1
  then show ?thesis using content_writable by blast
next
  case (2 q)
  then show ?thesis using content_writable made_writable_writable by blast
qed

lemma PagerWrite_holds:
  assumes h: "holds p v" and k: "PagerLookup p n \<noteq> None" and run: "PagerWrite n p = (SQLITE_OK, p')" and sec: "sectorSize p \<le> pageSize p"
  shows "holds p' v \<and> dbSize p' = max (dbSize p) n"
  using k run sec
proof (cases rule: PagerWrite_content)
  case 1
  then have "dbSize p' = dbSize p" by (simp add: content_def)
  then show ?thesis using holds_cong [OF 1(3) h] 1(2) by simp
next
  case (2 q)
  then obtain k1 where k1: "PagerLookup q n = Some k1" by auto
  have "dbSize p' = max (dbSize p) n" using 2 by (simp add: content_def made_writable_def)
  then show ?thesis using holds_cong [OF 2(3) made_writable_holds [OF holds_cong [OF 2(1) h] k1]] by simp
qed

section \<open>Writing pages out\<close>

definition stamped :: "u32 \<Rightarrow> u8 list \<Rightarrow> u8 list" where
  "stamped c d = put_at 96 (Put4byte SQLITE_VERSION_NUMBER) (put_at 92 (Put4byte c) (put_at 24 (Put4byte c) d))"

lemma length_put_at: "off + length bs \<le> length d \<Longrightarrow> length (put_at off bs d) = length d"
  by (simp add: put_at_def)

lemma put_at_nth: "off + length bs \<le> length d \<Longrightarrow> i < length d \<Longrightarrow>
   put_at off bs d ! i = (if off \<le> i \<and> i < off + length bs then bs ! (i - off) else d ! i)"
  by (auto simp: put_at_def nth_append min_def)

lemma length_stamped: "100 \<le> length d \<Longrightarrow> length (stamped c d) = length d"
  by (simp add: stamped_def length_put_at)

lemma unstamped_eqI:
  assumes "100 \<le> length d" "length e = length d"
    "\<And>i. i < length d \<Longrightarrow> \<not> (24 \<le> i \<and> i < 28) \<Longrightarrow> \<not> (92 \<le> i \<and> i < 100) \<Longrightarrow> e ! i = d ! i"
  shows "unstamped e = unstamped d"
proof -
  have "take 24 e = take 24 d" using assms by (intro nth_equalityI) auto
  moreover have "drop 28 (take 92 e) = drop 28 (take 92 d)" using assms by (intro nth_equalityI) auto
  moreover have "drop 100 e = drop 100 d" using assms by (intro nth_equalityI) auto
  ultimately show ?thesis by (simp add: unstamped_def)
qed

lemma unstamped_stamped: "100 \<le> length d \<Longrightarrow> unstamped (stamped c d) = unstamped d"
  by (rule unstamped_eqI) (auto simp: stamped_def length_put_at put_at_nth)

lemma changecounter_stamped:
  "pager_write_changecounter n p = set_data n (stamped (Get4byte (\<lambda>i. dbFileVers p ! i) + 1) (page_data p n)) p"
  by (simp add: pager_write_changecounter_def stamped_def Let_def)

lemma db_page_put:
  "0 < n \<Longrightarrow> 0 < m \<Longrightarrow> d_cur d' = put_page ps (d_cur d) n x \<Longrightarrow> db_page ps d' m = (if m = n then x else db_page ps d m)"
  by (auto simp: db_page_def length_put_page put_page_nth)

lemma put_page_lengths:
  assumes "\<forall>d\<in>set c. length d = ps" "length x = ps" "d \<in> set (put_page ps c n x)"
  shows "length d = ps"
proof -
  have "d = x \<or> d \<in> set (c @ replicate (n - length c) (replicate ps 0))"
    using assms(3) set_update_subset_insert unfolding put_page_def Let_def by fastforce
  then show ?thesis using assms(1,2) by auto
qed

text \<open>The pages \<open>N\<close> of the cache agree with the file.\<close>

definition written :: "nat set \<Rightarrow> pager \<Rightarrow> bool" where
  "written N p \<longleftrightarrow> (\<forall>n\<in>N. \<forall>k. PagerLookup p n = Some k \<longrightarrow> \<not> pg_dont_write k \<longrightarrow>
     pg_data k = db_page (pageSize p) (disk p) n)"

lemma holds_out:
  assumes h: "holds p v" and k: "PagerLookup p n = Some k" "n \<le> dbSize p" and N: "written N p"
    and p': "pageSize p' = pageSize p" "d_cur (disk p') = put_page (pageSize p) (d_cur (disk p)) n (pg_data k)"
      "dbSize p' = dbSize p" "dbFileSize p' = max (dbFileSize p) n" "pPCache p' = pPCache p"
  shows "holds p' v \<and> written (insert n N) p'"
proof -
  note C = content_okD [OF holdsD(1) [OF h]]
  note H = C(6) [OF k(1)]
  have n0: "0 < n" using H by (simp add: header_ok_def)
  have look: "PagerLookup p' = PagerLookup p" by (simp add: PagerLookup_def fun_eq_iff p')
  have db: "db_page (pageSize p) (disk p') m = (if m = n then pg_data k else db_page (pageSize p) (disk p) m)" if "0 < m" for m
    by (rule db_page_put [OF n0 that p'(2)])
  have "content_ok p'"
  proof (rule content_okI)
    show "length (d_cur (disk p')) \<le> dbFileSize p'" using C(7) n0 by (auto simp: p' length_put_page)
    show "dbFileSize p' \<le> dbSize p'" using C(4) k(2) by (simp add: p')
    show "length d = pageSize p'" if "d \<in> set (d_cur (disk p'))" for d
      using put_page_lengths [of "d_cur (disk p)" "pageSize p" "pg_data k"] that C(5) H by (auto simp: p' header_ok_def)
    show "header_ok p' m q" if "PagerLookup p' m = Some q" for m q
    proof -
      have "header_ok p m q" using that C(6) by (simp add: look)
      then show ?thesis using that k(1) by (cases "m = n") (auto simp: header_ok_def p'(1,3) db look)
    qed
  qed (use C p' in simp_all)
  moreover have "page_holds p' m d" if v: "v m = Some d" for m d
  proof -
    have m: "page_holds p m d" by (rule holdsD(2) [OF h v])
    then have m0: "0 < m" by (simp add: page_holds_def)
    show ?thesis
      using m k(1) by (cases "PagerLookup p m") (auto simp: page_holds_def page_view_def look p'(1) db [OF m0])
  qed
  moreover have "written (insert n N) p'"
  proof -
    have "pg_data q = db_page (pageSize p') (disk p') m" if "m = n \<or> m \<in> N" "PagerLookup p m = Some q" "\<not> pg_dont_write q" for m q
    proof -
      have "0 < m" using C(6) [OF that(2)] by (simp add: header_ok_def)
      then show ?thesis using that N k(1) by (auto simp: db p'(1) written_def)
    qed
    then show ?thesis by (auto simp: written_def look)
  qed
  ultimately show ?thesis by (auto intro: holdsI)
qed

text \<open>Everything but the data of the pages.\<close>

definition dirty_flags :: "pager \<Rightarrow> nat \<times> nat \<times> nat list \<times> (nat \<Rightarrow> (bool \<times> bool) option)" where
  "dirty_flags p = (pageSize p, dbSize p, pc_dirty (pPCache p), \<lambda>m. map_option (\<lambda>k. (pg_dirty k, pg_dont_write k)) (PagerLookup p m))"

lemma stamp_holds:
  assumes h: "holds p v" and k: "PagerLookup p 1 = Some k" "pg_dirty k"
  shows "holds (pager_write_changecounter 1 p) v" "\<exists>d. PagerLookup (pager_write_changecounter 1 p) 1 = Some (k\<lparr>pg_data := d\<rparr>)"
    "dirty_flags (pager_write_changecounter 1 p) = dirty_flags p"
proof -
  note C = content_okD [OF holdsD(1) [OF h]]
  note H = C(6) [OF k(1)]
  define d where "d = stamped (Get4byte (\<lambda>i. dbFileVers p ! i) + 1) (pg_data k)"
  have p: "pager_write_changecounter 1 p = set_data 1 d p"
    using k(1) by (simp add: changecounter_stamped d_def page_data_def)
  have pages: "pc_pages (pPCache (set_data 1 d p)) = (pc_pages (pPCache p))(1 \<mapsto> k\<lparr>pg_data := d\<rparr>)"
    using k(1) by (auto simp: set_data_def on_cache_def PagerLookup_def)
  have len: "100 \<le> length (pg_data k)" using C(1) H by (simp add: header_ok_def)
  show "holds (pager_write_changecounter 1 p) v"
    unfolding p
  proof (rule holds_edit [OF h _ _ _ _ pages])
    show "pcache_ok (pPCache (set_data 1 d p))" using C(2) by (simp add: set_data_def on_cache_def on_page_ok)
    show "header_ok (set_data 1 d p) 1 (k\<lparr>pg_data := d\<rparr>)"
      using H k(2) length_stamped [OF len] by (simp add: header_ok_def set_data_def on_cache_def d_def)
    show "\<not> pg_dont_write (k\<lparr>pg_data := d\<rparr>) \<and> same_page 1 (pg_data (k\<lparr>pg_data := d\<rparr>)) e" if "v 1 = Some e" for e
      using holdsD(2) [OF h that] k(1) unstamped_stamped [OF len] by (simp add: page_holds_def page_view_def same_page_def d_def)
  qed (simp_all add: set_data_def on_cache_def)
  show "\<exists>d. PagerLookup (pager_write_changecounter 1 p) 1 = Some (k\<lparr>pg_data := d\<rparr>)"
    unfolding p PagerLookup_def pages by auto
  show "dirty_flags (pager_write_changecounter 1 p) = dirty_flags p"
    unfolding p dirty_flags_def PagerLookup_def pages using k(1)
    by (auto simp: PagerLookup_def set_data_def on_cache_def)
qed

lemma write_page_out_holds:
  assumes h: "holds p v" and k: "PagerLookup p n = Some k" "pg_dirty k" and N: "written N p"
    and run: "write_page_out n p = (SQLITE_OK, p')"
  shows "holds p' v \<and> written (insert n N) p' \<and> dirty_flags p' = dirty_flags p"
proof -
  define p1 where "p1 = (if n = 1 then pager_write_changecounter n p else p)"
  obtain d where d: "PagerLookup p1 n = Some (k\<lparr>pg_data := d\<rparr>)"
  proof (cases "n = 1")
    case True
    then show ?thesis using that stamp_holds(2) [OF h _ k(2)] k(1) by (auto simp: p1_def)
  next
    case False
    then have "PagerLookup p1 n = Some (k\<lparr>pg_data := pg_data k\<rparr>)" using k(1) by (simp add: p1_def)
    then show ?thesis by (rule that)
  qed
  have h1: "holds p1 v" "dirty_flags p1 = dirty_flags p"
    using stamp_holds(1,3) [OF h _ k(2)] h k(1) by (auto simp: p1_def)
  have "written (N - {n}) p1"
    using N unfolding written_def
    by (auto simp: p1_def changecounter_stamped set_data_def on_cache_def PagerLookup_def split: if_splits)
  obtain p2 where io: "os_call (DWrite n d) p1 = (SQLITE_OK, p2)"
    and p': "dirty_flags p' = dirty_flags p2" "pageSize p' = pageSize p2" "disk p' = disk p2" "dbSize p' = dbSize p2"
      "pPCache p' = pPCache p2" "dbFileSize p' = max (dbFileSize p2) n"
  proof -
    obtain r2 p2 where io: "os_call (DWrite n (page_data p1 n)) p1 = (r2, p2)" by fastforce
    define p3 where "p3 = (if n = 1 then p2\<lparr>dbFileVers := take 16 (drop 24 (page_data p1 n))\<rparr> else p2)"
    have r: "r2 = SQLITE_OK" "p' = (if n > dbFileSize p3 then p3\<lparr>dbFileSize := n\<rparr> else p3)"
      using run unfolding write_page_out_def p1_def [symmetric] Let_def io by (auto simp: p3_def)
    have "page_data p1 n = d" using d by (simp add: page_data_def)
    then show thesis using that [of p2] io r by (auto simp: p3_def dirty_flags_def PagerLookup_def)
  qed
  let ?q = "p2\<lparr>dbFileSize := max (dbFileSize p2) n\<rparr>"
  have p2: "pageSize p2 = pageSize p1" "d_cur (disk p2) = put_page (pageSize p1) (d_cur (disk p1)) n d" "dbSize p2 = dbSize p1"
    "dbFileSize p2 = dbFileSize p1" "pPCache p2 = pPCache p1"
    using io by (auto simp: os_call_eq do_io_def split: option.splits)
  have n: "n \<le> dbSize p1" using content_okD(6) [OF holdsD(1) [OF h1(1)] d] k(2) by (simp add: header_ok_def)
  have "holds p' v \<and> written (insert n (N - {n})) p'"
    by (rule holds_out [OF h1(1) d n \<open>written (N - {n}) p1\<close>])
      (use p' p2 n content_okD(4) [OF holdsD(1) [OF h1(1)]] in simp_all)
  moreover have "dirty_flags p2 = dirty_flags p1" by (simp add: dirty_flags_def p2 PagerLookup_def)
  ultimately show ?thesis using p'(1) h1(2) by simp
qed

lemma pagelist_holds:
  "holds p v \<Longrightarrow> written N p \<Longrightarrow> \<forall>n\<in>set ns. \<forall>k. PagerLookup p n = Some k \<longrightarrow> pg_dirty k \<Longrightarrow>
   pager_write_pagelist ns p = (SQLITE_OK, p') \<Longrightarrow>
   holds p' v \<and> written (N \<union> set ns) p' \<and> dirty_flags p' = dirty_flags p"
proof (induction ns arbitrary: p N)
  case Nil
  then show ?case by simp
next
  case (Cons n ns)
  let ?b = "n \<le> dbSize p \<and> (case PagerLookup p n of Some h \<Rightarrow> \<not> pg_dont_write h | None \<Rightarrow> False)"
  obtain q where q: "whenP (\<lambda>p. n \<le> dbSize p \<and> (case PagerLookup p n of Some h \<Rightarrow> \<not> pg_dont_write h | None \<Rightarrow> False))
      (write_page_out n) p = (SQLITE_OK, q)" and rest: "pager_write_pagelist ns q = (SQLITE_OK, p')"
    using Cons.prems(4) by (auto simp: andThen_ok)
  have Q: "holds q v \<and> written (insert n N) q \<and> dirty_flags q = dirty_flags p"
  proof (cases ?b)
    case True
    then obtain k where k: "PagerLookup p n = Some k" by (auto split: option.splits)
    then have "pg_dirty k" "write_page_out n p = (SQLITE_OK, q)" using Cons.prems(3) q True by (auto simp: whenP_def)
    then show ?thesis using write_page_out_holds [OF Cons.prems(1) k _ Cons.prems(2)] by blast
  next
    case False
    then have "q = p" using q by (auto simp: whenP_def split: if_splits)
    moreover have "written (insert n N) p"
    proof -
      have "pg_dont_write k" if k: "PagerLookup p n = Some k" for k
      proof -
        have "header_ok p n k" by (rule content_okD(6) [OF holdsD(1) [OF Cons.prems(1)] k])
        then show ?thesis using False Cons.prems(3) k by (auto simp: header_ok_def)
      qed
      then show ?thesis using Cons.prems(2) by (auto simp: written_def)
    qed
    ultimately show ?thesis using Cons.prems(1) by simp
  qed
  have dirty: "\<forall>m\<in>set ns. \<forall>k. PagerLookup q m = Some k \<longrightarrow> pg_dirty k"
  proof (intro ballI allI impI)
    fix m k
    assume m: "m \<in> set ns" "PagerLookup q m = Some k"
    from Q have "map_option (\<lambda>k. (pg_dirty k, pg_dont_write k)) (PagerLookup q m) =
        map_option (\<lambda>k. (pg_dirty k, pg_dont_write k)) (PagerLookup p m)"
      by (auto simp: dirty_flags_def dest: fun_cong [where x = m])
    with m Cons.prems(3) show "pg_dirty k" by (cases "PagerLookup p m") auto
  qed
  have "insert n N \<union> set ns = N \<union> set (n # ns)" by auto
  with Cons.IH [of q "insert n N", OF _ _ dirty rest] Q show ?case by simp
qed

section \<open>Dropping and spilling pages\<close>

lemma holds_clean:
  assumes h: "holds p v" and N: "written N p" and ok: "pcache_ok (f (pPCache p))"
    and pages: "\<And>m. pc_pages (f (pPCache p)) m =
       (if m \<in> N then map_option (\<lambda>h. h\<lparr>pg_dirty := False, pg_need_sync := False, pg_writeable := False\<rparr>) (pc_pages (pPCache p) m)
        else pc_pages (pPCache p) m)"
  shows "holds (on_cache f p) v"
proof (rule holdsI)
  note C = content_okD [OF holdsD(1) [OF h]]
  let ?p = "on_cache f p"
  have look: "PagerLookup ?p m = (if m \<in> N then map_option (\<lambda>h. h\<lparr>pg_dirty := False, pg_need_sync := False, pg_writeable := False\<rparr>) (PagerLookup p m)
        else PagerLookup p m)" for m by (simp add: PagerLookup_def on_cache_def pages)
  have eqs: "pageSize ?p = pageSize p" "disk ?p = disk p" "dbSize ?p = dbSize p" "dbFileSize ?p = dbFileSize p" "pPCache ?p = f (pPCache p)"
    by (simp_all add: on_cache_def)
  show "content_ok ?p"
  proof (rule content_okI)
    show "header_ok ?p m k" if k: "PagerLookup ?p m = Some k" for m k
    proof (cases "m \<in> N")
      case False
      then show ?thesis using k C(6) by (simp add: look header_ok_def eqs)
    next
      case True
      then obtain k0 where k0: "PagerLookup p m = Some k0" "k = k0\<lparr>pg_dirty := False, pg_need_sync := False, pg_writeable := False\<rparr>"
        using k by (auto simp: look)
      then show ?thesis using C(6) [OF k0(1)] N True by (auto simp: header_ok_def eqs written_def)
    qed
  qed (use C ok in \<open>simp_all add: eqs\<close>)
  show "page_holds ?p m d" if "v m = Some d" for m d
    using holdsD(2) [OF h that] by (cases "PagerLookup p m") (auto simp: page_holds_def page_view_def look eqs)
qed

lemma evict_holds:
  assumes h: "holds p v" and clean: "\<And>k. PagerLookup p n = Some k \<Longrightarrow> \<not> pg_dirty k"
  shows "holds (on_cache (PcacheDrop n) p) v"
proof (rule holdsI)
  note C = content_okD [OF holdsD(1) [OF h]]
  let ?p = "on_cache (PcacheDrop n) p"
  have look: "PagerLookup ?p m = (if m = n then None else PagerLookup p m)" for m
    by (simp add: PagerLookup_def on_cache_def PcacheDrop_def)
  have dirty: "pc_dirty (pPCache ?p) = pc_dirty (pPCache p)"
    using clean by (auto simp: on_cache_def PcacheDrop_def PagerLookup_def split: option.splits)
  have eqs: "pageSize ?p = pageSize p" "disk ?p = disk p" "dbSize ?p = dbSize p" "dbFileSize ?p = dbFileSize p"
    by (simp_all add: on_cache_def)
  show "content_ok ?p"
  proof (rule content_okI)
    show "pcache_ok (pPCache ?p)"
      unfolding pcache_ok_def
    proof (intro conjI allI)
      show "distinct (pc_dirty (pPCache ?p))" using pcache_okD(1) [OF C(2)] by (simp only: dirty)
      show "m \<in> set (pc_dirty (pPCache ?p)) \<longleftrightarrow> (\<exists>h. pc_pages (pPCache ?p) m = Some h \<and> pg_dirty h)" for m
        using C(2) clean look [of m] unfolding pcache_ok_def dirty PagerLookup_def by (cases "m = n") auto
    qed
    show "header_ok ?p m k" if "PagerLookup ?p m = Some k" for m k
      using that C(6) by (auto simp: look header_ok_def eqs split: if_splits)
  qed (use C in \<open>simp_all add: eqs\<close>)
  show "page_holds ?p m d" if v: "v m = Some d" for m d
  proof (cases "m = n")
    case False
    then show ?thesis using holdsD(2) [OF h v] by (cases "PagerLookup p m") (simp_all add: page_holds_def page_view_def look eqs)
  next
    case True
    show ?thesis
    proof (cases "PagerLookup p n")
      case None
      then show ?thesis using holdsD(2) [OF h v] True by (simp add: page_holds_def page_view_def look eqs)
    next
      case (Some k)
      then show ?thesis using holdsD(2) [OF h v] True C(6) [OF Some] clean by (simp add: page_holds_def page_view_def look eqs header_ok_def)
    qed
  qed
qed

lemma content_dirty:
  assumes c: "content p' = content p" and k: "PagerLookup p n = Some k" "pg_dirty k"
  shows "\<exists>k. PagerLookup p' n = Some k \<and> pg_dirty k"
proof -
  obtain k' where k': "PagerLookup p' n = Some k'" "core k' = core k" by (rule content_lookup [OF c k(1)])
  then show ?thesis using core_flags [OF k'(2)] k(2) by simp
qed

lemma spill_holds:
  assumes h: "holds p v" and d: "PagerLookup p n = Some k" "pg_dirty k" and run: "pagerStress n p = (SQLITE_OK, p')"
  shows "holds p' v \<and> dbSize p' = dbSize p"
proof -
  let ?f = "andThen (whenP (\<lambda>p. page_need_sync p n \<or> eState p = PAGER_WRITER_CACHEMOD) (syncJournal True))
         (andThen (pager_write_pagelist [n]) (upd (on_cache (PcacheMakeClean n))))"
  obtain r1 p1 where f: "?f p = (r1, p1)" by fastforce
  have err: "pager_error p1 r1 = (SQLITE_OK, p') \<Longrightarrow> r1 = SQLITE_OK \<and> p1 = p'"
    by (simp add: pager_error_def Let_def split: if_splits)
  have "p' = p \<or> pager_error p1 r1 = (SQLITE_OK, p')"
    using run unfolding pagerStress_def Let_def f by (simp split: if_splits)
  then consider "p' = p" | "?f p = (SQLITE_OK, p')" using err f by blast
  then show ?thesis
  proof cases
    case 1
    then show ?thesis using h by simp
  next
    case 2
    then obtain q r where q: "whenP (\<lambda>p. page_need_sync p n \<or> eState p = PAGER_WRITER_CACHEMOD) (syncJournal True) p = (SQLITE_OK, q)"
      and r: "pager_write_pagelist [n] q = (SQLITE_OK, r)" and p': "p' = on_cache (PcacheMakeClean n) r"
      by (auto simp: andThen_ok simp del: pager_write_pagelist.simps)
    have "kept (whenP (\<lambda>p. page_need_sync p n \<or> eState p = PAGER_WRITER_CACHEMOD) (syncJournal True))" by (intro kept)
    from keptD [OF this q] have c: "content q = content p" .
    have dq: "\<exists>k. PagerLookup q n = Some k \<and> pg_dirty k" by (rule content_dirty [OF c d])
    have "holds r v \<and> written ({} \<union> set [n]) r \<and> dirty_flags r = dirty_flags q"
      by (rule pagelist_holds [OF holds_cong [OF c h] _ _ r]) (use dq in \<open>auto simp: written_def\<close>)
    then have R: "holds r v" "written {n} r" "dbSize r = dbSize p"
      using c by (simp_all add: dirty_flags_def content_def)
    have "holds p' v"
      unfolding p' by (rule holds_clean [OF R(1,2)]) (simp_all add: MakeClean_pages MakeClean_ok content_okD(2) [OF holdsD(1) [OF R(1)]])
    then show ?thesis using R(3) by (simp add: p' on_cache_def)
  qed
qed

section \<open>The first phase of a commit\<close>

lemma os_ask_ok: "os_ask p = (SQLITE_OK, q) \<Longrightarrow> \<exists>y. q = p\<lparr>os := y\<rparr>"
  by (auto simp: os_ask_def)

lemma os_call_ok: "os_call op p = (SQLITE_OK, q) \<Longrightarrow> \<exists>y. q = do_io op (p\<lparr>os := y\<rparr>)"
  by (auto simp: os_call_eq split: option.splits)

text \<open>The file grows by a page of zeros at its new end.\<close>

lemma db_page_grow:
  assumes "length (d_cur d) < n" "d_cur d' = put_page ps (d_cur d) n (replicate ps 0)" "0 < m"
  shows "db_page ps d' m = db_page ps d m"
proof -
  have "0 < n" using assms(1) by simp
  from db_page_put [OF this assms(3,2)] assms(1) show ?thesis by (simp add: db_page_def)
qed

lemma holds_same_pages:
  assumes h: "holds p v" and p': "pPCache p' = pPCache p" "dbSize p' = dbSize p" "pageSize p' = pageSize p" "dbFileSize p' \<le> dbSize p"
    "length (d_cur (disk p')) \<le> dbFileSize p'" "\<forall>d\<in>set (d_cur (disk p')). length d = pageSize p"
    "\<forall>m>0. db_page (pageSize p) (disk p') m = db_page (pageSize p) (disk p) m"
  shows "holds p' v"
proof (rule holdsI)
  note C = content_okD [OF holdsD(1) [OF h]]
  have look: "PagerLookup p' = PagerLookup p" by (simp add: PagerLookup_def fun_eq_iff p'(1))
  show "content_ok p'"
    by (rule content_okI) (use C p' in \<open>auto simp: look header_ok_def\<close>)
  show "page_holds p' m d" if "v m = Some d" for m d
    using holdsD(2) [OF h that] p' by (cases "PagerLookup p m") (auto simp: page_holds_def page_view_def look)
qed

definition file_same :: "pager \<Rightarrow> pager \<Rightarrow> bool" where
  "file_same p p' \<longleftrightarrow> pPCache p' = pPCache p \<and> dbSize p' = dbSize p \<and> pageSize p' = pageSize p \<and>
     (\<forall>m>0. db_page (pageSize p) (disk p') m = db_page (pageSize p) (disk p) m)"

lemma growth_holds:
  assumes h: "holds p v" and run: "pager_truncate n p = (SQLITE_OK, p')" and n: "n \<le> dbSize p"
    and grow: "length (d_cur (disk p)) \<le> n"
  shows "holds p' v \<and> file_same p p'"
proof (cases "eState p \<ge> PAGER_WRITER_DBMOD \<or> eState p = PAGER_OPEN")
  case False
  then show ?thesis using run h by (simp add: pager_truncate_def whenP_def file_same_def)
next
  case True
  note C = content_okD [OF holdsD(1) [OF h]]
  obtain q where q: "os_ask p = (SQLITE_OK, q)" and r: "(if length (d_cur (disk q)) \<noteq> n then
                andThen (if length (d_cur (disk q)) > n then os_call (DTruncate n) else os_call (DWrite n (replicate (pageSize q) 0)))
                  (upd (\<lambda>p. p\<lparr>dbFileSize := n\<rparr>)) q
              else (SQLITE_OK, q)) = (SQLITE_OK, p')"
    using run True by (auto simp: pager_truncate_def whenP_def andThen_ok Let_def)
  obtain y where q': "q = p\<lparr>os := y\<rparr>" using os_ask_ok [OF q] by blast
  show ?thesis
  proof (cases "length (d_cur (disk p)) = n")
    case True
    then have "p' = q" using r q' by simp
    then show ?thesis using q' holds_kept [OF kept_ask q h] by (simp add: file_same_def)
  next
    case False
    with grow have less: "length (d_cur (disk p)) < n" by simp
    then obtain s where s: "os_call (DWrite n (replicate (pageSize p) 0)) q = (SQLITE_OK, s)" and p': "p' = s\<lparr>dbFileSize := n\<rparr>"
      using r q' by (auto simp: andThen_ok)
    obtain z where s': "s = do_io (DWrite n (replicate (pageSize p) 0)) (q\<lparr>os := z\<rparr>)" using os_call_ok [OF s] by blast
    have cur: "d_cur (disk p') = put_page (pageSize p) (d_cur (disk p)) n (replicate (pageSize p) 0)"
      by (simp add: p' s' q' do_io_def)
    have same: "file_same p p'" using db_page_grow [OF less cur] by (simp add: file_same_def p' s' q' do_io_def)
    have "holds p' v"
    proof (rule holds_same_pages [OF h])
      show "\<forall>d\<in>set (d_cur (disk p')). length d = pageSize p"
        using put_page_lengths [of "d_cur (disk p)" "pageSize p" "replicate (pageSize p) 0" _ n] C(5) cur by auto
      show "length (d_cur (disk p')) \<le> dbFileSize p'" using cur less by (simp add: length_put_page p')
    qed (use same n in \<open>simp_all add: file_same_def p'\<close>)
    then show ?thesis using same by simp
  qed
qed

definition grow_file :: pager_op where
  "grow_file = whenP (\<lambda>p. dbSize p > dbFileSize p) (\<lambda>p. pager_truncate (dbSize p - (if dbSize p = PAGER_SJ_PGNO p then 1 else 0)) p)"

lemma grow_file_holds:
  assumes h: "holds p v" and run: "grow_file p = (SQLITE_OK, p')"
  shows "holds p' v \<and> pPCache p' = pPCache p \<and> dbSize p' = dbSize p"
proof (cases "dbSize p > dbFileSize p")
  case False
  then have "p' = p" using run by (simp add: grow_file_def whenP_def)
  then show ?thesis using h by simp
next
  case True
  let ?n = "dbSize p - (if dbSize p = PAGER_SJ_PGNO p then 1 else 0)"
  have r: "pager_truncate ?n p = (SQLITE_OK, p')" using run True by (simp only: grow_file_def whenP_def if_True)
  have "length (d_cur (disk p)) \<le> ?n" using True content_okD(7) [OF holdsD(1) [OF h]] by auto
  from growth_holds [OF h r _ this] show ?thesis by (simp add: file_same_def)
qed

lemma fetch_settings: "getPageNormal n False p = (SQLITE_OK, p') \<Longrightarrow> sectorSize p' = sectorSize p \<and> pageSize p' = pageSize p"
  using getPageNormal_ok(2) [of n p p'] by (auto simp: page_fetched_def)

lemma changecounter_holds:
  assumes h: "holds p v" and run: "pager_incr_changecounter p = (SQLITE_OK, p')" and sec: "sectorSize p \<le> pageSize p"
  shows "holds p' v \<and> dbSize p' = dbSize p"
proof (cases "\<not> changeCountDone p \<and> dbSize p > 0")
  case False
  then have "p' = p" using run by (auto simp: pager_incr_changecounter_def whenP_def)
  then show ?thesis using h by simp
next
  case True
  then obtain q r where q: "getPageNormal 1 False p = (SQLITE_OK, q)" and r: "PagerWrite 1 q = (SQLITE_OK, r)"
    and p': "p' = (pager_write_changecounter 1 r)\<lparr>changeCountDone := True\<rparr>"
    using run by (auto simp: pager_incr_changecounter_def whenP_def andThen_ok)
  note F = fetch_holds [OF h q]
  have "sectorSize q \<le> pageSize q" using fetch_settings [OF q] sec by simp
  note W = PagerWrite_holds [OF F(1,2) r this]
  obtain k where k: "PagerLookup r 1 = Some k" "pg_writeable k" using PagerWrite_writable [OF F(2) r \<open>sectorSize q \<le> pageSize q\<close>] by (auto simp: writable_def split: option.splits)
  have "pg_dirty k" using content_okD(6) [OF holdsD(1) k(1)] k(2) W by (auto simp: header_ok_def)
  note S = stamp_holds [OF conjunct1 [OF W] k(1) this]
  have c: "content p' = content (pager_write_changecounter 1 r)" by (simp add: p' content_def)
  have "dbSize p' = dbSize r" using S(3) by (simp add: p' dirty_flags_def)
  then show ?thesis using holds_cong [OF c S(1)] W F(4) True by simp
qed

lemma flush_all_holds:
  assumes h: "holds p v" and run: "pager_write_pagelist (PcacheDirtyList (pPCache p)) p = (SQLITE_OK, q)"
  shows "holds (on_cache PcacheCleanAll q) v" "dbSize q = dbSize p"
    "PagerLookup (on_cache PcacheCleanAll q) n = Some k \<Longrightarrow> \<not> pg_dirty k"
proof -
  note C2 = content_okD [OF holdsD(1) [OF h]]
  have dl: "set (PcacheDirtyList (pPCache p)) = {n. \<exists>k. PagerLookup p n = Some k \<and> pg_dirty k}"
    using C2(2) by (auto simp: PcacheDirtyList_def pcacheSortDirtyList_sort pcache_ok_def PagerLookup_def)
  have "holds q v \<and> written ({} \<union> set (PcacheDirtyList (pPCache p))) q \<and> dirty_flags q = dirty_flags p"
    by (rule pagelist_holds [OF h _ _ run]) (use dl in \<open>auto simp: written_def\<close>)
  then have h3: "holds q v" "written (set (pc_dirty (pPCache q))) q" "dbSize q = dbSize p"
    using dl C2(2) by (auto simp: dirty_flags_def PcacheDirtyList_def pcacheSortDirtyList_sort)
  note C3 = content_okD [OF holdsD(1) [OF h3(1)]]
  show "dbSize q = dbSize p" by (rule h3(3))
  show "holds (on_cache PcacheCleanAll q) v"
    by (rule holds_clean [OF h3(1,2)]) (simp_all add: CleanAll_pages CleanAll_ok C3(2))
  show "\<not> pg_dirty k" if k: "PagerLookup (on_cache PcacheCleanAll q) n = Some k"
  proof (cases "n \<in> set (pc_dirty (pPCache q))")
    case True
    then show ?thesis using k by (auto simp: PagerLookup_def on_cache_def CleanAll_pages)
  next
    case False
    then show ?thesis using k C3(2) by (auto simp: PagerLookup_def on_cache_def CleanAll_pages pcache_ok_def)
  qed
qed

lemma phase_one_holds:
  assumes h: "holds p v" and run: "CommitPhaseOne bNoSync p = (SQLITE_OK, p')" and sec: "sectorSize p \<le> pageSize p"
    and e: "eState p \<ge> PAGER_WRITER_CACHEMOD"
  shows "holds p' v \<and> dbSize p' = dbSize p \<and> (\<forall>n k. PagerLookup p' n = Some k \<longrightarrow> \<not> pg_dirty k)"
proof -
  let ?grow = "whenP (\<lambda>p. dbSize p > dbFileSize p) (\<lambda>p. pager_truncate (dbSize p - (if dbSize p = PAGER_SJ_PGNO p then 1 else 0)) p)"
  have "\<not> eState p < PAGER_WRITER_CACHEMOD" using e by simp
  then obtain q1 q2 q3 q4 q5 where r1: "pager_incr_changecounter p = (SQLITE_OK, q1)" and r2: "syncJournal False q1 = (SQLITE_OK, q2)"
    and r3: "pager_write_pagelist (PcacheDirtyList (pPCache q2)) q2 = (SQLITE_OK, q3)"
    and r4: "?grow (on_cache PcacheCleanAll q3) = (SQLITE_OK, q4)" and r5: "whenP (\<lambda>p. \<not> bNoSync) PagerSync q4 = (SQLITE_OK, q5)"
    and p': "p' = q5\<lparr>eState := PAGER_WRITER_FINISHED\<rparr>"
    using run unfolding CommitPhaseOne_def by (auto simp: andThen_ok split: if_splits)
  note H1 = changecounter_holds [OF h r1 sec]
  have h2: "holds q2 v" "content q2 = content q1"
    using holds_kept [OF kept_sync r2] H1 keptD [OF kept_sync r2] by blast+
  let ?q = "on_cache PcacheCleanAll q3"
  note F = flush_all_holds [OF h2(1) r3]
  have hq: "holds ?q v" by (rule F(1))
  have h4: "holds q4 v \<and> pPCache q4 = pPCache ?q \<and> dbSize q4 = dbSize ?q"
    by (rule grow_file_holds [OF hq]) (use r4 in \<open>simp add: grow_file_def\<close>)
  have h5: "holds q5 v \<and> pPCache q5 = pPCache q4 \<and> dbSize q5 = dbSize q4"
  proof (cases bNoSync)
    case True
    then have "q5 = q4" using r5 by (simp add: whenP_def)
    then show ?thesis using h4 by simp
  next
    case False
    then obtain q where q: "os_ask q4 = (SQLITE_OK, q)" "whenP (\<lambda>p. \<not> noSync p) (os_call DSync) q = (SQLITE_OK, q5)"
      using r5 by (auto simp: whenP_def PagerSync_def andThen_ok)
    obtain y where y: "q = q4\<lparr>os := y\<rparr>" using os_ask_ok [OF q(1)] by blast
    have hq: "holds q v" using holds_kept [OF kept_ask q(1)] h4 by blast
    show ?thesis
    proof (cases "noSync q")
      case True
      then have "q5 = q4\<lparr>os := y\<rparr>" using q(2) y by (simp add: whenP_def)
      then show ?thesis using hq y by simp
    next
      case False
      then have "os_call DSync q = (SQLITE_OK, q5)" using q(2) by (simp add: whenP_def)
      then obtain z where z: "q5 = do_io DSync (q\<lparr>os := z\<rparr>)" using os_call_ok by blast
      have "holds q5 v" by (rule holds_cong [OF _ hq]) (simp add: z do_io_def content_def)
      then show ?thesis by (simp add: z y do_io_def)
    qed
  qed
  show ?thesis
    using h5 h4 F(2,3) H1 h2(2) holds_cong [of p' q5] by (auto simp: p' content_def PagerLookup_def on_cache_def)
qed

end
