(* ===== verification/Pager_Flush.thy ===== *)
theory Pager_Flush
  imports Pager_Session Pager_View
begin

text \<open>
  Pages go to the database file: when the cache spills one, and in the first phase of a commit.
  By then the journal that restores them is durable.
\<close>

section \<open>Writing pages out\<close>

lemma write_page_out_runs:
  assumes io: "\<And>p n x y. P p \<Longrightarrow> n \<in> N \<Longrightarrow> S (disk_step (pageSize p) (disk p) (DWrite n x)) \<and> P (do_io (DWrite n x) (p\<lparr>os := y\<rparr>))"
    and sd: "\<And>p x. P p \<Longrightarrow> 1 \<in> N \<Longrightarrow> P (set_data 1 x p)"
    and fv: "\<And>p v. P p \<Longrightarrow> P (p\<lparr>dbFileVers := v\<rparr>)" and fs: "\<And>p k. P p \<Longrightarrow> P (p\<lparr>dbFileSize := k\<rparr>)"
    and n: "n \<in> N"
  shows "runs False S P (write_page_out n) P"
proof (rule runsI)
  fix p rc p'
  assume p: "P p" "\<forall>d\<in>set (past p). S d" and run: "write_page_out n p = (rc, p')"
  define p1 where "p1 = (if n = 1 then pager_write_changecounter n p else p)"
  have P1: "P p1" "past p1 = past p"
    using p(1) sd n by (auto simp: p1_def pager_write_changecounter_def Let_def set_data_def on_cache_def)
  obtain r2 p2 where io2: "os_call (DWrite n (page_data p1 n)) p1 = (r2, p2)" by fastforce
  define p3 where "p3 = (if n = 1 then p2\<lparr>dbFileVers := take 16 (drop 24 (page_data p1 n))\<rparr> else p2)"
  have r: "rc = r2" "p' = (if n > dbFileSize p3 then p3\<lparr>dbFileSize := n\<rparr> else p3)"
    using run unfolding write_page_out_def p1_def [symmetric] Let_def io2 by (auto simp: p3_def)
  have "(\<forall>d\<in>set (past p2). S d) \<and> (r2 = SQLITE_OK \<longrightarrow> P p2)"
    using io [OF P1(1) n, of "page_data p1 n"] io2 P1(2) p(2) by (auto simp: os_call_eq do_io_def split: option.splits)
  then show "(\<forall>d\<in>set (past p'). S d) \<and> (rc = SQLITE_OK \<longrightarrow> P p') \<and> (False \<and> calm p \<longrightarrow> rc = SQLITE_OK \<and> calm p')"
    using r fv fs by (auto simp: p3_def)
qed

lemma pagelist_runs:
  assumes io: "\<And>p n x y. P p \<Longrightarrow> n \<in> N \<Longrightarrow> S (disk_step (pageSize p) (disk p) (DWrite n x)) \<and> P (do_io (DWrite n x) (p\<lparr>os := y\<rparr>))"
    and sd: "\<And>p x. P p \<Longrightarrow> 1 \<in> N \<Longrightarrow> P (set_data 1 x p)"
    and fv: "\<And>p v. P p \<Longrightarrow> P (p\<lparr>dbFileVers := v\<rparr>)" and fs: "\<And>p k. P p \<Longrightarrow> P (p\<lparr>dbFileSize := k\<rparr>)"
  shows "set ns \<subseteq> N \<Longrightarrow> runs False S P (pager_write_pagelist ns) P"
proof (induction ns)
  case Nil
  then show ?case by (intro runs_cong [OF runs_ok]) simp_all
next
  case (Cons n ns)
  then have "n \<in> N" by simp
  note one = write_page_out_runs [of P N S, OF io sd fv fs this]
  have "runs False S P (andThen (whenP (\<lambda>p. n \<le> dbSize p \<and> (case PagerLookup p n of Some h \<Rightarrow> \<not> pg_dont_write h | None \<Rightarrow> False))
         (write_page_out n)) (pager_write_pagelist ns)) P"
    by (rule runs_andThen [OF runs_when [OF runs_pre [OF one]] Cons.IH]) (use Cons.prems in auto)
  then show ?case by (rule runs_cong) simp
qed

lemma db_part_write:
  assumes d: "db_part orig segs d" "segs \<noteq> []" and n: "0 < n" "n \<le> length orig \<longrightarrow> n \<in> seg_pages segs"
  shows "db_part orig segs (disk_step ps d (DWrite n x))"
proof -
  have "db_covered orig segs (disk_step ps d (DWrite n x))"
    using d n by (intro db_covered_write) (auto simp: db_part_def)
  moreover have "q < length (put_page ps (d_cur d) n x) \<and> put_page ps (d_cur d) n x ! q = orig ! q"
    if q: "q < length orig" "Suc q \<notin> seg_pages segs" for q
  proof -
    have old: "q < length (d_cur d)" "d_cur d ! q = orig ! q" using d(1) q by (simp_all add: db_part_def)
    then have len: "q < length (put_page ps (d_cur d) n x)" using n(1) by (simp add: length_put_page less_max_iff_disj)
    have "Suc q \<noteq> n" using q n(2) by auto
    then show ?thesis using old len n(1) by (simp add: put_page_nth)
  qed
  moreover have "put_page ps (d_cur d) n x \<noteq> []"
  proof
    assume "put_page ps (d_cur d) n x = []"
    then show False using length_put_page [OF n(1), of ps "d_cur d" x] n(1) by simp
  qed
  ultimately show ?thesis by (simp add: db_part_def)
qed

lemma between_db_write:
  assumes "between g orig segs d" "segs \<noteq> []" "0 < n" "n \<le> length orig \<longrightarrow> n \<in> seg_pages segs"
  shows "between g orig segs (disk_step ps d (DWrite n x))"
proof -
  have "db_part orig segs (disk_step ps d (DWrite n x))"
    using assms by (intro db_part_write) (simp_all add: between_def)
  then show ?thesis using assms(1) by (simp add: between_def disk_wf_def jouts_def)
qed

lemma in_segment_db_write:
  assumes "in_segment g orig segs s d" "segs \<noteq> []" "0 < n" "n \<le> length orig \<longrightarrow> n \<in> seg_pages segs"
  shows "in_segment g orig segs s (disk_step ps d (DWrite n x))"
  using assms between_db_write [of g orig segs d n ps x] by (auto simp: in_segment_def)

section \<open>Spilling a page\<close>

lemma synced_cache_ok:
  assumes c: "cache_ok g orig segs J c" and J: "J = seg_pages segs'" "segs' \<noteq> []"
  shows "cache_ok g orig segs' J (PcacheClearSyncFlags c)"
proof (rule cache_okI)
  note C = cache_okD [OF c]
  show "pcache_ok (PcacheClearSyncFlags c)" by (rule ClearSyncFlags_ok [OF C(1)])
  show "page_ok g orig segs' J m h" if m: "pc_pages (PcacheClearSyncFlags c) m = Some h" for m h
  proof -
    obtain h0 where h0: "pc_pages c m = Some h0" "pg_data h = pg_data h0" "pg_dirty h = pg_dirty h0" "pg_writeable h = pg_writeable h0"
      using m by (auto simp: ClearSyncFlags_pages split: if_splits)
    show ?thesis using C(2) [OF h0(1)] h0 J by (auto simp: page_ok_def)
  qed
  show "\<exists>h. pc_pages (PcacheClearSyncFlags c) m = Some h \<and> pg_dirty h \<and> pg_need_sync h" if "m \<in> J" "m \<notin> seg_pages segs'" for m
    using that J by simp
qed

lemma clean_cache_ok:
  assumes c: "cache_ok g orig segs J c" and n: "n \<in> J \<longrightarrow> n \<in> seg_pages segs"
  shows "cache_ok g orig segs J (PcacheMakeClean n c)"
proof (rule cache_okI)
  note C = cache_okD [OF c]
  show "pcache_ok (PcacheMakeClean n c)" by (rule MakeClean_ok [OF C(1)])
  show "page_ok g orig segs J m h" if m: "pc_pages (PcacheMakeClean n c) m = Some h" for m h
    using m C(2) [of m] by (cases "m = n") (auto simp: MakeClean_pages page_ok_def)
  show "\<exists>h. pc_pages (PcacheMakeClean n c) m = Some h \<and> pg_dirty h \<and> pg_need_sync h" if m: "m \<in> J" "m \<notin> seg_pages segs" for m
    using C(3) [OF m] m n by (cases "m = n") (auto simp: MakeClean_pages)
qed

text \<open>A page that may be written out: the journal with its old content is durable.\<close>

definition may_flush :: "jgeom \<Rightarrow> u8 list list \<Rightarrow> jseg list \<Rightarrow> nat \<Rightarrow> bool" where
  "may_flush g orig segs n \<longleftrightarrow> segs \<noteq> [] \<and> 0 < n \<and> (n \<le> length orig \<longrightarrow> n \<in> seg_pages segs)"

definition flushing :: "jgeom \<Rightarrow> u8 list list \<Rightarrow> nat \<Rightarrow> pager \<Rightarrow> bool" where
  "flushing g orig n p \<longleftrightarrow> length orig \<le> dbSize p \<and> (\<exists>segs rs b. writing g orig segs rs b p \<and> may_flush g orig segs n)"

lemma flushing_out:
  "runs False (safe_disk g orig) (flushing g orig n) (pager_write_pagelist [n]) (flushing g orig n)"
proof (rule pagelist_runs [where N = "{n}"])
  fix p m x y
  assume f: "flushing g orig n p" and m: "m \<in> {n}"
  obtain segs rs b where w: "length orig \<le> dbSize p" "writing g orig segs rs b p" "may_flush g orig segs n"
    using f by (auto simp: flushing_def)
  let ?d = "disk_step (pageSize p) (disk p) (DWrite m x)"
  have "in_segment g orig segs (cksumInit p, rs) ?d"
    by (rule in_segment_db_write [OF writing_disk(1) [OF w(2)]]) (use w(3) m in \<open>auto simp: may_flush_def\<close>)
  moreover from this have "safe_disk g orig ?d" unfolding in_segment_def by (blast intro: safe_between)
  moreover have "writing g orig segs rs b (do_io (DWrite m x) (p\<lparr>os := y\<rparr>))"
    using w(2) calculation(1) unfolding writing_def segment_open_def plain_settings_def by (clarsimp simp: do_io_def)
  moreover have "dbSize (do_io (DWrite m x) (p\<lparr>os := y\<rparr>)) = dbSize p" by (simp add: do_io_def)
  ultimately show "safe_disk g orig ?d \<and> flushing g orig n (do_io (DWrite m x) (p\<lparr>os := y\<rparr>))"
    using w(1,3) unfolding flushing_def by auto
next
  fix p x
  assume f: "flushing g orig n p" and m: "1 \<in> {n}"
  obtain segs rs b where w: "length orig \<le> dbSize p" "writing g orig segs rs b p" "may_flush g orig segs n"
    using f by (auto simp: flushing_def)
  have "1 \<le> length orig \<longrightarrow> 1 \<in> bv.pages b" using w(3) m writing_disk(6) [OF w(2)] by (auto simp: may_flush_def)
  from edit_ok [OF writingD(7) [OF w(2)] this, of "\<lambda>h. h\<lparr>pg_data := x\<rparr>"]
  have "cache_ok g orig segs (bv.pages b) (on_page 1 (\<lambda>h. h\<lparr>pg_data := x\<rparr>) (pPCache p))" by simp
  then have "writing g orig segs rs b (set_data 1 x p)"
    using w(2) unfolding writing_def segment_open_def plain_settings_def by (clarsimp simp: set_data_def on_cache_def)
  then show "flushing g orig n (set_data 1 x p)" using w(1,3) by (auto simp: flushing_def set_data_def on_cache_def)
qed (auto simp: flushing_def writing_def segment_open_def plain_settings_def)

lemma journaled_range: "writing g orig segs rs b p \<Longrightarrow> n \<in> bv.pages b \<Longrightarrow> n \<le> length orig"
  using writingD(5) [of g orig segs rs b p] writing_disk(1,4) [of g orig segs rs b p]
  by (auto simp: in_segment_def segs_good_def seg_pages_def)

definition has_dirty :: "nat \<Rightarrow> pager \<Rightarrow> bool" where
  "has_dirty n p \<longleftrightarrow> (\<exists>h. PagerLookup p n = Some h \<and> pg_dirty h)"

lemma dirty_may_flush:
  assumes w: "writing g orig segs rs b p" and d: "has_dirty n p"
  shows "may_flush g orig (segs @ [(cksumInit p, rs)]) n" "\<not> page_need_sync p n \<Longrightarrow> may_flush g orig segs n"
proof -
  obtain h where h: "pc_pages (pPCache p) n = Some h" "pg_dirty h" using d by (auto simp: has_dirty_def PagerLookup_def)
  note P = cache_okD(2) [OF writingD(7) [OF w] h(1)]
  show "may_flush g orig (segs @ [(cksumInit p, rs)]) n"
    using P h(2) writingD(5) [OF w] by (auto simp: may_flush_def page_ok_def seg_pages_append)
  show "may_flush g orig segs n" if "\<not> page_need_sync p n"
    using P h that by (auto simp: may_flush_def page_ok_def page_need_sync_def PagerLookup_def)
qed

lemma sync_new_segment:
  assumes g: "geom_ok g orig"
  shows "runs False (safe_disk g orig) (\<lambda>p. is_writing g orig p \<and> has_dirty n p) (syncJournal True) (flushing g orig n)"
proof (rule runs_fix)
  fix p0
  assume p0: "is_writing g orig p0 \<and> has_dirty n p0"
  then obtain segs rs b where w: "length orig \<le> dbSize p0" "writing g orig segs rs b p0" by (auto simp: is_writing_def)
  let ?segs = "segs @ [(cksumInit p0, rs)]"
  show "runs False (safe_disk g orig) (\<lambda>p. p = p0) (syncJournal True) (flushing g orig n)"
  proof (rule runs_post [OF syncJournal_runs [OF g writingD(1) [OF w(2)]]], elim exE conjE)
    fix p p1
    assume j: "journal_synced g orig True ?segs p0 p1" and p: "p = (on_cache PcacheClearSyncFlags p1)\<lparr>eState := PAGER_WRITER_DBMOD\<rparr>"
    let ?q = "p0\<lparr>journalHdr := journalOff p0, nRec := 0\<rparr>"
    obtain p2 where p2: "frame ?q (between g orig ?segs) p2" "header_written g orig ?segs p2 p1"
      using j by (auto simp: journal_synced_def)
    then obtain d x y where q: "p2 = ?q\<lparr>os := y, disk := d, past := x\<rparr>" unfolding frame_def by blast
    note W = writingD [OF w(2)]
    have "plain_settings g orig p2" "jfd_open p2" "nRec p2 = 0"
      using W(1,10) by (simp_all add: q plain_settings_def segment_open_def)
    note N = segment_open_new [OF p2(2) this]
    have J: "bv.pages b = seg_pages ?segs" using W(5) by (simp add: seg_pages_append)
    have "cache_ok g orig ?segs (bv.pages b) (PcacheClearSyncFlags (pPCache p0))"
      by (rule synced_cache_ok [OF W(7) J]) simp
    then have "writing g orig ?segs [] b p"
      using N W J by (clarsimp simp: writing_def segment_open_def plain_settings_def p q on_cache_def)
    moreover have "dbSize p = dbSize p0" using N by (simp add: p q on_cache_def)
    ultimately show "flushing g orig n p"
      using w(1) dirty_may_flush(1) [OF w(2)] p0 by (auto simp: flushing_def)
  qed
qed

lemma pagerStress_runs:
  assumes g: "geom_ok g orig"
  shows "runs False (safe_disk g orig) (\<lambda>p. is_writing g orig p \<and> has_dirty n p) (pagerStress n) (is_writing g orig)"
proof (rule runsI)
  let ?S = "safe_disk g orig" and ?P = "\<lambda>p. is_writing g orig p \<and> has_dirty n p"
  fix p rc p'
  assume p: "?P p" "\<forall>d\<in>set (past p). ?S d" and run: "pagerStress n p = (rc, p')"
  let ?f = "andThen (whenP (\<lambda>p. page_need_sync p n \<or> eState p = PAGER_WRITER_CACHEMOD) (syncJournal True))
         (andThen (pager_write_pagelist [n]) (upd (on_cache (PcacheMakeClean n))))"
  have sync: "runs False ?S ?P (whenP (\<lambda>p. page_need_sync p n \<or> eState p = PAGER_WRITER_CACHEMOD) (syncJournal True)) (flushing g orig n)"
  proof (rule runs_when)
    fix q
    assume q: "?P q" and ns: "\<not> (page_need_sync q n \<or> eState q = PAGER_WRITER_CACHEMOD)"
    then obtain segs rs b where w: "length orig \<le> dbSize q" "writing g orig segs rs b q" by (auto simp: is_writing_def)
    with q ns dirty_may_flush(2) [OF w(2)] show "flushing g orig n q" by (auto simp: flushing_def)
  qed (rule runs_pre [OF sync_new_segment [OF g]], simp)
  have clean: "runs False ?S (flushing g orig n) (upd (on_cache (PcacheMakeClean n))) (is_writing g orig)"
  proof (rule runs_upd)
    fix q
    assume "flushing g orig n q"
    then obtain segs rs b where w: "length orig \<le> dbSize q" "writing g orig segs rs b q" "may_flush g orig segs n"
      by (auto simp: flushing_def)
    have good: "n \<in> bv.pages b \<longrightarrow> n \<in> seg_pages segs"
      using w(3) journaled_range [OF w(2)] by (auto simp: may_flush_def)
    have "writing g orig segs rs b (on_cache (PcacheMakeClean n) q)"
      using w(2) clean_cache_ok [OF writingD(7) [OF w(2)] good]
      by (clarsimp simp: writing_def segment_open_def plain_settings_def on_cache_def)
    then show "past (on_cache (PcacheMakeClean n) q) = past q \<and> os (on_cache (PcacheMakeClean n) q) = os q \<and>
        mem (on_cache (PcacheMakeClean n) q) = mem q \<and> is_writing g orig (on_cache (PcacheMakeClean n) q)"
      using w(1) by (auto simp: is_writing_def on_cache_def)
  qed
  have all: "runs False ?S ?P ?f (is_writing g orig)"
    by (rule runs_andThen [OF sync runs_andThen [OF flushing_out clean]])
  obtain r1 p1 where f: "?f p = (r1, p1)" by fastforce
  note F = runsD [OF all p f]
  show "(\<forall>d\<in>set (past p'). ?S d) \<and> (rc = SQLITE_OK \<longrightarrow> is_writing g orig p') \<and> (False \<and> calm p \<longrightarrow> rc = SQLITE_OK \<and> calm p')"
    using run F p f by (auto simp: pagerStress_def pager_error_def Let_def split: if_splits)
qed

section \<open>The first phase of a commit\<close>

lemma runs_conj:
  "runs E S P f Q \<Longrightarrow> (\<And>p p'. P p \<Longrightarrow> f p = (SQLITE_OK, p') \<Longrightarrow> R p') \<Longrightarrow> runs E S P f (\<lambda>p. Q p \<and> R p)"
  unfolding runs_def by (metis prod.collapse)

text \<open>The transaction with its content, in the memory of the pager and on the disk.\<close>

definition txn :: "jgeom \<Rightarrow> u8 list list \<Rightarrow> db_view \<Rightarrow> pager \<Rightarrow> bool" where
  "txn g orig v p \<longleftrightarrow> is_writing g orig p \<and> holds p v"

lemma is_writing_sector: "is_writing g orig p \<Longrightarrow> sectorSize p \<le> pageSize p"
  by (auto simp: is_writing_def dest!: writingD(10) simp: plain_settings_def)

lemma is_writing_state: "is_writing g orig p \<Longrightarrow> eState p \<ge> PAGER_WRITER_CACHEMOD"
  by (auto simp: is_writing_def estate_order dest!: writingD(8) split: if_splits)

lemma set_data_writing:
  assumes w: "is_writing g orig p" and n: "writable n p \<or> has_dirty n p"
  shows "is_writing g orig (set_data n d p)"
proof -
  obtain segs rs b where W: "length orig \<le> dbSize p" "writing g orig segs rs b p" using w by (auto simp: is_writing_def)
  obtain k where k: "pc_pages (pPCache p) n = Some k" "pg_writeable k \<or> pg_dirty k"
    using n by (auto simp: writable_def has_dirty_def PagerLookup_def split: option.splits)
  have "n \<le> length orig \<longrightarrow> n \<in> bv.pages b"
    using cache_okD(2) [OF writingD(7) [OF W(2)] k(1)] k(2) by (auto simp: page_ok_def)
  from edit_ok [OF writingD(7) [OF W(2)] this, of "\<lambda>h. h\<lparr>pg_data := d\<rparr>"]
  have "cache_ok g orig segs (bv.pages b) (on_page n (\<lambda>h. h\<lparr>pg_data := d\<rparr>) (pPCache p))" by simp
  then have "writing g orig segs rs b (set_data n d p)"
    using W(2) unfolding writing_def segment_open_def plain_settings_def by (clarsimp simp: set_data_def on_cache_def)
  then show ?thesis using W(1) by (auto simp: is_writing_def set_data_def on_cache_def)
qed

lemma changecounter_runs:
  assumes g: "geom_ok g orig"
  shows "runs False (safe_disk g orig) (txn g orig v) pager_incr_changecounter (txn g orig v)"
proof -
  let ?S = "safe_disk g orig"
  have get: "runs False ?S (is_writing g orig) (getPageNormal 1 False) (\<lambda>p. can_write g orig p \<and> is_writing g orig p \<and> PagerLookup p 1 \<noteq> None)"
    by (rule runs_post [OF get_runs_writing]) (auto simp: can_write_def)
  have wr: "runs False ?S (\<lambda>p. can_write g orig p \<and> is_writing g orig p \<and> PagerLookup p 1 \<noteq> None) (PagerWrite 1)
      (\<lambda>p. is_writing g orig p \<and> writable 1 p)"
  proof (rule runs_conj)
    show "runs False ?S (\<lambda>p. can_write g orig p \<and> is_writing g orig p \<and> PagerLookup p 1 \<noteq> None) (PagerWrite 1) (is_writing g orig)"
      by (rule runs_pre [OF PagerWrite_runs [OF g]]) auto
    show "writable 1 p'" if "can_write g orig p \<and> is_writing g orig p \<and> PagerLookup p 1 \<noteq> None" "PagerWrite 1 p = (SQLITE_OK, p')" for p p'
      using PagerWrite_writable [OF _ that(2)] is_writing_sector that(1) by blast
  qed
  have st: "runs False ?S (\<lambda>p. is_writing g orig p \<and> writable 1 p)
      (upd (\<lambda>p. (pager_write_changecounter 1 p)\<lparr>changeCountDone := True\<rparr>)) (is_writing g orig)"
  proof (rule runs_upd)
    fix p
    assume p: "is_writing g orig p \<and> writable 1 p"
    let ?q = "pager_write_changecounter 1 p"
    have "is_writing g orig ?q" using p set_data_writing unfolding changecounter_stamped by blast
    then have "is_writing g orig (?q\<lparr>changeCountDone := True\<rparr>)"
      by (fastforce simp: is_writing_def writing_def segment_open_def plain_settings_def)
    then show "past (?q\<lparr>changeCountDone := True\<rparr>) = past p \<and> os (?q\<lparr>changeCountDone := True\<rparr>) = os p \<and>
      mem (?q\<lparr>changeCountDone := True\<rparr>) = mem p \<and> is_writing g orig (?q\<lparr>changeCountDone := True\<rparr>)"
      by (simp add: changecounter_stamped set_data_def on_cache_def)
  qed
  have all: "runs False ?S (is_writing g orig) pager_incr_changecounter (is_writing g orig)"
    unfolding pager_incr_changecounter_def
    by (rule runs_when [OF runs_pre [OF runs_andThen [OF get runs_andThen [OF wr st]]]]) simp_all
  have "runs False ?S (txn g orig v) pager_incr_changecounter (\<lambda>p. is_writing g orig p \<and> holds p v)"
  proof (rule runs_conj)
    show "runs False ?S (txn g orig v) pager_incr_changecounter (is_writing g orig)"
      by (rule runs_pre [OF all]) (simp add: txn_def)
    show "holds p' v" if "txn g orig v p" "pager_incr_changecounter p = (SQLITE_OK, p')" for p p'
      using changecounter_holds [OF _ that(2)] that(1) is_writing_sector by (auto simp: txn_def)
  qed
  then show ?thesis by (simp add: txn_def [abs_def])
qed

text \<open>The journal is complete and durable.\<close>

definition journaled :: "jgeom \<Rightarrow> u8 list list \<Rightarrow> jseg list \<Rightarrow> pager \<Rightarrow> bool" where
  "journaled g orig segs p \<longleftrightarrow>
     segs \<noteq> [] \<and> between g orig segs (disk p) \<and> plain_settings g orig p \<and> jfd_open p \<and> length orig \<le> dbSize p \<and>
     journalOff p \<noteq> 0"

lemma sync_last_runs:
  assumes g: "geom_ok g orig"
  shows "runs False (safe_disk g orig) (txn g orig v) (syncJournal False)
    (\<lambda>p. (\<exists>segs. journaled g orig segs p \<and> (\<forall>n. has_dirty n p \<longrightarrow> may_flush g orig segs n)) \<and> holds p v)"
proof (rule runs_conj)
  show "holds p' v" if "txn g orig v p" "syncJournal False p = (SQLITE_OK, p')" for p p'
    using holds_kept [OF kept_sync that(2)] that(1) by (simp add: txn_def)
  show "runs False (safe_disk g orig) (txn g orig v) (syncJournal False)
    (\<lambda>p. \<exists>segs. journaled g orig segs p \<and> (\<forall>n. has_dirty n p \<longrightarrow> may_flush g orig segs n))"
  proof (rule runs_fix)
    fix p0
    assume "txn g orig v p0"
    then obtain segs rs b where w: "length orig \<le> dbSize p0" "writing g orig segs rs b p0" by (auto simp: txn_def is_writing_def)
    let ?segs = "segs @ [(cksumInit p0, rs)]"
    show "runs False (safe_disk g orig) (\<lambda>p. p = p0) (syncJournal False)
      (\<lambda>p. \<exists>segs. journaled g orig segs p \<and> (\<forall>n. has_dirty n p \<longrightarrow> may_flush g orig segs n))"
    proof (rule runs_post [OF syncJournal_runs [OF g writingD(1) [OF w(2)]]], elim exE conjE)
      fix p p1
      assume j: "journal_synced g orig False ?segs p0 p1" and p: "p = (on_cache PcacheClearSyncFlags p1)\<lparr>eState := PAGER_WRITER_DBMOD\<rparr>"
      then obtain d x y where p1: "p1 = p0\<lparr>journalHdr := journalOff p0\<rparr>\<lparr>os := y, disk := d, past := x\<rparr>" and d: "between g orig ?segs d"
        unfolding journal_synced_def Let_def frame_def by auto
      note W = writingD [OF w(2)]
      have "0 < jg_ss g" using geom_okD(3) [OF g] by simp
      then have "journalOff p0 \<noteq> 0" using W(1) seg_end_gt [of "segs_end g 0 segs" g "(cksumInit p0, rs)"] by (simp add: segment_open_def)
      then have "journaled g orig ?segs p"
        using W(1,10) w(1) d by (simp add: journaled_def p p1 on_cache_def plain_settings_def segment_open_def)
      moreover have "may_flush g orig ?segs n" if n: "has_dirty n p" for n
      proof -
        have "has_dirty n p0" using n by (auto simp: has_dirty_def p p1 PagerLookup_def on_cache_def ClearSyncFlags_pages split: if_splits)
        then show ?thesis by (rule dirty_may_flush(1) [OF w(2)])
      qed
      ultimately show "\<exists>segs. journaled g orig segs p \<and> (\<forall>n. has_dirty n p \<longrightarrow> may_flush g orig segs n)" by blast
    qed
  qed
qed

lemma between_db_sync:
  assumes "between g orig segs d" "segs \<noteq> []"
  shows "between g orig segs (disk_step ps d DSync)"
proof -
  have "db_part orig segs (disk_step ps d DSync)"
    using assms by (auto simp: between_def db_part_def db_covered_def)
  then show ?thesis using assms(1) by (simp add: between_def disk_wf_def jouts_def)
qed

lemma journaled_write:
  assumes j: "journaled g orig segs p" and n: "may_flush g orig segs n"
  shows "safe_disk g orig (disk_step (pageSize p) (disk p) (DWrite n x)) \<and> journaled g orig segs (do_io (DWrite n x) (p\<lparr>os := y\<rparr>))"
proof -
  have b: "between g orig segs (disk_step (pageSize p) (disk p) (DWrite n x))"
    using j n by (intro between_db_write) (simp_all add: journaled_def may_flush_def)
  moreover have "journaled g orig segs (do_io (DWrite n x) (p\<lparr>os := y\<rparr>))"
    using j b by (simp add: journaled_def plain_settings_def do_io_def)
  ultimately show ?thesis by (blast intro: safe_between)
qed

lemma flush_all_runs:
  "runs False (safe_disk g orig) (\<lambda>p. (journaled g orig segs p \<and> (\<forall>n. has_dirty n p \<longrightarrow> may_flush g orig segs n)) \<and> holds p v)
     (andThen (\<lambda>p. pager_write_pagelist (PcacheDirtyList (pPCache p)) p) (upd (on_cache PcacheCleanAll)))
     (\<lambda>p. journaled g orig segs p \<and> holds p v)"
proof (rule runs_conj)
  let ?P = "\<lambda>p. (journaled g orig segs p \<and> (\<forall>n. has_dirty n p \<longrightarrow> may_flush g orig segs n)) \<and> holds p v"
  have list: "runs False (safe_disk g orig) ?P (\<lambda>p. pager_write_pagelist (PcacheDirtyList (pPCache p)) p) (journaled g orig segs)"
  proof (rule runs_fix)
    fix p0
    assume p0: "?P p0"
    have sub: "set (PcacheDirtyList (pPCache p0)) \<subseteq> {n. may_flush g orig segs n}"
      using p0 content_okD(2) [OF holdsD(1)]
      by (auto simp: PcacheDirtyList_def pcacheSortDirtyList_sort has_dirty_def PagerLookup_def pcache_ok_def)
    have "runs False (safe_disk g orig) (journaled g orig segs) (pager_write_pagelist (PcacheDirtyList (pPCache p0))) (journaled g orig segs)"
      by (rule pagelist_runs [OF _ _ _ _ sub])
        (use journaled_write in \<open>auto simp: journaled_def plain_settings_def set_data_def on_cache_def\<close>)
    then show "runs False (safe_disk g orig) (\<lambda>p. p = p0) (\<lambda>p. pager_write_pagelist (PcacheDirtyList (pPCache p)) p) (journaled g orig segs)"
      by (rule runs_cong [OF runs_pre]) (use p0 in simp_all)
  qed
  have clean: "runs False (safe_disk g orig) (journaled g orig segs) (upd (on_cache PcacheCleanAll)) (journaled g orig segs)"
    by (rule runs_upd) (simp add: journaled_def plain_settings_def on_cache_def)
  show "runs False (safe_disk g orig) ?P
     (andThen (\<lambda>p. pager_write_pagelist (PcacheDirtyList (pPCache p)) p) (upd (on_cache PcacheCleanAll))) (journaled g orig segs)"
    by (rule runs_andThen [OF list clean])
  show "holds p' v" if "?P p" "andThen (\<lambda>p. pager_write_pagelist (PcacheDirtyList (pPCache p)) p) (upd (on_cache PcacheCleanAll)) p = (SQLITE_OK, p')" for p p'
    using that flush_all_holds(1) by (auto simp: andThen_ok)
qed

lemma grow_file_runs:
  assumes g: "geom_ok g orig"
  shows "runs False (safe_disk g orig) (\<lambda>p. journaled g orig segs p \<and> holds p v) grow_file (\<lambda>p. journaled g orig segs p \<and> holds p v)"
proof (rule runs_conj)
  let ?S = "safe_disk g orig" and ?n = "\<lambda>p. dbSize p - (if dbSize p = PAGER_SJ_PGNO p then 1 else 0)"
  let ?P = "\<lambda>p. journaled g orig segs p \<and> holds p v"
  have size: "length (d_cur (disk p)) \<le> ?n p" if "?P p" "dbSize p > dbFileSize p" for p
    using content_okD(7) [OF holdsD(1)] that by fastforce
  show "runs False ?S ?P grow_file (journaled g orig segs)"
    unfolding grow_file_def
  proof (rule runs_when, rule runs_fix)
    fix p0
    assume p0: "?P p0 \<and> dbSize p0 > dbFileSize p0"
    let ?f = "\<lambda>p. let currentSize = length (d_cur (disk p)) in
              if currentSize \<noteq> ?n p0 then
                andThen (if currentSize > ?n p0 then os_call (DTruncate (?n p0))
                         else os_call (DWrite (?n p0) (replicate (pageSize p) 0)))
                  (upd (\<lambda>p. p\<lparr>dbFileSize := ?n p0\<rparr>)) p
              else (SQLITE_OK, p)"
    let ?Q = "\<lambda>p. journaled g orig segs p \<and> length (d_cur (disk p)) \<le> ?n p0 \<and> dbSize p = dbSize p0"
    have ask: "runs False ?S (\<lambda>p. p = p0) os_ask ?Q"
      by (rule runs_ask) (use p0 size in \<open>auto simp: journaled_def plain_settings_def\<close>)
    have grow: "runs False ?S ?Q ?f (journaled g orig segs)"
    proof (rule runs_fix)
      fix p1
      assume p1: "?Q p1"
      show "runs False ?S (\<lambda>p. p = p1) ?f (journaled g orig segs)"
      proof (cases "length (d_cur (disk p1)) = ?n p0")
        case True
        have "runs False ?S (\<lambda>p. p = p1) (\<lambda>p. (SQLITE_OK, p)) (journaled g orig segs)" by (rule runs_ok) (use p1 in simp)
        then show ?thesis by (rule runs_cong) (simp add: True)
      next
        case False
        then have less: "length (d_cur (disk p1)) < ?n p0" using p1 by linarith
        have n: "may_flush g orig segs (?n p0)"
        proof (rule ccontr)
          assume "\<not> may_flush g orig segs (?n p0)"
          moreover have pos: "0 < ?n p0" using less by linarith
          ultimately have "?n p0 \<le> length orig" "?n p0 \<notin> seg_pages segs" using p1 by (simp_all add: may_flush_def journaled_def)
          then have out: "?n p0 - 1 < length orig" "Suc (?n p0 - 1) \<notin> seg_pages segs" using pos by (linarith, metis Suc_diff_1)
          have "db_part orig segs (disk p1)" using p1 by (simp add: journaled_def between_def)
          then have "?n p0 - 1 < length (d_cur (disk p1))" using out unfolding db_part_def by blast
          then show False using less by linarith
        qed
        have io: "runs False ?S (\<lambda>p. p = p1) (os_call (DWrite (?n p0) (replicate (pageSize p1) 0))) (journaled g orig segs)"
          by (rule runs_io) (use journaled_write [OF _ n] p1 in auto)
        have up: "runs False ?S (journaled g orig segs) (upd (\<lambda>p. p\<lparr>dbFileSize := ?n p0\<rparr>)) (journaled g orig segs)"
          by (rule runs_upd) (simp add: journaled_def plain_settings_def)
        show ?thesis by (rule runs_cong [OF runs_andThen [OF io up]]) (use less in simp)
      qed
    qed
    have "runs False ?S (\<lambda>p. p = p0) (pager_truncate (?n p0)) (journaled g orig segs)"
      unfolding pager_truncate_def
      by (rule runs_when [OF runs_pre [OF runs_andThen [OF ask grow]]]) (use p0 in simp_all)
    then show "runs False ?S (\<lambda>p. p = p0) (\<lambda>p. pager_truncate (?n p) p) (journaled g orig segs)"
      by (rule runs_cong) simp
  qed simp
  show "holds p' v" if "?P p" "grow_file p = (SQLITE_OK, p')" for p p'
    using grow_file_holds that by blast
qed

text \<open>All is written and durable; only the journal still stands between the two contents.\<close>

definition finished :: "jgeom \<Rightarrow> u8 list list \<Rightarrow> db_view \<Rightarrow> pager \<Rightarrow> bool" where
  "finished g orig v p \<longleftrightarrow>
     (\<exists>segs. journaled g orig segs p) \<and> holds p v \<and> d_touched (disk p) = {} \<and> d_dur (disk p) = d_cur (disk p) \<and>
     d_low (disk p) = length (d_cur (disk p)) \<and> eState p = PAGER_WRITER_FINISHED"

lemma sync_db_file_runs:
  "runs False (safe_disk g orig) (\<lambda>p. journaled g orig segs p \<and> holds p v)
     (andThen PagerSync (upd (\<lambda>p. p\<lparr>eState := PAGER_WRITER_FINISHED\<rparr>))) (finished g orig v)"
proof (rule runs_andThen)
  let ?S = "safe_disk g orig" and ?P = "\<lambda>p. journaled g orig segs p \<and> holds p v"
  let ?Q = "\<lambda>p. ?P p \<and> d_touched (disk p) = {} \<and> d_dur (disk p) = d_cur (disk p) \<and> d_low (disk p) = length (d_cur (disk p))"
  have ask: "runs False ?S ?P os_ask ?P"
  proof (rule runs_ask)
    fix p y
    assume p: "?P p"
    have "holds (p\<lparr>os := y\<rparr>) v" by (rule holds_cong [OF _ conjunct2 [OF p]]) (simp add: content_def)
    then show "?P (p\<lparr>os := y\<rparr>)" using p by (simp add: journaled_def plain_settings_def)
  qed
  have sync: "runs False ?S (\<lambda>p. ?P p \<and> \<not> noSync p) (os_call DSync) ?Q"
  proof (rule runs_io)
    fix p y
    assume p: "?P p \<and> \<not> noSync p"
    have b: "between g orig segs (disk_step (pageSize p) (disk p) DSync)"
      by (rule between_db_sync) (use p in \<open>simp_all add: journaled_def\<close>)
    then show "?S (disk_step (pageSize p) (disk p) DSync)" by (rule safe_between)
    have "holds (do_io DSync (p\<lparr>os := y\<rparr>)) v"
      by (rule holds_cong [OF _ conjunct2 [OF conjunct1 [OF p]]]) (simp add: content_def do_io_def)
    then show "?Q (do_io DSync (p\<lparr>os := y\<rparr>))"
      using p b by (simp add: journaled_def plain_settings_def do_io_def)
  qed
  have nosync: "\<not> noSync p" if "?P p" for p using that by (simp add: journaled_def plain_settings_def)
  show "runs False ?S ?P PagerSync ?Q"
    unfolding PagerSync_def by (rule runs_andThen [OF ask runs_when [OF sync]]) (use nosync in blast)
  show "runs False ?S ?Q (upd (\<lambda>p. p\<lparr>eState := PAGER_WRITER_FINISHED\<rparr>)) (finished g orig v)"
  proof (rule runs_upd)
    fix p
    assume p: "?Q p"
    have "holds (p\<lparr>eState := PAGER_WRITER_FINISHED\<rparr>) v"
      by (rule holds_cong [OF _ conjunct2 [OF conjunct1 [OF p]]]) (simp add: content_def)
    then show "past (p\<lparr>eState := PAGER_WRITER_FINISHED\<rparr>) = past p \<and> os (p\<lparr>eState := PAGER_WRITER_FINISHED\<rparr>) = os p \<and>
      mem (p\<lparr>eState := PAGER_WRITER_FINISHED\<rparr>) = mem p \<and> finished g orig v (p\<lparr>eState := PAGER_WRITER_FINISHED\<rparr>)"
      using p by (auto simp: finished_def journaled_def plain_settings_def)
  qed
qed

lemma CommitPhaseOne_runs:
  assumes g: "geom_ok g orig"
  shows "runs False (safe_disk g orig) (txn g orig v) (CommitPhaseOne False) (finished g orig v)"
proof (rule runsI)
  let ?S = "safe_disk g orig"
  let ?grow = "\<lambda>p. pager_truncate (dbSize p - (if dbSize p = PAGER_SJ_PGNO p then 1 else 0)) p"
  let ?f = "andThen pager_incr_changecounter (andThen (syncJournal False)
       (andThen (\<lambda>p. pager_write_pagelist (PcacheDirtyList (pPCache p)) p) (andThen (upd (on_cache PcacheCleanAll))
       (andThen (whenP (\<lambda>p. dbSize p > dbFileSize p) ?grow)
       (andThen (whenP (\<lambda>p. \<not> False) PagerSync) (upd (\<lambda>p. p\<lparr>eState := PAGER_WRITER_FINISHED\<rparr>)))))))"
  have assoc: "andThen a (andThen b c) = andThen (andThen a b) c" for a b c :: pager_op
    by (rule ext) (auto simp: andThen_def split: prod.split)
  have always: "whenP (\<lambda>p. True) f = f" for f by (rule ext) (simp add: whenP_def)
  have rest: "runs False ?S (\<lambda>p. (\<exists>segs. journaled g orig segs p \<and> (\<forall>n. has_dirty n p \<longrightarrow> may_flush g orig segs n)) \<and> holds p v)
     (andThen (\<lambda>p. pager_write_pagelist (PcacheDirtyList (pPCache p)) p) (andThen (upd (on_cache PcacheCleanAll))
       (andThen grow_file (andThen PagerSync (upd (\<lambda>p. p\<lparr>eState := PAGER_WRITER_FINISHED\<rparr>)))))) (finished g orig v)"
  proof (rule runs_fix)
    fix p0
    assume "(\<exists>segs. journaled g orig segs p0 \<and> (\<forall>n. has_dirty n p0 \<longrightarrow> may_flush g orig segs n)) \<and> holds p0 v"
    then obtain segs where j: "(journaled g orig segs p0 \<and> (\<forall>n. has_dirty n p0 \<longrightarrow> may_flush g orig segs n)) \<and> holds p0 v" by blast
    show "runs False ?S (\<lambda>p. p = p0)
     (andThen (\<lambda>p. pager_write_pagelist (PcacheDirtyList (pPCache p)) p) (andThen (upd (on_cache PcacheCleanAll))
       (andThen grow_file (andThen PagerSync (upd (\<lambda>p. p\<lparr>eState := PAGER_WRITER_FINISHED\<rparr>)))))) (finished g orig v)"
      unfolding assoc [of "\<lambda>p. pager_write_pagelist (PcacheDirtyList (pPCache p)) p"]
      by (rule runs_pre [OF runs_andThen [OF flush_all_runs [of g orig segs v] runs_andThen [OF grow_file_runs [OF g] sync_db_file_runs]]])
        (use j in blast)
  qed
  have all: "runs False ?S (txn g orig v) ?f (finished g orig v)"
    using runs_andThen [OF changecounter_runs [OF g] runs_andThen [OF sync_last_runs [OF g] rest]]
    by (simp add: grow_file_def always)
  fix p rc p'
  assume p: "txn g orig v p" "\<forall>d\<in>set (past p). ?S d" and run: "CommitPhaseOne False p = (rc, p')"
  have "\<not> eState p < PAGER_WRITER_CACHEMOD" using is_writing_state p(1) by (auto simp: txn_def not_less)
  then have "errCode p \<noteq> 0 \<and> p' = p \<and> rc = errCode p \<or> ?f p = (rc, p')" using run unfolding CommitPhaseOne_def by (auto split: if_splits)
  then show "(\<forall>d\<in>set (past p'). ?S d) \<and> (rc = SQLITE_OK \<longrightarrow> finished g orig v p') \<and> (False \<and> calm p \<longrightarrow> rc = SQLITE_OK \<and> calm p')"
    using runsD [OF all p] p(2) by auto
qed

end
