(* ===== verification/Pager_Txn.thy ===== *)
theory Pager_Txn
  imports Pager_Flush
begin

text \<open>
  A write transaction from the client's side: the calls it makes, the second phase of the commit,
  and what a crash at any system call leaves.
\<close>

section \<open>The second phase of a commit\<close>

text \<open>A crash leaves the old or the new database.\<close>

definition old_or_new :: "jgeom \<Rightarrow> u8 list list \<Rightarrow> u8 list list \<Rightarrow> disk \<Rightarrow> bool" where
  "old_or_new g orig new d \<longleftrightarrow>
     (\<forall>j db. crash_disk (jg_ss g) d j db \<longrightarrow> recoverable g orig j db \<or> recoverable g new j db)"

lemma recoverable_headless: "headless c \<Longrightarrow> recoverable g new (Some c) new"
  by (auto simp: recoverable_def journal_ok_def headless_def segs_good_def intro!: exI [of _ "[]"])

lemma finished_disk:
  assumes j: "journaled g orig segs p" and t: "d_touched (disk p) = {}" "d_dur (disk p) = d_cur (disk p)"
    and d: "same_db (disk p) d" "jouts (jg_ss g) (\<lambda>c. segs_at g (length orig) c 0 segs \<or> headless c) d"
  shows "old_or_new g orig (d_cur (disk p)) d"
  unfolding old_or_new_def
proof (intro allI impI)
  fix j db
  assume crash: "crash_disk (jg_ss g) d j db"
  have db: "db = d_cur (disk p)" using crash t d(1) by (auto simp: crash_disk_def crash_db_def same_db_def)
  show "recoverable g orig j db \<or> recoverable g (d_cur (disk p)) j db"
  proof (cases j)
    case None
    then show ?thesis using db by (simp add: recoverable_def)
  next
    case (Some c)
    then have "segs_at g (length orig) c 0 segs \<or> headless c" using crash d(2) by (auto simp: crash_disk_def jouts_def)
    then show ?thesis
    proof
      assume c: "segs_at g (length orig) c 0 segs"
      have b: "segs \<noteq> []" "segs_good g orig segs" "db_part orig segs (disk p)" using j by (auto simp: journaled_def between_def)
      have "db = [] \<longrightarrow> orig = []" using b(3) db by (auto simp: db_part_def)
      then have "journal_ok g orig segs c db"
        using b c db unfolding journal_ok_def db_part_def by simp
      then show ?thesis using Some by (auto simp: recoverable_def)
    next
      assume "headless c"
      then show ?thesis using recoverable_headless Some db by blast
    qed
  qed
qed

definition committed :: "jgeom \<Rightarrow> disk \<Rightarrow> bool \<Rightarrow> pager \<Rightarrow> bool" where
  "committed g d0 dur p \<longleftrightarrow> same_db d0 (disk p) \<and> (dur \<longrightarrow> journal_gone (jg_ss g) (disk p))"

lemma end_commit_runs:
  assumes fin: "runs True S (\<lambda>p. p = releaseAllSavepoints p0) (finalize_journal hasSuper) (\<lambda>p. committed g d0 dur p \<and> dbFileSize p \<le> dbSize p)"
  shows "runs False S (\<lambda>p. p = p0) (pager_end_transaction True hasSuper True) (committed g d0 dur)"
proof (rule runsI)
  fix p rc p'
  assume p: "p = p0" "\<forall>d\<in>set (past p). S d" and run: "pager_end_transaction True hasSuper True p = (rc, p')"
  obtain r1 p1 where fj: "finalize_journal hasSuper (releaseAllSavepoints p0) = (r1, p1)" by fastforce
  have past: "\<forall>d\<in>set (past (releaseAllSavepoints p0)). S d" using p by (simp add: releaseAllSavepoints_def)
  note F = runsD [OF fin refl past fj]
  define p2 where "p2 = p1\<lparr>pInJournal := None, nRec := 0\<rparr>"
  define p3 where "p3 = (if r1 = SQLITE_OK then on_cache (\<lambda>c. PcacheTruncate (pageSize p2) (dbSize p2) (PcacheCleanAll c)) p2 else p2)"
  have same: "past p3 = past p1" "disk p3 = disk p1" "dbFileSize p3 = dbFileSize p1" "dbSize p3 = dbSize p1"
    by (simp_all add: p3_def p2_def on_cache_def)
  have "rc = SQLITE_OK \<longrightarrow> r1 = SQLITE_OK" "past p' = past p1" "disk p' = disk p1"
  proof -
    have ask: "past (snd (os_ask q)) = past q \<and> disk (snd (os_ask q)) = disk q" for q by (simp add: os_ask_def)
    have tr: "\<not> (r1 = SQLITE_OK \<and> True \<and> dbFileSize p3 > dbSize p3)" using F same by auto
    obtain r4 p4 where a4: "(if r1 = SQLITE_OK \<and> True then os_ask p3 else (r1, p3)) = (r4, p4)" by fastforce
    obtain r5 p5 where a5: "(if \<not> exclusiveMode p4 then os_ask p4 else (SQLITE_OK, p4)) = (r5, p5)" by fastforce
    have last: "rc = (if r4 = SQLITE_OK then r5 else r4)" "p' = p5\<lparr>eState := PAGER_READER\<rparr>"
      using run unfolding pager_end_transaction_def p(1)
      by (simp_all only: Let_def fj case_prod_conv p2_def [symmetric] p3_def [symmetric] tr if_False a4 a5) simp_all
    show "past p' = past p1" "disk p' = disk p1" "rc = SQLITE_OK \<longrightarrow> r1 = SQLITE_OK"
      using last a4 a5 ask [of p3] ask [of p4] same by (auto split: if_splits)
  qed
  then show "(\<forall>d\<in>set (past p'). S d) \<and> (rc = SQLITE_OK \<longrightarrow> committed g d0 dur p') \<and> (False \<and> calm p \<longrightarrow> rc = SQLITE_OK \<and> calm p')"
    using F by (auto simp: committed_def)
qed

lemma old_or_new_safe: "safe_disk g orig d \<Longrightarrow> old_or_new g orig new d"
  by (simp add: safe_disk_def old_or_new_def)

lemma CommitPhaseTwo_runs:
  assumes g: "geom_ok g orig" and p0: "finished g orig v p0"
  shows "runs False (old_or_new g orig (d_cur (disk p0))) (\<lambda>p. p = p0) CommitPhaseTwo
    (\<lambda>p. committed g (disk p0) (durable_end p0) p)"
proof -
  let ?S = "old_or_new g orig (d_cur (disk p0))"
  obtain segs where j: "journaled g orig segs p0" and h: "holds p0 v"
    and t: "d_touched (disk p0) = {}" "d_dur (disk p0) = d_cur (disk p0)"
    and e: "eState p0 = PAGER_WRITER_FINISHED" using p0 by (auto simp: finished_def)
  let ?J = "\<lambda>c. segs_at g (length orig) c 0 segs \<or> headless c"
  have jo: "finalizing (jg_ss g) ?J (disk p0) (releaseAllSavepoints p0)"
    using j by (auto simp: finalizing_def same_db_def releaseAllSavepoints_def journaled_def between_def plain_settings_def jouts_def)
  have fin: "runs True ?S (\<lambda>p. finalizing (jg_ss g) ?J (disk p0) p \<and> jfd_open p \<and> durable_end p = durable_end p0)
      (finalize_journal False) (\<lambda>p. finalizing (jg_ss g) ?J (disk p0) p \<and> (durable_end p0 \<longrightarrow> journal_gone (jg_ss g) (disk p)))"
    by (rule finalize_runs [OF geom_okD(3) [OF g]]) (auto intro: finished_disk [OF j t])
  have "runs True ?S (\<lambda>p. p = releaseAllSavepoints p0) (finalize_journal False)
      (\<lambda>p. (finalizing (jg_ss g) ?J (disk p0) p \<and> (durable_end p0 \<longrightarrow> journal_gone (jg_ss g) (disk p))) \<and> dbFileSize p \<le> dbSize p)"
  proof (rule runs_conj)
    show "runs True ?S (\<lambda>p. p = releaseAllSavepoints p0) (finalize_journal False)
      (\<lambda>p. finalizing (jg_ss g) ?J (disk p0) p \<and> (durable_end p0 \<longrightarrow> journal_gone (jg_ss g) (disk p)))"
      by (rule runs_pre [OF fin]) (use jo j in \<open>auto simp: journaled_def releaseAllSavepoints_def durable_end_def\<close>)
    show "dbFileSize p' \<le> dbSize p'" if "p = releaseAllSavepoints p0" "finalize_journal False p = (SQLITE_OK, p')" for p p'
      using keptD [OF kept_finalize that(2)] content_okD(4) [OF holdsD(1) [OF h]] that(1)
      by (simp add: content_def releaseAllSavepoints_def)
  qed
  then have "runs True ?S (\<lambda>p. p = releaseAllSavepoints p0) (finalize_journal False)
      (\<lambda>p. committed g (disk p0) (durable_end p0) p \<and> dbFileSize p \<le> dbSize p)"
    by (rule runs_post) (auto simp: committed_def finalizing_def)
  note two = end_commit_runs [OF this]
  show ?thesis
  proof (rule runsI)
    fix p rc p'
    assume p: "p = p0" "\<forall>d\<in>set (past p). ?S d" and run: "CommitPhaseTwo p = (rc, p')"
    let ?Q = "committed g (disk p0) (durable_end p0)"
    show "(\<forall>d\<in>set (past p'). ?S d) \<and> (rc = SQLITE_OK \<longrightarrow> ?Q p') \<and> (False \<and> calm p \<longrightarrow> rc = SQLITE_OK \<and> calm p')"
    proof (cases "errCode p = 0")
      case False
      then show ?thesis using run p(2) by (auto simp: CommitPhaseTwo_def)
    next
      case True
      obtain r1 p1 where et: "pager_end_transaction True False True p = (r1, p1)" by fastforce
      note F = runsD [OF two p et]
      have r: "pager_error p1 r1 = (rc, p')" using run True e p(1) et by (simp add: CommitPhaseTwo_def)
      have "past p' = past p1" "rc = r1" using pager_error_disk(1) [of p1 r1] r pager_error_disk(2) [of p1 r1] by simp_all
      moreover have "rc = SQLITE_OK \<longrightarrow> p' = p1" using r by (auto simp: pager_error_def Let_def split: if_splits)
      ultimately show ?thesis using F by auto
    qed
  qed
qed

lemma committed_safe:
  assumes p0: "finished g orig v p0" and c: "committed g (disk p0) True p"
  shows "safe_disk g (d_cur (disk p0)) (disk p)"
  unfolding safe_disk_def
proof (intro allI impI)
  fix j db
  assume crash: "crash_disk (jg_ss g) (disk p) j db"
  have same: "same_db (disk p0) (disk p)" and gone: "journal_gone (jg_ss g) (disk p)" using c by (simp_all add: committed_def)
  have db: "db = d_cur (disk p0)" using crash same p0 by (auto simp: crash_disk_def crash_db_def same_db_def finished_def)
  show "recoverable g (d_cur (disk p0)) j db"
  proof (cases j)
    case None
    then show ?thesis using db by (simp add: recoverable_def)
  next
    case (Some k)
    then have "headless k" using crash gone by (auto simp: crash_disk_def journal_gone_def jouts_def headless_def)
    then show ?thesis using recoverable_headless Some db by blast
  qed
qed

section \<open>The client\<close>

text \<open>
  The calls of the pager a transaction consists of, and when the client (or, for a spill, the
  page cache) may make them. \<open>SQLITE_MAX_PAGE_COUNT\<close> is 0xfffffffe.
\<close>

datatype client_call = Fetch nat | MakeWritable nat | Spill nat

fun call_op :: "client_call \<Rightarrow> pager_op" where
  "call_op (Fetch n) = getPageNormal n False"
| "call_op (MakeWritable n) = PagerWrite n"
| "call_op (Spill n) = pagerStress n"

fun call_ok :: "client_call \<Rightarrow> pager \<Rightarrow> bool" where
  "call_ok (Fetch n) p = True"
| "call_ok (MakeWritable n) p = (PagerLookup p n \<noteq> None \<and> n \<le> 0xfffffffe)"
| "call_ok (Spill n) p = has_dirty n p"

inductive client_step :: "pager \<Rightarrow> db_view \<Rightarrow> pager \<Rightarrow> db_view \<Rightarrow> bool" where
  step_call: "call_ok c p \<Longrightarrow> call_op c p = (SQLITE_OK, p') \<Longrightarrow> client_step p v p' v"
| step_change: "writable n p \<Longrightarrow> length d = pageSize p \<Longrightarrow> client_step p v (poke n d p) (v(n \<mapsto> d))"
| step_dont_write: "client_step p v (PagerDontWrite n p) (v(n := None))"
| step_evict: "PagerLookup p n = Some h \<Longrightarrow> \<not> pg_dirty h \<Longrightarrow> client_step p v (on_cache (PcacheDrop n) p) v"

inductive client_run :: "pager \<Rightarrow> db_view \<Rightarrow> pager \<Rightarrow> db_view \<Rightarrow> bool" for p v where
  run_none: "client_run p v p v"
| run_step: "client_run p v p1 v1 \<Longrightarrow> client_step p1 v1 p2 v2 \<Longrightarrow> client_run p v p2 v2"

text \<open>What every step keeps.\<close>

definition open_txn :: "jgeom \<Rightarrow> u8 list list \<Rightarrow> db_view \<Rightarrow> pager \<Rightarrow> bool" where
  "open_txn g orig v p \<longleftrightarrow> can_write g orig p \<and> holds p v \<and> dbSize p \<le> 0xfffffffe"

lemma can_write_sector: "can_write g orig p \<Longrightarrow> sectorSize p \<le> pageSize p"
  using is_writing_sector by (auto simp: can_write_def locked_def untouched_def)

lemma locked_clean:
  assumes "locked g orig p" "PagerLookup p n = Some h"
  shows "\<not> pg_dirty h"
  using assms cache_okD(1) by (fastforce simp: locked_def untouched_def pcache_ok_def PagerLookup_def)

lemma dirty_is_writing: "can_write g orig p \<Longrightarrow> has_dirty n p \<Longrightarrow> is_writing g orig p"
  using locked_clean by (auto simp: can_write_def has_dirty_def)

lemma writable_dirty: "holds p v \<Longrightarrow> writable n p \<Longrightarrow> has_dirty n p"
  using content_okD(6) [OF holdsD(1)] by (auto simp: writable_def has_dirty_def header_ok_def split: option.splits)

lemma fetch_runs: "runs False S (can_write g orig) (getPageNormal n False) (can_write g orig)"
proof (rule runs_fix)
  fix p0
  assume "can_write g orig p0"
  then consider "locked g orig p0" | "is_writing g orig p0" by (auto simp: can_write_def)
  then show "runs False S (\<lambda>p. p = p0) (getPageNormal n False) (can_write g orig)"
  proof cases
    case 1
    have "locked g orig p = (untouched g orig p \<and> (eState p = PAGER_WRITER_LOCKED \<and> dbOrigSize p = length orig))" for p
      by (simp add: locked_def)
    from get_runs_untouched [OF this, of S n] show ?thesis
      by (rule runs_post [OF runs_pre]) (use 1 in \<open>auto simp: can_write_def\<close>)
  next
    case 2
    then show ?thesis by (auto intro: runs_post [OF runs_pre [OF get_runs_writing]] simp: can_write_def)
  qed
qed

lemma call_runs:
  assumes g: "geom_ok g orig"
  shows "runs False (safe_disk g orig) (\<lambda>p. open_txn g orig v p \<and> call_ok c p) (call_op c) (open_txn g orig v)"
proof -
  let ?S = "safe_disk g orig" and ?P = "\<lambda>p. open_txn g orig v p \<and> call_ok c p"
  have safe: "runs False ?S ?P (call_op c) (can_write g orig)"
  proof (cases c)
    case (Fetch n)
    then show ?thesis by (auto intro: runs_pre [OF fetch_runs] simp: open_txn_def)
  next
    case (MakeWritable n)
    show ?thesis
    proof (cases "n \<le> 0xfffffffe")
      case True
      then have "n < 2 ^ 32" by simp
      from PagerWrite_runs [OF g this] show ?thesis
        unfolding MakeWritable call_op.simps by (rule runs_post [OF runs_pre]) (auto simp: open_txn_def can_write_def)
    qed (simp add: runs_def MakeWritable)
  next
    case (Spill n)
    show ?thesis
      unfolding Spill call_op.simps
      by (rule runs_post [OF runs_pre [OF pagerStress_runs [OF g, of n]]])
        (auto simp: open_txn_def Spill can_write_def intro: dirty_is_writing [unfolded can_write_def])
  qed
  have "holds p' v \<and> dbSize p' \<le> 0xfffffffe" if p: "?P p" and run: "call_op c p = (SQLITE_OK, p')" for p p'
  proof (cases c)
    case (Fetch n)
    then show ?thesis using p run fetch_holds [of p v n p'] by (simp add: open_txn_def)
  next
    case (MakeWritable n)
    then show ?thesis using p run PagerWrite_holds [of p v n p'] can_write_sector by (auto simp: open_txn_def)
  next
    case (Spill n)
    then obtain k where "PagerLookup p n = Some k" "pg_dirty k" using p by (auto simp: has_dirty_def)
    then show ?thesis using p run spill_holds [of p v n k p'] Spill by (simp add: open_txn_def)
  qed
  from runs_conj [OF safe this] show ?thesis by (simp add: open_txn_def [abs_def])
qed

lemma can_write_edit:
  assumes g: "can_write g orig p" and d: "has_dirty n p"
    and f: "\<And>h. pg_dirty (f h) = pg_dirty h \<and> pg_need_sync (f h) = pg_need_sync h"
  shows "can_write g orig (on_cache (on_page n f) p)"
proof -
  have w: "is_writing g orig p" by (rule dirty_is_writing [OF g d])
  then obtain segs rs b where W: "length orig \<le> dbSize p" "writing g orig segs rs b p" by (auto simp: is_writing_def)
  obtain k where k: "pc_pages (pPCache p) n = Some k" "pg_dirty k" using d by (auto simp: has_dirty_def PagerLookup_def)
  have "n \<le> length orig \<longrightarrow> n \<in> bv.pages b"
    using cache_okD(2) [OF writingD(7) [OF W(2)] k(1)] k(2) by (auto simp: page_ok_def)
  from edit_ok [OF writingD(7) [OF W(2)] this f]
  have "writing g orig segs rs b (on_cache (on_page n f) p)"
    using W(2) unfolding writing_def segment_open_def plain_settings_def by (clarsimp simp: on_cache_def)
  then show ?thesis using W(1) by (auto simp: can_write_def is_writing_def on_cache_def)
qed

lemma drop_cache_ok:
  assumes c: "cache_ok g orig segs J c" and h: "pc_pages c n = Some h" "\<not> pg_dirty h"
  shows "cache_ok g orig segs J (PcacheDrop n c)" "pc_dirty (PcacheDrop n c) = pc_dirty c"
proof -
  note C = cache_okD [OF c]
  show d: "pc_dirty (PcacheDrop n c) = pc_dirty c" using h by (simp add: PcacheDrop_def)
  have pages: "pc_pages (PcacheDrop n c) m = (if m = n then None else pc_pages c m)" for m by (simp add: PcacheDrop_def)
  show "cache_ok g orig segs J (PcacheDrop n c)"
  proof (rule cache_okI)
    show "pcache_ok (PcacheDrop n c)"
      unfolding pcache_ok_def
    proof (intro conjI allI)
      show "distinct (pc_dirty (PcacheDrop n c))" using pcache_okD(1) [OF C(1)] by (simp only: d)
      show "m \<in> set (pc_dirty (PcacheDrop n c)) \<longleftrightarrow> (\<exists>h. pc_pages (PcacheDrop n c) m = Some h \<and> pg_dirty h)" for m
        using C(1) h unfolding pcache_ok_def d pages by (cases "m = n") auto
    qed
    show "page_ok g orig segs J m k" if "pc_pages (PcacheDrop n c) m = Some k" for m k
      using that C(2) by (simp add: pages split: if_splits)
    show "\<exists>h. pc_pages (PcacheDrop n c) m = Some h \<and> pg_dirty h \<and> pg_need_sync h" if m: "m \<in> J" "m \<notin> seg_pages segs" for m
      using C(3) [OF m] h by (cases "m = n") (auto simp: pages)
  qed
qed

lemma can_write_drop:
  assumes g: "can_write g orig p" and h: "PagerLookup p n = Some h" "\<not> pg_dirty h"
  shows "can_write g orig (on_cache (PcacheDrop n) p)"
proof -
  have h': "pc_pages (pPCache p) n = Some h" using h(1) by (simp add: PagerLookup_def)
  show ?thesis
  proof (cases "locked g orig p")
    case True
    have "pc_dirty (PcacheDrop n (pPCache p)) = pc_dirty (pPCache p)" using h' h(2) by (simp add: PcacheDrop_def)
    with True have "locked g orig (on_cache (PcacheDrop n) p)"
      using drop_cache_ok(1) [OF _ h' h(2)] by (simp add: locked_def untouched_def on_cache_def)
    then show ?thesis by (simp add: can_write_def)
  next
    case False
    then obtain segs rs b where W: "length orig \<le> dbSize p" "writing g orig segs rs b p" using g by (auto simp: can_write_def is_writing_def)
    have "writing g orig segs rs b (on_cache (PcacheDrop n) p)"
      using W(2) drop_cache_ok(1) [OF writingD(7) [OF W(2)] h' h(2)]
      unfolding writing_def segment_open_def plain_settings_def by (clarsimp simp: on_cache_def)
    then show ?thesis using W(1) by (auto simp: can_write_def is_writing_def on_cache_def)
  qed
qed

lemma client_step_open:
  assumes g: "geom_ok g orig" and p: "open_txn g orig v p" "\<forall>d\<in>set (past p). safe_disk g orig d" and step: "client_step p v p' v'"
  shows "open_txn g orig v' p' \<and> (\<forall>d\<in>set (past p'). safe_disk g orig d)"
  using step
proof cases
  case (step_call c)
  then show ?thesis using runsD [OF call_runs [OF g] _ p(2), of v c SQLITE_OK p'] p(1) by blast
next
  case (step_change n d)
  have P: "can_write g orig p" "holds p v" "dbSize p \<le> 0xfffffffe" using p(1) by (simp_all add: open_txn_def)
  have "can_write g orig (poke n d p)"
    unfolding poke_def set_data_def by (rule can_write_edit [OF P(1) writable_dirty [OF P(2)]]) (use step_change in simp_all)
  moreover have "holds (poke n d p) (v(n \<mapsto> d))"
    by (rule poke_holds [OF P(2)]) (use step_change in simp_all)
  ultimately show ?thesis using step_change(1,2) P(3) p(2) by (simp add: open_txn_def poke_def set_data_def on_cache_def)
next
  case (step_dont_write n)
  have P: "can_write g orig p" "holds p v" "dbSize p \<le> 0xfffffffe" using p(1) by (simp_all add: open_txn_def)
  have "can_write g orig (PagerDontWrite n p)"
  proof (cases "has_dirty n p \<and> aSavepoint p = []")
    case True
    then show ?thesis using can_write_edit [OF P(1), of n] by (auto simp: PagerDontWrite_def has_dirty_def)
  next
    case False
    then have "PagerDontWrite n p = p" by (auto simp: PagerDontWrite_def has_dirty_def split: option.splits)
    then show ?thesis using P(1) by simp
  qed
  moreover have "past (PagerDontWrite n p) = past p" "dbSize (PagerDontWrite n p) = dbSize p"
    by (simp_all add: PagerDontWrite_def on_cache_def)
  ultimately show ?thesis using step_dont_write dont_write_holds [OF P(2)] P(3) p(2) by (simp add: open_txn_def)
next
  case (step_evict n h)
  have P: "can_write g orig p" "holds p v" "dbSize p \<le> 0xfffffffe" using p(1) by (simp_all add: open_txn_def)
  have "holds (on_cache (PcacheDrop n) p) v" by (rule evict_holds [OF P(2)]) (use step_evict in auto)
  then show ?thesis using can_write_drop [OF P(1) step_evict(3,4)] step_evict(1,2) P(3) p(2) by (simp add: open_txn_def on_cache_def)
qed

lemma client_run_open:
  assumes g: "geom_ok g orig"
  shows "client_run p v p' v' \<Longrightarrow> open_txn g orig v p \<Longrightarrow> \<forall>d\<in>set (past p). safe_disk g orig d \<Longrightarrow>
     open_txn g orig v' p' \<and> (\<forall>d\<in>set (past p'). safe_disk g orig d)"
proof (induction rule: client_run.induct)
  case (run_step p1 v1 p2 v2)
  then show ?case using client_step_open [OF g _ _ run_step.hyps(2)] by blast
qed simp

section \<open>Transactions\<close>

text \<open>A pager that reads the database \<open>orig\<close> and has made no system call of interest yet.\<close>

definition txn_start :: "jgeom \<Rightarrow> u8 list list \<Rightarrow> db_view \<Rightarrow> pager \<Rightarrow> bool" where
  "txn_start g orig v p \<longleftrightarrow>
     geom_ok g orig \<and> length orig \<le> 0xfffffffe \<and> reading g orig p \<and> holds (p\<lparr>dbFileSize := dbSize p\<rparr>) v \<and> past p = []"

text \<open>The states of a transaction: begun, and followed by calls of the client that returned.\<close>

definition in_txn :: "jgeom \<Rightarrow> u8 list list \<Rightarrow> db_view \<Rightarrow> pager \<Rightarrow> bool" where
  "in_txn g orig v p \<longleftrightarrow>
     (\<exists>p0 v0 exFlag p1. txn_start g orig v0 p0 \<and> PagerBegin exFlag p0 = (SQLITE_OK, p1) \<and> client_run p1 v0 p v)"

lemma begin_open:
  assumes p: "txn_start g orig v p" and run: "PagerBegin exFlag p = (SQLITE_OK, p')"
  shows "open_txn g orig v p' \<and> (\<forall>d\<in>set (past p'). safe_disk g orig d)"
proof -
  have P: "reading g orig p" "past p = []" "length orig \<le> 0xfffffffe" "holds (p\<lparr>dbFileSize := dbSize p\<rparr>) v"
    using p by (simp_all add: txn_start_def)
  have "\<forall>d\<in>set (past p). safe_disk g orig d" using P(2) by simp
  from runsD [OF begin_runs P(1) this run] have R: "locked g orig p'" "\<forall>d\<in>set (past p'). safe_disk g orig d" by simp_all
  have e: "errCode p = 0" using run by (simp add: PagerBegin_def split: if_splits)
  obtain q where q: "os_ask p = (SQLITE_OK, q)"
    "andThen (whenP (\<lambda>p. exFlag) os_ask)
      (upd (\<lambda>p. p\<lparr>eState := PAGER_WRITER_LOCKED, dbFileSize := dbSize p, dbOrigSize := dbSize p, journalOff := 0\<rparr>)) q = (SQLITE_OK, p')"
    using run e P(1) by (auto simp: PagerBegin_def reading_def andThen_ok)
  obtain r where r: "whenP (\<lambda>p. exFlag) os_ask q = (SQLITE_OK, r)"
    "p' = r\<lparr>eState := PAGER_WRITER_LOCKED, dbFileSize := dbSize r, dbOrigSize := dbSize r, journalOff := 0\<rparr>"
    using q(2) by (auto simp: andThen_ok)
  have "kept (whenP (\<lambda>p. exFlag) os_ask)" by (intro kept)
  from keptD [OF this r(1)] keptD [OF kept_ask q(1)] have c: "content r = content p" by simp
  have "content p' = content (p\<lparr>dbFileSize := dbSize p\<rparr>)" using c by (simp add: r(2) content_def)
  from holds_cong [OF this P(4)] have "holds p' v" .
  then show ?thesis using R P(3) by (simp add: open_txn_def can_write_def locked_def untouched_def)
qed

lemma in_txn_open:
  assumes "in_txn g orig v p"
  shows "geom_ok g orig" "open_txn g orig v p" "\<forall>d\<in>set (past p). safe_disk g orig d"
proof -
  obtain p0 v0 exFlag p1 where t: "txn_start g orig v0 p0" "PagerBegin exFlag p0 = (SQLITE_OK, p1)" "client_run p1 v0 p v"
    using assms by (auto simp: in_txn_def)
  show g: "geom_ok g orig" using t(1) by (simp add: txn_start_def)
  note O = begin_open [OF t(1,2)]
  show "open_txn g orig v p" "\<forall>d\<in>set (past p). safe_disk g orig d"
    using client_run_open [OF g t(3)] O by blast+
qed

section \<open>What a crash leaves\<close>

text \<open>
  A new process that opens the files \<open>j\<close> and \<open>db\<close> and takes a shared lock finds the database
  \<open>new\<close>, if its system calls succeed; provided that the end of the journal does not look like
  the name of a super-journal.
\<close>

definition recovers_to :: "jgeom \<Rightarrow> nat \<Rightarrow> u8 list list \<Rightarrow> u8 list option \<Rightarrow> u8 list list \<Rightarrow> bool" where
  "recovers_to g mxPathname new j db \<longleftrightarrow>
     (\<forall>superExists p. fresh_pager g j db p \<longrightarrow> (\<forall>c. j = Some c \<longrightarrow> readSuperJournal c (1 + mxPathname) = []) \<longrightarrow>
        (\<exists>rc p'. PagerSharedLock superExists mxPathname False p = Some (rc, p') \<and>
           (rc = SQLITE_OK \<longrightarrow> d_cur (disk p') = new \<and> d_dur (disk p') = new \<and> dbSize p' = length new \<and> eState p' = PAGER_READER) \<and>
           (calm p \<longrightarrow> rc = SQLITE_OK)))"

lemma recovers_toI: "geom_ok g new \<Longrightarrow> recoverable g new j db \<Longrightarrow> recovers_to g mxPathname new j db"
  unfolding recovers_to_def using shared_lock_recovers by blast

text \<open>
  C5. Recovery is live: if nothing fails, opening what a crash has left and taking the shared lock
  returns \<open>SQLITE_OK\<close>, with the file restored, on disk as well.
\<close>

theorem recovery_restores:
  assumes "geom_ok g orig" "recoverable g orig j db" "fresh_pager g j db p" "calm p"
    "\<forall>c. j = Some c \<longrightarrow> readSuperJournal c (1 + mxPathname) = []"
  shows "\<exists>p'. PagerSharedLock superExists mxPathname False p = Some (SQLITE_OK, p') \<and>
    d_cur (disk p') = orig \<and> d_dur (disk p') = orig \<and> dbSize p' = length orig \<and> eState p' = PAGER_READER"
  using shared_lock_recovers [OF assms(1-3,5)] assms(4) by blast

text \<open>
  C6. A crash during recovery is harmless: from whatever it leaves, the next recovery still finds the
  original database.
\<close>

theorem crash_in_recovery_recovers:
  assumes "geom_ok g orig" "recoverable g orig j db" "fresh_pager g j db p"
    "\<forall>c. j = Some c \<longrightarrow> readSuperJournal c (1 + mxPathname) = []"
  shows "\<exists>rc p'. PagerSharedLock superExists mxPathname False p = Some (rc, p') \<and>
    (\<forall>d\<in>set (past p'). \<forall>j' db'. crash_disk (jg_ss g) d j' db' \<longrightarrow> recovers_to g mxPathname orig j' db')"
  using shared_lock_recovers [OF assms] recovers_toI [OF assms(1)] by (fastforce simp: safe_disk_def)

text \<open>
  C4. The database survives a crash during a transaction: wherever in a call of the client the
  power fails, and whether or not the call or an earlier system call of it succeeded, opening
  the database rolls it back to what it was before the transaction.
\<close>

theorem crash_in_call_recovers:
  assumes "in_txn g orig v p" "call_ok c p" "call_op c p = (rc, p')" "d \<in> set (past p')" "crash_disk (jg_ss g) d j db"
  shows "recovers_to g mxPathname orig j db"
proof -
  note T = in_txn_open [OF assms(1)]
  have "safe_disk g orig d" using runsD [OF call_runs [OF T(1)] _ T(3) assms(3), of v] T(2) assms(2,4) by blast
  then show ?thesis using recovers_toI [OF T(1)] assms(5) by (simp add: safe_disk_def)
qed

lemma phase_one_runs:
  assumes g: "geom_ok g orig"
  shows "runs False (safe_disk g orig) (open_txn g orig v) (CommitPhaseOne False)
     (\<lambda>p. finished g orig v p \<or> locked g orig p)"
proof (rule runs_fix)
  fix p0
  assume p0: "open_txn g orig v p0"
  show "runs False (safe_disk g orig) (\<lambda>p. p = p0) (CommitPhaseOne False) (\<lambda>p. finished g orig v p \<or> locked g orig p)"
  proof (cases "is_writing g orig p0")
    case True
    then have "txn g orig v p0" using p0 by (simp add: txn_def open_txn_def)
    then show ?thesis by (auto intro: runs_post [OF runs_pre [OF CommitPhaseOne_runs [OF g]]])
  next
    case False
    then have l: "locked g orig p0" using p0 by (simp add: open_txn_def can_write_def)
    then have "eState p0 < PAGER_WRITER_CACHEMOD" by (simp add: locked_def estate_order)
    then show ?thesis using l by (auto simp: runs_def CommitPhaseOne_def)
  qed
qed

text \<open>
  C3. Until the first phase of a commit has returned, and in it, a crash leaves the database as it
  was before the transaction.
\<close>

theorem crash_in_phase_one_recovers:
  assumes "in_txn g orig v p" "CommitPhaseOne False p = (rc, p')" "d \<in> set (past p')" "crash_disk (jg_ss g) d j db"
  shows "recovers_to g mxPathname orig j db"
proof -
  note T = in_txn_open [OF assms(1)]
  have "safe_disk g orig d" using runsD [OF phase_one_runs [OF T(1)] T(2,3) assms(2)] assms(3) by blast
  then show ?thesis using recovers_toI [OF T(1)] assms(4) by (simp add: safe_disk_def)
qed

lemma phase_one_finished:
  assumes t: "in_txn g orig v p" and w: "eState p \<ge> PAGER_WRITER_CACHEMOD" and one: "CommitPhaseOne False p = (SQLITE_OK, p1)"
  shows "finished g orig v p1" "\<forall>d\<in>set (past p1). safe_disk g orig d" "geom_ok g orig" "dbSize p1 \<le> 0xfffffffe"
    "pageSize p1 = jg_ps g" "\<And>n d. v n = Some d \<Longrightarrow> same_page n (db_page (jg_ps g) (disk p1) n) d"
proof -
  note T = in_txn_open [OF t]
  show "geom_ok g orig" by (rule T(1))
  have "\<not> locked g orig p" using w by (auto simp: locked_def estate_order)
  then have x: "txn g orig v p" using T(2) by (simp add: open_txn_def can_write_def txn_def)
  note R = runsD [OF CommitPhaseOne_runs [OF T(1)] x T(3) one]
  show f: "finished g orig v p1" and "\<forall>d\<in>set (past p1). safe_disk g orig d" using R by simp_all
  have H: "holds p v" "sectorSize p \<le> pageSize p" "dbSize p \<le> 0xfffffffe"
    using T(2) can_write_sector by (auto simp: open_txn_def)
  note C = phase_one_holds [OF H(1) one H(2) w]
  show "dbSize p1 \<le> 0xfffffffe" using C H(3) by simp
  show ps: "pageSize p1 = jg_ps g" using f by (auto simp: finished_def journaled_def plain_settings_def)
  fix n d
  assume v: "v n = Some d"
  have "page_holds p1 n d" using C v holdsD(2) by blast
  moreover have "page_view p1 n = db_page (jg_ps g) (disk p1) n"
    using C calculation content_okD(6) [OF holdsD(1), of p1 v n] ps
    by (cases "PagerLookup p1 n") (auto simp: page_view_def page_holds_def header_ok_def)
  ultimately show "same_page n (db_page (jg_ps g) (disk p1) n) d" by (simp add: page_holds_def)
qed

lemma new_geom_ok: "finished g orig v p \<Longrightarrow> geom_ok g orig \<Longrightarrow> dbSize p \<le> 0xfffffffe \<Longrightarrow> geom_ok g (d_cur (disk p))"
  using content_okD(3,5) [OF holdsD(1), of p v]
  by (fastforce simp: geom_ok_def finished_def journaled_def plain_settings_def)

text \<open>
  C2. Atomicity: while the second phase of a commit ends the journal, a crash leaves the database
  either as it was before the transaction or as the transaction has made it.
\<close>

theorem crash_in_phase_two_atomic:
  assumes "in_txn g orig v p" "eState p \<ge> PAGER_WRITER_CACHEMOD" "CommitPhaseOne False p = (SQLITE_OK, p1)"
    "CommitPhaseTwo p1 = (rc, p2)" "d \<in> set (past p2)" "crash_disk (jg_ss g) d j db"
  shows "recovers_to g mxPathname orig j db \<or> recovers_to g mxPathname (d_cur (disk p1)) j db"
proof -
  note F = phase_one_finished [OF assms(1-3)]
  have "\<forall>d\<in>set (past p1). old_or_new g orig (d_cur (disk p1)) d" using F(2) old_or_new_safe by blast
  from runsD [OF CommitPhaseTwo_runs [OF F(3,1)] refl this assms(4)]
  have "old_or_new g orig (d_cur (disk p1)) d" using assms(5) by blast
  then have "recoverable g orig j db \<or> recoverable g (d_cur (disk p1)) j db" using assms(6) by (simp add: old_or_new_def)
  then show ?thesis using recovers_toI [OF F(3)] recovers_toI [OF new_geom_ok [OF F(1,3,4)]] by blast
qed

text \<open>
  C1. Durability: once the second phase has returned, with settings under which the end of the
  journal is durable, every crash leaves the new database, and it holds what the client wrote.
\<close>

theorem commit_is_durable:
  assumes "in_txn g orig v p" "eState p \<ge> PAGER_WRITER_CACHEMOD" "CommitPhaseOne False p = (SQLITE_OK, p1)"
    "CommitPhaseTwo p1 = (SQLITE_OK, p2)" "durable_end p1" "crash_disk (jg_ss g) (disk p2) j db"
  shows "recovers_to g mxPathname (d_cur (disk p2)) j db \<and>
     (\<forall>n d. v n = Some d \<longrightarrow> same_page n (db_page (jg_ps g) (disk p2) n) d)"
proof -
  note F = phase_one_finished [OF assms(1-3)]
  have "\<forall>d\<in>set (past p1). old_or_new g orig (d_cur (disk p1)) d" using F(2) old_or_new_safe by blast
  from runsD [OF CommitPhaseTwo_runs [OF F(3,1)] refl this assms(4)]
  have c: "committed g (disk p1) True p2" using assms(5) by simp
  then have same: "d_cur (disk p2) = d_cur (disk p1)" by (simp add: committed_def same_db_def)
  have "recoverable g (d_cur (disk p1)) j db" using committed_safe [OF F(1) c] assms(6) by (simp add: safe_disk_def)
  then have "recovers_to g mxPathname (d_cur (disk p2)) j db"
    using recovers_toI [OF new_geom_ok [OF F(1,3,4)]] same by simp
  moreover have "db_page (jg_ps g) (disk p2) n = db_page (jg_ps g) (disk p1) n" for n by (simp add: db_page_def same)
  ultimately show ?thesis using F(6) by simp
qed

end
