(* ===== verification/Pager_Asserts.thy ===== *)
theory Pager_Asserts
  imports Pager_Txn
begin

text \<open>
  \<open>assert_pager_state\<close>, the invariant that \<open>pager.c\<close> checks in debug builds, and a proof that it
  holds all through a transaction; and what the client reads back.
\<close>

section \<open>The invariant\<close>

text \<open>
  For a file that is neither temporary nor in memory. The assertions on locks and on
  \<open>dbHintSize\<close> and \<open>setSuper\<close> are about fields that the model does not have.
\<close>

definition assert_pager_state :: "pager \<Rightarrow> bool" where
  "assert_pager_state p \<longleftrightarrow>
     (case eState p of
        PAGER_OPEN \<Rightarrow> errCode p = SQLITE_OK \<and> pc_nRefSum (pPCache p) = 0
      | PAGER_READER \<Rightarrow> errCode p = SQLITE_OK
      | PAGER_WRITER_LOCKED \<Rightarrow> errCode p = SQLITE_OK \<and> dbSize p = dbOrigSize p \<and> dbOrigSize p = dbFileSize p
      | PAGER_WRITER_CACHEMOD \<Rightarrow> errCode p = SQLITE_OK \<and> jfd_open p \<and> dbOrigSize p = dbFileSize p
      | PAGER_WRITER_DBMOD \<Rightarrow> errCode p = SQLITE_OK \<and> jfd_open p
      | PAGER_WRITER_FINISHED \<Rightarrow> errCode p = SQLITE_OK \<and> jfd_open p
      | PAGER_ERROR \<Rightarrow> errCode p \<noteq> SQLITE_OK \<and> pc_nRefSum (pPCache p) > 0)"

text \<open>The part of it that the invariant of a transaction does not give.\<close>

definition sizes_agree :: "pager \<Rightarrow> bool" where
  "sizes_agree p \<longleftrightarrow> errCode p = SQLITE_OK \<and> (eState p < PAGER_WRITER_DBMOD \<longrightarrow> dbFileSize p = dbOrigSize p)"

section \<open>Calls that leave the state of the pager alone\<close>

abbreviation (input) settled :: "pager_op \<Rightarrow> bool" where
  "settled \<equiv> keeps eState"

named_theorems settled

declare keeps_andThen [settled] keeps_upd [settled] keeps_whenP [settled] keeps_if [settled]

lemma settled_ask [settled]: "settled os_ask" by (rule keeps_ask) simp

lemma settled_call [settled]: "settled (os_call op)" by (rule keeps_call) (simp_all add: do_io_def)

lemma settled_savepoints: "settled (addToSavepointBitvecs n)"
  by (simp add: keeps_def addToSavepointBitvecs_def split: prod.splits)

lemma settled_page_journaled [settled]: "settled (page_journaled n)"
  unfolding keeps_def
proof
  fix p :: pager
  obtain a rc b where m: "bitvec_add (mem p) (pInJournal p) n = (a, rc, b)" by (metis prod_cases3)
  define q where "q = p\<lparr>journalOff := journalOff p + (8 + pageSize p), nRec := nRec p + 1, mem := a, pInJournal := b\<rparr>"
  obtain rc' q' where sp: "addToSavepointBitvecs n q = (rc', q')" by fastforce
  have "snd (page_journaled n p) = q'" using m sp by (simp add: page_journaled_def Let_def q_def)
  then show "eState (snd (page_journaled n p)) = eState p" using keepsD [OF settled_savepoints sp] by (simp add: q_def)
qed

lemma settled_need_sync [simp]: "eState (set_need_sync n p) = eState p"
  by (simp add: set_need_sync_def on_cache_def)

lemma settled_add_page: "settled (pagerAddPageToRollbackJournal n)"
proof -
  have "eState (snd (pagerAddPageToRollbackJournal n p)) = eState p" for p
  proof -
    define f where "f = andThen (write32bits (journalOff p) (word_of_nat n))
           (andThen (os_call (JWrite (journalOff p + 4) (page_data p n)))
             (andThen (write32bits (journalOff p + pageSize p + 4) (pager_cksum p (page_data p n))) (page_journaled n)))"
    have "settled f" unfolding f_def write32bits_def by (intro settled)
    moreover have "pagerAddPageToRollbackJournal n p = f (set_need_sync n p)"
      by (simp add: pagerAddPageToRollbackJournal_def Let_def f_def set_need_sync_def on_cache_def)
    ultimately show ?thesis by (simp add: keeps_def)
  qed
  then show ?thesis by (simp add: keeps_def)
qed

lemma settled_subjournal: "settled (subjournalPageIfRequired n)"
proof -
  have "settled (subjournalPage n)"
    unfolding subjournalPage_def Let_def sj_write_def
    by (rule keeps_param) (intro settled settled_savepoints, simp_all)
  moreover have "eState (snd (subjRequiresPage n p)) = eState p" for p
    by (simp add: subjRequiresPage_def split: prod.splits)
  ultimately show ?thesis
    unfolding keeps_def subjournalPageIfRequired_def Let_def by (auto split: prod.split) (metis snd_conv)+
qed

lemma settled_write_rest: "settled (write_rest n)"
proof -
  have j: "settled (journal_step n)"
    unfolding journal_step_def
    by (intro keeps_whenP keeps_if settled_add_page) (simp add: keeps_def)
  have s: "settled (\<lambda>p. let (rc, p) = (if aSavepoint p \<noteq> [] then subjournalPageIfRequired n p else (SQLITE_OK, p))
            in (rc, if dbSize p < n then p\<lparr>dbSize := n\<rparr> else p))"
    by (rule keeps_after) (auto intro!: keeps_if settled_subjournal simp: keeps_def [of _ "Pair _"])
  show ?thesis
    unfolding write_rest_def by (intro settled j s) (simp_all add: on_cache_def)
qed

section \<open>The calls of a transaction\<close>

lemma sizes_cong:
  "content p' = content p \<Longrightarrow> eState p' \<ge> eState p \<Longrightarrow> dbOrigSize p' = dbOrigSize p \<Longrightarrow> sizes_agree p \<Longrightarrow> sizes_agree p'"
  by (auto simp: sizes_agree_def content_def estate_order)

lemma fetch_sizes:
  assumes "getPageNormal n False p = (SQLITE_OK, p')" "sizes_agree p"
  shows "sizes_agree p'"
  using getPageNormal_ok(2) [OF assms(1)] assms(2) by (auto simp: page_fetched_def sizes_agree_def)

lemma PagerWrite_state:
  assumes run: "PagerWrite n p = (SQLITE_OK, p')" and sec: "sectorSize p \<le> pageSize p"
  shows "eState p' = eState p \<or> eState p = PAGER_WRITER_LOCKED"
proof (cases "eState p = PAGER_WRITER_LOCKED")
  case False
  then have "pager_write n p = write_rest n p" by (simp add: pager_write_rest andThen_def whenP_def)
  then have "write_rest n p = (SQLITE_OK, p') \<or> subjournalPageIfRequired n p = (SQLITE_OK, p') \<or> p' = p"
    using run sec
    by (cases "(case PagerLookup p n of Some h \<Rightarrow> pg_writeable h | None \<Rightarrow> False) \<and> dbSize p \<ge> n"; cases "aSavepoint p = []"; cases "errCode p = 0")
      (simp_all add: PagerWrite_def)
  then consider "write_rest n p = (SQLITE_OK, p')" | "subjournalPageIfRequired n p = (SQLITE_OK, p')" | "p' = p" by blast
  then show ?thesis by cases (auto dest: keepsD [OF settled_write_rest] keepsD [OF settled_subjournal])
qed simp

lemma PagerWrite_sizes:
  assumes k: "PagerLookup p n \<noteq> None" and run: "PagerWrite n p = (SQLITE_OK, p')" and sec: "sectorSize p \<le> pageSize p"
    and s: "sizes_agree p" and orig: "dbOrigSize p' = dbOrigSize p"
  shows "sizes_agree p'"
proof -
  have c: "errCode p' = errCode p \<and> dbFileSize p' = dbFileSize p"
    using k run sec by (cases rule: PagerWrite_content) (auto simp: content_def made_writable_def on_cache_def)
  have "eState p < PAGER_WRITER_DBMOD" if "eState p' < PAGER_WRITER_DBMOD"
    using PagerWrite_state [OF run sec] that by (auto simp: estate_order)
  then show ?thesis using c s orig by (auto simp: sizes_agree_def)
qed

lemma pagelist_state: "keeps (\<lambda>p. (eState p, errCode p)) (pager_write_pagelist ns)"
proof (induction ns)
  case (Cons n ns)
  have io: "keeps (\<lambda>p. (eState p, errCode p)) (os_call op)" for op
    by (rule keeps_call) (simp_all add: do_io_def)
  have "keeps (\<lambda>p. (eState p, errCode p)) (write_page_out n)"
    unfolding keeps_def
  proof
    fix p
    define q where "q = (if n = 1 then pager_write_changecounter n p else p)"
    have q: "eState q = eState p" "errCode q = errCode p"
      by (simp_all add: q_def pager_write_changecounter_def set_data_def on_cache_def Let_def)
    obtain rc r where w: "os_call (DWrite n (page_data q n)) q = (rc, r)" by fastforce
    show "(eState (snd (write_page_out n p)), errCode (snd (write_page_out n p))) = (eState p, errCode p)"
      using keepsD [OF io w] q
      by (simp only: write_page_out_def Let_def q_def [symmetric] w case_prod_conv snd_conv) simp
  qed
  then show ?case using Cons.IH by (auto simp: pager_write_pagelist.simps [abs_def] intro!: keeps_andThen keeps_whenP)
qed (simp add: keeps_def)

lemma spill_sizes:
  assumes run: "pagerStress n p = (SQLITE_OK, p')" and w: "eState p \<ge> PAGER_WRITER_CACHEMOD" and s: "sizes_agree p"
    and orig: "dbOrigSize p' = dbOrigSize p"
  shows "sizes_agree p'"
proof -
  let ?sync = "whenP (\<lambda>p. page_need_sync p n \<or> eState p = PAGER_WRITER_CACHEMOD) (syncJournal True)"
  let ?f = "andThen ?sync (andThen (pager_write_pagelist [n]) (upd (on_cache (PcacheMakeClean n))))"
  obtain r1 p1 where f: "?f p = (r1, p1)" by fastforce
  have err: "pager_error p1 r1 = (SQLITE_OK, p') \<Longrightarrow> r1 = SQLITE_OK \<and> p1 = p'"
    by (simp add: pager_error_def Let_def split: if_splits)
  have "p' = p \<or> pager_error p1 r1 = (SQLITE_OK, p')"
    using run unfolding pagerStress_def Let_def f by (simp split: if_splits)
  then consider "p' = p" | "?f p = (SQLITE_OK, p')" using err f by blast
  then show ?thesis
  proof cases
    case 2
    then obtain q r where q: "?sync p = (SQLITE_OK, q)" and r: "pager_write_pagelist [n] q = (SQLITE_OK, r)"
      and p': "p' = on_cache (PcacheMakeClean n) r"
      by (auto simp: andThen_ok simp del: pager_write_pagelist.simps)
    have "kept ?sync" by (intro kept)
    from keptD [OF this q] have c: "errCode q = errCode p" by (simp add: content_def)
    have "eState q \<ge> PAGER_WRITER_DBMOD"
    proof (cases "page_need_sync p n \<or> eState p = PAGER_WRITER_CACHEMOD")
      case True
      then have "syncJournal True p = (SQLITE_OK, q)" using q by (simp add: whenP_def)
      then show ?thesis by (auto simp: syncJournal_def andThen_ok)
    next
      case False
      then show ?thesis using q w by (cases "eState p") (simp_all add: whenP_def estate_order)
    qed
    then show ?thesis using keepsD [OF pagelist_state r] c s p' by (simp add: sizes_agree_def on_cache_def estate_order)
  qed (use s in simp)
qed

lemma open_txn_settings:
  assumes "open_txn g orig v p"
  shows "dbOrigSize p = length orig" "sectorSize p \<le> pageSize p"
    "locked g orig p \<or> is_writing g orig p \<and> jfd_open p \<and> eState p \<in> {PAGER_WRITER_CACHEMOD, PAGER_WRITER_DBMOD}"
proof -
  have c: "can_write g orig p" using assms by (simp add: open_txn_def)
  show "sectorSize p \<le> pageSize p" by (rule can_write_sector [OF c])
  from c consider "locked g orig p" | "is_writing g orig p" by (auto simp: can_write_def)
  then have "dbOrigSize p = length orig \<and> (locked g orig p \<or> is_writing g orig p \<and> jfd_open p \<and>
      eState p \<in> {PAGER_WRITER_CACHEMOD, PAGER_WRITER_DBMOD})"
  proof cases
    case 1
    then show ?thesis by (simp add: locked_def)
  next
    case 2
    then obtain segs rs b where "writing g orig segs rs b p" by (auto simp: is_writing_def)
    then show ?thesis using 2 by (simp add: writing_def segment_open_def plain_settings_def)
  qed
  then show "dbOrigSize p = length orig"
    "locked g orig p \<or> is_writing g orig p \<and> jfd_open p \<and> eState p \<in> {PAGER_WRITER_CACHEMOD, PAGER_WRITER_DBMOD}"
    by blast+
qed

lemma client_step_sizes:
  assumes step: "client_step p v p' v'" and t: "open_txn g orig v p" "open_txn g orig v' p'" and s: "sizes_agree p"
  shows "sizes_agree p'"
  using step
proof cases
  case (step_call c)
  note T = open_txn_settings [OF t(1)] open_txn_settings(1) [OF t(2)]
  show ?thesis
  proof (cases c)
    case (Fetch n)
    then show ?thesis using step_call fetch_sizes s by simp
  next
    case (MakeWritable n)
    then show ?thesis using step_call PagerWrite_sizes [of p n p'] s T by simp
  next
    case (Spill n)
    then have "is_writing g orig p" using step_call dirty_is_writing t(1) by (auto simp: open_txn_def)
    then have "eState p \<ge> PAGER_WRITER_CACHEMOD" by (rule is_writing_state)
    then show ?thesis using step_call Spill spill_sizes [of n p p'] s T by simp
  qed
qed (use s in \<open>simp_all add: sizes_agree_def poke_def set_data_def PagerDontWrite_def on_cache_def\<close>)

lemma in_txn_sizes:
  assumes "in_txn g orig v p"
  shows "sizes_agree p"
proof -
  obtain p0 v0 exFlag p1 where t: "txn_start g orig v0 p0" "PagerBegin exFlag p0 = (SQLITE_OK, p1)" "client_run p1 v0 p v"
    using assms by (auto simp: in_txn_def)
  have g: "geom_ok g orig" using t(1) by (simp add: txn_start_def)
  note O = begin_open [OF t(1,2)]
  have s: "sizes_agree p1"
    using t(1,2) by (auto simp: txn_start_def reading_def PagerBegin_def sizes_agree_def andThen_ok whenP_def
        dest!: os_ask_ok split: if_splits)
  have "sizes_agree p'' \<and> open_txn g orig v'' p'' \<and> (\<forall>d\<in>set (past p''). safe_disk g orig d)" if "client_run p1 v0 p'' v''" for p'' v''
    using that
  proof (induction rule: client_run.induct)
    case (run_step p2 v2 p3 v3)
    then show ?case using client_step_open [OF g _ _ run_step.hyps(2)] client_step_sizes [OF run_step.hyps(2)] by blast
  qed (use s O in simp)
  then show ?thesis using t(3) by blast
qed

section \<open>Properties\<close>


text \<open>
  C9. The pager refines a map from page numbers to contents: whatever is fetched, evicted, spilled or
  made writable in between, a page that the client fetches has the content the client wrote last
  (up to the change counter in the header of page 1, which belongs to the pager).
\<close>

theorem client_reads_back:
  assumes "in_txn g orig v p" "v n = Some d" "getPageNormal n False p = (SQLITE_OK, p')"
  shows "same_page n (page_data p' n) d"
proof -
  have "holds p v" using in_txn_open(2) [OF assms(1)] by (simp add: open_txn_def)
  then have "page_holds p' n d" using fetch_holds [OF _ assms(3)] assms(2) holdsD(2) by blast
  moreover obtain h where "PagerLookup p' n = Some h"
    using getPageNormal_ok(2) [OF assms(3)] by (auto simp: page_fetched_def PagerLookup_def)
  ultimately show ?thesis by (simp add: page_holds_def page_view_def page_data_def)
qed

end
