(* ===== verification/Pager_Rollback.thy ===== *)
theory Pager_Rollback
  imports Pager_Asserts
begin

text \<open>
  Rolling a transaction of one's own back. The journal has the synced segments \<open>segs\<close> and the
  segment \<open>s\<close> being filled, whose header has no magic and a count of zero. Pages of \<open>segs\<close> may
  have been written to the database file, and are restored there and in the cache; pages of \<open>s\<close>
  are restored in the cache only.
\<close>

section \<open>The state during a rollback\<close>

definition undoing :: "jgeom \<Rightarrow> u8 list list \<Rightarrow> jseg list \<Rightarrow> u8 list \<Rightarrow> pager \<Rightarrow> bool" where
  "undoing g orig segs c p \<longleftrightarrow>
     eState p = (if segs = [] then PAGER_WRITER_CACHEMOD else PAGER_WRITER_DBMOD) \<and>
     pageSize p = jg_ps g \<and> sectorSize p = jg_ss g \<and> \<not> noSync p \<and> jfd_open p \<and>
     journalHdr p = segs_end g 0 segs \<and> j_cur (disk p) = c \<and> between g orig segs (disk p) \<and> pcache_ok (pPCache p)"

text \<open>Of the pages \<open>J\<close> of the journal, those in \<open>D\<close> have been restored in the cache.\<close>

definition cache_restored :: "u8 list list \<Rightarrow> nat set \<Rightarrow> nat set \<Rightarrow> pager \<Rightarrow> bool" where
  "cache_restored orig J D p \<longleftrightarrow>
     (\<forall>n h. PagerLookup p n = Some h \<longrightarrow> 0 < n \<and> (n \<le> length orig \<and> (n \<in> D \<or> n \<notin> J) \<longrightarrow> pg_data h = orig ! (n - 1)))"

lemma undoing_safe: "undoing g orig segs c p \<Longrightarrow> safe_disk g orig (disk p)"
  by (auto simp: undoing_def intro: safe_between)

text \<open>The content that a record brings to the cache.\<close>

definition cache_fill :: "nat \<Rightarrow> u8 list \<Rightarrow> pager \<Rightarrow> pager" where
  "cache_fill n d p =
     (if PagerLookup p n \<noteq> None then
        (let p = set_data n d p in if n = 1 then p\<lparr>dbFileVers := take 16 (drop 24 d)\<rparr> else p)
      else p)"

lemma cache_fill_same [simp]:
  "disk (cache_fill n d p) = disk p" "past (cache_fill n d p) = past p" "os (cache_fill n d p) = os p"
  "mem (cache_fill n d p) = mem p" "dbSize (cache_fill n d p) = dbSize p" "cksumInit (cache_fill n d p) = cksumInit p"
  by (simp_all add: cache_fill_def set_data_def on_cache_def Let_def)

lemma cache_fill_undoing: "undoing g orig segs c p \<Longrightarrow> undoing g orig segs c (cache_fill n d p)"
  by (auto simp: undoing_def cache_fill_def set_data_def on_cache_def on_page_ok Let_def)

lemma cache_fill_restored:
  assumes "cache_restored orig J D p" "d = orig ! (n - 1)"
  shows "cache_restored orig J (insert n D) (cache_fill n d p)"
  using assms by (fastforce simp: cache_restored_def cache_fill_def set_data_def on_cache_def PagerLookup_def Let_def split: if_splits)

section \<open>One record\<close>

lemma playback_page_own:
  assumes "\<not> noSync p" "eState p \<noteq> PAGER_OPEN"
  shows "playback_page True off n d p =
    (let p1 = restore_nReserve n d p;
         (rc, p2) = (if eState p \<ge> PAGER_WRITER_DBMOD \<and> off \<le> journalHdr p then
                       (let (rc, p) = os_call (DWrite n d) p1
                        in (rc, if n > dbFileSize p then p\<lparr>dbFileSize := n\<rparr> else p))
                     else (SQLITE_OK, p1))
     in (rc, cache_fill n d p2))"
  using assms
  by (auto simp: playback_page_def playback_synced_def restore_nReserve_def cache_fill_def Let_def split: prod.splits)

lemma restore_nReserve_eq: "\<exists>x. restore_nReserve n d p = p\<lparr>nReserve := x\<rparr>"
proof (cases "n = 1 \<and> nReserve p \<noteq> d ! 20")
  case False
  then have "restore_nReserve n d p = p\<lparr>nReserve := nReserve p\<rparr>" by (simp add: restore_nReserve_def)
  then show ?thesis by blast
qed (auto simp: restore_nReserve_def)

text \<open>A record of a synced segment is restored in the file and in the cache.\<close>

lemma record_synced:
  assumes g: "geom_ok g orig" "segs_good g orig segs" and t: "t \<in> set segs" "r \<in> set (snd t)"
    and b: "bytes_at c off (record_bytes g (fst t) r)" "off + (jg_ps g + 8) \<le> segs_end g 0 segs"
    and p: "undoing g orig segs c p" "restored orig segs D p" "cache_restored orig J D p" "cksumInit p = fst t"
      "\<forall>d\<in>set (past p). safe_disk g orig d"
  shows "\<exists>rc p2. pager_playback_one_page True False off None p = (rc, off + (jg_ps g + 8), None, p2) \<and>
    outcome (safe_disk g orig) (\<lambda>p. undoing g orig segs c p \<and> restored orig segs (insert (fst r) D) p \<and>
      cache_restored orig J (insert (fst r) D) p \<and> cksumInit p = fst t) p (rc, p2)"
proof -
  have r: "0 < fst r" "fst r \<le> length orig" "fst r \<noteq> lock_page g" "snd r = orig ! (fst r - 1)"
    using g(2) t by (auto simp: segs_good_def)
  have len: "length (snd r) = jg_ps g" using recs_length [OF g(1,2) t(1)] t(2) by blast
  have lt: "fst r < 2 ^ 32" using r(2) geom_okD(6) [OF g(1)] by linarith
  have mem: "fst r \<in> seg_pages segs" using t by (auto simp: seg_pages_def)
  have ne: "segs \<noteq> []" using t(1) by auto
  have db: "fst r \<le> dbSize p" using p(2) r(2) by (simp add: restored_def)
  have P: "j_cur (disk p) = c" "pageSize p = jg_ps g" "\<not> noSync p" "eState p = PAGER_WRITER_DBMOD" "journalHdr p = segs_end g 0 segs"
    using p(1) ne by (simp_all add: undoing_def)
  define p1 where "p1 = restore_nReserve (fst r) (snd r) p"
  obtain rc p2 where io: "os_call (DWrite (fst r) (snd r)) p1 = (rc, p2)" by fastforce
  define p3 where "p3 = (if fst r > dbFileSize p2 then p2\<lparr>dbFileSize := fst r\<rparr> else p2)"
  have run: "pager_playback_one_page True False off None p = (rc, off + (jg_ps g + 8), None, cache_fill (fst r) (snd r) p3)"
    using one_record [OF b(1) len geom_okD(1) [OF g(1)] r(1) lt r(3) db P(1,2) p(4)] b(2)
    by (simp add: playback_page_own P p1_def [symmetric] io p3_def [symmetric] Let_def)
  obtain x where p1: "p1 = p\<lparr>nReserve := x\<rparr>" using restore_nReserve_eq unfolding p1_def by blast
  let ?I = "\<lambda>D p. undoing g orig segs c p \<and> restored orig segs D p \<and> cksumInit p = fst t"
  have step: "between g orig segs (disk_step (pageSize p) (disk p) (DWrite (fst r) (snd r)))"
    using p(1) ne r(1) mem by (intro between_db_write) (simp_all add: undoing_def)
  have I: "?I (insert (fst r) D) (do_io (DWrite (fst r) (snd r)) (p1\<lparr>os := o'\<rparr>))" for o'
    using p restored_write [OF p(2) r(1,2)] step r(4) by (simp add: p1 undoing_def restored_def do_io_def)
  have "outcome (safe_disk g orig) (\<lambda>p. ?I (insert (fst r) D) p \<and> pPCache p = pPCache p1) p1 (rc, p2)"
    unfolding io [symmetric]
  proof (rule outcome_os_call)
    show "safe_disk g orig (disk_step (pageSize p1) (disk p1) (DWrite (fst r) (snd r)))"
      using safe_between [OF step] by (simp add: p1)
    show "\<forall>d\<in>set (past p1). safe_disk g orig d" using p(5) by (simp add: p1)
  qed (use I in \<open>simp add: do_io_def\<close>)
  then have o2: "outcome (safe_disk g orig) (\<lambda>p3. ?I (insert (fst r) D) p3 \<and> pPCache p3 = pPCache p) p (rc, p3)"
    using p(1) by (auto simp: outcome_def p3_def p1 calm_def undoing_def restored_def)
  have "cache_restored orig J (insert (fst r) D) (cache_fill (fst r) (snd r) q)" if "pPCache q = pPCache p" for q
    using that p(3) r(4) by (intro cache_fill_restored) (simp_all add: cache_restored_def PagerLookup_def)
  with o2 have "outcome (safe_disk g orig) (\<lambda>p. undoing g orig segs c p \<and> restored orig segs (insert (fst r) D) p \<and>
      cache_restored orig J (insert (fst r) D) p \<and> cksumInit p = fst t) p (rc, cache_fill (fst r) (snd r) p3)"
    by (simp add: outcome_def calm_def cache_fill_undoing restored_def)
  with run show ?thesis by blast
qed

lemma restored_full: "restored orig segs D p \<Longrightarrow> seg_pages segs \<subseteq> D \<Longrightarrow> restored orig segs D' p"
  by (auto simp: restored_def)

text \<open>A record of the open segment is restored in the cache.\<close>

lemma record_open:
  assumes g: "geom_ok g orig" "segs_good g orig [s]" and t: "r \<in> set (snd s)"
    and b: "bytes_at c off (record_bytes g (fst s) r)" "segs_end g 0 segs \<le> off"
    and p: "undoing g orig segs c p" "restored orig segs D p" "seg_pages segs \<subseteq> D" "cache_restored orig J D p" "cksumInit p = fst s"
      "\<forall>d\<in>set (past p). safe_disk g orig d"
  shows "\<exists>rc p2. pager_playback_one_page True False off None p = (rc, off + (jg_ps g + 8), None, p2) \<and>
    outcome (safe_disk g orig) (\<lambda>p. undoing g orig segs c p \<and> restored orig segs (insert (fst r) D) p \<and>
      cache_restored orig J (insert (fst r) D) p \<and> cksumInit p = fst s) p (rc, p2)"
proof -
  have r: "0 < fst r" "fst r \<le> length orig" "fst r \<noteq> lock_page g" "snd r = orig ! (fst r - 1)"
    using g(2) t by (auto simp: segs_good_def)
  have len: "length (snd r) = jg_ps g" using recs_length [OF g, of s] t by simp
  have lt: "fst r < 2 ^ 32" using r(2) geom_okD(6) [OF g(1)] by linarith
  have db: "fst r \<le> dbSize p" using p(2) r(2) by (simp add: restored_def)
  have P: "j_cur (disk p) = c" "pageSize p = jg_ps g" "\<not> noSync p" "eState p \<noteq> PAGER_OPEN" "journalHdr p = segs_end g 0 segs"
    using p(1) by (simp_all add: undoing_def)
  define p1 where "p1 = restore_nReserve (fst r) (snd r) p"
  have run: "pager_playback_one_page True False off None p =
      (SQLITE_OK, off + (jg_ps g + 8), None, cache_fill (fst r) (snd r) p1)"
    using one_record [OF b(1) len geom_okD(1) [OF g(1)] r(1) lt r(3) db P(1,2) p(5)] b(2)
    by (simp add: playback_page_own P p1_def [symmetric] Let_def)
  obtain x where p1: "p1 = p\<lparr>nReserve := x\<rparr>" using restore_nReserve_eq unfolding p1_def by blast
  have "cache_restored orig J (insert (fst r) D) (cache_fill (fst r) (snd r) p1)"
    using p(4) r(4) by (intro cache_fill_restored) (simp_all add: p1 cache_restored_def PagerLookup_def)
  moreover have "undoing g orig segs c p1" "restored orig segs (insert (fst r) D) p1" "cksumInit p1 = fst s" "past p1 = past p" "calm p1 = calm p"
    using p restored_full [OF p(2,3), of "insert (fst r) D"] by (simp_all add: p1 undoing_def restored_def calm_def)
  ultimately show ?thesis using run p(6)
    by (simp add: outcome_def cache_fill_undoing calm_def restored_def)
qed

section \<open>One segment\<close>

text \<open>The state in which the header after the segments \<open>pre\<close> is read.\<close>

definition own_at :: "jgeom \<Rightarrow> u8 list list \<Rightarrow> jseg list \<Rightarrow> jseg \<Rightarrow> u8 list \<Rightarrow> jseg list \<Rightarrow> pager \<Rightarrow> bool" where
  "own_at g orig segs s c pre p \<longleftrightarrow>
     undoing g orig segs c p \<and> round_up (jg_ss g) (journalOff p) = segs_end g 0 pre \<and>
     (if pre = [] then segs = [] \<longrightarrow> d_cur (disk p) = orig else restored orig segs (seg_pages pre) p) \<and>
     cache_restored orig (seg_pages (segs @ [s])) (seg_pages pre) p"

lemma between_resize:
  assumes b: "between g orig segs d" and ne: "segs \<noteq> []" and diff: "length (d_cur d) \<noteq> length orig"
  shows "between g orig segs (disk_step ps d (resize_op ps (length orig) d))"
proof -
  have cov: "db_covered orig segs d"
    and un: "\<And>q. q < length orig \<Longrightarrow> Suc q \<notin> seg_pages segs \<Longrightarrow> q < length (d_cur d) \<and> d_cur d ! q = orig ! q"
    using b by (simp_all add: between_def db_part_def)
  note R = resize_disk [OF ne cov un diff, where ps = ps]
  have "db_part orig segs (disk_step ps d (resize_op ps (length orig) d))"
    using R(1-3) by (auto simp: db_part_def)
  then show ?thesis using b R(4-8) by (simp add: between_def disk_wf_def jouts_def)
qed

lemma own_truncate:
  assumes p: "undoing g orig segs c p" "segs = [] \<longrightarrow> d_cur (disk p) = orig" "\<forall>d\<in>set (past p). safe_disk g orig d"
  shows "outcome (safe_disk g orig)
    (\<lambda>p'. undoing g orig segs c p' \<and> restored orig segs {} p' \<and> journalOff p' = journalOff p \<and> cksumInit p' = cksumInit p \<and>
      pPCache p' = pPCache p)
    p (andThen (pager_truncate (length orig)) (upd (\<lambda>p. p\<lparr>dbSize := length orig, mxPgno := max (mxPgno p) (length orig)\<rparr>)) p)"
proof (cases "segs = []")
  case True
  then have "pager_truncate (length orig) p = (SQLITE_OK, p)"
    using p(1) by (simp add: pager_truncate_def whenP_def undoing_def estate_order)
  then show ?thesis using p True by (simp add: outcome_def andThen_def upd_def calm_def undoing_def restored_def)
next
  case False
  have st: "eState p \<ge> PAGER_WRITER_DBMOD" and b: "between g orig segs (disk p)"
    using p(1) False by (simp_all add: undoing_def)
  have un: "q < length orig \<Longrightarrow> Suc q \<notin> seg_pages segs \<Longrightarrow> q < length (d_cur (disk p)) \<and> d_cur (disk p) ! q = orig ! q" for q
    using b by (simp add: between_def db_part_def)
  show ?thesis
  proof (cases "length (d_cur (disk p)) = length orig")
    case True
    then show ?thesis using p st un
      by (auto simp: outcome_def andThen_def pager_truncate_eq os_ask_def upd_def calm_def
          undoing_def restored_def split: option.splits)
  next
    case diff: False
    let ?d' = "disk_step (pageSize p) (disk p) (resize_op (pageSize p) (length orig) (disk p))"
    have "db_covered orig segs (disk p)" using b by (simp add: between_def db_part_def)
    note R = resize_disk [OF False this un diff, where ps = "pageSize p"] and B = between_resize [OF b False diff, of "pageSize p"]
    then show ?thesis using p st diff safe_between [OF B] False
      by (auto simp: outcome_def andThen_def pager_truncate_eq os_ask_def os_call_eq upd_def calm_def do_io_def
          undoing_def restored_def simp del: disk_step.simps split: option.splits)
  qed
qed

lemma own_segment:
  assumes g: "geom_ok g orig" and h: "h = segs_end g 0 pre"
    and hdr: "readJournalHdr False (length c) p = (SQLITE_OK, n, length orig, p\<lparr>journalOff := h + jg_ss g, cksumInit := fst t\<rparr>)"
    and count: "n \<noteq> 0xffffffff"
      "(if n = 0 \<and> journalHdr p = h then (length c - (h + jg_ss g)) div (jg_ps g + 8) else n) = length (snd t)"
    and len: "\<And>r. r \<in> set (snd t) \<Longrightarrow> length (snd r) = jg_ps g"
    and b: "bytes_at c (h + jg_ss g) (records_bytes g (fst t) (snd t))"
    and p: "own_at g orig segs s c pre p" "\<forall>d\<in>set (past p). safe_disk g orig d"
    and Z: "\<And>x D. Z D \<Longrightarrow> Z (insert x D)" "Z (seg_pages pre)"
    and step: "\<And>off r p D. r \<in> set (snd t) \<Longrightarrow> bytes_at c off (record_bytes g (fst t) r) \<Longrightarrow> h + jg_ss g \<le> off \<Longrightarrow>
      off + (jg_ps g + 8) \<le> seg_end g h t \<Longrightarrow> Z D \<Longrightarrow> undoing g orig segs c p \<Longrightarrow> restored orig segs D p \<Longrightarrow>
      cache_restored orig (seg_pages (segs @ [s])) D p \<Longrightarrow> cksumInit p = fst t \<Longrightarrow> \<forall>d\<in>set (past p). safe_disk g orig d \<Longrightarrow>
      \<exists>rc p2. pager_playback_one_page True False off None p = (rc, off + (jg_ps g + 8), None, p2) \<and>
        outcome (safe_disk g orig) (\<lambda>p. undoing g orig segs c p \<and> restored orig segs (insert (fst r) D) p \<and>
          cache_restored orig (seg_pages (segs @ [s])) (insert (fst r) D) p \<and> cksumInit p = fst t) p (rc, p2)"
  shows "\<exists>rc stop nr' p'. playback_segment False (length c) False p = (rc, stop, nr', p') \<and> (rc = SQLITE_OK \<longrightarrow> \<not> stop) \<and> \<not> nr' \<and>
    outcome (safe_disk g orig) (own_at g orig segs s c (pre @ [t])) p (rc, p')"
proof -
  let ?S = "safe_disk g orig" and ?J = "seg_pages (segs @ [s])"
  let ?I = "\<lambda>D p. Z D \<and> undoing g orig segs c p \<and> restored orig segs D p \<and> cache_restored orig ?J D p \<and> cksumInit p = fst t"
  have ss: "0 < jg_ss g" using geom_okD(3) [OF g] by simp
  define p1 where "p1 = p\<lparr>journalOff := h + jg_ss g, cksumInit := fst t\<rparr>"
  have u: "undoing g orig segs c p" and cr: "cache_restored orig ?J (seg_pages pre) p" using p(1) by (simp_all add: own_at_def)
  have P1: "undoing g orig segs c p1" "cache_restored orig ?J (seg_pages pre) p1" "calm p1 = calm p" "\<forall>d\<in>set (past p1). ?S d"
    "journalOff p1 = h + jg_ss g" "cksumInit p1 = fst t" "JOURNAL_HDR_SZ p1 = jg_ss g" "JOURNAL_PG_SZ p1 = jg_ps g + 8" "journalHdr p1 = journalHdr p"
    using u cr p(2) by (simp_all add: p1_def undoing_def cache_restored_def PagerLookup_def calm_def JOURNAL_HDR_SZ_def JOURNAL_PG_SZ_def)
  define tr where "tr = (if journalOff p1 = JOURNAL_HDR_SZ p1 then
      andThen (pager_truncate (length orig)) (upd (\<lambda>p. p\<lparr>dbSize := length orig, mxPgno := max (mxPgno p) (length orig)\<rparr>)) p1
      else (SQLITE_OK, p1))"
  obtain rc2 p2 where p2: "tr = (rc2, p2)" by (cases tr)
  have o2: "outcome ?S (\<lambda>p'. ?I (seg_pages pre) p' \<and> journalOff p' = h + jg_ss g) p1 (rc2, p2)"
  proof (cases "pre = []")
    case True
    then have "tr = andThen (pager_truncate (length orig)) (upd (\<lambda>p. p\<lparr>dbSize := length orig, mxPgno := max (mxPgno p) (length orig)\<rparr>)) p1"
      using P1(5,7) h by (simp add: tr_def)
    moreover have "segs = [] \<longrightarrow> d_cur (disk p1) = orig" using p(1) True by (simp add: own_at_def p1_def)
    ultimately have "outcome ?S (\<lambda>p'. undoing g orig segs c p' \<and> restored orig segs {} p' \<and> journalOff p' = journalOff p1 \<and>
        cksumInit p' = cksumInit p1 \<and> pPCache p' = pPCache p1) p1 (rc2, p2)"
      using own_truncate [OF P1(1) _ P1(4)] p2 by simp
    then show ?thesis
      by (rule outcome_post) (use True P1 Z(2) in \<open>auto simp: cache_restored_def PagerLookup_def seg_pages_def\<close>)
  next
    case False
    then have "0 < h" using segs_end_pos [OF ss, of pre 0] h by simp
    then have "tr = (SQLITE_OK, p1)" using P1 by (simp add: tr_def)
    moreover have "restored orig segs (seg_pages pre) p1" using p(1) False by (simp add: own_at_def p1_def restored_def)
    ultimately show ?thesis using p2 P1 Z(2) by (simp add: outcome_def)
  qed
  have seg_run: "playback_segment False (length c) False p =
    (if rc2 \<noteq> SQLITE_OK then (rc2, True, False, p2)
     else (let (rc, stop, p) = playback_records (length (snd t)) (length c) p2 in (rc, stop, False, p)))"
  proof -
    have N: "(if (if n = 0xffffffff then (length c - JOURNAL_HDR_SZ p1) div JOURNAL_PG_SZ p1 else n) = 0 \<and> \<not> False \<and>
          journalHdr p1 + JOURNAL_HDR_SZ p1 = journalOff p1 then (length c - journalOff p1) div JOURNAL_PG_SZ p1
        else (if n = 0xffffffff then (length c - JOURNAL_HDR_SZ p1) div JOURNAL_PG_SZ p1 else n)) = length (snd t)"
      using count P1(5,7-9) by auto
    show ?thesis
      unfolding playback_segment_def hdr case_prod_conv Let_def p1_def [symmetric] N tr_def [symmetric] p2 by simp
  qed
  show ?thesis
  proof (cases "rc2 = SQLITE_OK")
    case False
    then show ?thesis using seg_run o2 P1(3) by (auto simp: outcome_def)
  next
    case True
    have P2: "?I (seg_pages pre) p2" "journalOff p2 = h + jg_ss g" "\<forall>d\<in>set (past p2). ?S d" "calm p1 \<longrightarrow> calm p2"
      using o2 True by (simp_all add: outcome_def)
    have free: "?I D (p\<lparr>journalOff := x\<rparr>) = ?I D p" for D p x
      by (simp add: undoing_def restored_def cache_restored_def PagerLookup_def)
    have hi: "h + jg_ss g + length (snd t) * (jg_ps g + 8) \<le> seg_end g h t" by (simp add: seg_end_def)
    have "\<exists>rc stop p'. playback_records (length (snd t)) (length c) p2 = (rc, stop, p') \<and> (rc = SQLITE_OK \<longrightarrow> \<not> stop) \<and>
        outcome ?S (\<lambda>p'. ?I (seg_pages pre \<union> fst ` set (snd t)) p' \<and> journalOff p' = h + jg_ss g + length (snd t) * (jg_ps g + 8)) p2 (rc, p')"
    proof (rule records_loop_gen [where lo = "h + jg_ss g" and I = ?I, OF len _ free subset_refl b P2(2) le_refl hi P2(1,3)])
      fix off r p D
      assume a: "r \<in> set (snd t)" "bytes_at c off (record_bytes g (fst t) r)" "h + jg_ss g \<le> off"
        "off + (jg_ps g + 8) \<le> seg_end g h t" "?I D p" "\<forall>d\<in>set (past p). ?S d"
      then have "Z (insert (fst r) D)" using Z(1) by blast
      then show "\<exists>rc p2. pager_playback_one_page True False off None p = (rc, off + (jg_ps g + 8), None, p2) \<and>
          outcome ?S (?I (insert (fst r) D)) p (rc, p2)"
        using step [OF a(1-4), of D p] a(5,6) by (auto intro: outcome_post)
    qed
    then obtain rc stop p' where l: "playback_records (length (snd t)) (length c) p2 = (rc, stop, p')" "rc = SQLITE_OK \<longrightarrow> \<not> stop"
      and o': "outcome ?S (\<lambda>p'. ?I (seg_pages pre \<union> fst ` set (snd t)) p' \<and>
        journalOff p' = h + jg_ss g + length (snd t) * (jg_ps g + 8)) p2 (rc, p')" by blast
    have "outcome ?S (own_at g orig segs s c (pre @ [t])) p2 (rc, p')"
      using o' by (rule outcome_post) (auto simp: own_at_def seg_pages_append segs_end_append h seg_end_def)
    moreover have "calm p \<longrightarrow> calm p2" using P1(3) P2(4) by simp
    ultimately have "outcome ?S (own_at g orig segs s c (pre @ [t])) p (rc, p')" by (auto simp: outcome_def)
    with seg_run l True show ?thesis by auto
  qed
qed

section \<open>The whole journal\<close>

text \<open>
  The journal of a transaction under way: the synced segments, the open one, and nothing after it.
  The last is so when the journal was empty when the transaction began; in persistent mode there
  can be old records behind it, and it is the checksums that keep them from being rolled back.
\<close>

definition own_journal :: "jgeom \<Rightarrow> u8 list list \<Rightarrow> jseg list \<Rightarrow> jseg \<Rightarrow> u8 list \<Rightarrow> bool" where
  "own_journal g orig segs s c \<longleftrightarrow>
     segs_at g (length orig) c 0 segs \<and> segs_good g orig (segs @ [s]) \<and>
     bytes_at c (segs_end g 0 segs + 8) (replicate 4 0) \<and>
     bytes_at c (segs_end g 0 segs + 12) (header_tail g (fst s) (length orig)) \<and>
     bytes_at c (segs_end g 0 segs + jg_ss g) (records_bytes g (fst s) (snd s)) \<and>
     length c = seg_end g (segs_end g 0 segs) s"

lemma own_journal_good: "own_journal g orig segs s c \<Longrightarrow> segs_good g orig segs \<and> segs_good g orig [s]"
  by (simp add: own_journal_def segs_good_def)

lemma readJournalHdr_open:
  assumes g: "geom_ok g orig" and j: "own_journal g orig segs s c"
    and p: "j_cur (disk p) = c" "pageSize p = jg_ps g" "sectorSize p = jg_ss g" "journalHdr p = segs_end g 0 segs"
    and h: "round_up (jg_ss g) (journalOff p) = segs_end g 0 segs"
  shows "readJournalHdr False (length c) p =
    (SQLITE_OK, 0, length orig, p\<lparr>journalOff := segs_end g 0 segs + jg_ss g, cksumInit := fst s\<rparr>)"
proof -
  let ?h = "segs_end g 0 segs"
  note G = geom_okD [OF g]
  have le: "?h + jg_ss g \<le> length c" using j seg_end_gt [of ?h g s] by (simp add: own_journal_def)
  have off: "journalHdrOffset p = ?h" using h p by (simp add: journalHdrOffset_round_up)
  have tail: "bytes_at c (?h + 12) (header_tail g (fst s) (length orig))" using j by (simp add: own_journal_def)
  have zero: "read32bits c (?h + 8) = Some 0"
  proof -
    have b: "bytes_at c (?h + 8) (replicate 4 0)" using j by (simp add: own_journal_def)
    have "os_read c 4 (?h + 8) = Some (replicate 4 0)" using bytes_at_read(2) [OF b] by simp
    then show ?thesis by (simp add: read32bits_def Get4byte_def numeral_eq_Suc)
  qed
  have n0: "unat (word_of_nat (length orig) :: u32) = length orig"
    "unat (word_of_nat (jg_ss g) :: u32) = jg_ss g" "unat (word_of_nat (jg_ps g) :: u32) = jg_ps g"
    using G(2,4,6) by (intro unat_small; simp)+
  have same: "p\<lparr>pageSize := jg_ps g, sectorSize := jg_ss g, journalOff := j, cksumInit := k\<rparr> = p\<lparr>journalOff := j, cksumInit := k\<rparr>" for j k
    using p by (cases p) simp
  show ?thesis
  proof (cases "?h = 0")
    case True
    note rd = header_tail_reads [OF tail, unfolded True add_0] and z = zero [unfolded True add_0]
    show ?thesis
      using le rd z G(1,5) True by (simp add: readJournalHdr_def Let_def off JOURNAL_HDR_SZ_def p n0 same)
  next
    case False
    then show ?thesis
      using le zero header_tail_reads [OF tail] by (simp add: readJournalHdr_def Let_def off JOURNAL_HDR_SZ_def p n0)
  qed
qed

lemma segs_end_less: "0 < jg_ss g \<Longrightarrow> seg_end g (segs_end g 0 pre) t \<le> segs_end g 0 (pre @ t # post)"
proof -
  assume ss: "0 < jg_ss g"
  have "segs_end g h (pre @ t # post) = segs_end g (segs_end g h pre) (t # post)" for h
    by (induction pre arbitrary: h) simp_all
  then show ?thesis using seg_end_le_round [OF ss, of "segs_end g 0 pre" t post] by simp
qed

lemma own_segment_step:
  assumes g: "geom_ok g orig" and j: "own_journal g orig segs s c" and split: "segs @ [s] = pre @ t # post"
    and p: "own_at g orig segs s c pre p" "\<forall>d\<in>set (past p). safe_disk g orig d"
  shows "\<exists>rc stop nr' p'. playback_segment False (length c) False p = (rc, stop, nr', p') \<and> (rc = SQLITE_OK \<longrightarrow> \<not> stop) \<and> \<not> nr' \<and>
    outcome (safe_disk g orig) (own_at g orig segs s c (pre @ [t])) p (rc, p')"
proof -
  let ?h = "segs_end g 0 pre"
  have ss: "0 < jg_ss g" using geom_okD(3) [OF g] by simp
  have good: "segs_good g orig segs" "segs_good g orig [s]" using own_journal_good [OF j] by simp_all
  have u: "undoing g orig segs c p" and off: "round_up (jg_ss g) (journalOff p) = ?h" using p(1) by (simp_all add: own_at_def)
  have P: "j_cur (disk p) = c" "pageSize p = jg_ps g" "sectorSize p = jg_ss g" "journalHdr p = segs_end g 0 segs"
    using u by (simp_all add: undoing_def)
  show ?thesis
  proof (cases "post = []")
    case True
    then have t: "t = s" "pre = segs" using split by simp_all
    have len: "length (snd r) = jg_ps g" if "r \<in> set (snd s)" for r using recs_length [OF g good(2), of s] that by simp
    have b: "bytes_at c (segs_end g 0 segs + jg_ss g) (records_bytes g (fst s) (snd s))" using j by (simp add: own_journal_def)
    have "length c - (segs_end g 0 segs + jg_ss g) = length (snd s) * (jg_ps g + 8)"
      using j by (simp add: own_journal_def seg_end_def)
    then have count: "(if (0 :: nat) = 0 \<and> journalHdr p = segs_end g 0 segs
        then (length c - (segs_end g 0 segs + jg_ss g)) div (jg_ps g + 8) else 0) = length (snd s)"
      using P(4) by simp
    show ?thesis unfolding t
      by (rule own_segment [OF g refl readJournalHdr_open [OF g j P off [unfolded t]] _ count len b p(1) [unfolded t] p(2),
            where Z = "\<lambda>D. seg_pages segs \<subseteq> D"])
        (auto intro!: record_open [OF g good(2)])
  next
    case False
    then obtain post' where post: "post = post' @ [s]" "segs = pre @ t # post'"
      using split by (cases post rule: rev_cases) auto
    have tin: "t \<in> set segs" using post by simp
    have len: "length (snd r) = jg_ps g" if "r \<in> set (snd t)" for r using recs_length [OF g good(1) tin] that by simp
    have seg: "seg_at g (length orig) c ?h t"
      using segs_at_drop [of g "length orig" c 0 pre "t # post'"] j post(2) by (simp add: own_journal_def)
    then have b: "bytes_at c (?h + jg_ss g) (records_bytes g (fst t) (snd t))" by (simp add: seg_at_def)
    have lt: "length (snd t) < 2 ^ 32 - 1" using good(1) tin by (simp add: segs_good_def)
    have fin: "seg_end g ?h t \<le> segs_end g 0 segs" using segs_end_less [OF ss] post(2) by simp
    then have ne: "journalHdr p \<noteq> ?h" using P(4) seg_end_gt [of ?h g t] ss by simp
    have hdr: "readJournalHdr False (length c) p =
        (SQLITE_OK, length (snd t), length orig, p\<lparr>journalOff := ?h + jg_ss g, cksumInit := fst t\<rparr>)"
      using lt by (intro readJournalHdr_seg [OF g seg _ P(1-3) off [symmetric]]) simp
    show ?thesis
      by (rule own_segment [OF g refl hdr _ _ len b p, where Z = "\<lambda>D. True"])
        (use lt ne fin in \<open>auto intro!: record_synced [OF g good(1) tin]\<close>)
  qed
qed

lemma own_segments_end:
  assumes g: "geom_ok g orig" and j: "own_journal g orig segs s c"
    and p: "own_at g orig segs s c (segs @ [s]) p" "\<forall>d\<in>set (past p). safe_disk g orig d"
  shows "\<exists>nr' p'. playback_segment False (length c) nr p = (SQLITE_OK, True, nr', p') \<and>
    outcome (safe_disk g orig) (\<lambda>p'. undoing g orig segs c p' \<and> d_cur (disk p') = orig \<and> dbSize p' = length orig \<and>
      cache_restored orig {} {} p') p (SQLITE_OK, p')"
proof -
  have ss: "0 < jg_ss g" using geom_okD(3) [OF g] by simp
  have u: "undoing g orig segs c p" and off: "round_up (jg_ss g) (journalOff p) = segs_end g 0 (segs @ [s])"
    and r: "restored orig segs (seg_pages (segs @ [s])) p" and cr: "cache_restored orig (seg_pages (segs @ [s])) (seg_pages (segs @ [s])) p"
    using p(1) by (simp_all add: own_at_def)
  have P: "sectorSize p = jg_ss g" using u by (simp add: undoing_def)
  have "length c \<le> segs_end g 0 (segs @ [s])"
    using j round_up_ge [OF ss] by (simp add: own_journal_def segs_end_append)
  then have "readJournalHdr False (length c) p = (SQLITE_DONE, 0, 0, p\<lparr>journalOff := segs_end g 0 (segs @ [s])\<rparr>)"
    using off P ss by (simp add: readJournalHdr_def Let_def journalHdrOffset_round_up JOURNAL_HDR_SZ_def)
  then have run: "playback_segment False (length c) nr p = (SQLITE_OK, True, nr, p\<lparr>journalOff := segs_end g 0 (segs @ [s])\<rparr>)"
    by (simp add: playback_segment_def)
  have "d_cur (disk p) = orig" by (rule restored_all [OF restored_full [OF r]]) (simp add: seg_pages_append)
  then have "outcome (safe_disk g orig) (\<lambda>p'. undoing g orig segs c p' \<and> d_cur (disk p') = orig \<and> dbSize p' = length orig \<and>
      cache_restored orig {} {} p') p (SQLITE_OK, p\<lparr>journalOff := segs_end g 0 (segs @ [s])\<rparr>)"
    using u r cr p(2) by (auto simp: outcome_def undoing_def restored_def cache_restored_def PagerLookup_def calm_def)
  with run show ?thesis by blast
qed

lemma own_loop:
  assumes g: "geom_ok g orig" and j: "own_journal g orig segs s c"
    and p: "own_at g orig segs s c [] p" "\<forall>d\<in>set (past p). safe_disk g orig d"
  shows "\<exists>rc p'. playback_loop (length c + 2) False (length c) False p = Some (rc, p') \<and>
    outcome (safe_disk g orig) (\<lambda>p'. undoing g orig segs c p' \<and> d_cur (disk p') = orig \<and> dbSize p' = length orig \<and>
      cache_restored orig {} {} p') p (rc, p')"
proof (rule segments_loop_gen [where A = "own_at g orig segs s c" and pre = "[]" and post = "segs @ [s]" and segs = "segs @ [s]"])
  have ss: "32 \<le> jg_ss g" using geom_okD(3) [OF g] .
  have "length segs * jg_ss g \<le> length c"
    using segs_count [of g "length orig" c 0 segs] j ss by (cases "segs = []") (auto simp: own_journal_def)
  moreover have "length segs \<le> length segs * jg_ss g" using ss by (cases "jg_ss g") simp_all
  ultimately have "length segs \<le> length c" using le_trans by blast
  then show "length (segs @ [s]) < length c + 2" by simp
next
  fix pre t post nr q
  assume a: "segs @ [s] = pre @ t # post" "own_at g orig segs s c pre q" "\<forall>d\<in>set (past q). safe_disk g orig d" "nr \<longrightarrow> False"
  show "\<exists>rc stop nr' p'. playback_segment False (length c) nr q = (rc, stop, nr', p') \<and> (rc = SQLITE_OK \<longrightarrow> \<not> stop) \<and>
      outcome (safe_disk g orig) (own_at g orig segs s c (pre @ [t])) q (rc, p')"
    using own_segment_step [OF g j a(1-3)] a(4) by auto
qed (use p own_segments_end [OF g j] in auto)

section \<open>The end of a rollback\<close>

lemma own_sync_runs:
  assumes j: "own_journal g orig segs s c"
  shows "runs True (safe_disk g orig) (\<lambda>p. undoing g orig segs c p \<and> d_cur (disk p) = orig)
    (whenP (\<lambda>p. eState p \<ge> PAGER_WRITER_DBMOD \<or> eState p = PAGER_OPEN) PagerSync)
    (\<lambda>p. finalizing (jg_ss g) (has_chain g orig) (disk p) p \<and> db_is orig (disk p) \<and> jfd_open p)"
proof (rule runs_when)
  let ?P = "\<lambda>p. undoing g orig segs c p \<and> d_cur (disk p) = orig"
  have good: "segs_good g orig segs" using own_journal_good [OF j] by simp
  have chain: "jouts (jg_ss g) (has_chain g orig) d" if "between g orig segs d" for d
    using that good by (auto simp: between_def jouts_def has_chain_def)
  show "finalizing (jg_ss g) (has_chain g orig) (disk p) p \<and> db_is orig (disk p) \<and> jfd_open p"
    if "?P p" "\<not> (eState p \<ge> PAGER_WRITER_DBMOD \<or> eState p = PAGER_OPEN)" for p
  proof -
    have b: "between g orig segs (disk p)" and "segs = []" using that by (auto simp: undoing_def split: if_splits)
    then have "db_is orig (disk p)" using that(1) by (simp add: between_def db_part_def db_covered_def db_is_def)
    then show ?thesis using that(1) b chain [OF b] by (simp add: finalizing_def same_db_def undoing_def between_def)
  qed
  show "runs True (safe_disk g orig) (\<lambda>p. ?P p \<and> (eState p \<ge> PAGER_WRITER_DBMOD \<or> eState p = PAGER_OPEN)) PagerSync
    (\<lambda>p. finalizing (jg_ss g) (has_chain g orig) (disk p) p \<and> db_is orig (disk p) \<and> jfd_open p)"
    unfolding PagerSync_def
  proof (rule runs_andThen [OF runs_ask])
    show "?P (p\<lparr>os := o'\<rparr>)" if "?P p \<and> (eState p \<ge> PAGER_WRITER_DBMOD \<or> eState p = PAGER_OPEN)" for p o'
      using that by (simp add: undoing_def)
    show "runs True (safe_disk g orig) ?P (whenP (\<lambda>p. \<not> noSync p) (os_call DSync))
      (\<lambda>p. finalizing (jg_ss g) (has_chain g orig) (disk p) p \<and> db_is orig (disk p) \<and> jfd_open p)"
    proof (intro runs_when runs_io)
      fix p o'
      assume p: "?P p \<and> \<not> noSync p"
      let ?d = "disk_step (pageSize p) (disk p) DSync"
      have b: "between g orig segs (disk p)" using p by (simp add: undoing_def)
      have isd: "db_is orig ?d" using p by (simp add: db_is_def)
      have ch: "jouts (jg_ss g) (has_chain g orig) ?d" using chain [OF b] by (simp add: jouts_def)
      show "safe_disk g orig ?d" by (rule safe_settled [OF isd _ ch]) (simp add: same_db_def)
      show "finalizing (jg_ss g) (has_chain g orig) (disk (do_io DSync (p\<lparr>os := o'\<rparr>))) (do_io DSync (p\<lparr>os := o'\<rparr>)) \<and>
        db_is orig (disk (do_io DSync (p\<lparr>os := o'\<rparr>))) \<and> jfd_open (do_io DSync (p\<lparr>os := o'\<rparr>))"
        using p isd ch b by (simp add: finalizing_def same_db_def do_io_def undoing_def between_def disk_wf_def)
    qed (simp add: undoing_def)
  qed
qed

text \<open>What the end of the transaction does to the cache.\<close>

lemma end_transaction_cache:
  assumes run: "pager_end_transaction True hasSuper False p = (SQLITE_OK, p')"
  shows "\<exists>q. content q = content (releaseAllSavepoints p) \<and> eState p' = PAGER_READER \<and> dbSize p' = dbSize q \<and>
    d_cur (disk p') = d_cur (disk q) \<and> pPCache p' = PcacheTruncate (pageSize q) (dbSize q) (PcacheCleanAll (pPCache q))"
proof -
  obtain r1 q where fj: "finalize_journal hasSuper (releaseAllSavepoints p) = (r1, q)" by fastforce
  have c: "content q = content (releaseAllSavepoints p)" by (rule keptD [OF kept_finalize fj])
  have "r1 = SQLITE_OK"
    using run fj by (auto simp: pager_end_transaction_def Let_def os_ask_def split: if_splits prod.splits)
  then show ?thesis
    using run fj c by (intro exI [of _ q]) (auto simp: pager_end_transaction_def Let_def os_ask_def on_cache_def split: if_splits prod.splits)
qed


lemma own_playback:
  assumes g: "geom_ok g orig" and j: "own_journal g orig segs s c"
    and u: "undoing g orig segs c p" "segs = [] \<longrightarrow> d_cur (disk p) = orig" "cache_restored orig (seg_pages (segs @ [s])) {} p"
    and past: "\<forall>d\<in>set (past p). safe_disk g orig d"
    and super: "readSuperJournal c (1 + mxPathname) = []"
  shows "\<exists>rc p'. pager_playback superExists mxPathname False p = Some (rc, p') \<and>
    (\<forall>d\<in>set (past p'). safe_disk g orig d) \<and>
    (rc = SQLITE_OK \<longrightarrow> eState p' = PAGER_READER \<and> dbSize p' = length orig \<and> d_cur (disk p') = orig \<and>
      (\<forall>n h. PagerLookup p' n = Some h \<longrightarrow> \<not> pg_dirty h \<and> pg_data h = db_page (jg_ps g) (disk p') n)) \<and>
    (calm p \<longrightarrow> rc = SQLITE_OK)"
proof -
  let ?S = "safe_disk g orig"
  let ?Q = "\<lambda>p'. undoing g orig segs c p' \<and> d_cur (disk p') = orig \<and> dbSize p' = length orig \<and> cache_restored orig {} {} p'"
  have cur: "j_cur (disk p) = c" "pageSize p = jg_ps g" using u(1) by (simp_all add: undoing_def)
  define p0 where "p0 = p\<lparr>journalOff := 0\<rparr>"
  have at0: "own_at g orig segs s c [] p0" "\<forall>d\<in>set (past p0). ?S d" "calm p0 = calm p"
    using u past by (simp_all add: p0_def own_at_def undoing_def round_up_def calm_def cache_restored_def PagerLookup_def seg_pages_def)
  obtain r1 p1 where l: "playback_loop (length c + 2) False (length c) False p0 = Some (r1, p1)"
    and o1: "outcome ?S ?Q p0 (r1, p1)" using own_loop [OF g j at0(1,2)] by blast
  show ?thesis
  proof (cases "r1 = SQLITE_OK")
    case False
    then show ?thesis using l o1 at0(3) super
      by (auto simp: pager_playback_def end_playback_def Let_def cur p0_def [symmetric] outcome_def calm_def)
  next
    case True
    define p2 where "p2 = p1\<lparr>pageSize := jg_ps g, changeCountDone := False\<rparr>"
    define hs where "hs = (readSuperJournal (j_cur (disk p1)) (1 + mxPathname) \<noteq> [])"
    have P2: "?Q p2" "\<forall>d\<in>set (past p2). ?S d" "calm p \<longrightarrow> calm p2"
      using o1 True at0(3) by (auto simp: p2_def outcome_def undoing_def cache_restored_def PagerLookup_def calm_def)
    let ?sync = "whenP (\<lambda>p. eState p \<ge> PAGER_WRITER_DBMOD \<or> eState p = PAGER_OPEN) PagerSync"
    define f where "f = andThen ?sync (pager_end_transaction True hs False)"
    have f: "runs True ?S (\<lambda>p. undoing g orig segs c p \<and> d_cur (disk p) = orig) f (\<lambda>p. db_is orig (disk p))"
      unfolding f_def by (rule runs_andThen [OF own_sync_runs [OF j] end_recovery_runs [OF g]])
    obtain r4 p4 where p4: "f p2 = (r4, p4)" by fastforce
    have run: "pager_playback superExists mxPathname False p = Some (r4, p4\<lparr>sectorSize := sectorSize p\<rparr>)"
      using l True super p4
      by (simp add: pager_playback_def Let_def cur p0_def [symmetric] end_playback_def p2_def [symmetric] hs_def [symmetric]
          f_def [symmetric] del: One_nat_def)
    note F = runsD [OF f conjI [OF conjunct1 [OF P2(1)]] P2(2) p4]
    have cache: "eState p4 = PAGER_READER \<and> dbSize p4 = length orig \<and>
        (\<forall>n h. PagerLookup p4 n = Some h \<longrightarrow> \<not> pg_dirty h \<and> pg_data h = db_page (jg_ps g) (disk p4) n)" if ok: "r4 = SQLITE_OK"
    proof -
      obtain q1 where q1: "?sync p2 = (SQLITE_OK, q1)" "pager_end_transaction True hs False q1 = (SQLITE_OK, p4)"
        using p4 ok by (auto simp: f_def andThen_ok)
      have "kept ?sync" unfolding PagerSync_def by (intro kept) simp
      then have c1: "content q1 = content p2" using keptD q1(1) by blast
      obtain q where q: "content q = content (releaseAllSavepoints q1)" "eState p4 = PAGER_READER" "dbSize p4 = dbSize q"
        "d_cur (disk p4) = d_cur (disk q)" "pPCache p4 = PcacheTruncate (pageSize q) (dbSize q) (PcacheCleanAll (pPCache q))"
        using end_transaction_cache [OF q1(2)] by blast
      have "content (releaseAllSavepoints q1) = content q1" by (simp add: content_def releaseAllSavepoints_def)
      then have cq: "content q = content p2" using q(1) c1 by simp
      then have Q: "pageSize q = jg_ps g" "dbSize q = length orig" "d_cur (disk q) = orig" "pcache_ok (pPCache q)"
        using P2(1) cores_ok [of "pPCache q" "pPCache p2"] by (simp_all add: content_def undoing_def)
      have data: "0 < n \<and> (n \<le> length orig \<longrightarrow> pg_data k = orig ! (n - 1))" if k: "PagerLookup q n = Some k" for n k
      proof -
        obtain k' where "PagerLookup p2 n = Some k'" "core k' = core k" by (rule content_lookup [OF cq [symmetric] k])
        then show ?thesis using P2(1) core_flags(1) [of k' k] by (auto simp: cache_restored_def)
      qed
      have "\<not> pg_dirty h \<and> pg_data h = db_page (jg_ps g) (disk p4) n" if h: "PagerLookup p4 n = Some h" for n h
      proof -
        note E = ended_pages [OF Q(4), of "pageSize q" "dbSize q" n h]
        have "pc_pages (PcacheTruncate (pageSize q) (dbSize q) (PcacheCleanAll (pPCache q))) n = Some h"
          using h q(5) by (simp add: PagerLookup_def)
        with E data Q q(4) show ?thesis by (fastforce simp: PagerLookup_def db_page_def)
      qed
      then show ?thesis using q(2,3) Q(2) by auto
    qed
    have same: "PagerLookup (p4\<lparr>sectorSize := x\<rparr>) = PagerLookup p4" for x by (rule ext) (simp add: PagerLookup_def)
    have "d_cur (disk p4) = orig" if "r4 = SQLITE_OK" using F P2(1) that by (simp add: db_is_def)
    then show ?thesis
      using run F P2 cache by (auto simp: calm_def same)
  qed
qed

section \<open>The property\<close>

lemma transaction_journal:
  assumes g: "geom_ok g orig" and w: "writing g orig segs rs b p" and len: "length (j_cur (disk p)) = journalOff p"
  shows "own_journal g orig segs (cksumInit p, rs) (j_cur (disk p))"
proof -
  let ?s = "(cksumInit p, rs)"
  have o: "in_segment g orig segs ?s (disk p)" "journalOff p = seg_end g (segs_end g 0 segs) ?s"
    using w by (simp_all add: writing_def segment_open_def)
  then have "segs_good g orig (segs @ [?s])" by (auto simp: in_segment_def between_def segs_good_def)
  moreover have "segs_at g (length orig) (j_cur (disk p)) 0 segs"
    using o(1) jouts_sync by (auto simp: in_segment_def between_def)
  ultimately show ?thesis using o len by (simp add: own_journal_def in_segment_def Let_def)
qed

lemma transaction_undoing:
  assumes w: "writing g orig segs rs b p" and h: "holds p v" and s: "sizes_agree p"
  shows "undoing g orig segs (j_cur (disk p)) p" "segs = [] \<longrightarrow> d_cur (disk p) = orig"
    "cache_restored orig (seg_pages (segs @ [(cksumInit p, rs)])) {} p"
proof -
  have o: "segment_open g orig segs (cksumInit p, rs) p" and c: "cache_ok g orig segs (bv.pages b) (pPCache p)"
    and st: "eState p = (if segs = [] then PAGER_WRITER_CACHEMOD else PAGER_WRITER_DBMOD)"
    using w unfolding writing_def by blast+
  have J: "bv.pages b = seg_pages (segs @ [(cksumInit p, rs)])"
    using w by (simp add: writing_def seg_pages_append seg_pages_def image_Un)
  have b: "between g orig segs (disk p)" and pl: "plain_settings g orig p" "jfd_open p" "journalHdr p = segs_end g 0 segs"
    using o by (simp_all add: segment_open_def in_segment_def)
  show "undoing g orig segs (j_cur (disk p)) p"
    using st b pl cache_okD(1) [OF c] by (simp add: undoing_def plain_settings_def)
  show "cache_restored orig (seg_pages (segs @ [(cksumInit p, rs)])) {} p"
    unfolding cache_restored_def J [symmetric]
  proof (intro allI impI)
    fix n h
    assume "PagerLookup p n = Some h"
    then have "page_ok g orig segs (bv.pages b) n h" using cache_okD(2) [OF c] by (simp add: PagerLookup_def)
    then show "0 < n \<and> (n \<le> length orig \<and> (n \<in> {} \<or> n \<notin> bv.pages b) \<longrightarrow> pg_data h = orig ! (n - 1))"
      by (simp add: page_ok_def)
  qed
  show "segs = [] \<longrightarrow> d_cur (disk p) = orig"
  proof
    assume e: "segs = []"
    have "\<forall>q<length orig. q < length (d_cur (disk p)) \<and> d_cur (disk p) ! q = orig ! q"
      using b e by (simp add: between_def db_part_def seg_pages_def)
    moreover from this have "length orig \<le> length (d_cur (disk p))" by (meson linorder_not_le order_less_irrefl)
    moreover have "length (d_cur (disk p)) \<le> length orig"
      using content_okD(7) [OF holdsD(1) [OF h]] s pl(1) st e by (simp add: sizes_agree_def plain_settings_def estate_order)
    ultimately show "d_cur (disk p) = orig" by (intro nth_equalityI) auto
  qed
qed

text \<open>
  C7. \<open>sqlite3PagerRollback\<close> undoes a transaction: when it returns \<open>SQLITE_OK\<close>, and it does if nothing
  fails, the file is what it was before the transaction, the pager reads again, and every page in
  the cache is clean and as in the file; and a crash at any system call of it is harmless. The journal is not to have old
  records behind those of the transaction, nor the name of a super-journal.
\<close>

theorem rollback_undoes_transaction:
  assumes "in_txn g orig v p" "eState p \<ge> PAGER_WRITER_CACHEMOD" "length (j_cur (disk p)) = journalOff p"
    "readSuperJournal (j_cur (disk p)) (1 + mxPathname) = []"
  shows "\<exists>rc p'. PagerRollback superExists mxPathname p = Some (rc, p') \<and>
    (rc = SQLITE_OK \<longrightarrow> eState p' = PAGER_READER \<and> dbSize p' = length orig \<and> d_cur (disk p') = orig \<and>
      (\<forall>n h. PagerLookup p' n = Some h \<longrightarrow> \<not> pg_dirty h \<and> pg_data h = db_page (jg_ps g) (disk p') n)) \<and>
    (calm p \<longrightarrow> rc = SQLITE_OK) \<and>
    (\<forall>d\<in>set (past p'). \<forall>j db. crash_disk (jg_ss g) d j db \<longrightarrow> recovers_to g mxPathname orig j db)"
proof -
  note T = in_txn_open [OF assms(1)]
  have h: "holds p v" using T(2) by (simp add: open_txn_def)
  have "\<not> locked g orig p" using assms(2) by (auto simp: locked_def estate_order)
  then have st: "is_writing g orig p" "jfd_open p" "eState p \<in> {PAGER_WRITER_CACHEMOD, PAGER_WRITER_DBMOD}"
    using open_txn_settings(3) [OF T(2)] by auto
  then obtain segs rs b where w: "writing g orig segs rs b p" by (auto simp: is_writing_def)
  note U = transaction_undoing [OF w h in_txn_sizes [OF assms(1)]]
  obtain rc p1 where pb: "pager_playback superExists mxPathname False p = Some (rc, p1)" "\<forall>d\<in>set (past p1). safe_disk g orig d"
    "rc = SQLITE_OK \<longrightarrow> eState p1 = PAGER_READER \<and> dbSize p1 = length orig \<and> d_cur (disk p1) = orig \<and>
      (\<forall>n h. PagerLookup p1 n = Some h \<longrightarrow> \<not> pg_dirty h \<and> pg_data h = db_page (jg_ps g) (disk p1) n)"
    "calm p \<longrightarrow> rc = SQLITE_OK"
    using own_playback [OF T(1) transaction_journal [OF T(1) w assms(3)] U T(3) assms(4)] by blast
  obtain rc' p' where e: "pager_error p1 rc = (rc', p')" by fastforce
  have E: "past p' = past p1" "rc' = rc" using pager_error_disk [of p1 rc] e by simp_all
  have ok: "p' = p1" if "rc = SQLITE_OK" using e that by (simp add: pager_error_def Let_def)
  have run: "PagerRollback superExists mxPathname p = Some (rc', p')"
    using st pb(1) e by (auto simp: PagerRollback_def estate_order)
  have "\<forall>d\<in>set (past p'). \<forall>j db. crash_disk (jg_ss g) d j db \<longrightarrow> recovers_to g mxPathname orig j db"
    using pb(2) E(1) recovers_toI [OF T(1)] by (auto simp: safe_disk_def)
  with run pb(3,4) E(2) ok show ?thesis by auto
qed

end
