(* ===== verification/Pager_Example.thy ===== *)
theory Pager_Example
  imports Pager_Rollback
begin

text \<open>
  A transaction run step by step: a database of one page is opened, its page is fetched, made
  writable, changed and committed with a synchronous deletion of the journal. The states
  \<open>p2\<close> (fetched), \<open>p4\<close> (writable), \<open>p5\<close> (changed), \<open>p9\<close> (after the first phase of the commit) and
  \<open>p10\<close> (after the second) and the disks \<open>d1\<close> to \<open>d11\<close> are computed by the simplifier from the
  definitions of the pager, and the properties of the transactions are applied to them.
\<close>

section \<open>The run\<close>

definition pageA :: "u8 list" where "pageA = replicate 512 7"

definition pageB :: "u8 list" where "pageB = replicate 512 9"

lemma length_ex_page [simp]: "length pageA = 512" "length pageB = 512" by (simp_all add: pageA_def pageB_def)

definition "g0 = \<lparr>jg_ps = 512, jg_ss = 512\<rparr>"

definition p0 :: pager where "p0 = \<lparr>pageSize = 512, sectorSize = 512, noSync = False, fullSync = True, extraSync = True, exclusiveMode = False,
  safeAppend = False, sequential = False, journalMode = JM_DELETE, journalSizeLimit = None, eState = PAGER_READER, errCode = 0, dbSize = 1, dbOrigSize = 0,
  dbFileSize = 0, mxPgno = 1000, jfd_open = False, journalOff = 0, journalHdr = 0, nRec = 0, cksumInit = 0, pInJournal = None,
  aSavepoint = [], nSubRec = 0, sjfd = [], changeCountDone = False, dbFileVers = [], hasHeldSharedLock = True, nReserve = 0, doNotSpill = 0,
  pPCache = \<lparr>pc_pages = Map.empty, pc_dirty = [], pc_nRefSum = 0\<rparr>, os = (\<lambda>_. None), mem = (\<lambda>_. True), rnd = (\<lambda>_. 5),
  disk = \<lparr>j_exists = False, j_sure = True, j_cur = [], j_dur = [], j_pend = [], d_cur = [pageA], d_dur = [pageA], d_touched = {}, d_low = 1\<rparr>, past = []\<rparr>"
lemmas run_defs = andThen_def whenP_def upd_def os_ask_def os_call_eq do_io_def on_cache_def set_data_def on_page_def Let_def PagerLookup_def page_data_def
  JOURNAL_HDR_SZ_def JOURNAL_PG_SZ_def set_need_sync_def PAGER_SJ_PGNO_def PENDING_BYTE_def

definition hdrA :: "u8 list" where "hdrA = replicate 12 0 @ Put4byte 5 @ Put4byte 1 @ Put4byte 512 @ Put4byte 512 @ replicate 484 0"

lemma length_ex_hdr [simp]: "length hdrA = 512" by (simp add: hdrA_def)

definition p2 :: pager where "p2 = p0\<lparr>eState := PAGER_WRITER_LOCKED, dbOrigSize := 1, dbFileSize := 1, dbFileVers := take 16 (drop 24 pageA),
  pPCache := \<lparr>pc_pages = [1 \<mapsto> \<lparr>pg_data = pageA, pg_dirty = False, pg_need_sync = False, pg_writeable = False, pg_dont_write = False\<rparr>],
                 pc_dirty = [], pc_nRefSum = 0\<rparr>\<rparr>"

lemma get2: "getPageNormal 1 False (snd (PagerBegin False p0)) = (0, p2)"
  by (simp add: p2_def PagerBegin_def run_defs p0_def getPageNormal_def new_page_def readDbPage_def or_drop_def db_page_def del: One_nat_def cong: if_cong)

definition d1 :: disk where "d1 = \<lparr>j_exists = True, j_sure = False, j_cur = [], j_dur = [], j_pend = [], d_cur = [pageA], d_dur = [pageA],
  d_touched = {}, d_low = 1\<rparr>"

definition d2 :: disk where "d2 = j_op (PWrite 0 hdrA) d1"

definition p3 :: pager where "p3 = p2\<lparr>eState := PAGER_WRITER_CACHEMOD, jfd_open := True, journalOff := 512, cksumInit := 5,
  pInJournal := Some (bv_new 1), disk := d2, past := [d2, d1]\<rparr>"

lemma open3: "pager_open_journal p2 = (0, p3)"
  by (simp add: p2_def run_defs p0_def pager_open_journal_def BitvecCreate_def malloc_ok_def malloc_rest_def journal_open_def writeJournalHdr_def journalHdrOffset_def
   journal_header_def hdr_loop_once d1_def d2_def p3_def hdrA_def del: One_nat_def cong: if_cong)

lemma new1: "bv_valid (bv_new 1)" "iSize (bv_new 1) = 1" "bv.pages (bv_new 1) = {}"
  using bv.create [of 1] bv.pages_create [of 1] by auto

definition b1 :: bitvec where "b1 = the (snd (snd (bitvec_add (\<lambda>n. True) (Some (bv_new 1)) 1)))"

lemma set1: "bitvec_add (\<lambda>n. True) (Some (bv_new 1)) 1 = (\<lambda>n. True, 0, Some b1)"
proof -
  obtain a' rc b' where r: "bv_set 9 (\<lambda>n. True) (bv_new 1) 1 = Some (a', rc, b')" "rc = 0" "no_oom a'"
    using bv.set_returns [of "bv_new 1" 1 "\<lambda>n. True"] new1 by (auto simp: no_oom_def)
  then have "a' = (\<lambda>n. True)" by (simp add: no_oom_def fun_eq_iff)
  then show ?thesis using r by (simp add: b1_def bitvec_add_def BitvecSet_def)
qed

lemma test1: "BitvecTestNotNull (bv_new 1) 1 = Some False" using test_pages [of "bv_new 1" 1] new1 by simp

definition ck1 :: u32 where "ck1 = cksum_loop pageA 312 5"

definition d3 :: disk where "d3 = j_op (PWrite 512 (Put4byte 1)) d2"

definition d4 :: disk where "d4 = j_op (PWrite 516 pageA) d3"

definition d5 :: disk where "d5 = j_op (PWrite 1028 (Put4byte ck1)) d4"

definition pg1 :: "u8 list \<Rightarrow> bool \<Rightarrow> bool \<Rightarrow> pghdr" where
  "pg1 d dirty ns = \<lparr>pg_data = d, pg_dirty = dirty, pg_need_sync = ns, pg_writeable = dirty, pg_dont_write = False\<rparr>"

definition p4 :: pager where "p4 = p3\<lparr>journalOff := 1032, nRec := 1, pInJournal := Some b1,
  pPCache := \<lparr>pc_pages = [1 \<mapsto> pg1 pageA True True], pc_dirty = [1], pc_nRefSum = 0\<rparr>, disk := d5, past := [d5, d4, d3, d2, d1]\<rparr>"

lemma write4: "PagerWrite 1 p2 = (0, p4)"
proof -
  have "pager_write 1 p2 = (0, p4)"
    apply (simp add: pager_write_rest andThen_def whenP_def open3 del: One_nat_def)
    apply (simp add: p2_def p0_def del: One_nat_def)
    apply (simp add: write_rest_def pager_cksum_def ck1_def p4_def d3_def d4_def d5_def pg1_def journal_step_def run_defs p3_def p2_def p0_def PcacheMakeDirty_def test1 pagerAddPageToRollbackJournal_def write32bits_def
      page_journaled_def set1 addToSavepointBitvecs_def del: One_nat_def cong: if_cong)
    done
  then show ?thesis by (simp add: PagerWrite_def p2_def p0_def PagerLookup_def del: One_nat_def)
qed

definition p5 :: pager where "p5 = p4\<lparr>pPCache := \<lparr>pc_pages = [1 \<mapsto> pg1 pageB True True], pc_dirty = [1], pc_nRefSum = 0\<rparr>\<rparr>"

lemma poke5: "poke 1 pageB p4 = p5"
  by (simp add: poke_def set_data_def on_cache_def on_page_def p4_def p5_def pg1_def)

definition cnt :: u32 where "cnt = Get4byte (\<lambda>i. take 16 (drop 24 pageA) ! i) + 1"

definition pageC :: "u8 list" where "pageC = stamped cnt pageB"

definition p6 :: pager where "p6 = p5\<lparr>changeCountDone := True, pPCache := \<lparr>pc_pages = [1 \<mapsto> pg1 pageC True True], pc_dirty = [1], pc_nRefSum = 0\<rparr>\<rparr>"

lemma incr6: "pager_incr_changecounter p5 = (0, p6)"
  by (simp add: pager_incr_changecounter_def run_defs getPageNormal_def PagerWrite_def changecounter_stamped cnt_def pageC_def p5_def p4_def p3_def p2_def p0_def p6_def pg1_def
    del: One_nat_def cong: if_cong)

lemma len5: "length (j_cur d5) = 1032"
  by (simp add: d5_def d4_def d3_def d2_def d1_def j_op_def length_os_write)

definition d6 :: disk where "d6 = disk_step 512 d5 JSync"

definition d7 :: disk where "d7 = j_op (PWrite 0 (aJournalMagic @ Put4byte 1)) d6"

definition d8 :: disk where "d8 = disk_step 512 d7 JSync"

definition p7 :: pager where "p7 = p6\<lparr>eState := PAGER_WRITER_DBMOD, journalHdr := 1032, pPCache := \<lparr>pc_pages = [1 \<mapsto> pg1 pageC True False],
  pc_dirty = [1], pc_nRefSum = 0\<rparr>, disk := d8, past := [d8, d7, d6, d5, d4, d3, d2, d1]\<rparr>"

lemma sync7: "syncJournal False p6 = (0, p7)"
  using len5 by (simp add: syncJournal_def clear_stale_header_def run_defs p7_def p6_def p5_def p4_def p3_def p2_def p0_def journalHdrOffset_def os_read_def
   d6_def d7_def d8_def PcacheClearSyncFlags_def pg1_def del: One_nat_def cong: if_cong)

definition pageD :: "u8 list" where "pageD = stamped cnt pageC"

definition d9 :: disk where "d9 = disk_step 512 d8 (DWrite 1 pageD)"

definition p8 :: pager where "p8 = p7\<lparr>dbFileVers := take 16 (drop 24 pageD), pPCache := \<lparr>pc_pages = [1 \<mapsto> pg1 pageD True False],
  pc_dirty = [1], pc_nRefSum = 0\<rparr>, disk := d9, past := [d9, d8, d7, d6, d5, d4, d3, d2, d1]\<rparr>"

lemma list8: "pager_write_pagelist [1] p7 = (0, p8)"
  by (simp add: run_defs write_page_out_def changecounter_stamped cnt_def pageD_def p8_def p7_def p6_def p5_def p4_def p3_def p2_def p0_def d9_def pg1_def
    del: One_nat_def cong: if_cong)

definition d10 :: disk where "d10 = disk_step 512 d9 DSync"

definition p9 :: pager where "p9 = p8\<lparr>eState := PAGER_WRITER_FINISHED, pPCache := \<lparr>pc_pages = [1 \<mapsto> pg1 pageD False False],
  pc_dirty = [], pc_nRefSum = 0\<rparr>, disk := d10, past := [d10, d9, d8, d7, d6, d5, d4, d3, d2, d1]\<rparr>"

definition p8c :: pager where "p8c = p8\<lparr>pPCache := \<lparr>pc_pages = [1 \<mapsto> pg1 pageD False False], pc_dirty = [], pc_nRefSum = 0\<rparr>\<rparr>"

lemma clean8: "on_cache PcacheCleanAll p8 = p8c"
  by (simp add: p8c_def p8_def on_cache_def PcacheCleanAll_def PcacheMakeClean_def pg1_def p7_def on_page_def del: One_nat_def)

lemma andThen_step: "a p = (0, q) \<Longrightarrow> andThen a b p = b q" by (simp add: andThen_def)

lemma upd_step: "upd f p = (0, f p)" by (simp add: upd_def)

lemma size8: "dbSize p8c = 1" "dbFileSize p8c = 1" by (simp_all add: p8c_def p8_def p7_def p6_def p5_def p4_def p3_def p2_def p0_def)

definition p9s :: pager where "p9s = p8c\<lparr>disk := d10, past := [d10, d9, d8, d7, d6, d5, d4, d3, d2, d1]\<rparr>"

lemma psync8: "PagerSync p8c = (0, p9s)"
  by (simp add: PagerSync_def run_defs p9s_def p8c_def p8_def p7_def p6_def p5_def p4_def p3_def p2_def p0_def d10_def del: One_nat_def cong: if_cong)

lemma end9: "p9s\<lparr>eState := PAGER_WRITER_FINISHED\<rparr> = p9"
  by (simp add: p9s_def p8c_def p9_def)

lemma one9: "CommitPhaseOne False p5 = (0, p9)"
proof -
  have st: "errCode p5 = 0" "\<not> eState p5 < PAGER_WRITER_CACHEMOD"
    by (simp_all add: p5_def p4_def p3_def p2_def p0_def estate_order)
  have dl: "PcacheDirtyList (pPCache p7) = [1]"
    by (simp add: PcacheDirtyList_def pcacheSortDirtyList_sort p7_def)
  have l: "(\<lambda>p. pager_write_pagelist (PcacheDirtyList (pPCache p)) p) p7 = (0, p8)"
    unfolding dl by (rule list8)
  show ?thesis
    using st by (simp add: CommitPhaseOne_def andThen_step incr6 sync7 andThen_step [of "\<lambda>p. pager_write_pagelist (PcacheDirtyList (pPCache p)) p", OF l] upd_step clean8 whenP_def size8 psync8 end9 del: One_nat_def)
qed

definition d11 :: disk where "d11 = disk_step 512 d10 (JDelete True)"

definition p10 :: pager where "p10 = p9\<lparr>eState := PAGER_READER, pInJournal := None, nRec := 0, jfd_open := False, disk := d11, past := [d11, d10, d9, d8, d7, d6, d5, d4, d3, d2, d1]\<rparr>"

lemma two10: "CommitPhaseTwo p9 = (0, p10)"
    apply (simp add: CommitPhaseTwo_def pager_end_transaction_def finalize_journal_def releaseAllSavepoints_def pager_error_def
     run_defs p10_def p9_def p8_def p7_def p6_def p5_def p4_def p3_def p2_def p0_def d11_def PcacheCleanAll_def PcacheTruncate_def PcacheMakeClean_def pg1_def
      del: One_nat_def cong: if_cong)
    apply (rule ext) apply simp
    done

definition v0 :: db_view where "v0 = [1 \<mapsto> pageA]"

section \<open>It is a transaction\<close>

lemma start0: "txn_start g0 [pageA] v0 p0"
proof -
  have "geom_ok g0 [pageA]" by (simp add: geom_ok_def g0_def valid_sizes_def SQLITE_MAX_PAGE_SIZE_def MAX_SECTOR_SIZE_def)
  moreover have "reading g0 [pageA] p0"
    by (simp add: reading_def untouched_def start_disk_def p0_def g0_def disk_wf_def db_part_def db_covered_def cache_ok_def pcache_ok_def)
  moreover have "holds (p0\<lparr>dbFileSize := dbSize p0\<rparr>) v0"
    by (simp add: holds_def content_ok_def p0_def v0_def page_holds_def PagerLookup_def page_view_def db_page_def pcache_ok_def same_page_def)
  ultimately show ?thesis by (simp add: txn_start_def p0_def)
qed

lemma begin0: "fst (PagerBegin False p0) = 0"
  by (simp add: PagerBegin_def run_defs p0_def)

lemma in_txn2: "in_txn g0 [pageA] v0 p2"
proof -
  have b: "PagerBegin False p0 = (0, snd (PagerBegin False p0))" using begin0 by (metis prod.collapse)
  have "client_step (snd (PagerBegin False p0)) v0 p2 v0"
    by (rule step_call [of "Fetch 1"]) (simp_all add: get2 del: One_nat_def)
  then show ?thesis unfolding in_txn_def using start0 b run_step [OF run_none] by blast
qed

lemma in_txn5: "in_txn g0 [pageA] (v0(1 \<mapsto> pageB)) p5"
proof -
  have "client_step p2 v0 p4 v0"
    by (rule step_call [of "MakeWritable 1"]) (simp_all add: write4 del: One_nat_def, simp add: PagerLookup_def p2_def p0_def)
  moreover have "client_step p4 v0 p5 (v0(1 \<mapsto> pageB))"
    unfolding poke5 [symmetric] by (rule step_change) (simp_all add: writable_def PagerLookup_def p4_def pg1_def p3_def p2_def p0_def)
  ultimately show ?thesis using in_txn2 run_step unfolding in_txn_def by blast
qed

text \<open>Crashes: in the journal, in the torn write of the page, after the deletion.\<close>

lemma wf_ex: "disk_wf d5" "disk_wf d9"
  by (simp_all add: d5_def d4_def d3_def d2_def d9_def d8_def d7_def d6_def disk_wf_step j_op_def disk_wf_def d1_def)

lemma cr5: "crash_disk 512 d5 (Some (j_cur d5)) [pageA]"
  using disk_wf_outcome [OF wf_ex(1)] by (simp add: crash_disk_def crash_db_def) (simp add: d5_def d4_def d3_def d2_def d1_def j_op_def)

lemma cr9: "crash_disk 512 d9 (Some (j_cur d9)) [replicate 512 0]"
  using disk_wf_outcome [OF wf_ex(2)] by (simp add: crash_disk_def crash_db_def) (simp add: d9_def d8_def d7_def d6_def d5_def d4_def d3_def d2_def d1_def j_op_def)

lemma state5: "PAGER_WRITER_CACHEMOD \<le> eState p5"
  by (simp add: p5_def p4_def p3_def p2_def p0_def)

lemma db11: "d_cur d11 = [pageD]"
  by (simp add: d11_def d10_def d9_def d8_def d7_def d6_def d5_def d4_def d3_def d2_def d1_def j_op_def put_page_def)

lemma cr11: "crash_disk 512 d11 None [pageD]"
  by (simp add: crash_disk_def crash_db_def) (simp add: d11_def d10_def d9_def d8_def d7_def d6_def d5_def d4_def d3_def d2_def d1_def j_op_def put_page_def)

lemma final_disk: "d_cur (disk p9) = [pageD]" "disk p10 = d11" "past p10 = d11 # past p9"
  using db11 by (simp_all add: p9_def p10_def d11_def)

lemma durable9: "durable_end p9"
  by (simp add: durable_end_def p9_def p8_def p7_def p6_def p5_def p4_def p3_def p2_def p0_def)

lemma geom0 [simp]: "jg_ps g0 = 512" "jg_ss g0 = 512" by (simp_all add: g0_def)

section \<open>The properties on the run\<close>

text \<open>The journal is complete, the write of the page to the database file is torn.\<close>

lemma journal9:
  "j_cur d9 = aJournalMagic @ Put4byte 1 @ Put4byte 5 @ Put4byte 1 @ Put4byte 512 @ Put4byte 512 @ replicate 484 0 @
     Put4byte 1 @ pageA @ Put4byte ck1"
  by (simp add: d9_def d8_def d7_def d6_def d5_def d4_def d3_def d2_def d1_def j_op_def os_write_def hdrA_def)

lemma pageA_tail: "take 4 (drop 500 pageA) = [7, 7, 7, 7]" "drop 508 pageA = [7, 7, 7, 7]"
  by (simp_all add: pageA_def) (simp_all add: numeral_eq_Suc)

lemma no_super9: "readSuperJournal (j_cur d9) 101 = []"
proof -
  have "unat (Get4byte ((!) [7, 7, 7, 7])) \<ge> 101" by (simp add: Get4byte_def)
  then show ?thesis by (simp add: readSuperJournal_def journal9 read32bits_def os_read_def pageA_tail)
qed

theorem crash_in_call_recovers_witness: "recovers_to g0 100 [pageA] (Some (j_cur d5)) [pageA]"
  by (rule crash_in_call_recovers [OF in_txn2, of "MakeWritable 1" 0 p4 d5])
    (use cr5 in \<open>simp_all add: write4 g0_def p4_def del: One_nat_def\<close>, simp add: PagerLookup_def p2_def)

theorem crash_in_phase_one_recovers_witness: "recovers_to g0 100 [pageA] (Some (j_cur d9)) [replicate 512 0]"
  by (rule crash_in_phase_one_recovers [OF in_txn5 one9, of d9]) (use cr9 in \<open>simp_all add: g0_def p9_def\<close>)

theorem crash_in_phase_two_atomic_witness:
  "recovers_to g0 100 [pageA] None [pageD] \<or> recovers_to g0 100 [pageD] None [pageD]"
  using crash_in_phase_two_atomic [OF in_txn5 state5 one9 two10, of d11 None "[pageD]" 100] cr11
  unfolding final_disk by simp

theorem commit_is_durable_witness:
  "recovers_to g0 100 [pageD] None [pageD] \<and> same_page 1 (db_page 512 (disk p10) 1) pageB"
proof -
  have "crash_disk (jg_ss g0) (disk p10) None [pageD]" using cr11 by (simp add: final_disk)
  from commit_is_durable [OF in_txn5 state5 one9 two10 durable9 this, of 100]
  show ?thesis by (simp add: final_disk db11)
qed

text \<open>The next process after the crash.\<close>

definition q0 :: pager where
  "q0 = p0\<lparr>eState := PAGER_OPEN, hasHeldSharedLock := False, disk := crashed_disk (Some (j_cur d9)) [replicate 512 0]\<rparr>"

lemma fresh_q0: "fresh_pager g0 (Some (j_cur d9)) [replicate 512 0] q0" "calm q0"
  by (simp_all add: fresh_pager_def q0_def p0_def PagerLookup_def calm_def no_oom_def)

lemma safe9: "\<forall>d\<in>set (past p9). safe_disk g0 [pageA] d" "geom_ok g0 [pageA]"
  using phase_one_finished(2,3) [OF in_txn5 state5 one9] by blast+

lemma recoverable9: "recoverable g0 [pageA] (Some (j_cur d9)) [replicate 512 0]"
  using safe9 cr9 by (auto simp: p9_def safe_disk_def)

theorem recovery_restores_witness:
  "\<exists>p'. PagerSharedLock (\<lambda>_. False) 100 False q0 = Some (SQLITE_OK, p') \<and>
     d_cur (disk p') = [pageA] \<and> d_dur (disk p') = [pageA] \<and> dbSize p' = 1 \<and> eState p' = PAGER_READER"
  using recovery_restores [OF safe9(2) recoverable9 fresh_q0, of 100] no_super9 by simp

theorem crash_in_recovery_recovers_witness:
  "\<exists>rc p'. PagerSharedLock (\<lambda>_. False) 100 False q0 = Some (rc, p') \<and>
    (\<forall>d\<in>set (past p'). \<forall>j' db'. crash_disk 512 d j' db' \<longrightarrow> recovers_to g0 100 [pageA] j' db')"
  using crash_in_recovery_recovers [OF safe9(2) recoverable9 fresh_q0(1), of 100] no_super9 by simp


theorem client_reads_back_witness: "same_page 1 (page_data (snd (getPageNormal 1 False p5)) 1) pageB"
proof -
  have "getPageNormal 1 False p5 = (SQLITE_OK, p5)"
    by (simp add: getPageNormal_def PagerLookup_def p5_def p4_def pg1_def)
  then show ?thesis using client_reads_back [OF in_txn5, of 1 pageB] by simp
qed

lemma journal5:
  "j_cur d5 = replicate 12 0 @ Put4byte 5 @ Put4byte 1 @ Put4byte 512 @ Put4byte 512 @ replicate 484 0 @
     Put4byte 1 @ pageA @ Put4byte ck1"
  by (simp add: d5_def d4_def d3_def d2_def d1_def j_op_def os_write_def hdrA_def)

lemma no_super5: "readSuperJournal (j_cur d5) 101 = []"
proof -
  have "unat (Get4byte ((!) [7, 7, 7, 7])) \<ge> 101" by (simp add: Get4byte_def)
  then show ?thesis by (simp add: readSuperJournal_def journal5 read32bits_def os_read_def pageA_tail)
qed

theorem rollback_undoes_transaction_witness:
  "\<exists>p'. PagerRollback (\<lambda>_. False) 100 p5 = Some (SQLITE_OK, p') \<and> eState p' = PAGER_READER \<and> d_cur (disk p') = [pageA]"
proof -
  have "disk p5 = d5" "journalOff p5 = 1032" "calm p5"
    by (simp_all add: p5_def p4_def p3_def p2_def p0_def calm_def no_oom_def)
  then show ?thesis
    using rollback_undoes_transaction [OF in_txn5 state5, of 100 "\<lambda>_. False"] no_super5 len5 by auto
qed

end
