(* ===== verification/Btree_Page.thy ===== *)
theory Btree_Page
  imports Varint
begin

text \<open>
  Pages of the b-tree layer (\<open>btree.c\<close>, \<open>btreeInt.h\<close>): the image of a page and the record
  \<open>MemPage\<close> that describes it, the format of the cells, the routines that tell the size of a
  cell and those that parse one, the flag byte, loading a page and making an empty one.

  A page in memory is a map \<open>mem\<close> from offsets to bytes: offset 0 is \<open>aData[0]\<close>, and offsets from
  the size of the page on are the memory that follows it, which the routines do read when a page is corrupt.
  Offsets and the \<open>u16\<close> and \<open>int\<close> variables that hold them are natural numbers, casts are written out.
\<close>

section \<open>Bytes\<close>

type_synonym mem = "nat \<Rightarrow> u8"

definition get2byte :: "mem \<Rightarrow> nat \<Rightarrow> nat" where
  "get2byte x p = unat (x p) * 256 + unat (x (p + 1))"

definition put2byte :: "mem \<Rightarrow> nat \<Rightarrow> nat \<Rightarrow> mem" where
  "put2byte x p v = x(p := word_of_nat (v div 256), p + 1 := word_of_nat v)"

text \<open>Zero stands for 65536: a page of that size has an offset that two bytes cannot hold.\<close>

definition get2byteNotZero :: "mem \<Rightarrow> nat \<Rightarrow> nat" where
  "get2byteNotZero x p = (if get2byte x p = 0 then 65536 else get2byte x p)"

definition to_u16 :: "nat \<Rightarrow> nat" where
  "to_u16 n = n mod 65536"

definition memcpy :: "mem \<Rightarrow> nat \<Rightarrow> mem \<Rightarrow> nat \<Rightarrow> nat \<Rightarrow> mem" where
  "memcpy d a s b n = (\<lambda>i. if a \<le> i \<and> i < a + n then s (b + (i - a)) else d i)"

definition memmove :: "mem \<Rightarrow> nat \<Rightarrow> nat \<Rightarrow> nat \<Rightarrow> mem" where
  "memmove d a b n = memcpy d a d b n"

definition memset :: "mem \<Rightarrow> nat \<Rightarrow> u8 \<Rightarrow> nat \<Rightarrow> mem" where
  "memset d a v n = (\<lambda>i. if a \<le> i \<and> i < a + n then v else d i)"

text \<open>The pointer \<open>&d[p]\<close>, as a memory of its own.\<close>

definition at_addr :: "mem \<Rightarrow> nat \<Rightarrow> mem" where
  "at_addr d p = (\<lambda>k. d (p + k))"

section \<open>The records\<close>

text \<open>
  The fields of \<open>BtShared\<close> that these routines read. \<open>fastSecure\<close> is the test of \<open>btsFlags\<close> for
  \<open>BTS_FAST_SECURE\<close>, \<open>cellSizeCk\<close> that of \<open>db->flags\<close> for \<open>SQLITE_CellSizeCk\<close>; \<open>tempSpace\<close> is what
  \<open>sqlite3PagerTempSpace\<close> points to.
\<close>

record BtShared =
  usableSize :: nat
  btPageSize :: nat
  btMaxLocal :: nat
  btMinLocal :: nat
  btMaxLeaf :: nat
  btMinLeaf :: nat
  btMax1bytePayload :: nat
  fastSecure :: bool
  cellSizeCk :: bool
  autoVacuum :: bool
  tempSpace :: mem

text \<open>The methods of a page are names of functions, resolved by \<open>cellSizeOf\<close> and \<open>parseCellOf\<close>.\<close>

datatype cell_size_method = CellSizePtr | CellSizePtrIdxLeaf | CellSizePtrNoPayload | CellSizePtrTableLeaf
datatype parse_cell_method = ParseCellPtr | ParseCellPtrIndex | ParseCellPtrNoPayload

text \<open>
  \<open>MemPage\<close>. The pointers \<open>aCellIdx\<close>, \<open>aDataOfst\<close> and \<open>aDataEnd\<close> are \<open>aData\<close> plus \<open>cellOffset\<close>,
  \<open>childPtrSize\<close> and the page size, from every place that sets them. A cell that did not fit is kept
  in \<open>apOvfl\<close> as its bytes.
\<close>

record MemPage =
  pBt :: BtShared
  isInit :: bool
  intKey :: bool
  intKeyLeaf :: bool
  leaf :: bool
  hdrOffset :: nat
  childPtrSize :: nat
  max1bytePayload :: nat
  maxLocal :: nat
  minLocal :: nat
  cellOffset :: nat
  nFree :: int
  nCell :: nat
  maskPage :: nat
  aiOvfl :: "nat list"
  apOvfl :: "u8 list list"
  aData :: mem
  xCellSize :: cell_size_method
  xParseCell :: parse_cell_method

text \<open>
  \<open>pPayload\<close> is the offset of the payload in the cell; the pointer is null for a cell without.
  \<open>nKey\<close> holds the bits of the \<open>i64\<close>.
\<close>

record CellInfo =
  nKey :: u64
  pPayload :: "nat option"
  nPayload :: u32
  nLocal :: nat
  nSize :: nat

section \<open>Cells\<close>

text \<open>
  The payload size, a variable-length integer read in 32 bits: the loop after the first byte,
  which ends at \<open>pEnd\<close> at the latest, and the reader. Results are the value and the next offset.
\<close>

function size_loop :: "mem \<Rightarrow> nat \<Rightarrow> nat \<Rightarrow> u32 \<Rightarrow> u32 \<times> nat" where
  "size_loop c pEnd i n =
     (let n' = push_bit 7 n OR (w32 (c (i + 1)) AND 0x7f) in
      if c (i + 1) \<ge> 0x80 \<and> i + 1 < pEnd then size_loop c pEnd (i + 1) n' else (n', i + 1))"
  by auto
termination by (relation "measure (\<lambda>(c, pEnd, i, n). pEnd - i)") auto

declare size_loop.simps [simp del]

definition read_size :: "mem \<Rightarrow> nat \<Rightarrow> u32 \<times> nat" where
  "read_size c p =
     (let n = w32 (c p) in
      if n \<ge> 0x80 then (case size_loop c (p + 8) p (n AND 0x7f) of (n', i) \<Rightarrow> (n', i + 1))
      else (n, p + 1))"

text \<open>
  The key, a 64-bit variable-length integer read by the unrolled code of \<open>btreeParseCellPtr\<close>: the
  continuation bits that were shifted along are taken out by the constants.
\<close>

definition read_key :: "mem \<Rightarrow> nat \<Rightarrow> u64 \<times> nat" where
  "read_key c p =
     (let k0 = ucast (c p) :: u64 in
      if k0 < 0x80 then (k0, p + 1)
      else let k1 = push_bit 7 k0 XOR ucast (c (p + 1)) in
      if c (p + 1) < 0x80 then (k1 XOR 0x4000, p + 2)
      else let k2 = push_bit 7 k1 XOR ucast (c (p + 2)) in
      if c (p + 2) < 0x80 then (k2 XOR 0x204000, p + 3)
      else let k3 = push_bit 7 k2 XOR 0x10204000 XOR ucast (c (p + 3)) in
      if c (p + 3) < 0x80 then (k3, p + 4)
      else let k4 = push_bit 7 k3 XOR 0x4000 XOR ucast (c (p + 4)) in
      if c (p + 4) < 0x80 then (k4, p + 5)
      else let k5 = push_bit 7 k4 XOR 0x4000 XOR ucast (c (p + 5)) in
      if c (p + 5) < 0x80 then (k5, p + 6)
      else let k6 = push_bit 7 k5 XOR 0x4000 XOR ucast (c (p + 6)) in
      if c (p + 6) < 0x80 then (k6, p + 7)
      else let k7 = push_bit 7 k6 XOR 0x4000 XOR ucast (c (p + 7)) in
      if c (p + 7) < 0x80 then (k7, p + 8)
      else (push_bit 8 k7 XOR 0x8000 XOR ucast (c (p + 8)), p + 9))"

text \<open>How much of a payload of \<open>n\<close> bytes that does not fit is kept on the page: the sum in \<open>u32\<close>.\<close>

definition surplus :: "MemPage \<Rightarrow> u32 \<Rightarrow> u32" where
  "surplus p n =
     word_of_nat (minLocal p) +
     (n - word_of_nat (minLocal p)) mod (word_of_nat (usableSize (pBt p)) - 4)"

definition btreePayloadToLocal :: "MemPage \<Rightarrow> nat \<Rightarrow> nat" where
  "btreePayloadToLocal p n =
     (if n \<le> maxLocal p then n
      else let s = minLocal p + (n - minLocal p) mod (usableSize (pBt p) - 4)
           in if s \<le> maxLocal p then s else minLocal p)"

definition btreeParseCellAdjustSizeForOverflow :: "MemPage \<Rightarrow> nat \<Rightarrow> CellInfo \<Rightarrow> CellInfo" where
  "btreeParseCellAdjustSizeForOverflow p payload info =
     (let s = unat (surplus p (nPayload info));
          n = to_u16 (if s \<le> maxLocal p then s else minLocal p)
      in info\<lparr>nLocal := n, nSize := to_u16 (to_u16 (payload + n) + 4)\<rparr>)"

text \<open>The common end of the two parsers of cells with payload, which both spell it out.\<close>

definition set_local :: "MemPage \<Rightarrow> nat \<Rightarrow> CellInfo \<Rightarrow> CellInfo" where
  "set_local p payload info =
     (if unat (nPayload info) \<le> maxLocal p then
        let s = to_u16 (to_u16 (unat (nPayload info)) + to_u16 payload)
        in info\<lparr>nSize := (if s < 4 then 4 else s), nLocal := to_u16 (unat (nPayload info))\<rparr>
      else btreeParseCellAdjustSizeForOverflow p payload info)"

definition btreeParseCellPtrNoPayload :: "MemPage \<Rightarrow> mem \<Rightarrow> CellInfo" where
  "btreeParseCellPtrNoPayload p c =
     (case GetVarint (at_addr c 4) of (k, n) \<Rightarrow>
        \<lparr>nKey = k, pPayload = None, nPayload = 0, nLocal = 0, nSize = to_u16 (4 + n)\<rparr>)"

definition btreeParseCellPtr :: "MemPage \<Rightarrow> mem \<Rightarrow> CellInfo" where
  "btreeParseCellPtr p c =
     (case read_size c 0 of (n, i) \<Rightarrow>
      case read_key c i of (k, j) \<Rightarrow>
        set_local p j \<lparr>nKey = k, pPayload = Some j, nPayload = n, nLocal = 0, nSize = 0\<rparr>)"

definition btreeParseCellPtrIndex :: "MemPage \<Rightarrow> mem \<Rightarrow> CellInfo" where
  "btreeParseCellPtrIndex p c =
     (case read_size c (childPtrSize p) of (n, i) \<Rightarrow>
        set_local p i \<lparr>nKey = ucast n, pPayload = Some i, nPayload = n, nLocal = 0, nSize = 0\<rparr>)"

primrec parseCellOf :: "parse_cell_method \<Rightarrow> MemPage \<Rightarrow> mem \<Rightarrow> CellInfo" where
  "parseCellOf ParseCellPtr = btreeParseCellPtr"
| "parseCellOf ParseCellPtrIndex = btreeParseCellPtrIndex"
| "parseCellOf ParseCellPtrNoPayload = btreeParseCellPtrNoPayload"

definition findCell :: "MemPage \<Rightarrow> nat \<Rightarrow> nat" where
  "findCell p i = (maskPage p) AND get2byte (aData p) (cellOffset p + 2 * i)"

definition btreeParseCell :: "MemPage \<Rightarrow> nat \<Rightarrow> CellInfo" where
  "btreeParseCell p i = parseCellOf (xParseCell p) p (at_addr (aData p) (findCell p i))"

text \<open>
  The size routines. The end of a payload that overflows is the same in all three: \<open>n\<close> bytes of
  payload, which starts at offset \<open>i\<close> of the cell, in the \<open>u32\<close> variable \<open>nSize\<close>.
\<close>

definition overflow_size :: "MemPage \<Rightarrow> u32 \<Rightarrow> nat \<Rightarrow> u32" where
  "overflow_size p n i =
     (let s = surplus p n;
          s' = if s > word_of_nat (maxLocal p) then word_of_nat (minLocal p) else s
      in s' + (4 + word_of_nat (to_u16 i)))"

definition cellSizePtr :: "MemPage \<Rightarrow> mem \<Rightarrow> nat" where
  "cellSizePtr p c =
     (case read_size c 4 of (n, i) \<Rightarrow>
        to_u16 (unat (if n \<le> word_of_nat (maxLocal p) then n + word_of_nat i
                      else overflow_size p n i)))"

definition cellSizePtrIdxLeaf :: "MemPage \<Rightarrow> mem \<Rightarrow> nat" where
  "cellSizePtrIdxLeaf p c =
     (case read_size c 0 of (n, i) \<Rightarrow>
        to_u16 (unat (if n \<le> word_of_nat (maxLocal p)
                      then (if n + word_of_nat i < 4 then 4 else n + word_of_nat i)
                      else overflow_size p n i)))"

text \<open>\<open>while( (*pIter++)&0x80 && pIter<pEnd );\<close>, and the offset after it.\<close>

function skip_loop :: "mem \<Rightarrow> nat \<Rightarrow> nat \<Rightarrow> nat" where
  "skip_loop c pEnd i =
     (if c i AND 0x80 \<noteq> 0 \<and> i + 1 < pEnd then skip_loop c pEnd (i + 1) else i + 1)"
  by auto
termination by (relation "measure (\<lambda>(c, pEnd, i). pEnd - i)") auto

declare skip_loop.simps [simp del]

definition cellSizePtrNoPayload :: "MemPage \<Rightarrow> mem \<Rightarrow> nat" where
  "cellSizePtrNoPayload p c = to_u16 (skip_loop c (4 + 9) 4)"

text \<open>The chain of eight tests that moves past the key.\<close>

definition skip_key :: "mem \<Rightarrow> nat \<Rightarrow> nat" where
  "skip_key c i =
     (if c i AND 0x80 = 0 then i + 1
      else if c (i + 1) AND 0x80 = 0 then i + 2
      else if c (i + 2) AND 0x80 = 0 then i + 3
      else if c (i + 3) AND 0x80 = 0 then i + 4
      else if c (i + 4) AND 0x80 = 0 then i + 5
      else if c (i + 5) AND 0x80 = 0 then i + 6
      else if c (i + 6) AND 0x80 = 0 then i + 7
      else if c (i + 7) AND 0x80 = 0 then i + 8
      else i + 9)"

definition cellSizePtrTableLeaf :: "MemPage \<Rightarrow> mem \<Rightarrow> nat" where
  "cellSizePtrTableLeaf p c =
     (case read_size c 0 of (n, i0) \<Rightarrow>
      let i = skip_key c i0 in
        to_u16 (unat (if n \<le> word_of_nat (maxLocal p)
                      then (if n + word_of_nat i < 4 then 4 else n + word_of_nat i)
                      else overflow_size p n i)))"

primrec cellSizeOf :: "cell_size_method \<Rightarrow> MemPage \<Rightarrow> mem \<Rightarrow> nat" where
  "cellSizeOf CellSizePtr = cellSizePtr"
| "cellSizeOf CellSizePtrIdxLeaf = cellSizePtrIdxLeaf"
| "cellSizeOf CellSizePtrNoPayload = cellSizePtrNoPayload"
| "cellSizeOf CellSizePtrTableLeaf = cellSizePtrTableLeaf"

definition cellSizeAt :: "MemPage \<Rightarrow> mem \<Rightarrow> nat \<Rightarrow> nat" where
  "cellSizeAt p d pc = cellSizeOf (xCellSize p) p (at_addr d pc)"

section \<open>Loading a page\<close>

text \<open>The limits on the local payload, from the usable size of a page (\<open>lockBtree\<close>).\<close>

definition set_payload_limits :: "BtShared \<Rightarrow> BtShared" where
  "set_payload_limits b =
     (let u = usableSize b;
          m = to_u16 ((u - 12) * 64 div 255 - 23)
      in b\<lparr>btMaxLocal := m,
           btMinLocal := to_u16 ((u - 12) * 32 div 255 - 23),
           btMaxLeaf := to_u16 (u - 35),
           btMinLeaf := to_u16 ((u - 12) * 32 div 255 - 23),
           btMax1bytePayload := (if m > 127 then 127 else m)\<rparr>)"

definition PTF_INTKEY :: nat where "PTF_INTKEY = 1"
definition PTF_ZERODATA :: nat where "PTF_ZERODATA = 2"
definition PTF_LEAFDATA :: nat where "PTF_LEAFDATA = 4"
definition PTF_LEAF :: nat where "PTF_LEAF = 8"

lemmas PTF_defs = PTF_INTKEY_def PTF_ZERODATA_def PTF_LEAFDATA_def PTF_LEAF_def

definition decodeFlags :: "MemPage \<Rightarrow> nat \<Rightarrow> rc \<times> MemPage" where
  "decodeFlags p0 flagByte =
     (let b = pBt p0; p = p0\<lparr>max1bytePayload := btMax1bytePayload b\<rparr> in
      if flagByte \<ge> (PTF_ZERODATA OR PTF_LEAF) then
        let p = p\<lparr>childPtrSize := 0, leaf := True\<rparr> in
        if flagByte = (PTF_LEAFDATA OR PTF_INTKEY OR PTF_LEAF) then
          (SQLITE_OK, p\<lparr>intKeyLeaf := True, xCellSize := CellSizePtrTableLeaf,
             xParseCell := ParseCellPtr, intKey := True,
             maxLocal := btMaxLeaf b, minLocal := btMinLeaf b\<rparr>)
        else
          let p = p\<lparr>intKey := False, intKeyLeaf := False, xCellSize := CellSizePtrIdxLeaf,
                    xParseCell := ParseCellPtrIndex\<rparr> in
          if flagByte = (PTF_ZERODATA OR PTF_LEAF) then
            (SQLITE_OK, p\<lparr>maxLocal := btMaxLocal b, minLocal := btMinLocal b\<rparr>)
          else (SQLITE_CORRUPT, p)
      else
        let p = p\<lparr>childPtrSize := 4, leaf := False\<rparr> in
        if flagByte = PTF_ZERODATA then
          (SQLITE_OK, p\<lparr>intKey := False, intKeyLeaf := False, xCellSize := CellSizePtr,
             xParseCell := ParseCellPtrIndex, maxLocal := btMaxLocal b, minLocal := btMinLocal b\<rparr>)
        else if flagByte = (PTF_LEAFDATA OR PTF_INTKEY) then
          (SQLITE_OK, p\<lparr>intKeyLeaf := False, xCellSize := CellSizePtrNoPayload,
             xParseCell := ParseCellPtrNoPayload, intKey := True,
             maxLocal := btMaxLeaf b, minLocal := btMinLeaf b\<rparr>)
        else
          (SQLITE_CORRUPT, p\<lparr>intKey := False, intKeyLeaf := False, xCellSize := CellSizePtr,
             xParseCell := ParseCellPtrIndex\<rparr>))"

text \<open>
  \<open>btreePageFromDbPage\<close>: the record of a page that the pager has just read. The pager zeroes the first
  bytes of it; the other fields, which are set before they are used, are zero here.
\<close>

definition btreePageFromDbPage :: "BtShared \<Rightarrow> nat \<Rightarrow> mem \<Rightarrow> MemPage" where
  "btreePageFromDbPage b pgno d =
     \<lparr>pBt = b, isInit = False, intKey = False, intKeyLeaf = False, leaf = False,
      hdrOffset = (if pgno = 1 then 100 else 0), childPtrSize = 0, max1bytePayload = 0,
      maxLocal = 0, minLocal = 0, cellOffset = 0, nFree = 0, nCell = 0, maskPage = 0,
      aiOvfl = [], apOvfl = [], aData = d, xCellSize = CellSizePtr, xParseCell = ParseCellPtr\<rparr>"

text \<open>A database of pages of 512 bytes, for the concrete instances.\<close>

definition test_shared :: BtShared where
  "test_shared = \<lparr>usableSize = 512, btPageSize = 512, btMaxLocal = 0, btMinLocal = 0, btMaxLeaf = 0,
     btMinLeaf = 0, btMax1bytePayload = 0, fastSecure = False, cellSizeCk = False, autoVacuum = False,
     tempSpace = (\<lambda>_. 0)\<rparr>"

definition MX_CELL :: "BtShared \<Rightarrow> nat" where
  "MX_CELL b = (btPageSize b - 8) div 6"

text \<open>The loop of \<open>btreeCellSizeCheck\<close> over the cells from \<open>i\<close> on, \<open>n\<close> of them left.\<close>

primrec size_check_loop :: "nat \<Rightarrow> nat \<Rightarrow> MemPage \<Rightarrow> rc" where
  "size_check_loop 0 i p = SQLITE_OK"
| "size_check_loop (Suc n) i p =
     (let iCellFirst = cellOffset p + 2 * nCell p;
          iCellLast = usableSize (pBt p) - 4 - (if leaf p then 0 else 1);
          pc = get2byte (aData p) (cellOffset p + i * 2)
      in if pc < iCellFirst \<or> pc > iCellLast then SQLITE_CORRUPT
         else if pc + cellSizeAt p (aData p) pc > usableSize (pBt p) then SQLITE_CORRUPT
         else size_check_loop n (i + 1) p)"

definition btreeCellSizeCheck :: "MemPage \<Rightarrow> rc" where
  "btreeCellSizeCheck p = size_check_loop (nCell p) 0 p"

definition btreeInitPage :: "MemPage \<Rightarrow> rc \<times> MemPage" where
  "btreeInitPage p =
     (let b = pBt p; d = aData p; hdr = hdrOffset p in
      case decodeFlags p (unat (d hdr)) of (r, p) \<Rightarrow>
      if r \<noteq> SQLITE_OK then (SQLITE_CORRUPT, p)
      else
        let p = p\<lparr>maskPage := to_u16 (btPageSize b - 1), aiOvfl := [], apOvfl := [],
                  cellOffset := to_u16 (hdr + 8 + childPtrSize p), nCell := get2byte d (hdr + 3)\<rparr> in
        if nCell p > MX_CELL b then (SQLITE_CORRUPT, p)
        else
          let p = p\<lparr>nFree := -1, isInit := True\<rparr> in
          (if cellSizeCk b then btreeCellSizeCheck p else SQLITE_OK, p))"

definition zeroPage :: "MemPage \<Rightarrow> nat \<Rightarrow> MemPage" where
  "zeroPage p flags =
     (let b = pBt p; hdr = hdrOffset p;
          d = (if fastSecure b then memset (aData p) hdr 0 (usableSize b - hdr) else aData p);
          d = d(hdr := word_of_nat flags);
          first = hdr + (if flags AND PTF_LEAF = 0 then 12 else 8);
          d = memset d (hdr + 1) 0 4;
          d = d(hdr + 7 := 0);
          d = put2byte d (hdr + 5) (usableSize b);
          p = snd (decodeFlags (p\<lparr>aData := d, nFree := int (to_u16 (usableSize b - first))\<rparr>) flags)
      in p\<lparr>cellOffset := to_u16 first, aiOvfl := [], apOvfl := [],
           maskPage := to_u16 (btPageSize b - 1), nCell := 0, isInit := True\<rparr>)"

text \<open>\<open>btreeComputeFreeSpace\<close>: the walk over the freeblocks, and the routine.\<close>

function free_walk :: "mem \<Rightarrow> nat \<Rightarrow> nat \<Rightarrow> nat \<Rightarrow> (nat \<times> nat \<times> nat \<times> nat) option" where
  "free_walk d iCellLast pc nfree =
     (if pc > iCellLast then None
      else let next = get2byte d pc; sz = get2byte d (pc + 2); nfree' = nfree + sz in
           if next \<le> pc + sz + 3 then Some (pc, next, sz, nfree')
           else free_walk d iCellLast next nfree')"
  by auto
termination by (relation "measure (\<lambda>(d, iCellLast, pc, nfree). iCellLast + 1 - pc)") auto

declare free_walk.simps [simp del]

definition btreeComputeFreeSpace :: "MemPage \<Rightarrow> rc \<times> MemPage" where
  "btreeComputeFreeSpace p =
     (let u = usableSize (pBt p); hdr = hdrOffset p; d = aData p;
          brk = get2byteNotZero d (hdr + 5);
          iCellFirst = hdr + 8 + childPtrSize p + 2 * nCell p;
          iCellLast = u - 4;
          pc = get2byte d (hdr + 1);
          nfree0 = unat (d (hdr + 7)) + brk;
          finish = (\<lambda>nfree. if nfree > u \<or> nfree < iCellFirst then (SQLITE_CORRUPT, p)
                            else (SQLITE_OK, p\<lparr>nFree := int (to_u16 (nfree - iCellFirst))\<rparr>))
      in if pc > 0 then
           if pc < brk then (SQLITE_CORRUPT, p)
           else (case free_walk d iCellLast pc nfree0 of
                   None \<Rightarrow> (SQLITE_CORRUPT, p)
                 | Some (pc, next, sz, nfree) \<Rightarrow>
                     if next > 0 then (SQLITE_CORRUPT, p)
                     else if pc + sz > u then (SQLITE_CORRUPT, p)
                     else finish nfree)
         else finish nfree0)"

end
