(* ===== verification/Btree_Cell.thy ===== *)
theory Btree_Cell
  imports Btree_Page
begin

text \<open>
  The cell formats: the inlined readers of variable-length integers against the library routine of
  \<open>Varint\<close>, the size of a cell as a formula, and the agreement of the four size routines with the three parsers.
\<close>

section \<open>The inlined readers\<close>

text \<open>The length of the variable-length integer at the start of \<open>c\<close>.\<close>

definition vlen :: "mem \<Rightarrow> nat" where
  "vlen c = snd (varint_value c)"

lemma varint_len_cases:
  obtains (short) k where "k < 8" "\<forall>i<k. bit (c i) 7" "\<not> bit (c k) 7"
      "varint_value c = (groups (Suc k) c, Suc k)"
  | (long) "\<forall>i<8. bit (c i) 7" "varint_value c = (push_bit 8 (groups 8 c) OR ucast (c 8), 9)"
proof (cases "\<forall>i<8. bit (c i) 7")
  case True
  with varint_value_long [of c] long show ?thesis by (simp add: top_def)
next
  case False
  then obtain j where j: "j < 8" "\<not> bit (c j) 7" by auto
  then obtain k where k: "\<not> bit (c k) 7" "\<forall>i<k. bit (c i) 7"
    using exists_least_iff [of "\<lambda>i. \<not> bit (c i) 7"] by blast
  have "k < 8" using j k(2) by (metis le_less_trans not_le)
  with k varint_value_short [of k c] short show ?thesis by (simp add: top_def)
qed

lemma vlen_bounds: "1 \<le> vlen c" "vlen c \<le> 9"
  by (cases c rule: varint_len_cases; simp add: vlen_def)+

lemma ge_0x80_8: "(b :: u8) \<ge> 0x80 \<longleftrightarrow> bit b 7"
  using less_0x80_8 [of b] by (simp add: not_less [symmetric])

lemma at_addr_apply [simp]: "at_addr c p i = c (p + i)"
  by (simp add: at_addr_def)

lemma less_0x80_64: "(ucast (b :: u8) :: u64) < 0x80 \<longleftrightarrow> \<not> bit b 7"
proof -
  have "unat b < 256" using unsigned_less [of b] by simp
  then have "unat (ucast b :: u64) = unat b" by (simp add: unsigned_ucast_eq take_bit_nat_eq_self)
  then show ?thesis using less_0x80_8 [of b] by (simp add: word_less_nat_alt)
qed

lemma ge_0x80_32: "w32 b \<ge> 0x80 \<longleftrightarrow> bit b 7"
proof -
  have "unat b < 256" using unsigned_less [of b] by simp
  then have "unat (w32 b) = unat b" by (simp add: w32_def unsigned_ucast_eq take_bit_nat_eq_self)
  then show ?thesis using ge_0x80_8 [of b] by (simp add: word_le_nat_alt)
qed

lemma read_key_exits:
  "\<not> bit (c p) 7 \<Longrightarrow> read_key c p = (groups 1 (at_addr c p), p + 1)"
  "bit (c p) 7 \<Longrightarrow> \<not> bit (c (p + 1)) 7 \<Longrightarrow> read_key c p = (groups 2 (at_addr c p), p + 2)"
  "bit (c p) 7 \<Longrightarrow> bit (c (p + 1)) 7 \<Longrightarrow> \<not> bit (c (p + 2)) 7 \<Longrightarrow>
     read_key c p = (groups 3 (at_addr c p), p + 3)"
  "bit (c p) 7 \<Longrightarrow> bit (c (p + 1)) 7 \<Longrightarrow> bit (c (p + 2)) 7 \<Longrightarrow> \<not> bit (c (p + 3)) 7 \<Longrightarrow>
     read_key c p = (groups 4 (at_addr c p), p + 4)"
  "bit (c p) 7 \<Longrightarrow> bit (c (p + 1)) 7 \<Longrightarrow> bit (c (p + 2)) 7 \<Longrightarrow> bit (c (p + 3)) 7 \<Longrightarrow>
     \<not> bit (c (p + 4)) 7 \<Longrightarrow> read_key c p = (groups 5 (at_addr c p), p + 5)"
  "bit (c p) 7 \<Longrightarrow> bit (c (p + 1)) 7 \<Longrightarrow> bit (c (p + 2)) 7 \<Longrightarrow> bit (c (p + 3)) 7 \<Longrightarrow>
     bit (c (p + 4)) 7 \<Longrightarrow> \<not> bit (c (p + 5)) 7 \<Longrightarrow> read_key c p = (groups 6 (at_addr c p), p + 6)"
  "bit (c p) 7 \<Longrightarrow> bit (c (p + 1)) 7 \<Longrightarrow> bit (c (p + 2)) 7 \<Longrightarrow> bit (c (p + 3)) 7 \<Longrightarrow>
     bit (c (p + 4)) 7 \<Longrightarrow> bit (c (p + 5)) 7 \<Longrightarrow> \<not> bit (c (p + 6)) 7 \<Longrightarrow>
     read_key c p = (groups 7 (at_addr c p), p + 7)"
  "bit (c p) 7 \<Longrightarrow> bit (c (p + 1)) 7 \<Longrightarrow> bit (c (p + 2)) 7 \<Longrightarrow> bit (c (p + 3)) 7 \<Longrightarrow>
     bit (c (p + 4)) 7 \<Longrightarrow> bit (c (p + 5)) 7 \<Longrightarrow> bit (c (p + 6)) 7 \<Longrightarrow> \<not> bit (c (p + 7)) 7 \<Longrightarrow>
     read_key c p = (groups 8 (at_addr c p), p + 8)"
  "bit (c p) 7 \<Longrightarrow> bit (c (p + 1)) 7 \<Longrightarrow> bit (c (p + 2)) 7 \<Longrightarrow> bit (c (p + 3)) 7 \<Longrightarrow>
     bit (c (p + 4)) 7 \<Longrightarrow> bit (c (p + 5)) 7 \<Longrightarrow> bit (c (p + 6)) 7 \<Longrightarrow> bit (c (p + 7)) 7 \<Longrightarrow>
     read_key c p = (push_bit 8 (groups 8 (at_addr c p)) OR ucast (c (p + 8)), p + 9)"
  by (subst read_key_def,
      simp add: Let_def less_0x80_8 less_0x80_64,
      rule word64_eqI, simp add: word_bits groups_numeral)+

text \<open>The first eight positions, one by one.\<close>

lemma below_8: "k < (8 :: nat) \<longleftrightarrow> k = 0 \<or> k = 1 \<or> k = 2 \<or> k = 3 \<or> k = 4 \<or> k = 5 \<or> k = 6 \<or> k = 7"
  by auto

lemma read_key_value: "read_key c p = (fst (varint_value (at_addr c p)), p + vlen (at_addr c p))"
proof (cases "at_addr c p" rule: varint_len_cases)
  case (short k)
  then have b: "\<And>i. i < k \<Longrightarrow> bit (c (p + i)) 7" "\<not> bit (c (p + k)) 7" by auto
  from short(1) have "read_key c p = (groups (k + 1) (at_addr c p), p + (k + 1))"
    unfolding below_8
    by (elim disjE; use b(1) [of 0] b(1) [of 1] b(1) [of 2] b(1) [of 3] b(1) [of 4] b(1) [of 5]
        b(1) [of 6] b(2) in \<open>simp add: read_key_exits del: groups.simps One_nat_def\<close>)
  with short(4) show ?thesis by (simp add: vlen_def)
next
  case long
  then have b: "\<And>i. i < 8 \<Longrightarrow> bit (c (p + i)) 7" by simp
  have "read_key c p = (push_bit 8 (groups 8 (at_addr c p)) OR ucast (c (p + 8)), p + 9)"
    using b [of 0] b [of 1] b [of 2] b [of 3] b [of 4] b [of 5] b [of 6] b [of 7]
    by (intro read_key_exits(9)) (simp_all del: One_nat_def)
  with long(2) show ?thesis by (simp add: vlen_def)
qed

lemma skip_key_value: "skip_key c p = p + vlen (at_addr c p)"
proof (cases "at_addr c p" rule: varint_len_cases)
  case (short k)
  then have b: "\<And>i. i < k \<Longrightarrow> bit (c (p + i)) 7" "\<not> bit (c (p + k)) 7" by auto
  from short(1) have "skip_key c p = p + Suc k"
    unfolding below_8
    by (elim disjE; use b(1) [of 0] b(1) [of 1] b(1) [of 2] b(1) [of 3] b(1) [of 4] b(1) [of 5]
        b(1) [of 6] b(2) in \<open>simp add: skip_key_def and_0x80_8 del: One_nat_def\<close>)
  with short(4) show ?thesis by (simp add: vlen_def)
next
  case long
  then have b: "\<And>i. i < 8 \<Longrightarrow> bit (c (p + i)) 7" by simp
  have "skip_key c p = p + 9"
    using b [of 0] b [of 1] b [of 2] b [of 3] b [of 4] b [of 5] b [of 6] b [of 7]
    by (simp add: skip_key_def and_0x80_8 del: One_nat_def)
  with long(2) show ?thesis by (simp add: vlen_def)
qed

lemma skip_loop_run:
  "\<forall>i. j \<le> i \<and> i < k \<longrightarrow> bit (c (p + i)) 7 \<Longrightarrow> j \<le> k \<Longrightarrow> k \<le> 8 \<Longrightarrow> k = 8 \<or> \<not> bit (c (p + k)) 7 \<Longrightarrow>
   skip_loop c (p + 9) (p + j) = p + Suc k"
proof (induction "k - j" arbitrary: j)
  case 0
  then show ?case by (subst skip_loop.simps) (auto simp: and_0x80_8)
next
  case (Suc n)
  then have "skip_loop c (p + 9) (p + Suc j) = p + Suc k" by (intro Suc.hyps(1)) auto
  moreover have "bit (c (p + j)) 7" "j < k" using Suc.hyps(2) Suc.prems(1) by auto
  ultimately show ?case using Suc.prems(3) by (subst skip_loop.simps) (simp add: and_0x80_8)
qed

lemma skip_loop_value: "skip_loop c (p + 9) p = p + vlen (at_addr c p)"
proof (cases "at_addr c p" rule: varint_len_cases)
  case (short k)
  then show ?thesis using skip_loop_run [of 0 k c p] by (simp add: vlen_def)
next
  case long
  then show ?thesis using skip_loop_run [of 0 8 c p] by (simp add: vlen_def)
qed

text \<open>
  The size reader keeps the last 32 bits of the groups. It takes seven bits of a ninth byte as well,
  and not eight as the format does.
\<close>

lemma groups_Suc_32:
  "push_bit 7 (ucast (groups j c) :: u32) OR (w32 (c j) AND 0x7f) = ucast (groups (Suc j) c)"
  by (rule word32_eqI) (simp add: word_bits w32_def)

lemma size_loop_run:
  "\<forall>i. j < i \<and> i < k \<longrightarrow> bit (c (p + i)) 7 \<Longrightarrow> j < k \<Longrightarrow> k \<le> 8 \<Longrightarrow> k = 8 \<or> \<not> bit (c (p + k)) 7 \<Longrightarrow>
   size_loop c (p + 8) (p + j) (ucast (groups (Suc j) (at_addr c p))) =
     (ucast (groups (Suc k) (at_addr c p)), p + k)"
proof (induction "k - Suc j" arbitrary: j)
  case 0
  then have "k = Suc j" by simp
  with 0 show ?case using groups_Suc_32 [of "Suc j" "at_addr c p"]
    by (subst size_loop.simps) (auto simp: Let_def ge_0x80_8 simp del: groups.simps)
next
  case (Suc n)
  then have "size_loop c (p + 8) (p + Suc j) (ucast (groups (Suc (Suc j)) (at_addr c p))) =
     (ucast (groups (Suc k) (at_addr c p)), p + k)" by (intro Suc.hyps(1)) auto
  moreover have "bit (c (p + Suc j)) 7" "Suc j < k" using Suc.hyps(2) Suc.prems(1) by auto
  ultimately show ?case using Suc.prems(3) groups_Suc_32 [of "Suc j" "at_addr c p"]
    by (subst size_loop.simps) (simp add: Let_def ge_0x80_8 del: groups.simps)
qed

lemma read_size_value:
  "read_size c p = (ucast (groups (vlen (at_addr c p)) (at_addr c p)), p + vlen (at_addr c p))"
proof -
  let ?c = "at_addr c p"
  have one: "read_size c p = (ucast (groups (Suc 0) ?c), p + 1)" if "\<not> bit (c p) 7"
  proof -
    have "w32 (c p) = ucast (groups (Suc 0) ?c)"
      by (rule word32_eqI) (simp add: word_bits w32_def that)
    moreover have "read_size c p = (w32 (c p), p + 1)"
      using that by (simp add: read_size_def Let_def ge_0x80_32)
    ultimately show ?thesis by simp
  qed
  have more: "read_size c p = (let (n, i) = size_loop c (p + 8) p (ucast (groups (Suc 0) ?c)) in (n, i + 1))"
    if "bit (c p) 7"
  proof -
    have "w32 (c p) AND 0x7f = ucast (groups (Suc 0) ?c)"
      by (rule word32_eqI) (simp add: word_bits w32_def)
    moreover have "read_size c p = (let (n, i) = size_loop c (p + 8) p (w32 (c p) AND 0x7f) in (n, i + 1))"
      using that by (simp add: read_size_def Let_def ge_0x80_32)
    ultimately show ?thesis by simp
  qed
  show ?thesis
  proof (cases ?c rule: varint_len_cases)
    case (short k)
    then show ?thesis
      using one more size_loop_run [of 0 k c p] short(2) [rule_format, of 0]
      by (cases "k = 0") (simp_all add: vlen_def del: groups.simps)
  next
    case long
    then show ?thesis using more size_loop_run [of 0 8 c p] long(1) [rule_format, of 0]
      by (simp add: vlen_def add.commute del: groups.simps)
  qed
qed

text \<open>
  The comments in \<open>btreeParseCellPtr\<close> call its blocks equivalent to \<open>getVarint32\<close> and \<open>getVarint\<close>. The
  second is, the first is for sizes that fit, in at most eight bytes, and differs beyond them.
\<close>

lemma read_key_is_getVarint: "read_key c p = (let (k, n) = GetVarint (at_addr c p) in (k, p + n))"
  by (simp add: read_key_value GetVarint_value vlen_def split_beta)

lemma read_size_diverges:
  "read_size ((\<lambda>_. 0x80)(0 := 0x90, 4 := 0)) 0 \<noteq> getVarint32 ((\<lambda>_. 0x80)(0 := 0x90, 4 := 0))"
  by (simp add: read_size_def size_loop.simps getVarint32_def GetVarint32_def GetVarint_def Let_def w32_def
      top_def SLOT_2_0_def SLOT_4_2_0_def join64_def)

section \<open>The size of a cell\<close>

definition page_limits :: "MemPage \<Rightarrow> bool" where
  "page_limits p \<longleftrightarrow> 480 \<le> usableSize (pBt p) \<and> usableSize (pBt p) \<le> 65536 \<and>
     minLocal p \<le> maxLocal p \<and> maxLocal p \<le> usableSize (pBt p) - 35"

lemma page_limitsD:
  assumes "page_limits p"
  shows "480 \<le> usableSize (pBt p)" "usableSize (pBt p) \<le> 65536" "minLocal p \<le> maxLocal p"
    "maxLocal p \<le> 65501" "maxLocal p + 35 \<le> usableSize (pBt p)"
  using assms unfolding page_limits_def by auto

text \<open>
  The bytes on the page of a cell whose payload of \<open>n\<close> bytes starts at offset \<open>i\<close>: the payload if it fits, and
  else the part of it that \<open>btreePayloadToLocal\<close> says, with the number of the first overflow page.
\<close>

definition payload_cell :: "MemPage \<Rightarrow> nat \<Rightarrow> nat \<Rightarrow> nat" where
  "payload_cell p n i =
     (if n \<le> maxLocal p then max 4 (n + i) else btreePayloadToLocal p n + i + 4)"

lemma btreePayloadToLocal_le: "minLocal p \<le> maxLocal p \<Longrightarrow> btreePayloadToLocal p n \<le> maxLocal p"
  by (simp add: btreePayloadToLocal_def Let_def)

lemma unat_u32_small: "n < 2 ^ 32 \<Longrightarrow> unat (word_of_nat n :: u32) = n"
  by (simp add: unsigned_of_nat take_bit_nat_eq_self)

lemma surplus_unat:
  assumes "page_limits p" "maxLocal p < unat n"
  shows "unat (surplus p n) = minLocal p + (unat n - minLocal p) mod (usableSize (pBt p) - 4)"
proof -
  let ?u = "usableSize (pBt p)" and ?m = "minLocal p"
  have u: "480 \<le> ?u" "?u \<le> 65536" "?m \<le> maxLocal p" "maxLocal p \<le> ?u - 35"
    using assms(1) by (simp_all add: page_limits_def)
  have m: "unat (word_of_nat ?m :: u32) = ?m" using u by (intro unat_u32_small) simp
  have "unat (word_of_nat ?u - 4 :: u32) = ?u - 4"
    using u unat_u32_small [of ?u] by (subst unat_sub) (simp_all add: word_le_nat_alt)
  moreover have "unat (n - word_of_nat ?m) = unat n - ?m"
    using m u assms(2) by (subst unat_sub) (simp_all add: word_le_nat_alt)
  ultimately have r: "unat ((n - word_of_nat ?m) mod (word_of_nat ?u - 4)) = (unat n - ?m) mod (?u - 4)"
    by (simp add: unat_mod)
  have "(unat n - ?m) mod (?u - 4) < ?u - 4" using u by (intro mod_less_divisor) simp
  then have "?m + (unat n - ?m) mod (?u - 4) < 2 ^ 32" using page_limitsD(2,3,4) [OF assms(1)] by simp
  then show ?thesis
    unfolding surplus_def using m r by (subst unat_add_lem [THEN iffD1]) simp_all
qed

lemma set_local_size:
  assumes "page_limits p" "i \<le> 18"
  shows "nSize (set_local p i \<lparr>nKey = k, pPayload = j, nPayload = n, nLocal = l, nSize = s\<rparr>) =
    payload_cell p (unat n) i"
proof (cases "unat n \<le> maxLocal p")
  case True
  have "unat n + i < 65536" using True assms(2) page_limitsD(4) [OF assms(1)] by linarith
  with True assms show ?thesis
    by (auto simp: set_local_def payload_cell_def to_u16_def Let_def)
next
  case False
  have "btreePayloadToLocal p (unat n) \<le> 65501"
    using btreePayloadToLocal_le [of p "unat n"] page_limitsD(3,4) [OF assms(1)] by linarith
  then have "to_u16 (btreePayloadToLocal p (unat n)) = btreePayloadToLocal p (unat n)"
    "to_u16 (to_u16 (i + btreePayloadToLocal p (unat n)) + 4) = btreePayloadToLocal p (unat n) + i + 4"
    using assms(2) by (simp_all add: to_u16_def)
  with False surplus_unat [OF assms(1), of n] show ?thesis
    by (simp add: set_local_def payload_cell_def btreeParseCellAdjustSizeForOverflow_def
        btreePayloadToLocal_def Let_def)
qed

lemma unat_size_sum:
  assumes "page_limits p" "i \<le> 18" "unat n \<le> maxLocal p"
  shows "unat (n + word_of_nat i :: u32) = unat n + i"
proof -
  have "unat n + i < 2 ^ 32" using assms(2,3) page_limitsD(4) [OF assms(1)] by simp
  then show ?thesis using assms(2) unat_u32_small [of i] by (subst unat_add_lem [THEN iffD1]) simp_all
qed

lemma size_fits: "page_limits p \<Longrightarrow> n \<le> word_of_nat (maxLocal p) \<longleftrightarrow> unat n \<le> maxLocal p" for n :: u32
  using unat_u32_small [of "maxLocal p"] page_limitsD(4) [of p] by (simp add: word_le_nat_alt)

lemma overflow_size_unat:
  assumes "page_limits p" "i \<le> 18" "maxLocal p < unat n"
  shows "unat (overflow_size p n i) = btreePayloadToLocal p (unat n) + i + 4"
proof -
  let ?l = "btreePayloadToLocal p (unat n)"
  have l: "?l \<le> maxLocal p"
    using assms(1) by (intro btreePayloadToLocal_le) (simp add: page_limits_def)
  have s: "unat (if surplus p n > word_of_nat (maxLocal p) then word_of_nat (minLocal p) else surplus p n) = ?l"
    using surplus_unat [OF assms(1,3)] unat_u32_small [of "maxLocal p"] unat_u32_small [of "minLocal p"] assms(3)
      page_limitsD(3,4) [OF assms(1)]
    by (simp add: btreePayloadToLocal_def Let_def word_less_nat_alt)
  have i: "unat (4 + word_of_nat (to_u16 i) :: u32) = i + 4"
    using assms(2) unat_u32_small [of i] by (subst unat_add_lem [THEN iffD1]) (simp_all add: to_u16_def)
  have "?l + (i + 4) < 2 ^ 32" using l assms(2) page_limitsD(4) [OF assms(1)] by simp
  then show ?thesis
    unfolding overflow_size_def Let_def using s i by (subst unat_add_lem [THEN iffD1]) simp_all
qed

lemma payload_cell_bounds:
  assumes "page_limits p" "i \<le> 18"
  shows "4 \<le> payload_cell p n i" "payload_cell p n i \<le> maxLocal p + 22" "payload_cell p n i < 65536"
    "i \<le> payload_cell p n i"
  using assms(2) btreePayloadToLocal_le [of p n] page_limitsD(3,4) [OF assms(1)]
  by (auto simp: payload_cell_def)

lemma to_u16_id: "n < 65536 \<Longrightarrow> to_u16 n = n"
  by (simp add: to_u16_def)

lemma leaf_size:
  assumes "page_limits p" "i \<le> 18"
  shows "to_u16 (unat (if n \<le> word_of_nat (maxLocal p)
            then (if n + word_of_nat i < 4 then 4 else n + word_of_nat i)
            else overflow_size p n i)) = payload_cell p (unat n) i"
proof (cases "unat n \<le> maxLocal p")
  case True
  have "unat (n + word_of_nat i) = unat n + i" using assms True by (intro unat_size_sum)
  with True size_fits [OF assms(1), of n] payload_cell_bounds(3) [OF assms, of "unat n"] show ?thesis
    by (auto simp: payload_cell_def word_less_nat_alt max_def to_u16_def)
next
  case False
  with overflow_size_unat [OF assms] size_fits [OF assms(1), of n]
    payload_cell_bounds(3) [OF assms, of "unat n"] show ?thesis
    by (simp add: payload_cell_def to_u16_id)
qed

lemma interior_size:
  assumes "page_limits p" "4 \<le> i" "i \<le> 18"
  shows "to_u16 (unat (if n \<le> word_of_nat (maxLocal p) then n + word_of_nat i
            else overflow_size p n i)) = payload_cell p (unat n) i"
proof -
  have "\<not> n + word_of_nat i < 4" if "n \<le> word_of_nat (maxLocal p)"
  proof -
    have "unat (n + word_of_nat i) = unat n + i"
      using assms that size_fits [OF assms(1), of n] by (intro unat_size_sum) simp_all
    with assms(2) show ?thesis by (simp add: word_less_nat_alt)
  qed
  then show ?thesis using leaf_size [OF assms(1,3), of n] by (simp cong: if_cong)
qed

section \<open>The four size routines and the three parsers\<close>

text \<open>A page as \<open>decodeFlags\<close> leaves it: the kind of the page decides its methods.\<close>

definition methods_ok :: "MemPage \<Rightarrow> bool" where
  "methods_ok p \<longleftrightarrow> page_limits p \<and>
     (xCellSize p, xParseCell p, childPtrSize p) \<in>
       {(CellSizePtrTableLeaf, ParseCellPtr, 0), (CellSizePtrIdxLeaf, ParseCellPtrIndex, 0),
        (CellSizePtr, ParseCellPtrIndex, 4), (CellSizePtrNoPayload, ParseCellPtrNoPayload, 4)}"

text \<open>The sizes, as formulas over the integers at the start of the cell.\<close>

definition payload_at :: "mem \<Rightarrow> nat \<Rightarrow> nat" where
  "payload_at c p = unat (ucast (groups (vlen (at_addr c p)) (at_addr c p)) :: u32)"

fun cell_len :: "cell_size_method \<Rightarrow> MemPage \<Rightarrow> mem \<Rightarrow> nat" where
  "cell_len CellSizePtr p c = payload_cell p (payload_at c 4) (4 + vlen (at_addr c 4))"
| "cell_len CellSizePtrIdxLeaf p c = payload_cell p (payload_at c 0) (vlen c)"
| "cell_len CellSizePtrNoPayload p c = 4 + vlen (at_addr c 4)"
| "cell_len CellSizePtrTableLeaf p c = payload_cell p (payload_at c 0) (vlen c + vlen (at_addr c (vlen c)))"

lemma at_addr_0 [simp]: "at_addr c 0 = c"
  by (simp add: at_addr_def)

lemma cell_size_len:
  assumes "page_limits p"
  shows "cellSizeOf m p c = cell_len m p c"
proof (cases m)
  case CellSizePtr
  have "4 \<le> 4 + vlen (at_addr c 4)" "4 + vlen (at_addr c 4) \<le> 18"
    using vlen_bounds [of "at_addr c 4"] by simp_all
  with CellSizePtr interior_size [OF assms this] show ?thesis
    by (simp add: cellSizePtr_def read_size_value payload_at_def)
next
  case CellSizePtrIdxLeaf
  have "vlen c \<le> 18" using vlen_bounds [of c] by simp
  with CellSizePtrIdxLeaf leaf_size [OF assms this] show ?thesis
    by (simp add: cellSizePtrIdxLeaf_def read_size_value payload_at_def)
next
  case CellSizePtrNoPayload
  then show ?thesis
    using skip_loop_value [of c 4] vlen_bounds [of "at_addr c 4"]
    by (simp add: cellSizePtrNoPayload_def to_u16_id)
next
  case CellSizePtrTableLeaf
  have "vlen c + vlen (at_addr c (vlen c)) \<le> 18"
    using vlen_bounds [of c] vlen_bounds [of "at_addr c (vlen c)"] by simp
  with CellSizePtrTableLeaf leaf_size [OF assms this] show ?thesis
    by (simp add: cellSizePtrTableLeaf_def read_size_value payload_at_def skip_key_value Let_def)
qed

lemma parsed_size:
  assumes "methods_ok p"
  shows "nSize (parseCellOf (xParseCell p) p c) = cell_len (xCellSize p) p c"
proof -
  have lim: "page_limits p" using assms by (simp add: methods_ok_def)
  have v: "vlen c \<le> 9" "vlen (at_addr c (vlen c)) \<le> 9" "vlen (at_addr c 4) \<le> 9"
    by (rule vlen_bounds)+
  have "nSize (btreeParseCellPtr p c) = cell_len CellSizePtrTableLeaf p c"
    using v by (simp add: btreeParseCellPtr_def read_size_value read_key_value payload_at_def
        set_local_size [OF lim])
  moreover have "nSize (btreeParseCellPtrIndex p c) = cell_len CellSizePtrIdxLeaf p c" if "childPtrSize p = 0"
    using v that by (simp add: btreeParseCellPtrIndex_def read_size_value payload_at_def
        set_local_size [OF lim])
  moreover have "nSize (btreeParseCellPtrIndex p c) = cell_len CellSizePtr p c" if "childPtrSize p = 4"
    using v that by (simp add: btreeParseCellPtrIndex_def read_size_value payload_at_def
        set_local_size [OF lim])
  moreover have "nSize (btreeParseCellPtrNoPayload p c) = cell_len CellSizePtrNoPayload p c"
    using v(3) by (simp add: btreeParseCellPtrNoPayload_def GetVarint_value vlen_def to_u16_id split_beta)
  ultimately show ?thesis using assms by (auto simp: methods_ok_def)
qed

lemma limits_of_usable:
  assumes "480 \<le> u" "u \<le> (65536 :: nat)"
  shows "to_u16 ((u - 12) * 64 div 255 - 23) + 35 \<le> u"
    "to_u16 ((u - 12) * 32 div 255 - 23) \<le> to_u16 ((u - 12) * 64 div 255 - 23)"
    "to_u16 ((u - 12) * 32 div 255 - 23) \<le> u - 35" "to_u16 (u - 35) = u - 35"
proof -
  define a where "a = (u - 12) * 64 div 255"
  define b where "b = (u - 12) * 32 div 255"
  have "a \<le> (u - 12) * 255 div 255" unfolding a_def by (rule div_le_mono) simp
  then have a: "a \<le> u - 12" by simp
  have b: "b \<le> a" unfolding a_def b_def by (rule div_le_mono) simp
  have "to_u16 (a - 23) = a - 23" "to_u16 (b - 23) = b - 23"
    using a b assms by (simp_all add: to_u16_id)
  with a b assms show "to_u16 ((u - 12) * 64 div 255 - 23) + 35 \<le> u"
    "to_u16 ((u - 12) * 32 div 255 - 23) \<le> to_u16 ((u - 12) * 64 div 255 - 23)"
    "to_u16 ((u - 12) * 32 div 255 - 23) \<le> u - 35" "to_u16 (u - 35) = u - 35"
    unfolding a_def [symmetric] b_def [symmetric] by (simp_all add: to_u16_id)
qed

text \<open>What the limits of the database give its pages.\<close>

definition bt_limits :: "BtShared \<Rightarrow> bool" where
  "bt_limits b \<longleftrightarrow> 480 \<le> usableSize b \<and> usableSize b \<le> 65536 \<and>
     btMinLocal b \<le> btMaxLocal b \<and> btMaxLocal b \<le> usableSize b - 35 \<and>
     btMinLeaf b \<le> btMaxLeaf b \<and> btMaxLeaf b \<le> usableSize b - 35"

lemma set_payload_limits_ok:
  "480 \<le> usableSize b \<Longrightarrow> usableSize b \<le> 65536 \<Longrightarrow> bt_limits (set_payload_limits b)"
  using limits_of_usable [of "usableSize b"]
  by (simp add: bt_limits_def set_payload_limits_def Let_def le_diff_conv2)

lemma decodeFlags_cases:
  assumes "decodeFlags p f = (SQLITE_OK, q)"
  shows "f \<in> {2, 5, 10, 13}"
  using assms by (auto simp: decodeFlags_def PTF_defs Let_def split: if_splits)

lemma decodeFlags_ok:
  assumes "decodeFlags p f = (SQLITE_OK, q)" "bt_limits (pBt p)"
  shows "methods_ok q"
proof -
  have q: "q = snd (decodeFlags p f)" using assms(1) by simp
  have "f = 2 \<or> f = 5 \<or> f = 10 \<or> f = 13" using decodeFlags_cases [OF assms(1)] by simp
  then show ?thesis
    using assms(2) unfolding q
    by (elim disjE) (simp_all add: decodeFlags_def PTF_defs Let_def methods_ok_def page_limits_def bt_limits_def)
qed

lemma cell_len_bounds:
  assumes "page_limits p"
  shows "4 \<le> cell_len m p c" "cell_len m p c + 13 \<le> usableSize (pBt p)"
proof -
  have v: "vlen c \<le> 9" "vlen (at_addr c (vlen c)) \<le> 9" "vlen (at_addr c 4) \<le> 9"
    by (rule vlen_bounds)+
  have "4 \<le> cell_len m p c \<and> cell_len m p c \<le> maxLocal p + 22 \<or> cell_len m p c \<le> 13 \<and> 4 \<le> cell_len m p c"
    using v payload_cell_bounds(1,2) [OF assms] by (cases m) simp_all
  with page_limitsD [OF assms]
  show "4 \<le> cell_len m p c" "cell_len m p c + 13 \<le> usableSize (pBt p)" by auto
qed

text \<open>The size is read from the bytes of the cell alone.\<close>

lemma groups_cong: "(\<And>k. k < n \<Longrightarrow> c' k = c k) \<Longrightarrow> groups n c' = groups n c"
  by (induction n) simp_all

lemma vlen_cong:
  assumes "\<And>k. k < vlen c \<Longrightarrow> c' k = c k"
  shows "vlen c' = vlen c" "groups (vlen c) c' = groups (vlen c) c"
proof -
  show "groups (vlen c) c' = groups (vlen c) c" using assms by (rule groups_cong)
  show "vlen c' = vlen c"
  proof (cases c rule: varint_len_cases)
    case (short k)
    then have "vlen c = Suc k" by (simp add: vlen_def)
    with assms have "c' i = c i" if "i \<le> k" for i using that by simp
    with short varint_value_short [of k c'] show ?thesis by (simp add: vlen_def top_def)
  next
    case long
    then have "vlen c = 9" by (simp add: vlen_def)
    with assms have "c' i = c i" if "i < 9" for i using that by simp
    with long varint_value_long [of c'] show ?thesis by (simp add: vlen_def top_def)
  qed
qed

lemma payload_at_cong:
  assumes "\<And>k. k < p + vlen (at_addr c p) \<Longrightarrow> c' k = c k"
  shows "payload_at c' p = payload_at c p" "vlen (at_addr c' p) = vlen (at_addr c p)"
  using vlen_cong [of "at_addr c p" "at_addr c' p"] assms by (simp_all add: payload_at_def)

lemma cell_len_cong:
  assumes "page_limits p" "\<And>k. k < cell_len m p c \<Longrightarrow> c' k = c k"
  shows "cell_len m p c' = cell_len m p c"
proof -
  have v: "vlen c \<le> 9" "vlen (at_addr c (vlen c)) \<le> 9" "vlen (at_addr c 4) \<le> 9"
    by (rule vlen_bounds)+
  note le = payload_cell_bounds(4) [OF assms(1)]
  show ?thesis
  proof (cases m)
    case CellSizePtr
    have "4 + vlen (at_addr c 4) \<le> cell_len m p c" using v CellSizePtr by (simp add: le)
    then have "payload_at c' 4 = payload_at c 4" "vlen (at_addr c' 4) = vlen (at_addr c 4)"
      using assms(2) by (intro payload_at_cong; simp)+
    with CellSizePtr show ?thesis by simp
  next
    case CellSizePtrIdxLeaf
    have "vlen c \<le> cell_len m p c" using v CellSizePtrIdxLeaf by (simp add: le)
    then have "payload_at c' 0 = payload_at c 0" "vlen c' = vlen c"
      using assms(2) payload_at_cong [of 0 c c'] by simp_all
    with CellSizePtrIdxLeaf show ?thesis by simp
  next
    case CellSizePtrNoPayload
    then have "vlen (at_addr c' 4) = vlen (at_addr c 4)"
      using assms(2) by (intro payload_at_cong(2)) simp
    with CellSizePtrNoPayload show ?thesis by simp
  next
    case CellSizePtrTableLeaf
    have in_cell: "vlen c + vlen (at_addr c (vlen c)) \<le> cell_len m p c" using v CellSizePtrTableLeaf by (simp add: le)
    then have "payload_at c' 0 = payload_at c 0" "vlen c' = vlen c"
      using assms(2) payload_at_cong [of 0 c c'] by simp_all
    moreover have "vlen (at_addr c' (vlen c)) = vlen (at_addr c (vlen c))"
      using assms(2) in_cell by (intro payload_at_cong(2)) simp
    ultimately show ?thesis using CellSizePtrTableLeaf by simp
  qed
qed

section \<open>The properties of the cell format\<close>

text \<open>
  C11. On every page that loads, and for every content of a cell, the routine that only computes the
  size of a cell agrees with the one that parses it, which the debug build asserts for
  databases that are not corrupt. The size is at least 4 and leaves room for the header of the page,
  and the key that the unrolled code of a table leaf reads is the one \<open>sqlite3GetVarint\<close> reads there.
\<close>

theorem cell_size_is_parsed_size:
  assumes "decodeFlags p f = (SQLITE_OK, q)" "pBt p = set_payload_limits b"
    "480 \<le> usableSize b" "usableSize b \<le> 65536"
  shows "cellSizeOf (xCellSize q) q c = nSize (parseCellOf (xParseCell q) q c) \<and>
    4 \<le> cellSizeOf (xCellSize q) q c \<and> cellSizeOf (xCellSize q) q c \<le> usableSize b - 13 \<and>
    nKey (btreeParseCellPtr q c) = fst (GetVarint (at_addr c (snd (read_size c 0))))"
proof -
  have ok: "methods_ok q"
    using decodeFlags_ok [OF assms(1)] set_payload_limits_ok [OF assms(3,4)] assms(2) by simp
  then have lim: "page_limits q" by (simp add: methods_ok_def)
  have "usableSize (pBt q) = usableSize b" 
    using assms(1,2) by (auto simp: decodeFlags_def Let_def set_payload_limits_def split: if_splits)
  then have "4 \<le> cellSizeOf (xCellSize q) q c" "cellSizeOf (xCellSize q) q c \<le> usableSize b - 13"
    using cell_len_bounds [OF lim, of "xCellSize q" c] by (simp_all add: cell_size_len [OF lim])
  moreover have "cellSizeOf (xCellSize q) q c = nSize (parseCellOf (xParseCell q) q c)"
    by (simp add: cell_size_len [OF lim] parsed_size [OF ok])
  moreover have "nKey (btreeParseCellPtr q c) = fst (GetVarint (at_addr c (snd (read_size c 0))))"
    by (simp add: btreeParseCellPtr_def read_key_is_getVarint set_local_def Let_def
        btreeParseCellAdjustSizeForOverflow_def split: prod.splits)
  ultimately show ?thesis by blast
qed

lemma cell_size_is_parsed_size_witness:
  "let p = btreePageFromDbPage (set_payload_limits test_shared) 2 (\<lambda>_. 0);
       q = snd (decodeFlags p 13)
   in cellSizeOf (xCellSize q) q (\<lambda>_. 0x90) = nSize (parseCellOf (xParseCell q) q (\<lambda>_. 0x90))"
proof -
  let ?p = "btreePageFromDbPage (set_payload_limits test_shared) 2 (\<lambda>_. 0)"
  have "decodeFlags ?p 13 = (SQLITE_OK, snd (decodeFlags ?p 13))"
    by (simp add: decodeFlags_def PTF_defs Let_def)
  from cell_size_is_parsed_size [OF this, of test_shared "\<lambda>_. 0x90"] show ?thesis
    by (simp add: btreePageFromDbPage_def test_shared_def Let_def)
qed

end
