(* ===== verification/Btree_Space.thy ===== *)
theory Btree_Space
  imports Btree_Cell Util_Arith
begin

text \<open>
  The space of a b-tree page (\<open>btree.c\<close>): defragmentation, allocation from the free list or the gap, freeing
  with coalescing, and the two operations on cells built on them. An assertion of the source
  after which the code would write outside the page is a result of its own, \<open>ASSERT_FAILED\<close>.
\<close>

abbreviation (input) ASSERT_FAILED :: rc where "ASSERT_FAILED \<equiv> 1000"

section \<open>Defragmentation\<close>

text \<open>The end of \<open>defragmentPage\<close>, from the label \<open>defragment_out\<close> on.\<close>

definition defragment_out :: "MemPage \<Rightarrow> mem \<Rightarrow> nat \<Rightarrow> rc \<times> MemPage" where
  "defragment_out p d cbrk =
     (let hdr = hdrOffset p; iCellFirst = cellOffset p + 2 * nCell p in
      if int (unat (d (hdr + 7))) + int cbrk - int iCellFirst \<noteq> nFree p then
        (SQLITE_CORRUPT, p\<lparr>aData := d\<rparr>)
      else if cbrk < iCellFirst then (ASSERT_FAILED, p\<lparr>aData := d\<rparr>)
      else
        let d = put2byte d (hdr + 5) cbrk;
            d = d(hdr + 1 := 0);
            d = d(hdr + 2 := 0)
        in (SQLITE_OK, p\<lparr>aData := memset d iCellFirst 0 (cbrk - iCellFirst)\<rparr>))"

text \<open>The loop over the cell pointers after one or two blocks of cells were moved up.\<close>

primrec shift_pointers :: "nat \<Rightarrow> nat \<Rightarrow> nat \<Rightarrow> nat \<Rightarrow> nat \<Rightarrow> nat \<Rightarrow> mem \<Rightarrow> mem" where
  "shift_pointers 0 pAddr iFree sz iFree2 sz2 d = d"
| "shift_pointers (Suc n) pAddr iFree sz iFree2 sz2 d =
     (let pc = get2byte d pAddr;
          d = (if pc < iFree then put2byte d pAddr (pc + sz)
               else if pc < iFree2 then put2byte d pAddr (pc + sz2) else d)
      in shift_pointers n (pAddr + 2) iFree sz iFree2 sz2 d)"

text \<open>The move itself: \<open>None\<close> where the code returns \<open>SQLITE_CORRUPT\<close>, which it does before any write.\<close>

definition defragment_fast :: "MemPage \<Rightarrow> nat \<Rightarrow> nat \<Rightarrow> (mem \<times> nat) option" where
  "defragment_fast p iFree iFree2 =
     (let d = aData p; hdr = hdrOffset p; u = usableSize (pBt p);
          sz = get2byte d (iFree + 2);
          brk = get2byte d (hdr + 5);
          finish = (\<lambda>d sz sz2.
            let cbrk = brk + sz;
                d = memmove d cbrk brk (iFree - brk)
            in Some (shift_pointers (nCell p) (cellOffset p) iFree sz iFree2 sz2 d, cbrk))
      in if brk \<ge> iFree then None
         else if iFree2 \<noteq> 0 then
           if iFree + sz > iFree2 then None
           else let sz2 = get2byte d (iFree2 + 2) in
             if iFree2 + sz2 > u then None
             else finish (memmove d (iFree + sz + sz2) (iFree + sz) (iFree2 - (iFree + sz))) (sz + sz2) sz2
         else if iFree + sz > u then None
         else finish d sz 0)"

text \<open>The general case: every cell is copied from \<open>src\<close> to the end of the page.\<close>

primrec pack_cells :: "nat \<Rightarrow> nat \<Rightarrow> MemPage \<Rightarrow> mem \<Rightarrow> nat \<Rightarrow> mem \<Rightarrow> nat \<Rightarrow> rc \<times> mem \<times> nat" where
  "pack_cells 0 i p src iCellStart d cbrk = (SQLITE_OK, d, cbrk)"
| "pack_cells (Suc n) i p src iCellStart d cbrk =
     (let u = usableSize (pBt p);
          pAddr = cellOffset p + i * 2;
          pc = get2byte d pAddr
      in if pc > u - 4 then (SQLITE_CORRUPT, d, cbrk)
         else let sz = cellSizeAt p src pc in
           if cbrk < iCellStart + sz \<or> pc + sz > u then (SQLITE_CORRUPT, d, cbrk)
           else let cbrk = cbrk - sz;
                    d = put2byte d pAddr cbrk;
                    d = memcpy d cbrk src pc sz
                in pack_cells n (i + 1) p src iCellStart d cbrk)"

definition defragment_slow :: "MemPage \<Rightarrow> rc \<times> MemPage" where
  "defragment_slow p =
     (let d = aData p; hdr = hdrOffset p; u = usableSize (pBt p);
          src = memcpy (tempSpace (pBt p)) 0 d 0 u
      in case pack_cells (nCell p) 0 p src (get2byte d (hdr + 5)) d u of (r, d, cbrk) \<Rightarrow>
         if r \<noteq> SQLITE_OK then (r, p\<lparr>aData := d\<rparr>)
         else defragment_out p (d(hdr + 7 := 0)) cbrk)"

definition defragmentPage :: "MemPage \<Rightarrow> int \<Rightarrow> rc \<times> MemPage" where
  "defragmentPage p nMaxFrag =
     (let d = aData p; hdr = hdrOffset p; u = usableSize (pBt p) in
      if int (unat (d (hdr + 7))) \<le> nMaxFrag then
        let iFree = get2byte d (hdr + 1) in
        if iFree > u - 4 then (SQLITE_CORRUPT, p)
        else if iFree \<noteq> 0 then
          let iFree2 = get2byte d iFree in
          if iFree2 > u - 4 then (SQLITE_CORRUPT, p)
          else if iFree2 = 0 \<or> (d iFree2 = 0 \<and> d (iFree2 + 1) = 0) then
            (case defragment_fast p iFree iFree2 of
               None \<Rightarrow> (SQLITE_CORRUPT, p)
             | Some (d, cbrk) \<Rightarrow> defragment_out p d cbrk)
          else defragment_slow p
        else defragment_slow p
      else defragment_slow p)"

section \<open>Allocation\<close>

text \<open>
  \<open>pageFindSlot\<close>: the loop, with the address \<open>iAddr\<close> of the pointer to the slot \<open>pc\<close>. The result is
  the code for \<open>*pRC\<close>, the offset found, and the page.
\<close>

function find_slot :: "nat \<Rightarrow> nat \<Rightarrow> nat \<Rightarrow> mem \<Rightarrow> nat \<Rightarrow> nat \<Rightarrow> rc \<times> nat option \<times> mem" where
  "find_slot u nByte hdr d iAddr pc =
     (let maxPC = u - nByte in
      if pc \<le> maxPC then
        let sz = get2byte d (pc + 2) in
        if sz \<ge> nByte then
          let x = sz - nByte in
          if x < 4 then
            if d (hdr + 7) > 57 then (SQLITE_OK, None, d)
            else let d' = memcpy d iAddr d pc 2
                 in (SQLITE_OK, Some pc, d'(hdr + 7 := d' (hdr + 7) + word_of_nat x))
          else if x + pc > maxPC then (SQLITE_CORRUPT, None, d)
          else (SQLITE_OK, Some (pc + x), put2byte d (pc + 2) x)
        else
          let pc' = get2byte d pc in
          if pc' \<le> pc then (if pc' \<noteq> 0 then SQLITE_CORRUPT else SQLITE_OK, None, d)
          else find_slot u nByte hdr d pc pc'
      else (if pc > maxPC + nByte - 4 then SQLITE_CORRUPT else SQLITE_OK, None, d))"
  by auto
termination by (relation "measure (\<lambda>(u, nByte, hdr, d, iAddr, pc). u - nByte + 1 - pc)") auto

declare find_slot.simps [simp del]

definition pageFindSlot :: "MemPage \<Rightarrow> nat \<Rightarrow> rc \<times> nat option \<times> MemPage" where
  "pageFindSlot p nByte =
     (let hdr = hdrOffset p; d = aData p in
      case find_slot (usableSize (pBt p)) nByte hdr d (hdr + 1) (get2byte d (hdr + 1)) of
        (r, s, d') \<Rightarrow> (r, s, p\<lparr>aData := d'\<rparr>))"

text \<open>
  \<open>allocateSpace\<close>. The last part takes the space from the gap; the result is the code, \<open>*pIdx\<close> and the
  page.
\<close>

definition allocate_gap :: "MemPage \<Rightarrow> nat \<Rightarrow> nat \<Rightarrow> rc \<times> nat \<times> MemPage" where
  "allocate_gap p nByte brk =
     (SQLITE_OK, brk - nByte, p\<lparr>aData := put2byte (aData p) (hdrOffset p + 5) (brk - nByte)\<rparr>)"

definition allocate_defrag :: "MemPage \<Rightarrow> nat \<Rightarrow> nat \<Rightarrow> nat \<Rightarrow> rc \<times> nat \<times> MemPage" where
  "allocate_defrag p nByte gap brk =
     (if gap + 2 + nByte > brk then
        (case defragmentPage p (min 4 (nFree p - (2 + int nByte))) of (r, p) \<Rightarrow>
           if r \<noteq> SQLITE_OK then (r, 0, p)
           else let brk = get2byteNotZero (aData p) (hdrOffset p + 5) in
             if gap + 2 + nByte > brk then (ASSERT_FAILED, 0, p)
             else allocate_gap p nByte brk)
      else allocate_gap p nByte brk)"

definition allocateSpace :: "MemPage \<Rightarrow> nat \<Rightarrow> rc \<times> nat \<times> MemPage" where
  "allocateSpace p nByte =
     (let hdr = hdrOffset p; d = aData p; u = usableSize (pBt p);
          gap = cellOffset p + 2 * nCell p;
          brk0 = get2byte d (hdr + 5)
      in if gap > brk0 \<and> \<not> (brk0 = 0 \<and> u = 65536) then (SQLITE_CORRUPT, 0, p)
         else if \<not> gap > brk0 \<and> brk0 > u then (SQLITE_CORRUPT, 0, p)
         else
           let brk = (if gap > brk0 then 65536 else brk0) in
           if (d (hdr + 2) \<noteq> 0 \<or> d (hdr + 1) \<noteq> 0) \<and> gap + 2 \<le> brk then
             (case pageFindSlot p nByte of (r, s, p) \<Rightarrow>
                (case s of
                   Some g2 \<Rightarrow> if g2 \<le> gap then (SQLITE_CORRUPT, g2, p) else (SQLITE_OK, g2, p)
                 | None \<Rightarrow> if r \<noteq> SQLITE_OK then (r, 0, p) else allocate_defrag p nByte gap brk))
           else allocate_defrag p nByte gap brk)"

section \<open>Freeing\<close>

text \<open>
  \<open>freeSpace\<close>. The search for the place in the list: the address \<open>iPtr\<close> of the pointer and the freeblock
  \<open>iFreeBlk\<close> it points to, \<open>None\<close> for \<open>SQLITE_CORRUPT\<close>.
\<close>

function free_search :: "mem \<Rightarrow> nat \<Rightarrow> nat \<Rightarrow> (nat \<times> nat) option" where
  "free_search d iStart iPtr =
     (let iFreeBlk = get2byte d iPtr in
      if iFreeBlk < iStart then
        if iFreeBlk \<le> iPtr then (if iFreeBlk = 0 then Some (iPtr, iFreeBlk) else None)
        else free_search d iStart iFreeBlk
      else Some (iPtr, iFreeBlk))"
  by auto
termination by (relation "measure (\<lambda>(d, iStart, iPtr). iStart - iPtr)") auto

declare free_search.simps [simp del]

text \<open>
  Coalescing with the next and with the previous freeblock: the new \<open>iStart\<close>, \<open>iSize\<close>, \<open>iEnd\<close>,
  \<open>iFreeBlk\<close> and \<open>nFrag\<close>.
\<close>

definition coalesce_prev ::
    "mem \<Rightarrow> nat \<Rightarrow> nat \<Rightarrow> nat \<Rightarrow> nat \<Rightarrow> nat \<Rightarrow> nat \<Rightarrow> nat \<Rightarrow> (nat \<times> nat \<times> nat \<times> nat \<times> nat) option" where
  "coalesce_prev d hdr iPtr iStart iSize iEnd iFreeBlk nFrag =
     (if iPtr > hdr + 1 then
        let iPtrEnd = iPtr + get2byte d (iPtr + 2) in
        if iPtrEnd + 3 \<ge> iStart then
          if iPtrEnd > iStart then None
          else Some (iPtr, iEnd - iPtr, iEnd, iFreeBlk, nFrag + (iStart - iPtrEnd))
        else Some (iStart, iSize, iEnd, iFreeBlk, nFrag)
      else Some (iStart, iSize, iEnd, iFreeBlk, nFrag))"

definition free_coalesce ::
    "mem \<Rightarrow> nat \<Rightarrow> nat \<Rightarrow> nat \<Rightarrow> nat \<Rightarrow> nat \<Rightarrow> nat \<Rightarrow> (nat \<times> nat \<times> nat \<times> nat \<times> nat) option" where
  "free_coalesce d u hdr iPtr iFreeBlk iStart iSize =
     (let iEnd = iStart + iSize in
      if iFreeBlk \<noteq> 0 \<and> iEnd + 3 \<ge> iFreeBlk then
        if iEnd > iFreeBlk then None
        else let nFrag = iFreeBlk - iEnd; iEnd = iFreeBlk + get2byte d (iFreeBlk + 2) in
          if iEnd > u then None
          else coalesce_prev d hdr iPtr iStart (iEnd - iStart) iEnd (get2byte d iFreeBlk) nFrag
      else coalesce_prev d hdr iPtr iStart iSize iEnd iFreeBlk 0)"

text \<open>The end, which writes the page.\<close>

definition free_write :: "MemPage \<Rightarrow> mem \<Rightarrow> nat \<Rightarrow> nat \<Rightarrow> nat \<Rightarrow> nat \<Rightarrow> nat \<Rightarrow> nat \<Rightarrow> rc \<times> MemPage" where
  "free_write p d iPtr iOrigSize iStart iSize iEnd iFreeBlk =
     (let hdr = hdrOffset p;
          x = get2byte d (hdr + 5);
          d = (if fastSecure (pBt p) then memset d iStart 0 iSize else d)
      in if iStart \<le> x then
           if iStart < x then (SQLITE_CORRUPT, p\<lparr>aData := d\<rparr>)
           else if iPtr \<noteq> hdr + 1 then (SQLITE_CORRUPT, p\<lparr>aData := d\<rparr>)
           else (SQLITE_OK, p\<lparr>aData := put2byte (put2byte d (hdr + 1) iFreeBlk) (hdr + 5) iEnd,
                              nFree := nFree p + int iOrigSize\<rparr>)
         else (SQLITE_OK, p\<lparr>aData := put2byte (put2byte (put2byte d iPtr iStart) iStart iFreeBlk) (iStart + 2) (to_u16 iSize),
                            nFree := nFree p + int iOrigSize\<rparr>))"

definition freeSpace :: "MemPage \<Rightarrow> nat \<Rightarrow> nat \<Rightarrow> rc \<times> MemPage" where
  "freeSpace p iStart iSize =
     (let d = aData p; hdr = hdrOffset p; u = usableSize (pBt p) in
      if d (hdr + 2) = 0 \<and> d (hdr + 1) = 0 then
        free_write p d (hdr + 1) iSize iStart iSize (iStart + iSize) 0
      else
        (case free_search d iStart (hdr + 1) of
           None \<Rightarrow> (SQLITE_CORRUPT, p)
         | Some (iPtr, iFreeBlk) \<Rightarrow>
             if iFreeBlk > u - 4 then (SQLITE_CORRUPT, p)
             else (case free_coalesce d u hdr iPtr iFreeBlk iStart iSize of
                 None \<Rightarrow> (SQLITE_CORRUPT, p)
               | Some (iStart, iSize', iEnd, iFreeBlk, nFrag) \<Rightarrow>
                   if nFrag > unat (d (hdr + 7)) then (SQLITE_CORRUPT, p)
                   else free_write p (d(hdr + 7 := d (hdr + 7) - word_of_nat nFrag)) iPtr iSize
                          iStart iSize' iEnd iFreeBlk)))"

section \<open>Cells\<close>

text \<open>\<open>dropCell\<close>; the argument \<open>rc\<close> is the value of \<open>*pRC\<close>, the result its new value.\<close>

definition dropCell :: "MemPage \<Rightarrow> nat \<Rightarrow> nat \<Rightarrow> rc \<Rightarrow> rc \<times> MemPage" where
  "dropCell p idx sz rc =
     (if rc \<noteq> SQLITE_OK then (rc, p)
      else
        let b = pBt p; ptr = cellOffset p + 2 * idx; pc = get2byte (aData p) ptr; hdr = hdrOffset p in
        if pc + sz > usableSize b then (SQLITE_CORRUPT, p)
        else (case freeSpace p pc sz of (r, p) \<Rightarrow>
          if r \<noteq> SQLITE_OK then (r, p)
          else
            let p = p\<lparr>nCell := nCell p - 1\<rparr>; d = aData p in
            if nCell p = 0 then
              let d = memset d (hdr + 1) 0 4;
                  d = d(hdr + 7 := 0);
                  d = put2byte d (hdr + 5) (usableSize b)
              in (SQLITE_OK, p\<lparr>aData := d,
                    nFree := int (usableSize b) - int (hdrOffset p) - int (childPtrSize p) - 8\<rparr>)
            else
              let d = memmove d ptr (ptr + 2) (2 * (nCell p - idx));
                  d = put2byte d (hdr + 3) (nCell p)
              in (SQLITE_OK, p\<lparr>aData := d, nFree := nFree p + 2\<rparr>)))"

definition put_bytes :: "mem \<Rightarrow> nat \<Rightarrow> u8 list \<Rightarrow> mem" where
  "put_bytes d a xs = memcpy d a (\<lambda>i. xs ! i) 0 (length xs)"

text \<open>
  The common part of \<open>insertCell\<close> and \<open>insertCellFast\<close>: the space, the content, the pointer and the
  count. \<open>pcell\<close> is the content, \<open>sz\<close> bytes; the answer of \<open>sqlite3PagerWrite\<close> and that of \<open>ptrmapPutOvflPtr\<close>, which
  changes a page of the pointer map and not this one, are arguments.
\<close>

definition insert_on_page ::
    "rc \<Rightarrow> rc \<Rightarrow> MemPage \<Rightarrow> nat \<Rightarrow> u8 list \<Rightarrow> rc \<times> MemPage" where
  "insert_on_page write_rc ptrmap_rc p i pcell =
     (if write_rc \<noteq> SQLITE_OK then (write_rc, p)
      else case allocateSpace p (length pcell) of (r, idx, p) \<Rightarrow>
        if r \<noteq> SQLITE_OK then (r, p)
        else
          let p = p\<lparr>nFree := nFree p - int (to_u16 (2 + length pcell))\<rparr>;
              hdr = hdrOffset p;
              d = put_bytes (aData p) idx pcell;
              pIns = cellOffset p + i * 2;
              d = memmove d (pIns + 2) pIns (2 * (nCell p - i));
              d = put2byte d pIns idx;
              d = d(hdr + 4 := d (hdr + 4) + 1);
              d = (if d (hdr + 4) = 0 then d(hdr + 3 := d (hdr + 3) + 1) else d);
              p = p\<lparr>nCell := nCell p + 1, aData := d\<rparr>
          in (if autoVacuum (pBt p) \<and> ptrmap_rc \<noteq> SQLITE_OK then ptrmap_rc else SQLITE_OK, p))"

text \<open>
  \<open>insertCell\<close> writes the child page number over the first four bytes: in the copy on the page, or
  in the cell it keeps as an overflow. \<open>insertCellFast\<close> writes the cell as it is.
\<close>

definition insertCell ::
    "rc \<Rightarrow> rc \<Rightarrow> MemPage \<Rightarrow> nat \<Rightarrow> u8 list \<Rightarrow> nat \<Rightarrow> u32 \<Rightarrow> rc \<times> MemPage" where
  "insertCell write_rc ptrmap_rc p i pcell sz iChild =
     (if apOvfl p \<noteq> [] \<or> int sz + 2 > nFree p then
        (SQLITE_OK, p\<lparr>apOvfl := apOvfl p @ [Put4byte iChild @ drop 4 pcell],
                      aiOvfl := aiOvfl p @ [to_u16 i]\<rparr>)
      else insert_on_page write_rc ptrmap_rc p i (Put4byte iChild @ drop 4 (take sz pcell)))"

definition insertCellFast ::
    "rc \<Rightarrow> rc \<Rightarrow> MemPage \<Rightarrow> nat \<Rightarrow> u8 list \<Rightarrow> nat \<Rightarrow> rc \<times> MemPage" where
  "insertCellFast write_rc ptrmap_rc p i pcell sz =
     (if int sz + 2 > nFree p then
        (SQLITE_OK, p\<lparr>apOvfl := apOvfl p @ [pcell], aiOvfl := aiOvfl p @ [to_u16 i]\<rparr>)
      else insert_on_page write_rc ptrmap_rc p i (take sz pcell))"

end
