(* ===== verification/Btree_Layout.thy ===== *)
theory Btree_Layout
  imports Btree_Space
begin

text \<open>
  The layout of a page: the regions of the cells and of the freeblocks, the list of freeblocks in
  the bytes, and the invariant \<open>space_ok\<close> of the free space, with the facts about reads and writes of bytes
  that its proofs share.
\<close>

section \<open>Reads after writes\<close>

lemma u8_of_nat: "unat (word_of_nat v :: u8) = v mod 256"
  by (simp add: unsigned_of_nat take_bit_eq_mod)

lemma get2byte_less: "get2byte d p < 65536"
proof -
  have "unat (d p) < 256" "unat (d (p + 1)) < 256"
    using unsigned_less [of "d p"] unsigned_less [of "d (p + 1)"] by simp_all
  then show ?thesis unfolding get2byte_def by linarith
qed

lemma get2byte_put2byte [simp]: "v < 65536 \<Longrightarrow> get2byte (put2byte d p v) p = v"
  by (simp add: get2byte_def put2byte_def u8_of_nat)

lemma put2byte_other: "i < p \<or> p + 1 < i \<Longrightarrow> put2byte d p v i = d i"
  by (auto simp: put2byte_def)

lemma get2byte_cong: "d' p = d p \<Longrightarrow> d' (p + 1) = d (p + 1) \<Longrightarrow> get2byte d' p = get2byte d p"
  by (simp add: get2byte_def)

lemma get2byte_put2byte_other: "q + 1 < p \<or> p + 1 < q \<Longrightarrow> get2byte (put2byte d p v) q = get2byte d q"
  by (intro get2byte_cong put2byte_other) auto

lemma get2byte_upd_other: "i \<noteq> p \<Longrightarrow> i \<noteq> p + 1 \<Longrightarrow> get2byte (d(i := v)) p = get2byte d p"
  by (intro get2byte_cong) auto

lemma memset_other: "i < a \<or> a + n \<le> i \<Longrightarrow> memset d a v n i = d i"
  by (auto simp: memset_def)

lemma memset_in: "a \<le> i \<Longrightarrow> i < a + n \<Longrightarrow> memset d a v n i = v"
  by (simp add: memset_def)

lemma memcpy_other: "i < a \<or> a + n \<le> i \<Longrightarrow> memcpy d a s b n i = d i"
  by (auto simp: memcpy_def)

lemma memcpy_in: "a \<le> i \<Longrightarrow> i < a + n \<Longrightarrow> memcpy d a s b n i = s (b + (i - a))"
  by (simp add: memcpy_def)

lemma get2byteNotZero_le: "get2byteNotZero d p \<le> 65536"
  using get2byte_less [of d p] by (simp add: get2byteNotZero_def)

lemma get2byteNotZero_put2byte [simp]:
  "0 < v \<Longrightarrow> v \<le> 65536 \<Longrightarrow> get2byteNotZero (put2byte d p v) p = v"
proof (cases "v = 65536")
  case True
  then show ?thesis by (simp add: get2byteNotZero_def get2byte_def put2byte_def u8_of_nat)
qed (simp add: get2byteNotZero_def)

section \<open>Regions\<close>

text \<open>A region is a start and a size; two regions are apart when no byte is in both.\<close>

type_synonym region = "nat \<times> nat"

definition apart :: "region \<Rightarrow> region \<Rightarrow> bool" where
  "apart r s \<longleftrightarrow> fst r + snd r \<le> fst s \<or> fst s + snd s \<le> fst r"

abbreviation apart_list :: "region list \<Rightarrow> bool" where
  "apart_list \<equiv> sorted_wrt apart"

abbreviation region_sum :: "region list \<Rightarrow> nat" where
  "region_sum rs \<equiv> sum_list (map snd rs)"

lemma apart_sym: "apart r s \<longleftrightarrow> apart s r"
  by (auto simp: apart_def)

lemma apart_list_mid:
  "apart_list (xs @ y # zs) \<longleftrightarrow> apart_list (xs @ zs) \<and> (\<forall>r\<in>set (xs @ zs). apart r y)"
proof -
  have "(\<forall>r\<in>set zs. apart y r) \<longleftrightarrow> (\<forall>r\<in>set zs. apart r y)" by (meson apart_sym)
  then show ?thesis by (simp add: sorted_wrt_append) blast
qed

lemma apart_total:
  assumes "apart_list rs" "\<forall>r\<in>set rs. lo \<le> fst r \<and> fst r + snd r \<le> hi"
  shows "region_sum rs \<le> hi - lo"
proof -
  let ?b = "\<lambda>r. {fst r..<fst r + snd r}"
  have "card (\<Union>r\<in>set rs. ?b r) = region_sum rs"
    using assms(1)
  proof (induction rs)
    case (Cons r rs)
    have "?b r \<inter> (\<Union>s\<in>set rs. ?b s) = {}" using Cons.prems by (force simp: apart_def)
    with Cons show ?case by (simp add: card_Un_disjoint)
  qed simp
  moreover have "?b r \<subseteq> {lo..<hi}" if "r \<in> set rs" for r
    using assms(2) that by (simp add: ivl_subset)
  then have "(\<Union>r\<in>set rs. ?b r) \<subseteq> {lo..<hi}" by blast
  then have "card (\<Union>r\<in>set rs. ?b r) \<le> card {lo..<hi}" by (intro card_mono) simp_all
  ultimately show ?thesis by simp
qed

section \<open>The list of freeblocks\<close>

text \<open>
  A list of freeblocks starts at an address and is in order, each block at least four bytes after
  the end of the one before it; \<open>seg\<close> says that the bytes of the blocks \<open>bs\<close> hold their sizes and their links, the last
  one to \<open>t\<close>.
\<close>

fun spaced :: "nat \<Rightarrow> nat \<Rightarrow> region list \<Rightarrow> bool" where
  "spaced lo u [] = True"
| "spaced lo u ((a, n) # fs) \<longleftrightarrow> lo \<le> a \<and> 4 \<le> n \<and> a + n \<le> u \<and> spaced (a + n + 4) u fs"

definition first_addr :: "region list \<Rightarrow> nat \<Rightarrow> nat" where
  "first_addr bs t = (case bs of [] \<Rightarrow> t | (a, n) # _ \<Rightarrow> a)"

lemma first_addr_simps [simp]: "first_addr [] t = t" "first_addr ((a, n) # bs) t = a"
  by (simp_all add: first_addr_def)

lemma first_addr_append: "first_addr (bs @ cs) t = first_addr bs (first_addr cs t)"
  by (cases bs) (auto simp: first_addr_def)

fun seg :: "mem \<Rightarrow> region list \<Rightarrow> nat \<Rightarrow> bool" where
  "seg d [] t = True"
| "seg d ((a, n) # bs) t \<longleftrightarrow> get2byte d a = first_addr bs t \<and> get2byte d (a + 2) = n \<and> seg d bs t"

definition chain :: "mem \<Rightarrow> nat \<Rightarrow> region list \<Rightarrow> bool" where
  "chain d q fl \<longleftrightarrow> get2byte d q = first_addr fl 0 \<and> seg d fl 0"

lemma seg_append: "seg d (bs @ cs) t \<longleftrightarrow> seg d bs (first_addr cs t) \<and> seg d cs t"
  by (induction d bs t rule: seg.induct) (auto simp: first_addr_append)

lemma seg_frame:
  "(\<And>a n i. (a, n) \<in> set bs \<Longrightarrow> a \<le> i \<Longrightarrow> i < a + 4 \<Longrightarrow> d' i = d i) \<Longrightarrow> seg d' bs t = seg d bs t"
proof (induction d bs t rule: seg.induct)
  case (2 d a n bs t)
  have "get2byte d' a = get2byte d a" "get2byte d' (a + 2) = get2byte d (a + 2)"
    using 2(2) [of a n] by (intro get2byte_cong; simp)+
  with 2 show ?case by auto
qed simp

lemma spaced_append:
  "spaced lo u (bs @ cs) \<longleftrightarrow>
     spaced lo u bs \<and> spaced (case bs of [] \<Rightarrow> lo | _ \<Rightarrow> fst (last bs) + snd (last bs) + 4) u cs"
  by (induction lo u bs rule: spaced.induct) (auto split: list.splits)

lemma spaced_in: "spaced lo u fl \<Longrightarrow> (a, n) \<in> set fl \<Longrightarrow> lo \<le> a \<and> 4 \<le> n \<and> a + n \<le> u"
  by (induction lo u fl rule: spaced.induct) fastforce+

lemma spaced_all: "spaced lo u fl \<Longrightarrow> \<forall>f\<in>set fl. lo \<le> fst f \<and> 4 \<le> snd f \<and> fst f + snd f \<le> u"
  using spaced_in by fastforce

lemma spaced_mono: "spaced lo u fl \<Longrightarrow> lo' \<le> lo \<Longrightarrow> spaced lo' u fl"
  by (cases fl) auto

lemma spaced_snoc:
  "spaced lo u (bs @ [(c, k)]) \<Longrightarrow>
     spaced lo u bs \<and> lo \<le> c \<and> 4 \<le> k \<and> c + k \<le> u \<and> (\<forall>b\<in>set bs. fst b + snd b + 4 \<le> c)"
  by (induction lo u bs rule: spaced.induct) auto

lemma spaced_around:
  assumes "spaced lo u (bs @ (b, m) # fs)"
  shows "\<forall>f\<in>set bs. fst f + snd f + 4 \<le> b" "\<forall>f\<in>set fs. b + m + 4 \<le> fst f"
proof -
  have "spaced (b + m + 4) u fs" "spaced lo u (bs @ [(b, m)])" using assms by (auto simp: spaced_append)
  then show "\<forall>f\<in>set bs. fst f + snd f + 4 \<le> b" "\<forall>f\<in>set fs. b + m + 4 \<le> fst f"
    using spaced_snoc spaced_all by blast+
qed

lemma spaced_apart: "spaced lo u fl \<Longrightarrow> apart_list fl"
proof (induction lo u fl rule: spaced.induct)
  case (2 lo u a n fs)
  then have "\<forall>f\<in>set fs. apart (a, n) f" using spaced_in [of "a + n + 4" u fs] by (fastforce simp: apart_def)
  with 2 show ?case by simp
qed simp

section \<open>The invariant of the free space\<close>

text \<open>
  \<open>space_ok d hdr u rs fl\<close>: in the page \<open>d\<close> with its header at \<open>hdr\<close> and \<open>u\<close> usable bytes, the cells
  occupy the regions \<open>rs\<close>, the list of freeblocks is \<open>fl\<close>, they do not overlap, and every byte after the
  start of the cell content area is in one of them or counted as a fragment.
\<close>

definition content_start :: "mem \<Rightarrow> nat \<Rightarrow> nat" where
  "content_start d hdr = get2byteNotZero d (hdr + 5)"

definition frag :: "mem \<Rightarrow> nat \<Rightarrow> nat" where
  "frag d hdr = unat (d (hdr + 7))"

definition space_ok :: "mem \<Rightarrow> nat \<Rightarrow> nat \<Rightarrow> region list \<Rightarrow> region list \<Rightarrow> bool" where
  "space_ok d hdr u rs fl \<longleftrightarrow>
     (let brk = content_start d hdr in
        hdr + 8 \<le> brk \<and> brk \<le> u \<and> u \<le> 65536 \<and>
        chain d (hdr + 1) fl \<and> spaced (brk + 1) u fl \<and>
        apart_list rs \<and> (\<forall>r\<in>set rs. \<forall>f\<in>set fl. apart r f) \<and>
        (\<forall>r\<in>set rs. brk \<le> fst r \<and> fst r + snd r \<le> u \<and> 4 \<le> snd r) \<and>
        region_sum rs + region_sum fl + frag d hdr = u - brk \<and> frag d hdr \<le> 60)"

lemma space_okI:
  assumes "hdr + 8 \<le> content_start d hdr" "content_start d hdr \<le> u" "u \<le> 65536" "chain d (hdr + 1) fl"
    "spaced (content_start d hdr + 1) u fl" "apart_list rs" "\<forall>r\<in>set rs. \<forall>f\<in>set fl. apart r f"
    "\<forall>r\<in>set rs. content_start d hdr \<le> fst r \<and> fst r + snd r \<le> u \<and> 4 \<le> snd r"
    "region_sum rs + region_sum fl + frag d hdr = u - content_start d hdr" "frag d hdr \<le> 60"
  shows "space_ok d hdr u rs fl"
  using assms by (simp add: space_ok_def Let_def)

lemma space_okD:
  assumes "space_ok d hdr u rs fl"
  shows "hdr + 8 \<le> content_start d hdr" "content_start d hdr \<le> u" "u \<le> 65536" "chain d (hdr + 1) fl"
    "spaced (content_start d hdr + 1) u fl" "apart_list rs" "\<forall>r\<in>set rs. \<forall>f\<in>set fl. apart r f"
    "\<forall>r\<in>set rs. content_start d hdr \<le> fst r \<and> fst r + snd r \<le> u \<and> 4 \<le> snd r"
    "region_sum rs + region_sum fl + frag d hdr = u - content_start d hdr" "frag d hdr \<le> 60"
  using assms by (simp_all add: space_ok_def Let_def)

lemma space_ok_total:
  assumes "space_ok d hdr u rs fl" "apart_list gs"
    "\<forall>g\<in>set gs. content_start d hdr \<le> fst g \<and> fst g + snd g \<le> u \<and> (\<forall>r\<in>set (rs @ fl). apart r g)"
  shows "region_sum gs \<le> frag d hdr"
proof -
  note sp = assms(1) [unfolded space_ok_def Let_def]
  have "apart_list fl" using sp spaced_apart by blast
  with sp assms(2,3) have "apart_list (rs @ fl @ gs)" by (auto simp: sorted_wrt_append)
  moreover have "\<forall>r\<in>set (rs @ fl @ gs). content_start d hdr \<le> fst r \<and> fst r + snd r \<le> u"
    using sp assms(3) spaced_in [of "content_start d hdr + 1" u fl] by fastforce
  ultimately have "region_sum (rs @ fl @ gs) \<le> u - content_start d hdr" by (rule apart_total)
  with sp show ?thesis by simp
qed

end
