(* ===== verification/Btree_Free.thy ===== *)
theory Btree_Free
  imports Btree_Layout
begin

text \<open>
  Freeing on a page that is in order: \<open>freeSpace\<close> finds the place of the block in the list, merges it with
  the blocks that touch it up to three bytes of fragments, and keeps the invariant.
\<close>

section \<open>The place in the list\<close>

definition ptr_of :: "nat \<Rightarrow> region list \<Rightarrow> nat" where
  "ptr_of q bs = (if bs = [] then q else fst (last bs))"

lemma ptr_of_simps [simp]: "ptr_of q [] = q" "ptr_of q (b # bs) = ptr_of (fst b) bs"
  by (auto simp: ptr_of_def)

lemma free_search_eq:
  assumes "chain d q (bs @ fs)" "spaced (q + 1) u (bs @ fs)" "\<forall>b\<in>set bs. fst b < a"
    "\<forall>f\<in>set fs. a \<le> fst f" "0 < a"
  shows "free_search d a q = Some (ptr_of q bs, first_addr fs 0)"
  using assms
proof (induction bs arbitrary: q)
  case Nil
  then show ?case
    by (subst free_search.simps) (auto simp: chain_def first_addr_def split: list.splits)
next
  case (Cons b bs)
  obtain c k where b: "b = (c, k)" by (cases b)
  have "free_search d a c = Some (ptr_of c bs, first_addr fs 0)"
    using Cons.prems b by (intro Cons.IH) (auto simp: chain_def elim: spaced_mono)
  with Cons.prems b show ?case by (subst free_search.simps) (auto simp: chain_def)
qed

section \<open>Coalescing\<close>

text \<open>The end of the merged block, the blocks left after it and the fragment bytes that are filled; likewise for the start.\<close>

definition merge_next :: "nat \<Rightarrow> region list \<Rightarrow> nat \<times> region list \<times> nat" where
  "merge_next e fs = (case fs of [] \<Rightarrow> (e, [], 0)
     | (b, m) # fs' \<Rightarrow> if e + 3 \<ge> b then (b + m, fs', b - e) else (e, fs, 0))"

definition merge_prev :: "nat \<Rightarrow> region list \<Rightarrow> nat \<times> region list \<times> nat" where
  "merge_prev s bs =
     (if bs \<noteq> [] \<and> fst (last bs) + snd (last bs) + 3 \<ge> s
      then (fst (last bs), butlast bs, s - (fst (last bs) + snd (last bs))) else (s, bs, 0))"

lemma merge_next_cases:
  assumes "spaced lo u fs" "\<forall>f\<in>set fs. e \<le> fst f"
  obtains (kept) "merge_next e fs = (e, fs, 0)" "spaced (e + 4) u fs"
  | (merged) b m fs0 where "fs = (b, m) # fs0" "merge_next e fs = (b + m, fs0, b - e)" "e \<le> b" "b \<le> e + 3"
      "4 \<le> m" "b + m \<le> u" "spaced (b + m + 4) u fs0" "\<forall>f\<in>set fs0. b + m + 4 \<le> fst f"
proof (cases "\<exists>b m fs0. fs = (b, m) # fs0 \<and> b \<le> e + 3")
  case True
  then obtain b m fs0 where f: "fs = (b, m) # fs0" "b \<le> e + 3" by blast
  then have sp: "spaced (b + m + 4) u fs0" "4 \<le> m" "b + m \<le> u" using assms(1) by auto
  then have "\<forall>f\<in>set fs0. b + m + 4 \<le> fst f" using spaced_in by fastforce
  with sp f assms(2) show ?thesis by (intro merged [of b m fs0]) (auto simp: merge_next_def)
next
  case False
  then have "spaced (e + 4) u fs" using assms(1) by (cases fs) auto
  with False show ?thesis by (intro kept) (auto simp: merge_next_def split: list.splits)
qed

lemma merge_prev_cases:
  assumes "spaced lo u bs" "\<forall>b\<in>set bs. fst b + snd b \<le> a"
  obtains (kept) "merge_prev a bs = (a, bs, 0)" "\<forall>b\<in>set bs. fst b + snd b + 4 \<le> a"
  | (merged) bs0 c k where "bs = bs0 @ [(c, k)]" "merge_prev a bs = (c, bs0, a - (c + k))" "c + k \<le> a"
      "a \<le> c + k + 3" "spaced lo u bs0" "lo \<le> c" "4 \<le> k" "\<forall>b\<in>set bs0. fst b + snd b + 4 \<le> c"
proof (cases "\<exists>bs0 c k. bs = bs0 @ [(c, k)] \<and> a \<le> c + k + 3")
  case True
  then obtain bs0 c k where f: "bs = bs0 @ [(c, k)]" "a \<le> c + k + 3" by blast
  with spaced_snoc [of lo u bs0 c k] assms show ?thesis
    by (intro merged [of bs0 c k]) (auto simp: merge_prev_def)
next
  case False
  show ?thesis
  proof (cases bs rule: rev_cases)
    case Nil
    then show ?thesis by (intro kept) (auto simp: merge_prev_def)
  next
    case (snoc bs0 b)
    obtain c k where b: "bs = bs0 @ [(c, k)]" using snoc by (cases b) simp
    with False have far: "c + k + 3 < a" by (auto simp: not_le)
    have "\<forall>b\<in>set bs0. fst b + snd b + 4 \<le> c" using spaced_snoc [of lo u bs0 c k] assms(1) b by simp
    with far have "\<forall>b\<in>set bs0. fst b + snd b + 4 \<le> a" by fastforce
    with b far show ?thesis by (intro kept) (auto simp: merge_prev_def)
  qed
qed

text \<open>What the two merges give together, for a cell \<open>(a, n)\<close> between \<open>bs\<close> and \<open>fs\<close>.\<close>

lemma merge_facts:
  assumes "spaced lo u (bs @ fs)" "4 \<le> n" "lo \<le> a + 1" "a + n \<le> u"
    "\<forall>b\<in>set bs. fst b + snd b \<le> a" "\<forall>f\<in>set fs. a + n \<le> fst f"
    "merge_next (a + n) fs = (e, fs', g)" "merge_prev a bs = (s, bs', h)"
  shows "s \<le> a" "a + n + g \<le> e" "s + h \<le> a" "e \<le> u" "lo \<le> s + 1" "set bs' \<subseteq> set bs" "set fs' \<subseteq> set fs"
    "region_sum bs' + (e - s) + region_sum fs' = region_sum bs + n + region_sum fs + g + h"
    "spaced lo u bs'" "\<forall>b\<in>set bs'. fst b + snd b + 4 \<le> s" "spaced (e + 4) u fs'"
    "bs' = bs \<and> s = a \<and> h = 0 \<or> (\<exists>k. bs = bs' @ [(s, k)] \<and> lo \<le> s)"
    "\<forall>b\<in>set bs. fst b + snd b \<le> a - h" "\<forall>f\<in>set fs. a + n + g \<le> fst f"
    "\<And>r. 4 \<le> snd r \<Longrightarrow> apart r (a, n) \<Longrightarrow> \<forall>b\<in>set (bs @ fs). apart r b \<Longrightarrow>
       apart r (s, e - s) \<and> apart r (a + n, g) \<and> apart r (a - h, h)"
proof -
  obtain lo' where sp: "spaced lo u bs" "spaced lo' u fs" using assms(1) by (auto simp: spaced_append)
  show "s \<le> a" "a + n + g \<le> e" "s + h \<le> a" "e \<le> u" "lo \<le> s + 1" "set bs' \<subseteq> set bs" "set fs' \<subseteq> set fs"
    "region_sum bs' + (e - s) + region_sum fs' = region_sum bs + n + region_sum fs + g + h"
    "spaced lo u bs'" "\<forall>b\<in>set bs'. fst b + snd b + 4 \<le> s" "spaced (e + 4) u fs'"
    "bs' = bs \<and> s = a \<and> h = 0 \<or> (\<exists>k. bs = bs' @ [(s, k)] \<and> lo \<le> s)"
    "\<forall>b\<in>set bs. fst b + snd b \<le> a - h" "\<forall>f\<in>set fs. a + n + g \<le> fst f"
    by (rule merge_next_cases [OF sp(2) assms(6)]; rule merge_prev_cases [OF sp(1) assms(5)];
        use assms sp in force)+
  show "apart r (s, e - s) \<and> apart r (a + n, g) \<and> apart r (a - h, h)"
    if "4 \<le> snd r" "apart r (a, n)" "\<forall>b\<in>set (bs @ fs). apart r b" for r
    by (rule merge_next_cases [OF sp(2) assms(6)]; rule merge_prev_cases [OF sp(1) assms(5)];
        use assms(4,7,8) that in \<open>auto simp: apart_def\<close>)
qed

lemma seg_last: "seg d (bs @ [(c, k)]) t \<longleftrightarrow> seg d bs c \<and> get2byte d c = t \<and> get2byte d (c + 2) = k"
  by (simp add: seg_append)

lemma free_coalesce_eq:
  assumes "chain d (hdr + 1) (bs @ fs)" "spaced lo u (bs @ fs)" "hdr + 2 \<le> lo"
    "\<forall>b\<in>set bs. fst b + snd b \<le> a" "\<forall>f\<in>set fs. a + n \<le> fst f"
    "merge_next (a + n) fs = (e, fs', g)" "merge_prev a bs = (s, bs', h)" "4 \<le> n"
  shows "free_coalesce d u hdr (ptr_of (hdr + 1) bs) (first_addr fs 0) a n =
    Some (s, e - s, e, first_addr fs' 0, g + h)"
proof -
  obtain lo' where sp: "spaced lo u bs" "spaced lo' u fs" using assms(2) by (auto simp: spaced_append)
  have sg: "seg d bs (first_addr fs 0)" "seg d fs 0" using assms(1) by (simp_all add: chain_def seg_append)
  have prev: "coalesce_prev d hdr (ptr_of (hdr + 1) bs) a (x - a) x t w = Some (s, x - s, x, t, w + h)" for x t w
  proof (cases rule: merge_prev_cases [OF sp(1) assms(4)])
    case 1
    show ?thesis
    proof (cases bs rule: rev_cases)
      case (snoc bs0 b)
      obtain c k where b: "b = (c, k)" by (cases b)
      then have "get2byte d (c + 2) = k" using sg(1) snoc by (simp add: seg_last)
      moreover have "ptr_of (hdr + 1) bs = c" "c + k + 3 < a" using snoc b 1 by (simp_all add: ptr_of_def)
      moreover have "s = a" "h = 0" using 1(1) assms(7) by simp_all
      ultimately show ?thesis by (simp add: coalesce_prev_def Let_def)
    qed (use 1 assms(7) in \<open>simp add: coalesce_prev_def\<close>)
  next
    case (2 bs0 c k)
    then have "get2byte d (c + 2) = k" using sg(1) by (simp add: seg_last)
    moreover have "s = c" "h = a - (c + k)" "ptr_of (hdr + 1) bs = c"
      using 2(1,2) assms(7) by (auto simp: ptr_of_def)
    ultimately show ?thesis using 2(3,4,6) assms(3) by (simp add: coalesce_prev_def Let_def)
  qed
  show ?thesis
  proof (cases rule: merge_next_cases [OF sp(2) assms(5)])
    case 1
    then have "\<not> (first_addr fs 0 \<noteq> 0 \<and> a + n + 3 \<ge> first_addr fs 0)"
      by (cases fs) (auto simp: first_addr_def)
    then have "free_coalesce d u hdr (ptr_of (hdr + 1) bs) (first_addr fs 0) a n =
        coalesce_prev d hdr (ptr_of (hdr + 1) bs) a n (a + n) (first_addr fs 0) 0"
      unfolding free_coalesce_def Let_def by (rule if_not_P)
    with 1 prev [of "a + n" "first_addr fs 0" 0] assms(6) show ?thesis by auto
  next
    case (2 b m fs0)
    then have "get2byte d b = first_addr fs0 0" "get2byte d (b + 2) = m" using sg(2) by simp_all
    moreover have "e = b + m" "fs' = fs0" "g = b - (a + n)" using 2(2) assms(6) by auto
    ultimately show ?thesis using 2(1,3-6) prev [of "b + m" "first_addr fs0 0" "b - (a + n)"] assms(8)
      by (simp add: free_coalesce_def Let_def)
  qed
qed

section \<open>Freeing a cell\<close>

text \<open>The bytes that the space operations leave alone: all but part of the header, outside the free space.\<close>

definition leaves_cells :: "mem \<Rightarrow> mem \<Rightarrow> nat \<Rightarrow> nat \<Rightarrow> region list \<Rightarrow> bool" where
  "leaves_cells d d' hdr u rs \<longleftrightarrow>
     (\<forall>i. (i < content_start d hdr \<and> i \<notin> {hdr + 1, hdr + 2, hdr + 5, hdr + 6, hdr + 7}) \<or> u \<le> i
        \<longrightarrow> d' i = d i) \<and>
     (\<forall>r\<in>set rs. \<forall>i. fst r \<le> i \<and> i < fst r + snd r \<longrightarrow> d' i = d i)"

lemma split_at:
  assumes "spaced lo u fl" "\<forall>f\<in>set fl. apart (a, n) f" "0 < n"
  obtains bs fs where "fl = bs @ fs" "\<forall>b\<in>set bs. fst b + snd b \<le> a" "\<forall>f\<in>set fs. a + n \<le> fst f"
proof -
  have "\<exists>bs fs. fl = bs @ fs \<and> (\<forall>b\<in>set bs. fst b + snd b \<le> a) \<and> (\<forall>f\<in>set fs. a + n \<le> fst f)"
    using assms
  proof (induction lo u fl rule: spaced.induct)
    case (2 lo u b m fs)
    show ?case
    proof (cases "b + m \<le> a")
      case True
      from 2 obtain bs fs' where "fs = bs @ fs'" "\<forall>b\<in>set bs. fst b + snd b \<le> a" "\<forall>f\<in>set fs'. a + n \<le> fst f"
        by auto
      with True show ?thesis by (intro exI [of _ "(b, m) # bs"] exI [of _ fs']) auto
    next
      case False
      with 2(3) have "a + n \<le> b" by (auto simp: apart_def)
      moreover have "\<forall>f\<in>set fs. b \<le> fst f" using 2(2) spaced_in [of "b + m + 4" u fs] by fastforce
      ultimately show ?thesis by (intro exI [of _ "[]"] exI [of _ "(b, m) # fs"]) auto
    qed
  qed simp
  with that show ?thesis by blast
qed

lemma get2byte_zero: "get2byte d p = 0 \<longleftrightarrow> d (p + 1) = 0 \<and> d p = 0"
  by (auto simp: get2byte_def unsigned_eq_0_iff)

lemma space_ok_mid:
  "space_ok d hdr u (rs1 @ (a, n) # rs2) fl \<Longrightarrow> (\<forall>r\<in>set (rs1 @ rs2). apart r (a, n)) \<and> apart_list (rs1 @ rs2)"
  using space_okD(6) [of d hdr u "rs1 @ (a, n) # rs2" fl] by (simp add: apart_list_mid)

lemma freeSpace_reduces:
  assumes "space_ok (aData p) (hdrOffset p) (usableSize (pBt p)) (rs1 @ (a, n) # rs2) fl"
  obtains bs fs e fs' g s bs' h where "fl = bs @ fs" "\<forall>b\<in>set bs. fst b + snd b \<le> a"
    "\<forall>f\<in>set fs. a + n \<le> fst f" "merge_next (a + n) fs = (e, fs', g)" "merge_prev a bs = (s, bs', h)"
    "g + h \<le> frag (aData p) (hdrOffset p)"
    "freeSpace p a n = free_write p
       ((aData p)(hdrOffset p + 7 := aData p (hdrOffset p + 7) - word_of_nat (g + h)))
       (ptr_of (hdrOffset p + 1) bs) n s (e - s) e (first_addr fs' 0)"
proof -
  let ?d = "aData p" and ?hdr = "hdrOffset p" and ?u = "usableSize (pBt p)"
  note sp = space_okD [OF assms]
  have a: "content_start ?d ?hdr \<le> a" "a + n \<le> ?u" "4 \<le> n" "\<forall>f\<in>set fl. apart (a, n) f" using sp(7,8) by auto
  obtain bs fs where fl: "fl = bs @ fs" "\<forall>b\<in>set bs. fst b + snd b \<le> a" "\<forall>f\<in>set fs. a + n \<le> fst f"
    using split_at [OF sp(5) a(4)] a(3) by auto
  obtain e fs' g where mn: "merge_next (a + n) fs = (e, fs', g)" by (cases "merge_next (a + n) fs")
  obtain s bs' h where mp: "merge_prev a bs = (s, bs', h)" by (cases "merge_prev a bs")
  note mf = merge_facts [OF sp(5) [unfolded fl(1)] a(3) _ a(2) fl(2,3) mn mp]
  have lo: "content_start ?d ?hdr + 1 \<le> a + 1" using a(1) by simp
  have gs: "\<forall>x\<in>set [(a - h, h), (a + n, g)]. content_start ?d ?hdr \<le> fst x \<and> fst x + snd x \<le> ?u \<and>
      (\<forall>r\<in>set ((rs1 @ (a, n) # rs2) @ fl). apart r x)"
  proof -
    have b1: "content_start ?d ?hdr \<le> a - h" using mf(3,5) [OF lo] by simp
    have b2: "a + n + g \<le> ?u" using mf(2,4) [OF lo] by simp
    have c: "apart r (a + n, g) \<and> apart r (a - h, h)" if "r \<in> set (rs1 @ rs2)" for r
    proof -
      have r: "r \<in> set (rs1 @ (a, n) # rs2)" using that by auto
      then have "4 \<le> snd r" "\<forall>b\<in>set (bs @ fs). apart r b" using sp(7,8) fl(1) by auto
      moreover have "apart r (a, n)" using space_ok_mid [OF assms] that by blast
      ultimately show ?thesis using mf(15) [OF lo, of r] by blast
    qed
    have f: "apart r (a + n, g) \<and> apart r (a - h, h)" if "r \<in> set fl" for r
    proof -
      have "fst r + snd r \<le> a - h \<or> a + n + g \<le> fst r" using that mf(13,14) [OF lo] fl(1) by auto
      then show ?thesis using mf(3) [OF lo] by (auto simp: apart_def)
    qed
    have "apart (a, n) (a + n, g) \<and> apart (a, n) (a - h, h)" using mf(3) [OF lo] by (auto simp: apart_def)
    with b1 b2 c f mf(3) [OF lo] show ?thesis by auto
  qed
  have "apart_list [(a - h, h), (a + n, g)]" using mf(3) [OF lo] by (simp add: apart_def)
  from space_ok_total [OF assms this gs] have fr: "g + h \<le> frag ?d ?hdr" by simp
  have co: "free_coalesce ?d ?u ?hdr (ptr_of (?hdr + 1) bs) (first_addr fs 0) a n =
      Some (s, e - s, e, first_addr fs' 0, g + h)"
    using sp(1,4,5) fl a(3) mn mp by (intro free_coalesce_eq [where lo = "content_start ?d ?hdr + 1"]) auto
  show ?thesis
  proof (cases "fl = []")
    case True
    then have "get2byte ?d (?hdr + 1) = 0" using sp(4) by (simp add: chain_def)
    then have "?d (?hdr + 2) = 0 \<and> ?d (?hdr + 1) = 0" by (simp add: get2byte_zero)
    moreover have "bs = []" "fs = []" using True fl(1) by simp_all
    moreover have "e = a + n" "s = a" "g = 0" "h = 0" "fs' = []"
      using mn mp \<open>bs = []\<close> \<open>fs = []\<close> by (auto simp: merge_next_def merge_prev_def)
    ultimately show ?thesis using that [OF fl mn mp fr] by (simp add: freeSpace_def)
  next
    case False
    have "0 < first_addr fl 0" using False sp(1,5) by (cases fl) auto
    then have nz: "\<not> (?d (?hdr + 2) = 0 \<and> ?d (?hdr + 1) = 0)"
      using sp(4) get2byte_zero [of ?d "?hdr + 1"] by (auto simp: chain_def)
    have "free_search ?d a (?hdr + 1) = Some (ptr_of (?hdr + 1) bs, first_addr fs 0)"
    proof (rule free_search_eq)
      show "chain ?d (?hdr + 1) (bs @ fs)" using sp(4) fl(1) by simp
      show "spaced (?hdr + 1 + 1) ?u (bs @ fs)" using sp(1,5) fl(1) by (auto elim: spaced_mono)
      show "\<forall>b\<in>set bs. fst b < a"
      proof
        fix b assume "b \<in> set bs"
        then show "fst b < a" using spaced_in [OF sp(5), of "fst b" "snd b"] fl(1,2) by fastforce
      qed
      show "\<forall>f\<in>set fs. a \<le> fst f" using fl(3) by fastforce
      show "0 < a" using a(1) sp(1) by simp
    qed
    moreover have "\<not> first_addr fs 0 > ?u - 4"
      using spaced_in [OF sp(5)] fl(1) by (cases fs) fastforce+
    ultimately have "freeSpace p a n = free_write p
       (?d(?hdr + 7 := ?d (?hdr + 7) - word_of_nat (g + h)))
       (ptr_of (?hdr + 1) bs) n s (e - s) e (first_addr fs' 0)"
      using nz co fr by (auto simp: freeSpace_def Let_def frag_def simp del: of_nat_add)
    with that [OF fl mn mp fr] show ?thesis by blast
  qed
qed

text \<open>
  The writes of \<open>free_write\<close> put the merged block in place. \<open>d1\<close> is the page after the count of fragments
  and, with secure delete, the bytes of the block were set.
\<close>

lemma unat_minus_frag:
  "g \<le> unat (x :: u8) \<Longrightarrow> unat (x - word_of_nat g) = unat x - g"
proof -
  assume g: "g \<le> unat x"
  moreover have "unat x < 256" using unsigned_less [of x] by simp
  ultimately have "unat (word_of_nat g :: u8) = g" by (simp add: u8_of_nat)
  with g show ?thesis by (simp add: unat_sub word_le_nat_alt)
qed

lemma content_start_raw:
  assumes "space_ok d hdr u rs fl" "rs \<noteq> []"
  shows "get2byte d (hdr + 5) = content_start d hdr" "content_start d hdr < 65536"
proof -
  obtain r where "r \<in> set rs" using assms(2) by (cases rs) auto
  then have "content_start d hdr < u" using space_okD(8) [OF assms(1)] by fastforce
  then show "content_start d hdr < 65536" using space_okD(3) [OF assms(1)] by simp
  then show "get2byte d (hdr + 5) = content_start d hdr"
    by (auto simp: content_start_def get2byteNotZero_def split: if_splits)
qed

lemma chain_block:
  assumes "chain d (hdr + 1) (bs @ fs)" "spaced (hdr + 9) u (bs @ fs)"
    and bs: "bs' = bs \<or> (\<exists>k. bs = bs' @ [(s, k)])"
    and far: "\<forall>b\<in>set bs'. fst b + snd b + 4 \<le> s" "hdr + 9 \<le> s" "s + 4 \<le> e"
    and fs': "seg d fs' 0" "\<forall>f\<in>set fs'. e \<le> fst f"
    and same: "\<And>i. i = hdr + 1 \<or> i = hdr + 2 \<or> hdr + 9 \<le> i \<Longrightarrow> i \<noteq> ptr_of (hdr + 1) bs \<Longrightarrow>
        i \<noteq> ptr_of (hdr + 1) bs + 1 \<Longrightarrow> \<not> (s \<le> i \<and> i < e) \<Longrightarrow> d' i = d i"
    and vals: "get2byte d' s = first_addr fs' 0" "get2byte d' (s + 2) = e - s"
      "bs' = bs \<Longrightarrow> get2byte d' (ptr_of (hdr + 1) bs) = s"
  shows "chain d' (hdr + 1) (bs' @ (s, e - s) # fs')"
proof -
  have tail: "seg d' ((s, e - s) # fs') 0"
  proof -
    have "seg d' fs' 0 = seg d fs' 0"
    proof (rule seg_frame, rule same)
      fix a n i assume i: "(a, n) \<in> set fs'" "a \<le> i" "i < a + 4"
      then have "e \<le> i" using fs'(2) by fastforce
      moreover have "ptr_of (hdr + 1) bs \<le> s"
      proof (cases "bs = []")
        case False
        show ?thesis
        proof (cases "bs' = bs")
          case True
          then have "fst (last bs) + snd (last bs) + 4 \<le> s" using far(1) False by simp
          with False show ?thesis by (simp add: ptr_of_def)
        qed (use bs in \<open>auto simp: ptr_of_def\<close>)
      qed (use far in simp)
      ultimately show "i = hdr + 1 \<or> i = hdr + 2 \<or> hdr + 9 \<le> i" "i \<noteq> ptr_of (hdr + 1) bs"
        "i \<noteq> ptr_of (hdr + 1) bs + 1" "\<not> (s \<le> i \<and> i < e)" using far by auto
    qed
    with fs'(1) vals show ?thesis by simp
  qed
  have low: "seg d' bs0 c = seg d bs0 c"
    if "\<forall>b\<in>set bs0. hdr + 9 \<le> fst b \<and> 4 \<le> snd b \<and> fst b + snd b \<le> c" "c = ptr_of (hdr + 1) bs" "c \<le> s" for bs0 c
  proof (rule seg_frame, rule same)
    fix a n i assume i: "(a, n) \<in> set bs0" "a \<le> i" "i < a + 4"
    then have "i < c" "hdr + 9 \<le> i" using that(1) by fastforce+
    with that(2,3) show "i = hdr + 1 \<or> i = hdr + 2 \<or> hdr + 9 \<le> i" "i \<noteq> ptr_of (hdr + 1) bs"
      "i \<noteq> ptr_of (hdr + 1) bs + 1" "\<not> (s \<le> i \<and> i < e)" by auto
  qed
  have head: "get2byte d' (hdr + 1) = get2byte d (hdr + 1)" if "hdr + 9 \<le> ptr_of (hdr + 1) bs"
    using that far by (intro get2byte_cong same) auto
  have d: "get2byte d (hdr + 1) = first_addr (bs @ fs) 0" "seg d bs (first_addr fs 0)"
    using assms(1) by (simp_all add: chain_def seg_append)
  have sn: "hdr + 9 \<le> c \<and> (\<forall>b\<in>set bs0. hdr + 9 \<le> fst b \<and> 4 \<le> snd b \<and> fst b + snd b \<le> c) \<and> 4 \<le> k"
    if "bs = bs0 @ [(c, k)]" for bs0 c k
  proof -
    have "spaced (hdr + 9) u bs" using assms(2) by (simp add: spaced_append)
    then have sp: "spaced (hdr + 9) u (bs0 @ [(c, k)])" using that by simp
    from spaced_snoc [OF this] spaced_all [of "hdr + 9" u bs0] show ?thesis by auto
  qed
  show ?thesis
  proof (cases "bs' = bs")
    case True
    show ?thesis
    proof (cases bs rule: rev_cases)
      case Nil
      with True tail vals show ?thesis by (simp add: chain_def)
    next
      case (snoc bs0 b)
      obtain c k where b: "bs = bs0 @ [(c, k)]" using snoc by (cases b) simp
      note n = sn [OF b]
      have q: "ptr_of (hdr + 1) bs = c" using b by (simp add: ptr_of_def)
      have "c + k + 4 \<le> s" using far(1) True b by auto
      then have "get2byte d' (c + 2) = get2byte d (c + 2)" using n q far by (intro get2byte_cong same) auto
      moreover have "seg d' bs0 c = seg d bs0 c"
        using n q \<open>c + k + 4 \<le> s\<close> by (intro low) simp_all
      moreover have "seg d bs0 c" "get2byte d (c + 2) = k" using d(2) unfolding b seg_last by simp_all
      moreover have "get2byte d' c = s" using vals(3) [OF True] q by simp
      ultimately have "seg d' bs s" unfolding b seg_last by simp
      moreover have "get2byte d' (hdr + 1) = first_addr (bs @ (s, e - s) # fs') 0"
        using head n q d(1) b by (simp add: first_addr_append)
      ultimately show ?thesis using True tail by (simp add: chain_def seg_append)
    qed
  next
    case False
    then obtain k where b: "bs = bs' @ [(s, k)]" using bs by auto
    note n = sn [OF b]
    have q: "ptr_of (hdr + 1) bs = s" using b by (simp add: ptr_of_def)
    have "seg d' bs' s = seg d bs' s" using n q by (intro low) simp_all
    moreover have "seg d bs' s" using d(2) unfolding b seg_last by simp
    moreover have "get2byte d' (hdr + 1) = first_addr (bs' @ (s, e - s) # fs') 0"
      using head n q d(1) b by (simp add: first_addr_append)
    ultimately show ?thesis using tail by (simp add: chain_def seg_append)
  qed
qed

lemma freeSpace_ok:
  assumes "space_ok (aData p) (hdrOffset p) (usableSize (pBt p)) (rs1 @ (a, n) # rs2) fl"
  shows "\<exists>d' fl'. freeSpace p a n = (SQLITE_OK, p\<lparr>aData := d', nFree := nFree p + int n\<rparr>) \<and>
    space_ok d' (hdrOffset p) (usableSize (pBt p)) (rs1 @ rs2) fl' \<and>
    content_start (aData p) (hdrOffset p) \<le> content_start d' (hdrOffset p) \<and>
    leaves_cells (aData p) d' (hdrOffset p) (usableSize (pBt p)) (rs1 @ rs2)"
proof -
  define d hdr u brk where "d = aData p" and "hdr = hdrOffset p" and "u = usableSize (pBt p)" and
    "brk = content_start d hdr"
  note defs = d_def hdr_def u_def
  note sp = space_okD [OF assms, folded defs, folded brk_def]
  from freeSpace_reduces [OF assms, folded defs]
  obtain bs fs e fs' g s bs' h where fl: "fl = bs @ fs" "\<forall>b\<in>set bs. fst b + snd b \<le> a"
    "\<forall>f\<in>set fs. a + n \<le> fst f" and mn: "merge_next (a + n) fs = (e, fs', g)"
    and mp: "merge_prev a bs = (s, bs', h)" and fr: "g + h \<le> frag d hdr"
    and free: "freeSpace p a n = free_write p (d(hdr + 7 := d (hdr + 7) - word_of_nat (g + h)))
       (ptr_of (hdr + 1) bs) n s (e - s) e (first_addr fs' 0)" .
  have a: "brk \<le> a" "a + n \<le> u" "4 \<le> n" using sp(8) by auto
  have lo: "brk + 1 \<le> a + 1" using a(1) by simp
  note mf = merge_facts [OF sp(5) [unfolded fl(1)] a(3) lo a(2) fl(2,3) mn mp]
  define d1 where "d1 = (let d0 = d(hdr + 7 := d (hdr + 7) - word_of_nat (g + h))
      in if fastSecure (pBt p) then memset d0 s 0 (e - s) else d0)"
  have s: "brk \<le> s" "hdr + 8 \<le> s" "s + 4 \<le> e" using mf(1,2,5) a sp(1) by simp_all
  have d1: "d1 i = d i" if "i \<noteq> hdr + 7" "\<not> (s \<le> i \<and> i < e)" for i
    using that by (auto simp: d1_def Let_def memset_def)
  have raw: "get2byte d (hdr + 5) = brk"
    using content_start_raw(1) [OF assms] by (simp add: defs brk_def)
  have x: "get2byte (d(hdr + 7 := d (hdr + 7) - word_of_nat (g + h))) (hdr + 5) = brk"
    using raw by (simp add: get2byte_def)
  have frag1: "frag d1 hdr = frag d hdr - (g + h)"
  proof -
    have "d1 (hdr + 7) = d (hdr + 7) - word_of_nat (g + h)"
      using s(2) by (simp add: d1_def Let_def memset_def)
    with fr unat_minus_frag [of "g + h" "d (hdr + 7)"] show ?thesis by (simp add: frag_def)
  qed
  have rs: "apart r (s, e - s)" if "r \<in> set (rs1 @ rs2)" for r
  proof -
    have "r \<in> set (rs1 @ (a, n) # rs2)" using that by auto
    then have "4 \<le> snd r" "\<forall>b\<in>set (bs @ fs). apart r b" using sp(7,8) fl(1) by auto
    moreover have "apart r (a, n)" using space_ok_mid [OF assms] that by blast
    ultimately show ?thesis using mf(15) by blast
  qed
  have rest: "apart_list (rs1 @ rs2)" "\<forall>r\<in>set (rs1 @ rs2). \<forall>f\<in>set (bs' @ fs'). apart r f"
    "\<forall>r\<in>set (rs1 @ rs2). brk \<le> fst r \<and> fst r + snd r \<le> u \<and> 4 \<le> snd r"
    "region_sum (rs1 @ rs2) + (region_sum bs' + (e - s) + region_sum fs') + frag d1 hdr = u - brk"
    using space_ok_mid [OF assms] sp(7,8,9) mf(6,7,8) fl(1) fr frag1 by auto
  have fs'_far: "\<forall>f\<in>set fs'. e + 4 \<le> fst f" using spaced_all [OF mf(11)] by simp
  have seg_fs': "seg d fs' 0"
  proof -
    have "seg d fs 0" using sp(4) fl(1) by (simp add: chain_def seg_append)
    with mn show ?thesis by (auto simp: merge_next_def split: list.splits if_splits)
  qed
  show ?thesis
  proof (cases "s = brk")
    case True
    have bs': "bs' = []" 
    proof (rule ccontr)
      assume "bs' \<noteq> []"
      then obtain b where "b \<in> set bs'" by (cases bs') auto
      then show False using mf(9,10) spaced_in [of "brk + 1" u bs' "fst b" "snd b"] True by fastforce
    qed
    then have bs: "bs = []" "s = a" using mf(12) True by auto
    define d' where "d' = put2byte (put2byte d1 (hdr + 1) (first_addr fs' 0)) (hdr + 5) e"
    have res: "freeSpace p a n = (SQLITE_OK, p\<lparr>aData := d', nFree := nFree p + int n\<rparr>)"
      using free True bs x by (simp add: free_write_def Let_def hdr_def [symmetric] d'_def d1_def)
    have same: "d' i = d i" if "i \<notin> {hdr + 1, hdr + 2, hdr + 5, hdr + 6, hdr + 7}" "\<not> (s \<le> i \<and> i < e)" for i
      using that d1 [of i] by (simp add: d'_def put2byte_def)
    have brk': "content_start d' hdr = e"
      using s mf(4) sp(3) by (simp add: content_start_def d'_def)
    have "frag d' hdr = frag d1 hdr" by (simp add: frag_def d'_def put2byte_def)
    moreover have "chain d' (hdr + 1) fs'"
    proof -
      have "get2byte d' (hdr + 1) = first_addr fs' 0"
        using spaced_all [OF mf(11)] sp(3)
        by (cases fs') (auto simp: d'_def get2byte_put2byte_other)
      moreover have "seg d' fs' 0 = seg d fs' 0"
        using fs'_far s by (intro seg_frame same) fastforce+
      ultimately show ?thesis using seg_fs' by (simp add: chain_def)
    qed
    moreover have "\<forall>r\<in>set (rs1 @ rs2). e \<le> fst r"
      using rs rest(3) True s by (fastforce simp: apart_def)
    ultimately have "space_ok d' hdr u (rs1 @ rs2) fs'"
      using rest bs' s mf(4,11) sp(3,10) brk' frag1 True
      by (auto simp: space_ok_def Let_def elim: spaced_mono)
    moreover have "leaves_cells d d' hdr u (rs1 @ rs2)"
      unfolding leaves_cells_def brk_def [symmetric]
    proof (intro conjI allI ballI impI)
      fix i assume "i < brk \<and> i \<notin> {hdr + 1, hdr + 2, hdr + 5, hdr + 6, hdr + 7} \<or> u \<le> i"
      then show "d' i = d i" using s(1) mf(4) sp(1,2) by (intro same) auto
    next
      fix r i assume "r \<in> set (rs1 @ rs2)" "fst r \<le> i \<and> i < fst r + snd r"
      then show "d' i = d i" using rs rest(3) sp(1) by (intro same) (fastforce simp: apart_def)+
    qed
    ultimately show ?thesis using res brk' s(3) True by (auto simp: defs brk_def)
  next
    case False
    define q where "q = ptr_of (hdr + 1) bs"
    define d' where "d' = put2byte (put2byte (put2byte d1 q s) s (first_addr fs' 0)) (s + 2) (to_u16 (e - s))"
    have sz: "to_u16 (e - s) = e - s" using s mf(4) sp(3) by (simp add: to_u16_id)
    have res: "freeSpace p a n = (SQLITE_OK, p\<lparr>aData := d', nFree := nFree p + int n\<rparr>)"
      using free False s(1) x by (simp add: free_write_def Let_def hdr_def [symmetric] d'_def d1_def q_def)
    have q: "q = hdr + 1 \<or> (\<exists>k. (q, k) \<in> set fl)"
      using fl(1) by (cases "bs = []") (auto simp: q_def ptr_of_def intro: last_in_set exI [of _ "snd (last bs)"])
    have same: "d' i = d i" if "i \<noteq> hdr + 7" "i \<noteq> q" "i \<noteq> q + 1" "\<not> (s \<le> i \<and> i < e)" for i
    proof -
      have "i < s \<or> s + 4 \<le> i" using that(4) s(3) by auto
      with that d1 [of i] show ?thesis by (auto simp: d'_def put2byte_def)
    qed
    have q_far: "q = hdr + 1 \<or> hdr + 9 \<le> q"
      using q spaced_all [OF sp(5)] sp(1) by fastforce
    have "d' (hdr + 7) = d1 (hdr + 7)" using q_far s(2) by (auto simp: d'_def put2byte_def)
    then have frag': "frag d' hdr = frag d1 hdr" by (simp add: frag_def)
    have brk': "content_start d' hdr = brk"
    proof -
      have "get2byte d' (hdr + 5) = get2byte d (hdr + 5)"
        using q_far s(2) by (intro get2byte_cong same) auto
      then show ?thesis by (simp add: brk_def content_start_def get2byteNotZero_def)
    qed
    have "chain d' (hdr + 1) (bs' @ (s, e - s) # fs')"
    proof (rule chain_block)
      show "chain d (hdr + 1) (bs @ fs)" using sp(4) fl(1) by simp
      show "spaced (hdr + 9) u (bs @ fs)" using sp(1,5) fl(1) by (auto elim: spaced_mono)
      show "bs' = bs \<or> (\<exists>k. bs = bs' @ [(s, k)])" using mf(12) by blast
      show "\<forall>b\<in>set bs'. fst b + snd b + 4 \<le> s" by (rule mf(10))
      show "hdr + 9 \<le> s" "s + 4 \<le> e" using False s sp(1) by simp_all
      show "seg d fs' 0" by (rule seg_fs')
      show "\<forall>f\<in>set fs'. e \<le> fst f" using fs'_far by fastforce
      show "d' i = d i" if "i = hdr + 1 \<or> i = hdr + 2 \<or> hdr + 9 \<le> i" "i \<noteq> ptr_of (hdr + 1) bs"
        "i \<noteq> ptr_of (hdr + 1) bs + 1" "\<not> (s \<le> i \<and> i < e)" for i
        using that by (intro same) (auto simp: q_def)
      show "get2byte d' s = first_addr fs' 0"
        using fs'_far spaced_all [OF mf(11)] sp(3)
        by (cases fs') (auto simp: d'_def get2byte_put2byte_other)
      show "get2byte d' (s + 2) = e - s" using sz s mf(4) sp(3) by (simp add: d'_def)
      show "get2byte d' (ptr_of (hdr + 1) bs) = s" if "bs' = bs"
      proof -
        have "q + 1 < s"
        proof (cases "bs = []")
          case True
          then show ?thesis using s(2) by (simp add: q_def)
        next
          case ne: False
          then have "fst (last bs) + snd (last bs) + 4 \<le> s" using mf(10) that by simp
          then show ?thesis using ne by (simp add: q_def ptr_of_def)
        qed
        then have "get2byte d' q = s"
          using mf(4) s(3) sp(3) by (simp add: d'_def get2byte_put2byte_other)
        then show ?thesis by (simp add: q_def)
      qed
    qed
    moreover have "spaced (brk + 1) u (bs' @ (s, e - s) # fs')"
    proof -
      have "spaced (case bs' of [] \<Rightarrow> brk + 1 | _ \<Rightarrow> fst (last bs') + snd (last bs') + 4) u ((s, e - s) # fs')"
        using mf(4,10,11) False s by (cases bs') auto
      then show ?thesis using mf(9) by (simp only: spaced_append simp_thms)
    qed
    moreover have "\<forall>r\<in>set (rs1 @ rs2). \<forall>f\<in>set (bs' @ (s, e - s) # fs'). apart r f"
      using rest(2) rs by auto
    moreover have "region_sum (rs1 @ rs2) + region_sum (bs' @ (s, e - s) # fs') + frag d' hdr = u - brk"
      using rest(4) frag' by simp
    moreover have "frag d' hdr \<le> 60" using frag' frag1 sp(10) by simp
    ultimately have "space_ok d' hdr u (rs1 @ rs2) (bs' @ (s, e - s) # fs')"
      unfolding space_ok_def Let_def brk' using rest(1,3) sp(1,2,3) by blast
    moreover have "leaves_cells d d' hdr u (rs1 @ rs2)"
      unfolding leaves_cells_def brk_def [symmetric]
    proof (intro conjI allI ballI impI)
      fix i assume "i < brk \<and> i \<notin> {hdr + 1, hdr + 2, hdr + 5, hdr + 6, hdr + 7} \<or> u \<le> i"
      then show "d' i = d i"
        using s(1) mf(4) sp(1,2) q spaced_all [OF sp(5)] by (intro same) fastforce+
    next
      fix r i assume r: "r \<in> set (rs1 @ rs2)" "fst r \<le> i \<and> i < fst r + snd r"
      then have rr: "r \<in> set (rs1 @ (a, n) # rs2)" "brk \<le> fst r" "apart r (s, e - s)" using rest(3) rs by auto
      have "i \<noteq> q \<and> i \<noteq> q + 1"
      proof (cases "q = hdr + 1")
        case True
        then show ?thesis using rr(2) r(2) sp(1) by auto
      next
        case False
        then obtain k where k: "(q, k) \<in> set fl" using q by blast
        then have "apart r (q, k)" "4 \<le> k" using rr(1) sp(7) spaced_all [OF sp(5)] by fastforce+
        then show ?thesis using r(2) by (auto simp: apart_def)
      qed
      then show "d' i = d i" using rr(2,3) r(2) sp(1) by (intro same) (auto simp: apart_def)
    qed
    ultimately show ?thesis using res brk' by (auto simp: defs brk_def)
  qed
qed

end
