(* ===== verification/Btree_Alloc.thy ===== *)
theory Btree_Alloc
  imports Btree_Free
begin

text \<open>
  Allocation on a page that is in order, from the list of freeblocks or from the gap: the space given out is
  free before, and the invariant holds with it as a cell.
\<close>

section \<open>The search of the list\<close>

lemma find_slot_cases:
  assumes "seg d fs 0" "spaced lo u fs" "fs \<noteq> []" "4 \<le> n" "n \<le> u"
  shows "find_slot u n hdr d q (first_addr fs 0) = (SQLITE_OK, None, d) \<or>
    (\<exists>bs b m fs'. fs = bs @ (b, m) # fs' \<and> n \<le> m \<and>
       (m < n + 4 \<and> d (hdr + 7) \<le> 57 \<and>
          find_slot u n hdr d q (first_addr fs 0) =
            (let d' = memcpy d (ptr_of q bs) d b 2
             in (SQLITE_OK, Some b, d'(hdr + 7 := d' (hdr + 7) + word_of_nat (m - n)))) \<or>
        n + 4 \<le> m \<and> find_slot u n hdr d q (first_addr fs 0) =
            (SQLITE_OK, Some (b + (m - n)), put2byte d (b + 2) (m - n))))"
  using assms
proof (induction fs arbitrary: q lo)
  case (Cons f fs)
  obtain b m where f: "f = (b, m)" by (cases f)
  with Cons.prems have b: "4 \<le> m" "b + m \<le> u" "get2byte d b = first_addr fs 0" "get2byte d (b + 2) = m"
    "seg d fs 0" "spaced (b + m + 4) u fs" by auto
  consider (beyond) "u - n < b" | (fits) "b \<le> u - n" "n \<le> m" | (small) "b \<le> u - n" "m < n" by linarith
  then show ?case
  proof cases
    case beyond
    with f b show ?thesis by (intro disjI1, subst find_slot.simps) (simp add: Let_def)
  next
    case fits
    have fs: "f # fs = [] @ (b, m) # fs" using f by simp
    show ?thesis
    proof (cases "m < n + 4")
      case True
      then have "m - n < 4" by simp
      then have "find_slot u n hdr d q (first_addr (f # fs) 0) =
          (if d (hdr + 7) > 57 then (SQLITE_OK, None, d)
           else let d' = memcpy d q d b 2 in (SQLITE_OK, Some b, d'(hdr + 7 := d' (hdr + 7) + word_of_nat (m - n))))"
        using f b fits by (subst find_slot.simps) (simp add: Let_def)
      note eq = this
      show ?thesis
      proof (cases "d (hdr + 7) > 57")
        case True
        then show ?thesis unfolding eq by simp
      next
        case False
        then show ?thesis
          unfolding eq if_not_P [OF False]
          using fs \<open>m < n + 4\<close> fits(2)
          by - (rule disjI2, rule exI [of _ "[]"], rule exI [of _ b], rule exI [of _ m], rule exI [of _ fs],
              simp add: not_less Let_def fun_upd_def)
      qed
    next
      case False
      then have "\<not> m - n < 4" "\<not> m - n + b > u - n" using fits b by simp_all
      then have "find_slot u n hdr d q (first_addr (f # fs) 0) =
          (SQLITE_OK, Some (b + (m - n)), put2byte d (b + 2) (m - n))"
        using f b fits by (subst find_slot.simps) (simp add: Let_def)
      with fs False fits(2) show ?thesis
        by - (rule disjI2, rule exI [of _ "[]"], rule exI [of _ b], rule exI [of _ m], rule exI [of _ fs], simp)
    qed
  next
    case small
    show ?thesis
    proof (cases "fs = []")
      case True
      with f b small show ?thesis by (intro disjI1, subst find_slot.simps) (simp add: Let_def)
    next
      case False
      then have "b < first_addr fs 0" using b(6) by (cases fs) auto
      then have eq: "find_slot u n hdr d q (first_addr (f # fs) 0) = find_slot u n hdr d b (first_addr fs 0)"
        using f b small by (subst find_slot.simps) (simp add: Let_def)
      have "ptr_of q (f # bs) = ptr_of b bs" for bs using f by simp
      with Cons.IH [OF b(5,6) False Cons.prems(4,5), of b] show ?thesis
        unfolding eq by (metis append_Cons)
    qed
  qed
qed simp

section \<open>A slot\<close>

text \<open>A whole freeblock is used, what is too much of it becomes fragments.\<close>

lemma chain_unlink:
  assumes "chain d (hdr + 1) (bs @ (b, m) # fs)" "spaced (hdr + 9) u (bs @ (b, m) # fs)"
    and same: "\<And>i. i \<noteq> hdr + 7 \<Longrightarrow> i \<noteq> ptr_of (hdr + 1) bs \<Longrightarrow> i \<noteq> ptr_of (hdr + 1) bs + 1 \<Longrightarrow> d' i = d i"
    and link: "get2byte d' (ptr_of (hdr + 1) bs) = first_addr fs 0"
  shows "chain d' (hdr + 1) (bs @ fs)"
proof -
  note around = spaced_around [OF assms(2)]
  have sp: "spaced (hdr + 9) u bs" and b: "hdr + 9 \<le> b" "4 \<le> m"
    using assms(2) spaced_all [OF assms(2)] by (auto simp: spaced_append)
  have d: "get2byte d (hdr + 1) = first_addr (bs @ (b, m) # fs) 0" "seg d bs b" "seg d fs 0"
    using assms(1) by (simp_all add: chain_def seg_append)
  have q: "ptr_of (hdr + 1) bs + 1 < b"
    using b bspec [OF around(1), of "last bs"] by (cases "bs = []") (simp_all add: ptr_of_def)
  have tail: "seg d' fs 0"
  proof -
    have "seg d' fs 0 = seg d fs 0" using around(2) b q by (intro seg_frame same) fastforce+
    with d(3) show ?thesis by simp
  qed
  show ?thesis
  proof (cases bs rule: rev_cases)
    case Nil
    with tail link show ?thesis by (simp add: chain_def)
  next
    case (snoc bs0 f)
    obtain c k where bs: "bs = bs0 @ [(c, k)]" using snoc by (cases f) simp
    have sp0: "spaced (hdr + 9) u (bs0 @ [(c, k)])" using sp bs by simp
    note c = spaced_snoc [OF sp0] spaced_all [of "hdr + 9" u bs0]
    have q: "ptr_of (hdr + 1) bs = c" using bs by (simp add: ptr_of_def)
    have "get2byte d' (hdr + 1) = get2byte d (hdr + 1)" "get2byte d' (c + 2) = get2byte d (c + 2)"
      using c q by (intro get2byte_cong same; simp)+
    moreover have "seg d' bs0 c = seg d bs0 c"
    proof (rule seg_frame, rule same)
      fix a n i assume "(a, n) \<in> set bs0" "a \<le> i" "i < a + 4"
      then have "i < c" "hdr + 9 \<le> i" using c by fastforce+
      then show "i \<noteq> hdr + 7" "i \<noteq> ptr_of (hdr + 1) bs" "i \<noteq> ptr_of (hdr + 1) bs + 1" using q by auto
    qed
    moreover have "seg d bs0 c" "get2byte d (c + 2) = k" using d(2) unfolding bs seg_last by simp_all
    ultimately have "seg d' bs (first_addr fs 0)" using link q unfolding bs seg_last by simp
    with tail d(1) \<open>get2byte d' (hdr + 1) = _\<close> bs show ?thesis
      by (simp add: chain_def seg_append first_addr_append)
  qed
qed

lemma slot_whole:
  assumes sp: "space_ok d hdr u rs (bs @ (b, m) # fs)" and n: "4 \<le> n" "n \<le> m" "m < n + 4" "d (hdr + 7) \<le> 57"
    and d'_def: "d' = (let d1 = memcpy d (ptr_of (hdr + 1) bs) d b 2
      in d1(hdr + 7 := d1 (hdr + 7) + word_of_nat (m - n)))"
  shows "space_ok d' hdr u ((b, n) # rs) (bs @ fs)" "leaves_cells d d' hdr u rs"
    "content_start d' hdr = content_start d hdr"
proof -
  define brk q where "brk = content_start d hdr" and "q = ptr_of (hdr + 1) bs"
  note s = space_okD [OF sp, folded brk_def]
  note d'_q = d'_def [folded q_def]
  note around = spaced_around [OF s(5)]
  have all: "\<forall>f\<in>set (bs @ (b, m) # fs). brk + 1 \<le> fst f \<and> 4 \<le> snd f \<and> fst f + snd f \<le> u" by (rule spaced_all [OF s(5)])
  then have b: "hdr + 9 \<le> b" "b + m \<le> u" "brk + 1 \<le> b" using s(1) by auto
  have q: "q = hdr + 1 \<or> (\<exists>k. (q, k) \<in> set bs)"
    by (cases "bs = []") (auto simp: q_def ptr_of_def intro: last_in_set exI [of _ "snd (last bs)"])
  have "brk + 1 \<le> q \<and> q + 4 \<le> b" if "(q, k) \<in> set bs" for k
    using bspec [OF all, of "(q, k)"] bspec [OF around(1), of "(q, k)"] that by simp
  with q have q_far: "q = hdr + 1 \<or> brk + 1 \<le> q \<and> q + 4 \<le> b" by blast
  have same: "d' i = d i" if "i \<noteq> hdr + 7" "i \<noteq> q" "i \<noteq> q + 1" for i
    using that by (auto simp: d'_q memcpy_def Let_def)
  show brk': "content_start d' hdr = content_start d hdr"
  proof -
    have "get2byte d' (hdr + 5) = get2byte d (hdr + 5)" using q_far s(1) by (intro get2byte_cong same) auto
    then show ?thesis by (simp add: content_start_def get2byteNotZero_def)
  qed
  have "d' (hdr + 7) = d (hdr + 7) + word_of_nat (m - n)"
    using q_far s(1) by (auto simp: d'_q memcpy_def Let_def)
  moreover have "unat (d (hdr + 7)) \<le> 57" using n(4) by (simp add: word_le_nat_alt)
  moreover have "unat (word_of_nat (m - n) :: u8) = m - n"
    using u8_of_nat [of "m - n"] n(3) by (simp del: of_nat_diff)
  ultimately have fr: "frag d' hdr = frag d hdr + (m - n)" "frag d hdr \<le> 57"
    using n by (simp_all add: frag_def unat_word_ariths)
  show "leaves_cells d d' hdr u rs"
    unfolding leaves_cells_def brk_def [symmetric]
  proof (intro conjI allI ballI impI)
    fix i assume "i < brk \<and> i \<notin> {hdr + 1, hdr + 2, hdr + 5, hdr + 6, hdr + 7} \<or> u \<le> i"
    then show "d' i = d i" using q_far b s(1,2) by (intro same) auto
  next
    fix r i assume r: "r \<in> set rs" "fst r \<le> i \<and> i < fst r + snd r"
    have "i \<noteq> q \<and> i \<noteq> q + 1"
    proof (cases "q = hdr + 1")
      case True
      then show ?thesis using r s(1,8) by auto
    next
      case False
      then obtain k where k: "(q, k) \<in> set bs" using q by blast
      then have "apart r (q, k)" "4 \<le> k" using s(7) r(1) bspec [OF all, of "(q, k)"] by simp_all
      then show ?thesis using r(2) by (auto simp: apart_def)
    qed
    then show "d' i = d i" using r s(1,8) by (intro same) auto
  qed
  show "space_ok d' hdr u ((b, n) # rs) (bs @ fs)"
  proof (rule space_okI)
    show "chain d' (hdr + 1) (bs @ fs)"
    proof (rule chain_unlink [OF s(4)])
      show "spaced (hdr + 9) u (bs @ (b, m) # fs)" using s(1,5) by (auto elim: spaced_mono)
      have "get2byte d' q = get2byte d b"
        using q_far s(1) by (auto simp: get2byte_def d'_q memcpy_def Let_def)
      then show "get2byte d' (ptr_of (hdr + 1) bs) = first_addr fs 0"
        using s(4) by (simp add: q_def chain_def seg_append)
    qed (simp add: same q_def)
    show "spaced (content_start d' hdr + 1) u (bs @ fs)"
      using s(5) spaced_mono [of "b + m + 4" u fs] unfolding spaced_append brk' brk_def [symmetric] by auto
    show "\<forall>r\<in>set ((b, n) # rs). \<forall>f\<in>set (bs @ fs). apart r f"
    proof (intro ballI)
      fix r f assume r: "r \<in> set ((b, n) # rs)" and f: "f \<in> set (bs @ fs)"
      from f have "fst f + snd f + 4 \<le> b \<or> b + m + 4 \<le> fst f" using around by auto
      with r f n s(7) show "apart r f" by (auto simp: apart_def)
    qed
    have "\<forall>r\<in>set rs. apart (b, n) r"
    proof
      fix r assume "r \<in> set rs"
      then have "apart r (b, m)" using s(7) by simp
      then show "apart (b, n) r" using n by (auto simp: apart_def)
    qed
    then show "apart_list ((b, n) # rs)" using s(6) by simp
    show "\<forall>r\<in>set ((b, n) # rs). content_start d' hdr \<le> fst r \<and> fst r + snd r \<le> u \<and> 4 \<le> snd r"
      using s(8) b n unfolding brk' brk_def [symmetric] by auto
    show "region_sum ((b, n) # rs) + region_sum (bs @ fs) + frag d' hdr = u - content_start d' hdr"
      using s(9) n fr unfolding brk' brk_def [symmetric] by simp
  qed (use s(1,2,3) n fr brk' in \<open>simp_all add: brk_def\<close>)
qed

text \<open>The end of a larger freeblock is used.\<close>

lemma slot_part:
  assumes sp: "space_ok d hdr u rs (bs @ (b, m) # fs)" and n: "4 \<le> n" "n + 4 \<le> m"
    and d'_def: "d' = put2byte d (b + 2) (m - n)"
  shows "space_ok d' hdr u ((b + (m - n), n) # rs) (bs @ (b, m - n) # fs)" "leaves_cells d d' hdr u rs"
    "content_start d' hdr = content_start d hdr"
proof -
  define brk where "brk = content_start d hdr"
  note s = space_okD [OF sp, folded brk_def]
  have all: "\<forall>f\<in>set (bs @ (b, m) # fs). brk + 1 \<le> fst f \<and> 4 \<le> snd f \<and> fst f + snd f \<le> u" by (rule spaced_all [OF s(5)])
  then have b: "hdr + 9 \<le> b" "b + m \<le> u" "brk + 1 \<le> b" using s(1) by auto
  have same: "d' i = d i" if "i \<noteq> b + 2" "i \<noteq> b + 3" for i
    using that by (simp add: d'_def put2byte_def numeral_3_eq_3)
  show brk': "content_start d' hdr = content_start d hdr"
    using b by (simp add: content_start_def get2byteNotZero_def get2byte_cong [of d' _ d] same)
  have fr: "frag d' hdr = frag d hdr" using b same [of "hdr + 7"] by (simp add: frag_def)
  show "leaves_cells d d' hdr u rs"
    unfolding leaves_cells_def brk_def [symmetric]
  proof (intro conjI allI ballI impI)
    fix i assume "i < brk \<and> i \<notin> {hdr + 1, hdr + 2, hdr + 5, hdr + 6, hdr + 7} \<or> u \<le> i"
    then show "d' i = d i" using b n by (intro same) auto
  next
    fix r i assume r: "r \<in> set rs" "fst r \<le> i \<and> i < fst r + snd r"
    then have "apart r (b, m)" using s(7) by auto
    then show "d' i = d i" using r(2) n by (intro same) (auto simp: apart_def)
  qed
  have around: "\<forall>f\<in>set bs. fst f + snd f + 4 \<le> b" "\<forall>f\<in>set fs. b + m + 4 \<le> fst f" "spaced (brk + 1) u bs"
    "spaced (case bs of [] \<Rightarrow> brk + 1 | _ \<Rightarrow> fst (last bs) + snd (last bs) + 4) u ((b, m) # fs)"
    using spaced_around [OF s(5)] s(5) unfolding spaced_append by blast+
  show "space_ok d' hdr u ((b + (m - n), n) # rs) (bs @ (b, m - n) # fs)"
  proof (rule space_okI)
    have "seg d' bs b = seg d bs b" "seg d' fs 0 = seg d fs 0"
      using around by (intro seg_frame same; fastforce)+
    moreover have "get2byte d' b = get2byte d b" "get2byte d' (hdr + 1) = get2byte d (hdr + 1)"
      using b by (intro get2byte_cong same; simp)+
    moreover have "get2byte d' (b + 2) = m - n" using b s(3) by (simp add: d'_def)
    ultimately show "chain d' (hdr + 1) (bs @ (b, m - n) # fs)"
      using s(4) by (simp add: chain_def seg_append first_addr_append)
    show "spaced (content_start d' hdr + 1) u (bs @ (b, m - n) # fs)"
      using around(3,4) n spaced_mono [of "b + m + 4" u fs "b + (m - n) + 4"]
      unfolding spaced_append brk' brk_def [symmetric] by auto
    show "\<forall>r\<in>set ((b + (m - n), n) # rs). \<forall>f\<in>set (bs @ (b, m - n) # fs). apart r f"
    proof (intro ballI)
      fix r f assume r: "r \<in> set ((b + (m - n), n) # rs)" and f: "f \<in> set (bs @ (b, m - n) # fs)"
      consider "r = (b + (m - n), n)" "f = (b, m - n)" | "r = (b + (m - n), n)" "f \<in> set bs \<union> set fs"
        | "r \<in> set rs" "f = (b, m - n)" | "r \<in> set rs" "f \<in> set bs \<union> set fs"
        using r f by auto
      then show "apart r f"
      proof cases
        case 2
        then have "fst f + snd f + 4 \<le> b \<or> b + m + 4 \<le> fst f" using around(1,2) by blast
        with 2(1) n show ?thesis by (auto simp: apart_def)
      next
        case 3
        then have "apart r (b, m)" using s(7) by simp
        with 3(2) show ?thesis by (auto simp: apart_def)
      qed (use s(7) in \<open>auto simp: apart_def\<close>)
    qed
    have "\<forall>r\<in>set rs. apart (b + (m - n), n) r"
    proof
      fix r assume "r \<in> set rs"
      then have "apart r (b, m)" using s(7) by simp
      then show "apart (b + (m - n), n) r" using n by (auto simp: apart_def)
    qed
    then show "apart_list ((b + (m - n), n) # rs)" using s(6) by simp
    show "\<forall>r\<in>set ((b + (m - n), n) # rs). content_start d' hdr \<le> fst r \<and> fst r + snd r \<le> u \<and> 4 \<le> snd r"
      using s(8) b n unfolding brk' brk_def [symmetric] by auto
    show "region_sum ((b + (m - n), n) # rs) + region_sum (bs @ (b, m - n) # fs) + frag d' hdr = u - content_start d' hdr"
      using s(9) n fr unfolding brk' brk_def [symmetric] by simp
  qed (use s(1,2,3,10) fr brk' in \<open>simp_all add: brk_def\<close>)
qed

section \<open>The gap\<close>

lemma gap_space:
  assumes sp: "space_ok d hdr u rs fl" and n: "4 \<le> n" "hdr + 8 + n \<le> content_start d hdr"
    and d'_def: "d' = put2byte d (hdr + 5) (content_start d hdr - n)"
  shows "space_ok d' hdr u ((content_start d hdr - n, n) # rs) fl" "leaves_cells d d' hdr u rs"
    "content_start d' hdr = content_start d hdr - n"
proof -
  define brk where "brk = content_start d hdr"
  note s = space_okD [OF sp, folded brk_def]
  have all: "\<forall>f\<in>set fl. brk + 1 \<le> fst f \<and> 4 \<le> snd f \<and> fst f + snd f \<le> u" by (rule spaced_all [OF s(5)])
  have same: "d' i = d i" if "i \<noteq> hdr + 5" "i \<noteq> hdr + 6" for i
    using that by (simp add: d'_def put2byte_def)
  show brk': "content_start d' hdr = content_start d hdr - n"
  proof -
    have "get2byteNotZero d' (hdr + 5) = content_start d hdr - n"
      unfolding d'_def using n s(2,3) by (intro get2byteNotZero_put2byte) (simp_all add: brk_def)
    then show ?thesis by (simp add: content_start_def [of d'])
  qed
  have fr: "frag d' hdr = frag d hdr" by (simp add: frag_def same)
  show "leaves_cells d d' hdr u rs"
    using s(1,2,8) by (auto simp: leaves_cells_def brk_def [symmetric] intro!: same)
  show "space_ok d' hdr u ((content_start d hdr - n, n) # rs) fl"
  proof (rule space_okI)
    have "seg d' fl 0 = seg d fl 0" using all s(1) by (intro seg_frame same) fastforce+
    moreover have "get2byte d' (hdr + 1) = get2byte d (hdr + 1)" by (intro get2byte_cong same) simp_all
    ultimately show "chain d' (hdr + 1) fl" using s(4) by (simp add: chain_def)
    show "spaced (content_start d' hdr + 1) u fl" using s(5) brk' by (auto simp: brk_def elim: spaced_mono)
    show "\<forall>r\<in>set ((content_start d hdr - n, n) # rs). \<forall>f\<in>set fl. apart r f"
      using s(7) all n by (auto simp: apart_def brk_def [symmetric])
    show "apart_list ((content_start d hdr - n, n) # rs)"
      using s(6,8) n by (auto simp: apart_def brk_def [symmetric])
  qed (use s n brk' fr in \<open>auto simp: brk_def\<close>)
qed

end
