(* ===== verification/Btree_List.thy ===== *)
theory Btree_List
  imports Btree_Alloc
begin

text \<open>
  A page as a list of cells: the cell pointers, the regions and the contents they select, the invariant
  of a page, and what a change of its bytes must respect to leave the list as it is.
\<close>

section \<open>The cells of a page\<close>

definition cell_ptr :: "MemPage \<Rightarrow> mem \<Rightarrow> nat \<Rightarrow> nat" where
  "cell_ptr p d i = get2byte d (cellOffset p + 2 * i)"

definition cell_at :: "MemPage \<Rightarrow> mem \<Rightarrow> nat \<Rightarrow> region" where
  "cell_at p d i = (cell_ptr p d i, cellSizeAt p d (cell_ptr p d i))"

definition regions_of :: "MemPage \<Rightarrow> mem \<Rightarrow> region list" where
  "regions_of p d = map (cell_at p d) [0..<nCell p]"

definition bytes_of :: "mem \<Rightarrow> region \<Rightarrow> u8 list" where
  "bytes_of d r = map d [fst r..<fst r + snd r]"

definition contents_of :: "MemPage \<Rightarrow> mem \<Rightarrow> u8 list list" where
  "contents_of p d = map (bytes_of d) (regions_of p d)"

lemma bytes_of_eqI: "snd r = snd s \<Longrightarrow> (\<And>k. k < snd s \<Longrightarrow> d' (fst r + k) = d (fst s + k)) \<Longrightarrow> bytes_of d' r = bytes_of d s"
  by (rule nth_equalityI) (simp_all add: bytes_of_def)

lemma cellSizeAt_len: "page_limits p \<Longrightarrow> cellSizeAt p d pc = cell_len (xCellSize p) p (at_addr d pc)"
  by (simp add: cellSizeAt_def cell_size_len)

lemma cellSizeAt_moved:
  assumes "page_limits p" "\<And>k. k < cellSizeAt p d pc \<Longrightarrow> d' (pc' + k) = d (pc + k)"
  shows "cellSizeAt p d' pc' = cellSizeAt p d pc"
  using cell_len_cong [OF assms(1), of "xCellSize p" "at_addr d pc" "at_addr d' pc'"] assms(2)
  by (simp add: cellSizeAt_len [OF assms(1)])

text \<open>Cells may move: the list is the same when each pointer leads to the same bytes.\<close>

lemma relocated:
  assumes "page_limits p"
    "\<And>i k. i < nCell p \<Longrightarrow> k < snd (cell_at p d i) \<Longrightarrow> d' (cell_ptr p d' i + k) = d (cell_ptr p d i + k)"
  shows "\<And>i. i < nCell p \<Longrightarrow> cell_at p d' i = (cell_ptr p d' i, snd (cell_at p d i))"
    "contents_of p d' = contents_of p d"
proof -
  show at: "cell_at p d' i = (cell_ptr p d' i, snd (cell_at p d i))" if "i < nCell p" for i
    using assms(2) [OF that] cellSizeAt_moved [OF assms(1), of d "cell_ptr p d i" d' "cell_ptr p d' i"]
    by (simp add: cell_at_def)
  have "bytes_of d' (cell_at p d' i) = bytes_of d (cell_at p d i)" if "i < nCell p" for i
    using assms(2) [OF that] at [OF that] by (intro bytes_of_eqI) (simp_all add: cell_at_def)
  then show "contents_of p d' = contents_of p d" by (simp add: contents_of_def regions_of_def)
qed

lemma unmoved:
  assumes "page_limits p" "\<And>i. i < nCell p \<Longrightarrow> cell_ptr p d' i = cell_ptr p d i"
    "\<And>i r. r \<in> set (regions_of p d) \<Longrightarrow> fst r \<le> i \<Longrightarrow> i < fst r + snd r \<Longrightarrow> d' i = d i"
  shows "regions_of p d' = regions_of p d" "contents_of p d' = contents_of p d"
proof -
  have same: "d' (cell_ptr p d' i + k) = d (cell_ptr p d i + k)" if "i < nCell p" "k < snd (cell_at p d i)" for i k
    using assms(2) [OF that(1)] assms(3) [of "cell_at p d i" "cell_ptr p d i + k"] that
    by (simp add: regions_of_def cell_at_def)
  show "contents_of p d' = contents_of p d" using relocated(2) [where d = d and d' = d', OF assms(1)] same by blast
  have "cell_at p d' i = cell_at p d i" if "i < nCell p" for i
  proof -
    have "cell_at p d' i = (cell_ptr p d' i, snd (cell_at p d i))"
      using relocated(1) [where d = d and d' = d', OF assms(1)] same that by blast
    moreover have "(cell_ptr p d i, snd (cell_at p d i)) = cell_at p d i" by (simp add: cell_at_def)
    ultimately show ?thesis using assms(2) [OF that] by simp
  qed
  then show "regions_of p d' = regions_of p d" by (simp add: regions_of_def)
qed

section \<open>The invariant\<close>

text \<open>The first byte after the cell pointers.\<close>

definition gap_start :: "MemPage \<Rightarrow> nat" where
  "gap_start p = cellOffset p + 2 * nCell p"

definition bpage_ok :: "MemPage \<Rightarrow> region list \<Rightarrow> bool" where
  "bpage_ok p fl \<longleftrightarrow>
     (let d = aData p; hdr = hdrOffset p; u = usableSize (pBt p) in
        methods_ok p \<and> hdr \<le> 100 \<and> cellOffset p = hdr + 8 + childPtrSize p \<and>
        get2byte d (hdr + 3) = nCell p \<and>
        space_ok d hdr u (regions_of p d) fl \<and> gap_start p \<le> content_start d hdr \<and>
        nFree p = int (frag d hdr + region_sum fl + (content_start d hdr - gap_start p)) \<and>
        (nCell p = 0 \<longrightarrow> content_start d hdr = u) \<and> apOvfl p = [] \<and> aiOvfl p = [])"

lemma bpage_okD:
  assumes "bpage_ok p fl"
  shows "methods_ok p" "hdrOffset p \<le> 100" "cellOffset p = hdrOffset p + 8 + childPtrSize p"
    "get2byte (aData p) (hdrOffset p + 3) = nCell p"
    "space_ok (aData p) (hdrOffset p) (usableSize (pBt p)) (regions_of p (aData p)) fl"
    "gap_start p \<le> content_start (aData p) (hdrOffset p)"
    "nFree p = int (frag (aData p) (hdrOffset p) + region_sum fl + (content_start (aData p) (hdrOffset p) - gap_start p))"
    "nCell p = 0 \<longrightarrow> content_start (aData p) (hdrOffset p) = usableSize (pBt p)" "apOvfl p = []" "aiOvfl p = []"
    "page_limits p"
  using assms by (simp_all add: bpage_ok_def methods_ok_def Let_def)

text \<open>The free bytes are what the cells and their pointers leave of the page.\<close>

lemma total_regions: "region_sum (regions_of p d) = sum_list (map length (contents_of p d))"
  by (simp add: contents_of_def comp_def bytes_of_def)

lemma sum_contents:
  "(\<Sum>c\<leftarrow>contents_of p d. int (length c) + 2) = int (region_sum (regions_of p d)) + 2 * int (nCell p)"
proof -
  have "(\<Sum>c\<leftarrow>cs. int (length c) + 2) = int (sum_list (map length cs)) + 2 * int (length cs)" for cs :: "u8 list list"
    by (induction cs) simp_all
  moreover have "length (contents_of p d) = nCell p" by (simp add: contents_of_def regions_of_def)
  ultimately show ?thesis by (simp add: total_regions)
qed

lemma page_nFree:
  assumes "bpage_ok p fl"
  shows "nFree p = int (usableSize (pBt p)) - int (cellOffset p) - (\<Sum>c\<leftarrow>contents_of p (aData p). int (length c) + 2)"
proof -
  note ok = bpage_okD [OF assms]
  note s = space_okD [OF ok(5)]
  show ?thesis unfolding sum_contents using ok(6,7) s(2,9) by (simp add: gap_start_def)
qed

text \<open>What the space operations leave alone is enough for the pointers, the cells and the count.\<close>

lemma leaves_cells_page:
  assumes "page_limits p" "cellOffset p = hdr + 8 + childPtrSize p" "gap_start p \<le> content_start d hdr"
    "leaves_cells d d' hdr u (regions_of p d)"
  shows "regions_of p d' = regions_of p d" "contents_of p d' = contents_of p d"
    "get2byte d' (hdr + 3) = get2byte d (hdr + 3)"
proof -
  have low: "d' i = d i" if "i < content_start d hdr" "i \<notin> {hdr + 1, hdr + 2, hdr + 5, hdr + 6, hdr + 7}" for i
    using assms(4) that by (auto simp: leaves_cells_def)
  have ptr: "cell_ptr p d' i = cell_ptr p d i" if "i < nCell p" for i
    unfolding cell_ptr_def using that assms(2,3) by (intro get2byte_cong low) (auto simp: gap_start_def)
  show "regions_of p d' = regions_of p d" "contents_of p d' = contents_of p d"
    by (rule unmoved [OF assms(1) ptr]; use assms(4) in \<open>auto simp: leaves_cells_def\<close>)+
  show "get2byte d' (hdr + 3) = get2byte d (hdr + 3)"
    using assms(2,3) by (intro get2byte_cong low) (auto simp: gap_start_def)
qed

end
