(* ===== verification/Btree_Defrag.thy ===== *)
theory Btree_Defrag
  imports Btree_List
begin

text \<open>
  Defragmentation of a page that is in order, in its general form and in the fast one for one or two
  freeblocks: afterwards there is no freeblock, and the list of cells is the same.
\<close>

section \<open>The end of the routine\<close>

lemma in_range_map: "(\<forall>r\<in>set (map f [0..<n]). P r) \<longleftrightarrow> (\<forall>i<n. P (f i))"
  by auto

text \<open>
  \<open>d\<close> is the page with the cells in their new places, all of them from \<open>c\<close> on, and \<open>old\<close> the page
  before.
\<close>

lemma defragment_out_ok:
  assumes pg: "bpage_ok p fl" and u: "u = usableSize (pBt p)" and hdr: "hdr = hdrOffset p"
    and places: "apart_list (regions_of p d)"
      "\<forall>r\<in>set (regions_of p d). c \<le> fst r \<and> fst r + snd r \<le> u \<and> 4 \<le> snd r"
    and sum: "region_sum (regions_of p d) + frag d hdr = u - c" "frag d hdr \<le> 60"
      "region_sum (regions_of p d) = region_sum (regions_of p (aData p))"
    and c: "gap_start p \<le> c" "c \<le> u" and nc: "get2byte d (hdr + 3) = nCell p"
  shows "\<exists>d'. defragment_out p d c = (SQLITE_OK, p\<lparr>aData := d'\<rparr>) \<and>
    space_ok d' hdr u (regions_of p d') [] \<and> contents_of p d' = contents_of p d \<and>
    content_start d' hdr = c \<and> frag d' hdr = frag d hdr \<and> get2byte d' (hdr + 3) = nCell p \<and>
    (\<forall>i. i < hdr \<or> i = hdr \<or> u \<le> i \<longrightarrow> d' i = d i)"
proof -
  note ok = bpage_okD [OF pg, folded u hdr]
  note s = space_okD [OF ok(5)]
  define first where "first = cellOffset p + 2 * nCell p"
  have first: "first = gap_start p" "hdr + 8 \<le> first" using ok(3) by (simp_all add: first_def gap_start_def)
  define d' where "d' = memset ((put2byte d (hdr + 5) c)(hdr + 1 := 0, hdr + 2 := 0)) first 0 (c - first)"
  have free: "int (frag d hdr) + int c - int first = nFree p"
    using sum(1,3) s(2,9) c first(1) ok(6,7) by simp
  have res: "defragment_out p d c = (SQLITE_OK, p\<lparr>aData := d'\<rparr>)"
    using free c first by (simp add: defragment_out_def Let_def d'_def frag_def first_def hdr)
  have same: "d' i = d i" if "i \<notin> {hdr + 1, hdr + 2, hdr + 5, hdr + 6}" "i < first \<or> c \<le> i" for i
    using that c first by (auto simp: d'_def memset_def put2byte_def)
  have ptr: "cell_ptr p d' i = cell_ptr p d i" if "i < nCell p" for i
    unfolding cell_ptr_def using that ok(3) by (intro get2byte_cong same) (auto simp: first_def)
  have un: "regions_of p d' = regions_of p d" "contents_of p d' = contents_of p d"
    by (rule unmoved [OF ok(11) ptr]; use places(2) first c in \<open>force intro!: same\<close>)+
  have c0: "content_start d' hdr = c"
  proof -
    have "get2byte d' (hdr + 5) = get2byte (put2byte d (hdr + 5) c) (hdr + 5)"
      using first by (intro get2byte_cong) (auto simp: d'_def memset_def)
    then have "get2byteNotZero d' (hdr + 5) = get2byteNotZero (put2byte d (hdr + 5) c) (hdr + 5)"
      by (simp add: get2byteNotZero_def)
    also have "\<dots> = c" using c first s(3) by (intro get2byteNotZero_put2byte) simp_all
    finally show ?thesis by (simp add: content_start_def)
  qed
  have fr: "frag d' hdr = frag d hdr" using first by (simp add: frag_def same)
  have "d' (hdr + 1) = 0" "d' (hdr + 2) = 0" using first by (auto simp: d'_def memset_def)
  then have "chain d' (hdr + 1) []" by (simp add: chain_def get2byte_def)
  then have "space_ok d' hdr u (regions_of p d') []"
    using places sum(1,2) c c0 fr un(1) first s(3) by (intro space_okI) auto
  moreover have "get2byte d' (hdr + 3) = nCell p"
    using nc first by (subst get2byte_cong [of d' "hdr + 3" d]) (auto intro!: same)
  moreover have "\<forall>i. i < hdr \<or> i = hdr \<or> u \<le> i \<longrightarrow> d' i = d i" using first c by (auto intro!: same)
  ultimately show ?thesis using res un(2) c0 fr by blast
qed

section \<open>The general case\<close>

text \<open>
  The loop copies the cells \<open>i\<close> to \<open>i + n - 1\<close>, which lie at \<open>pc j\<close> with the sizes \<open>sz j\<close>, downwards from \<open>cbrk\<close>:
  cell \<open>j\<close> goes to \<open>cbrk\<close> less the sizes of the cells from \<open>i\<close> to \<open>j\<close>.
\<close>

definition sizes :: "(nat \<Rightarrow> nat) \<Rightarrow> nat \<Rightarrow> nat \<Rightarrow> nat" where
  "sizes sz i k = sum_list (map sz [i..<k])"

lemma sizes_simps [simp]: "sizes sz i i = 0"
  by (simp add: sizes_def)

lemma sizes_first: "i < k \<Longrightarrow> sizes sz i k = sz i + sizes sz (Suc i) k"
  by (simp add: sizes_def upt_conv_Cons)

lemma sizes_last: "i \<le> k \<Longrightarrow> sizes sz i (Suc k) = sizes sz i k + sz k"
  by (simp add: sizes_def)

lemma sizes_mono: "i \<le> k \<Longrightarrow> k \<le> m \<Longrightarrow> sizes sz i k \<le> sizes sz i m"
  by (induction m) (auto simp: sizes_last le_Suc_eq)

lemma pack_cells_ok:
  assumes "\<And>j. i \<le> j \<Longrightarrow> j < i + n \<Longrightarrow> cell_ptr p d j = pc j \<and> cellSizeAt p src (pc j) = sz j \<and> 4 \<le> sz j \<and>
        pc j + sz j \<le> usableSize (pBt p)"
    "start + sizes sz i (i + n) \<le> cbrk" "cellOffset p + 2 * (i + n) + sizes sz i (i + n) \<le> cbrk" "cbrk \<le> 65536"
  shows "\<exists>d'. pack_cells n i p src start d cbrk = (SQLITE_OK, d', cbrk - sizes sz i (i + n)) \<and>
    (\<forall>j. i \<le> j \<and> j < i + n \<longrightarrow> cell_ptr p d' j = cbrk - sizes sz i (Suc j) \<and>
       (\<forall>k < sz j. d' (cbrk - sizes sz i (Suc j) + k) = src (pc j + k))) \<and>
    (\<forall>x. (x < cellOffset p + 2 * i \<or> cellOffset p + 2 * (i + n) \<le> x) \<and>
       (x < cbrk - sizes sz i (i + n) \<or> cbrk \<le> x) \<longrightarrow> d' x = d x)"
  using assms
proof (induction n arbitrary: i d cbrk)
  case 0
  then show ?case by auto
next
  case (Suc n)
  let ?c = "cbrk - sz i"
  have S: "sizes sz i (i + Suc n) = sz i + sizes sz (Suc i) (Suc i + n)" by (simp add: sizes_first)
  have i: "cell_ptr p d i = pc i" "cellSizeAt p src (pc i) = sz i" "4 \<le> sz i" "pc i + sz i \<le> usableSize (pBt p)"
    using Suc.prems(1) [of i] by simp_all
  define d1 where "d1 = memcpy (put2byte d (cellOffset p + i * 2) ?c) ?c src (pc i) (sz i)"
  have c: "sz i \<le> cbrk" "?c < 65536" "cellOffset p + 2 * (i + Suc n) \<le> ?c" using Suc.prems(3,4) S i(3) by simp_all
  have "\<not> pc i > usableSize (pBt p) - 4" "\<not> (cbrk < start + sz i \<or> pc i + sz i > usableSize (pBt p))"
    using i(3,4) Suc.prems(2) S by simp_all
  then have step: "pack_cells (Suc n) i p src start d cbrk = pack_cells n (Suc i) p src start d1 ?c"
    using i(1,2) by (simp add: Let_def d1_def cell_ptr_def mult.commute)
  have d1: "d1 x = d x" if "x \<noteq> cellOffset p + 2 * i" "x \<noteq> cellOffset p + 2 * i + 1" "x < ?c \<or> cbrk \<le> x" for x
    using that c(1) by (auto simp: d1_def memcpy_def put2byte_def mult.commute)
  have "cell_ptr p d1 j = cell_ptr p d j" if "Suc i \<le> j" "j < Suc i + n" for j
    unfolding cell_ptr_def using that c(3) by (intro get2byte_cong d1) auto
  then have "\<exists>d'. pack_cells n (Suc i) p src start d1 ?c = (SQLITE_OK, d', ?c - sizes sz (Suc i) (Suc i + n)) \<and>
    (\<forall>j. Suc i \<le> j \<and> j < Suc i + n \<longrightarrow> cell_ptr p d' j = ?c - sizes sz (Suc i) (Suc j) \<and>
       (\<forall>k < sz j. d' (?c - sizes sz (Suc i) (Suc j) + k) = src (pc j + k))) \<and>
    (\<forall>x. (x < cellOffset p + 2 * Suc i \<or> cellOffset p + 2 * (Suc i + n) \<le> x) \<and>
       (x < ?c - sizes sz (Suc i) (Suc i + n) \<or> ?c \<le> x) \<longrightarrow> d' x = d1 x)"
    using Suc.prems S c by (intro Suc.IH) auto
  then obtain d' where d': "pack_cells n (Suc i) p src start d1 ?c = (SQLITE_OK, d', ?c - sizes sz (Suc i) (Suc i + n))"
    "\<And>j. Suc i \<le> j \<Longrightarrow> j < Suc i + n \<Longrightarrow> cell_ptr p d' j = ?c - sizes sz (Suc i) (Suc j) \<and>
       (\<forall>k < sz j. d' (?c - sizes sz (Suc i) (Suc j) + k) = src (pc j + k))"
    "\<And>x. x < cellOffset p + 2 * Suc i \<or> cellOffset p + 2 * (Suc i + n) \<le> x \<Longrightarrow>
       x < ?c - sizes sz (Suc i) (Suc i + n) \<or> ?c \<le> x \<Longrightarrow> d' x = d1 x" by blast
  have at_i: "cell_ptr p d' i = ?c \<and> (\<forall>k < sz i. d' (?c + k) = src (pc i + k))"
  proof -
    have lo: "cellOffset p + 2 * i + 1 < ?c - sizes sz (Suc i) (Suc i + n)" using Suc.prems(3) S by simp
    have "cell_ptr p d' i = cell_ptr p d1 i"
      unfolding cell_ptr_def using lo by (intro get2byte_cong d'(3)) auto
    also have "\<dots> = cell_ptr p (put2byte d (cellOffset p + i * 2) ?c) i"
      unfolding cell_ptr_def d1_def using c(3) by (intro get2byte_cong memcpy_other) auto
    also have "\<dots> = ?c" using c(2) by (simp add: cell_ptr_def mult.commute)
    finally have "cell_ptr p d' i = ?c" .
    moreover have "d' (?c + k) = src (pc i + k)" if "k < sz i" for k
    proof -
      have "d' (?c + k) = d1 (?c + k)" using c(3) by (intro d'(3)) auto
      then show ?thesis using that by (simp add: d1_def memcpy_def)
    qed
    ultimately show ?thesis by blast
  qed
  have j: "cell_ptr p d' j = cbrk - sizes sz i (Suc j) \<and>
       (\<forall>k < sz j. d' (cbrk - sizes sz i (Suc j) + k) = src (pc j + k))" if "i \<le> j" "j < i + Suc n" for j
  proof (cases "j = i")
    case True
    then show ?thesis using at_i by (simp add: sizes_last)
  next
    case False
    then have "sizes sz i (Suc j) = sz i + sizes sz (Suc i) (Suc j)" using that by (simp add: sizes_first)
    then show ?thesis using d'(2) [of j] False that by simp
  qed
  have x: "d' x = d x" if "x < cellOffset p + 2 * i \<or> cellOffset p + 2 * (i + Suc n) \<le> x"
    "x < cbrk - sizes sz i (i + Suc n) \<or> cbrk \<le> x" for x
  proof -
    have "d' x = d1 x" using that S c(1) by (intro d'(3)) auto
    also have "\<dots> = d x" using that S by (intro d1) auto
    finally show ?thesis .
  qed
  show ?case unfolding step using d'(1) j x S by (intro exI [of _ d']) auto
qed

text \<open>What a successful defragmentation leaves, with \<open>f\<close> bytes of fragments.\<close>

definition defragmented :: "MemPage \<Rightarrow> mem \<Rightarrow> nat \<Rightarrow> bool" where
  "defragmented p d' f \<longleftrightarrow>
     (let hdr = hdrOffset p; u = usableSize (pBt p) in
        space_ok d' hdr u (regions_of p d') [] \<and> contents_of p d' = contents_of p (aData p) \<and> frag d' hdr = f \<and>
        int (content_start d' hdr) + int f = int (gap_start p) + nFree p \<and>
        get2byte d' (hdr + 3) = nCell p \<and> (\<forall>i. i < hdr \<or> i = hdr \<or> u \<le> i \<longrightarrow> d' i = aData p i))"

lemma raw_content_start: "get2byte d (hdr + 5) \<le> content_start d hdr"
  by (simp add: content_start_def get2byteNotZero_def)

lemma sizes_total: "sizes (\<lambda>j. snd (cell_at p d j)) 0 (nCell p) = region_sum (regions_of p d)"
  by (simp add: sizes_def regions_of_def comp_def)

lemma defragment_slow_ok:
  assumes pg: "bpage_ok p fl"
  shows "\<exists>d'. defragment_slow p = (SQLITE_OK, p\<lparr>aData := d'\<rparr>) \<and> defragmented p d' 0"
proof -
  define d u hdr where "d = aData p" and "u = usableSize (pBt p)" and "hdr = hdrOffset p"
  note ok = bpage_okD [OF pg, folded d_def u_def hdr_def]
  note s = space_okD [OF ok(5)]
  define src where "src = memcpy (tempSpace (pBt p)) 0 d 0 u"
  define pc sz where "pc = cell_ptr p d" and "sz = (\<lambda>j. snd (cell_at p d j))"
  have cell: "content_start d hdr \<le> pc j \<and> pc j + sz j \<le> u \<and> 4 \<le> sz j" if "j < nCell p" for j
    using s(8) that by (auto simp: regions_of_def cell_at_def pc_def sz_def)
  have src: "src k = d k" if "k < u" for k using that by (simp add: src_def memcpy_def)
  have size: "cellSizeAt p src (pc j) = sz j" if "j < nCell p" for j
  proof -
    have "cellSizeAt p src (pc j) = cellSizeAt p d (pc j)"
      using cell [OF that] by (intro cellSizeAt_moved [OF ok(11)] src) (simp add: sz_def cell_at_def pc_def)
    then show ?thesis by (simp add: sz_def cell_at_def pc_def)
  qed
  define S where "S = sizes sz 0 (nCell p)"
  have S: "S = region_sum (regions_of p d)" by (simp add: S_def sz_def sizes_total)
  have room: "content_start d hdr + S \<le> u" using s(2,9) S by simp
  obtain d1 where d1: "pack_cells (nCell p) 0 p src (get2byte d (hdr + 5)) d u = (SQLITE_OK, d1, u - S)"
    "\<And>j. j < nCell p \<Longrightarrow> cell_ptr p d1 j = u - sizes sz 0 (Suc j) \<and>
       (\<forall>k < sz j. d1 (u - sizes sz 0 (Suc j) + k) = src (pc j + k))"
    "\<And>x. x < cellOffset p \<or> cellOffset p + 2 * nCell p \<le> x \<Longrightarrow> x < u - S \<or> u \<le> x \<Longrightarrow> d1 x = d x"
  proof -
    have "\<exists>d1. pack_cells (nCell p) 0 p src (get2byte d (hdr + 5)) d u = (SQLITE_OK, d1, u - sizes sz 0 (0 + nCell p)) \<and>
      (\<forall>j. 0 \<le> j \<and> j < 0 + nCell p \<longrightarrow> cell_ptr p d1 j = u - sizes sz 0 (Suc j) \<and>
         (\<forall>k < sz j. d1 (u - sizes sz 0 (Suc j) + k) = src (pc j + k))) \<and>
      (\<forall>x. (x < cellOffset p + 2 * 0 \<or> cellOffset p + 2 * (0 + nCell p) \<le> x) \<and>
         (x < u - sizes sz 0 (0 + nCell p) \<or> u \<le> x) \<longrightarrow> d1 x = d x)"
      using cell size room s(3) ok(6) raw_content_start [of d hdr]
      by (intro pack_cells_ok) (auto simp: pc_def u_def gap_start_def S_def)
    with that show ?thesis by (auto simp: S_def)
  qed
  define d2 where "d2 = d1(hdr + 7 := 0)"
  have first: "gap_start p \<le> u - S" "hdr + 8 \<le> cellOffset p" using ok(3,6) room by simp_all
  have S_le: "sizes sz 0 (Suc j) \<le> S" if "j < nCell p" for j
    unfolding S_def using that by (intro sizes_mono) auto
  have ptr: "cell_ptr p d2 j = u - sizes sz 0 (Suc j)" if "j < nCell p" for j
  proof -
    have "cell_ptr p d2 j = cell_ptr p d1 j"
      unfolding cell_ptr_def d2_def using first(2) by (intro get2byte_upd_other) auto
    with d1(2) [OF that] show ?thesis by simp
  qed
  have moved: "d2 (cell_ptr p d2 j + k) = d (cell_ptr p d j + k)" if "j < nCell p" "k < snd (cell_at p d j)" for j k
  proof -
    have "k < sz j" using that by (simp add: sz_def)
    then have "d1 (u - sizes sz 0 (Suc j) + k) = d (pc j + k)"
      using d1(2) [OF that(1)] cell [OF that(1)] src [of "pc j + k"] by simp
    moreover have "hdr + 7 < u - sizes sz 0 (Suc j) + k"
      using S_le [OF that(1)] first by (simp add: gap_start_def)
    ultimately show ?thesis unfolding ptr [OF that(1)] by (simp add: d2_def pc_def)
  qed
  have at: "cell_at p d2 j = (u - sizes sz 0 (Suc j), sz j)" if "j < nCell p" for j
  proof -
    have "cell_at p d2 j = (cell_ptr p d2 j, snd (cell_at p d j))"
      using relocated(1) [where d = d and d' = d2, OF ok(11)] moved that by blast
    then show ?thesis by (simp add: ptr [OF that] sz_def)
  qed
  then have regs: "regions_of p d2 = map (\<lambda>j. (u - sizes sz 0 (Suc j), sz j)) [0..<nCell p]"
    by (simp add: regions_of_def)
  have same: "contents_of p d2 = contents_of p d"
    using relocated(2) [where d = d and d' = d2, OF ok(11)] moved by blast
  have sum: "region_sum (regions_of p d2) = S" by (simp add: regs comp_def S_def sizes_def)
  have low: "d2 i = d i" if "i < cellOffset p" "i \<noteq> hdr + 7" for i
    using that first d1(3) [of i] by (simp add: d2_def gap_start_def)
  have nc: "get2byte d2 (hdr + 3) = nCell p"
    using ok(4) first(2) by (subst get2byte_cong [of d2 "hdr + 3" d]) (auto intro!: low)
  have "apart_list (regions_of p d2)"
    unfolding regs sorted_wrt_iff_nth_less
  proof (intro allI impI)
    fix i j assume ij: "i < j" "j < length (map (\<lambda>j. (u - sizes sz 0 (Suc j), sz j)) [0..<nCell p])"
    then have j: "j < nCell p" by simp
    have "sizes sz 0 (Suc i) \<le> sizes sz 0 j" using ij(1) by (intro sizes_mono) simp_all
    moreover have "sizes sz 0 (Suc j) = sizes sz 0 j + sz j" by (simp add: sizes_last)
    ultimately have "u - sizes sz 0 (Suc j) + sz j \<le> u - sizes sz 0 (Suc i)"
      using S_le [OF j] room by simp
    then show "apart (map (\<lambda>j. (u - sizes sz 0 (Suc j), sz j)) [0..<nCell p] ! i)
        (map (\<lambda>j. (u - sizes sz 0 (Suc j), sz j)) [0..<nCell p] ! j)"
      using ij j by (simp add: apart_def)
  qed
  moreover have "\<forall>r\<in>set (regions_of p d2). u - S \<le> fst r \<and> fst r + snd r \<le> u \<and> 4 \<le> snd r"
    unfolding regs in_range_map
  proof (intro allI impI)
    fix j assume j: "j < nCell p"
    have "sizes sz 0 (Suc j) = sizes sz 0 j + sz j" by (simp add: sizes_last)
    then show "u - S \<le> fst (u - sizes sz 0 (Suc j), sz j) \<and>
        fst (u - sizes sz 0 (Suc j), sz j) + snd (u - sizes sz 0 (Suc j), sz j) \<le> u \<and> 4 \<le> snd (u - sizes sz 0 (Suc j), sz j)"
      using S_le [OF j] cell [OF j] room by simp
  qed
  moreover have fr: "frag d2 hdr = 0" by (simp add: frag_def d2_def)
  ultimately have "\<exists>d'. defragment_out p d2 (u - S) = (SQLITE_OK, p\<lparr>aData := d'\<rparr>) \<and>
    space_ok d' hdr u (regions_of p d') [] \<and> contents_of p d' = contents_of p d2 \<and>
    content_start d' hdr = u - S \<and> frag d' hdr = frag d2 hdr \<and> get2byte d' (hdr + 3) = nCell p \<and>
    (\<forall>i. i < hdr \<or> i = hdr \<or> u \<le> i \<longrightarrow> d' i = d2 i)"
    using sum S first nc room by (intro defragment_out_ok [OF pg u_def hdr_def]) (simp_all add: d_def)
  then obtain d' where d': "defragment_out p d2 (u - S) = (SQLITE_OK, p\<lparr>aData := d'\<rparr>)"
    "space_ok d' hdr u (regions_of p d') []" "contents_of p d' = contents_of p d2"
    "content_start d' hdr = u - S" "frag d' hdr = frag d2 hdr" "get2byte d' (hdr + 3) = nCell p"
    "\<forall>i. i < hdr \<or> i = hdr \<or> u \<le> i \<longrightarrow> d' i = d2 i" by blast
  have "defragment_slow p = (SQLITE_OK, p\<lparr>aData := d'\<rparr>)"
    using d1(1) d'(1) by (simp add: defragment_slow_def Let_def src_def d_def u_def hdr_def d2_def)
  moreover have "d2 i = d i" if "i < hdr \<or> i = hdr \<or> u \<le> i" for i
  proof (cases "u \<le> i")
    case True
    then have "cellOffset p + 2 * nCell p \<le> i" "i \<noteq> hdr + 7" using first by (simp_all add: gap_start_def)
    with True d1(3) [of i] show ?thesis by (simp add: d2_def)
  next
    case False
    then show ?thesis using that first by (intro low) auto
  qed
  moreover have "int (u - S) = int (gap_start p) + nFree p"
    using ok(6,7) s(2,9) S by simp
  ultimately show ?thesis
    using d' fr same by (intro exI [of _ d']) (auto simp: defragmented_def Let_def d_def u_def hdr_def)
qed

section \<open>One or two freeblocks\<close>

lemma shift_pointers_ok:
  assumes "\<And>j. i \<le> j \<Longrightarrow> j < i + n \<Longrightarrow> cell_ptr p d j = pc j \<and>
      (if pc j < x then pc j + sz else if pc j < y then pc j + sz2 else pc j) < 65536"
  shows "(\<forall>j. i \<le> j \<and> j < i + n \<longrightarrow>
       cell_ptr p (shift_pointers n (cellOffset p + 2 * i) x sz y sz2 d) j =
         (if pc j < x then pc j + sz else if pc j < y then pc j + sz2 else pc j)) \<and>
    (\<forall>a. a < cellOffset p + 2 * i \<or> cellOffset p + 2 * (i + n) \<le> a \<longrightarrow>
       shift_pointers n (cellOffset p + 2 * i) x sz y sz2 d a = d a)"
  using assms
proof (induction n arbitrary: i d)
  case 0
  then show ?case by simp
next
  case (Suc n)
  let ?a = "cellOffset p + 2 * i"
  define v where "v = (if pc i < x then pc i + sz else if pc i < y then pc i + sz2 else pc i)"
  define d1 where "d1 = (if pc i < x then put2byte d ?a (pc i + sz)
       else if pc i < y then put2byte d ?a (pc i + sz2) else d)"
  define d' where "d' = shift_pointers n (cellOffset p + 2 * Suc i) x sz y sz2 d1"
  have i: "cell_ptr p d i = pc i" "v < 65536" using Suc.prems [of i] by (simp_all add: v_def)
  have step: "shift_pointers (Suc n) ?a x sz y sz2 d = d'"
    using i(1) by (simp add: d'_def d1_def cell_ptr_def Let_def)
  have other: "d1 b = d b" if "b < ?a \<or> ?a + 1 < b" for b
    using that by (auto simp: d1_def put2byte_def)
  have ptr: "cell_ptr p d1 i = v" using i by (simp add: cell_ptr_def d1_def v_def split: if_splits)
  have "cell_ptr p d1 j = pc j \<and>
      (if pc j < x then pc j + sz else if pc j < y then pc j + sz2 else pc j) < 65536" if "Suc i \<le> j" "j < Suc i + n" for j
  proof -
    have "cell_ptr p d1 j = cell_ptr p d j"
      unfolding cell_ptr_def using that by (intro get2byte_cong other) auto
    then show ?thesis using Suc.prems [of j] that by simp
  qed
  from Suc.IH [of "Suc i" d1, OF this, folded d'_def]
  have IH: "\<And>j. Suc i \<le> j \<Longrightarrow> j < Suc i + n \<Longrightarrow>
       cell_ptr p d' j = (if pc j < x then pc j + sz else if pc j < y then pc j + sz2 else pc j)"
    "\<And>a. a < cellOffset p + 2 * Suc i \<or> cellOffset p + 2 * (Suc i + n) \<le> a \<Longrightarrow> d' a = d1 a"
    by blast+
  have "cell_ptr p d' i = v"
  proof -
    have "cell_ptr p d' i = cell_ptr p d1 i" unfolding cell_ptr_def by (intro get2byte_cong IH(2)) auto
    with ptr show ?thesis by simp
  qed
  then have "cell_ptr p d' j = (if pc j < x then pc j + sz else if pc j < y then pc j + sz2 else pc j)"
    if "i \<le> j" "j < i + Suc n" for j
    using IH(1) [of j] that by (cases "j = i") (auto simp: v_def)
  moreover have "d' a = d a" if "a < ?a \<or> cellOffset p + 2 * (i + Suc n) \<le> a" for a
  proof -
    have "d' a = d1 a" using that by (intro IH(2)) auto
    also have "\<dots> = d a" using that by (intro other) auto
    finally show ?thesis .
  qed
  ultimately show ?case unfolding step by blast
qed

text \<open>
  The blocks \<open>(x, s1)\<close> and \<open>(y, s2)\<close> are closed: what lies before \<open>x\<close> moves up by both sizes, what lies
  between them by the second. With a single freeblock, \<open>y\<close> is its end and \<open>s2\<close> is zero.
\<close>

definition new_place :: "nat \<Rightarrow> nat \<Rightarrow> nat \<Rightarrow> nat \<Rightarrow> nat \<Rightarrow> nat" where
  "new_place x s1 y s2 pc = (if pc < x then pc + s1 + s2 else if pc < y then pc + s2 else pc)"

definition close_blocks :: "mem \<Rightarrow> nat \<Rightarrow> nat \<Rightarrow> nat \<Rightarrow> nat \<Rightarrow> nat \<Rightarrow> mem" where
  "close_blocks d brk x s1 y s2 =
     memmove (memmove d (x + s1 + s2) (x + s1) (y - (x + s1))) (brk + (s1 + s2)) brk (x - brk)"

lemma zones:
  assumes "brk \<le> fst r" "fst r + snd r \<le> u" "4 \<le> snd r" "apart r (x, s1)" "apart r (y, s2)" "x + s1 \<le> y"
  obtains "fst r + snd r \<le> x" "new_place x s1 y s2 (fst r) = fst r + s1 + s2"
  | "x + s1 \<le> fst r" "fst r + snd r \<le> y" "new_place x s1 y s2 (fst r) = fst r + s2"
  | "y + s2 \<le> fst r" "new_place x s1 y s2 (fst r) = fst r"
proof -
  from assms(3-5) have "fst r + snd r \<le> x \<or> x + s1 \<le> fst r" "fst r + snd r \<le> y \<or> y + s2 \<le> fst r"
    by (auto simp: apart_def)
  then consider "fst r + snd r \<le> x" | "x + s1 \<le> fst r" "fst r + snd r \<le> y" | "y + s2 \<le> fst r" by blast
  then show ?thesis
  proof cases
    case 1
    with assms(3) show ?thesis by (intro that(1)) (auto simp: new_place_def)
  next
    case 2
    with assms(3) show ?thesis by (intro that(2)) (auto simp: new_place_def)
  next
    case 3
    with assms(6) show ?thesis by (intro that(3)) (auto simp: new_place_def)
  qed
qed

lemma new_place_bounds:
  assumes "brk \<le> fst r" "fst r + snd r \<le> u" "4 \<le> snd r" "apart r (x, s1)" "apart r (y, s2)" "x + s1 \<le> y"
    "brk < x" "y + s2 \<le> u"
  shows "brk + s1 + s2 \<le> new_place x s1 y s2 (fst r)" "new_place x s1 y s2 (fst r) + snd r \<le> u"
  by (rule zones [OF assms(1-6)]; use assms(1,2,6,7,8) in linarith)+

lemma new_place_apart:
  assumes "brk \<le> fst r" "fst r + snd r \<le> u" "4 \<le> snd r" "apart r (x, s1)" "apart r (y, s2)"
    "brk \<le> fst t" "fst t + snd t \<le> u" "4 \<le> snd t" "apart t (x, s1)" "apart t (y, s2)" "x + s1 \<le> y" "apart r t"
  shows "apart (new_place x s1 y s2 (fst r), snd r) (new_place x s1 y s2 (fst t), snd t)"
  by (rule zones [OF assms(1-5,11)]; rule zones [OF assms(6-11)]; use assms(11,12) in \<open>auto simp: apart_def\<close>)

lemma close_blocks_bytes:
  assumes "brk \<le> fst r" "fst r + snd r \<le> u" "4 \<le> snd r" "apart r (x, s1)" "apart r (y, s2)" "x + s1 \<le> y"
    "brk < x" "k < snd r"
  shows "close_blocks d brk x s1 y s2 (new_place x s1 y s2 (fst r) + k) = d (fst r + k)"
  by (rule zones [OF assms(1-6)]; use assms(1,3,6,7,8) in \<open>auto simp: close_blocks_def memmove_def memcpy_def\<close>)

lemma close_blocks_low: "i < brk + s1 + s2 \<Longrightarrow> brk < x \<Longrightarrow> close_blocks d brk x s1 y s2 i = d i"
  by (auto simp: close_blocks_def memmove_def memcpy_def)

lemma close_blocks_high: "y + s2 \<le> i \<Longrightarrow> x + s1 \<le> y \<Longrightarrow> brk < x \<Longrightarrow> close_blocks d brk x s1 y s2 i = d i"
  by (auto simp: close_blocks_def memmove_def memcpy_def)

lemma close_blocks_ok:
  assumes pg: "bpage_ok p fl" and d_def: "d = aData p" and u_def: "u = usableSize (pBt p)"
    and hdr_def: "hdr = hdrOffset p" and brk_def: "brk = content_start d hdr"
    and x: "brk < x" "x + s1 \<le> y" "y + s2 \<le> u" "region_sum fl = s1 + s2"
    and free: "\<forall>r\<in>set (regions_of p d). apart r (x, s1) \<and> apart r (y, s2)"
    and y': "y' = y \<or> y' = 0 \<and> y = x + s1"
    and d1_def: "d1 = shift_pointers (nCell p) (cellOffset p) x (s1 + s2) y' s2 (close_blocks d brk x s1 y s2)"
  shows "\<exists>d'. defragment_out p d1 (brk + (s1 + s2)) = (SQLITE_OK, p\<lparr>aData := d'\<rparr>) \<and> defragmented p d' (frag d hdr)"
proof -
  note ok = bpage_okD [OF pg, folded d_def u_def hdr_def, folded brk_def]
  note s = space_okD [OF ok(5), folded brk_def]
  define d0 where "d0 = close_blocks d brk x s1 y s2"
  define new where "new = (\<lambda>j. new_place x s1 y s2 (cell_ptr p d j))"
  have cell: "brk \<le> fst (cell_at p d j)" "fst (cell_at p d j) + snd (cell_at p d j) \<le> u" "4 \<le> snd (cell_at p d j)"
    "apart (cell_at p d j) (x, s1)" "apart (cell_at p d j) (y, s2)" "fst (cell_at p d j) = cell_ptr p d j" if "j < nCell p" for j
    using s(8) free that by (auto simp: regions_of_def cell_at_def)
  have bounds: "brk + s1 + s2 \<le> new j" "new j + snd (cell_at p d j) \<le> u" if "j < nCell p" for j
    using new_place_bounds [OF cell(1-5) [OF that] x(2,1,3)] cell(6) [OF that] by (simp_all add: new_def)
  have first: "hdr + 8 \<le> cellOffset p" "gap_start p \<le> brk" "gap_start p = cellOffset p + 2 * nCell p"
    using ok(3,6) by (simp_all add: gap_start_def)
  have ptr0: "cell_ptr p d0 j = cell_ptr p d j" if "j < nCell p" for j
    unfolding cell_ptr_def d0_def using that first x(1) by (intro get2byte_cong close_blocks_low) auto
  have moved: "(if cell_ptr p d j < x then cell_ptr p d j + (s1 + s2) else if cell_ptr p d j < y' then cell_ptr p d j + s2
      else cell_ptr p d j) = new j" if "j < nCell p" for j
    using y' cell(3,4,6) [OF that] by (auto simp: new_def new_place_def apart_def)
  have "(\<forall>j. 0 \<le> j \<and> j < 0 + nCell p \<longrightarrow>
       cell_ptr p (shift_pointers (nCell p) (cellOffset p + 2 * 0) x (s1 + s2) y' s2 d0) j =
         (if cell_ptr p d j < x then cell_ptr p d j + (s1 + s2) else if cell_ptr p d j < y' then cell_ptr p d j + s2
          else cell_ptr p d j)) \<and>
    (\<forall>a. a < cellOffset p + 2 * 0 \<or> cellOffset p + 2 * (0 + nCell p) \<le> a \<longrightarrow>
       shift_pointers (nCell p) (cellOffset p + 2 * 0) x (s1 + s2) y' s2 d0 a = d0 a)"
  proof (rule shift_pointers_ok)
    fix j assume "0 \<le> j" "j < 0 + nCell p"
    then have j: "j < nCell p" by simp
    have "new j < 65536" using bounds(2) [OF j] cell(3) [OF j] s(3) by simp
    then show "cell_ptr p d0 j = cell_ptr p d j \<and> (if cell_ptr p d j < x then cell_ptr p d j + (s1 + s2)
        else if cell_ptr p d j < y' then cell_ptr p d j + s2 else cell_ptr p d j) < 65536"
      using ptr0 [OF j] moved [OF j] by simp
  qed
  then have d1: "cell_ptr p d1 j = new j" if "j < nCell p" for j
    using moved [OF that] that by (simp add: d1_def d0_def)
  have d1_other: "d1 a = d0 a" if "a < cellOffset p \<or> gap_start p \<le> a" for a
    using \<open>_ \<and> _\<close> that first(3) by (auto simp: d1_def d0_def)
  have bytes: "d1 (cell_ptr p d1 j + k) = d (cell_ptr p d j + k)" if "j < nCell p" "k < snd (cell_at p d j)" for j k
  proof -
    have "gap_start p \<le> new j + k" using bounds(1) [OF that(1)] first(2) by simp
    then have "d1 (new j + k) = d0 (new j + k)" by (intro d1_other) simp
    also have "\<dots> = d (cell_ptr p d j + k)"
      using close_blocks_bytes [OF cell(1-5) [OF that(1)] x(2,1) that(2)] cell(6) [OF that(1)]
      by (simp add: d0_def new_def)
    finally show ?thesis by (simp add: d1 [OF that(1)])
  qed
  have at: "cell_at p d1 j = (new j, snd (cell_at p d j))" if "j < nCell p" for j
  proof -
    have "cell_at p d1 j = (cell_ptr p d1 j, snd (cell_at p d j))"
      using relocated(1) [where d = d and d' = d1, OF ok(11)] bytes that by blast
    then show ?thesis by (simp add: d1 [OF that])
  qed
  then have regs: "regions_of p d1 = map (\<lambda>j. (new j, snd (cell_at p d j))) [0..<nCell p]"
    by (simp add: regions_of_def)
  have same: "contents_of p d1 = contents_of p d"
    using relocated(2) [where d = d and d' = d1, OF ok(11)] bytes by blast
  have sum: "region_sum (regions_of p d1) = region_sum (regions_of p d)"
    unfolding regs by (simp add: comp_def regions_of_def)
  have low: "d1 i = d i" if "i < cellOffset p" for i
    using that first d1_other [of i] close_blocks_low [of i brk s1 s2 x d y] x(1) by (simp add: d0_def)
  have high: "d1 i = d i" if "u \<le> i" for i
    using that first(2) x d1_other [of i] close_blocks_high [of y s2 i x s1 brk d] by (simp add: d0_def)
  have "apart_list (regions_of p d1)"
    unfolding regs sorted_wrt_iff_nth_less
  proof (intro allI impI)
    fix i j assume ij: "i < j" "j < length (map (\<lambda>j. (new j, snd (cell_at p d j))) [0..<nCell p])"
    then have n: "i < nCell p" "j < nCell p" by simp_all
    have "apart (regions_of p d ! i) (regions_of p d ! j)"
      using s(6) ij(1) n by (simp add: sorted_wrt_iff_nth_less regions_of_def)
    then have "apart (cell_at p d i) (cell_at p d j)" using n by (simp add: regions_of_def)
    from new_place_apart [OF cell(1-5) [OF n(1)] cell(1-5) [OF n(2)] x(2) this] n
    show "apart (map (\<lambda>j. (new j, snd (cell_at p d j))) [0..<nCell p] ! i)
        (map (\<lambda>j. (new j, snd (cell_at p d j))) [0..<nCell p] ! j)"
      by (simp add: new_def cell(6))
  qed
  moreover have "\<forall>r\<in>set (regions_of p d1). brk + (s1 + s2) \<le> fst r \<and> fst r + snd r \<le> u \<and> 4 \<le> snd r"
    unfolding regs in_range_map
  proof (intro allI impI)
    fix j assume j: "j < nCell p"
    show "brk + (s1 + s2) \<le> fst (new j, snd (cell_at p d j)) \<and>
        fst (new j, snd (cell_at p d j)) + snd (new j, snd (cell_at p d j)) \<le> u \<and> 4 \<le> snd (new j, snd (cell_at p d j))"
      using bounds [OF j] cell(3) [OF j] by simp
  qed
  moreover have fr: "frag d1 hdr = frag d hdr" using low [of "hdr + 7"] first(1) by (simp add: frag_def)
  moreover have "get2byte d1 (hdr + 3) = nCell p"
    using ok(4) first(1) by (subst get2byte_cong [of d1 "hdr + 3" d]) (auto intro!: low)
  ultimately have "\<exists>d'. defragment_out p d1 (brk + (s1 + s2)) = (SQLITE_OK, p\<lparr>aData := d'\<rparr>) \<and>
    space_ok d' hdr u (regions_of p d') [] \<and> contents_of p d' = contents_of p d1 \<and>
    content_start d' hdr = brk + (s1 + s2) \<and> frag d' hdr = frag d1 hdr \<and> get2byte d' (hdr + 3) = nCell p \<and>
    (\<forall>i. i < hdr \<or> i = hdr \<or> u \<le> i \<longrightarrow> d' i = d1 i)"
    using sum first s(9,10) x by (intro defragment_out_ok [OF pg u_def hdr_def]) (simp_all add: d_def)
  then obtain d' where d': "defragment_out p d1 (brk + (s1 + s2)) = (SQLITE_OK, p\<lparr>aData := d'\<rparr>)"
    "space_ok d' hdr u (regions_of p d') []" "contents_of p d' = contents_of p d1"
    "content_start d' hdr = brk + (s1 + s2)" "frag d' hdr = frag d1 hdr" "get2byte d' (hdr + 3) = nCell p"
    "\<forall>i. i < hdr \<or> i = hdr \<or> u \<le> i \<longrightarrow> d' i = d1 i" by blast
  have "int (brk + (s1 + s2)) + int (frag d hdr) = int (gap_start p) + nFree p"
    using ok(6,7) x(4) by simp
  moreover have "d1 i = d i" if "i < hdr \<or> i = hdr \<or> u \<le> i" for i
    using that first(1) low [of i] high [of i] by auto
  ultimately show ?thesis
    using d' fr same by (intro exI [of _ d']) (auto simp: defragmented_def Let_def d_def u_def hdr_def)
qed

lemma defragment_fast_ok:
  assumes pg: "bpage_ok p fl" and fl: "fl = [(x, s1)] \<or> (\<exists>s2. fl = [(x, s1), (y', s2)])" "fl = [(x, s1)] \<Longrightarrow> y' = 0"
  shows "\<exists>d1 c d'. defragment_fast p x y' = Some (d1, c) \<and>
    defragment_out p d1 c = (SQLITE_OK, p\<lparr>aData := d'\<rparr>) \<and> defragmented p d' (frag (aData p) (hdrOffset p))"
proof -
  define d u hdr brk where "d = aData p" and "u = usableSize (pBt p)" and "hdr = hdrOffset p" and
    "brk = content_start d hdr"
  note ok = bpage_okD [OF pg, folded d_def u_def hdr_def, folded brk_def]
  note s = space_okD [OF ok(5), folded brk_def]
  have x: "brk < x" "4 \<le> s1" "x + s1 \<le> u" "get2byte d (x + 2) = s1" using fl(1) s(4,5) by (auto simp: chain_def)
  have raw: "get2byte d (hdr + 5) = brk"
    using x s(3) by (auto simp: brk_def content_start_def get2byteNotZero_def split: if_splits)
  note [simp] = d_def [symmetric] u_def [symmetric] hdr_def [symmetric]
  from fl(1) show ?thesis
  proof
    assume one: "fl = [(x, s1)]"
    then have y': "y' = 0" by (rule fl(2))
    define d1 where "d1 = shift_pointers (nCell p) (cellOffset p) x (s1 + 0) y' 0 (close_blocks d brk x s1 (x + s1) 0)"
    have apart: "apart r (x, s1) \<and> apart r (x + s1, 0)" if "r \<in> set (regions_of p d)" for r
      using s(7) that one by (auto simp: apart_def)
    have "\<exists>d'. defragment_out p d1 (brk + (s1 + 0)) = (SQLITE_OK, p\<lparr>aData := d'\<rparr>) \<and> defragmented p d' (frag d hdr)"
      using x one y' apart by (intro close_blocks_ok [OF pg d_def u_def hdr_def brk_def _ _ _ _ _ _ d1_def]) auto
    moreover have "close_blocks d brk x s1 (x + s1) 0 = memmove d (brk + s1) brk (x - brk)"
    proof -
      have "memmove d a b 0 = d" for a b by (rule ext) (auto simp: memmove_def memcpy_def)
      then show ?thesis by (simp add: close_blocks_def)
    qed
    then have "defragment_fast p x y' = Some (d1, brk + s1)"
      using x raw y' by (simp add: defragment_fast_def Let_def d1_def)
    ultimately show ?thesis by auto
  next
    assume "\<exists>s2. fl = [(x, s1), (y', s2)]"
    then obtain s2 where two: "fl = [(x, s1), (y', s2)]" by blast
    then have y: "x + s1 + 4 \<le> y'" "y' + s2 \<le> u" "get2byte d (y' + 2) = s2" using s(4,5) by (auto simp: chain_def)
    define d1 where "d1 = shift_pointers (nCell p) (cellOffset p) x (s1 + s2) y' s2 (close_blocks d brk x s1 y' s2)"
    have "\<exists>d'. defragment_out p d1 (brk + (s1 + s2)) = (SQLITE_OK, p\<lparr>aData := d'\<rparr>) \<and> defragmented p d' (frag d hdr)"
      using x y two s(7) by (intro close_blocks_ok [OF pg d_def u_def hdr_def brk_def _ _ _ _ _ _ d1_def]) auto
    moreover have "defragment_fast p x y' = Some (d1, brk + (s1 + s2))"
      using x raw y by (simp add: defragment_fast_def Let_def d1_def close_blocks_def)
    ultimately show ?thesis by auto
  qed
qed

lemma defragmentPage_ok:
  assumes pg: "bpage_ok p fl"
  shows "\<exists>d' f. defragmentPage p k = (SQLITE_OK, p\<lparr>aData := d'\<rparr>) \<and> defragmented p d' f \<and> (int f \<le> k \<or> f = 0)"
proof -
  note ok = bpage_okD [OF pg]
  note s = space_okD [OF ok(5)]
  have slow: "\<exists>d' f. defragment_slow p = (SQLITE_OK, p\<lparr>aData := d'\<rparr>) \<and> defragmented p d' f \<and> (int f \<le> k \<or> f = 0)"
    using defragment_slow_ok [OF pg] by blast
  show ?thesis
  proof (cases "int (unat (aData p (hdrOffset p + 7))) \<le> k \<and> fl \<noteq> []")
    case False
    then have "defragmentPage p k = defragment_slow p"
      using s(4) by (auto simp: defragmentPage_def Let_def chain_def)
    with slow show ?thesis by simp
  next
    case True
    then obtain x s1 fs where fl: "fl = (x, s1) # fs" by (cases fl) auto
    define y where "y = first_addr fs 0"
    have x: "get2byte (aData p) (hdrOffset p + 1) = x" "get2byte (aData p) x = y" "0 < x" "x \<le> usableSize (pBt p) - 4"
      "y \<le> usableSize (pBt p) - 4"
      using s(1,4,5) fl by (auto simp: chain_def y_def) (cases fs; auto)
    show ?thesis
    proof (cases "y = 0 \<or> aData p y = 0 \<and> aData p (y + 1) = 0")
      case False
      then have "defragmentPage p k = defragment_slow p"
        using x True by (auto simp: defragmentPage_def Let_def)
      with slow show ?thesis by simp
    next
      case end_of_list: True
      have "fl = [(x, s1)] \<and> y = 0 \<or> (\<exists>s2. fl = [(x, s1), (y, s2)])"
      proof (cases fs)
        case Nil
        with fl show ?thesis by (simp add: y_def)
      next
        case (Cons f fs')
        then obtain s2 where f: "fs = (y, s2) # fs'" by (cases f) (simp add: y_def)
        then have "0 < y" "get2byte (aData p) y = first_addr fs' 0" using s(1,4,5) fl by (auto simp: chain_def)
        then have "first_addr fs' 0 = 0" using end_of_list get2byte_zero [of "aData p" y] by auto
        then have "fs' = []" using s(5) fl f by (cases fs') auto
        with fl f show ?thesis by simp
      qed
      then have "\<exists>d1 c d'. defragment_fast p x y = Some (d1, c) \<and>
          defragment_out p d1 c = (SQLITE_OK, p\<lparr>aData := d'\<rparr>) \<and> defragmented p d' (frag (aData p) (hdrOffset p))"
        by (intro defragment_fast_ok [OF pg]) auto
      then obtain d1 c d' where d': "defragment_fast p x y = Some (d1, c)"
        "defragment_out p d1 c = (SQLITE_OK, p\<lparr>aData := d'\<rparr>)" "defragmented p d' (frag (aData p) (hdrOffset p))" by blast
      have "defragmentPage p k = (SQLITE_OK, p\<lparr>aData := d'\<rparr>)"
        using x True end_of_list d'(1,2) by (auto simp: defragmentPage_def Let_def)
      moreover have "int (frag (aData p) (hdrOffset p)) \<le> k" using True by (simp add: frag_def)
      ultimately show ?thesis using d'(3) by blast
    qed
  qed
qed

end
