(* ===== verification/Btree_Insert.thy ===== *)
theory Btree_Insert
  imports Btree_Defrag
begin

text \<open>
  Insertion on a page that is in order: \<open>allocateSpace\<close> finds room whenever the free bytes suffice, by a
  freeblock, the gap or a defragmentation, and the cell goes into the list at its index.
\<close>

section \<open>Updates of other fields\<close>

lemma cellSizeOf_fields:
  assumes "maxLocal q = maxLocal p" "minLocal q = minLocal p" "usableSize (pBt q) = usableSize (pBt p)"
  shows "cellSizeOf m q = cellSizeOf m p"
proof -
  have s: "surplus q n = surplus p n" for n by (simp add: surplus_def assms)
  have v: "overflow_size q n i = overflow_size p n i" for n i
    by (simp only: overflow_size_def s assms Let_def cong: if_cong)
  have "cellSizePtr q c = cellSizePtr p c" "cellSizePtrIdxLeaf q c = cellSizePtrIdxLeaf p c"
    "cellSizePtrNoPayload q c = cellSizePtrNoPayload p c" "cellSizePtrTableLeaf q c = cellSizePtrTableLeaf p c" for c
    by (simp_all only: cellSizePtr_def cellSizePtrIdxLeaf_def cellSizePtrNoPayload_def cellSizePtrTableLeaf_def
        v assms Let_def cong: if_cong)
  then have "cellSizePtr q = cellSizePtr p" "cellSizePtrIdxLeaf q = cellSizePtrIdxLeaf p"
    "cellSizePtrNoPayload q = cellSizePtrNoPayload p" "cellSizePtrTableLeaf q = cellSizePtrTableLeaf p"
    by (simp_all add: fun_eq_iff)
  then show ?thesis by (cases m) simp_all
qed

lemma methods_upd [simp]:
  "cellSizeOf m (p\<lparr>aData := x\<rparr>) = cellSizeOf m p" "cellSizeOf m (p\<lparr>nFree := f\<rparr>) = cellSizeOf m p"
  "cellSizeOf m (p\<lparr>nCell := n\<rparr>) = cellSizeOf m p"
  by (rule cellSizeOf_fields; simp)+

lemma cell_at_upd [simp]:
  "cell_at (p\<lparr>aData := x\<rparr>) = cell_at p" "cell_at (p\<lparr>nFree := f\<rparr>) = cell_at p" "cell_at (p\<lparr>nCell := n\<rparr>) = cell_at p"
  by (simp_all add: fun_eq_iff cell_at_def cell_ptr_def cellSizeAt_def)

lemma regions_of_upd [simp]:
  "regions_of (p\<lparr>aData := x\<rparr>) d = regions_of p d" "regions_of (p\<lparr>nFree := f\<rparr>) d = regions_of p d"
  by (simp_all add: regions_of_def)

lemma contents_of_upd [simp]:
  "contents_of (p\<lparr>aData := x\<rparr>) d = contents_of p d" "contents_of (p\<lparr>nFree := f\<rparr>) d = contents_of p d"
  by (simp_all add: contents_of_def)

lemma methods_ok_upd [simp]:
  "methods_ok (p\<lparr>aData := x\<rparr>) = methods_ok p" "methods_ok (p\<lparr>nFree := f\<rparr>) = methods_ok p"
  "methods_ok (p\<lparr>nCell := n\<rparr>) = methods_ok p"
  by (simp_all add: methods_ok_def page_limits_def)

lemma gap_start_upd [simp]: "gap_start (p\<lparr>aData := x\<rparr>) = gap_start p" "gap_start (p\<lparr>nFree := f\<rparr>) = gap_start p"
  by (simp_all add: gap_start_def)

section \<open>Allocation\<close>

text \<open>The page \<open>d'\<close> has the cells of the page \<open>d\<close>, and \<open>n\<close> bytes at \<open>idx\<close> are given out.\<close>

definition allocated :: "MemPage \<Rightarrow> mem \<Rightarrow> mem \<Rightarrow> nat \<Rightarrow> nat \<Rightarrow> bool" where
  "allocated p d d' idx n \<longleftrightarrow>
     (\<exists>fl. space_ok d' (hdrOffset p) (usableSize (pBt p)) ((idx, n) # regions_of p d') fl) \<and>
     contents_of p d' = contents_of p d \<and> gap_start p + 2 \<le> content_start d' (hdrOffset p) \<and>
     get2byte d' (hdrOffset p + 3) = nCell p \<and>
     (\<forall>i. i < hdrOffset p \<or> i = hdrOffset p \<or> usableSize (pBt p) \<le> i \<longrightarrow> d' i = d i)"

lemma allocatedI:
  assumes "page_limits p" "cellOffset p = hdrOffset p + 8 + childPtrSize p"
    "gap_start p \<le> content_start d (hdrOffset p)" "get2byte d (hdrOffset p + 3) = nCell p"
    "space_ok d' (hdrOffset p) (usableSize (pBt p)) ((idx, n) # regions_of p d) fl"
    "leaves_cells d d' (hdrOffset p) (usableSize (pBt p)) (regions_of p d)"
    "gap_start p + 2 \<le> content_start d' (hdrOffset p)"
  shows "allocated p d d' idx n"
proof -
  note same = leaves_cells_page [OF assms(1,2,3,6)]
  have "d' i = d i" if "i < hdrOffset p \<or> i = hdrOffset p \<or> usableSize (pBt p) \<le> i" for i
    using assms(2,3,6) that by (auto simp: leaves_cells_def gap_start_def)
  with same assms(4,5,7) show ?thesis by (auto simp: allocated_def)
qed

lemma allocate_gap_ok:
  assumes "page_limits p" "cellOffset p = hdrOffset p + 8 + childPtrSize p"
    "get2byte d (hdrOffset p + 3) = nCell p" "4 \<le> n"
    "space_ok d (hdrOffset p) (usableSize (pBt p)) (regions_of p d) fl"
    "gap_start p + 2 + n \<le> content_start d (hdrOffset p)" "brk = content_start d (hdrOffset p)"
  shows "\<exists>idx d'. allocate_gap (p\<lparr>aData := d\<rparr>) n brk = (SQLITE_OK, idx, p\<lparr>aData := d'\<rparr>) \<and> allocated p d d' idx n"
proof -
  define d' where "d' = put2byte d (hdrOffset p + 5) (content_start d (hdrOffset p) - n)"
  have room: "hdrOffset p + 8 + n \<le> content_start d (hdrOffset p)"
    using assms(2,6) by (simp add: gap_start_def)
  note g = gap_space [OF assms(5,4) room d'_def]
  have "allocated p d d' (content_start d (hdrOffset p) - n) n"
    using assms g by (intro allocatedI [where fl = fl]) auto
  then show ?thesis using assms(7) by (auto simp: allocate_gap_def d'_def)
qed

lemma allocate_defrag_ok:
  assumes pg: "bpage_ok p fl" and n: "4 \<le> n" "int n + 2 \<le> nFree p"
    and g: "gap = gap_start p" "brk = content_start (aData p) (hdrOffset p)"
  shows "\<exists>idx d'. allocate_defrag p n gap brk = (SQLITE_OK, idx, p\<lparr>aData := d'\<rparr>) \<and> allocated p (aData p) d' idx n"
proof -
  note ok = bpage_okD [OF pg]
  show ?thesis
  proof (cases "gap + 2 + n > brk")
    case False
    then show ?thesis
      using allocate_gap_ok [OF ok(11,3,4) n(1) ok(5) _ g(2)] g by (simp add: allocate_defrag_def)
  next
    case True
    obtain d1 f where d1: "defragmentPage p (min 4 (nFree p - (2 + int n))) = (SQLITE_OK, p\<lparr>aData := d1\<rparr>)"
      "defragmented p d1 f" "int f \<le> min 4 (nFree p - (2 + int n)) \<or> f = 0"
      using defragmentPage_ok [OF pg] by blast
    note df = d1(2) [unfolded defragmented_def Let_def]
    have room: "gap_start p + 2 + n \<le> content_start d1 (hdrOffset p)"
      using df d1(3) n(2) by auto
    from allocate_gap_ok [of p d1 n "[]" "content_start d1 (hdrOffset p)"] df room ok(3,11) n(1)
    obtain idx d' where d': "allocate_gap (p\<lparr>aData := d1\<rparr>) n (content_start d1 (hdrOffset p)) = (SQLITE_OK, idx, p\<lparr>aData := d'\<rparr>)"
      "allocated p d1 d' idx n" by auto
    have "allocated p (aData p) d' idx n"
      using d'(2) df by (auto simp: allocated_def)
    moreover have "allocate_defrag p n gap brk = (SQLITE_OK, idx, p\<lparr>aData := d'\<rparr>)"
      using True d1(1) d'(1) room g by (simp add: allocate_defrag_def Let_def content_start_def)
    ultimately show ?thesis by blast
  qed
qed

lemma pageFindSlot_ok:
  assumes pg: "bpage_ok p fl" and n: "4 \<le> n" "int n + 2 \<le> nFree p" and fl: "fl \<noteq> []"
    and gap: "gap_start p + 2 \<le> content_start (aData p) (hdrOffset p)"
  shows "pageFindSlot p n = (SQLITE_OK, None, p) \<or>
    (\<exists>idx d'. pageFindSlot p n = (SQLITE_OK, Some idx, p\<lparr>aData := d'\<rparr>) \<and> allocated p (aData p) d' idx n \<and> gap_start p < idx)"
proof -
  define d u hdr where "d = aData p" and "u = usableSize (pBt p)" and "hdr = hdrOffset p"
  note ok = bpage_okD [OF pg, folded d_def u_def hdr_def]
  note s = space_okD [OF ok(5)]
  note fold = d_def [symmetric] u_def [symmetric] hdr_def [symmetric]
  have "0 \<le> (\<Sum>c\<leftarrow>contents_of p d. int (length c) + 2)" by (rule sum_list_nonneg) auto
  then have "n \<le> u" using n(2) page_nFree [OF pg, folded d_def] by (simp add: u_def)
  have head: "get2byte d (hdr + 1) = first_addr fl 0" "seg d fl 0" using s(4) by (simp_all add: chain_def)
  note alloc = allocatedI [OF ok(11) ok(3) [unfolded hdr_def] ok(6) [unfolded hdr_def] ok(4) [unfolded hdr_def], folded hdr_def u_def]
  from find_slot_cases [OF head(2) s(5) fl n(1) \<open>n \<le> u\<close>, of hdr "hdr + 1"]
  consider "find_slot u n hdr d (hdr + 1) (first_addr fl 0) = (SQLITE_OK, None, d)"
    | bs b m fs where "fl = bs @ (b, m) # fs" "n \<le> m" "m < n + 4" "d (hdr + 7) \<le> 57"
        "find_slot u n hdr d (hdr + 1) (first_addr fl 0) =
           (let d' = memcpy d (ptr_of (hdr + 1) bs) d b 2
            in (SQLITE_OK, Some b, d'(hdr + 7 := d' (hdr + 7) + word_of_nat (m - n))))"
    | bs b m fs where "fl = bs @ (b, m) # fs" "n + 4 \<le> m"
        "find_slot u n hdr d (hdr + 1) (first_addr fl 0) = (SQLITE_OK, Some (b + (m - n)), put2byte d (b + 2) (m - n))"
    by blast
  then show ?thesis
  proof cases
    case 1
    then have "pageFindSlot p n = (SQLITE_OK, None, p\<lparr>aData := d\<rparr>)" by (simp add: pageFindSlot_def Let_def head(1) [simplified] fold)
    then show ?thesis unfolding d_def by simp
  next
    case 2
    define d' where "d' = (let d1 = memcpy d (ptr_of (hdr + 1) bs) d b 2
      in d1(hdr + 7 := d1 (hdr + 7) + word_of_nat (m - n)))"
    note w = slot_whole [OF ok(5) [unfolded 2(1)] n(1) 2(2,3,4) d'_def]
    have "gap_start p < b" using spaced_all [OF s(5)] 2(1) ok(6) by auto
    moreover have "allocated p d d' b n" using w gap by (intro alloc [where fl = "bs @ fs"]) (simp_all add: fold)
    moreover have "pageFindSlot p n = (SQLITE_OK, Some b, p\<lparr>aData := d'\<rparr>)"
      using 2(5) by (simp add: pageFindSlot_def Let_def head(1) [simplified] fold d'_def)
    ultimately show ?thesis unfolding fold by (intro disjI2 exI conjI)
  next
    case 3
    define d' where "d' = put2byte d (b + 2) (m - n)"
    note w = slot_part [OF ok(5) [unfolded 3(1)] n(1) 3(2) d'_def]
    have "gap_start p < b + (m - n)" using spaced_all [OF s(5)] 3(1) ok(6) by auto
    moreover have "allocated p d d' (b + (m - n)) n"
      using w gap by (intro alloc [where fl = "bs @ (b, m - n) # fs"]) (simp_all add: fold)
    moreover have "pageFindSlot p n = (SQLITE_OK, Some (b + (m - n)), p\<lparr>aData := d'\<rparr>)"
      using 3(3) by (simp add: pageFindSlot_def Let_def head(1) [simplified] fold d'_def)
    ultimately show ?thesis unfolding fold by (intro disjI2 exI conjI)
  qed
qed

lemma allocateSpace_ok:
  assumes pg: "bpage_ok p fl" and n: "4 \<le> n" "int n + 2 \<le> nFree p"
  shows "\<exists>idx d'. allocateSpace p n = (SQLITE_OK, idx, p\<lparr>aData := d'\<rparr>) \<and> allocated p (aData p) d' idx n"
proof -
  define brk where "brk = content_start (aData p) (hdrOffset p)"
  note ok = bpage_okD [OF pg]
  note s = space_okD [OF ok(5)]
  have raw: "get2byte (aData p) (hdrOffset p + 5) = (if brk = 65536 then 0 else brk)"
    using get2byte_less [of "aData p" "hdrOffset p + 5"]
    by (auto simp: brk_def content_start_def get2byteNotZero_def)
  have brk: "gap_start p \<le> brk" "brk \<le> usableSize (pBt p)" "usableSize (pBt p) \<le> 65536" "0 < gap_start p"
    using ok(3,6) s(2,3) by (simp_all add: brk_def gap_start_def)
  have list: "aData p (hdrOffset p + 2) \<noteq> 0 \<or> aData p (hdrOffset p + 1) \<noteq> 0 \<longleftrightarrow> fl \<noteq> []"
    using s(1,4,5) get2byte_zero [of "aData p" "hdrOffset p + 1"] by (cases fl) (auto simp: chain_def)
  note defrag = allocate_defrag_ok [OF pg n refl brk_def]
  have eq: "allocateSpace p n = (if fl \<noteq> [] \<and> gap_start p + 2 \<le> brk then
        (case pageFindSlot p n of (r, s, q) \<Rightarrow>
           (case s of Some g2 \<Rightarrow> if g2 \<le> gap_start p then (SQLITE_CORRUPT, g2, q) else (SQLITE_OK, g2, q)
            | None \<Rightarrow> if r \<noteq> SQLITE_OK then (r, 0, q) else allocate_defrag q n (gap_start p) brk))
      else allocate_defrag p n (gap_start p) brk)"
  proof (cases "brk = 65536")
    case True
    show ?thesis using brk unfolding True allocateSpace_def Let_def raw gap_start_def [symmetric] list by simp
  next
    case False
    then show ?thesis using brk unfolding allocateSpace_def Let_def raw gap_start_def [symmetric] list by simp
  qed
  show ?thesis
  proof (cases "fl \<noteq> [] \<and> gap_start p + 2 \<le> brk")
    case True
    with pageFindSlot_ok [OF pg n] defrag eq show ?thesis by (auto simp: brk_def)
  next
    case False
    with defrag eq show ?thesis by auto
  qed
qed

section \<open>Insertion\<close>

lemma space_ok_frame:
  assumes sp: "space_ok d hdr u rs fl" and same: "\<forall>i\<in>{hdr + 1, hdr + 2, hdr + 5, hdr + 6, hdr + 7}. d' i = d i"
    "\<forall>f\<in>set fl. \<forall>i. fst f \<le> i \<and> i < fst f + snd f \<longrightarrow> d' i = d i"
  shows "space_ok d' hdr u rs fl" "content_start d' hdr = content_start d hdr"
proof -
  note s = space_okD [OF sp]
  have h: "get2byte d' (hdr + 1) = get2byte d (hdr + 1)" "get2byte d' (hdr + 5) = get2byte d (hdr + 5)" "d' (hdr + 7) = d (hdr + 7)"
    using same(1) by (auto intro!: get2byte_cong simp: numeral_eq_Suc)
  then show brk: "content_start d' hdr = content_start d hdr" by (simp add: content_start_def get2byteNotZero_def)
  have "seg d' fl 0 = seg d fl 0"
  proof (rule seg_frame)
    fix a n i assume "(a, n) \<in> set fl" "a \<le> i" "i < a + 4"
    then show "d' i = d i" using bspec [OF same(2), of "(a, n)"] spaced_in [OF s(5), of a n] by simp
  qed
  then have "chain d' (hdr + 1) fl" using s(4) h(1) by (simp add: chain_def)
  with s h(3) brk show "space_ok d' hdr u rs fl" by (intro space_okI) (simp_all add: frag_def)
qed

lemma space_ok_move: "space_ok d hdr u (r # rs1 @ rs2) fl \<Longrightarrow> space_ok d hdr u (rs1 @ r # rs2) fl"
  using apart_list_mid [of "[]" r "rs1 @ rs2"] apart_list_mid [of rs1 r rs2]
  by (auto simp: space_ok_def Let_def simp del: sorted_wrt.simps)

lemma count_up:
  assumes "get2byte d a = n" "n + 1 < 65536"
    and d': "d' = (let d = d(a + 1 := d (a + 1) + 1) in if d (a + 1) = 0 then d(a := d a + 1) else d)"
  shows "get2byte d' a = n + 1"
proof -
  have lt: "unat (d a) < 256" "unat (d (a + 1)) < 256" using unsigned_less [of "d a"] unsigned_less [of "d (a + 1)"] by simp_all
  show ?thesis
  proof (cases "d (a + 1) + 1 = 0")
    case True
    then have "d (a + 1) = - 1" by (simp add: eq_neg_iff_add_eq_0)
    then have "unat (d (a + 1)) = 255" by (simp add: unsigned_minus_1_eq_mask mask_eq_exp_minus_1)
    moreover have "unat (d a + 1) = unat (d a) + 1"
      using assms(1,2) calculation lt by (simp add: get2byte_def unat_word_ariths)
    ultimately show ?thesis using True assms(1) by (simp add: d' get2byte_def)
  next
    case False
    then have "unat (d (a + 1) + 1) = unat (d (a + 1)) + 1" by (simp add: unatSuc add.commute)
    then show ?thesis using False assms(1) by (simp add: d' get2byte_def)
  qed
qed

lemma bpage_okI:
  assumes "methods_ok p" "hdrOffset p \<le> 100" "cellOffset p = hdrOffset p + 8 + childPtrSize p"
    "get2byte (aData p) (hdrOffset p + 3) = nCell p"
    "space_ok (aData p) (hdrOffset p) (usableSize (pBt p)) (regions_of p (aData p)) fl"
    "gap_start p \<le> content_start (aData p) (hdrOffset p)"
    "nFree p = int (usableSize (pBt p)) - int (cellOffset p) - (\<Sum>c\<leftarrow>contents_of p (aData p). int (length c) + 2)"
    "nCell p = 0 \<Longrightarrow> content_start (aData p) (hdrOffset p) = usableSize (pBt p)" "apOvfl p = []" "aiOvfl p = []"
  shows "bpage_ok p fl"
proof -
  note s = space_okD [OF assms(5)]
  have "nFree p = int (frag (aData p) (hdrOffset p) + region_sum fl + (content_start (aData p) (hdrOffset p) - gap_start p))"
    unfolding assms(7) sum_contents using s(2,9) assms(6) by (simp add: gap_start_def)
  with assms show ?thesis by (simp add: bpage_ok_def Let_def)
qed

text \<open>The bytes that an insertion writes, for a cell at \<open>idx\<close>.\<close>

definition put_cell :: "MemPage \<Rightarrow> nat \<Rightarrow> nat \<Rightarrow> u8 list \<Rightarrow> mem \<Rightarrow> mem" where
  "put_cell p i idx pcell d =
     (let d = put_bytes d idx pcell;
          pIns = cellOffset p + i * 2;
          d = memmove d (pIns + 2) pIns (2 * (nCell p - i));
          d = put2byte d pIns idx;
          d = d(hdrOffset p + 4 := d (hdrOffset p + 4) + 1)
      in if d (hdrOffset p + 4) = 0 then d(hdrOffset p + 3 := d (hdrOffset p + 3) + 1) else d)"

lemma put_cell_bytes:
  assumes "hdrOffset p + 8 \<le> cellOffset p" "gap_start p + 2 \<le> idx" "i \<le> nCell p" "idx < 65536" "nCell p + 1 < 65536"
    "get2byte d (hdrOffset p + 3) = nCell p"
  shows "\<And>j. j \<notin> {hdrOffset p + 3, hdrOffset p + 4} \<Longrightarrow> j < cellOffset p \<or> gap_start p + 2 \<le> j \<Longrightarrow>
      j < idx \<or> idx + length pcell \<le> j \<Longrightarrow> put_cell p i idx pcell d j = d j"
    "\<And>k. k < length pcell \<Longrightarrow> put_cell p i idx pcell d (idx + k) = pcell ! k"
    "\<And>j. j \<le> nCell p \<Longrightarrow> cell_ptr p (put_cell p i idx pcell d) j =
       (if j < i then cell_ptr p d j else if j = i then idx else cell_ptr p d (j - 1))"
    "get2byte (put_cell p i idx pcell d) (hdrOffset p + 3) = nCell p + 1"
proof -
  define P where "P = cellOffset p + i * 2"
  define d1 where "d1 = put_bytes d idx pcell"
  define d2 where "d2 = memmove d1 (P + 2) P (2 * (nCell p - i))"
  define d3 where "d3 = put2byte d2 P idx"
  have eq: "put_cell p i idx pcell d = (let d = d3(hdrOffset p + 4 := d3 (hdrOffset p + 4) + 1)
      in if d (hdrOffset p + 4) = 0 then d(hdrOffset p + 3 := d (hdrOffset p + 3) + 1) else d)"
    by (simp add: put_cell_def Let_def d1_def d2_def d3_def P_def)
  have d1: "d1 j = (if idx \<le> j \<and> j < idx + length pcell then pcell ! (j - idx) else d j)" for j
    by (simp add: d1_def put_bytes_def memcpy_def)
  have d2: "d2 j = (if P + 2 \<le> j \<and> j < P + 2 + 2 * (nCell p - i) then d1 (j - 2) else d1 j)" for j
    by (auto simp: d2_def memmove_def memcpy_def intro!: arg_cong [where f = d1])
  have d3: "d3 j = d2 j" if "j \<noteq> P" "j \<noteq> P + 1" for j using that by (simp add: d3_def put2byte_def)
  have d5: "put_cell p i idx pcell d j = d3 j" if "j \<notin> {hdrOffset p + 3, hdrOffset p + 4}" for j
    using that by (auto simp: eq Let_def)
  have P: "P \<le> gap_start p" "P + 2 + 2 * (nCell p - i) = gap_start p + 2" "hdrOffset p + 8 \<le> P"
    using assms(1,3) by (simp_all add: P_def gap_start_def)
  show "put_cell p i idx pcell d j = d j"
    if "j \<notin> {hdrOffset p + 3, hdrOffset p + 4}" "j < cellOffset p \<or> gap_start p + 2 \<le> j" "j < idx \<or> idx + length pcell \<le> j" for j
    using that P by (auto simp: d5 d3 d2 d1 P_def)
  show "put_cell p i idx pcell d (idx + k) = pcell ! k" if "k < length pcell" for k
    using that P assms(2) by (simp add: d5 d3 d2 d1)
  show "cell_ptr p (put_cell p i idx pcell d) j =
       (if j < i then cell_ptr p d j else if j = i then idx else cell_ptr p d (j - 1))" if j: "j \<le> nCell p" for j
  proof -
    have in_ptrs: "cellOffset p + 2 * j + 2 \<le> gap_start p + 2" "hdrOffset p + 8 \<le> cellOffset p + 2 * j"
      using j assms(1) by (simp_all add: gap_start_def)
    have "cell_ptr p (put_cell p i idx pcell d) j = get2byte d3 (cellOffset p + 2 * j)"
      unfolding cell_ptr_def using in_ptrs by (intro get2byte_cong d5) auto
    moreover consider "j < i" | "j = i" | "i < j" by linarith
    then have "get2byte d3 (cellOffset p + 2 * j) =
      (if j < i then cell_ptr p d j else if j = i then idx else cell_ptr p d (j - 1))"
    proof cases
      case 1
      then have "get2byte d3 (cellOffset p + 2 * j) = get2byte d (cellOffset p + 2 * j)"
        using in_ptrs assms(2,3) by (intro get2byte_cong) (simp_all add: d3 d2 d1 P_def gap_start_def)
      with 1 show ?thesis by (simp add: cell_ptr_def)
    next
      case 2
      then have "get2byte d3 P = idx" using assms(4) by (simp add: d3_def)
      with 2 show ?thesis by (simp add: P_def mult.commute)
    next
      case 3
      have "d3 (cellOffset p + 2 * j + k) = d (cellOffset p + 2 * (j - 1) + k)" if "k \<le> 1" for k
      proof -
        have "cellOffset p + 2 * j + k - 2 = cellOffset p + 2 * (j - 1) + k" using 3 by (cases j) simp_all
        moreover have "cellOffset p + 2 * (j - 1) + k < idx" using 3 that in_ptrs assms(2) by simp
        ultimately show ?thesis using 3 that in_ptrs P j by (simp add: d3 d2 d1 P_def gap_start_def)
      qed
      from this [of 0] this [of 1] 3 show ?thesis by (simp add: cell_ptr_def get2byte_def)
    qed
    ultimately show ?thesis by simp
  qed
  have "get2byte d3 (hdrOffset p + 3) = get2byte d (hdrOffset p + 3)"
    using P assms(1,2) by (intro get2byte_cong) (simp_all add: d3 d2 d1 gap_start_def)
  from count_up [OF this [unfolded assms(6)] assms(5) refl]
  show "get2byte (put_cell p i idx pcell d) (hdrOffset p + 3) = nCell p + 1"
    unfolding eq by (simp add: numeral_eq_Suc)
qed

text \<open>An insertion into the list of cells, once the space is allocated.\<close>

lemma put_cell_ok:
  assumes pg: "bpage_ok p fl" and al: "allocated p (aData p) d idx (length pcell)" and i: "i \<le> nCell p"
    and len: "cellSizeOf (xCellSize p) p (\<lambda>k. pcell ! k) = length pcell" "4 \<le> length pcell"
    and q: "q = p\<lparr>aData := put_cell p i idx pcell d, nCell := nCell p + 1, nFree := nFree p - int (2 + length pcell)\<rparr>"
  shows "\<exists>fl'. bpage_ok q fl'"
    "contents_of q (aData q) = take i (contents_of p (aData p)) @ pcell # drop i (contents_of p (aData p))"
    "\<And>j. j < hdrOffset p \<or> j = hdrOffset p \<or> usableSize (pBt p) \<le> j \<Longrightarrow> aData q j = aData p j"
proof -
  define d5 where "d5 = put_cell p i idx pcell d"
  note ok = bpage_okD [OF pg]
  obtain fl' where sp: "space_ok d (hdrOffset p) (usableSize (pBt p)) ((idx, length pcell) # regions_of p d) fl'"
    and al: "contents_of p d = contents_of p (aData p)" "gap_start p + 2 \<le> content_start d (hdrOffset p)"
      "get2byte d (hdrOffset p + 3) = nCell p"
      "\<And>i. i < hdrOffset p \<or> i = hdrOffset p \<or> usableSize (pBt p) \<le> i \<Longrightarrow> d i = aData p i"
    using al unfolding allocated_def by blast
  note s = space_okD [OF sp]
  have idx: "content_start d (hdrOffset p) \<le> idx" "idx + length pcell \<le> usableSize (pBt p)" using s(8) by simp_all
  have gap: "gap_start p + 2 \<le> idx" "idx < 65536" "nCell p + 1 < 65536" "hdrOffset p + 8 \<le> cellOffset p"
    using idx al(2) s(2,3) len(2) ok(3) by (simp_all add: gap_start_def)
  note put = put_cell_bytes [OF gap(4,1) i gap(2,3) al(3), where pcell = pcell, folded d5_def]
  have far: "d5 j = d j" if "content_start d (hdrOffset p) \<le> j" "j < idx \<or> idx + length pcell \<le> j" for j
    using that al(2) gap(4) by (intro put(1)) (auto simp: gap_start_def)
  have in_rs: "d5 j = d j" if r: "r \<in> set (regions_of p d)" "fst r \<le> j" "j < fst r + snd r" for r j
  proof -
    have "apart (idx, length pcell) r" "content_start d (hdrOffset p) \<le> fst r" using s(6,8) r(1) by simp_all
    then show ?thesis using r(2,3) by (intro far) (auto simp: apart_def)
  qed
  have sz: "cellSizeAt p d5 idx = length pcell"
  proof -
    have "cell_len (xCellSize p) p (at_addr d5 idx) = cell_len (xCellSize p) p (\<lambda>k. pcell ! k)"
      using len(1) put(2) by (intro cell_len_cong [OF ok(11)]) (simp add: cell_size_len [OF ok(11)] at_addr_def)
    then show ?thesis using len(1) by (simp add: cellSizeAt_len [OF ok(11)] cell_size_len [OF ok(11)])
  qed
  have old: "cell_at p d5 j = (if j < i then cell_at p d j else if j = i then (idx, length pcell) else cell_at p d (j - 1))"
    if j: "j \<le> nCell p" for j
  proof (cases "j = i")
    case True
    then show ?thesis using put(3) [OF j] sz by (simp add: cell_at_def)
  next
    case False
    define k where "k = (if j < i then j else j - 1)"
    have k: "k < nCell p" "cell_ptr p d5 j = cell_ptr p d k" using False j i put(3) [OF j] by (auto simp: k_def)
    then have "cell_at p d k \<in> set (regions_of p d)" by (simp add: regions_of_def)
    then have "cellSizeAt p d5 (cell_ptr p d5 j) = cellSizeAt p d (cell_ptr p d k)"
      unfolding k(2) by (intro cellSizeAt_moved [OF ok(11)] in_rs) (auto simp: cell_at_def)
    with k(2) False show ?thesis by (simp add: cell_at_def k_def)
  qed
  have rq: "regions_of q d5 = take i (regions_of p d) @ (idx, length pcell) # drop i (regions_of p d)"
  proof (rule nth_equalityI)
    fix j assume "j < length (regions_of q d5)"
    then have "j \<le> nCell p" by (simp add: regions_of_def q)
    note old = old [OF this]
    consider "j < i" | "j = i" | k where "j = Suc (i + k)" by (metis less_imp_Suc_add linorder_less_linear)
    then show "regions_of q d5 ! j = (take i (regions_of p d) @ (idx, length pcell) # drop i (regions_of p d)) ! j"
      using old i \<open>j \<le> nCell p\<close> by cases (simp_all add: regions_of_def q nth_append del: upt_Suc)
  qed (use i in \<open>simp add: regions_of_def q\<close>)
  have same: "bytes_of d5 r = bytes_of d r" if "r \<in> set (regions_of p d)" for r
    using in_rs [OF that] by (intro bytes_of_eqI) simp_all
  have new: "bytes_of d5 (idx, length pcell) = pcell"
    by (rule nth_equalityI) (simp_all add: bytes_of_def put(2))
  have "map (bytes_of d5) (regions_of p d) = contents_of p d" unfolding contents_of_def using same by (intro map_cong) simp_all
  then have ct: "contents_of q d5 = take i (contents_of p d) @ pcell # drop i (contents_of p d)"
    unfolding contents_of_def [of q] rq by (simp add: new take_map [symmetric] drop_map [symmetric])
  then show "contents_of q (aData q) = take i (contents_of p (aData p)) @ pcell # drop i (contents_of p (aData p))"
    using al(1) by (simp add: q d5_def)
  show "aData q j = aData p j" if "j < hdrOffset p \<or> j = hdrOffset p \<or> usableSize (pBt p) \<le> j" for j
  proof -
    have "d5 j = d j" using that idx gap s(2) al(2) by (intro put(1)) (auto simp: gap_start_def)
    then show ?thesis using al(4) [OF that] by (simp add: q d5_def)
  qed
  have sp5: "space_ok d5 (hdrOffset p) (usableSize (pBt p)) (regions_of q d5) fl'"
    "content_start d5 (hdrOffset p) = content_start d (hdrOffset p)"
  proof -
    have f1: "d5 j = d j" if "j \<in> {hdrOffset p + 1, hdrOffset p + 2, hdrOffset p + 5, hdrOffset p + 6, hdrOffset p + 7}" for j
      using that gap by (intro put(1)) (auto simp: gap_start_def)
    have f2: "d5 j = d j" if "f \<in> set fl'" "fst f \<le> j" "j < fst f + snd f" for f j
    proof -
      have "apart (idx, length pcell) f" "content_start d (hdrOffset p) + 1 \<le> fst f"
        using s(7) spaced_all [OF s(5)] that(1) by simp_all
      then show ?thesis using that(2,3) by (intro far) (auto simp: apart_def)
    qed
    have "space_ok d (hdrOffset p) (usableSize (pBt p)) (take i (regions_of p d) @ (idx, length pcell) # drop i (regions_of p d)) fl'"
      using sp by (intro space_ok_move) simp
    from space_ok_frame [OF this, of d5] f1 f2 show "space_ok d5 (hdrOffset p) (usableSize (pBt p)) (regions_of q d5) fl'"
      "content_start d5 (hdrOffset p) = content_start d (hdrOffset p)"
      unfolding rq by blast+
  qed
  have free: "nFree q = int (usableSize (pBt q)) - int (cellOffset q) - (\<Sum>c\<leftarrow>contents_of q (aData q). int (length c) + 2)"
  proof -
    have "(\<Sum>c\<leftarrow>take i cs @ pcell # drop i cs. int (length c) + 2) = (\<Sum>c\<leftarrow>cs. int (length c) + 2) + (int (length pcell) + 2)"
      for cs :: "u8 list list" by (subst (3) append_take_drop_id [of i cs, symmetric]) (simp del: append_take_drop_id)
    from this [of "contents_of p (aData p)"] show ?thesis
      using page_nFree [OF pg] ct al(1) by (simp add: q d5_def [symmetric] del: sum_list_append map_append)
  qed
  have "bpage_ok q fl'"
  proof (rule bpage_okI)
    show "methods_ok q" using ok(1) unfolding q by (simp add: methods_ok_def page_limits_def)
    show "space_ok (aData q) (hdrOffset q) (usableSize (pBt q)) (regions_of q (aData q)) fl'"
      using sp5(1) by (simp add: q d5_def)
    show "gap_start q \<le> content_start (aData q) (hdrOffset q)"
      using sp5(2) al(2) by (simp add: q d5_def gap_start_def)
    show "get2byte (aData q) (hdrOffset q + 3) = nCell q" using put(4) by (simp add: q d5_def)
  qed (use ok free in \<open>simp_all add: q\<close>)
  then show "\<exists>fl'. bpage_ok q fl'" ..
qed

lemma insert_on_page_ok:
  assumes pg: "bpage_ok p fl" and i: "i \<le> nCell p" and room: "int (length pcell) + 2 \<le> nFree p"
    and len: "cellSizeOf (xCellSize p) p (\<lambda>k. pcell ! k) = length pcell" "4 \<le> length pcell"
  obtains d n fl' where "insert_on_page SQLITE_OK SQLITE_OK p i pcell =
      (SQLITE_OK, p\<lparr>aData := d, nCell := nCell p + 1, nFree := nFree p - int (2 + length pcell)\<rparr>)"
    "bpage_ok (p\<lparr>aData := d, nCell := nCell p + 1, nFree := nFree p - int (2 + length pcell)\<rparr>) fl'"
    "contents_of (p\<lparr>nCell := nCell p + 1\<rparr>) d = take i (contents_of p (aData p)) @ pcell # drop i (contents_of p (aData p))"
    "\<And>j. j < hdrOffset p \<or> j = hdrOffset p \<or> usableSize (pBt p) \<le> j \<Longrightarrow> d j = aData p j"
proof -
  obtain idx d' where al: "allocateSpace p (length pcell) = (SQLITE_OK, idx, p\<lparr>aData := d'\<rparr>)"
    "allocated p (aData p) d' idx (length pcell)"
    using allocateSpace_ok [OF pg len(2) room] by blast
  define q where "q = p\<lparr>aData := put_cell p i idx pcell d', nCell := nCell p + 1, nFree := nFree p - int (2 + length pcell)\<rparr>"
  note put = put_cell_ok [OF pg al(2) i len q_def]
  have "length pcell + 2 < 65536"
  proof -
    obtain fx where "space_ok d' (hdrOffset p) (usableSize (pBt p)) ((idx, length pcell) # regions_of p d') fx"
      using al(2) unfolding allocated_def by blast
    from space_okD(1,3,8) [OF this] show ?thesis by simp
  qed
  then have "to_u16 (2 + length pcell) = 2 + length pcell" by (simp add: to_u16_def)
  with al(1) have "insert_on_page SQLITE_OK SQLITE_OK p i pcell = (SQLITE_OK, q)"
    by (simp add: insert_on_page_def Let_def q_def put_cell_def)
  moreover obtain fl' where "bpage_ok q fl'" using put(1) by blast
  moreover have "contents_of (p\<lparr>nCell := nCell p + 1\<rparr>) (aData q) = contents_of q (aData q)"
    by (simp add: q_def contents_of_def regions_of_def)
  ultimately show ?thesis using put(2,3) by (intro that [of "aData q" fl']) (simp_all add: q_def)
qed

end
