(* ===== verification/Btree_Drop.thy ===== *)
theory Btree_Drop
  imports Btree_Insert
begin

text \<open>Deletion on a page that is in order: the space is freed and the cell leaves the list.\<close>

section \<open>Deletion\<close>

lemma empty_space:
  assumes "0 < u" "u \<le> 65536" "hdr + 8 \<le> u" "get2byte d (hdr + 1) = 0" "d (hdr + 7) = 0" "content_start d hdr = u"
  shows "space_ok d hdr u [] []"
  using assms by (intro space_okI) (simp_all add: chain_def frag_def)

lemma dropCell_ok:
  assumes pg: "bpage_ok p fl" and i: "i < nCell p"
  obtains d fl' where "dropCell p i (length (contents_of p (aData p) ! i)) SQLITE_OK =
      (SQLITE_OK, p\<lparr>aData := d, nCell := nCell p - 1, nFree := nFree p + int (2 + length (contents_of p (aData p) ! i))\<rparr>)"
    "bpage_ok (p\<lparr>aData := d, nCell := nCell p - 1, nFree := nFree p + int (2 + length (contents_of p (aData p) ! i))\<rparr>) fl'"
    "contents_of (p\<lparr>nCell := nCell p - 1\<rparr>) d = take i (contents_of p (aData p)) @ drop (Suc i) (contents_of p (aData p))"
    "\<And>j. j < hdrOffset p \<or> j = hdrOffset p \<or> usableSize (pBt p) \<le> j \<Longrightarrow> d j = aData p j"
proof -
  note result = that
  define d hdr u rs where "d = aData p" and "hdr = hdrOffset p" and "u = usableSize (pBt p)" and "rs = regions_of p d"
  note ok = bpage_okD [OF pg, folded d_def, folded hdr_def u_def rs_def]
  define a n where "a = cell_ptr p d i" and "n = cellSizeAt p d a"
  have at: "rs ! i = (a, n)" "length rs = nCell p" "rs = take i rs @ (a, n) # drop (Suc i) rs"
    using i id_take_nth_drop [of i rs] by (simp_all add: rs_def regions_of_def cell_at_def a_def n_def)
  have n: "length (contents_of p (aData p) ! i) = n"
    using at(1,2) i by (simp add: contents_of_def bytes_of_def rs_def d_def)
  define rest where "rest = take i rs @ drop (Suc i) rs"
  have sp: "space_ok (aData p) (hdrOffset p) (usableSize (pBt p)) (take i rs @ (a, n) # drop (Suc i) rs) fl"
    using ok(5) at(3) by (simp add: d_def hdr_def u_def)
  from freeSpace_ok [OF sp]
  obtain d' fl' where free: "freeSpace p a n = (SQLITE_OK, p\<lparr>aData := d', nFree := nFree p + int n\<rparr>)"
    and sp': "space_ok d' hdr u rest fl'" "content_start d hdr \<le> content_start d' hdr" "leaves_cells d d' hdr u rest"
    by (auto simp: d_def hdr_def u_def rest_def)
  note s = space_okD [OF sp]
  note s' = space_okD [OF sp'(1)]
  have an: "a + n \<le> u" using s(8) by (simp add: u_def)
  define q where "q = (\<lambda>d. p\<lparr>aData := d, nCell := nCell p - 1, nFree := nFree p + int (2 + n)\<rparr>)"
  have goal: thesis if "dropCell p i n SQLITE_OK = (SQLITE_OK, q x)"
    "space_ok x hdr u (regions_of (q x) x) fx" "content_start d' hdr \<le> content_start x hdr"
    "get2byte x (hdr + 3) = nCell p - 1" "nCell p = 1 \<Longrightarrow> content_start x hdr = u"
    "contents_of (q x) x = take i (contents_of p d) @ drop (Suc i) (contents_of p d)"
    "\<And>j. j \<le> hdr \<or> u \<le> j \<Longrightarrow> x j = d' j" for x fx
  proof -
    note that' = that
    have free: "nFree (q x) = int u - int (cellOffset p) - (\<Sum>c\<leftarrow>contents_of (q x) x. int (length c) + 2)"
    proof -
      have "length (contents_of p d) = nCell p" by (simp add: contents_of_def regions_of_def)
      then have cs: "contents_of p d = take i (contents_of p d) @ contents_of p d ! i # drop (Suc i) (contents_of p d)"
        using i by (intro id_take_nth_drop) simp
      have "(\<Sum>c\<leftarrow>contents_of p d. int (length c) + 2) = (\<Sum>c\<leftarrow>contents_of (q x) x. int (length c) + 2) + (int n + 2)"
        unfolding that(6) using n by (subst cs) (simp add: d_def)
      then show ?thesis using page_nFree [OF pg] by (simp add: q_def d_def u_def)
    qed
    have "bpage_ok (q x) fx"
    proof (rule bpage_okI)
      show "methods_ok (q x)" using ok(1) unfolding q_def by (simp add: methods_ok_def page_limits_def)
      show "gap_start (q x) \<le> content_start (aData (q x)) (hdrOffset (q x))"
        using that(3) ok(6) sp'(2) by (simp add: q_def gap_start_def hdr_def)
      show "nFree (q x) = int (usableSize (pBt (q x))) - int (cellOffset (q x)) -
          (\<Sum>c\<leftarrow>contents_of (q x) (aData (q x)). int (length c) + 2)"
        using free by (simp add: q_def u_def)
      show "content_start (aData (q x)) (hdrOffset (q x)) = usableSize (pBt (q x))" if "nCell (q x) = 0"
        using that'(5) that i by (simp add: q_def hdr_def u_def)
    qed (use that ok in \<open>simp_all add: q_def hdr_def u_def\<close>)
    moreover have "x j = aData p j" if j: "j < hdrOffset p \<or> j = hdrOffset p \<or> usableSize (pBt p) \<le> j" for j
    proof -
      have "d' j = d j" using sp'(3) j s(1) by (auto simp: leaves_cells_def d_def hdr_def u_def)
      with that'(7) j show ?thesis by (auto simp: d_def hdr_def u_def)
    qed
    moreover have "contents_of (p\<lparr>nCell := nCell p - 1\<rparr>) x = contents_of (q x) x"
      by (simp add: q_def contents_of_def regions_of_def)
    ultimately show thesis using that(1,6) n by (intro result [of x fx]) (simp_all add: q_def d_def)
  qed
  have low: "d' j = d j" if "j < content_start d hdr" "j \<notin> {hdr + 1, hdr + 2, hdr + 5, hdr + 6, hdr + 7}" for j
    using sp'(3) that by (auto simp: leaves_cells_def)
  have drop: "dropCell p i n SQLITE_OK =
     (let d0 = d' in if nCell p - 1 = 0 then
        let d1 = memset d0 (hdr + 1) 0 4; d2 = d1(hdr + 7 := 0); d3 = put2byte d2 (hdr + 5) u
        in (SQLITE_OK, p\<lparr>nCell := nCell p - 1, aData := d3, nFree := int u - int hdr - int (childPtrSize p) - 8\<rparr>)
      else
        let d1 = memmove d0 (cellOffset p + 2 * i) (cellOffset p + 2 * i + 2) (2 * (nCell p - 1 - i));
            d2 = put2byte d1 (hdr + 3) (nCell p - 1)
        in (SQLITE_OK, p\<lparr>nCell := nCell p - 1, aData := d2, nFree := nFree p + int n + 2\<rparr>))"
    using free an by (simp add: dropCell_def Let_def a_def [unfolded cell_ptr_def, symmetric] d_def [symmetric] hdr_def [symmetric] u_def [symmetric])
  show thesis
  proof (cases "nCell p - 1 = 0")
    case True
    define x where "x = put2byte ((memset d' (hdr + 1) 0 4)(hdr + 7 := 0)) (hdr + 5) u"
    have u: "0 < u" "u \<le> 65536" "hdr + 8 \<le> u" using s' by auto
    have zero: "x (hdr + 1) = 0" "x (hdr + 2) = 0" "x (hdr + 3) = 0" "x (hdr + 4) = 0" "x (hdr + 7) = 0"
      by (simp_all add: x_def put2byte_def memset_def)
    have x: "get2byte x (hdr + 1) = 0" "get2byte x (hdr + 3) = 0"
      using zero by (simp_all add: get2byte_def numeral_eq_Suc)
    have brk: "content_start x hdr = u" unfolding content_start_def x_def using u by (intro get2byteNotZero_put2byte)
    have empty: "regions_of (q x) x = []" "contents_of (q x) x = []" using True by (simp_all add: regions_of_def contents_of_def q_def)
    have "i = 0" "length (contents_of p d) = 1" using True i by (simp_all add: contents_of_def regions_of_def)
    moreover have "nFree p + int (2 + n) = int u - int hdr - int (childPtrSize p) - 8"
    proof -
      obtain c where "contents_of p d = [c]" using \<open>length (contents_of p d) = 1\<close> by (cases "contents_of p d") auto
      then have "(\<Sum>c\<leftarrow>contents_of p d. int (length c) + 2) = int n + 2" using n \<open>i = 0\<close> by (simp add: d_def)
      then show ?thesis using page_nFree [OF pg] ok(3) by (simp add: d_def u_def)
    qed
    ultimately show ?thesis
      using True x brk empty u empty_space [OF u x(1) zero(5) brk] s'(1,2) drop i ok(3)
      by (intro goal [of x "[]"]) (auto simp: Let_def q_def x_def put2byte_def memset_def)
  next
    case False
    define x where "x = put2byte (memmove d' (cellOffset p + 2 * i) (cellOffset p + 2 * i + 2) (2 * (nCell p - 1 - i))) (hdr + 3) (nCell p - 1)"
    have P: "hdr + 8 \<le> cellOffset p" "cellOffset p + 2 * nCell p \<le> content_start d hdr" "content_start d hdr \<le> content_start d' hdr"
      "nCell p - 1 < 65536"
      using ok(3,6) sp'(2) s'(2,3) by (simp_all add: hdr_def gap_start_def)
    have x: "x j = (if j = hdr + 3 then word_of_nat ((nCell p - 1) div 256) else if j = hdr + 4 then word_of_nat (nCell p - 1)
        else if cellOffset p + 2 * i \<le> j \<and> j < cellOffset p + 2 * (nCell p - 1) then d' (j + 2) else d' j)" for j
    proof -
      define m where "m = memmove d' (cellOffset p + 2 * i) (cellOffset p + 2 * i + 2) (2 * (nCell p - 1 - i))"
      have "x j = (if j = hdr + 3 then word_of_nat ((nCell p - 1) div 256) else if j = hdr + 4 then word_of_nat (nCell p - 1) else m j)"
        unfolding x_def m_def [symmetric] put2byte_def by simp
      moreover have "cellOffset p + 2 * i + 2 * (nCell p - 1 - i) = cellOffset p + 2 * (nCell p - 1)" using i by simp
      then have "m j = (if cellOffset p + 2 * i \<le> j \<and> j < cellOffset p + 2 * (nCell p - 1) then d' (j + 2) else d' j)"
        unfolding m_def memmove_def memcpy_def by (auto intro!: arg_cong [where f = d'])
      ultimately show ?thesis by (simp only:)
    qed
    have far: "x j = d' j" if "content_start d hdr \<le> j \<or> j < cellOffset p \<and> j \<notin> {hdr + 3, hdr + 4}" for j
      using that P i by (auto simp: x)
    have ptr: "cell_ptr p x j = cell_ptr p d (if j < i then j else Suc j)" if j: "j < nCell p - 1" for j
    proof -
      define k where "k = (if j < i then j else Suc j)"
      have "x (cellOffset p + 2 * j + m) = d (cellOffset p + 2 * k + m)" if "m \<le> 1" for m
      proof -
        have "x (cellOffset p + 2 * j + m) = d' (cellOffset p + 2 * k + m)"
          using that j P(1) i by (auto simp: x k_def intro!: arg_cong [where f = d'])
        also have "\<dots> = d (cellOffset p + 2 * k + m)"
          using that j P(1,2) i by (intro low) (auto simp: k_def)
        finally show ?thesis .
      qed
      from this [of 0] this [of 1] show ?thesis by (simp add: cell_ptr_def get2byte_def k_def)
    qed
    have rest: "r \<in> set rest \<Longrightarrow> fst r \<le> j \<Longrightarrow> j < fst r + snd r \<Longrightarrow> x j = d j" for r j
      using sp'(3) s'(8) P(3) by (subst far) (force simp: leaves_cells_def)+
    have at': "cell_at p x j = rs ! (if j < i then j else Suc j)" if j: "j < nCell p - 1" for j
    proof -
      define k where "k = (if j < i then j else Suc j)"
      have k: "k < nCell p" "k \<noteq> i" using j by (auto simp: k_def)
      then have r: "rs ! k = cell_at p d k" by (simp add: rs_def regions_of_def)
      have "rs ! k \<in> set rest"
      proof -
        have "rest ! j = rs ! k" "j < length rest" using j i at(2) by (auto simp: rest_def k_def nth_append)
        then show ?thesis by (metis nth_mem)
      qed
      then have "cellSizeAt p x (cell_ptr p x j) = cellSizeAt p d (cell_ptr p d k)"
        unfolding r ptr [OF j, folded k_def] by (intro cellSizeAt_moved [OF ok(11)] rest) (auto simp: cell_at_def)
      then show ?thesis using r ptr [OF j] by (simp add: cell_at_def k_def)
    qed
    have rq: "regions_of (q x) x = rest"
      by (rule nth_equalityI) (use i at(2) at' in \<open>auto simp: regions_of_def q_def rest_def nth_append\<close>)
    show ?thesis
    proof (rule goal)
      show "contents_of (q x) x = take i (contents_of p d) @ drop (Suc i) (contents_of p d)"
      proof -
        have "map (bytes_of x) rest = map (bytes_of d) rest"
          using rest by (intro map_cong bytes_of_eqI) auto
        then show ?thesis unfolding contents_of_def rq unfolding rest_def rs_def take_map drop_map by simp
      qed
      have "\<forall>j\<in>{hdr + 1, hdr + 2, hdr + 5, hdr + 6, hdr + 7}. x j = d' j" using P(1) by (auto intro!: far)
      moreover have "\<forall>f\<in>set fl'. \<forall>j. fst f \<le> j \<and> j < fst f + snd f \<longrightarrow> x j = d' j"
        using spaced_all [OF s'(5)] P(3) by (auto intro!: far)
      ultimately have "space_ok x hdr u rest fl'" "content_start x hdr = content_start d' hdr"
        using space_ok_frame [OF sp'(1)] by blast+
      then show "space_ok x hdr u (regions_of (q x) x) fl'" "content_start d' hdr \<le> content_start x hdr" by (simp_all add: rq)
      show "get2byte x (hdr + 3) = nCell p - 1" unfolding x_def using P(4) by (rule get2byte_put2byte)
      show "dropCell p i n SQLITE_OK = (SQLITE_OK, q x)" using False by (simp add: drop Let_def q_def x_def)
      show "x j = d' j" if "j \<le> hdr \<or> u \<le> j" for j
        using that P(1) s'(2) P(2,3) by (intro far) auto
    qed (use False in simp)
  qed
qed

end
