(* ===== verification/Btree_Run.thy ===== *)
theory Btree_Run
  imports Btree_Drop
begin

text \<open>
  Pages from \<open>zeroPage\<close> on: sequences of insertions and deletions implement the same sequence on a list
  of cells, and a page that they make is read back from its bytes.
\<close>

section \<open>Operations on a page and on a list\<close>

text \<open>
  The operations as \<open>sqlite3BtreeInsert\<close> and \<open>sqlite3BtreeDelete\<close> call them: a deletion takes the size
  of the cell from the parser.
\<close>

datatype cell_op = Insert nat "u8 list" | Drop nat

fun page_step :: "cell_op \<Rightarrow> MemPage \<Rightarrow> rc \<times> MemPage" where
  "page_step (Insert i c) p = insertCellFast SQLITE_OK SQLITE_OK p i c (length c)"
| "page_step (Drop i) p =
     dropCell p i (nSize (btreeParseCell p i)) SQLITE_OK"

primrec run_page :: "cell_op list \<Rightarrow> MemPage \<Rightarrow> rc \<times> MemPage" where
  "run_page [] p = (SQLITE_OK, p)"
| "run_page (x # xs) p = (case page_step x p of (r, p) \<Rightarrow> if r \<noteq> SQLITE_OK then (r, p) else run_page xs p)"

fun list_step :: "cell_op \<Rightarrow> u8 list list \<Rightarrow> u8 list list" where
  "list_step (Insert i c) cs = take i cs @ c # drop i cs"
| "list_step (Drop i) cs = take i cs @ drop (Suc i) cs"

text \<open>What a cell takes of a page, and which operations are possible: the index exists, the bytes are one cell of the page's kind and it fits.\<close>

definition bytes_used :: "u8 list list \<Rightarrow> nat" where
  "bytes_used cs = (\<Sum>c\<leftarrow>cs. length c + 2)"

definition capacity :: "MemPage \<Rightarrow> nat" where
  "capacity p = usableSize (pBt p) - cellOffset p"

fun possible :: "MemPage \<Rightarrow> cell_op \<Rightarrow> u8 list list \<Rightarrow> bool" where
  "possible p (Insert i c) cs \<longleftrightarrow>
     i \<le> length cs \<and> cellSizeOf (xCellSize p) p (\<lambda>k. c ! k) = length c \<and>
     bytes_used cs + length c + 2 \<le> capacity p"
| "possible p (Drop i) cs \<longleftrightarrow> i < length cs"

primrec possible_all :: "MemPage \<Rightarrow> cell_op list \<Rightarrow> u8 list list \<Rightarrow> bool" where
  "possible_all p [] cs \<longleftrightarrow> True"
| "possible_all p (x # xs) cs \<longleftrightarrow> possible p x cs \<and> possible_all p xs (list_step x cs)"

definition page_cells :: "MemPage \<Rightarrow> u8 list list" where
  "page_cells p = contents_of p (aData p)"

section \<open>The invariant of a loaded page\<close>

text \<open>
  The fields that \<open>decodeFlags\<close> and the code around it set are those that the flag byte of the page
  gives; the size of a page is a power of two.
\<close>

definition loaded :: "nat \<Rightarrow> MemPage \<Rightarrow> bool" where
  "loaded pgno p \<longleftrightarrow>
     (\<exists>k. decodeFlags (btreePageFromDbPage (pBt p) pgno (aData p)) (unat (aData p (hdrOffset p))) = (SQLITE_OK, k) \<and>
        p = k\<lparr>maskPage := to_u16 (btPageSize (pBt p) - 1), aiOvfl := [], apOvfl := [],
              cellOffset := to_u16 (hdrOffset k + 8 + childPtrSize k), nCell := nCell p, nFree := nFree p, isInit := True\<rparr>)"

definition shared_ok :: "BtShared \<Rightarrow> bool" where
  "shared_ok b \<longleftrightarrow> bt_limits b \<and> usableSize b \<le> btPageSize b \<and> (\<exists>k\<le>16. btPageSize b = 2 ^ k)"

definition page_inv :: "nat \<Rightarrow> MemPage \<Rightarrow> bool" where
  "page_inv pgno p \<longleftrightarrow> shared_ok (pBt p) \<and> loaded pgno p \<and> (\<exists>fl. bpage_ok p fl)"

lemma decodeFlags_aData:
  "decodeFlags (p\<lparr>aData := d\<rparr>) f = (let (r, q) = decodeFlags p f in (r, q\<lparr>aData := d\<rparr>))"
  by (simp add: decodeFlags_def Let_def)

lemma btreePage_aData: "btreePageFromDbPage b pgno d' = (btreePageFromDbPage b pgno d)\<lparr>aData := d'\<rparr>"
  by (simp add: btreePageFromDbPage_def)

lemma loaded_upd:
  assumes "loaded pgno p" "d (hdrOffset p) = aData p (hdrOffset p)"
  shows "loaded pgno (p\<lparr>aData := d, nCell := n, nFree := f\<rparr>)"
proof -
  obtain k where k: "decodeFlags (btreePageFromDbPage (pBt p) pgno (aData p)) (unat (aData p (hdrOffset p))) = (SQLITE_OK, k)"
    "p = k\<lparr>maskPage := to_u16 (btPageSize (pBt p) - 1), aiOvfl := [], apOvfl := [],
       cellOffset := to_u16 (hdrOffset k + 8 + childPtrSize k), nCell := nCell p, nFree := nFree p, isInit := True\<rparr>"
    using assms(1) unfolding loaded_def by blast
  have same: "pBt k = pBt p" "hdrOffset k = hdrOffset p"
    using arg_cong [OF k(2), of pBt] arg_cong [OF k(2), of hdrOffset] by simp_all
  have "decodeFlags (btreePageFromDbPage (pBt p) pgno d) (unat (d (hdrOffset p))) = (SQLITE_OK, k\<lparr>aData := d\<rparr>)"
    using k(1) assms(2) by (subst btreePage_aData [of _ _ d "aData p"]) (simp add: decodeFlags_aData)
  moreover have "p\<lparr>aData := d, nCell := n, nFree := f\<rparr> = k\<lparr>aData := d, maskPage := to_u16 (btPageSize (pBt p) - 1), aiOvfl := [], apOvfl := [],
       cellOffset := to_u16 (hdrOffset k + 8 + childPtrSize k), nCell := n, nFree := f, isInit := True\<rparr>"
    by (subst k(2)) simp
  ultimately show ?thesis unfolding loaded_def by (intro exI [of _ "k\<lparr>aData := d\<rparr>"]) (simp add: same)
qed

lemma mask_addr:
  assumes "shared_ok (pBt p)" "maskPage p = to_u16 (btPageSize (pBt p) - 1)" "a < usableSize (pBt p)"
  shows "(maskPage p) AND a = a"
proof -
  obtain k where k: "k \<le> 16" "btPageSize (pBt p) = 2 ^ k" using assms(1) by (auto simp: shared_ok_def)
  have "(2::nat) ^ k \<le> 2 ^ 16" using k(1) by (intro power_increasing) simp_all
  then have "to_u16 (2 ^ k - 1) = 2 ^ k - 1" by (intro to_u16_id) simp
  then have "(maskPage p) AND a = take_bit k a"
    using assms(2) k(2) by (simp add: take_bit_eq_mask and.commute mask_eq_exp_minus_1)
  also have "\<dots> = a" using assms(1,3) k(2) by (intro take_bit_nat_eq_self) (simp add: shared_ok_def)
  finally show ?thesis .
qed

lemma length_page_cells: "length (page_cells p) = nCell p"
  by (simp add: page_cells_def contents_of_def regions_of_def)

lemma loaded_mask: "loaded pgno p \<Longrightarrow> maskPage p = to_u16 (btPageSize (pBt p) - 1)"
  unfolding loaded_def by (elim exE conjE) (erule ssubst, simp)

lemma used_nFree:
  "page_inv pgno p \<Longrightarrow> nFree p = int (capacity p) - int (bytes_used (page_cells p)) \<and> cellOffset p \<le> usableSize (pBt p)"
proof -
  assume "page_inv pgno p"
  then obtain fl where pg: "bpage_ok p fl" by (auto simp: page_inv_def)
  note ok = bpage_okD [OF pg]
  have "cellOffset p \<le> usableSize (pBt p)" using ok(6) space_okD(2) [OF ok(5)] by (simp add: gap_start_def)
  moreover have "int (bytes_used cs) = (\<Sum>c\<leftarrow>cs. int (length c) + 2)" for cs by (induction cs) (simp_all add: bytes_used_def)
  ultimately show ?thesis using page_nFree [OF pg] by (simp add: capacity_def page_cells_def of_nat_diff)
qed

section \<open>Refinement\<close>

lemma insert_step:
  assumes "page_inv pgno p" "possible p (Insert i c) (page_cells p)" "page_step (Insert i c) p = (r, q)"
  shows "r = SQLITE_OK \<and> page_inv pgno q \<and> page_cells q = list_step (Insert i c) (page_cells p) \<and>
    cellSizeOf (xCellSize q) q = cellSizeOf (xCellSize p) p \<and> capacity q = capacity p \<and> hdrOffset q = hdrOffset p \<and> pBt q = pBt p \<and>
    (\<forall>j. j < hdrOffset p \<or> usableSize (pBt p) \<le> j \<longrightarrow> aData q j = aData p j)"
proof -
  obtain fl where pg: "bpage_ok p fl" using assms(1) by (auto simp: page_inv_def)
  have i: "i \<le> nCell p" and len0: "cellSizeOf (xCellSize p) p (\<lambda>k. c ! k) = length c"
    using assms(2) by (simp_all add: length_page_cells)
  then have len: "cellSizeOf (xCellSize p) p (\<lambda>k. c ! k) = length c" "4 \<le> length c"
    using cell_len_bounds(1) [OF bpage_okD(11) [OF pg]] by (simp_all add: cell_size_len [OF bpage_okD(11) [OF pg], symmetric]) (metis len0)
  have room: "int (length c) + 2 \<le> nFree p" using used_nFree [OF assms(1)] assms(2) by simp
  obtain d n fl' where ins: "insert_on_page SQLITE_OK SQLITE_OK p i c =
      (SQLITE_OK, p\<lparr>aData := d, nCell := nCell p + 1, nFree := nFree p - int (2 + length c)\<rparr>)"
    "bpage_ok (p\<lparr>aData := d, nCell := nCell p + 1, nFree := nFree p - int (2 + length c)\<rparr>) fl'"
    "contents_of (p\<lparr>nCell := nCell p + 1\<rparr>) d = take i (contents_of p (aData p)) @ c # drop i (contents_of p (aData p))"
    "\<And>j. j < hdrOffset p \<or> j = hdrOffset p \<or> usableSize (pBt p) \<le> j \<Longrightarrow> d j = aData p j"
    using insert_on_page_ok [OF pg i room len] by blast
  define q' where "q' = p\<lparr>aData := d, nCell := nCell p + 1, nFree := nFree p - int (2 + length c)\<rparr>"
  have q: "r = SQLITE_OK" "q = q'" using assms(3) room ins(1) by (auto simp: insertCellFast_def q'_def)
  have "page_cells q' = contents_of (p\<lparr>nCell := nCell p + 1\<rparr>) d" by (simp add: page_cells_def q'_def contents_of_def regions_of_def)
  moreover have "loaded pgno q'" using assms(1) ins(4) unfolding q'_def by (intro loaded_upd) (simp_all add: page_inv_def)
  moreover have "page_inv pgno q'"
    using calculation(2) assms(1) ins(2) by (auto simp: page_inv_def q'_def)
  ultimately show ?thesis using q ins(3,4) by (simp add: q'_def page_cells_def capacity_def)
qed

lemma drop_step:
  assumes "page_inv pgno p" "possible p (Drop i) (page_cells p)" "page_step (Drop i) p = (r, q)"
  shows "r = SQLITE_OK \<and> page_inv pgno q \<and> page_cells q = list_step (Drop i) (page_cells p) \<and>
    cellSizeOf (xCellSize q) q = cellSizeOf (xCellSize p) p \<and> capacity q = capacity p \<and> hdrOffset q = hdrOffset p \<and> pBt q = pBt p \<and>
    (\<forall>j. j < hdrOffset p \<or> usableSize (pBt p) \<le> j \<longrightarrow> aData q j = aData p j)"
proof -
  obtain fl where pg: "bpage_ok p fl" using assms(1) by (auto simp: page_inv_def)
  note ok = bpage_okD [OF pg]
  have i: "i < nCell p" using assms(2) by (simp add: length_page_cells)
  have "cell_at p (aData p) i \<in> set (regions_of p (aData p))" using i by (simp add: regions_of_def)
  then have "cell_ptr p (aData p) i < usableSize (pBt p)"
    using space_okD(8) [OF ok(5)] by (fastforce simp: cell_at_def)
  moreover have "maskPage p = to_u16 (btPageSize (pBt p) - 1)"
    using assms(1) unfolding page_inv_def by (intro loaded_mask) blast
  ultimately have "findCell p i = cell_ptr p (aData p) i"
    using assms(1) unfolding findCell_def cell_ptr_def by (intro mask_addr) (simp_all add: page_inv_def)
  then have sz: "nSize (btreeParseCell p i) = length (contents_of p (aData p) ! i)"
    using i by (simp add: btreeParseCell_def parsed_size [OF ok(1)] contents_of_def regions_of_def bytes_of_def cell_at_def cellSizeAt_len [OF ok(11)])
  define n where "n = length (contents_of p (aData p) ! i)"
  obtain d fl' where drop: "dropCell p i n SQLITE_OK = (SQLITE_OK, p\<lparr>aData := d, nCell := nCell p - 1, nFree := nFree p + int (2 + n)\<rparr>)"
    "bpage_ok (p\<lparr>aData := d, nCell := nCell p - 1, nFree := nFree p + int (2 + n)\<rparr>) fl'"
    "contents_of (p\<lparr>nCell := nCell p - 1\<rparr>) d = take i (contents_of p (aData p)) @ drop (Suc i) (contents_of p (aData p))"
    "\<And>j. j < hdrOffset p \<or> j = hdrOffset p \<or> usableSize (pBt p) \<le> j \<Longrightarrow> d j = aData p j"
    unfolding n_def using dropCell_ok [OF pg i] by blast
  define q' where "q' = p\<lparr>aData := d, nCell := nCell p - 1, nFree := nFree p + int (2 + n)\<rparr>"
  have q: "r = SQLITE_OK" "q = q'" using assms(3) sz drop(1) by (auto simp: n_def [symmetric] q'_def)
  have "page_cells q' = contents_of (p\<lparr>nCell := nCell p - 1\<rparr>) d" by (simp add: page_cells_def q'_def contents_of_def regions_of_def)
  moreover have "loaded pgno q'" using assms(1) drop(4) unfolding q'_def by (intro loaded_upd) (simp_all add: page_inv_def)
  moreover have "page_inv pgno q'"
    using calculation(2) assms(1) drop(2) by (auto simp: page_inv_def q'_def)
  ultimately show ?thesis using q drop(3,4) by (simp add: q'_def page_cells_def capacity_def)
qed

lemma page_step_ok:
  assumes "page_inv pgno p" "possible p x (page_cells p)" "page_step x p = (r, q)"
  shows "r = SQLITE_OK \<and> page_inv pgno q \<and> page_cells q = list_step x (page_cells p) \<and>
    cellSizeOf (xCellSize q) q = cellSizeOf (xCellSize p) p \<and> capacity q = capacity p \<and> hdrOffset q = hdrOffset p \<and> pBt q = pBt p \<and>
    (\<forall>j. j < hdrOffset p \<or> usableSize (pBt p) \<le> j \<longrightarrow> aData q j = aData p j)"
proof (cases x)
  case (Insert i c)
  show ?thesis using insert_step [OF assms(1) assms(2,3) [unfolded Insert]] unfolding Insert .
next
  case (Drop i)
  show ?thesis using drop_step [OF assms(1) assms(2,3) [unfolded Drop]] unfolding Drop .
qed

lemma run_page_ok:
  assumes "page_inv pgno p" "possible_all p xs (page_cells p)" "run_page xs p = (r, q)"
  shows "r = SQLITE_OK \<and> page_inv pgno q \<and> page_cells q = fold list_step xs (page_cells p) \<and>
    capacity q = capacity p \<and> hdrOffset q = hdrOffset p \<and> pBt q = pBt p \<and>
    (\<forall>j. j < hdrOffset p \<or> usableSize (pBt p) \<le> j \<longrightarrow> aData q j = aData p j)"
  using assms
proof (induction xs arbitrary: p)
  case (Cons x xs)
  obtain r1 p1 where step: "page_step x p = (r1, p1)" by (cases "page_step x p")
  have "possible p x (page_cells p)" using Cons.prems(2) by simp
  note s = page_step_ok [OF Cons.prems(1) this step]
  have "possible p1 y cs = possible p y cs" for y cs using s by (cases y) simp_all
  then have "possible_all p1 ys cs = possible_all p ys cs" for ys cs by (induction ys arbitrary: cs) simp_all
  then have "possible_all p1 xs (page_cells p1)" using Cons.prems(2) s by simp
  moreover have "run_page xs p1 = (r, q)" using Cons.prems(3) step s by simp
  ultimately show ?case using Cons.IH [of p1] s by simp
qed simp

section \<open>Empty pages\<close>

definition zeroed :: "BtShared \<Rightarrow> nat \<Rightarrow> nat \<Rightarrow> mem \<Rightarrow> mem" where
  "zeroed b hdr flags d =
     (let d = (if fastSecure b then memset d hdr 0 (usableSize b - hdr) else d);
          d = d(hdr := word_of_nat flags);
          d = memset d (hdr + 1) 0 4;
          d = d(hdr + 7 := 0)
      in put2byte d (hdr + 5) (usableSize b))"

lemma zeroed_bytes:
  assumes "hdr + 8 \<le> usableSize b" "usableSize b \<le> 65536"
  shows "zeroed b hdr flags d hdr = word_of_nat flags" "get2byte (zeroed b hdr flags d) (hdr + 1) = 0"
    "get2byte (zeroed b hdr flags d) (hdr + 3) = 0" "zeroed b hdr flags d (hdr + 7) = 0"
    "content_start (zeroed b hdr flags d) hdr = usableSize b"
    "\<And>j. j < hdr \<or> usableSize b \<le> j \<Longrightarrow> zeroed b hdr flags d j = d j"
proof -
  have z: "zeroed b hdr flags d (hdr + 1) = 0" "zeroed b hdr flags d (hdr + 2) = 0" "zeroed b hdr flags d (hdr + 3) = 0"
    "zeroed b hdr flags d (hdr + 4) = 0"
    by (simp_all add: zeroed_def Let_def put2byte_def memset_def)
  show "zeroed b hdr flags d hdr = word_of_nat flags" "zeroed b hdr flags d (hdr + 7) = 0"
    by (simp_all add: zeroed_def Let_def put2byte_def memset_def)
  show "get2byte (zeroed b hdr flags d) (hdr + 1) = 0" "get2byte (zeroed b hdr flags d) (hdr + 3) = 0"
    using z by (simp_all add: get2byte_def numeral_eq_Suc)
  show "content_start (zeroed b hdr flags d) hdr = usableSize b"
    using assms unfolding content_start_def zeroed_def Let_def by (intro get2byteNotZero_put2byte) simp_all
  show "zeroed b hdr flags d j = d j" if "j < hdr \<or> usableSize b \<le> j" for j
    using that assms(1) by (auto simp: zeroed_def Let_def put2byte_def memset_def)
qed

lemma decodeFlags_fields:
  assumes "decodeFlags p f = (SQLITE_OK, k)"
  shows "pBt k = pBt p" "hdrOffset k = hdrOffset p" "aData k = aData p" "nFree k = nFree p" "nCell k = nCell p"
    "childPtrSize k = (if f AND PTF_LEAF = 0 then 4 else 0)"
    "decodeFlags (p\<lparr>nFree := x\<rparr>) f = (SQLITE_OK, k\<lparr>nFree := x\<rparr>)"
proof -
  have k: "k = snd (decodeFlags p f)" using assms by simp
  have "f = 2 \<or> f = 5 \<or> f = 10 \<or> f = 13" using decodeFlags_cases [OF assms] by simp
  then show "pBt k = pBt p" "hdrOffset k = hdrOffset p" "aData k = aData p" "nFree k = nFree p" "nCell k = nCell p"
    "childPtrSize k = (if f AND PTF_LEAF = 0 then 4 else 0)"
    "decodeFlags (p\<lparr>nFree := x\<rparr>) f = (SQLITE_OK, k\<lparr>nFree := x\<rparr>)"
    unfolding k by (elim disjE; simp add: decodeFlags_def PTF_defs Let_def)+
qed

lemma zeroPage_ok:
  assumes b: "shared_ok b" and flags: "flags \<in> {2, 5, 10, 13}"
    and p: "p = zeroPage (btreePageFromDbPage b pgno d) flags"
  shows "page_inv pgno p" "page_cells p = []" "pBt p = b" "hdrOffset p = (if pgno = 1 then 100 else 0)"
    "\<And>j. j < hdrOffset p \<or> usableSize b \<le> j \<Longrightarrow> aData p j = d j"
proof -
  define hdr u first D where "hdr = (if pgno = 1 then 100 else 0 :: nat)" and "u = usableSize b" and
    "first = hdr + (if flags AND PTF_LEAF = 0 then 12 else 8)" and "D = zeroed b hdr flags d"
  have u: "480 \<le> u" "u \<le> 65536" "hdr + 12 \<le> u" using b by (simp_all add: shared_ok_def bt_limits_def u_def hdr_def)
  have "hdr + 8 \<le> usableSize b" "usableSize b \<le> 65536" using u by (simp_all add: u_def)
  note D = zeroed_bytes [OF this, where flags = flags and d = d, folded D_def, folded u_def]
  have fl: "unat (word_of_nat flags :: u8) = flags" using flags by (auto simp: u8_of_nat)
  obtain k where k: "decodeFlags (btreePageFromDbPage b pgno D) flags = (SQLITE_OK, k)"
    using flags by (auto simp: decodeFlags_def PTF_defs Let_def)
  note kf = decodeFlags_fields [OF k]
  have kb: "pBt k = b" "hdrOffset k = hdr" "aData k = D" "methods_ok k"
    using kf decodeFlags_ok [OF k] b by (simp_all add: btreePageFromDbPage_def hdr_def shared_ok_def)
  have f: "first = hdr + 8 + childPtrSize k" "first \<le> u" "to_u16 first = first" "to_u16 (u - first) = u - first"
    using u kf(6) by (auto simp: first_def to_u16_id hdr_def)
  have pk: "p = k\<lparr>maskPage := to_u16 (btPageSize b - 1), aiOvfl := [], apOvfl := [],
      cellOffset := first, nCell := 0, nFree := int (u - first), isInit := True\<rparr>"
  proof -
    have "(btreePageFromDbPage b pgno d)\<lparr>aData := D, nFree := x\<rparr> = (btreePageFromDbPage b pgno D)\<lparr>nFree := x\<rparr>" for x
      by (simp add: btreePageFromDbPage_def)
    then have "zeroPage (btreePageFromDbPage b pgno d) flags =
      (snd (decodeFlags ((btreePageFromDbPage b pgno D)\<lparr>nFree := int (to_u16 (u - first))\<rparr>) flags))
        \<lparr>cellOffset := to_u16 first, aiOvfl := [], apOvfl := [], maskPage := to_u16 (btPageSize b - 1), nCell := 0, isInit := True\<rparr>"
      unfolding D_def by (simp add: zeroPage_def zeroed_def Let_def btreePageFromDbPage_def hdr_def u_def first_def)
    then show ?thesis using kf(7) f by (simp add: p)
  qed
  show bp: "pBt p = b" "hdrOffset p = (if pgno = 1 then 100 else 0)" using kb by (simp_all add: pk hdr_def)
  show cells: "page_cells p = []" by (simp add: page_cells_def contents_of_def regions_of_def pk)
  show "aData p j = d j" if "j < hdrOffset p \<or> usableSize b \<le> j" for j
    using D(6) that kb by (auto simp: pk u_def)
  have "bpage_ok p []"
  proof (rule bpage_okI)
    show "methods_ok p" using kb(4) by (simp add: pk methods_ok_def page_limits_def)
    show "space_ok (aData p) (hdrOffset p) (usableSize (pBt p)) (regions_of p (aData p)) []"
      using empty_space [of u hdr D] D u kb by (simp add: pk regions_of_def u_def)
    show "nFree p = int (usableSize (pBt p)) - int (cellOffset p) - (\<Sum>c\<leftarrow>contents_of p (aData p). int (length c) + 2)"
      using cells f kb by (simp add: page_cells_def) (simp add: pk u_def)
  qed (use D f kb u in \<open>simp_all add: pk hdr_def u_def gap_start_def\<close>)
  moreover have "loaded pgno p"
    unfolding loaded_def using k kb D(1) fl f by (intro exI [of _ k]) (simp add: pk)
  ultimately show "page_inv pgno p" using b bp by (auto simp: page_inv_def)
qed

section \<open>The property\<close>

text \<open>The database of \<open>test_shared\<close> with its limits.\<close>

definition test_bt :: BtShared where
  "test_bt = set_payload_limits test_shared"

lemma test_bt_ok: "shared_ok test_bt"
proof -
  have "btPageSize test_bt = 2 ^ 9" "usableSize test_bt = 512"
    by (simp_all add: test_bt_def set_payload_limits_def test_shared_def Let_def)
  moreover have "bt_limits test_bt" unfolding test_bt_def by (rule set_payload_limits_ok) (simp_all add: test_shared_def)
  ultimately show ?thesis by (auto simp: shared_ok_def intro: exI [of _ 9])
qed

text \<open>
  C12. From an empty page of any kind, every sequence of insertions and deletions of cells that fit
  succeeds and leaves the page with the cells that the sequence on a list gives; the count of free bytes
  is the capacity less the cells and their pointers, and no byte before the header
  of the page or after its usable part changes. So an insertion that is within the free bytes always
  finds room, through the freeblocks, the gap or a defragmentation, whatever fragmentation the deletions left.
\<close>

theorem page_refines_list:
  assumes "shared_ok b" "flags \<in> {2, 5, 10, 13}" "possible_all (zeroPage (btreePageFromDbPage b pgno d) flags) ops []"
  shows "\<exists>p. run_page ops (zeroPage (btreePageFromDbPage b pgno d) flags) = (SQLITE_OK, p) \<and>
    page_cells p = fold list_step ops [] \<and> nFree p = int (capacity p) - int (bytes_used (page_cells p)) \<and>
    (\<forall>j. j < hdrOffset p \<or> usableSize b \<le> j \<longrightarrow> aData p j = d j)"
proof -
  define p0 where "p0 = zeroPage (btreePageFromDbPage b pgno d) flags"
  note z = zeroPage_ok [OF assms(1,2) p0_def]
  obtain r p where run: "run_page ops p0 = (r, p)" by (cases "run_page ops p0")
  have "possible_all p0 ops (page_cells p0)" using assms(3) z(2) by (simp add: p0_def)
  note s = run_page_ok [OF z(1) this run]
  then show ?thesis using run z used_nFree [of pgno p] unfolding p0_def by auto
qed

lemma test_leaf:
  "xCellSize (zeroPage (btreePageFromDbPage test_bt n d) 13) = CellSizePtrTableLeaf"
  "maxLocal (zeroPage (btreePageFromDbPage test_bt n d) 13) = 477"
  "capacity (zeroPage (btreePageFromDbPage test_bt 2 d) 13) = 504"
  by (simp_all add: capacity_def zeroPage_def decodeFlags_def PTF_defs btreePageFromDbPage_def test_bt_def test_shared_def
      set_payload_limits_def Let_def to_u16_def)

lemma small_leaf_cell:
  assumes "maxLocal p = 477" "c 0 = 2" "c 1 AND 0x80 = 0"
  shows "cellSizePtrTableLeaf p c = 4"
  using assms by (simp add: cellSizePtrTableLeaf_def read_size_def skip_key_def to_u16_def Let_def w32_def)

lemma page_refines_list_witness:
  "\<exists>p. run_page [Insert 0 [2, 1, 170, 187], Insert 0 [2, 2, 204, 221], Drop 1]
      (zeroPage (btreePageFromDbPage test_bt 2 (\<lambda>_. 7)) 13) = (SQLITE_OK, p) \<and>
    page_cells p = [[2, 2, 204, 221]] \<and> aData p 600 = 7"
proof -
  let ?p = "zeroPage (btreePageFromDbPage test_bt 2 (\<lambda>_. 7)) 13"
  have "cellSizeOf (xCellSize ?p) ?p (\<lambda>k. [2, b, x, y] ! k) = 4" if "b AND 0x80 = 0" for b x y
    using that by (simp add: test_leaf small_leaf_cell)
  then have "possible_all ?p [Insert 0 [2, 1, 170, 187], Insert 0 [2, 2, 204, 221], Drop 1] []"
    by (simp add: test_leaf(3) bytes_used_def)
  from page_refines_list [OF test_bt_ok _ this] obtain p where
    "run_page [Insert 0 [2, 1, 170, 187], Insert 0 [2, 2, 204, 221], Drop 1] ?p = (SQLITE_OK, p)"
    "page_cells p = fold list_step [Insert 0 [2, 1, 170, 187], Insert 0 [2, 2, 204, 221], Drop 1] []"
    "\<forall>j. j < hdrOffset p \<or> usableSize test_bt \<le> j \<longrightarrow> aData p j = 7" by auto
  then show ?thesis
    by (intro exI [of _ p]) (simp_all add: test_bt_def set_payload_limits_def test_shared_def Let_def)
qed

end
