(* ===== verification/Btree_Load.thy ===== *)
theory Btree_Load
  imports Btree_Run
begin

text \<open>
  Reading a page back: \<open>btreeInitPage\<close> and \<open>btreeComputeFreeSpace\<close> on the bytes of a page that is in
  order give its record again.
\<close>

section \<open>The walk over the freeblocks\<close>

lemma free_walk_ok:
  "seg d fl 0 \<Longrightarrow> spaced lo u fl \<Longrightarrow> fl \<noteq> [] \<Longrightarrow> 4 \<le> u \<Longrightarrow>
    free_walk d (u - 4) (first_addr fl 0) k = Some (fst (last fl), 0, snd (last fl), k + region_sum fl)"
proof (induction fl arbitrary: lo k)
  case (Cons f fs)
  obtain a n where f: "f = (a, n)" by (cases f)
  have a: "get2byte d a = first_addr fs 0" "get2byte d (a + 2) = n" "4 \<le> n" "a + n \<le> u"
    using Cons.prems f by auto
  show ?case
  proof (cases fs)
    case Nil
    with a f show ?thesis by (subst free_walk.simps) (simp add: Let_def)
  next
    case (Cons g gs)
    then obtain b m where g: "g = (b, m)" by (cases g)
    have "a + n + 4 \<le> b" using Cons.prems(2) f g Cons by simp
    moreover have "free_walk d (u - 4) b (k + n) = Some (fst (last fs), 0, snd (last fs), k + n + region_sum fs)"
      using Cons.IH [of "a + n + 4" "k + n"] Cons.prems f g Cons by simp
    ultimately show ?thesis using a f g Cons by (subst free_walk.simps) (simp add: Let_def)
  qed
qed simp

lemma compute_free_ok:
  assumes pg: "bpage_ok p fl"
  shows "btreeComputeFreeSpace (p\<lparr>nFree := x\<rparr>) = (SQLITE_OK, p)"
proof -
  define d hdr u brk where "d = aData p" and "hdr = hdrOffset p" and "u = usableSize (pBt p)" and
    "brk = content_start d hdr"
  note ok = bpage_okD [OF pg, folded d_def, folded hdr_def u_def, folded brk_def]
  note s = space_okD [OF ok(5), folded brk_def]
  have raw: "get2byteNotZero d (hdr + 5) = brk" by (simp add: brk_def content_start_def)
  have pc: "get2byte d (hdr + 1) = first_addr fl 0" "seg d fl 0" using s(4) by (simp_all add: chain_def)
  have gap: "hdr + 8 + childPtrSize p + 2 * nCell p = gap_start p" using ok(3) by (simp add: gap_start_def hdr_def)
  define nfree where "nfree = unat (d (hdr + 7)) + brk + region_sum fl"
  have n: "gap_start p \<le> nfree" "nfree \<le> u" "nFree p = int (nfree - gap_start p)" "to_u16 (nfree - gap_start p) = nfree - gap_start p"
    using ok(3,6,7) s(2,3,9) by (simp_all add: nfree_def frag_def to_u16_def gap_start_def)
  have fin: "\<not> u < nfree" "\<not> nfree < gap_start p" "p\<lparr>nFree := int (to_u16 (nfree - gap_start p))\<rparr> = p"
    using n by simp_all
  show ?thesis
  proof (cases "fl = []")
    case True
    then have "unat (d (hdr + 7)) + brk = nfree" by (simp add: nfree_def)
    with True show ?thesis using pc fin gap raw
      by (simp add: btreeComputeFreeSpace_def Let_def d_def [symmetric] hdr_def [symmetric] u_def [symmetric])
  next
    case False
    have "0 < first_addr fl 0" "brk \<le> first_addr fl 0" using False s(1,5) by (cases fl; auto)+
    moreover have "last fl \<in> set fl" using False by simp
    then have "fst (last fl) + snd (last fl) \<le> u" using spaced_all [OF s(5)] by blast
    moreover have "4 \<le> u" using s(1,2) by simp
    note free_walk_ok [OF pc(2) s(5) False this, of "unat (d (hdr + 7)) + brk", folded nfree_def]
    ultimately show ?thesis using pc(1) fin gap raw
      by (simp add: btreeComputeFreeSpace_def Let_def d_def [symmetric] hdr_def [symmetric] u_def [symmetric])
  qed
qed

section \<open>Loading\<close>

lemma size_check_ok:
  assumes "\<And>j. i \<le> j \<Longrightarrow> j < i + n \<Longrightarrow>
    (let pc = get2byte (aData p) (cellOffset p + j * 2) in
       cellOffset p + 2 * nCell p \<le> pc \<and> pc + 4 + (if leaf p then 0 else 1) \<le> usableSize (pBt p) \<and>
       pc + cellSizeAt p (aData p) pc \<le> usableSize (pBt p))"
  shows "size_check_loop n i p = SQLITE_OK"
  using assms
proof (induction n arbitrary: i)
  case (Suc n)
  from Suc.prems [of i] have "size_check_loop (Suc n) i p = size_check_loop n (i + 1) p"
    by (auto simp: Let_def not_less not_le)
  also have "\<dots> = SQLITE_OK" using Suc.prems by (intro Suc.IH) simp
  finally show ?case .
qed simp

lemma decodeFlags_leaf:
  assumes "decodeFlags p f = (SQLITE_OK, k)" "\<not> leaf k" "page_limits k"
  shows "5 \<le> cell_len (xCellSize k) k c"
proof -
  have k: "k = snd (decodeFlags p f)" using assms by simp
  have "f = 2 \<or> f = 5 \<or> f = 10 \<or> f = 13" using decodeFlags_cases [OF assms(1)] by simp
  then have "xCellSize k = CellSizePtr \<or> xCellSize k = CellSizePtrNoPayload"
    using assms(2) unfolding k by (elim disjE) (simp_all add: decodeFlags_def PTF_defs Let_def)
  moreover have "1 \<le> vlen (at_addr c 4)" "vlen (at_addr c 4) \<le> 9" by (rule vlen_bounds)+
  moreover have "4 + vlen (at_addr c 4) \<le> payload_cell k (payload_at c 4) (4 + vlen (at_addr c 4))"
    using calculation(3) by (intro payload_cell_bounds(4) [OF assms(3)]) simp
  ultimately show ?thesis by auto
qed

lemma many_cells: "\<forall>r\<in>set rs. 4 \<le> snd r \<Longrightarrow> 4 * length rs \<le> region_sum rs"
  by (induction rs) auto

lemma init_page_ok:
  assumes "page_inv pgno p"
  shows "btreeInitPage (btreePageFromDbPage (pBt p) pgno (aData p)) = (SQLITE_OK, p\<lparr>nFree := - 1\<rparr>)"
proof -
  obtain fl where pg: "bpage_ok p fl" using assms by (auto simp: page_inv_def)
  note ok = bpage_okD [OF pg]
  note s = space_okD [OF ok(5)]
  obtain k where k: "decodeFlags (btreePageFromDbPage (pBt p) pgno (aData p)) (unat (aData p (hdrOffset p))) = (SQLITE_OK, k)"
    "p = k\<lparr>maskPage := to_u16 (btPageSize (pBt p) - 1), aiOvfl := [], apOvfl := [],
       cellOffset := to_u16 (hdrOffset k + 8 + childPtrSize k), nCell := nCell p, nFree := nFree p, isInit := True\<rparr>"
    using assms unfolding page_inv_def loaded_def by blast
  note kf = decodeFlags_fields [OF k(1)]
  have h: "hdrOffset p = (if pgno = 1 then 100 else 0)" "hdrOffset k = hdrOffset p"
    using arg_cong [OF k(2), of hdrOffset] kf(2) by (simp_all add: btreePageFromDbPage_def)
  define q where "q = p\<lparr>nFree := - 1\<rparr>"
  have q: "q = k\<lparr>maskPage := to_u16 (btPageSize (pBt p) - 1), aiOvfl := [], apOvfl := [],
       cellOffset := to_u16 (hdrOffset p + 8 + childPtrSize k), nCell := nCell p, nFree := - 1, isInit := True\<rparr>"
    unfolding q_def by (subst k(2)) (simp add: h)
  have rs: "4 * nCell p \<le> region_sum (regions_of p (aData p))"
    using many_cells [of "regions_of p (aData p)"] s(8) by (simp add: regions_of_def)
  have "6 * nCell p + 8 \<le> usableSize (pBt p)"
    using rs s(2,9) ok(3,6) by (simp add: gap_start_def)
  moreover have "usableSize (pBt p) \<le> btPageSize (pBt p)" using assms by (simp add: page_inv_def shared_ok_def)
  ultimately have "6 * nCell p \<le> btPageSize (pBt p) - 8" by linarith
  then have mx: "nCell p \<le> MX_CELL (pBt p)" by (simp add: MX_CELL_def)
  have leafs: "leaf p = leaf k" "xCellSize p = xCellSize k"
    using arg_cong [OF k(2), of leaf] arg_cong [OF k(2), of xCellSize] by simp_all
  have limits: "maxLocal p = maxLocal k" "minLocal p = minLocal k" "pBt p = pBt k"
    using arg_cong [OF k(2), of maxLocal] arg_cong [OF k(2), of minLocal] arg_cong [OF k(2), of pBt] by simp_all
  have "btreeCellSizeCheck q = SQLITE_OK"
    unfolding btreeCellSizeCheck_def
  proof (rule size_check_ok, unfold Let_def)
    fix j assume "j < 0 + nCell q"
    then have j: "j < nCell p" by (simp add: q_def)
    define pc where "pc = cell_ptr p (aData p) j"
    have "cell_at p (aData p) j \<in> set (regions_of p (aData p))" using j by (simp add: regions_of_def)
    then have r: "content_start (aData p) (hdrOffset p) \<le> pc" "pc + cellSizeAt p (aData p) pc \<le> usableSize (pBt p)"
      "4 \<le> cellSizeAt p (aData p) pc" using bspec [OF s(8)] by (fastforce simp: cell_at_def pc_def)+
    have lim: "page_limits k" using ok(11) by (simp add: page_limits_def limits)
    have "5 \<le> cellSizeAt p (aData p) pc" if "\<not> leaf p"
    proof -
      have "cellSizeAt p (aData p) pc = cellSizeOf (xCellSize k) k (at_addr (aData p) pc)"
        using cellSizeOf_fields [of p k "xCellSize k"] limits by (simp add: cellSizeAt_def leafs(2))
      also have "\<dots> = cell_len (xCellSize k) k (at_addr (aData p) pc)" by (rule cell_size_len [OF lim])
      finally show ?thesis using decodeFlags_leaf [OF k(1) _ lim] that leafs(1) by simp
    qed
    then have "pc + 4 + (if leaf p then 0 else 1) \<le> usableSize (pBt p)" using r(2,3) by (cases "leaf p") simp_all
    moreover have "cellSizeAt q d' = cellSizeAt p d'" for d' by (simp add: q_def cellSizeAt_def fun_eq_iff)
    moreover have "get2byte (aData q) (cellOffset q + j * 2) = pc" by (simp add: q_def pc_def cell_ptr_def mult.commute)
    ultimately show "cellOffset q + 2 * nCell q \<le> get2byte (aData q) (cellOffset q + j * 2) \<and>
        get2byte (aData q) (cellOffset q + j * 2) + 4 + (if leaf q then 0 else 1) \<le> usableSize (pBt q) \<and>
        get2byte (aData q) (cellOffset q + j * 2) + cellSizeAt q (aData q) (get2byte (aData q) (cellOffset q + j * 2)) \<le> usableSize (pBt q)"
      using r ok(6) by (simp add: q_def gap_start_def)
  qed
  then have check: "(if cellSizeCk (pBt p) then btreeCellSizeCheck q else SQLITE_OK) = SQLITE_OK" by simp
  have "btreeInitPage (btreePageFromDbPage (pBt p) pgno (aData p)) =
     (if nCell p > MX_CELL (pBt p) then (SQLITE_CORRUPT, k\<lparr>maskPage := to_u16 (btPageSize (pBt p) - 1), aiOvfl := [], apOvfl := [],
       cellOffset := to_u16 (hdrOffset p + 8 + childPtrSize k), nCell := nCell p\<rparr>)
      else (if cellSizeCk (pBt p) then btreeCellSizeCheck q else SQLITE_OK, q))"
  proof -
    have "pBt (btreePageFromDbPage (pBt p) pgno (aData p)) = pBt p" "aData (btreePageFromDbPage (pBt p) pgno (aData p)) = aData p"
      "hdrOffset (btreePageFromDbPage (pBt p) pgno (aData p)) = hdrOffset p"
      using h by (simp_all add: btreePageFromDbPage_def)
    then show ?thesis using k(1) ok(4) h(2) unfolding q by (simp add: btreeInitPage_def Let_def)
  qed
  then show ?thesis using mx check by (simp add: q_def)
qed

section \<open>The property\<close>

text \<open>
  C13. Whatever insertions and deletions made a page, its bytes alone give it back: loading them
  with \<open>btreeInitPage\<close>, with or without the check of cell sizes, and counting the free space with \<open>btreeComputeFreeSpace\<close> gives
  the record with every field as the operations left it, among them the count of free bytes that they kept up to date.
\<close>

theorem page_reread:
  assumes "shared_ok b" "flags \<in> {2, 5, 10, 13}" "possible_all (zeroPage (btreePageFromDbPage b pgno d) flags) ops []"
    "run_page ops (zeroPage (btreePageFromDbPage b pgno d) flags) = (r, p)"
  shows "btreeInitPage (btreePageFromDbPage b pgno (aData p)) = (SQLITE_OK, p\<lparr>nFree := - 1\<rparr>) \<and>
    btreeComputeFreeSpace (p\<lparr>nFree := - 1\<rparr>) = (SQLITE_OK, p)"
proof -
  define p0 where "p0 = zeroPage (btreePageFromDbPage b pgno d) flags"
  note z = zeroPage_ok [OF assms(1,2) p0_def]
  have "possible_all p0 ops (page_cells p0)" using assms(3) z(2) by (simp add: p0_def)
  note s = run_page_ok [OF z(1) this assms(4) [folded p0_def]]
  then have "page_inv pgno p" "pBt p = b" using z by simp_all
  then show ?thesis using init_page_ok [of pgno p] compute_free_ok by (auto simp: page_inv_def)
qed

lemma page_reread_witness:
  "let p = snd (run_page [Insert 0 [2, 1, 170, 187]] (zeroPage (btreePageFromDbPage test_bt 2 (\<lambda>_. 7)) 13))
   in btreeInitPage (btreePageFromDbPage test_bt 2 (aData p)) = (SQLITE_OK, p\<lparr>nFree := - 1\<rparr>)"
proof -
  let ?p = "zeroPage (btreePageFromDbPage test_bt 2 (\<lambda>_. 7)) 13"
  have "possible_all ?p [Insert 0 [2, 1, 170, 187]] []"
    by (simp add: test_leaf bytes_used_def small_leaf_cell)
  moreover have "run_page [Insert 0 [2, 1, 170, 187]] ?p =
      (fst (run_page [Insert 0 [2, 1, 170, 187]] ?p), snd (run_page [Insert 0 [2, 1, 170, 187]] ?p))" by simp
  ultimately show ?thesis using page_reread [OF test_bt_ok] by (simp only: Let_def) blast
qed

end
