(* ===== verification/Btree_Safe.thy ===== *)
theory Btree_Safe
  imports Btree_Load
begin

text \<open>
  Pages with arbitrary bytes: whatever a corrupt page holds, the operations stay inside it, their assertions on
  the space hold, and they end with success or \<open>SQLITE_CORRUPT\<close>. A page may hold overlapping cells, loops of
  freeblocks and wrong counts; what is known of it is what \<open>btreeInitPage\<close> and
  \<open>btreeComputeFreeSpace\<close> check.
\<close>

section \<open>Writes inside a page\<close>

text \<open>The two images agree from the end of the page on.\<close>

definition inside :: "nat \<Rightarrow> mem \<Rightarrow> mem \<Rightarrow> bool" where
  "inside u d d' \<longleftrightarrow> (\<forall>j\<ge>u. d' j = d j)"

named_theorems inside_intros

lemma inside_refl [inside_intros]: "inside u d d"
  by (simp add: inside_def)

lemma inside_trans: "inside u d d1 \<Longrightarrow> inside u d1 d2 \<Longrightarrow> inside u d d2"
  by (simp add: inside_def)

lemma inside_upd [inside_intros]: "inside u d d' \<Longrightarrow> i < u \<Longrightarrow> inside u d (d'(i := v))"
  by (auto simp: inside_def)

lemma inside_put2byte [inside_intros]: "inside u d d' \<Longrightarrow> i + 1 < u \<Longrightarrow> inside u d (put2byte d' i v)"
  by (auto simp: inside_def put2byte_def)

lemma inside_memcpy [inside_intros]: "inside u d d' \<Longrightarrow> a + n \<le> u \<Longrightarrow> inside u d (memcpy d' a s b n)"
  by (auto simp: inside_def memcpy_def)

lemma inside_memmove [inside_intros]: "inside u d d' \<Longrightarrow> a + n \<le> u \<Longrightarrow> inside u d (memmove d' a b n)"
  by (auto simp: memmove_def intro: inside_memcpy)

lemma inside_memset [inside_intros]: "inside u d d' \<Longrightarrow> a + n \<le> u \<Longrightarrow> inside u d (memset d' a v n)"
  by (auto simp: inside_def memset_def)

lemma inside_put_bytes [inside_intros]: "inside u d d' \<Longrightarrow> a + length xs \<le> u \<Longrightarrow> inside u d (put_bytes d' a xs)"
  by (auto simp: put_bytes_def intro: inside_memcpy)

text \<open>What is known of a page with arbitrary bytes.\<close>

definition any_page :: "MemPage \<Rightarrow> bool" where
  "any_page p \<longleftrightarrow> methods_ok p \<and> usableSize (pBt p) < 65536 \<and> hdrOffset p + 8 \<le> cellOffset p \<and>
     gap_start p \<le> usableSize (pBt p)"

lemma any_pageD:
  assumes "any_page p"
  shows "methods_ok p" "page_limits p" "usableSize (pBt p) < 65536" "hdrOffset p + 8 \<le> cellOffset p"
    "gap_start p \<le> usableSize (pBt p)" "hdrOffset p + 8 \<le> usableSize (pBt p)"
  using assms by (simp_all add: any_page_def methods_ok_def gap_start_def)

section \<open>Freeing\<close>

lemma free_search_bounds:
  "free_search d a q = Some (iPtr, b) \<Longrightarrow> (iPtr = q \<or> iPtr < a) \<and> (b = 0 \<or> a \<le> b)"
proof (induction d a q rule: free_search.induct)
  case (1 d a q)
  show ?case
  proof (cases "get2byte d q < a \<and> \<not> get2byte d q \<le> q")
    case True
    then have "free_search d a q = free_search d a (get2byte d q)" by (subst free_search.simps) (simp add: Let_def)
    with 1 True show ?thesis by auto
  next
    case False
    with 1(2) show ?thesis by (subst (asm) free_search.simps) (auto simp: Let_def split: if_splits)
  qed
qed

lemma free_coalesce_bounds:
  assumes "free_coalesce d u hdr iPtr b a n = Some (s, sz, e, b', f)" "iPtr = hdr + 1 \<or> iPtr < a" "b = 0 \<or> a \<le> b" "a + n \<le> u"
  shows "s \<le> a" "s + sz = e" "e \<le> u"
  using assms by (auto simp: free_coalesce_def coalesce_prev_def Let_def split: if_splits)

text \<open>The end of an operation: no other code than these, and the page changed inside only.\<close>

definition stays :: "nat \<Rightarrow> mem \<Rightarrow> MemPage \<Rightarrow> rc \<times> MemPage \<Rightarrow> bool" where
  "stays u d p x \<longleftrightarrow> fst x \<in> {SQLITE_OK, SQLITE_CORRUPT} \<and>
     (\<exists>d' f. snd x = p\<lparr>aData := d', nFree := f\<rparr> \<and> inside u d d')"

lemma stays_both: "r \<in> {SQLITE_OK, SQLITE_CORRUPT} \<Longrightarrow> inside u d d' \<Longrightarrow> stays u d p (r, p\<lparr>aData := d', nFree := f\<rparr>)"
  by (auto simp: stays_def)

lemma stays_aData: "r \<in> {SQLITE_OK, SQLITE_CORRUPT} \<Longrightarrow> inside u d d' \<Longrightarrow> stays u d p (r, p\<lparr>aData := d'\<rparr>)"
  using stays_both [of r u d d' p "nFree p"] by simp

lemma stays_refl: "r \<in> {SQLITE_OK, SQLITE_CORRUPT} \<Longrightarrow> stays u (aData p) p (r, p)"
  using stays_aData [OF _ inside_refl, of r u "aData p" p] by simp

lemma stays_if: "(b \<Longrightarrow> stays u d p x) \<Longrightarrow> (\<not> b \<Longrightarrow> stays u d p y) \<Longrightarrow> stays u d p (if b then x else y)"
  by simp

lemma staysE:
  assumes "stays u d p (r, q)"
  obtains d' f where "q = p\<lparr>aData := d', nFree := f\<rparr>" "inside u d d'" "r \<in> {SQLITE_OK, SQLITE_CORRUPT}"
  using assms by (auto simp: stays_def)

lemma free_write_inside:
  assumes "hdrOffset p + 8 \<le> u" "inside u d0 d" "s + sz \<le> u" "s + 4 \<le> u" "iPtr + 1 < u"
  shows "stays u d0 p (free_write p d iPtr n s sz e b)"
proof -
  define d1 where "d1 = (if fastSecure (pBt p) then memset d s 0 sz else d)"
  have d1: "inside u d0 d1" using assms by (simp add: d1_def inside_memset)
  then have "inside u d0 (put2byte (put2byte d1 (hdrOffset p + 1) b) (hdrOffset p + 5) e)"
    "inside u d0 (put2byte (put2byte (put2byte d1 iPtr s) s b) (s + 2) (to_u16 sz))"
    using assms by (intro inside_put2byte; simp)+
  with d1 show ?thesis unfolding free_write_def Let_def d1_def [symmetric]
    by (intro stays_if stays_both stays_aData) simp_all
qed

lemma freeSpace_inside:
  assumes "hdrOffset p + 8 \<le> u" "u = usableSize (pBt p)" "4 \<le> n" "a + n \<le> u"
  shows "stays u (aData p) p (freeSpace p a n)"
proof -
  have empty: "stays u (aData p) p (free_write p (aData p) (hdrOffset p + 1) n a n (a + n) 0)"
    using assms by (intro free_write_inside inside_refl) simp_all
  have "stays u (aData p) p (case free_search (aData p) a (hdrOffset p + 1) of None \<Rightarrow> (SQLITE_CORRUPT, p)
      | Some (iPtr, b) \<Rightarrow> if b > u - 4 then (SQLITE_CORRUPT, p)
          else (case free_coalesce (aData p) u (hdrOffset p) iPtr b a n of None \<Rightarrow> (SQLITE_CORRUPT, p)
            | Some (s, sz, e, b', f) \<Rightarrow> if f > unat (aData p (hdrOffset p + 7)) then (SQLITE_CORRUPT, p)
                else free_write p ((aData p)(hdrOffset p + 7 := aData p (hdrOffset p + 7) - word_of_nat f)) iPtr n s sz e b'))"
  proof (split option.split, intro conjI allI impI)
    show "stays u (aData p) p (SQLITE_CORRUPT, p)" by (rule stays_refl) simp
  next
    fix x assume x: "free_search (aData p) a (hdrOffset p + 1) = Some x"
    obtain iPtr b where "x = (iPtr, b)" by (cases x)
    note bd = free_search_bounds [OF x [unfolded this]]
    show "stays u (aData p) p (case x of (iPtr, b) \<Rightarrow> if b > u - 4 then (SQLITE_CORRUPT, p)
          else (case free_coalesce (aData p) u (hdrOffset p) iPtr b a n of None \<Rightarrow> (SQLITE_CORRUPT, p)
            | Some (s, sz, e, b', f) \<Rightarrow> if f > unat (aData p (hdrOffset p + 7)) then (SQLITE_CORRUPT, p)
                else free_write p ((aData p)(hdrOffset p + 7 := aData p (hdrOffset p + 7) - word_of_nat f)) iPtr n s sz e b'))"
    proof (cases "free_coalesce (aData p) u (hdrOffset p) iPtr b a n")
      case None
      with \<open>x = (iPtr, b)\<close> show ?thesis by (simp add: stays_refl)
    next
      case (Some y)
      obtain s sz e b' f where y: "y = (s, sz, e, b', f)" by (cases y)
      have cb: "s \<le> a" "s + sz = e" "e \<le> u" using free_coalesce_bounds [OF Some [unfolded y]] bd assms(4) by blast+
      have "stays u (aData p) p (free_write p ((aData p)(hdrOffset p + 7 := aData p (hdrOffset p + 7) - word_of_nat f)) iPtr n s sz e b')"
        using cb bd assms by (intro free_write_inside inside_upd inside_refl) auto
      with Some y \<open>x = (iPtr, b)\<close> show ?thesis by (simp add: stays_refl)
    qed
  qed
  with empty show ?thesis unfolding freeSpace_def Let_def assms(2) [symmetric] by presburger
qed

lemma dropCell_inside:
  assumes "any_page p" "u = usableSize (pBt p)" "4 \<le> n" "i < nCell p"
  shows "stays u (aData p) p (dropCell p i n SQLITE_OK) \<or> stays u (aData p) (p\<lparr>nCell := nCell p - 1\<rparr>) (dropCell p i n SQLITE_OK)"
proof -
  define a where "a = get2byte (aData p) (cellOffset p + 2 * i)"
  note pg = any_pageD [OF assms(1), folded assms(2)]
  show ?thesis
  proof (cases "a + n > u")
    case True
    then have "dropCell p i n SQLITE_OK = (SQLITE_CORRUPT, p)" by (simp add: dropCell_def Let_def a_def assms(2))
    then show ?thesis by (simp add: stays_refl)
  next
    case False
    obtain r q where fs: "freeSpace p a n = (r, q)" by (cases "freeSpace p a n")
    have st: "stays u (aData p) p (r, q)" using freeSpace_inside [OF pg(6) assms(2,3), of a] False fs by simp
    then obtain d' f where q: "q = p\<lparr>aData := d', nFree := f\<rparr>" "inside u (aData p) d'" by (rule staysE)
    define x y where "x = put2byte ((memset d' (hdrOffset p + 1) 0 4)(hdrOffset p + 7 := 0)) (hdrOffset p + 5) u" and
      "y = put2byte (memmove d' (cellOffset p + 2 * i) (cellOffset p + 2 * i + 2) (2 * (nCell p - 1 - i))) (hdrOffset p + 3) (nCell p - 1)"
    have "cellOffset p + 2 * i + 2 * (nCell p - 1 - i) \<le> u" using pg(5) assms(4) by (simp add: gap_start_def)
    then have xy: "inside u (aData p) x" "inside u (aData p) y"
      unfolding x_def y_def using q(2) pg(6) by (intro inside_put2byte inside_upd inside_memset inside_memmove; simp)+
    have eq: "dropCell p i n SQLITE_OK =
      (if r \<noteq> SQLITE_OK then (r, q)
       else if nCell p - 1 = 0 then (SQLITE_OK, p\<lparr>nCell := nCell p - 1, aData := x, nFree := int u - int (hdrOffset p) - int (childPtrSize p) - 8\<rparr>)
       else (SQLITE_OK, p\<lparr>nCell := nCell p - 1, aData := y, nFree := f + 2\<rparr>))"
      using False fs q(1) unfolding x_def y_def by (simp add: dropCell_def Let_def a_def assms(2))
    show ?thesis
    proof (cases "r = SQLITE_OK")
      case False
      with st show ?thesis by (simp add: eq)
    next
      case True
      have "stays u (aData p) (p\<lparr>nCell := nCell p - 1\<rparr>) (dropCell p i n SQLITE_OK)"
        unfolding eq if_not_P [OF not_not [THEN iffD2, OF True]] using xy by (intro stays_if stays_both) simp_all
      then show ?thesis ..
    qed
  qed
qed

section \<open>Defragmentation\<close>

text \<open>
  What \<open>allocateSpace\<close> needs of a defragmentation: a success leaves the room \<open>n\<close> after the cell pointers,
  in particular neither assertion fails.
\<close>

definition makes_room :: "MemPage \<Rightarrow> nat \<Rightarrow> rc \<times> MemPage \<Rightarrow> bool" where
  "makes_room p n x \<longleftrightarrow> fst x \<in> {SQLITE_OK, SQLITE_CORRUPT} \<and>
     (\<exists>d. snd x = p\<lparr>aData := d\<rparr> \<and> inside (usableSize (pBt p)) (aData p) d \<and>
        (fst x = SQLITE_OK \<longrightarrow> gap_start p + n \<le> content_start d (hdrOffset p) \<and>
           content_start d (hdrOffset p) \<le> usableSize (pBt p)))"

lemma makes_room_corrupt: "inside (usableSize (pBt p)) (aData p) d \<Longrightarrow> makes_room p n (SQLITE_CORRUPT, p\<lparr>aData := d\<rparr>)"
  by (auto simp: makes_room_def)

lemma makes_room_same: "makes_room p n (SQLITE_CORRUPT, p)"
  using makes_room_corrupt [OF inside_refl, of p n] by simp

lemma defragment_out_room:
  assumes pg: "any_page p" and d: "inside (usableSize (pBt p)) (aData p) d" and c: "c \<le> usableSize (pBt p)"
    and f: "int (unat (d (hdrOffset p + 7))) + int n \<le> nFree p"
  shows "makes_room p n (defragment_out p d c)"
proof -
  note pg = any_pageD [OF pg]
  show ?thesis
  proof (cases "int (unat (d (hdrOffset p + 7))) + int c - int (gap_start p) \<noteq> nFree p")
    case True
    then show ?thesis using makes_room_corrupt [OF d]
      by (simp add: defragment_out_def Let_def gap_start_def)
  next
    case False
    then have room: "gap_start p + n \<le> c" using f by linarith
    define d1 where "d1 = ((put2byte d (hdrOffset p + 5) c)(hdrOffset p + 1 := 0))(hdrOffset p + 2 := 0)"
    define d2 where "d2 = memset d1 (gap_start p) 0 (c - gap_start p)"
    have eq: "defragment_out p d c = (SQLITE_OK, p\<lparr>aData := d2\<rparr>)"
      using False room by (simp add: defragment_out_def Let_def gap_start_def d1_def d2_def)
    have hdr: "hdrOffset p + 8 \<le> gap_start p" using pg(4) by (simp add: gap_start_def)
    have "d2 i = put2byte d (hdrOffset p + 5) c i" if "i = hdrOffset p + 5 \<or> i = hdrOffset p + 5 + 1" for i
      using that hdr by (auto simp: d2_def d1_def memset_def)
    then have "get2byte d2 (hdrOffset p + 5) = get2byte (put2byte d (hdrOffset p + 5) c) (hdrOffset p + 5)"
      by (intro get2byte_cong) simp_all
    then have "get2byte d2 (hdrOffset p + 5) = c" using c pg(3) by simp
    moreover have "0 < c" using room hdr by simp
    ultimately have "content_start d2 (hdrOffset p) = c" by (simp add: content_start_def get2byteNotZero_def)
    moreover have "inside (usableSize (pBt p)) (aData p) d2"
      unfolding d2_def d1_def using d c pg(5,6) by (intro inside_memset inside_upd inside_put2byte) simp_all
    ultimately show ?thesis using eq room c by (auto simp: makes_room_def)
  qed
qed

lemma shift_pointers_bytes:
  "j < a \<or> a + 2 * n \<le> j \<Longrightarrow> shift_pointers n a x s y t d j = d j"
  by (induction n arbitrary: a d) (auto simp: Let_def put2byte_other)

lemma defragment_fast_bounds:
  assumes pg: "any_page p" and brk: "gap_start p \<le> get2byte (aData p) (hdrOffset p + 5)"
    and fast: "defragment_fast p x y = Some (d, c)"
  shows "inside (usableSize (pBt p)) (aData p) d" "c \<le> usableSize (pBt p)"
    "d (hdrOffset p + 7) = aData p (hdrOffset p + 7)"
proof -
  define d0 u brk' sz where "d0 = aData p" and "u = usableSize (pBt p)" and "brk' = get2byte d0 (hdrOffset p + 5)" and
    "sz = get2byte d0 (x + 2)"
  note pg = any_pageD [OF pg, folded u_def]
  have hdr: "hdrOffset p + 8 \<le> gap_start p" "gap_start p \<le> brk'" "cellOffset p + 2 * nCell p = gap_start p"
    using pg(4) brk by (simp_all add: gap_start_def brk'_def d0_def)
  have fin: "inside u d0 (shift_pointers (nCell p) (cellOffset p) x s t' t (memmove d1 (brk' + s) brk' (x - brk'))) \<and>
      brk' + s \<le> u \<and> shift_pointers (nCell p) (cellOffset p) x s t' t (memmove d1 (brk' + s) brk' (x - brk')) (hdrOffset p + 7) = d0 (hdrOffset p + 7)"
    if "inside u d0 d1" "d1 (hdrOffset p + 7) = d0 (hdrOffset p + 7)" "x + s \<le> u" "brk' \<le> x" for d1 s t t'
  proof -
    have "inside u d0 (memmove d1 (brk' + s) brk' (x - brk'))" using that by (intro inside_memmove) simp_all
    then have "inside u d0 (shift_pointers (nCell p) (cellOffset p) x s t' t (memmove d1 (brk' + s) brk' (x - brk')))"
      using hdr pg(5) by (simp add: inside_def shift_pointers_bytes)
    then show ?thesis using that hdr pg(4) by (simp add: shift_pointers_bytes memmove_def memcpy_other)
  qed
  note eq = fast [unfolded defragment_fast_def Let_def, folded d0_def u_def, folded brk'_def sz_def]
  have "inside u d0 d \<and> c \<le> u \<and> d (hdrOffset p + 7) = d0 (hdrOffset p + 7)"
  proof (cases "y = 0")
    case True
    with eq fin [of d0 sz 0 0] show ?thesis by (auto simp: inside_refl split: if_splits)
  next
    case False
    define sz2 d1 where "sz2 = get2byte d0 (y + 2)" and "d1 = memmove d0 (x + sz + sz2) (x + sz) (y - (x + sz))"
    have c: "brk' < x" "x + sz \<le> y" "y + sz2 \<le> u"
      "d = shift_pointers (nCell p) (cellOffset p) x (sz + sz2) y sz2 (memmove d1 (brk' + (sz + sz2)) brk' (x - brk'))" "c = brk' + (sz + sz2)"
      using eq False by (auto simp: sz2_def d1_def split: if_splits)
    have "inside u d0 d1" unfolding d1_def using c by (intro inside_memmove inside_refl) simp
    moreover have "d1 (hdrOffset p + 7) = d0 (hdrOffset p + 7)" using c hdr by (simp add: d1_def memmove_def memcpy_other)
    ultimately show ?thesis using fin [of d1 "sz + sz2" y sz2] c by simp
  qed
  then show "inside (usableSize (pBt p)) (aData p) d" "c \<le> usableSize (pBt p)"
    "d (hdrOffset p + 7) = aData p (hdrOffset p + 7)" by (simp_all add: d0_def u_def)
qed

lemma pack_cells_bounds:
  assumes "pack_cells n i p src start d0 c0 = (r, d, c)" "cellOffset p + 2 * (i + n) \<le> u" "c0 \<le> u" "u = usableSize (pBt p)"
    "hdrOffset p + 8 \<le> start" "hdrOffset p + 8 \<le> cellOffset p"
  shows "inside u d0 d \<and> c \<le> u \<and> r \<in> {SQLITE_OK, SQLITE_CORRUPT}"
  using assms
proof (induction n arbitrary: i d0 c0)
  case Nil: 0
  then show ?case by (simp add: inside_refl)
next
  case (Suc n)
  define pc sz where "pc = get2byte d0 (cellOffset p + i * 2)" and "sz = cellSizeAt p src pc"
  show ?case
  proof (cases "pc > u - 4 \<or> c0 < start + sz \<or> pc + sz > u")
    case True
    with Suc.prems show ?thesis by (auto simp: Let_def pc_def sz_def inside_refl split: if_splits)
  next
    case False
    define d1 where "d1 = memcpy (put2byte d0 (cellOffset p + i * 2) (c0 - sz)) (c0 - sz) src pc sz"
    have "pack_cells n (i + 1) p src start d1 (c0 - sz) = (r, d, c)"
      using Suc.prems(1,4) False by (auto simp: Let_def pc_def sz_def d1_def)
    then have "inside u d1 d \<and> c \<le> u \<and> r \<in> {SQLITE_OK, SQLITE_CORRUPT}"
      using Suc.prems by (intro Suc.IH [of "i + 1" d1 "c0 - sz"]) simp_all
    moreover have "inside u d0 d1"
      unfolding d1_def using Suc.prems(2,3) False by (intro inside_memcpy inside_put2byte inside_refl) simp_all
    ultimately show ?thesis using inside_trans by blast
  qed
qed

lemma defragmentPage_room:
  assumes pg: "any_page p" and brk: "gap_start p \<le> get2byte (aData p) (hdrOffset p + 5)"
    and k: "k + int n \<le> nFree p" "0 \<le> k"
  shows "makes_room p n (defragmentPage p k)"
proof -
  note pgd = any_pageD [OF pg]
  have slow: "makes_room p n (defragment_slow p)"
  proof -
    define u src where "u = usableSize (pBt p)" and "src = memcpy (tempSpace (pBt p)) 0 (aData p) 0 u"
    obtain r d c where pk: "pack_cells (nCell p) 0 p src (get2byte (aData p) (hdrOffset p + 5)) (aData p) u = (r, d, c)"
      by (rule prod_cases3)
    have b: "inside u (aData p) d \<and> c \<le> u \<and> r \<in> {SQLITE_OK, SQLITE_CORRUPT}"
      using pgd brk by (intro pack_cells_bounds [OF pk]) (simp_all add: u_def gap_start_def)
    have "inside u (aData p) (d(hdrOffset p + 7 := 0))" using b pgd(6) by (intro inside_upd) (simp_all add: u_def)
    then have "makes_room p n (defragment_out p (d(hdrOffset p + 7 := 0)) c)"
      using b k unfolding u_def by (intro defragment_out_room [OF pg]) simp_all
    moreover have "defragment_slow p = (if r \<noteq> SQLITE_OK then (r, p\<lparr>aData := d\<rparr>) else defragment_out p (d(hdrOffset p + 7 := 0)) c)"
      using pk by (simp add: defragment_slow_def Let_def u_def src_def)
    ultimately show ?thesis using b makes_room_corrupt [of p d n] by (auto simp: u_def)
  qed
  have fast: "makes_room p n (defragment_out p d c)"
    if "defragment_fast p x y = Some (d, c)" "int (unat (aData p (hdrOffset p + 7))) \<le> k" for x y d c
    using defragment_fast_bounds [OF pg brk that(1)] that(2) k by (intro defragment_out_room [OF pg]) simp_all
  show ?thesis
    unfolding defragmentPage_def Let_def using slow fast makes_room_same [of p n]
    by (auto split: option.splits prod.splits)
qed

section \<open>Allocation\<close>

text \<open>An allocation that succeeds gives out bytes inside the page, and there is room for one more cell pointer.\<close>

definition gives :: "MemPage \<Rightarrow> nat \<Rightarrow> rc \<times> nat \<times> MemPage \<Rightarrow> bool" where
  "gives p n x \<longleftrightarrow> (case x of (r, idx, q) \<Rightarrow> r \<in> {SQLITE_OK, SQLITE_CORRUPT} \<and>
     (\<exists>d. q = p\<lparr>aData := d\<rparr> \<and> inside (usableSize (pBt p)) (aData p) d) \<and>
     (r = SQLITE_OK \<longrightarrow> idx + n \<le> usableSize (pBt p) \<and> gap_start p + 2 \<le> usableSize (pBt p)))"

lemma gives_corrupt: "inside (usableSize (pBt p)) (aData p) d \<Longrightarrow> gives p n (SQLITE_CORRUPT, i, p\<lparr>aData := d\<rparr>)"
  by (auto simp: gives_def)

lemma find_slot_inside:
  assumes "find_slot u n hdr d0 iAddr pc = (r, s, d)" "4 \<le> n" "n \<le> u" "hdr + 8 \<le> u" "iAddr + 1 < u"
  shows "inside u d0 d \<and> r \<in> {SQLITE_OK, SQLITE_CORRUPT} \<and> (\<forall>i. s = Some i \<longrightarrow> i + n \<le> u) \<and> (s = None \<longrightarrow> d = d0)"
  using assms
proof (induction u n hdr d0 iAddr pc rule: find_slot.induct)
  case (1 u n hdr d0 iAddr pc)
  define sz nxt where "sz = get2byte d0 (pc + 2)" and "nxt = get2byte d0 pc"
  show ?case
  proof (cases "pc \<le> u - n \<and> sz < n \<and> pc < nxt")
    case True
    then have "find_slot u n hdr d0 iAddr pc = find_slot u n hdr d0 pc nxt"
      by (subst find_slot.simps) (simp add: Let_def sz_def nxt_def)
    then have "find_slot u n hdr d0 pc nxt = (r, s, d)" using 1(2) by simp
    moreover have "pc + 1 < u" using True 1(3,4) by linarith
    ultimately show ?thesis
      using 1(1) [OF refl _ refl _ refl] True 1(3,4,5) by (simp add: sz_def nxt_def)
  next
    case False
    have "inside u d0 ((memcpy d0 iAddr d0 pc 2)(hdr + 7 := v))" for v
      using 1(5,6) by (intro inside_upd inside_memcpy inside_refl) simp_all
    moreover have "inside u d0 (put2byte d0 (pc + 2) v)" if "pc \<le> u - n" for v
      using that 1(3,4) by (intro inside_put2byte inside_refl) simp
    ultimately show ?thesis
      using 1(2,3,4) False by (subst (asm) find_slot.simps) (auto simp: Let_def sz_def nxt_def inside_refl split: if_splits)
  qed
qed

lemma allocate_gap_gives:
  assumes "any_page p" "gap_start p + 2 + n \<le> brk" "brk \<le> usableSize (pBt p)"
    "inside (usableSize (pBt p)) (aData p) d"
  shows "gives p n (allocate_gap (p\<lparr>aData := d\<rparr>) n brk)"
proof -
  have "inside (usableSize (pBt p)) (aData p) (put2byte d (hdrOffset p + 5) (brk - n))"
    using assms(4) any_pageD(6) [OF assms(1)] by (intro inside_put2byte) simp_all
  then show ?thesis using assms(2,3) by (auto simp: gives_def allocate_gap_def)
qed

lemma allocate_defrag_gives:
  assumes pg: "any_page p" and n: "int n + 2 \<le> nFree p"
    and brk: "gap_start p \<le> brk" "brk \<le> usableSize (pBt p)" "brk = get2byte (aData p) (hdrOffset p + 5)"
  shows "gives p n (allocate_defrag p n (gap_start p) brk)"
proof (cases "gap_start p + 2 + n > brk")
  case False
  with brk(2) show ?thesis using allocate_gap_gives [OF pg _ _ inside_refl, of n brk] by (simp add: allocate_defrag_def)
next
  case True
  obtain r q where df: "defragmentPage p (min 4 (nFree p - (2 + int n))) = (r, q)" by (cases "defragmentPage p (min 4 (nFree p - (2 + int n)))")
  have room: "makes_room p (2 + n) (r, q)"
    unfolding df [symmetric] using brk n by (intro defragmentPage_room [OF pg]) simp_all
  then have r: "r \<in> {SQLITE_OK, SQLITE_CORRUPT}" unfolding makes_room_def fst_conv by (rule conjunct1)
  from room obtain d where d: "q = p\<lparr>aData := d\<rparr>" "inside (usableSize (pBt p)) (aData p) d"
    "r = SQLITE_OK \<longrightarrow> gap_start p + (2 + n) \<le> content_start d (hdrOffset p) \<and> content_start d (hdrOffset p) \<le> usableSize (pBt p)"
    unfolding makes_room_def fst_conv snd_conv by (elim conjE exE) (rule that)
  show ?thesis
  proof (cases "r = SQLITE_OK")
    case False
    then have "allocate_defrag p n (gap_start p) brk = (SQLITE_CORRUPT, 0, p\<lparr>aData := d\<rparr>)"
      using r d(1) True df by (simp add: allocate_defrag_def)
    with gives_corrupt [OF d(2), of n 0] show ?thesis by simp
  next
    case ok: True
    with d(3) have c: "gap_start p + 2 + n \<le> content_start d (hdrOffset p)" "content_start d (hdrOffset p) \<le> usableSize (pBt p)" by simp_all
    have "allocate_defrag p n (gap_start p) brk = allocate_gap (p\<lparr>aData := d\<rparr>) n (content_start d (hdrOffset p))"
      using True df ok c(1) d(1) by (simp add: allocate_defrag_def Let_def content_start_def)
    with allocate_gap_gives [OF pg c d(2)] show ?thesis by simp
  qed
qed

lemma allocateSpace_gives:
  assumes pg: "any_page p" and n: "4 \<le> n" "n \<le> usableSize (pBt p)" "int n + 2 \<le> nFree p"
  shows "gives p n (allocateSpace p n)"
proof -
  define u brk where "u = usableSize (pBt p)" and "brk = get2byte (aData p) (hdrOffset p + 5)"
  note pgd = any_pageD [OF pg]
  note same = gives_corrupt [OF inside_refl, of p n 0, simplified]
  obtain r s d where fs: "find_slot u n (hdrOffset p) (aData p) (hdrOffset p + 1) (get2byte (aData p) (hdrOffset p + 1)) = (r, s, d)"
    by (rule prod_cases3)
  have f: "inside u (aData p) d" "r \<in> {SQLITE_OK, SQLITE_CORRUPT}" "\<And>i. s = Some i \<Longrightarrow> i + n \<le> u" "s = None \<Longrightarrow> d = aData p"
    using find_slot_inside [OF fs n(1)] n(2) pgd(6) by (auto simp: u_def)
  show ?thesis
  proof (cases "gap_start p \<le> brk \<and> brk \<le> u")
    case False
    then have "allocateSpace p n = (SQLITE_CORRUPT, 0, p)"
      using pgd(3) by (auto simp: allocateSpace_def Let_def gap_start_def brk_def u_def)
    with same show ?thesis by simp
  next
    case True
    then have defrag: "gives p n (allocate_defrag p n (gap_start p) brk)"
      using n(3) by (intro allocate_defrag_gives [OF pg]) (simp_all add: u_def brk_def)
    have "gives p n (case s of Some g2 \<Rightarrow> if g2 \<le> gap_start p then (SQLITE_CORRUPT, g2, p\<lparr>aData := d\<rparr>) else (SQLITE_OK, g2, p\<lparr>aData := d\<rparr>)
        | None \<Rightarrow> if r \<noteq> SQLITE_OK then (r, 0, p\<lparr>aData := d\<rparr>) else allocate_defrag (p\<lparr>aData := d\<rparr>) n (gap_start p) brk)"
    proof (cases s)
      case None
      with defrag f(2,4) same show ?thesis by auto
    next
      case (Some g2)
      with f(3) have "g2 + n \<le> u" by simp
      with Some f(1) n(1) show ?thesis by (auto simp: gives_def u_def)
    qed
    moreover have "allocateSpace p n = (if (aData p (hdrOffset p + 2) \<noteq> 0 \<or> aData p (hdrOffset p + 1) \<noteq> 0) \<and> gap_start p + 2 \<le> brk then
        (case s of Some g2 \<Rightarrow> if g2 \<le> gap_start p then (SQLITE_CORRUPT, g2, p\<lparr>aData := d\<rparr>) else (SQLITE_OK, g2, p\<lparr>aData := d\<rparr>)
         | None \<Rightarrow> if r \<noteq> SQLITE_OK then (r, 0, p\<lparr>aData := d\<rparr>) else allocate_defrag (p\<lparr>aData := d\<rparr>) n (gap_start p) brk)
       else allocate_defrag p n (gap_start p) brk)"
      using True fs unfolding allocateSpace_def pageFindSlot_def Let_def gap_start_def brk_def u_def by (simp cong: if_cong)
    ultimately show ?thesis using defrag by (simp only: split: if_split) blast
  qed
qed

section \<open>The operations\<close>

lemma insert_inside:
  assumes pg: "any_page p" and i: "i \<le> nCell p" and n: "4 \<le> length c" "length c \<le> usableSize (pBt p)" "int (length c) + 2 \<le> nFree p"
    and ins: "insert_on_page SQLITE_OK SQLITE_OK p i c = (r, q)"
  shows "r \<in> {SQLITE_OK, SQLITE_CORRUPT} \<and> inside (usableSize (pBt p)) (aData p) (aData q) \<and>
    (r = SQLITE_OK \<longrightarrow> any_page q)"
proof -
  define u where "u = usableSize (pBt p)"
  note pgd = any_pageD [OF pg]
  obtain r1 idx q1 where al: "allocateSpace p (length c) = (r1, idx, q1)" by (rule prod_cases3)
  have "gives p (length c) (r1, idx, q1)" unfolding al [symmetric] by (rule allocateSpace_gives [OF pg n])
  then obtain d where d: "q1 = p\<lparr>aData := d\<rparr>" "inside u (aData p) d" "r1 \<in> {SQLITE_OK, SQLITE_CORRUPT}"
    "r1 = SQLITE_OK \<Longrightarrow> idx + length c \<le> u \<and> gap_start p + 2 \<le> u"
    by (auto simp: gives_def u_def)
  show ?thesis
  proof (cases "r1 = SQLITE_OK")
    case False
    then have "(r, q) = (r1, p\<lparr>aData := d\<rparr>)" using ins al d(1) by (simp add: insert_on_page_def)
    with d False show ?thesis by (simp add: u_def)
  next
    case True
    define d5 where "d5 = put_cell p i idx c d"
    have "insert_on_page SQLITE_OK SQLITE_OK p i c =
        (SQLITE_OK, p\<lparr>aData := d5, nCell := nCell p + 1, nFree := nFree p - int (to_u16 (2 + length c))\<rparr>)"
      using al d(1) True by (simp add: insert_on_page_def Let_def put_cell_def d5_def)
    with ins have q: "r = SQLITE_OK" "q = p\<lparr>aData := d5, nCell := nCell p + 1, nFree := nFree p - int (to_u16 (2 + length c))\<rparr>"
      by simp_all
    have room: "idx + length c \<le> u" "gap_start p + 2 \<le> u" using d(4) True by simp_all
    have "inside u (aData p) d5"
    proof -
      have "cellOffset p + i * 2 + 2 + 2 * (nCell p - i) \<le> u" "cellOffset p + i * 2 + 1 < u" using room(2) i by (simp_all add: gap_start_def)
      then have "inside u (aData p) (put2byte (memmove (put_bytes d idx c) (cellOffset p + i * 2 + 2) (cellOffset p + i * 2) (2 * (nCell p - i))) (cellOffset p + i * 2) idx)"
        using d(2) room(1) by (intro inside_put2byte inside_memmove inside_put_bytes)
      then show ?thesis using pgd(6) unfolding d5_def put_cell_def Let_def u_def [symmetric]
        by (auto intro!: inside_upd)
    qed
    moreover have "any_page q" using pg room(2) by (simp add: any_page_def q(2) gap_start_def methods_ok_def page_limits_def u_def)
    ultimately show ?thesis using q by (simp add: u_def)
  qed
qed

text \<open>What the operations demand of their arguments: an index in range and, for an insertion, one cell of the page's kind.\<close>

fun legal_op :: "cell_op \<Rightarrow> MemPage \<Rightarrow> bool" where
  "legal_op (Insert i c) p \<longleftrightarrow> apOvfl p = [] \<and> i \<le> nCell p \<and> cellSizeOf (xCellSize p) p (\<lambda>k. c ! k) = length c"
| "legal_op (Drop i) p \<longleftrightarrow> i < nCell p"

primrec legal :: "cell_op list \<Rightarrow> MemPage \<Rightarrow> bool" where
  "legal [] p = True"
| "legal (x # xs) p \<longleftrightarrow> legal_op x p \<and> (case page_step x p of (r, q) \<Rightarrow> r = SQLITE_OK \<longrightarrow> legal xs q)"

lemma any_page_fewer: "any_page p \<Longrightarrow> c \<le> nCell p \<Longrightarrow> any_page (p\<lparr>nCell := c, aData := d, nFree := f\<rparr>)"
  by (simp add: any_page_def gap_start_def methods_ok_def page_limits_def)

lemma any_page_stays: "any_page p \<Longrightarrow> any_page (p\<lparr>aData := d, nFree := f\<rparr>)"
  by (simp add: any_page_def gap_start_def methods_ok_def page_limits_def)

lemma same_shared:
  "insert_on_page SQLITE_OK SQLITE_OK p i c = (r, q) \<Longrightarrow> pBt q = pBt (snd (snd (allocateSpace p (length c))))"
  by (auto simp: insert_on_page_def Let_def split: prod.splits if_splits)

lemma page_step_inside:
  assumes pg: "any_page p" and x: "legal_op x p" and st: "page_step x p = (r, q)"
  shows "r \<in> {SQLITE_OK, SQLITE_CORRUPT} \<and> inside (usableSize (pBt p)) (aData p) (aData q) \<and> pBt q = pBt p \<and>
    (r = SQLITE_OK \<longrightarrow> any_page q)"
proof (cases x)
  case (Insert i c)
  note pgd = any_pageD [OF pg]
  have n: "4 \<le> length c" "length c \<le> usableSize (pBt p)"
    using cell_len_bounds [OF pgd(2), of "xCellSize p" "\<lambda>k. c ! k"] x Insert by (simp_all add: cell_size_len [OF pgd(2)])
  show ?thesis
  proof (cases "int (length c) + 2 \<le> nFree p")
    case True
    then have ins: "insert_on_page SQLITE_OK SQLITE_OK p i c = (r, q)" using st Insert by (simp add: insertCellFast_def)
    have "i \<le> nCell p" using x Insert by simp
    note ii = insert_inside [OF pg this n True ins]
    have "pBt q = pBt p"
      using same_shared [OF ins] allocateSpace_gives [OF pg n True] by (auto simp: gives_def split: prod.splits)
    with ii show ?thesis by blast
  next
    case False
    then have "r = SQLITE_OK" "q = p\<lparr>apOvfl := apOvfl p @ [c], aiOvfl := aiOvfl p @ [to_u16 i]\<rparr>"
      using st Insert by (simp_all add: insertCellFast_def)
    with pg show ?thesis by (simp add: inside_refl any_page_def gap_start_def methods_ok_def page_limits_def)
  qed
next
  case (Drop i)
  note pgd = any_pageD [OF pg]
  have "4 \<le> nSize (btreeParseCell p i)"
    unfolding btreeParseCell_def parsed_size [OF pgd(1)] by (rule cell_len_bounds(1) [OF pgd(2)])
  moreover have "i < nCell p" using x Drop by simp
  moreover have drop: "(r, q) = dropCell p i (nSize (btreeParseCell p i)) SQLITE_OK" using st Drop by simp
  ultimately have "stays (usableSize (pBt p)) (aData p) p (r, q) \<or>
      stays (usableSize (pBt p)) (aData p) (p\<lparr>nCell := nCell p - 1\<rparr>) (r, q)"
    unfolding drop by (intro dropCell_inside [OF pg refl])
  then show ?thesis
  proof
    assume "stays (usableSize (pBt p)) (aData p) p (r, q)"
    then show ?thesis by (rule staysE) (use any_page_stays [OF pg] in simp)
  next
    assume "stays (usableSize (pBt p)) (aData p) (p\<lparr>nCell := nCell p - 1\<rparr>) (r, q)"
    then show ?thesis by (rule staysE) (use any_page_fewer [OF pg, of "nCell p - 1"] in simp)
  qed
qed

lemma run_page_inside:
  "any_page p \<Longrightarrow> legal xs p \<Longrightarrow> run_page xs p = (r, q) \<Longrightarrow>
     r \<in> {SQLITE_OK, SQLITE_CORRUPT} \<and> inside (usableSize (pBt p)) (aData p) (aData q)"
proof (induction xs arbitrary: p)
  case (Cons x xs)
  obtain r1 p1 where step: "page_step x p = (r1, p1)" by (cases "page_step x p")
  have "legal_op x p" using Cons.prems(2) by simp
  note s = page_step_inside [OF Cons.prems(1) this step]
  show ?case
  proof (cases "r1 = SQLITE_OK")
    case True
    with s have "any_page p1" by blast
    moreover have "legal xs p1" "run_page xs p1 = (r, q)" using Cons.prems(2,3) step True by simp_all
    ultimately show ?thesis using Cons.IH [of p1] s inside_trans by metis
  next
    case False
    with s step Cons.prems(3) show ?thesis by auto
  qed
qed (simp add: inside_refl)

section \<open>The property\<close>

lemma loaded_any_page:
  assumes "bt_limits b" "usableSize b < 65536"
    "btreeInitPage (btreePageFromDbPage b pgno d) = (SQLITE_OK, p1)" "btreeComputeFreeSpace p1 = (SQLITE_OK, p)"
  shows "any_page p" "aData p = d" "pBt p = b"
proof -
  define p0 where "p0 = btreePageFromDbPage b pgno d"
  have p0: "pBt p0 = b" "aData p0 = d" "hdrOffset p0 \<le> 100" by (simp_all add: p0_def btreePageFromDbPage_def)
  obtain r k where k: "decodeFlags p0 (unat (aData p0 (hdrOffset p0))) = (r, k)"
    by (cases "decodeFlags p0 (unat (aData p0 (hdrOffset p0)))")
  have r: "r = SQLITE_OK" using assms(3) k by (auto simp: btreeInitPage_def p0_def [symmetric] Let_def split: if_splits)
  note kf = decodeFlags_fields [OF k [unfolded r]]
  have p1: "p1 = k\<lparr>maskPage := to_u16 (btPageSize b - 1), aiOvfl := [], apOvfl := [],
      cellOffset := to_u16 (hdrOffset p0 + 8 + childPtrSize k), nCell := get2byte d (hdrOffset p0 + 3), nFree := - 1, isInit := True\<rparr>"
    using assms(3) k r p0 by (auto simp: btreeInitPage_def p0_def [symmetric] Let_def split: if_splits)
  have off: "to_u16 (hdrOffset p0 + 8 + childPtrSize k) = hdrOffset p0 + 8 + childPtrSize k"
    using kf(6) p0(3) by (simp add: to_u16_id)
  have m: "methods_ok k" using decodeFlags_ok [OF k [unfolded r]] assms(1) p0(1) by simp
  have p: "\<exists>f. p = p1\<lparr>nFree := f\<rparr>" "hdrOffset p1 + 8 + childPtrSize p1 + 2 * nCell p1 \<le> usableSize (pBt p1)"
    using assms(4) by (auto simp: btreeComputeFreeSpace_def Let_def split: if_splits option.splits prod.splits)
  then obtain f where f: "p = p1\<lparr>nFree := f\<rparr>" by blast
  show "aData p = d" "pBt p = b" using f p1 kf(1,3) p0 by simp_all
  show "any_page p"
    using m p(2) off kf(1,2) p0(1) assms(2) unfolding f p1
    by (simp add: any_page_def gap_start_def methods_ok_def page_limits_def)
qed

text \<open>
  C14. Whatever bytes a page holds, if it loads then any sequence of insertions and deletions, with indices in
  range, ends with success or \<open>SQLITE_CORRUPT\<close>: the assertions of \<open>allocateSpace\<close> and
  \<open>defragmentPage\<close> on the space never fail, and no byte after the usable part of the page is
  written. Pages of 65536 bytes are left out: there two zero bytes in the header mean an empty cell content
  area to \<open>allocateSpace\<close> and offset 0 to \<open>defragmentPage\<close>.
\<close>

theorem corrupt_page_stays_inside:
  assumes "bt_limits b" "usableSize b < 65536"
    "btreeInitPage (btreePageFromDbPage b pgno d) = (SQLITE_OK, p1)" "btreeComputeFreeSpace p1 = (SQLITE_OK, p)"
    "legal ops p" "run_page ops p = (r, q)"
  shows "r \<in> {SQLITE_OK, SQLITE_CORRUPT} \<and> (\<forall>j\<ge>usableSize b. aData q j = d j)"
  using run_page_inside [OF loaded_any_page(1) [OF assms(1-4)] assms(5,6)] loaded_any_page(2,3) [OF assms(1-4)]
  by (simp add: inside_def)

text \<open>A page with one cell that lies before the start of the cell content area.\<close>

definition bad_bytes :: mem where
  "bad_bytes = (\<lambda>_. 0)(0 := 13, 4 := 1, 5 := 1, 6 := 244, 8 := 1, 9 := 240)"

lemma corrupt_page_stays_inside_witness:
  "let p = snd (btreeComputeFreeSpace (snd (btreeInitPage (btreePageFromDbPage test_bt 2 bad_bytes))))
   in fst (run_page [Drop 0] p) \<in> {SQLITE_OK, SQLITE_CORRUPT} \<and> aData (snd (run_page [Drop 0] p)) 512 = 0"
proof -
  define p1 where "p1 = snd (btreeInitPage (btreePageFromDbPage test_bt 2 bad_bytes))"
  define p where "p = snd (btreeComputeFreeSpace p1)"
  have i: "btreeInitPage (btreePageFromDbPage test_bt 2 bad_bytes) = (SQLITE_OK, p1)"
    by (simp add: p1_def btreeInitPage_def btreePageFromDbPage_def bad_bytes_def decodeFlags_def PTF_defs MX_CELL_def get2byte_def
        test_bt_def test_shared_def set_payload_limits_def Let_def)
  have c: "btreeComputeFreeSpace p1 = (SQLITE_OK, p)"
    by (simp add: p_def p1_def btreeComputeFreeSpace_def btreeInitPage_def btreePageFromDbPage_def bad_bytes_def decodeFlags_def
        PTF_defs MX_CELL_def get2byte_def get2byteNotZero_def test_bt_def test_shared_def set_payload_limits_def Let_def)
  have "nCell p = 1"
    by (simp add: p_def p1_def btreeComputeFreeSpace_def btreeInitPage_def btreePageFromDbPage_def bad_bytes_def decodeFlags_def
        PTF_defs MX_CELL_def get2byte_def get2byteNotZero_def test_bt_def test_shared_def set_payload_limits_def Let_def)
  then have "legal [Drop 0] p" by simp
  moreover have "bt_limits test_bt" "usableSize test_bt = 512"
    using test_bt_ok by (simp_all add: shared_ok_def test_bt_def set_payload_limits_def test_shared_def Let_def)
  ultimately have "fst (run_page [Drop 0] p) \<in> {SQLITE_OK, SQLITE_CORRUPT} \<and> (\<forall>j\<ge>512. aData (snd (run_page [Drop 0] p)) j = bad_bytes j)"
    using corrupt_page_stays_inside [OF _ _ i c, of "[Drop 0]" "fst (run_page [Drop 0] p)" "snd (run_page [Drop 0] p)"] by simp
  moreover have "bad_bytes 512 = 0" by (simp add: bad_bytes_def)
  ultimately show ?thesis by (simp add: Let_def p_def p1_def)
qed

end
