(* ===== verification/Wal_Index.thy ===== *)
theory Wal_Index
  imports Util_Arith
begin

text \<open>
  The wal-index (\<open>wal.c\<close>): the shared memory that tells for a page of the database the last frame of the
  write-ahead log that holds it. It is divided into pages of 32 KB, each with an array of page numbers and a
  hash table of 8192 slots over it. Frames and page numbers are \<open>u32\<close> in the source and
  natural numbers here, the hash of a page number is computed modulo \<open>2 ^ 32\<close> as there.

  One connection holds the write lock; locks, memory barriers and the mapping of the memory are not modelled,
  the answer of \<open>walIndexPage\<close> is a field.
\<close>

section \<open>The records\<close>

definition HASHTABLE_NPAGE :: nat where "HASHTABLE_NPAGE = 4096"
definition HASHTABLE_HASH_1 :: nat where "HASHTABLE_HASH_1 = 383"
definition HASHTABLE_NSLOT :: nat where "HASHTABLE_NSLOT = HASHTABLE_NPAGE * 2"
definition WALINDEX_HDR_SIZE :: nat where "WALINDEX_HDR_SIZE = 48 * 2 + 40"
definition HASHTABLE_NPAGE_ONE :: nat where "HASHTABLE_NPAGE_ONE = HASHTABLE_NPAGE - WALINDEX_HDR_SIZE div 4"

lemmas wal_consts = HASHTABLE_NPAGE_def HASHTABLE_HASH_1_def HASHTABLE_NSLOT_def WALINDEX_HDR_SIZE_def HASHTABLE_NPAGE_ONE_def

text \<open>
  One page of the wal-index: \<open>aPgno\<close> as \<open>walHashGet\<close> locates it, so that for the first page the header before it
  is left out, and \<open>aHash\<close>.
\<close>

record wi_page =
  aPgno :: "nat \<Rightarrow> nat"
  aHash :: "nat \<Rightarrow> nat"

text \<open>
  \<open>WalIndexHdr\<close>. The two salts are their eight bytes, which is how the code copies and compares them. The
  constant fields and the checksum over the header are left out.
\<close>

record WalIndexHdr =
  iChange :: nat
  bigEndCksum :: bool
  hdrSzPage :: nat
  mxFrame :: nat
  hdrNPage :: nat
  aFrameCksum :: "u32 \<times> u32"
  aSalt :: "u8 list"

text \<open>
  \<open>Wal\<close>: the fields that these routines use. \<open>live\<close> is the header in shared memory, \<open>pageRc\<close> what \<open>walIndexPage\<close>
  answers for a page.
\<close>

record Wal =
  hdr :: WalIndexHdr
  live :: WalIndexHdr
  apWiData :: "nat \<Rightarrow> wi_page"
  pageRc :: "nat \<Rightarrow> rc"
  walSzPage :: nat
  readLock :: int
  bShmUnreliable :: bool
  minFrame :: nat
  iReCksum :: nat
  nCkpt :: nat

section \<open>The hash tables\<close>

definition walHash :: "nat \<Rightarrow> nat" where
  "walHash iPage = (iPage * HASHTABLE_HASH_1) mod 2 ^ 32 AND (HASHTABLE_NSLOT - 1)"

definition walNextHash :: "nat \<Rightarrow> nat" where
  "walNextHash iPriorHash = (iPriorHash + 1) AND (HASHTABLE_NSLOT - 1)"

text \<open>\<open>walHashGet\<close>: the page itself stands for the two pointers, \<open>hash_iZero\<close> is \<open>pLoc->iZero\<close>.\<close>

definition hash_iZero :: "nat \<Rightarrow> nat" where
  "hash_iZero iHash = (if iHash = 0 then 0 else HASHTABLE_NPAGE_ONE + (iHash - 1) * HASHTABLE_NPAGE)"

definition walHashGet :: "Wal \<Rightarrow> nat \<Rightarrow> rc \<times> wi_page \<times> nat" where
  "walHashGet w iHash = (pageRc w iHash, apWiData w iHash, hash_iZero iHash)"

definition walFramePage :: "nat \<Rightarrow> nat" where
  "walFramePage iFrame = (iFrame + HASHTABLE_NPAGE - HASHTABLE_NPAGE_ONE - 1) div HASHTABLE_NPAGE"

definition walFramePgno :: "Wal \<Rightarrow> nat \<Rightarrow> nat" where
  "walFramePgno w iFrame =
     (let iHash = walFramePage iFrame in
      if iHash = 0 then aPgno (apWiData w 0) (iFrame - 1)
      else aPgno (apWiData w iHash) ((iFrame - 1 - HASHTABLE_NPAGE_ONE) mod HASHTABLE_NPAGE))"

text \<open>The number of entries of \<open>aPgno\<close> up to \<open>aHash\<close>.\<close>

definition n_entry :: "nat \<Rightarrow> nat" where
  "n_entry iHash = (if iHash = 0 then HASHTABLE_NPAGE_ONE else HASHTABLE_NPAGE)"

text \<open>The two loops of \<open>walCleanupHash\<close>, and the routine.\<close>

definition zero_above :: "nat \<Rightarrow> nat \<Rightarrow> wi_page \<Rightarrow> wi_page" where
  "zero_above n iLimit s =
     s\<lparr>aHash := (\<lambda>k. if k < HASHTABLE_NSLOT \<and> aHash s k > iLimit then 0 else aHash s k),
       aPgno := (\<lambda>j. if iLimit \<le> j \<and> j < n then 0 else aPgno s j)\<rparr>"

definition walCleanupHash :: "Wal \<Rightarrow> Wal" where
  "walCleanupHash w =
     (if mxFrame (hdr w) = 0 then w
      else let i = walFramePage (mxFrame (hdr w)) in
        case walHashGet w i of (r, s, iZero) \<Rightarrow>
          if r \<noteq> SQLITE_OK then w
          else w\<lparr>apWiData := (apWiData w)(i := zero_above (n_entry i) (mxFrame (hdr w) - iZero) s)\<rparr>)"

text \<open>The search for an empty slot, which gives up after \<open>nCollide\<close> collisions.\<close>

primrec find_empty :: "nat \<Rightarrow> (nat \<Rightarrow> nat) \<Rightarrow> nat \<Rightarrow> nat option" where
  "find_empty 0 h iKey = (if h iKey = 0 then Some iKey else None)"
| "find_empty (Suc n) h iKey = (if h iKey = 0 then Some iKey else find_empty n h (walNextHash iKey))"

definition walIndexAppend :: "Wal \<Rightarrow> nat \<Rightarrow> nat \<Rightarrow> rc \<times> Wal" where
  "walIndexAppend w iFrame iPage =
     (let i = walFramePage iFrame in
      case walHashGet w i of (r, s, iZero) \<Rightarrow>
        if r \<noteq> SQLITE_OK then (r, w)
        else
          let idx = iFrame - iZero;
              w = (if idx = 1 then w\<lparr>apWiData := (apWiData w)(i := \<lparr>aPgno = (\<lambda>_. 0), aHash = (\<lambda>_. 0)\<rparr>)\<rparr> else w);
              w = (if aPgno (apWiData w i) (idx - 1) \<noteq> 0 then walCleanupHash w else w);
              s = apWiData w i
          in case find_empty idx (aHash s) (walHash iPage) of
               None \<Rightarrow> (SQLITE_CORRUPT, w)
             | Some iKey \<Rightarrow>
                 (SQLITE_OK, w\<lparr>apWiData := (apWiData w)
                    (i := s\<lparr>aPgno := (aPgno s)(idx - 1 := iPage), aHash := (aHash s)(iKey := idx mod 2 ^ 16)\<rparr>)\<rparr>))"

section \<open>Looking up a page\<close>

text \<open>The loop over the slots of one table; \<open>None\<close> when it gives up.\<close>

primrec scan_slots :: "nat \<Rightarrow> wi_page \<Rightarrow> nat \<Rightarrow> nat \<Rightarrow> nat \<Rightarrow> nat \<Rightarrow> nat \<Rightarrow> nat \<Rightarrow> nat option" where
  "scan_slots 0 s iZero iLast minF pgno iKey iRead =
     (if aHash s iKey = 0 then Some iRead else None)"
| "scan_slots (Suc n) s iZero iLast minF pgno iKey iRead =
     (let iH = aHash s iKey in
      if iH = 0 then Some iRead
      else let iFrame = iH + iZero;
               iRead = (if iFrame \<le> iLast \<and> iFrame \<ge> minF \<and> aPgno s (iH - 1) = pgno then iFrame else iRead)
           in scan_slots n s iZero iLast minF pgno (walNextHash iKey) iRead)"

text \<open>The loop over the tables, from table \<open>iMin + n - 1\<close> down to \<open>iMin\<close>.\<close>

primrec scan_tables :: "nat \<Rightarrow> Wal \<Rightarrow> nat \<Rightarrow> nat \<Rightarrow> nat \<Rightarrow> rc \<times> nat" where
  "scan_tables 0 w iMin iLast pgno = (SQLITE_OK, 0)"
| "scan_tables (Suc n) w iMin iLast pgno =
     (case walHashGet w (iMin + n) of (r, s, iZero) \<Rightarrow>
        if r \<noteq> SQLITE_OK then (r, 0)
        else case scan_slots HASHTABLE_NSLOT s iZero iLast (minFrame w) pgno (walHash pgno) 0 of
               None \<Rightarrow> (SQLITE_CORRUPT, 0)
             | Some iRead \<Rightarrow> if iRead \<noteq> 0 then (SQLITE_OK, iRead) else scan_tables n w iMin iLast pgno)"

definition walFindFrame :: "Wal \<Rightarrow> nat \<Rightarrow> rc \<times> nat" where
  "walFindFrame w pgno =
     (let iLast = mxFrame (hdr w) in
      if iLast = 0 \<or> readLock w = 0 \<and> \<not> bShmUnreliable w then (SQLITE_OK, 0)
      else let iMinHash = walFramePage (minFrame w) in
        scan_tables (walFramePage iLast + 1 - iMinHash) w iMinHash iLast pgno)"

section \<open>The writer\<close>

text \<open>
  The last part of \<open>walFrames\<close>: the index entries of the frames it has written, and the header. The list of pages is
  those marked \<open>PGHDR_WAL_APPEND\<close> followed by the \<open>nExtra\<close> copies of the last page.
\<close>

primrec append_frames :: "nat \<Rightarrow> nat list \<Rightarrow> Wal \<Rightarrow> rc \<times> nat \<times> Wal" where
  "append_frames iFrame [] w = (SQLITE_OK, iFrame, w)"
| "append_frames iFrame (p # ps) w =
     (case walIndexAppend w (iFrame + 1) p of (r, w) \<Rightarrow>
        if r \<noteq> SQLITE_OK then (r, iFrame + 1, w) else append_frames (iFrame + 1) ps w)"

definition walIndexWriteHdr :: "Wal \<Rightarrow> Wal" where
  "walIndexWriteHdr w = w\<lparr>live := hdr w\<rparr>"

definition walFrames_index :: "Wal \<Rightarrow> nat \<Rightarrow> nat list \<Rightarrow> nat \<Rightarrow> bool \<Rightarrow> rc \<times> Wal" where
  "walFrames_index w szPage pgnos nTruncate isCommit =
     (case append_frames (mxFrame (hdr w)) pgnos w of (r, iFrame, w) \<Rightarrow>
        if r \<noteq> SQLITE_OK then (r, w)
        else
          let w = w\<lparr>hdr := (hdr w)\<lparr>hdrSzPage := (szPage AND 0xff00) OR (szPage div 2 ^ 16), mxFrame := iFrame\<rparr>\<rparr>;
              w = (if isCommit then w\<lparr>hdr := (hdr w)\<lparr>iChange := (iChange (hdr w) + 1) mod 2 ^ 32, hdrNPage := nTruncate\<rparr>\<rparr> else w)
          in (SQLITE_OK, if isCommit then walIndexWriteHdr w else w))"

text \<open>
  \<open>sqlite3WalUndo\<close>; the result is the pages given to the callback \<open>xUndo\<close>, for which the source says that it
  cannot fail.
\<close>

definition WalUndo :: "Wal \<Rightarrow> nat list \<times> Wal" where
  "WalUndo w0 =
     (let iMax = mxFrame (hdr w0);
          w = w0\<lparr>hdr := live w0\<rparr>;
          undone = map (walFramePgno w) [mxFrame (hdr w) + 1..<iMax + 1];
          w = (if iMax \<noteq> mxFrame (hdr w) then walCleanupHash w else w)
      in (undone, w\<lparr>iReCksum := 0\<rparr>))"

record savepoint_data =
  sp_mxFrame :: nat
  sp_cksum :: "u32 \<times> u32"
  sp_nCkpt :: nat

definition WalSavepoint :: "Wal \<Rightarrow> savepoint_data" where
  "WalSavepoint w = \<lparr>sp_mxFrame = mxFrame (hdr w), sp_cksum = aFrameCksum (hdr w), sp_nCkpt = nCkpt w\<rparr>"

text \<open>The result has the savepoint, which the code updates in place.\<close>

definition WalSavepointUndo :: "Wal \<Rightarrow> savepoint_data \<Rightarrow> savepoint_data \<times> Wal" where
  "WalSavepointUndo w a0 =
     (let a = (if sp_nCkpt a0 \<noteq> nCkpt w then a0\<lparr>sp_mxFrame := 0, sp_nCkpt := nCkpt w\<rparr> else a0) in
      if sp_mxFrame a < mxFrame (hdr w) then
        let w = w\<lparr>hdr := (hdr w)\<lparr>mxFrame := sp_mxFrame a, aFrameCksum := sp_cksum a\<rparr>\<rparr>;
            w = walCleanupHash w
        in (a, if iReCksum w > mxFrame (hdr w) then w\<lparr>iReCksum := 0\<rparr> else w)
      else (a, w))"

text \<open>\<open>walRestartHdr\<close>, without the checkpoint information that follows the header.\<close>

definition walRestartHdr :: "Wal \<Rightarrow> u8 list \<Rightarrow> Wal" where
  "walRestartHdr w salt1 =
     walIndexWriteHdr
       (w\<lparr>nCkpt := (nCkpt w + 1) mod 2 ^ 32,
          hdr := (hdr w)\<lparr>mxFrame := 0,
            aSalt := Put4byte (1 + Get4byte (\<lambda>i. aSalt (hdr w) ! i)) @ salt1\<rparr>\<rparr>)"

end
