(* ===== verification/Wal_Find.thy ===== *)
theory Wal_Find
  imports Wal_Index
begin

text \<open>
  The wal-index stands for the list of the page numbers of the frames: its hash tables are consistent with it after
  every operation, remnants of a writer that died included, and a search finds the last frame
  of a page.
\<close>

section \<open>Places in a hash table\<close>

definition wslot :: "nat \<Rightarrow> nat \<Rightarrow> nat" where
  "wslot p d = (walHash p + d) mod 8192"

lemma and_8191: "x AND 8191 = x mod (8192::nat)"
proof -
  have "x AND mask 13 = take_bit 13 x" by (simp add: take_bit_eq_mask)
  then show ?thesis by (simp add: mask_eq_exp_minus_1 take_bit_eq_mod)
qed

lemma walHash_less: "walHash p < 8192"
  by (simp add: walHash_def wal_consts and_8191)

lemma slot_0 [simp]: "wslot p 0 = walHash p"
  using walHash_less by (simp add: wslot_def)

lemma slot_next [simp]: "walNextHash (wslot p d) = wslot p (Suc d)"
  by (simp add: walNextHash_def wal_consts and_8191 wslot_def mod_Suc_eq)

lemma slot_less: "wslot p d < 8192"
  by (simp add: wslot_def)

lemma slot_inj:
  assumes "wslot p d = wslot p e" "d < 8192" "e < 8192"
  shows "d = e"
proof -
  have "x = y" if "wslot p x = wslot p y" "x \<le> y" "y < 8192" for x y
  proof -
    have "8192 dvd (walHash p + y) - (walHash p + x)"
      using that(1,2) unfolding wslot_def by (subst mod_eq_dvd_iff_nat [symmetric]) simp_all
    then have "8192 dvd y - x" by simp
    then have "y - x = 0" using that(3) by (metis diff_less_Suc dvd_imp_le gr0I leD le_less_trans less_Suc_eq_le)
    with that(2) show ?thesis by simp
  qed
  from this [of d e] this [of e d] assms show ?thesis by (cases "d \<le> e") simp_all
qed

section \<open>One table\<close>

text \<open>
  The table \<open>s\<close> with room for \<open>n\<close> entries holds the page numbers \<open>L\<close>: every entry has one slot, and
  the slots before it on its path belong to earlier entries.
\<close>

definition table_ok :: "nat \<Rightarrow> wi_page \<Rightarrow> nat list \<Rightarrow> bool" where
  "table_ok n s L \<longleftrightarrow>
     length L \<le> n \<and> n \<le> 4096 \<and>
     (\<forall>j<length L. aPgno s j = L ! j \<and> 0 < L ! j) \<and>
     (\<forall>j. length L \<le> j \<and> j < n \<longrightarrow> aPgno s j = 0) \<and>
     (\<forall>k<8192. aHash s k \<le> length L) \<and>
     (\<forall>k<8192. \<forall>k'<8192. aHash s k = aHash s k' \<and> aHash s k \<noteq> 0 \<longrightarrow> k = k') \<and>
     (\<forall>j<length L. \<exists>d<8192. aHash s (wslot (L ! j) d) = Suc j \<and>
        (\<forall>d'<d. 0 < aHash s (wslot (L ! j) d') \<and> aHash s (wslot (L ! j) d') \<le> j))"

lemma table_okI:
  assumes "length L \<le> n" "n \<le> 4096" "\<And>j. j < length L \<Longrightarrow> aPgno s j = L ! j \<and> 0 < L ! j"
    "\<And>j. length L \<le> j \<Longrightarrow> j < n \<Longrightarrow> aPgno s j = 0" "\<And>k. k < 8192 \<Longrightarrow> aHash s k \<le> length L"
    "\<And>k k'. k < 8192 \<Longrightarrow> k' < 8192 \<Longrightarrow> aHash s k = aHash s k' \<Longrightarrow> aHash s k \<noteq> 0 \<Longrightarrow> k = k'"
    "\<And>j. j < length L \<Longrightarrow> \<exists>d<8192. aHash s (wslot (L ! j) d) = Suc j \<and>
        (\<forall>d'<d. 0 < aHash s (wslot (L ! j) d') \<and> aHash s (wslot (L ! j) d') \<le> j)"
  shows "table_ok n s L"
  using assms unfolding table_ok_def by blast

lemma table_okD:
  assumes "table_ok n s L"
  shows "length L \<le> n" "n \<le> 4096" "\<And>j. j < length L \<Longrightarrow> aPgno s j = L ! j" "\<And>j. j < length L \<Longrightarrow> 0 < L ! j"
    "\<And>j. length L \<le> j \<Longrightarrow> j < n \<Longrightarrow> aPgno s j = 0" "\<And>k. k < 8192 \<Longrightarrow> aHash s k \<le> length L"
    "\<And>k k'. k < 8192 \<Longrightarrow> k' < 8192 \<Longrightarrow> aHash s k = aHash s k' \<Longrightarrow> aHash s k \<noteq> 0 \<Longrightarrow> k = k'"
    "\<And>j. j < length L \<Longrightarrow> \<exists>d<8192. aHash s (wslot (L ! j) d) = Suc j \<and>
        (\<forall>d'<d. 0 < aHash s (wslot (L ! j) d') \<and> aHash s (wslot (L ! j) d') \<le> j)"
  using assms unfolding table_ok_def by blast+

lemma table_empty: "n \<le> 4096 \<Longrightarrow> table_ok n \<lparr>aPgno = (\<lambda>_. 0), aHash = (\<lambda>_. 0)\<rparr> []"
  by (rule table_okI) simp_all

text \<open>At most half of the slots are used, so a path has an empty slot.\<close>

lemma path_ends:
  assumes "table_ok n s L"
  obtains e where "e \<le> length L" "aHash s (wslot p e) = 0" "\<And>d. d < e \<Longrightarrow> aHash s (wslot p d) \<noteq> 0"
proof -
  note t = table_okD [OF assms]
  have "\<exists>d\<le>length L. aHash s (wslot p d) = 0"
  proof (rule ccontr)
    assume no: "\<not> (\<exists>d\<le>length L. aHash s (wslot p d) = 0)"
    have nz: "aHash s (wslot p d) \<noteq> 0" if "d \<le> length L" for d using no that by simp
    have "inj_on (\<lambda>d. aHash s (wslot p d)) {..length L}"
    proof (rule inj_onI)
      fix d e assume d: "d \<in> {..length L}" "e \<in> {..length L}" and eq: "aHash s (wslot p d) = aHash s (wslot p e)"
      have "aHash s (wslot p d) \<noteq> 0" using nz d(1) by blast
      from t(7) [OF slot_less slot_less eq this] have "wslot p d = wslot p e" .
      moreover have "d < 8192" "e < 8192" using d t(1,2) by simp_all
      ultimately show "d = e" by (rule slot_inj)
    qed
    moreover have "(\<lambda>d. aHash s (wslot p d)) ` {..length L} \<subseteq> {1..length L}"
    proof
      fix x assume "x \<in> (\<lambda>d. aHash s (wslot p d)) ` {..length L}"
      then obtain d where "d \<le> length L" "x = aHash s (wslot p d)" by auto
      then show "x \<in> {1..length L}" using nz [of d] t(6) [OF slot_less, of p d] by simp
    qed
    ultimately have "card {..length L} \<le> card {1..length L}" by (rule card_inj_on_le) simp
    then show False by simp
  qed
  then obtain e where e: "e \<le> length L" "aHash s (wslot p e) = 0" by blast
  define m where "m = (LEAST d. aHash s (wslot p d) = 0)"
  have "aHash s (wslot p m) = 0" unfolding m_def using e(2) by (rule LeastI)
  moreover have "m \<le> e" unfolding m_def using e(2) by (rule Least_le)
  moreover have "aHash s (wslot p d) \<noteq> 0" if "d < m" for d using that not_less_Least unfolding m_def by blast
  ultimately show ?thesis using that e(1) by (meson le_trans)
qed

lemma find_empty_eq:
  "d \<le> e \<Longrightarrow> e \<le> d + n \<Longrightarrow> h (wslot p e) = 0 \<Longrightarrow> (\<And>d. d < e \<Longrightarrow> h (wslot p d) \<noteq> 0) \<Longrightarrow>
     find_empty n h (wslot p d) = Some (wslot p e)"
proof (induction n arbitrary: d)
  case 0
  then have "d = e" by simp
  with 0 show ?case by simp
next
  case (Suc n)
  show ?case
  proof (cases "d = e")
    case True
    with Suc.prems show ?thesis by simp
  next
    case False
    with Suc.prems have "find_empty n h (wslot p (Suc d)) = Some (wslot p e)" by (intro Suc.IH) auto
    moreover have "h (wslot p d) \<noteq> 0" using False Suc.prems(1,4) by simp
    ultimately show ?thesis by simp
  qed
qed

lemma table_append:
  assumes t: "table_ok n s L" and room: "length L < n" and p: "0 < p"
  obtains k where "find_empty (length L + 1) (aHash s) (walHash p) = Some k"
    "table_ok n (s\<lparr>aPgno := (aPgno s)(length L := p), aHash := (aHash s)(k := length L + 1)\<rparr>) (L @ [p])"
proof -
  note td = table_okD [OF t]
  obtain e where e: "e \<le> length L" "aHash s (wslot p e) = 0" "\<And>d. d < e \<Longrightarrow> aHash s (wslot p d) \<noteq> 0"
    using path_ends [OF t] by blast
  have find: "find_empty (length L + 1) (aHash s) (walHash p) = Some (wslot p e)"
    using find_empty_eq [of 0 e "length L + 1" "aHash s" p] e by simp
  let ?h = "(aHash s)(wslot p e := length L + 1)"
  have "table_ok n (s\<lparr>aPgno := (aPgno s)(length L := p), aHash := ?h\<rparr>) (L @ [p])"
  proof (rule table_okI)
    fix j assume j: "j < length (L @ [p])"
    show "aPgno (s\<lparr>aPgno := (aPgno s)(length L := p), aHash := ?h\<rparr>) j = (L @ [p]) ! j \<and> 0 < (L @ [p]) ! j"
      using j td(3,4) p by (auto simp: nth_append less_Suc_eq)
    show "\<exists>d<8192. aHash (s\<lparr>aPgno := (aPgno s)(length L := p), aHash := ?h\<rparr>) (wslot ((L @ [p]) ! j) d) = Suc j \<and>
        (\<forall>d'<d. 0 < aHash (s\<lparr>aPgno := (aPgno s)(length L := p), aHash := ?h\<rparr>) (wslot ((L @ [p]) ! j) d') \<and>
           aHash (s\<lparr>aPgno := (aPgno s)(length L := p), aHash := ?h\<rparr>) (wslot ((L @ [p]) ! j) d') \<le> j)"
    proof (cases "j < length L")
      case True
      from td(8) [OF True] obtain d where d: "d < 8192" "aHash s (wslot (L ! j) d) = Suc j"
        "\<And>d'. d' < d \<Longrightarrow> 0 < aHash s (wslot (L ! j) d') \<and> aHash s (wslot (L ! j) d') \<le> j" by blast
      have "wslot (L ! j) d \<noteq> wslot p e" using d(2) e(2) by auto
      moreover have "wslot (L ! j) d' \<noteq> wslot p e" if "d' < d" for d' using d(3) [OF that] e(2) by auto
      ultimately show ?thesis using d True by (intro exI [of _ d]) (auto simp: nth_append)
    next
      case False
      then have jl: "j = length L" using j by simp
      have "0 < aHash s (wslot p d') \<and> aHash s (wslot p d') \<le> j \<and> wslot p d' \<noteq> wslot p e" if "d' < e" for d'
        using that e(2) e(3) [of d'] td(6) [OF slot_less, of p d'] jl by auto
      then show ?thesis using jl e(1) td(1,2) room by (intro exI [of _ e]) auto
    qed
  next
    fix k k' assume "k < 8192" "k' < 8192" and eq: "aHash (s\<lparr>aPgno := (aPgno s)(length L := p), aHash := ?h\<rparr>) k =
        aHash (s\<lparr>aPgno := (aPgno s)(length L := p), aHash := ?h\<rparr>) k'"
      "aHash (s\<lparr>aPgno := (aPgno s)(length L := p), aHash := ?h\<rparr>) k \<noteq> 0"
    then show "k = k'" using td(6) [of k] td(6) [of k'] td(7) [of k k'] by (auto split: if_splits)
  next
    fix k :: nat assume "k < 8192"
    then show "aHash (s\<lparr>aPgno := (aPgno s)(length L := p), aHash := ?h\<rparr>) k \<le> length (L @ [p])"
      using td(6) [of k] by simp
  qed (use td(2,5) room in auto)
  with find show ?thesis by (rule that)
qed

lemma table_cut:
  assumes t: "table_ok n s L" and m: "m \<le> length L"
  shows "table_ok n (zero_above n m s) (take m L)"
proof -
  note td = table_okD [OF t]
  have h: "aHash (zero_above n m s) k = (if aHash s k > m then 0 else aHash s k)" if "k < 8192" for k
    using that by (simp add: zero_above_def wal_consts)
  show ?thesis
  proof (rule table_okI)
    fix j assume j: "j < length (take m L)"
    then show "aPgno (zero_above n m s) j = take m L ! j \<and> 0 < take m L ! j"
      using td(3,4) by (simp add: zero_above_def)
    have "j < length L" using j by simp
    from td(8) [OF this] obtain d where d: "d < 8192" "aHash s (wslot (L ! j) d) = Suc j"
      "\<And>d'. d' < d \<Longrightarrow> 0 < aHash s (wslot (L ! j) d') \<and> aHash s (wslot (L ! j) d') \<le> j" by blast
    have "\<And>d'. d' < d \<Longrightarrow> \<not> aHash s (wslot (L ! j) d') > m" using d(3) j by fastforce
    then show "\<exists>d<8192. aHash (zero_above n m s) (wslot (take m L ! j) d) = Suc j \<and>
        (\<forall>d'<d. 0 < aHash (zero_above n m s) (wslot (take m L ! j) d') \<and> aHash (zero_above n m s) (wslot (take m L ! j) d') \<le> j)"
      using d j by (intro exI [of _ d]) (simp add: h slot_less)
  next
    fix k k' :: nat assume "k < 8192" "k' < 8192" "aHash (zero_above n m s) k = aHash (zero_above n m s) k'"
      "aHash (zero_above n m s) k \<noteq> 0"
    then show "k = k'" using td(7) [of k k'] by (simp add: h split: if_splits)
  qed (use td(1,2,5) m h in \<open>auto simp: zero_above_def\<close>)
qed

section \<open>The search in one table\<close>

text \<open>The largest number with a property, 0 if there is none.\<close>

definition is_last :: "nat \<Rightarrow> (nat \<Rightarrow> bool) \<Rightarrow> bool" where
  "is_last r P \<longleftrightarrow> (if r = 0 then \<forall>f>0. \<not> P f else P r \<and> (\<forall>f>0. P f \<longrightarrow> f \<le> r))"

lemma is_last_unique: "is_last r P \<Longrightarrow> is_last r' P \<Longrightarrow> r = r'"
  unfolding is_last_def by (metis le_antisym not_gr_zero)

lemma is_last_change: "is_last r P \<Longrightarrow> (\<And>f. 0 < f \<Longrightarrow> P f = Q f) \<Longrightarrow> is_last r Q"
  by (auto simp: is_last_def)

lemma scan_slots_fold:
  "d \<le> e \<Longrightarrow> e \<le> d + n \<Longrightarrow> aHash s (wslot p e) = 0 \<Longrightarrow> (\<And>d. d < e \<Longrightarrow> aHash s (wslot p d) \<noteq> 0) \<Longrightarrow>
     scan_slots n s z hi lo p (wslot p d) r =
       Some (fold (\<lambda>d r. let f = aHash s (wslot p d) + z in
          if f \<le> hi \<and> lo \<le> f \<and> aPgno s (aHash s (wslot p d) - 1) = p then f else r) [d..<e] r)"
proof (induction n arbitrary: d r)
  case 0
  then have "d = e" by simp
  with 0 show ?case by simp
next
  case (Suc n)
  show ?case
  proof (cases "d = e")
    case True
    with Suc.prems show ?thesis by simp
  next
    case False
    then have u: "[d..<e] = d # [Suc d..<e]" using Suc.prems(1) by (simp add: upt_conv_Cons)
    have nz: "aHash s (wslot p d) \<noteq> 0" using False Suc.prems(1,4) by simp
    have "Suc d \<le> e" "e \<le> Suc d + n" using False Suc.prems by simp_all
    note IH = Suc.IH [OF this Suc.prems(3,4)]
    show ?thesis unfolding u using nz IH by (simp add: Let_def)
  qed
qed

lemma scan_table:
  assumes t: "table_ok n s L"
  obtains r where "scan_slots HASHTABLE_NSLOT s z hi lo p (walHash p) 0 = Some r"
    "is_last r (\<lambda>f. z < f \<and> f \<le> z + length L \<and> L ! (f - z - 1) = p \<and> f \<le> hi \<and> lo \<le> f)"
proof -
  note td = table_okD [OF t]
  obtain e where e: "e \<le> length L" "aHash s (wslot p e) = 0" "\<And>d. d < e \<Longrightarrow> aHash s (wslot p d) \<noteq> 0"
    using path_ends [OF t] by blast
  define h where "h = (\<lambda>d. aHash s (wslot p d))"
  define hit where "hit = (\<lambda>d. h d + z \<le> hi \<and> lo \<le> h d + z \<and> L ! (h d - 1) = p)"
  define g where "g = (\<lambda>m. fold (\<lambda>d r. if hit d then h d + z else r) [0..<m] 0)"
  have le: "h d \<le> length L" for d unfolding h_def by (rule td(6) [OF slot_less])
  have pg: "aPgno s (h d - 1) = L ! (h d - 1)" if "d < e" for d
    using td(3) [of "h d - 1"] e(3) [OF that] le [of d] unfolding h_def by simp
  have "scan_slots HASHTABLE_NSLOT s z hi lo p (walHash p) 0 = Some (g e)"
  proof -
    have "e \<le> 0 + HASHTABLE_NSLOT" using e(1) td(1,2) by (simp add: wal_consts)
    from scan_slots_fold [OF _ this e(2,3), of z hi lo 0]
    have "scan_slots HASHTABLE_NSLOT s z hi lo p (walHash p) 0 = Some (fold (\<lambda>d r. let f = aHash s (wslot p d) + z in
          if f \<le> hi \<and> lo \<le> f \<and> aPgno s (aHash s (wslot p d) - 1) = p then f else r) [0..<e] 0)" by simp
    also have "\<dots> = Some (g e)"
      unfolding g_def using pg by (auto intro!: fold_cong simp: hit_def h_def Let_def)
    finally show ?thesis .
  qed
  moreover have place: "\<exists>d<e. h d = Suc j \<and> (\<forall>d'<d. h d' \<le> j)" if j: "j < length L" "L ! j = p" for j
  proof -
    from td(8) [OF j(1)] j(2) obtain d where d: "d < 8192" "h d = Suc j" "\<And>d'. d' < d \<Longrightarrow> 0 < h d' \<and> h d' \<le> j"
      unfolding h_def by blast
    have "d < e"
    proof (rule ccontr)
      assume "\<not> d < e"
      then have "0 < h e" using d(2) d(3) [of e] by (cases "e = d") auto
      then show False using e(2) by (simp add: h_def)
    qed
    with d show ?thesis by blast
  qed
  have mono: "h d < h d'" if "d < d'" "d' < e" "hit d'" for d d'
  proof -
    define j where "j = h d' - 1"
    have j: "j < length L" "L ! j = p" "h d' = Suc j"
      using that le [of d'] e(3) [of d'] by (simp_all add: hit_def j_def h_def)
    from place [OF j(1,2)] obtain c where c: "c < e" "h c = Suc j" "\<forall>d'<c. h d' \<le> j" by blast
    have "wslot p c = wslot p d'" using td(7) [OF slot_less slot_less, of p c p d'] c(2) j(3) by (simp add: h_def)
    then have "c = d'" using slot_inj [of p c d'] c(1) that(2) e(1) td(1,2) by simp
    with c(3) j(3) that(1) show ?thesis by fastforce
  qed
  have "is_last (g m) (\<lambda>f. \<exists>d<m. hit d \<and> f = h d + z)" if "m \<le> e" for m
    using that
  proof (induction m)
    case 0
    then show ?case by (simp add: g_def is_last_def)
  next
    case (Suc m)
    then have IH: "is_last (g m) (\<lambda>f. \<exists>d<m. hit d \<and> f = h d + z)" by simp
    have step: "g (Suc m) = (if hit m then h m + z else g m)" by (simp add: g_def)
    show ?case
    proof (cases "hit m")
      case True
      have "0 < h m + z" using e(3) [of m] Suc.prems by (simp add: h_def)
      moreover have "h d + z \<le> h m + z" if "d < Suc m" for d
        using that mono [of d m] True Suc.prems by (cases "d = m") auto
      ultimately show ?thesis using True unfolding step is_last_def by auto
    next
      case False
      have "(\<exists>d<Suc m. hit d \<and> f = h d + z) = (\<exists>d<m. hit d \<and> f = h d + z)" for f
        using False less_Suc_eq by auto
      with IH False show ?thesis unfolding step by simp
    qed
  qed
  from this [of e] have "is_last (g e) (\<lambda>f. \<exists>d<e. hit d \<and> f = h d + z)" by simp
  moreover have "(\<exists>d<e. hit d \<and> f = h d + z) = (z < f \<and> f \<le> z + length L \<and> L ! (f - z - 1) = p \<and> f \<le> hi \<and> lo \<le> f)" for f
  proof
    assume "\<exists>d<e. hit d \<and> f = h d + z"
    then obtain d where "d < e" "hit d" "f = h d + z" by blast
    then show "z < f \<and> f \<le> z + length L \<and> L ! (f - z - 1) = p \<and> f \<le> hi \<and> lo \<le> f"
      using le [of d] e(3) [of d] by (simp add: hit_def h_def)
  next
    assume f: "z < f \<and> f \<le> z + length L \<and> L ! (f - z - 1) = p \<and> f \<le> hi \<and> lo \<le> f"
    then have "f - z - 1 < length L" by auto
    from place [OF this] f obtain d where "d < e" "h d = Suc (f - z - 1)" by blast
    with f show "\<exists>d<e. hit d \<and> f = h d + z" by (intro exI [of _ d]) (simp add: hit_def)
  qed
  ultimately show ?thesis using that by simp
qed

end
