(* ===== verification/Wal_View.thy ===== *)
theory Wal_View
  imports Wal_Find
begin

text \<open>
  The whole wal-index and the operations on it: appending, undoing, savepoints, restarting, and readers at
  any point of the log.
\<close>

section \<open>Frames and tables\<close>

definition iz :: "nat \<Rightarrow> nat" where
  "iz i = (if i = 0 then 0 else 4096 * i - 34)"

lemma hash_iZero_iz: "hash_iZero i = iz i"
  by (cases i) (simp_all add: hash_iZero_def iz_def wal_consts)

lemma n_entry_iz: "iz i + n_entry i = iz (Suc i)"
  by (cases i) (simp_all add: n_entry_def iz_def wal_consts)

lemma iz_mono: "i \<le> j \<Longrightarrow> iz i \<le> iz j"
  by (cases i; cases j) (auto simp: iz_def)

lemma n_entry_le: "0 < n_entry i" "n_entry i \<le> 4096"
  by (simp_all add: n_entry_def wal_consts)

lemma frame_page:
  assumes "0 < f"
  shows "iz (walFramePage f) < f" "f \<le> iz (Suc (walFramePage f))"
proof -
  have p: "walFramePage f = (f + 33) div 4096" by (simp add: walFramePage_def wal_consts)
  define i where "i = (f + 33) div 4096"
  have b: "4096 * i \<le> f + 33" "f + 33 < 4096 + 4096 * i"
    unfolding i_def by simp (rule dividend_less_times_div, simp)
  with assms show "iz (walFramePage f) < f" "f \<le> iz (Suc (walFramePage f))"
    unfolding p i_def [symmetric] by (auto simp: iz_def)
qed

lemma frame_page_eq:
  assumes "iz i < f" "f \<le> iz (Suc i)"
  shows "walFramePage f = i"
proof -
  have f: "0 < f" using assms by simp
  have "\<not> walFramePage f < i" using frame_page(2) [OF f] iz_mono [of "Suc (walFramePage f)" i] assms(1) by auto
  moreover have "\<not> i < walFramePage f" using frame_page(1) [OF f] iz_mono [of "Suc i" "walFramePage f"] assms(2) by auto
  ultimately show ?thesis by simp
qed

section \<open>The index\<close>

text \<open>
  \<open>index_ok c w L\<close>: the wal-index of \<open>w\<close> holds the log \<open>L\<close>, a list of page numbers. A table may hold
  remnants \<open>R\<close> of frames that are no longer in the log, unless \<open>c\<close>; tables after the last frame hold anything.
\<close>

definition part :: "nat \<Rightarrow> nat list \<Rightarrow> nat list" where
  "part i L = take (n_entry i) (drop (iz i) L)"

definition index_ok :: "bool \<Rightarrow> Wal \<Rightarrow> nat list \<Rightarrow> bool" where
  "index_ok c w L \<longleftrightarrow> (\<forall>i. iz i < length L \<longrightarrow>
     (\<exists>R. table_ok (n_entry i) (apWiData w i) (part i L @ R) \<and> (c \<longrightarrow> R = [])))"

lemma index_okD:
  assumes "index_ok c w L" "iz i < length L"
  obtains R where "table_ok (n_entry i) (apWiData w i) (part i L @ R)" "c \<Longrightarrow> R = []"
  using assms unfolding index_ok_def by blast

lemma index_ok_weaken: "index_ok c w L \<Longrightarrow> index_ok False w L"
  unfolding index_ok_def by blast

lemma index_ok_fields: "apWiData w' = apWiData w \<Longrightarrow> index_ok c w' L = index_ok c w L"
  by (simp add: index_ok_def)

lemma length_part: "length (part i L) = min (n_entry i) (length L - iz i)"
  by (simp add: part_def)

lemma nth_part: "iz i + j < length L \<Longrightarrow> j < n_entry i \<Longrightarrow> part i L ! j = L ! (iz i + j)"
  by (simp add: part_def)

text \<open>A shorter log is held as well; what follows are remnants.\<close>

lemma index_ok_take:
  assumes "index_ok c w L"
  shows "index_ok False w (take n L)"
  unfolding index_ok_def
proof (intro allI impI)
  fix i assume "iz i < length (take n L)"
  then have "iz i < length L" by simp
  from index_okD [OF assms this] obtain R where R: "table_ok (n_entry i) (apWiData w i) (part i L @ R)" by blast
  have "part i (take n L) = take (n - iz i) (part i L)" by (simp add: part_def drop_take min.commute)
  then have "part i L = part i (take n L) @ drop (n - iz i) (part i L)" by simp
  with R show "\<exists>R. table_ok (n_entry i) (apWiData w i) (part i (take n L) @ R) \<and> (False \<longrightarrow> R = [])"
    by (metis append.assoc)
qed

lemma full_part:
  assumes "table_ok (n_entry i) s (part i L @ R)" "iz (Suc i) \<le> length L"
  shows "R = []"
proof -
  have "length (part i L) = n_entry i" using assms(2) n_entry_iz [of i] by (simp add: length_part)
  then show ?thesis using table_okD(1) [OF assms(1)] by simp
qed

lemma cleanup_ok:
  assumes ok: "index_ok False w L" and mx: "mxFrame (hdr w) = length L" and rc: "\<And>i. pageRc w i = SQLITE_OK"
  shows "index_ok True (walCleanupHash w) L"
proof (cases "L = []")
  case True
  then show ?thesis by (simp add: index_ok_def)
next
  case False
  define i where "i = walFramePage (length L)"
  have i: "iz i < length L" "length L \<le> iz (Suc i)" using frame_page [of "length L"] False by (simp_all add: i_def)
  define s where "s = zero_above (n_entry i) (length L - iz i) (apWiData w i)"
  have cl: "walCleanupHash w = w\<lparr>apWiData := (apWiData w)(i := s)\<rparr>"
    using False mx rc by (simp add: walCleanupHash_def Let_def walHashGet_def hash_iZero_iz i_def [symmetric] s_def)
  show ?thesis
    unfolding index_ok_def
  proof (intro allI impI)
    fix j assume j: "iz j < length L"
    from index_okD [OF ok j] obtain R where R: "table_ok (n_entry j) (apWiData w j) (part j L @ R)" by blast
    show "\<exists>R. table_ok (n_entry j) (apWiData (walCleanupHash w) j) (part j L @ R) \<and> (True \<longrightarrow> R = [])"
    proof (cases "j = i")
      case True
      have len: "length (part i L) = length L - iz i" using i n_entry_iz [of i] by (simp add: length_part)
      have "table_ok (n_entry i) s (take (length L - iz i) (part i L @ R))"
        unfolding s_def using R True len by (intro table_cut) simp_all
      then show ?thesis using True len by (simp add: cl)
    next
      case False
      have "Suc j \<le> i"
      proof (rule ccontr)
        assume "\<not> Suc j \<le> i"
        with False have "iz (Suc i) \<le> iz j" by (intro iz_mono) simp
        with i j show False by simp
      qed
      then have "iz (Suc j) \<le> length L" using iz_mono [of "Suc j" i] i by simp
      with R False full_part [OF R] show ?thesis by (simp add: cl)
    qed
  qed
qed

lemma cleanup_fields [simp]:
  "hdr (walCleanupHash w) = hdr w" "live (walCleanupHash w) = live w" "pageRc (walCleanupHash w) = pageRc w"
  "nCkpt (walCleanupHash w) = nCkpt w" "iReCksum (walCleanupHash w) = iReCksum w"
  by (simp_all add: walCleanupHash_def Let_def walHashGet_def)

section \<open>Appending\<close>

lemma part_snoc:
  assumes "iz i \<le> length L" "length L < iz (Suc i)"
  shows "part i (L @ [p]) = part i L @ [p]" "length (part i L) = length L - iz i"
  using assms n_entry_iz [of i] by (simp_all add: part_def)

lemma part_other: "i \<noteq> walFramePage (length L + 1) \<Longrightarrow> part i (L @ [p]) = part i L"
proof -
  assume ne: "i \<noteq> walFramePage (length L + 1)"
  then have "\<not> (iz i < length L + 1 \<and> length L + 1 \<le> iz (Suc i))" using frame_page_eq by blast
  then show ?thesis using n_entry_iz [of i] by (auto simp: part_def)
qed

lemma walIndexAppend_eq:
  assumes "pageRc w (walFramePage iFrame) = SQLITE_OK" "i = walFramePage iFrame" "idx = iFrame - iz i"
    "w1 = (if idx = 1 then w\<lparr>apWiData := (apWiData w)(i := \<lparr>aPgno = (\<lambda>_. 0), aHash = (\<lambda>_. 0)\<rparr>)\<rparr> else w)"
    "w2 = (if aPgno (apWiData w1 i) (idx - 1) \<noteq> 0 then walCleanupHash w1 else w1)"
    "find_empty idx (aHash (apWiData w2 i)) (walHash p) = Some k" "idx < 2 ^ 16"
  shows "walIndexAppend w iFrame p = (SQLITE_OK, w2\<lparr>apWiData := (apWiData w2)
      (i := (apWiData w2 i)\<lparr>aPgno := (aPgno (apWiData w2 i))(idx - 1 := p), aHash := (aHash (apWiData w2 i))(k := idx)\<rparr>)\<rparr>)"
proof -
  have "walIndexAppend w iFrame p = (case find_empty idx (aHash (apWiData w2 i)) (walHash p) of None \<Rightarrow> (SQLITE_CORRUPT, w2)
      | Some iKey \<Rightarrow> (SQLITE_OK, w2\<lparr>apWiData := (apWiData w2)
          (i := (apWiData w2 i)\<lparr>aPgno := (aPgno (apWiData w2 i))(idx - 1 := p), aHash := (aHash (apWiData w2 i))(iKey := idx mod 2 ^ 16)\<rparr>)\<rparr>))"
    unfolding walIndexAppend_def walHashGet_def Let_def hash_iZero_iz prod.case assms(2) [symmetric] assms(3) [symmetric]
      assms(4) [symmetric] assms(5) [symmetric] using assms(1) by (simp add: assms(2))
  then show ?thesis using assms(6,7) by simp
qed

lemma append_ok:
  assumes ok: "index_ok c w L" and mx: "c \<or> mxFrame (hdr w) = length L" and rc: "\<And>i. pageRc w i = SQLITE_OK" and p: "0 < p"
  obtains w' where "walIndexAppend w (length L + 1) p = (SQLITE_OK, w')" "index_ok True w' (L @ [p])"
    "w' = w\<lparr>apWiData := apWiData w'\<rparr>"
proof -
  define i where "i = walFramePage (length L + 1)"
  have i: "iz i \<le> length L" "length L < iz (Suc i)" using frame_page [of "length L + 1"] by (simp_all add: i_def)
  define idx where "idx = length L + 1 - iz i"
  have idx: "length (part i L) = idx - 1" "1 \<le> idx" "idx \<le> n_entry i" using part_snoc(2) [OF i] i n_entry_iz [of i] by (simp_all add: idx_def)
  define w1 where "w1 = (if idx = 1 then w\<lparr>apWiData := (apWiData w)(i := \<lparr>aPgno = (\<lambda>_. 0), aHash = (\<lambda>_. 0)\<rparr>)\<rparr> else w)"
  define w2 where "w2 = (if aPgno (apWiData w1 i) (idx - 1) \<noteq> 0 then walCleanupHash w1 else w1)"
  have table: "table_ok (n_entry i) (apWiData w2 i) (part i L) \<and> w2 = w\<lparr>apWiData := apWiData w2\<rparr> \<and>
      (\<forall>j. j \<noteq> i \<and> iz j < length L \<longrightarrow> (\<exists>R. table_ok (n_entry j) (apWiData w2 j) (part j L @ R) \<and> R = []))"
  proof -
    have other: "\<exists>R. table_ok (n_entry j) (apWiData w j) (part j L @ R) \<and> R = []" if "j \<noteq> i" "iz j < length L" for j
    proof -
      from index_okD [OF ok that(2)] obtain R where R: "table_ok (n_entry j) (apWiData w j) (part j L @ R)" by blast
      have "Suc j \<le> i"
      proof (rule ccontr)
        assume "\<not> Suc j \<le> i"
        with that(1) have "iz (Suc i) \<le> iz j" by (intro iz_mono) simp
        with i that(2) show False by simp
      qed
      then have "iz (Suc j) \<le> length L" using iz_mono [of "Suc j" i] i by simp
      with R full_part [OF R] show ?thesis by auto
    qed
    show ?thesis
    proof (cases "idx = 1")
      case True
      have "w2 = w1" using True by (simp add: w2_def w1_def)
      moreover have "part i L = []" using idx(1) True by simp
      ultimately show ?thesis using True other table_empty [OF n_entry_le(2), of i] by (simp add: w1_def)
    next
      case False
      then have "iz i < length L" using idx(2) i by (simp add: idx_def)
      from index_okD [OF ok this] obtain R where R: "table_ok (n_entry i) (apWiData w i) (part i L @ R)" "c \<Longrightarrow> R = []" by blast
      have w1: "w1 = w" using False by (simp add: w1_def)
      show ?thesis
      proof (cases "R = []")
        case True
        have "aPgno (apWiData w i) (idx - 1) = 0" using table_okD(5) [OF R(1), of "idx - 1"] True idx by simp
        then have "w2 = w" using w1 by (simp add: w2_def)
        with R(1) True other show ?thesis by simp
      next
        case rem: False
        then have "idx - 1 < length (part i L @ R)" using idx(1) by (cases R) simp_all
        then have "aPgno (apWiData w i) (idx - 1) \<noteq> 0" using table_okD(3,4) [OF R(1), of "idx - 1"] by simp
        then have w2: "w2 = walCleanupHash w" using w1 by (simp add: w2_def)
        have mx': "mxFrame (hdr w) = length L" using mx R(2) rem by blast
        have clean: "index_ok True w2 L" unfolding w2 using cleanup_ok [OF index_ok_weaken [OF ok] mx' rc] .
        have "w2 = w\<lparr>apWiData := apWiData w2\<rparr>" unfolding w2 by (simp add: walCleanupHash_def Let_def walHashGet_def)
        moreover from index_okD [OF clean \<open>iz i < length L\<close>] have "table_ok (n_entry i) (apWiData w2 i) (part i L)" by force
        moreover have "\<exists>R. table_ok (n_entry j) (apWiData w2 j) (part j L @ R) \<and> R = []" if "iz j < length L" for j
          using index_okD [OF clean that] by blast
        ultimately show ?thesis by blast
      qed
    qed
  qed
  have "length (part i L) < n_entry i" using idx by simp
  from table_append [OF table [THEN conjunct1] this p] idx(1,2) obtain k where
    k: "find_empty idx (aHash (apWiData w2 i)) (walHash p) = Some k"
      "table_ok (n_entry i) ((apWiData w2 i)\<lparr>aPgno := (aPgno (apWiData w2 i))(idx - 1 := p),
         aHash := (aHash (apWiData w2 i))(k := idx)\<rparr>) (part i L @ [p])" by auto
  have "idx < 2 ^ 16" using idx(3) n_entry_le(2) [of i] by simp
  define w' where "w' = w2\<lparr>apWiData := (apWiData w2)(i := (apWiData w2 i)\<lparr>aPgno := (aPgno (apWiData w2 i))(idx - 1 := p),
     aHash := (aHash (apWiData w2 i))(k := idx)\<rparr>)\<rparr>"
  have "walIndexAppend w (length L + 1) p = (SQLITE_OK, w')"
    unfolding w'_def by (rule walIndexAppend_eq [OF rc i_def idx_def w1_def w2_def k(1) \<open>idx < 2 ^ 16\<close>])
  moreover have "index_ok True w' (L @ [p])"
    unfolding index_ok_def
  proof (intro allI impI)
    fix j assume j: "iz j < length (L @ [p])"
    show "\<exists>R. table_ok (n_entry j) (apWiData w' j) (part j (L @ [p]) @ R) \<and> (True \<longrightarrow> R = [])"
    proof (cases "j = i")
      case True
      with k(2) part_snoc(1) [OF i] show ?thesis by (simp add: w'_def)
    next
      case False
      have "iz j \<noteq> length L"
      proof
        assume eq: "iz j = length L"
        then have "walFramePage (length L + 1) = j" using n_entry_iz [of j] n_entry_le(1) [of j] by (intro frame_page_eq) simp_all
        with False show False by (simp add: i_def)
      qed
      then have "iz j < length L" using j by simp
      moreover have "part j (L @ [p]) = part j L" using False by (intro part_other) (simp add: i_def)
      ultimately show ?thesis using table False by (auto simp: w'_def)
    qed
  qed
  moreover have "w' = w\<lparr>apWiData := apWiData w'\<rparr>"
  proof -
    have eq: "w2 = w\<lparr>apWiData := apWiData w2\<rparr>" using table by blast
    have "w2\<lparr>apWiData := x\<rparr> = w\<lparr>apWiData := x\<rparr>" for x using arg_cong [OF eq, of "\<lambda>v. v\<lparr>apWiData := x\<rparr>"] by simp
    then show ?thesis by (simp add: w'_def)
  qed
  ultimately show ?thesis by (rule that)
qed

lemma append_frames_ok:
  assumes "index_ok c w L" "c \<or> mxFrame (hdr w) = length L" "\<And>i. pageRc w i = SQLITE_OK" "\<forall>p\<in>set ps. 0 < p"
  shows "\<exists>w'. append_frames (length L) ps w = (SQLITE_OK, length L + length ps, w') \<and> index_ok False w' (L @ ps) \<and>
    w' = w\<lparr>apWiData := apWiData w'\<rparr>"
  using assms
proof (induction ps arbitrary: c w L)
  case Nil
  then show ?case using index_ok_weaken by auto
next
  case (Cons p ps)
  have p: "0 < p" using Cons.prems(4) by simp
  obtain w1 where w1: "walIndexAppend w (length L + 1) p = (SQLITE_OK, w1)" "index_ok True w1 (L @ [p])" "w1 = w\<lparr>apWiData := apWiData w1\<rparr>"
    using append_ok [OF Cons.prems(1,2,3) p] by blast
  have "pageRc w1 i = SQLITE_OK" for i using Cons.prems(3) by (subst w1(3)) simp
  from Cons.IH [OF w1(2) disjI1 [OF TrueI] this] Cons.prems(4) obtain w' where
    w': "append_frames (length (L @ [p])) ps w1 = (SQLITE_OK, length (L @ [p]) + length ps, w')" "index_ok False w' ((L @ [p]) @ ps)"
      "w' = w1\<lparr>apWiData := apWiData w'\<rparr>" by auto
  have "w' = w\<lparr>apWiData := apWiData w'\<rparr>" by (subst w'(3), subst w1(3)) simp
  with w' w1(1) show ?case by simp
qed

section \<open>Searching\<close>

text \<open>The frame numbers of a page among the first \<open>n\<close> frames, from frame \<open>lo\<close> on, and the last of them.\<close>

definition frames_of :: "nat \<Rightarrow> nat \<Rightarrow> nat \<Rightarrow> nat list \<Rightarrow> nat list" where
  "frames_of lo n p L = filter (\<lambda>f. lo \<le> f \<and> L ! (f - 1) = p) [1..<Suc n]"

definition last_frame :: "nat \<Rightarrow> nat \<Rightarrow> nat \<Rightarrow> nat list \<Rightarrow> nat" where
  "last_frame lo n p L = (if frames_of lo n p L = [] then 0 else last (frames_of lo n p L))"

lemma last_frame_is_last: "is_last (last_frame lo n p L) (\<lambda>f. 0 < f \<and> f \<le> n \<and> lo \<le> f \<and> L ! (f - 1) = p)"
proof -
  have set: "set (frames_of lo n p L) = {f. 0 < f \<and> f \<le> n \<and> lo \<le> f \<and> L ! (f - 1) = p}"
    by (auto simp: frames_of_def simp del: upt_Suc)
  show ?thesis
  proof (cases "frames_of lo n p L = []")
    case True
    then have "{f. 0 < f \<and> f \<le> n \<and> lo \<le> f \<and> L ! (f - 1) = p} = {}" using set by simp
    then show ?thesis using True by (auto simp: is_last_def last_frame_def)
  next
    case False
    define r where "r = last (frames_of lo n p L)"
    have r: "r \<in> set (frames_of lo n p L)" using False by (simp add: r_def)
    have "sorted (frames_of lo n p L)" unfolding frames_of_def by (intro sorted_wrt_filter sorted_upt)
    moreover have "frames_of lo n p L = butlast (frames_of lo n p L) @ [r]" using False by (simp add: r_def)
    ultimately have "\<forall>f\<in>set (frames_of lo n p L). f \<le> r" by (metis sorted_append set_append UnE set_ConsD order.refl empty_iff list.set_intros(1) list.set(1))
    with r False show ?thesis unfolding set by (auto simp: is_last_def last_frame_def r_def [symmetric])
  qed
qed

lemma scan_tables_ok:
  assumes ok: "index_ok c w L" and rc: "\<And>i. pageRc w i = SQLITE_OK" and hi: "hi \<le> length L"
    and n: "iz (iMin + n) < hi \<or> n = 0 \<or> iz (iMin + (n - 1)) < hi"
  shows "\<exists>r. scan_tables n w iMin hi p = (SQLITE_OK, r) \<and>
    is_last r (\<lambda>f. iz iMin < f \<and> f \<le> iz (iMin + n) \<and> f \<le> hi \<and> minFrame w \<le> f \<and> L ! (f - 1) = p)"
  using n
proof (induction n)
  case 0
  then show ?case by (auto simp: is_last_def)
next
  case (Suc n)
  define i where "i = iMin + n"
  have lt: "iz i < hi" using Suc.prems iz_mono [of i "Suc i"] by (auto simp: i_def)
  then have "iz i < length L" using hi by simp
  from index_okD [OF ok this] obtain R where R: "table_ok (n_entry i) (apWiData w i) (part i L @ R)" by blast
  obtain r where r: "scan_slots HASHTABLE_NSLOT (apWiData w i) (iz i) hi (minFrame w) p (walHash p) 0 = Some r"
    "is_last r (\<lambda>f. iz i < f \<and> f \<le> iz i + length (part i L @ R) \<and> (part i L @ R) ! (f - iz i - 1) = p \<and> f \<le> hi \<and> minFrame w \<le> f)"
    using scan_table [OF R] by blast
  have same: "(iz i < f \<and> f \<le> iz i + length (part i L @ R) \<and> (part i L @ R) ! (f - iz i - 1) = p \<and> f \<le> hi \<and> minFrame w \<le> f) =
      (iz i < f \<and> f \<le> iz (Suc i) \<and> f \<le> hi \<and> minFrame w \<le> f \<and> L ! (f - 1) = p)" for f
  proof (cases "iz i < f \<and> f \<le> hi")
    case True
    have len: "length (part i L @ R) \<le> n_entry i" by (rule table_okD(1) [OF R])
    show ?thesis
    proof (cases "f \<le> iz (Suc i)")
      case inside: True
      then have "f - iz i - 1 < length (part i L)"
        using conjunct1 [OF True] conjunct2 [OF True] hi n_entry_iz [of i] unfolding length_part min_less_iff_conj by linarith
      moreover have "part i L ! (f - iz i - 1) = L ! (f - 1)"
      proof -
        have f: "iz i + (f - iz i - 1) = f - 1" "f - 1 < length L" "f - iz i - 1 < n_entry i"
          using conjunct1 [OF True] conjunct2 [OF True] hi inside n_entry_iz [of i] by linarith+
        from nth_part [of i "f - iz i - 1" L, unfolded f(1), OF f(2,3)] show ?thesis .
      qed
      ultimately show ?thesis using True inside by (auto simp: nth_append)
    next
      case False
      then show ?thesis using len n_entry_iz [of i] by auto
    qed
  qed auto
  then have r': "is_last r (\<lambda>f. iz i < f \<and> f \<le> iz (Suc i) \<and> f \<le> hi \<and> minFrame w \<le> f \<and> L ! (f - 1) = p)"
    by (intro is_last_change [OF r(2)] same)
  have ii: "iz iMin \<le> iz i" "iMin + Suc n = Suc i" using iz_mono [of iMin i] by (simp_all add: i_def)
  show ?case
  proof (cases "r = 0")
    case False
    then have "scan_tables (Suc n) w iMin hi p = (SQLITE_OK, r)"
      using r(1) rc by (simp add: walHashGet_def hash_iZero_iz i_def)
    moreover have "is_last r (\<lambda>f. iz iMin < f \<and> f \<le> iz (iMin + Suc n) \<and> f \<le> hi \<and> minFrame w \<le> f \<and> L ! (f - 1) = p)"
    proof -
      have r_in: "iz i < r \<and> r \<le> iz (Suc i) \<and> r \<le> hi \<and> minFrame w \<le> r \<and> L ! (r - 1) = p"
        using conjunct1 [OF r' [unfolded is_last_def if_not_P [OF False]]] .
      have "f \<le> r" if "0 < f" "iz iMin < f \<and> f \<le> iz (iMin + Suc n) \<and> f \<le> hi \<and> minFrame w \<le> f \<and> L ! (f - 1) = p" for f
      proof (cases "iz i < f")
        case True
        with that r' [unfolded is_last_def if_not_P [OF False]] show ?thesis unfolding ii(2) by blast
      next
        case False
        with r_in show ?thesis by linarith
      qed
      moreover have "iz iMin < r" using ii(1) r_in by linarith
      ultimately show ?thesis unfolding is_last_def if_not_P [OF False] ii(2) using r_in by blast
    qed
    ultimately show ?thesis by blast
  next
    case True
    have "iz (iMin + (n - 1)) < hi \<or> n = 0" using lt iz_mono [of "iMin + (n - 1)" i] by (auto simp: i_def)
    then obtain r2 where r2: "scan_tables n w iMin hi p = (SQLITE_OK, r2)"
      "is_last r2 (\<lambda>f. iz iMin < f \<and> f \<le> iz i \<and> f \<le> hi \<and> minFrame w \<le> f \<and> L ! (f - 1) = p)"
      using Suc.IH unfolding i_def by blast
    have sc: "scan_tables (Suc n) w iMin hi p = (SQLITE_OK, r2)"
      using r(1) rc True r2(1) by (simp add: walHashGet_def hash_iZero_iz i_def)
    have eq: "(iz iMin < f \<and> f \<le> iz i \<and> f \<le> hi \<and> minFrame w \<le> f \<and> L ! (f - 1) = p) =
        (iz iMin < f \<and> f \<le> iz (iMin + Suc n) \<and> f \<le> hi \<and> minFrame w \<le> f \<and> L ! (f - 1) = p)" if "0 < f" for f
    proof -
      have "\<not> (iz i < f \<and> f \<le> iz (Suc i) \<and> f \<le> hi \<and> minFrame w \<le> f \<and> L ! (f - 1) = p)"
        using r' [unfolded is_last_def if_P [OF True]] that by blast
      moreover have "iz i \<le> iz (Suc i)" by (rule iz_mono) simp
      ultimately show ?thesis unfolding ii(2) by (metis le_trans not_le_imp_less)
    qed
    from sc is_last_change [OF r2(2) eq] show ?thesis by blast
  qed
qed

text \<open>A reader: a connection whose header says that the log ends at frame \<open>n\<close>, and that reads frames from \<open>lo\<close> on.\<close>

definition reader :: "Wal \<Rightarrow> nat \<Rightarrow> nat \<Rightarrow> Wal" where
  "reader w n lo = w\<lparr>hdr := (hdr w)\<lparr>mxFrame := n\<rparr>, minFrame := lo, readLock := 1\<rparr>"

lemma find_frame_ok:
  assumes ok: "index_ok c w L" and rc: "\<And>i. pageRc w i = SQLITE_OK" and n: "n \<le> length L"
  shows "walFindFrame (reader w n lo) p = (SQLITE_OK, last_frame lo n p L)"
proof (cases "n = 0")
  case True
  have "last_frame lo 0 p L = 0" by (simp add: last_frame_def frames_of_def)
  with True show ?thesis by (simp add: walFindFrame_def reader_def)
next
  case False
  define m where "m = walFramePage lo"
  define k where "k = walFramePage n + 1 - m"
  have ok': "index_ok c (reader w n lo) L" using ok by (simp add: reader_def index_ok_def)
  have rc': "pageRc (reader w n lo) i = SQLITE_OK" for i using rc by (simp add: reader_def)
  have fr: "iz (walFramePage n) < n" "n \<le> iz (Suc (walFramePage n))" using frame_page [of n] False by simp_all
  have "k = 0 \<or> iz (m + (k - 1)) < n"
  proof (cases "k = 0")
    case False
    then have "m + (k - 1) = walFramePage n" by (simp add: k_def)
    with fr show ?thesis by simp
  qed simp
  then obtain r where r: "scan_tables k (reader w n lo) m n p = (SQLITE_OK, r)"
    "is_last r (\<lambda>f. iz m < f \<and> f \<le> iz (m + k) \<and> f \<le> n \<and> lo \<le> f \<and> L ! (f - 1) = p)"
    using scan_tables_ok [OF ok' rc' n, of m k p] by (auto simp: reader_def)
  have "(iz m < f \<and> f \<le> iz (m + k) \<and> f \<le> n \<and> lo \<le> f \<and> L ! (f - 1) = p) = (0 < f \<and> f \<le> n \<and> lo \<le> f \<and> L ! (f - 1) = p)" if "0 < f" for f
  proof -
    have "iz m < f" if "lo \<le> f"
    proof (cases "lo = 0")
      case True
      then show ?thesis using \<open>0 < f\<close> by (simp add: m_def walFramePage_def wal_consts iz_def)
    next
      case False
      then show ?thesis using frame_page(1) [of lo] that by (simp add: m_def)
    qed
    moreover have "f \<le> iz (m + k)" if "f \<le> n" "lo \<le> f"
    proof (cases "m \<le> walFramePage n")
      case True
      then have "m + k = Suc (walFramePage n)" by (simp add: k_def)
      with fr that show ?thesis by simp
    next
      case False
      then have "iz (Suc (walFramePage n)) \<le> iz m" by (intro iz_mono) simp
      then show ?thesis using fr that \<open>lo \<le> f \<Longrightarrow> iz m < f\<close> by simp
    qed
    ultimately show ?thesis using that by blast
  qed
  then have "is_last r (\<lambda>f. 0 < f \<and> f \<le> n \<and> lo \<le> f \<and> L ! (f - 1) = p)"
    by (intro is_last_change [OF r(2)])
  then have "r = last_frame lo n p L" using last_frame_is_last is_last_unique by blast
  with r(1) False show ?thesis by (simp add: walFindFrame_def Let_def k_def m_def reader_def)
qed

section \<open>Histories of a writer\<close>

text \<open>
  What a connection that holds the write lock does to the index: frames appended, with or without a
  commit, an undo of the transaction, a savepoint rolled back, a restart of the log, and a writer that dies and is
  followed by a connection that takes over the header from shared memory.
\<close>

datatype wal_op = Frames nat "nat list" nat bool | Undo | SavepointUndo savepoint_data | Restart "u8 list" | Reopen

fun wal_step :: "wal_op \<Rightarrow> Wal \<Rightarrow> rc \<times> Wal" where
  "wal_step (Frames sz ps nTruncate isCommit) w = walFrames_index w sz ps nTruncate isCommit"
| "wal_step Undo w = (SQLITE_OK, snd (WalUndo w))"
| "wal_step (SavepointUndo a) w = (SQLITE_OK, snd (WalSavepointUndo w a))"
| "wal_step (Restart salt) w = (SQLITE_OK, walRestartHdr w salt)"
| "wal_step Reopen w = (SQLITE_OK, w\<lparr>hdr := live w\<rparr>)"

primrec run_wal :: "wal_op list \<Rightarrow> Wal \<Rightarrow> rc \<times> Wal" where
  "run_wal [] w = (SQLITE_OK, w)"
| "run_wal (x # xs) w = (case wal_step x w of (r, w) \<Rightarrow> if r \<noteq> SQLITE_OK then (r, w) else run_wal xs w)"

text \<open>
  The specification: the log of the connection, the committed log that everyone sees, and the number of
  restarts. A savepoint must lie in the transaction; after a restart in it, it stands for the empty log.
\<close>

record logs =
  current :: "nat list"
  committed :: "nat list"
  restarts :: nat

fun log_step :: "wal_op \<Rightarrow> logs \<Rightarrow> logs" where
  "log_step (Frames sz ps nTruncate isCommit) l =
     (let l = l\<lparr>current := current l @ ps\<rparr> in if isCommit then l\<lparr>committed := current l\<rparr> else l)"
| "log_step Undo l = l\<lparr>current := committed l\<rparr>"
| "log_step (SavepointUndo a) l = l\<lparr>current := take (if sp_nCkpt a \<noteq> restarts l then 0 else sp_mxFrame a) (current l)\<rparr>"
| "log_step (Restart salt) l = l\<lparr>current := [], committed := [], restarts := (restarts l + 1) mod 2 ^ 32\<rparr>"
| "log_step Reopen l = l\<lparr>current := committed l\<rparr>"

fun log_legal :: "wal_op \<Rightarrow> logs \<Rightarrow> bool" where
  "log_legal (Frames sz ps nTruncate isCommit) l \<longleftrightarrow> list_all (\<lambda>p. 0 < p) ps"
| "log_legal Undo l \<longleftrightarrow> True"
| "log_legal (SavepointUndo a) l \<longleftrightarrow>
     length (committed l) \<le> (if sp_nCkpt a \<noteq> restarts l then 0 else sp_mxFrame a)"
| "log_legal (Restart salt) l \<longleftrightarrow> current l = committed l"
| "log_legal Reopen l \<longleftrightarrow> True"

primrec log_legal_all :: "wal_op list \<Rightarrow> logs \<Rightarrow> bool" where
  "log_legal_all [] l = True"
| "log_legal_all (x # xs) l \<longleftrightarrow> log_legal x l \<and> log_legal_all xs (log_step x l)"

definition wal_inv :: "Wal \<Rightarrow> logs \<Rightarrow> bool" where
  "wal_inv w l \<longleftrightarrow> index_ok False w (current l) \<and> (\<forall>i. pageRc w i = SQLITE_OK) \<and>
     mxFrame (hdr w) = length (current l) \<and> mxFrame (live w) = length (committed l) \<and>
     take (length (committed l)) (current l) = committed l \<and> nCkpt w = restarts l"

lemma wal_invD:
  assumes "wal_inv w l"
  shows "index_ok False w (current l)" "\<And>i. pageRc w i = SQLITE_OK" "mxFrame (hdr w) = length (current l)"
    "mxFrame (live w) = length (committed l)" "take (length (committed l)) (current l) = committed l" "nCkpt w = restarts l"
    "length (committed l) \<le> length (current l)"
proof -
  show t: "take (length (committed l)) (current l) = committed l" using assms by (simp add: wal_inv_def)
  from arg_cong [OF t, of length] show "length (committed l) \<le> length (current l)" by simp
qed (use assms in \<open>simp_all add: wal_inv_def\<close>)

lemma wal_cut:
  assumes i: "wal_inv w l" and n: "length (committed l) \<le> n" "n \<le> length (current l)"
    and w': "apWiData w' = apWiData w" "pageRc w' = pageRc w" "mxFrame (hdr w') = n" "live w' = live w" "nCkpt w' = nCkpt w"
  shows "wal_inv w' (l\<lparr>current := take n (current l)\<rparr>)" "wal_inv (walCleanupHash w') (l\<lparr>current := take n (current l)\<rparr>)"
proof -
  note d = wal_invD [OF i]
  have ok: "index_ok False w' (take n (current l))" using index_ok_fields [OF w'(1)] index_ok_take [OF d(1)] by blast
  have com: "take (length (committed l)) (take n (current l)) = committed l" using d(5) n(1) by (simp add: min.absorb1)
  show "wal_inv w' (l\<lparr>current := take n (current l)\<rparr>)" using ok com w' n d by (simp add: wal_inv_def)
  have "index_ok True (walCleanupHash w') (take n (current l))" using n d w' by (intro cleanup_ok ok) simp_all
  then show "wal_inv (walCleanupHash w') (l\<lparr>current := take n (current l)\<rparr>)"
    using com w' n d index_ok_weaken by (simp add: wal_inv_def)
qed

lemma wal_inv_reck: "wal_inv (w\<lparr>iReCksum := x\<rparr>) l = wal_inv w l"
  by (simp add: wal_inv_def index_ok_def)

lemma wal_step_ok:
  assumes i: "wal_inv w l" and x: "log_legal x l"
  shows "\<exists>w'. wal_step x w = (SQLITE_OK, w') \<and> wal_inv w' (log_step x l)"
proof (cases x)
  case (Frames sz ps nTruncate isCommit)
  note d = wal_invD [OF i]
  have ps: "\<forall>p\<in>set ps. 0 < p" using x Frames by (simp add: list_all_iff)
  from append_frames_ok [OF d(1) disjI2 [OF d(3)] d(2) ps] obtain w1 where
    w1: "append_frames (length (current l)) ps w = (SQLITE_OK, length (current l) + length ps, w1)"
      "index_ok False w1 (current l @ ps)" "w1 = w\<lparr>apWiData := apWiData w1\<rparr>" by blast
  have same: "hdr w1 = hdr w" "live w1 = live w" "pageRc w1 = pageRc w" "nCkpt w1 = nCkpt w" by (subst w1(3), simp)+
  define h where "h = (let h = (hdr w)\<lparr>hdrSzPage := (sz AND 0xff00) OR (sz div 2 ^ 16), mxFrame := length (current l) + length ps\<rparr>
      in if isCommit then h\<lparr>iChange := (iChange (hdr w) + 1) mod 2 ^ 32, hdrNPage := nTruncate\<rparr> else h)"
  define w' where "w' = (if isCommit then w1\<lparr>hdr := h, live := h\<rparr> else w1\<lparr>hdr := h\<rparr>)"
  have "wal_step x w = (SQLITE_OK, w')"
    unfolding Frames wal_step.simps walFrames_index_def d(3) w1(1) using same
    by (simp add: Let_def walIndexWriteHdr_def w'_def h_def)
  moreover have "wal_inv w' (log_step x l)"
  proof -
    have h: "mxFrame h = length (current l @ ps)" by (simp add: h_def Let_def)
    have ok: "index_ok False w' (current l @ ps)" using w1(2) by (simp add: w'_def index_ok_def)
    have "hdr w' = h" "pageRc w' = pageRc w" "nCkpt w' = nCkpt w" "live w' = (if isCommit then h else live w)"
      using same by (simp_all add: w'_def)
    then show ?thesis unfolding wal_inv_def Frames using ok h d by (cases isCommit) simp_all
  qed
  ultimately show ?thesis by blast
next
  case Undo
  note d = wal_invD [OF i]
  have "mxFrame (hdr (w\<lparr>hdr := live w\<rparr>)) = length (committed l)" using d(4) by simp
  note cut = wal_cut [OF i le_refl d(7) _ _ this]
  show ?thesis unfolding Undo using cut d(5) by (simp add: WalUndo_def Let_def wal_inv_reck)
next
  case (SavepointUndo a)
  note d = wal_invD [OF i]
  define a' where "a' = (if sp_nCkpt a \<noteq> nCkpt w then a\<lparr>sp_mxFrame := 0, sp_nCkpt := nCkpt w\<rparr> else a)"
  have n: "length (committed l) \<le> sp_mxFrame a'" "sp_mxFrame a' = (if sp_nCkpt a \<noteq> restarts l then 0 else sp_mxFrame a)"
    using x SavepointUndo d(6) by (simp_all add: a'_def split: if_splits)
  define w1 where "w1 = w\<lparr>hdr := (hdr w)\<lparr>mxFrame := sp_mxFrame a', aFrameCksum := sp_cksum a'\<rparr>\<rparr>"
  have eq: "snd (WalSavepointUndo w a) = (if sp_mxFrame a' < mxFrame (hdr w) then
      (if iReCksum (walCleanupHash w1) > mxFrame (hdr (walCleanupHash w1)) then (walCleanupHash w1)\<lparr>iReCksum := 0\<rparr> else walCleanupHash w1) else w)"
    unfolding WalSavepointUndo_def Let_def a'_def [symmetric] w1_def [symmetric] by simp
  have st: "log_step x l = l\<lparr>current := take (sp_mxFrame a') (current l)\<rparr>" using n(2) by (simp add: SavepointUndo)
  have "wal_inv (snd (WalSavepointUndo w a)) (log_step x l)"
  proof (cases "sp_mxFrame a' < mxFrame (hdr w)")
    case True
    have "wal_inv (walCleanupHash w1) (l\<lparr>current := take (sp_mxFrame a') (current l)\<rparr>)"
      using True d(3) n(1) by (intro wal_cut(2) [OF i]) (simp_all add: w1_def)
    then show ?thesis unfolding eq st using True by (simp add: wal_inv_reck)
  next
    case False
    then have "l\<lparr>current := take (sp_mxFrame a') (current l)\<rparr> = l" using d(3) by simp
    then show ?thesis unfolding eq st using False i by simp
  qed
  then show ?thesis by (simp add: SavepointUndo)
next
  case (Restart salt)
  note d = wal_invD [OF i]
  show ?thesis unfolding Restart using d by (simp add: walRestartHdr_def walIndexWriteHdr_def wal_inv_def index_ok_def)
next
  case Reopen
  note d = wal_invD [OF i]
  have "mxFrame (hdr (w\<lparr>hdr := live w\<rparr>)) = length (committed l)" using d(4) by simp
  note cut = wal_cut(1) [OF i le_refl d(7) _ _ this]
  show ?thesis unfolding Reopen using cut d(5) by simp
qed

lemma run_wal_ok:
  "wal_inv w l \<Longrightarrow> log_legal_all xs l \<Longrightarrow> \<exists>w'. run_wal xs w = (SQLITE_OK, w') \<and> wal_inv w' (fold log_step xs l)"
proof (induction xs arbitrary: w l)
  case (Cons x xs)
  then obtain w1 where "wal_step x w = (SQLITE_OK, w1)" "wal_inv w1 (log_step x l)"
    using wal_step_ok [of w l x] by auto
  with Cons.IH [of w1 "log_step x l"] Cons.prems(2) show ?case by simp
qed simp

lemma frame_pgno_ok:
  assumes "index_ok c w L" "j < length L"
  shows "walFramePgno w (j + 1) = L ! j"
proof -
  define i where "i = walFramePage (j + 1)"
  have i: "iz i \<le> j" "j < iz (Suc i)" using frame_page [of "j + 1"] by (simp_all add: i_def)
  then have "iz i < length L" using assms(2) by simp
  from index_okD [OF assms(1) this] obtain R where R: "table_ok (n_entry i) (apWiData w i) (part i L @ R)" by blast
  have k: "j - iz i < length (part i L)"
    using i assms(2) n_entry_iz [of i] unfolding length_part min_less_iff_conj by linarith
  have "aPgno (apWiData w i) (j - iz i) = (part i L @ R) ! (j - iz i)" using k by (intro table_okD(3) [OF R]) simp
  also have "\<dots> = L ! j" using k i assms(2) by (simp add: nth_append nth_part length_part)
  finally have at: "aPgno (apWiData w i) (j - iz i) = L ! j" .
  show ?thesis
  proof (cases "i = 0")
    case True
    then have "walFramePage (j + 1) = 0" by (simp add: i_def)
    then show ?thesis using at True unfolding walFramePgno_def by (simp add: iz_def)
  next
    case False
    then have "(j - 4062) mod 4096 = j - iz i"
    proof -
      have "j - 4062 = (j - iz i) + 4096 * (i - 1)" "j - iz i < 4096" using False i by (cases i; simp add: iz_def)+
      then show ?thesis by simp
    qed
    with False at show ?thesis unfolding walFramePgno_def Let_def i_def [symmetric] by (simp add: wal_consts)
  qed
qed

section \<open>The property\<close>

lemma undone_pages:
  assumes "wal_inv w l"
  shows "fst (WalUndo w) = drop (length (committed l)) (current l)"
proof -
  note d = wal_invD [OF assms]
  have ok: "index_ok False (w\<lparr>hdr := live w\<rparr>) (current l)" using index_ok_fields [of "w\<lparr>hdr := live w\<rparr>" w] d(1) by simp
  have pg: "walFramePgno (w\<lparr>hdr := live w\<rparr>) (j + 1) = current l ! j" if "j < length (current l)" for j
    by (rule frame_pgno_ok [OF ok that])
  have eq: "fst (WalUndo w) = map (walFramePgno (w\<lparr>hdr := live w\<rparr>)) [length (committed l) + 1..<length (current l) + 1]"
    using d(3,4) by (simp add: WalUndo_def Let_def del: upt_Suc)
  show ?thesis
  proof (rule nth_equalityI)
    show "length (fst (WalUndo w)) = length (drop (length (committed l)) (current l))" by (simp add: eq del: upt_Suc)
    fix j assume "j < length (fst (WalUndo w))"
    then have j: "length (committed l) + j < length (current l)" by (simp add: eq del: upt_Suc)
    have "fst (WalUndo w) ! j = walFramePgno (w\<lparr>hdr := live w\<rparr>) ((length (committed l) + j) + 1)"
      using j by (simp add: eq del: upt_Suc)
    also have "\<dots> = current l ! (length (committed l) + j)" using pg [OF j] .
    finally show "fst (WalUndo w) ! j = drop (length (committed l)) (current l) ! j" using j by simp
  qed
qed

text \<open>
  C15. After every history of a writer, deaths in the middle of a transaction included, from a log that is empty
  while the shared memory holds anything, a reader whose snapshot ends at any frame of the log
  finds for every page the last frame of its snapshot that holds it, frames written later notwithstanding; and
  an undo reports exactly the pages of the frames that it takes back. This is the linear search that the
  expensive assertions of the source compare \<open>walFindFrame\<close> with.
\<close>

theorem wal_index_refines_log:
  assumes "mxFrame (hdr w0) = 0" "mxFrame (live w0) = 0" "\<forall>i. pageRc w0 i = SQLITE_OK"
    "log_legal_all ops \<lparr>current = [], committed = [], restarts = nCkpt w0\<rparr>"
    "l = fold log_step ops \<lparr>current = [], committed = [], restarts = nCkpt w0\<rparr>"
  shows "\<exists>w. run_wal ops w0 = (SQLITE_OK, w) \<and>
    mxFrame (hdr w) = length (current l) \<and> mxFrame (live w) = length (committed l) \<and>
    (\<forall>n p lo. n \<le> length (current l) \<longrightarrow> walFindFrame (reader w n lo) p = (SQLITE_OK, last_frame lo n p (current l))) \<and>
    fst (WalUndo w) = drop (length (committed l)) (current l)"
proof -
  have "wal_inv w0 \<lparr>current = [], committed = [], restarts = nCkpt w0\<rparr>"
    using assms(1-3) by (simp add: wal_inv_def index_ok_def)
  from run_wal_ok [OF this assms(4)] obtain w where w: "run_wal ops w0 = (SQLITE_OK, w)" "wal_inv w l"
    unfolding assms(5) by blast
  note d = wal_invD [OF w(2)]
  show ?thesis using w(1) d(3,4) find_frame_ok [OF d(1,2)] undone_pages [OF w(2)] by blast
qed

text \<open>An empty log whose wal-index is full of garbage.\<close>

definition test_wal :: Wal where
  "test_wal = (let h = \<lparr>iChange = 0, bigEndCksum = False, hdrSzPage = 1024, mxFrame = 0, hdrNPage = 0, aFrameCksum = (0, 0),
       aSalt = [1, 2, 3, 4, 5, 6, 7, 8]\<rparr>
     in \<lparr>hdr = h, live = h, apWiData = (\<lambda>_. \<lparr>aPgno = (\<lambda>_. 9), aHash = (\<lambda>_. 1)\<rparr>), pageRc = (\<lambda>_. SQLITE_OK), walSzPage = 1024,
         readLock = 1, bShmUnreliable = False, minFrame = 1, iReCksum = 0, nCkpt = 0\<rparr>)"

lemma wal_index_refines_log_witness:
  "\<exists>w. run_wal [Frames 1024 [3, 5, 3] 5 True, Frames 1024 [5, 7] 0 False, Reopen, Frames 1024 [6, 3] 6 True] test_wal = (SQLITE_OK, w) \<and>
     walFindFrame (reader w 3 1) 3 = (SQLITE_OK, 3) \<and> walFindFrame (reader w 5 1) 3 = (SQLITE_OK, 5) \<and>
     walFindFrame (reader w 5 1) 7 = (SQLITE_OK, 0)"
proof -
  let ?ops = "[Frames 1024 [3, 5, 3] 5 True, Frames 1024 [5, 7] 0 False, Reopen, Frames 1024 [6, 3] 6 True]"
  let ?l = "\<lparr>current = [3, 5, 3, 6, 3], committed = [3, 5, 3, 6, 3], restarts = 0\<rparr>"
  have z: "mxFrame (hdr test_wal) = 0" "mxFrame (live test_wal) = 0" "\<forall>i. pageRc test_wal i = SQLITE_OK"
    by (simp_all add: test_wal_def Let_def)
  have legal: "log_legal_all ?ops \<lparr>current = [], committed = [], restarts = nCkpt test_wal\<rparr>" by (simp add: Let_def)
  have l: "?l = fold log_step ?ops \<lparr>current = [], committed = [], restarts = nCkpt test_wal\<rparr>"
    by (simp add: Let_def test_wal_def)
  obtain w where w: "run_wal ?ops test_wal = (SQLITE_OK, w)"
    "\<And>n p lo. n \<le> length (current ?l) \<Longrightarrow> walFindFrame (reader w n lo) p = (SQLITE_OK, last_frame lo n p (current ?l))"
    using wal_index_refines_log [OF z legal l] by blast
  have "last_frame 1 3 3 [3, 5, 3, 6, 3] = 3" "last_frame 1 5 3 [3, 5, 3, 6, 3] = 5" "last_frame 1 5 7 [3, 5, 3, 6, 3] = 0"
    by (simp_all add: last_frame_def frames_of_def upt_rec)
  then show ?thesis using w(1) w(2) [of 3 1 3] w(2) [of 5 1 3] w(2) [of 5 1 7] by (intro exI [of _ w]) simp
qed

end
