(* ===== verification/Wal_Iter.thy ===== *)
theory Wal_Iter
  imports Wal_View
begin

text \<open>
  The iterator of a checkpoint (\<open>wal.c\<close>): each table of the wal-index is sorted by page number, keeping the last frame
  of a page, and the sorted tables are merged on the fly. An index array \<open>ht_slot *\<close> is a list; the
  sublists of the sort are disjoint parts of one array in the source.
\<close>

section \<open>The merge sort\<close>

function walMerge :: "(nat \<Rightarrow> nat) \<Rightarrow> nat list \<Rightarrow> nat list \<Rightarrow> nat list" where
  "walMerge aContent aLeft aRight =
     (if aLeft = [] \<and> aRight = [] then []
      else
        let (logpage, aLeft, aRight) =
              (if aLeft \<noteq> [] \<and> (aRight = [] \<or> aContent (hd aLeft) < aContent (hd aRight))
               then (hd aLeft, tl aLeft, aRight) else (hd aRight, aLeft, tl aRight));
            aLeft = (if aLeft \<noteq> [] \<and> aContent (hd aLeft) = aContent logpage then tl aLeft else aLeft)
        in logpage # walMerge aContent aLeft aRight)"
  by auto
termination
  by (relation "measure (\<lambda>(c, l, r). length l + length r)")
    (auto split: if_splits simp: neq_Nil_conv)

declare walMerge.simps [simp del]

text \<open>The inner loop of \<open>walMergesort\<close>: \<open>iSub\<close> at its end, and the array \<open>aSub\<close> with the new sublist.\<close>

function merge_carry :: "(nat \<Rightarrow> nat) \<Rightarrow> nat \<Rightarrow> nat \<Rightarrow> (nat \<Rightarrow> nat list) \<Rightarrow> nat list \<Rightarrow> nat \<times> (nat \<Rightarrow> nat list) \<times> nat list" where
  "merge_carry c iList iSub aSub aMerge =
     (if bit iList iSub then merge_carry c iList (iSub + 1) aSub (walMerge c (aSub iSub) aMerge)
      else (iSub, aSub(iSub := aMerge), aMerge))"
  by auto
termination
proof (relation "measure (\<lambda>(c, iList, iSub, aSub, aMerge). iList - iSub)")
  fix c :: "nat \<Rightarrow> nat" and iList iSub :: nat and aSub :: "nat \<Rightarrow> nat list" and aMerge :: "nat list"
  assume "bit iList iSub"
  then have "iList div 2 ^ iSub \<noteq> 0" unfolding bit_iff_odd by (metis even_zero)
  then have "2 ^ iSub \<le> iList" by (simp add: div_eq_0_iff)
  with less_exp [of iSub] have "iSub < iList" by linarith
  then show "((c, iList, iSub + 1, aSub, walMerge c (aSub iSub) aMerge), (c, iList, iSub, aSub, aMerge))
      \<in> measure (\<lambda>(c, iList, iSub, aSub, aMerge). iList - iSub)" by simp
qed simp

declare merge_carry.simps [simp del]

text \<open>The outer loop from position \<open>iList\<close> on, \<open>n\<close> elements left, and the last loop, \<open>k\<close> sublists left.\<close>

primrec sort_loop :: "nat \<Rightarrow> nat \<Rightarrow> (nat \<Rightarrow> nat) \<Rightarrow> nat list \<Rightarrow> nat \<times> (nat \<Rightarrow> nat list) \<times> nat list \<Rightarrow> nat \<times> (nat \<Rightarrow> nat list) \<times> nat list" where
  "sort_loop 0 iList c aList st = st"
| "sort_loop (Suc n) iList c aList st =
     (case st of (iSub, aSub, aMerge) \<Rightarrow>
        sort_loop n (iList + 1) c aList (merge_carry c iList 0 aSub [aList ! iList]))"

primrec sort_rest :: "nat \<Rightarrow> nat \<Rightarrow> (nat \<Rightarrow> nat) \<Rightarrow> nat \<Rightarrow> (nat \<Rightarrow> nat list) \<Rightarrow> nat list \<Rightarrow> nat list" where
  "sort_rest 0 iSub c nList aSub aMerge = aMerge"
| "sort_rest (Suc k) iSub c nList aSub aMerge =
     sort_rest k (iSub + 1) c nList aSub (if bit nList iSub then walMerge c (aSub iSub) aMerge else aMerge)"

definition walMergesort :: "(nat \<Rightarrow> nat) \<Rightarrow> nat list \<Rightarrow> nat list" where
  "walMergesort c aList =
     (case sort_loop (length aList) 0 c aList (0, \<lambda>_. [], []) of (iSub, aSub, aMerge) \<Rightarrow>
        sort_rest (13 - (iSub + 1)) (iSub + 1) c (length aList) aSub aMerge)"

section \<open>The iterator\<close>

record WalSegment =
  iNext :: nat
  aIndex :: "nat list"
  segPgno :: "nat \<Rightarrow> nat"
  segZero :: nat

record WalIterator =
  iPrior :: nat
  aSegment :: "WalSegment list"

text \<open>\<open>walIteratorInit\<close>; \<open>oom\<close> says that the allocation fails. Segments before the first one stay zeroed.\<close>

definition init_segment :: "Wal \<Rightarrow> nat \<Rightarrow> nat \<Rightarrow> nat \<Rightarrow> WalSegment" where
  "init_segment w nSegment iLast i =
     (case walHashGet w i of (r, s, iZero) \<Rightarrow>
        let nEntry = (if i + 1 = nSegment then iLast - iZero else n_entry i)
        in \<lparr>iNext = 0, aIndex = walMergesort (aPgno s) [0..<nEntry], segPgno = aPgno s, segZero = iZero + 1\<rparr>)"

primrec init_segments :: "nat \<Rightarrow> nat \<Rightarrow> Wal \<Rightarrow> nat \<Rightarrow> nat \<Rightarrow> rc \<times> WalSegment list" where
  "init_segments 0 i w nSegment iLast = (SQLITE_OK, [])"
| "init_segments (Suc n) i w nSegment iLast =
     (if pageRc w i \<noteq> SQLITE_OK then (pageRc w i, [])
      else case init_segments n (i + 1) w nSegment iLast of (r, ss) \<Rightarrow> (r, init_segment w nSegment iLast i # ss))"

definition no_segment :: WalSegment where
  "no_segment = \<lparr>iNext = 0, aIndex = [], segPgno = (\<lambda>_. 0), segZero = 0\<rparr>"

definition walIteratorInit :: "bool \<Rightarrow> Wal \<Rightarrow> nat \<Rightarrow> rc \<times> WalIterator option" where
  "walIteratorInit oom w nBackfill =
     (let iLast = mxFrame (hdr w); nSegment = walFramePage iLast + 1; i0 = walFramePage (nBackfill + 1) in
      if oom then (SQLITE_NOMEM, None)
      else case init_segments (nSegment - i0) i0 w nSegment iLast of (r, ss) \<Rightarrow>
        if r \<noteq> SQLITE_OK then (r, None)
        else (SQLITE_OK, Some \<lparr>iPrior = 0, aSegment = replicate (min i0 nSegment) no_segment @ ss\<rparr>))"

text \<open>
  \<open>walIteratorNext\<close>: the loop over one segment, which moves \<open>iNext\<close> to the first page after \<open>iMin\<close>; the loop over
  the segments from the last one to the first one (the list is reversed), and the routine. The result is the page, the
  frame and the iterator, or no page.
\<close>

function seg_skip :: "nat \<Rightarrow> WalSegment \<Rightarrow> WalSegment" where
  "seg_skip iMin s =
     (if iNext s < length (aIndex s) \<and> segPgno s (aIndex s ! iNext s) \<le> iMin
      then seg_skip iMin (s\<lparr>iNext := iNext s + 1\<rparr>) else s)"
  by auto
termination by (relation "measure (\<lambda>(iMin, s). length (aIndex s) - iNext s)") auto

declare seg_skip.simps [simp del]

primrec next_loop :: "WalSegment list \<Rightarrow> nat \<Rightarrow> nat \<Rightarrow> nat \<Rightarrow> nat \<times> nat \<times> WalSegment list" where
  "next_loop [] iMin iRet iFrame = (iRet, iFrame, [])"
| "next_loop (s # ss) iMin iRet iFrame =
     (let s = seg_skip iMin s;
          (iRet, iFrame) =
            (if iNext s < length (aIndex s) \<and> segPgno s (aIndex s ! iNext s) < iRet
             then (segPgno s (aIndex s ! iNext s), segZero s + aIndex s ! iNext s) else (iRet, iFrame))
      in case next_loop ss iMin iRet iFrame of (r, f, ss) \<Rightarrow> (r, f, s # ss))"

definition walIteratorNext :: "WalIterator \<Rightarrow> nat \<Rightarrow> bool \<times> nat \<times> nat \<times> WalIterator" where
  "walIteratorNext p iFrame =
     (case next_loop (rev (aSegment p)) (iPrior p) 0xFFFFFFFF iFrame of (iRet, iFrame, ss) \<Rightarrow>
        (iRet = 0xFFFFFFFF, iRet, iFrame, \<lparr>iPrior = iRet, aSegment = rev ss\<rparr>))"

section \<open>Sorting keeps the last frame of each page\<close>

text \<open>\<open>zs\<close> has, in ascending order of their keys, the largest elements of \<open>S\<close> with each key.\<close>

definition sorts :: "(nat \<Rightarrow> nat) \<Rightarrow> nat set \<Rightarrow> nat list \<Rightarrow> bool" where
  "sorts c S zs \<longleftrightarrow> sorted_wrt (\<lambda>x y. c x < c y) zs \<and> set zs = {x \<in> S. \<forall>y\<in>S. c y = c x \<longrightarrow> y \<le> x}"

lemma walMerge_set:
  assumes "sorted_wrt (\<lambda>x y. c x < c y) ls" "sorted_wrt (\<lambda>x y. c x < c y) rs"
  shows "sorted_wrt (\<lambda>x y. c x < c y) (walMerge c ls rs) \<and>
    set (walMerge c ls rs) = set rs \<union> {l \<in> set ls. \<forall>r\<in>set rs. c r \<noteq> c l}"
  using assms
proof (induction "length ls + length rs" arbitrary: ls rs rule: less_induct)
  case less
  consider "ls = []" "rs = []" | l ls' where "ls = l # ls'" "rs = [] \<or> c l < c (hd rs)"
    | r rs' where "rs = r # rs'" "ls = [] \<or> \<not> c (hd ls) < c r"
    by (cases ls; cases rs; cases "c (hd ls) < c (hd rs)") auto
  then show ?case
  proof cases
    case 1
    then show ?thesis by (subst (1 2) walMerge.simps) simp
  next
    case (2 l ls')
    have ls': "sorted_wrt (\<lambda>x y. c x < c y) ls'" "\<forall>x\<in>set ls'. c l < c x" using less.prems(1) 2 by simp_all
    have "\<not> (ls' \<noteq> [] \<and> c (hd ls') = c l)" using ls'(2) by (cases ls') auto
    then have eq: "walMerge c ls rs = l # walMerge c ls' rs" using 2 by (subst walMerge.simps) (auto simp: Let_def)
    have IH: "sorted_wrt (\<lambda>x y. c x < c y) (walMerge c ls' rs) \<and>
        set (walMerge c ls' rs) = set rs \<union> {l \<in> set ls'. \<forall>r\<in>set rs. c r \<noteq> c l}"
      using less.prems(2) ls'(1) 2 by (intro less.hyps) simp_all
    have rs: "\<forall>r\<in>set rs. c l < c r"
    proof
      fix r assume r: "r \<in> set rs"
      then obtain a as where rs: "rs = a # as" by (cases rs) auto
      with 2 have "c l < c a" by simp
      moreover have "r = a \<or> c a < c r" using r less.prems(2) rs by auto
      ultimately show "c l < c r" by auto
    qed
    then show ?thesis using IH ls'(2) 2 unfolding eq by auto
  next
    case (3 r rs')
    have rs': "sorted_wrt (\<lambda>x y. c x < c y) rs'" "\<forall>x\<in>set rs'. c r < c x" using less.prems(2) 3 by simp_all
    define ls' where "ls' = (if ls \<noteq> [] \<and> c (hd ls) = c r then tl ls else ls)"
    have eq: "walMerge c ls rs = r # walMerge c ls' rs'" using 3 by (subst walMerge.simps) (auto simp: Let_def ls'_def)
    have s': "sorted_wrt (\<lambda>x y. c x < c y) ls'" using less.prems(1) by (cases ls) (auto simp: ls'_def)
    have "length ls' \<le> length ls" by (simp add: ls'_def)
    then have IH: "sorted_wrt (\<lambda>x y. c x < c y) (walMerge c ls' rs') \<and>
        set (walMerge c ls' rs') = set rs' \<union> {l \<in> set ls'. \<forall>r\<in>set rs'. c r \<noteq> c l}"
      using s' rs'(1) 3 by (intro less.hyps) simp_all
    have gt: "\<forall>l\<in>set ls'. c r < c l"
    proof (cases ls)
      case (Cons a as)
      then have "\<forall>x\<in>set as. c a < c x" using less.prems(1) by simp
      with Cons 3 show ?thesis by (auto simp: ls'_def not_less)
    qed (simp add: ls'_def)
    have "{l \<in> set ls. \<forall>x\<in>set rs. c x \<noteq> c l} = {l \<in> set ls'. \<forall>x\<in>set rs'. c x \<noteq> c l}"
      using 3 gt by (cases ls) (auto simp: ls'_def split: if_splits)
    then show ?thesis using IH gt rs'(2) 3 unfolding eq by auto
  qed
qed

lemma walMerge_sorts:
  assumes "sorts c A ls" "sorts c B rs" "\<forall>a\<in>A. \<forall>b\<in>B. a < b" "finite B"
  shows "sorts c (A \<union> B) (walMerge c ls rs)"
proof -
  note m = walMerge_set [of c ls rs]
  have key: "(\<exists>r\<in>set rs. c r = k) = (\<exists>b\<in>B. c b = k)" for k
  proof
    assume "\<exists>b\<in>B. c b = k"
    then have ne: "{b \<in> B. c b = k} \<noteq> {}" by blast
    define b where "b = Max {b \<in> B. c b = k}"
    have "b \<in> {b \<in> B. c b = k}" unfolding b_def using ne assms(4) by (intro Max_in) auto
    moreover have "\<forall>y\<in>B. c y = k \<longrightarrow> y \<le> b" unfolding b_def using assms(4) by (auto intro: Max_ge)
    ultimately have "b \<in> set rs \<and> c b = k" using assms(2) by (auto simp: sorts_def)
    then show "\<exists>r\<in>set rs. c r = k" by blast
  qed (use assms(2) in \<open>auto simp: sorts_def\<close>)
  have "set (walMerge c ls rs) = {x \<in> A \<union> B. \<forall>y\<in>A \<union> B. c y = c x \<longrightarrow> y \<le> x}" (is "?l = ?r")
  proof
    show "?l \<subseteq> ?r"
    proof
      fix x assume "x \<in> ?l"
      then consider "x \<in> set rs" | "x \<in> set ls" "\<forall>r\<in>set rs. c r \<noteq> c x" using m assms(1,2) by (auto simp: sorts_def)
      then show "x \<in> ?r"
      proof cases
        case 1
        then have x: "x \<in> B" "\<forall>y\<in>B. c y = c x \<longrightarrow> y \<le> x" using assms(2) by (auto simp: sorts_def)
        have "\<forall>y\<in>A. y \<le> x" using assms(3) x(1) by (auto intro: less_imp_le)
        with x show ?thesis by blast
      next
        case 2
        then have "\<forall>b\<in>B. c b \<noteq> c x" using key [of "c x"] by blast
        with 2(1) assms(1) show ?thesis by (auto simp: sorts_def)
      qed
    qed
    show "?r \<subseteq> ?l"
    proof
      fix x assume x: "x \<in> ?r"
      show "x \<in> ?l"
      proof (cases "x \<in> B")
        case True
        with x have "x \<in> set rs" using assms(2) by (auto simp: sorts_def)
        with m assms(1,2) show ?thesis by (auto simp: sorts_def)
      next
        case False
        with x have xa: "x \<in> A" by blast
        have "\<forall>b\<in>B. c b \<noteq> c x"
        proof
          fix b assume "b \<in> B"
          then have "x < b" using assms(3) xa by blast
          with x \<open>b \<in> B\<close> show "c b \<noteq> c x" by auto
        qed
        then have "\<forall>r\<in>set rs. c r \<noteq> c x" using key [of "c x"] by blast
        moreover have "x \<in> set ls" using x xa assms(1) by (auto simp: sorts_def)
        ultimately show ?thesis using m assms(1,2) by (auto simp: sorts_def)
      qed
    qed
  qed
  then show ?thesis using m assms(1,2) by (auto simp: sorts_def)
qed

text \<open>The sublists: bit \<open>k\<close> of the number of elements sorted so far says that sublist \<open>k\<close> holds a block of \<open>2 ^ k\<close>.\<close>

definition block :: "nat \<Rightarrow> nat \<Rightarrow> nat set" where
  "block n k = {n div 2 ^ Suc k * 2 ^ Suc k..<n div 2 ^ Suc k * 2 ^ Suc k + 2 ^ k}"

definition subs_ok :: "(nat \<Rightarrow> nat) \<Rightarrow> nat \<Rightarrow> (nat \<Rightarrow> nat list) \<Rightarrow> bool" where
  "subs_ok c n aSub \<longleftrightarrow> (\<forall>k. bit n k \<longrightarrow> sorts c (block n k) (aSub k))"

lemma div_step: "n div 2 ^ k * 2 ^ k = n div 2 ^ Suc k * 2 ^ Suc k + (if bit n k then 2 ^ k else 0)" for n :: nat
proof -
  have "n div 2 ^ k = 2 * (n div 2 ^ k div 2) + (if bit n k then 1 else 0)"
    unfolding bit_iff_odd by (simp add: odd_two_times_div_two_succ)
  then have "n div 2 ^ k * 2 ^ k = (2 * (n div 2 ^ k div 2) + (if bit n k then 1 else 0)) * 2 ^ k" by simp
  moreover have "n div 2 ^ k div 2 = n div 2 ^ Suc k" by (simp add: div_mult2_eq [symmetric] mult.commute)
  ultimately show ?thesis by (simp add: distrib_right mult.assoc)
qed

text \<open>The bits of the next number, when the lower \<open>s\<close> bits are set and bit \<open>s\<close> is not.\<close>

lemma succ_bits:
  fixes n :: nat
  assumes "(n + 1) div 2 ^ s * 2 ^ s = n + 1" "\<not> bit n s" "n mod 2 ^ s = 2 ^ s - 1"
  shows "n div 2 ^ Suc s = (n + 1) div 2 ^ Suc s" "bit (n + 1) s" "\<And>k. k < s \<Longrightarrow> \<not> bit (n + 1) k"
    "\<And>k. s < k \<Longrightarrow> bit (n + 1) k = bit n k \<and> (n + 1) div 2 ^ Suc k = n div 2 ^ Suc k"
proof -
  define q where "q = n div 2 ^ Suc s"
  have "n div 2 ^ s * 2 ^ s = q * 2 ^ Suc s" using div_step [of n s] assms(2) by (simp add: q_def)
  then have n: "n = q * 2 ^ Suc s + (2 ^ s - 1)" using assms(3) div_mult_mod_eq [of n "2 ^ s"] by simp
  then have n1: "n + 1 = q * 2 ^ Suc s + 2 ^ s" by simp
  show d: "n div 2 ^ Suc s = (n + 1) div 2 ^ Suc s" unfolding n1 q_def [symmetric] by simp
  show "bit (n + 1) s" unfolding bit_iff_odd n1 by (simp add: div_add1_eq [of "q * 2 ^ Suc s"] mult.assoc)
  show "\<not> bit (n + 1) k" if ks: "k < s" for k
  proof -
    obtain j where s: "s = Suc k + j" using less_imp_Suc_add [OF ks] by auto
    have "n + 1 = (q * 2 ^ Suc j + 2 ^ j) * 2 * 2 ^ k" unfolding n1 s by (simp add: power_add algebra_simps)
    then have "(n + 1) div 2 ^ k = (q * 2 ^ Suc j + 2 ^ j) * 2" by simp
    then show ?thesis unfolding bit_iff_odd by simp
  qed
  show "bit (n + 1) k = bit n k \<and> (n + 1) div 2 ^ Suc k = n div 2 ^ Suc k" if sk: "s < k" for k
  proof -
    obtain j where k: "k = Suc s + j" using less_imp_Suc_add [OF sk] by auto
    have "(n + 1) div 2 ^ (Suc s + i) = n div 2 ^ (Suc s + i)" for i
      unfolding power_add div_mult2_eq d [symmetric] by simp
    from this [of j] this [of "Suc j"] show ?thesis unfolding k bit_iff_odd by simp
  qed
qed

lemma merge_carry_ok:
  assumes "subs_ok c n aSub" "\<forall>k. k < s \<longrightarrow> bit n k" "n mod 2 ^ s = 2 ^ s - 1"
    "sorts c {n + 1 - 2 ^ s..<n + 1} m" "2 ^ s \<le> n + 1"
    "merge_carry c n s aSub m = (t, aSub', m')"
  shows "subs_ok c (n + 1) aSub' \<and> bit (n + 1) t \<and> sorts c (block (n + 1) t) m' \<and>
    (n + 1) div 2 ^ Suc t * 2 ^ Suc t + 2 ^ t = n + 1"
  using assms
proof (induction c n s aSub m rule: merge_carry.induct)
  case (1 c n s aSub m)
  have n: "n = n div 2 ^ s * 2 ^ s + (2 ^ s - 1)" using 1(4) div_mult_mod_eq [of n "2 ^ s"] by simp
  show ?case
  proof (cases "bit n s")
    case True
    have start: "n + 1 = n div 2 ^ Suc s * 2 ^ Suc s + 2 ^ s + 2 ^ s"
    proof -
      have "n div 2 ^ s * 2 ^ s = n div 2 ^ Suc s * 2 ^ Suc s + 2 ^ s" using div_step [of n s] True by simp
      moreover have "(1::nat) \<le> 2 ^ s" by simp
      ultimately show ?thesis using n by linarith
    qed
    have "sorts c (block n s) (aSub s)" using 1(2) True by (simp add: subs_ok_def)
    then have "sorts c (block n s \<union> {n + 1 - 2 ^ s..<n + 1}) (walMerge c (aSub s) m)"
      using 1(5) start by (intro walMerge_sorts) (auto simp: block_def)
    moreover have "block n s \<union> {n + 1 - 2 ^ s..<n + 1} = {n + 1 - 2 ^ Suc s..<n + 1}"
      using start by (auto simp: block_def)
    ultimately have m: "sorts c {n + 1 - 2 ^ (s + 1)..<n + 1} (walMerge c (aSub s) m)" by simp
    have mod: "n mod 2 ^ (s + 1) = 2 ^ (s + 1) - 1"
    proof -
      have "n mod 2 ^ (s + 1) = n - n div 2 ^ Suc s * 2 ^ Suc s" by (simp add: minus_div_mult_eq_mod)
      then show ?thesis using start by simp
    qed
    have bits: "\<forall>k. k < s + 1 \<longrightarrow> bit n k" using 1(3) True less_Suc_eq by auto
    have eq: "merge_carry c n (s + 1) aSub (walMerge c (aSub s) m) = (t, aSub', m')"
      using 1(7) True by (subst (asm) merge_carry.simps) simp
    show ?thesis using 1(1) [OF True 1(2) bits mod m _ eq] start by simp
  next
    case False
    have r: "t = s" "aSub' = aSub(s := m)" "m' = m" using 1(7) False by (subst (asm) merge_carry.simps; simp)+
    have d: "(n + 1) div 2 ^ s * 2 ^ s = n + 1"
    proof -
      have "(1::nat) \<le> 2 ^ s" by simp
      with n have "n + 1 = n div 2 ^ s * 2 ^ s + 2 ^ s" by linarith
      then have "n + 1 = (n div 2 ^ s + 1) * 2 ^ s" by (simp add: distrib_right)
      then show ?thesis by (metis nonzero_mult_div_cancel_right power_not_zero zero_neq_numeral)
    qed
    note b = succ_bits [OF d False 1(4)]
    have last: "(n + 1) div 2 ^ Suc s * 2 ^ Suc s + 2 ^ s = n + 1" using div_step [of "n + 1" s] b(2) d by simp
    then have blk: "block (n + 1) s = {n + 1 - 2 ^ s..<n + 1}" unfolding block_def by auto
    have "subs_ok c (n + 1) aSub'"
      unfolding subs_ok_def
    proof (intro allI impI)
      fix k assume k: "bit (n + 1) k"
      then consider "k = s" | "s < k" using b(3) [of k] by linarith
      then show "sorts c (block (n + 1) k) (aSub' k)"
      proof cases
        case 1
        then show ?thesis using \<open>sorts c {n + 1 - 2 ^ s..<n + 1} m\<close> blk r by simp
      next
        case 2
        then have "bit n k" "block (n + 1) k = block n k" using b(4) k by (simp_all add: block_def)
        then show ?thesis using \<open>subs_ok c n aSub\<close> r 2 by (simp add: subs_ok_def)
      qed
    qed
    then show ?thesis using r(1,3) b(2) blk last \<open>sorts c {n + 1 - 2 ^ s..<n + 1} m\<close> by simp
  qed
qed

lemma sort_loop_ok:
  "subs_ok c i aSub \<Longrightarrow> sort_loop n i c [0..<i + n] (t, aSub, m) = (t', aSub', m') \<Longrightarrow> 0 < n \<Longrightarrow>
     subs_ok c (i + n) aSub' \<and> sorts c (block (i + n) t') m' \<and>
     (i + n) div 2 ^ Suc t' * 2 ^ Suc t' + 2 ^ t' = i + n"
proof (induction n arbitrary: i aSub t m)
  case (Suc n)
  obtain t1 aSub1 m1 where c1: "merge_carry c i 0 aSub [i] = (t1, aSub1, m1)" by (rule prod_cases3)
  have "sorts c {i + 1 - 2 ^ 0..<i + 1} [i]" by (auto simp: sorts_def)
  from merge_carry_ok [OF Suc.prems(1) _ _ this _ c1]
  have ok: "subs_ok c (i + 1) aSub1 \<and> bit (i + 1) t1 \<and> sorts c (block (i + 1) t1) m1 \<and>
    (i + 1) div 2 ^ Suc t1 * 2 ^ Suc t1 + 2 ^ t1 = i + 1" by simp
  have nth: "[0..<i + Suc n] ! i = i" by (simp del: upt_Suc)
  have eq: "sort_loop n (i + 1) c [0..<i + 1 + n] (t1, aSub1, m1) = (t', aSub', m')"
    using Suc.prems(2) c1 nth by (simp del: upt_Suc)
  show ?case
  proof (cases "n = 0")
    case True
    with eq ok show ?thesis by simp
  next
    case False
    with Suc.IH [OF _ eq] ok show ?thesis by simp
  qed
qed simp

lemma sort_rest_ok:
  "subs_ok c n aSub \<Longrightarrow> sorts c {n div 2 ^ s * 2 ^ s..<n} m \<Longrightarrow>
     sorts c {n div 2 ^ (s + k) * 2 ^ (s + k)..<n} (sort_rest k s c n aSub m)"
proof (induction k arbitrary: s m)
  case (Suc k)
  have "sorts c {n div 2 ^ Suc s * 2 ^ Suc s..<n} (if bit n s then walMerge c (aSub s) m else m)"
  proof (cases "bit n s")
    case True
    then have "sorts c (block n s) (aSub s)" using Suc.prems(1) by (simp add: subs_ok_def)
    then have "sorts c (block n s \<union> {n div 2 ^ s * 2 ^ s..<n}) (walMerge c (aSub s) m)"
      using Suc.prems(2) div_step [of n s] True by (intro walMerge_sorts) (auto simp: block_def)
    moreover have "block n s \<union> {n div 2 ^ s * 2 ^ s..<n} = {n div 2 ^ Suc s * 2 ^ Suc s..<n}"
    proof -
      have "n div 2 ^ s * 2 ^ s \<le> n" by simp
      then show ?thesis using div_step [of n s] True by (auto simp: block_def)
    qed
    ultimately show ?thesis using True by simp
  next
    case False
    then show ?thesis using Suc.prems(2) div_step [of n s] by simp
  qed
  from Suc.IH [OF Suc.prems(1) this] show ?case by simp
qed simp

lemma walMergesort_ok:
  assumes "0 < n" "n < 2 ^ 13"
  shows "sorts c {0..<n} (walMergesort c [0..<n])"
proof -
  obtain t aSub m where l: "sort_loop n 0 c [0..<n] (0, \<lambda>_. [], []) = (t, aSub, m)" by (rule prod_cases3)
  have "subs_ok c 0 (\<lambda>_. [])" by (simp add: subs_ok_def)
  from sort_loop_ok [OF this _ assms(1), of 0 "[]" t aSub m] l
  have ok: "subs_ok c n aSub" "sorts c (block n t) m" "n div 2 ^ Suc t * 2 ^ Suc t + 2 ^ t = n" by simp_all
  have "block n t = {n div 2 ^ Suc t * 2 ^ Suc t..<n}" unfolding block_def ok(3) ..
  then have s: "sorts c {n div 2 ^ (t + 1) * 2 ^ (t + 1)..<n} m" using ok(2) by simp
  have "t < 13"
  proof (rule ccontr)
    assume "\<not> t < 13"
    then have "(2::nat) ^ 13 \<le> 2 ^ t" by (intro power_increasing) simp_all
    then show False using ok(3) assms(2) by simp
  qed
  then have "t + 1 + (13 - (t + 1)) = 13" by simp
  with sort_rest_ok [OF ok(1) s, of "13 - (t + 1)"] have "sorts c {n div 2 ^ 13 * 2 ^ 13..<n} (sort_rest (13 - (t + 1)) (t + 1) c n aSub m)" by simp
  moreover have "n div 2 ^ 13 = 0" using assms(2) by simp
  ultimately show ?thesis using l by (simp add: walMergesort_def)
qed

end
