(* ===== verification/Wal_Next.thy ===== *)
theory Wal_Next
  imports Wal_Iter
begin

text \<open>
  The iterator of a checkpoint merges its segments: every step gives the smallest page that has not been given,
  with its last frame in the log.
\<close>

section \<open>One segment\<close>

abbreviation seg_key :: "WalSegment \<Rightarrow> nat \<Rightarrow> nat" where
  "seg_key s j \<equiv> segPgno s (aIndex s ! j)"

text \<open>The pages before the current one have been given, pages up to \<open>m\<close> are done.\<close>

definition seg_inv :: "nat \<Rightarrow> WalSegment \<Rightarrow> bool" where
  "seg_inv m s \<longleftrightarrow> sorted_wrt (\<lambda>x y. segPgno s x < segPgno s y) (aIndex s) \<and>
     (\<forall>j. j < iNext s \<and> j < length (aIndex s) \<longrightarrow> seg_key s j \<le> m)"

text \<open>What does not change: everything but the current position.\<close>

definition static :: "WalSegment \<Rightarrow> WalSegment" where
  "static s = s\<lparr>iNext := 0\<rparr>"

lemma static_eqD:
  assumes "static s = static t"
  shows "aIndex s = aIndex t" "segPgno s = segPgno t" "segZero s = segZero t"
  using arg_cong [OF assms, of aIndex] arg_cong [OF assms, of segPgno] arg_cong [OF assms, of segZero]
  by (simp_all add: static_def)

lemma seg_inv_mono: "seg_inv m s \<Longrightarrow> m \<le> n \<Longrightarrow> seg_inv n s"
  unfolding seg_inv_def by (meson le_trans)

lemma seg_skip_ok:
  "seg_inv m s \<Longrightarrow> seg_inv m (seg_skip m s) \<and> static (seg_skip m s) = static s \<and>
     (iNext (seg_skip m s) < length (aIndex s) \<longrightarrow> m < seg_key s (iNext (seg_skip m s)))"
proof (induction m s rule: seg_skip.induct)
  case (1 m s)
  show ?case
  proof (cases "iNext s < length (aIndex s) \<and> seg_key s (iNext s) \<le> m")
    case True
    have "seg_inv m (s\<lparr>iNext := iNext s + 1\<rparr>)" using 1(2) True by (auto simp: seg_inv_def less_Suc_eq)
    note IH = 1(1) [OF True this]
    have eq: "seg_skip m s = seg_skip m (s\<lparr>iNext := iNext s + 1\<rparr>)" using True by (subst seg_skip.simps) simp
    from IH show ?thesis unfolding eq by (simp add: static_def)
  next
    case False
    then have "seg_skip m s = s" by (subst seg_skip.simps) auto
    with 1(2) False show ?thesis by auto
  qed
qed

lemma seg_skip_gt:
  "iNext (seg_skip m s) < length (aIndex (seg_skip m s)) \<Longrightarrow> m < seg_key (seg_skip m s) (iNext (seg_skip m s))"
proof (induction m s rule: seg_skip.induct)
  case (1 m s)
  show ?case
  proof (cases "iNext s < length (aIndex s) \<and> seg_key s (iNext s) \<le> m")
    case True
    then have eq: "seg_skip m s = seg_skip m (s\<lparr>iNext := iNext s + 1\<rparr>)" by (subst seg_skip.simps) simp
    show ?thesis using 1(1) [OF True] 1(2) unfolding eq by blast
  next
    case False
    then have "seg_skip m s = s" by (subst seg_skip.simps) auto
    with 1(2) False show ?thesis by auto
  qed
qed

text \<open>The current page is the smallest one after \<open>m\<close>.\<close>

lemma seg_skip_least:
  assumes inv: "seg_inv m s" and x: "x \<in> set (aIndex s)" "m < segPgno s x"
  shows "iNext (seg_skip m s) < length (aIndex s) \<and> seg_key s (iNext (seg_skip m s)) \<le> segPgno s x"
proof -
  define k where "k = iNext (seg_skip m s)"
  have s: "aIndex (seg_skip m s) = aIndex s" "segPgno (seg_skip m s) = segPgno s"
    using seg_skip_ok [OF inv] static_eqD by blast+
  obtain j where j: "j < length (aIndex s)" "x = aIndex s ! j" using x(1) by (auto simp: in_set_conv_nth)
  have "seg_inv m (seg_skip m s)" using seg_skip_ok [OF inv] by blast
  then have le: "\<And>j. j < k \<Longrightarrow> j < length (aIndex s) \<Longrightarrow> seg_key s j \<le> m" unfolding seg_inv_def s k_def by blast
  have kj: "k \<le> j" using le [of j] x(2) j by (metis leD not_le_imp_less)
  moreover have "seg_key s k \<le> seg_key s j"
  proof (cases "k = j")
    case False
    with kj have "k < j" by simp
    then have "seg_key s k < seg_key s j" using inv j(1) unfolding seg_inv_def sorted_wrt_iff_nth_less by blast
    then show ?thesis by simp
  qed simp
  ultimately show ?thesis using j by (simp add: k_def)
qed

section \<open>All segments\<close>

text \<open>The frame of a page: that of the first segment, in the order in which they are visited, which has the page.\<close>

primrec first_frame :: "WalSegment list \<Rightarrow> nat \<Rightarrow> nat \<Rightarrow> bool" where
  "first_frame [] p f \<longleftrightarrow> False"
| "first_frame (s # ss) p f \<longleftrightarrow>
     (if p \<in> segPgno s ` set (aIndex s) then \<exists>x\<in>set (aIndex s). segPgno s x = p \<and> f = segZero s + x else first_frame ss p f)"

lemma first_frame_static: "map static ss = map static ts \<Longrightarrow> first_frame ss = first_frame ts"
proof (induction ss arbitrary: ts)
  case (Cons s ss)
  then obtain t ts' where t: "ts = t # ts'" "static s = static t" "map static ss = map static ts'" by (cases ts) auto
  show ?case using Cons.IH [OF t(3)] static_eqD [OF t(2)] t(1) by (intro ext) simp
qed simp

lemma next_loop_consE:
  assumes "next_loop (s # ss) m r0 f0 = (r, f, ss')"
  obtains r1 f1 ss1 where
    "(if iNext (seg_skip m s) < length (aIndex (seg_skip m s)) \<and> seg_key (seg_skip m s) (iNext (seg_skip m s)) < r0
      then (seg_key (seg_skip m s) (iNext (seg_skip m s)), segZero (seg_skip m s) + aIndex (seg_skip m s) ! iNext (seg_skip m s))
      else (r0, f0)) = (r1, f1)"
    "next_loop ss m r1 f1 = (r, f, ss1)" "ss' = seg_skip m s # ss1"
  using assms by (auto simp: Let_def split: prod.splits)

lemma next_loop_bounds:
  "next_loop ss m r0 f0 = (r, f, ss') \<Longrightarrow> r \<le> r0 \<and> (r = r0 \<or> m < r)"
proof (induction ss arbitrary: r0 f0 r f ss')
  case (Cons s ss)
  define t where "t = seg_skip m s"
  obtain r1 f1 ss1 where r1: "(if iNext t < length (aIndex t) \<and> seg_key t (iNext t) < r0
      then (seg_key t (iNext t), segZero t + aIndex t ! iNext t) else (r0, f0)) = (r1, f1)"
    and l: "next_loop ss m r1 f1 = (r, f, ss1)" "ss' = t # ss1"
    by (rule next_loop_consE [OF Cons.prems, folded t_def])
  have "r1 \<le> r0 \<and> (r1 = r0 \<or> m < r1)" using r1 seg_skip_gt [of m s] unfolding t_def by (auto split: if_splits)
  with Cons.IH [OF l(1)] show ?case by auto
qed simp

lemma next_loop_ok:
  "\<forall>s\<in>set ss. seg_inv m s \<Longrightarrow> next_loop ss m r0 f0 = (r, f, ss') \<Longrightarrow>
     map static ss' = map static ss \<and> (\<forall>s\<in>set ss'. seg_inv m s) \<and>
     (r = r0 \<and> f = f0 \<or> r < r0 \<and> first_frame ss r f) \<and>
     (\<forall>s\<in>set ss. \<forall>x\<in>set (aIndex s). m < segPgno s x \<longrightarrow> r \<le> segPgno s x)"
proof (induction ss arbitrary: r0 f0 r f ss')
  case (Cons s ss)
  define t where "t = seg_skip m s"
  have inv: "seg_inv m s" using Cons.prems(1) by simp
  have t: "seg_inv m t" "static t = static s" unfolding t_def using seg_skip_ok [OF inv] by blast+
  note same = static_eqD [OF t(2)]
  obtain r1 f1 ss1 where r1: "(if iNext t < length (aIndex t) \<and> seg_key t (iNext t) < r0
      then (seg_key t (iNext t), segZero t + aIndex t ! iNext t) else (r0, f0)) = (r1, f1)"
    and l: "next_loop ss m r1 f1 = (r, f, ss1)" "ss' = t # ss1"
    by (rule next_loop_consE [OF Cons.prems(2), folded t_def])
  have "\<forall>s\<in>set ss. seg_inv m s" using Cons.prems(1) by simp
  note IH = Cons.IH [OF this l(1)]
  note bd = next_loop_bounds [OF l(1)]
  have least: "r1 \<le> segPgno s x" if "x \<in> set (aIndex s)" "m < segPgno s x" for x
    using seg_skip_least [OF inv that] r1 same unfolding t_def [symmetric] by (auto split: if_splits)
  have "r = r0 \<and> f = f0 \<or> r < r0 \<and> first_frame (s # ss) r f"
  proof (cases "r < r1")
    case True
    then have rf: "r < r0" "first_frame ss r f" using IH r1 bd by (auto split: if_splits)
    have "m < r" using True bd by auto
    then have "r \<notin> segPgno s ` set (aIndex s)" using least True by fastforce
    with rf show ?thesis by simp
  next
    case False
    then have eq: "r = r1" "f = f1" using bd IH by auto
    show ?thesis
    proof (cases "iNext t < length (aIndex t) \<and> seg_key t (iNext t) < r0")
      case True
      then have "r1 = seg_key t (iNext t)" "f1 = segZero t + aIndex t ! iNext t" using r1 by simp_all
      moreover have "aIndex t ! iNext t \<in> set (aIndex s)" using True same by simp
      ultimately show ?thesis using True eq same by auto
    next
      case False
      with r1 eq show ?thesis by simp
    qed
  qed
  moreover have "\<forall>x\<in>set (aIndex s). m < segPgno s x \<longrightarrow> r \<le> segPgno s x" using least bd by fastforce
  ultimately show ?case using IH l(2) t by simp
qed simp

text \<open>The invariant of the iterator, and the frame it gives for a page.\<close>

definition iter_inv :: "WalIterator \<Rightarrow> bool" where
  "iter_inv it \<longleftrightarrow> (\<forall>s\<in>set (aSegment it). seg_inv (iPrior it) s)"

definition iter_frame :: "WalIterator \<Rightarrow> nat \<Rightarrow> nat \<Rightarrow> bool" where
  "iter_frame it = first_frame (rev (aSegment it))"

lemma first_frame_pages: "first_frame ss p f \<Longrightarrow> \<exists>s\<in>set ss. \<exists>x\<in>set (aIndex s). segPgno s x = p"
  by (induction ss) (auto split: if_splits)

lemma walIteratorNext_progress:
  assumes "walIteratorNext it f0 = (False, p, f, it')"
  shows "iPrior it < p" "p < 0xFFFFFFFF" "iPrior it' = p"
proof -
  obtain ss' where l: "next_loop (rev (aSegment it)) (iPrior it) 0xFFFFFFFF f0 = (p, f, ss')" and p: "p \<noteq> 0xFFFFFFFF" "iPrior it' = p"
    using assms by (auto simp: walIteratorNext_def split: prod.splits)
  from next_loop_bounds [OF l] p show "iPrior it < p" "p < 0xFFFFFFFF" "iPrior it' = p" by auto
qed

lemma walIteratorNext_ok:
  assumes inv: "iter_inv it" and n: "walIteratorNext it f0 = (done, p, f, it')"
  shows "\<not> done \<Longrightarrow> iter_frame it p f \<and> iter_inv it' \<and> iter_frame it' = iter_frame it"
    "iter_frame it q g \<Longrightarrow> iPrior it < q \<Longrightarrow> q < 0xFFFFFFFF \<Longrightarrow> \<not> done \<and> p \<le> q"
proof -
  obtain ss' where l: "next_loop (rev (aSegment it)) (iPrior it) 0xFFFFFFFF f0 = (p, f, ss')"
    and it': "it' = \<lparr>iPrior = p, aSegment = rev ss'\<rparr>" and d: "done = (p = 0xFFFFFFFF)"
    using n by (auto simp: walIteratorNext_def split: prod.splits)
  have "\<forall>s\<in>set (rev (aSegment it)). seg_inv (iPrior it) s" using inv by (simp add: iter_inv_def)
  note ok = next_loop_ok [OF this l]
  note bd = next_loop_bounds [OF l]
  show "iter_frame it p f \<and> iter_inv it' \<and> iter_frame it' = iter_frame it" if "\<not> done"
  proof -
    have "iPrior it < p" using that d bd by simp
    then have "\<forall>s\<in>set ss'. seg_inv p s" using ok seg_inv_mono less_imp_le by blast
    moreover have "first_frame ss' = first_frame (rev (aSegment it))" using ok first_frame_static by blast
    ultimately show ?thesis using ok that d by (auto simp: iter_inv_def iter_frame_def it')
  qed
  show "\<not> done \<and> p \<le> q" if "iter_frame it q g" "iPrior it < q" "q < 0xFFFFFFFF"
  proof -
    from first_frame_pages [OF that(1) [unfolded iter_frame_def]] obtain s x where
      "s \<in> set (rev (aSegment it))" "x \<in> set (aIndex s)" "segPgno s x = q" by blast
    with ok that(2) have "p \<le> q" by blast
    with that(3) d show ?thesis by simp
  qed
qed

section \<open>The iterator of a log\<close>

lemma init_segments_eq:
  "(\<And>i. pageRc w i = SQLITE_OK) \<Longrightarrow> init_segments n i w nS hi = (SQLITE_OK, map (init_segment w nS hi) [i..<i + n])"
proof (induction n arbitrary: i)
  case (Suc n)
  have "[i..<i + Suc n] = i # [Suc i..<Suc i + n]" by (simp add: upt_conv_Cons)
  with Suc.IH [OF Suc.prems, of "Suc i"] Suc.prems show ?case by (simp del: upt_Suc)
qed simp

lemma is_lastI: "f \<noteq> 0 \<Longrightarrow> P f \<Longrightarrow> (\<And>g. P g \<Longrightarrow> g \<le> f) \<Longrightarrow> f \<noteq> 0 \<and> is_last f P"
  by (simp add: is_last_def)

lemma is_lastD: "is_last f P \<Longrightarrow> f \<noteq> 0 \<Longrightarrow> P f" "is_last f P \<Longrightarrow> f \<noteq> 0 \<Longrightarrow> 0 < g \<Longrightarrow> P g \<Longrightarrow> g \<le> f"
  by (simp_all add: is_last_def)

text \<open>The frames of page \<open>p\<close> in table \<open>i\<close>, up to frame \<open>hi\<close>.\<close>

definition in_table :: "nat \<Rightarrow> nat \<Rightarrow> nat list \<Rightarrow> nat \<Rightarrow> nat \<Rightarrow> bool" where
  "in_table i hi L p f \<longleftrightarrow> iz i < f \<and> f \<le> min hi (iz (Suc i)) \<and> L ! (f - 1) = p"

lemma init_segment_ok:
  assumes ok: "index_ok c w L" and hi: "hi \<le> length L" "iz i < hi" and i: "i \<le> walFramePage hi"
  shows "seg_inv 0 (init_segment w (walFramePage hi + 1) hi i)"
    "p \<in> segPgno (init_segment w (walFramePage hi + 1) hi i) ` set (aIndex (init_segment w (walFramePage hi + 1) hi i)) \<longleftrightarrow>
       (\<exists>f. in_table i hi L p f)"
    "(\<exists>x\<in>set (aIndex (init_segment w (walFramePage hi + 1) hi i)). segPgno (init_segment w (walFramePage hi + 1) hi i) x = p \<and>
        f = segZero (init_segment w (walFramePage hi + 1) hi i) + x) \<longleftrightarrow> f \<noteq> 0 \<and> is_last f (in_table i hi L p)"
proof -
  define s where "s = apWiData w i"
  define n where "n = min hi (iz (Suc i)) - iz i"
  have fr: "iz (walFramePage hi) < hi" "hi \<le> iz (Suc (walFramePage hi))" using frame_page [of hi] hi by simp_all
  have nz: "iz i < iz (Suc i)" using n_entry_iz [of i] n_entry_le(1) [of i] by simp
  have n0: "0 < n" using hi(2) nz by (simp add: n_def)
  have n_le: "n \<le> n_entry i" using n_entry_iz [of i] by (simp add: n_def)
  then have n13: "n < 2 ^ 13" using n_entry_le(2) [of i] by simp
  have entries: "(if i + 1 = walFramePage hi + 1 then hi - iz i else n_entry i) = n"
  proof (cases "i = walFramePage hi")
    case True
    with fr show ?thesis by (simp add: n_def)
  next
    case False
    then have "iz (Suc i) \<le> iz (walFramePage hi)" using i by (intro iz_mono) simp
    then have "min hi (iz (Suc i)) = iz (Suc i)" using fr(1) by simp
    then have "n = iz (Suc i) - iz i" by (simp add: n_def)
    with False n_entry_iz [of i] show ?thesis by simp
  qed
  have seg: "init_segment w (walFramePage hi + 1) hi i =
      \<lparr>iNext = 0, aIndex = walMergesort (aPgno s) [0..<n], segPgno = aPgno s, segZero = iz i + 1\<rparr>"
    unfolding init_segment_def walHashGet_def prod.case hash_iZero_iz Let_def entries s_def ..
  have pg: "aPgno s j = L ! (iz i + j)" if "j < n" for j
  proof -
    have len: "iz i < length L" using hi by simp
    obtain R where R: "table_ok (n_entry i) s (part i L @ R)" using index_okD [OF ok len] unfolding s_def by blast
    have j: "iz i + j < length L" "j < n_entry i" using that hi(1) n_le by (simp_all add: n_def)
    then have "j < length (part i L)" by (simp add: length_part)
    with table_okD(3) [OF R, of j] nth_part [OF j] show ?thesis by (simp add: nth_append)
  qed
  have so: "sorts (aPgno s) {0..<n} (walMergesort (aPgno s) [0..<n])" by (rule walMergesort_ok [OF n0 n13])
  then have mem: "x \<in> set (walMergesort (aPgno s) [0..<n]) \<longleftrightarrow> x < n \<and> (\<forall>y<n. aPgno s y = aPgno s x \<longrightarrow> y \<le> x)" for x
    by (auto simp: sorts_def)
  have range: "in_table i hi L p f \<longleftrightarrow> (\<exists>x<n. f = iz i + 1 + x \<and> aPgno s x = p)" for f
  proof
    assume f: "in_table i hi L p f"
    then have "f - iz i - 1 < n" "f = iz i + 1 + (f - iz i - 1)" by (auto simp: n_def in_table_def)
    moreover have "aPgno s (f - iz i - 1) = p" using pg [OF calculation(1)] f by (simp add: in_table_def)
    ultimately show "\<exists>x<n. f = iz i + 1 + x \<and> aPgno s x = p" by blast
  next
    assume "\<exists>x<n. f = iz i + 1 + x \<and> aPgno s x = p"
    then obtain x where "x < n" "f = iz i + 1 + x" "aPgno s x = p" by blast
    with pg show "in_table i hi L p f" by (auto simp: n_def in_table_def)
  qed
  show "seg_inv 0 (init_segment w (walFramePage hi + 1) hi i)"
    using so unfolding seg by (simp add: seg_inv_def sorts_def)
  show last: "(\<exists>x\<in>set (aIndex (init_segment w (walFramePage hi + 1) hi i)). segPgno (init_segment w (walFramePage hi + 1) hi i) x = p \<and>
        f = segZero (init_segment w (walFramePage hi + 1) hi i) + x) \<longleftrightarrow> f \<noteq> 0 \<and> is_last f (in_table i hi L p)" for f
  proof
    assume "\<exists>x\<in>set (aIndex (init_segment w (walFramePage hi + 1) hi i)). segPgno (init_segment w (walFramePage hi + 1) hi i) x = p \<and>
        f = segZero (init_segment w (walFramePage hi + 1) hi i) + x"
    then obtain x where m: "x \<in> set (walMergesort (aPgno s) [0..<n])" and x: "aPgno s x = p" "f = iz i + 1 + x"
      unfolding seg by auto
    have xn: "x < n" and max: "\<And>y. y < n \<Longrightarrow> aPgno s y = aPgno s x \<Longrightarrow> y \<le> x" using m unfolding mem by blast+
    have at: "in_table i hi L p f" unfolding range using xn x by (intro exI [of _ x]) simp
    have le: "g \<le> f" if g: "in_table i hi L p g" for g
    proof -
      obtain y where y: "y < n" "g = iz i + 1 + y" "aPgno s y = p" using g unfolding range by blast
      have "y \<le> x" by (rule max [OF y(1)]) (simp add: y(3) x(1))
      with x(2) y(2) show ?thesis by simp
    qed
    have "f \<noteq> 0" using x(2) by simp
    then show "f \<noteq> 0 \<and> is_last f (in_table i hi L p)" using at le by (rule is_lastI)
  next
    assume f: "f \<noteq> 0 \<and> is_last f (in_table i hi L p)"
    then have f0: "f \<noteq> 0" and il: "is_last f (in_table i hi L p)" by simp_all
    note l = is_lastD(1) [OF il f0] is_lastD(2) [OF il f0]
    obtain x where x: "x < n" "f = iz i + 1 + x" "aPgno s x = p" using l(1) unfolding range by blast
    have max: "y \<le> x" if "y < n" "aPgno s y = aPgno s x" for y
    proof -
      have "in_table i hi L p (iz i + 1 + y)" unfolding range using that x(3) by (intro exI [of _ y]) simp
      from l(2) [OF _ this] x(2) show ?thesis by simp
    qed
    have "x \<in> set (walMergesort (aPgno s) [0..<n])" unfolding mem using x(1) max by blast
    with x show "\<exists>x\<in>set (aIndex (init_segment w (walFramePage hi + 1) hi i)). segPgno (init_segment w (walFramePage hi + 1) hi i) x = p \<and>
        f = segZero (init_segment w (walFramePage hi + 1) hi i) + x"
      unfolding seg by (intro bexI [of _ x]) simp_all
  qed
  show "p \<in> segPgno (init_segment w (walFramePage hi + 1) hi i) ` set (aIndex (init_segment w (walFramePage hi + 1) hi i)) \<longleftrightarrow>
       (\<exists>f. in_table i hi L p f)"
  proof
    assume "p \<in> segPgno (init_segment w (walFramePage hi + 1) hi i) ` set (aIndex (init_segment w (walFramePage hi + 1) hi i))"
    then obtain x where "x \<in> set (walMergesort (aPgno s) [0..<n])" "aPgno s x = p" unfolding seg by auto
    then have "x < n" "aPgno s x = p" unfolding mem by blast+
    then show "\<exists>f. in_table i hi L p f" unfolding range by blast
  next
    assume "\<exists>f. in_table i hi L p f"
    then obtain x where x: "x < n" "aPgno s x = p" unfolding range by blast
    define m where "m = Max {y. y < n \<and> aPgno s y = p}"
    have fin: "finite {y. y < n \<and> aPgno s y = p}" by simp
    have m: "m < n \<and> aPgno s m = p" unfolding m_def using Max_in [OF fin] x by blast
    have "y \<le> m" if "y < n" "aPgno s y = aPgno s m" for y unfolding m_def using Max_ge [OF fin, of y] that m by simp
    then have "m \<in> set (walMergesort (aPgno s) [0..<n])" unfolding mem using m by blast
    with m show "p \<in> segPgno (init_segment w (walFramePage hi + 1) hi i) ` set (aIndex (init_segment w (walFramePage hi + 1) hi i))"
      unfolding seg by (intro image_eqI [of _ _ m]) simp_all
  qed
qed

lemma no_segments: "\<not> first_frame (replicate m no_segment) p f"
  by (induction m) (simp_all add: no_segment_def)

lemma is_last_none: "f \<noteq> 0 \<Longrightarrow> (\<And>g. \<not> P g) \<Longrightarrow> \<not> is_last f P"
  using is_lastD(1) by blast

lemma segments_frame:
  assumes ok: "index_ok c w L" and hi: "0 < hi" "hi \<le> length L"
  shows "i0 + k \<le> walFramePage hi + 1 \<Longrightarrow>
    first_frame (rev (map (init_segment w (walFramePage hi + 1) hi) [i0..<i0 + k]) @ replicate m no_segment) p f \<longleftrightarrow>
    f \<noteq> 0 \<and> is_last f (\<lambda>f. iz i0 < f \<and> f \<le> min hi (iz (i0 + k)) \<and> L ! (f - 1) = p)"
proof (induction k)
  case 0
  have "\<not> (iz i0 < g \<and> g \<le> min hi (iz (i0 + 0)) \<and> L ! (g - 1) = p)" for g by auto
  then show ?case using no_segments is_last_none by fastforce
next
  case (Suc k)
  define i where "i = i0 + k"
  have i: "i \<le> walFramePage hi" using Suc.prems by (simp add: i_def)
  have "iz i < hi" using iz_mono [OF i] frame_page(1) [OF hi(1)] by simp
  note seg = init_segment_ok [OF ok hi(2) this i]
  have IH: "first_frame (rev (map (init_segment w (walFramePage hi + 1) hi) [i0..<i0 + k]) @ replicate m no_segment) p f \<longleftrightarrow>
      f \<noteq> 0 \<and> is_last f (\<lambda>f. iz i0 < f \<and> f \<le> min hi (iz i) \<and> L ! (f - 1) = p)"
    using Suc.IH Suc.prems unfolding i_def by simp
  have split: "rev (map (init_segment w (walFramePage hi + 1) hi) [i0..<i0 + Suc k]) @ replicate m no_segment =
      init_segment w (walFramePage hi + 1) hi i # rev (map (init_segment w (walFramePage hi + 1) hi) [i0..<i0 + k]) @ replicate m no_segment"
    by (simp add: i_def)
  have le: "iz i0 \<le> iz i" "iz i \<le> iz (Suc i)" "i0 + Suc k = Suc i" by (simp_all add: iz_mono i_def)
  define all where "all = (\<lambda>f. iz i0 < f \<and> f \<le> min hi (iz (i0 + Suc k)) \<and> L ! (f - 1) = p)"
  define low where "low = (\<lambda>f. iz i0 < f \<and> f \<le> min hi (iz i) \<and> L ! (f - 1) = p)"
  have parts: "all g \<longleftrightarrow> low g \<or> in_table i hi L p g" for g using le by (auto simp: in_table_def all_def low_def)
  have below: "g < h" if "low g" "in_table i hi L p h" for g h using that by (simp add: in_table_def low_def)
  show ?case
  proof (cases "\<exists>g. in_table i hi L p g")
    case True
    then obtain g where g: "in_table i hi L p g" by blast
    have "is_last f (in_table i hi L p) \<longleftrightarrow> is_last f all" if f: "f \<noteq> 0"
    proof
      assume l: "is_last f (in_table i hi L p)"
      have "all f" using is_lastD(1) [OF l f] parts by blast
      moreover have "h \<le> f" if h: "all h" for h
      proof -
        have "0 < h" using h by (simp add: all_def)
        from h parts [of h] consider "low h" | "in_table i hi L p h" by blast
        then show ?thesis
        proof cases
          case 1
          from below [OF this is_lastD(1) [OF l f]] show ?thesis by simp
        next
          case 2
          then show ?thesis by (rule is_lastD(2) [OF l f \<open>0 < h\<close>])
        qed
      qed
      ultimately show "is_last f all" using is_lastI [OF f] by blast
    next
      assume l: "is_last f all"
      have "0 < g" using g by (simp add: in_table_def)
      then have "g \<le> f" using is_lastD(2) [OF l f] g parts by blast
      then have "\<not> low f" using below [OF _ g] by (meson leD)
      then have "in_table i hi L p f" using is_lastD(1) [OF l f] parts by blast
      moreover have "h \<le> f" if h: "in_table i hi L p h" for h
      proof -
        have "0 < h" using h by (simp add: in_table_def)
        then show ?thesis using is_lastD(2) [OF l f] h parts by blast
      qed
      ultimately show "is_last f (in_table i hi L p)" using is_lastI [OF f] by blast
    qed
    then show ?thesis unfolding split first_frame.simps all_def [symmetric] using seg(2) [of p] seg(3) [of p f] True by auto
  next
    case False
    then have "all = low" using parts by blast
    then have IH: "first_frame (rev (map (init_segment w (walFramePage hi + 1) hi) [i0..<i0 + k]) @ replicate m no_segment) p f \<longleftrightarrow>
        f \<noteq> 0 \<and> is_last f all" using IH by (simp add: low_def)
    then show ?thesis unfolding split first_frame.simps all_def [symmetric] using seg(2) [of p] False IH by simp
  qed
qed

lemma is_last_from:
  assumes a: "a \<le> nb" and f: "nb < f"
  shows "is_last f (\<lambda>g. a < g \<and> g \<le> hi \<and> P g) \<longleftrightarrow> is_last f (\<lambda>g. 0 < g \<and> g \<le> hi \<and> nb + 1 \<le> g \<and> P g)"
proof -
  have "g \<le> f" if "g < nb + 1" for g using that f by simp
  then have "(a < g \<and> g \<le> hi \<and> P g \<longrightarrow> g \<le> f) \<longleftrightarrow> (0 < g \<and> g \<le> hi \<and> nb + 1 \<le> g \<and> P g \<longrightarrow> g \<le> f)" for g
    using a by (cases "g < nb + 1") auto
  then show ?thesis using a f unfolding is_last_def by auto
qed

lemma walIteratorInit_ok:
  assumes ok: "index_ok c w L" and rc: "\<And>i. pageRc w i = SQLITE_OK" and hi: "mxFrame (hdr w) = hi" "nb < hi" "hi \<le> length L"
  obtains it where "walIteratorInit False w nb = (SQLITE_OK, Some it)" "iPrior it = 0" "iter_inv it"
    "\<forall>p f. nb < f \<longrightarrow> iter_frame it p f = (last_frame (nb + 1) hi p L = f)"
proof -
  define i0 where "i0 = walFramePage (nb + 1)"
  define m where "m = walFramePage hi"
  have i0: "iz i0 \<le> nb" using frame_page(1) [of "nb + 1"] by (simp add: i0_def)
  have "i0 \<le> m" unfolding i0_def m_def using hi(2) by (simp add: walFramePage_def div_le_mono)
  then have mi: "i0 + (m + 1 - i0) = m + 1" by simp
  define ss where "ss = map (init_segment w (m + 1) hi) [i0..<i0 + (m + 1 - i0)]"
  define it where "it = \<lparr>iPrior = 0, aSegment = replicate (min i0 (m + 1)) no_segment @ ss\<rparr>"
  have init: "walIteratorInit False w nb = (SQLITE_OK, Some it)"
    unfolding walIteratorInit_def Let_def hi(1) m_def [symmetric] i0_def [symmetric] init_segments_eq [OF rc]
    by (simp add: it_def ss_def)
  have hi0: "0 < hi" using hi(2) by simp
  have "seg_inv 0 (init_segment w (m + 1) hi i)" if "i \<le> m" for i
  proof -
    have "iz i < hi" using iz_mono [OF that] frame_page(1) [OF hi0] unfolding m_def by simp
    then show ?thesis using init_segment_ok(1) [OF ok hi(3)] that unfolding m_def by blast
  qed
  then have inv: "iter_inv it" using mi by (auto simp: iter_inv_def it_def ss_def seg_inv_def no_segment_def)
  have mh: "min hi (iz (m + 1)) = hi" using frame_page(2) [OF hi0] by (simp add: m_def)
  have "iter_frame it p f \<longleftrightarrow> last_frame (nb + 1) hi p L = f" if f: "nb < f" for p f
  proof -
    have le: "i0 + (m + 1 - i0) \<le> walFramePage hi + 1" unfolding mi by (simp add: m_def)
    have "iter_frame it p f \<longleftrightarrow> f \<noteq> 0 \<and> is_last f (\<lambda>f. iz i0 < f \<and> f \<le> hi \<and> L ! (f - 1) = p)"
      using segments_frame [OF ok hi0 hi(3) le, of "min i0 (m + 1)" p f] unfolding mi mh
      unfolding iter_frame_def it_def ss_def m_def [symmetric] mi by (simp add: rev_map)
    also have "\<dots> \<longleftrightarrow> is_last f (\<lambda>f. 0 < f \<and> f \<le> hi \<and> nb + 1 \<le> f \<and> L ! (f - 1) = p)"
      using f by (simp add: is_last_from [OF i0 f])
    also have "\<dots> \<longleftrightarrow> last_frame (nb + 1) hi p L = f"
      using last_frame_is_last [of "nb + 1" hi p L] is_last_unique by metis
    finally show ?thesis .
  qed
  with init inv show ?thesis using that [of it] by (simp add: it_def)
qed

end
