(* ===== verification/Wal_Ckpt.thy ===== *)
theory Wal_Ckpt
  imports Wal_Next
begin

text \<open>
  Checkpoints: \<open>walCheckpoint\<close> copies the last version of each page from the log into the database file, no
  further than the oldest reader allows. Every lock and system call is answered by a record. The database file and the frames of the
  log are functions to page contents, and a write that fails leaves anything in its page.
\<close>

section \<open>The code\<close>

abbreviation (input) SQLITE_INTERRUPT :: rc where "SQLITE_INTERRUPT \<equiv> 9"

definition READMARK_NOT_USED :: nat where "READMARK_NOT_USED = 0xffffffff"
definition WAL_NREADER :: nat where "WAL_NREADER = 5"

datatype ckpt_mode = SQLITE_CHECKPOINT_PASSIVE | SQLITE_CHECKPOINT_FULL | SQLITE_CHECKPOINT_RESTART | SQLITE_CHECKPOINT_TRUNCATE

text \<open>\<open>WalCkptInfo\<close>, without the bytes that are only used for locking.\<close>

record WalCkptInfo =
  nBackfill :: nat
  aReadMark :: "nat list"
  nBackfillAttempted :: nat

text \<open>
  The answers: of \<open>walBusyLock\<close> for each read lock and for all of them at a restart, of the calls to the two files (by frame or
  page), of \<open>sqlite3OsFileSize\<close>, whether the connection is interrupted before a page, whether allocation fails.
\<close>

record 'a ckpt_env =
  busyRc :: "nat \<Rightarrow> rc"
  restartRc :: rc
  iterOom :: bool
  syncWalRc :: rc
  fileSize :: "rc \<times> nat"
  isInterrupted :: "nat \<Rightarrow> bool"
  mallocFailed :: bool
  readRc :: "nat \<Rightarrow> rc"
  writeRc :: "nat \<Rightarrow> rc"
  torn :: "nat \<Rightarrow> 'a option"
  truncateRc :: rc
  syncDbRc :: rc
  randomSalt :: "u8 list"
  truncWalRc :: rc

record 'a ckpt =
  ckWal :: Wal
  ckInfo :: WalCkptInfo
  dbFile :: "nat \<Rightarrow> 'a option"

definition walPagesize :: "Wal \<Rightarrow> nat" where
  "walPagesize w = (hdrSzPage (hdr w) AND 0xfe00) + (hdrSzPage (hdr w) AND 1) * 2 ^ 16"

text \<open>The loop that computes \<open>mxSafeFrame\<close>, \<open>n\<close> readers left; the first component says that it jumps to the end.\<close>

primrec safe_loop :: "nat \<Rightarrow> nat \<Rightarrow> (nat \<Rightarrow> rc) \<Rightarrow> nat \<Rightarrow> nat list \<Rightarrow> rc \<Rightarrow> bool \<times> rc \<times> nat \<times> nat list" where
  "safe_loop 0 i lock mxSafeFrame marks rc = (False, rc, mxSafeFrame, marks)"
| "safe_loop (Suc n) i lock mxSafeFrame marks rc =
     (let y = marks ! i in
      if mxSafeFrame > y then
        if lock i = SQLITE_OK then
          safe_loop n (i + 1) lock mxSafeFrame (marks[i := if i = 1 then mxSafeFrame else READMARK_NOT_USED]) SQLITE_OK
        else if lock i = SQLITE_BUSY then safe_loop n (i + 1) lock y marks SQLITE_BUSY
        else (True, lock i, mxSafeFrame, marks)
      else safe_loop n (i + 1) lock mxSafeFrame marks rc)"

lemma next_measure:
  assumes "(done, y) = walIteratorNext it f0" "(p, z) = y" "(f, it') = z" "\<not> done"
  shows "0xFFFFFFFF - iPrior it' < 0xFFFFFFFF - iPrior it"
proof -
  have "walIteratorNext it f0 = (False, p, f, it')" using assms by auto
  from walIteratorNext_progress [OF this] show ?thesis by simp
qed

text \<open>The copying loop. \<open>frame\<close> is the content of the frames of the log.\<close>

function backfill_loop :: "'a ckpt_env \<Rightarrow> (nat \<Rightarrow> 'a) \<Rightarrow> nat \<Rightarrow> nat \<Rightarrow> nat \<Rightarrow> WalIterator \<Rightarrow> nat \<Rightarrow> (nat \<Rightarrow> 'a option) \<Rightarrow> rc \<times> (nat \<Rightarrow> 'a option)" where
  "backfill_loop e frame nB mxSafeFrame mxPage it iFrame db =
     (case walIteratorNext it iFrame of (done, iDbpage, iFrame, it) \<Rightarrow>
        if done then (SQLITE_OK, db)
        else if isInterrupted e iDbpage then (if mallocFailed e then SQLITE_NOMEM else SQLITE_INTERRUPT, db)
        else if iFrame \<le> nB \<or> iFrame > mxSafeFrame \<or> iDbpage > mxPage
          then backfill_loop e frame nB mxSafeFrame mxPage it iFrame db
        else if readRc e iFrame \<noteq> SQLITE_OK then (readRc e iFrame, db)
        else if writeRc e iDbpage \<noteq> SQLITE_OK then (writeRc e iDbpage, db(iDbpage := torn e iDbpage))
        else backfill_loop e frame nB mxSafeFrame mxPage it iFrame (db(iDbpage := Some (frame iFrame))))"
  by auto
termination
  by (relation "measure (\<lambda>(e, fr, nB, mx, mp, it, iFrame, db). 0xFFFFFFFF - iPrior it)")
    (rule wf_measure, unfold in_measure prod.case, (erule (3) next_measure)+)

declare backfill_loop.simps [simp del]

text \<open>The end of a complete pass: the database file is cut and synced if it now holds the whole log.\<close>

definition backfill_end :: "'a ckpt_env \<Rightarrow> nat \<Rightarrow> 'a ckpt \<Rightarrow> rc \<times> 'a ckpt" where
  "backfill_end e mxSafeFrame s =
     (let done = s\<lparr>ckInfo := (ckInfo s)\<lparr>nBackfill := mxSafeFrame\<rparr>\<rparr> in
      if mxSafeFrame = mxFrame (live (ckWal s)) then
        if truncateRc e \<noteq> SQLITE_OK then (truncateRc e, s)
        else let cut = (\<lambda>p. if p \<le> hdrNPage (hdr (ckWal s)) then dbFile s p else None) in
          if syncDbRc e \<noteq> SQLITE_OK then (syncDbRc e, s\<lparr>dbFile := cut\<rparr>) else (SQLITE_OK, done\<lparr>dbFile := cut\<rparr>)
      else (SQLITE_OK, done))"

text \<open>The work done while \<open>WAL_READ_LOCK(0)\<close> is held.\<close>

definition backfill :: "'a ckpt_env \<Rightarrow> (nat \<Rightarrow> 'a) \<Rightarrow> nat \<Rightarrow> nat \<Rightarrow> WalIterator \<Rightarrow> 'a ckpt \<Rightarrow> rc \<times> 'a ckpt" where
  "backfill e frame mxSafeFrame mxPage it s =
     (let szPage = walPagesize (ckWal s); nB = nBackfill (ckInfo s);
          s = s\<lparr>ckInfo := (ckInfo s)\<lparr>nBackfillAttempted := mxSafeFrame\<rparr>\<rparr>;
          nReq = mxPage * szPage in
      if syncWalRc e \<noteq> SQLITE_OK then (syncWalRc e, s)
      else if fst (fileSize e) \<noteq> SQLITE_OK then (fst (fileSize e), s)
      else if snd (fileSize e) < nReq \<and> snd (fileSize e) + 65536 + mxFrame (hdr (ckWal s)) * szPage < nReq
        then (SQLITE_CORRUPT, s)
      else case backfill_loop e frame nB mxSafeFrame mxPage it 0 (dbFile s) of (rc, db) \<Rightarrow>
        let s = s\<lparr>dbFile := db\<rparr> in
        if rc \<noteq> SQLITE_OK then (rc, s) else backfill_end e mxSafeFrame s)"

text \<open>The first part of \<open>walCheckpoint\<close>; the first component of the result says that it jumped to the end.\<close>

definition ckpt_copy :: "'a ckpt_env \<Rightarrow> (nat \<Rightarrow> 'a) \<Rightarrow> 'a ckpt \<Rightarrow> bool \<times> rc \<times> 'a ckpt" where
  "ckpt_copy e frame s =
     (let w = ckWal s; info = ckInfo s in
      if nBackfill info < mxFrame (hdr w) then
        case safe_loop (WAL_NREADER - 1) 1 (busyRc e) (mxFrame (hdr w)) (aReadMark info) SQLITE_OK of
          (stop, rc, mxSafeFrame, marks) \<Rightarrow>
            let s = s\<lparr>ckInfo := info\<lparr>aReadMark := marks\<rparr>\<rparr> in
            if stop then (True, rc, s)
            else case (if nBackfill info < mxSafeFrame then walIteratorInit (iterOom e) w (nBackfill info) else (rc, None)) of
              (rc, pIter) \<Rightarrow>
                case (case pIter of
                    None \<Rightarrow> (rc, s)
                  | Some it \<Rightarrow> if busyRc e 0 \<noteq> SQLITE_OK then (busyRc e 0, s)
                      else backfill e frame mxSafeFrame (hdrNPage (hdr w)) it s) of
                  (rc, s) \<Rightarrow> (False, if rc = SQLITE_BUSY then SQLITE_OK else rc, s)
      else (False, SQLITE_OK, s))"

text \<open>\<open>walRestartHdr\<close> with the checkpoint information, and the last part of \<open>walCheckpoint\<close>.\<close>

definition ckpt_restart_hdr :: "'a ckpt_env \<Rightarrow> 'a ckpt \<Rightarrow> 'a ckpt" where
  "ckpt_restart_hdr e s = s\<lparr>ckWal := walRestartHdr (ckWal s) (randomSalt e),
     ckInfo := \<lparr>nBackfill = 0, aReadMark = [aReadMark (ckInfo s) ! 0, 0] @ replicate (WAL_NREADER - 2) READMARK_NOT_USED,
       nBackfillAttempted = 0\<rparr>\<rparr>"

definition ckpt_restart :: "'a ckpt_env \<Rightarrow> ckpt_mode \<Rightarrow> 'a ckpt \<Rightarrow> rc \<times> 'a ckpt" where
  "ckpt_restart e eMode s =
     (if nBackfill (ckInfo s) < mxFrame (hdr (ckWal s)) then (SQLITE_BUSY, s)
      else if eMode = SQLITE_CHECKPOINT_RESTART \<or> eMode = SQLITE_CHECKPOINT_TRUNCATE then
        if restartRc e \<noteq> SQLITE_OK then (restartRc e, s)
        else if eMode = SQLITE_CHECKPOINT_TRUNCATE then (truncWalRc e, ckpt_restart_hdr e s)
        else (SQLITE_OK, s)
      else (SQLITE_OK, s))"

definition walCheckpoint :: "'a ckpt_env \<Rightarrow> (nat \<Rightarrow> 'a) \<Rightarrow> ckpt_mode \<Rightarrow> 'a ckpt \<Rightarrow> rc \<times> 'a ckpt" where
  "walCheckpoint e frame eMode s =
     (case ckpt_copy e frame s of (stop, rc, s) \<Rightarrow>
        if \<not> stop \<and> rc = SQLITE_OK \<and> eMode \<noteq> SQLITE_CHECKPOINT_PASSIVE then ckpt_restart e eMode s else (rc, s))"

text \<open>
  \<open>readDbPage\<close> (\<open>pager.c\<close>) when the log is in use: a page comes from its last frame in the log or from the database file. I/O errors are left out.
\<close>

definition wal_readDbPage :: "(nat \<Rightarrow> 'a) \<Rightarrow> (nat \<Rightarrow> 'a option) \<Rightarrow> Wal \<Rightarrow> nat \<Rightarrow> rc \<times> 'a option" where
  "wal_readDbPage frame db w pgno =
     (case walFindFrame w pgno of (rc, iFrame) \<Rightarrow>
        if rc \<noteq> SQLITE_OK then (rc, None)
        else (SQLITE_OK, if iFrame \<noteq> 0 then Some (frame iFrame) else db pgno))"

section \<open>The copying loop\<close>

lemma first_frame_unique:
  assumes "\<forall>s\<in>set ss. seg_inv m s" "first_frame ss p f" "first_frame ss p g"
  shows "f = g"
  using assms
proof (induction ss)
  case (Cons s ss)
  have inj: "x = y" if xy: "x \<in> set (aIndex s)" "y \<in> set (aIndex s)" "segPgno s x = segPgno s y" for x y
  proof -
    have "sorted_wrt (\<lambda>x y. segPgno s x < segPgno s y) (aIndex s)" using Cons.prems(1) by (simp add: seg_inv_def)
    moreover obtain i j where "i < length (aIndex s)" "j < length (aIndex s)" "x = aIndex s ! i" "y = aIndex s ! j"
      using xy(1,2) by (auto simp: in_set_conv_nth)
    ultimately show ?thesis using xy(3) unfolding sorted_wrt_iff_nth_less by (metis less_irrefl_nat nat_neq_iff)
  qed
  show ?case
  proof (cases "p \<in> segPgno s ` set (aIndex s)")
    case True
    with Cons.prems(2,3) inj show ?thesis by fastforce
  next
    case False
    with Cons show ?thesis by simp
  qed
qed simp

lemma iter_frame_unique: "iter_inv it \<Longrightarrow> iter_frame it p f \<Longrightarrow> iter_frame it p g \<Longrightarrow> f = g"
  unfolding iter_inv_def iter_frame_def using first_frame_unique [of "rev (aSegment it)"] by simp

text \<open>The pages that the loop may write: those whose last frame is to be copied.\<close>

definition copied :: "WalIterator \<Rightarrow> nat \<Rightarrow> nat \<Rightarrow> nat \<Rightarrow> nat \<Rightarrow> nat \<Rightarrow> bool" where
  "copied it nB mx mp p f \<longleftrightarrow> iter_frame it p f \<and> nB < f \<and> f \<le> mx \<and> p \<le> mp"

lemma backfill_loop_step:
  assumes "walIteratorNext it iFrame = (fin, p, f, it')"
  shows "backfill_loop e frame nB mx mp it iFrame db =
      (if fin then (SQLITE_OK, db)
       else if isInterrupted e p then (if mallocFailed e then SQLITE_NOMEM else SQLITE_INTERRUPT, db)
       else if f \<le> nB \<or> f > mx \<or> p > mp then backfill_loop e frame nB mx mp it' f db
       else if readRc e f \<noteq> SQLITE_OK then (readRc e f, db)
       else if writeRc e p \<noteq> SQLITE_OK then (writeRc e p, db(p := torn e p))
       else backfill_loop e frame nB mx mp it' f (db(p := Some (frame f))))"
  by (subst backfill_loop.simps) (simp only: assms prod.case)

lemma backfill_loop_ok:
  "iter_inv it \<Longrightarrow> backfill_loop e frame nB mx mp it iFrame db = (rc, db') \<Longrightarrow>
     (\<forall>p. db' p = db p \<or> iPrior it < p \<and> (\<exists>f. copied it nB mx mp p f)) \<and>
     (rc = SQLITE_OK \<longrightarrow> (\<forall>p f. iPrior it < p \<and> p < 0xFFFFFFFF \<and> copied it nB mx mp p f \<longrightarrow> db' p = Some (frame f)))"
proof (induction e frame nB mx mp it iFrame db arbitrary: rc db' rule: backfill_loop.induct)
  case (1 e frame nB mx mp it iFrame db)
  obtain fin p f it' where n: "walIteratorNext it iFrame = (fin, p, f, it')" by (rule prod_cases4)
  note nx = walIteratorNext_ok [OF 1(3) n]
  note eq = backfill_loop_step [OF n, of e frame nB mx mp db]
  show ?case
  proof (cases fin)
    case True
    then have "rc = SQLITE_OK" "db' = db" using 1(4) eq by simp_all
    moreover have "\<not> (iPrior it < q \<and> q < 0xFFFFFFFF \<and> copied it nB mx mp q g)" for q g
      using nx(2) [of q g] True by (auto simp: copied_def)
    ultimately show ?thesis by blast
  next
    case False
    from walIteratorNext_progress [of it iFrame p f it'] n False
    have prog: "iPrior it < p" "p < 0xFFFFFFFF" "iPrior it' = p" by simp_all
    note it' = nx(1) [OF False]
    have same: "copied it' nB mx mp = copied it nB mx mp" using it' by (simp add: copied_def fun_eq_iff)
    have least: "p \<le> q" if "copied it nB mx mp q g" "iPrior it < q" "q < 0xFFFFFFFF" for q g
      using nx(2) [of q g] that by (simp add: copied_def)
    have here: "g = f" if "copied it nB mx mp p g" for g
      using that iter_frame_unique [OF 1(3)] it' by (auto simp: copied_def)
    show ?thesis
    proof (cases "f \<le> nB \<or> f > mx \<or> p > mp")
      case skip: True
      then have no: "\<not> copied it nB mx mp p g" for g using here [of g] by (auto simp: copied_def)
      show ?thesis
      proof (cases "isInterrupted e p")
        case True
        then show ?thesis using 1(4) eq False by (auto split: if_splits)
      next
        case go: False
        have l: "backfill_loop e frame nB mx mp it' f db = (rc, db')" using 1(4) eq False go skip by simp
        have "iter_inv it'" using it' by blast
        note IH = 1(1) [OF n [symmetric] refl refl False go skip this l, unfolded same prog(3)]
        have "p < q" if "copied it nB mx mp q g" "iPrior it < q" "q < 0xFFFFFFFF" for q g
          using least [OF that] no that(1) by (cases "p = q") auto
        with IH prog(1) show ?thesis by (meson less_trans)
      qed
    next
      case copy: False
      then have at: "copied it nB mx mp p f" using it' by (auto simp: copied_def)
      consider "db' = db" "rc \<noteq> SQLITE_OK" | "db' = db(p := torn e p)" "rc \<noteq> SQLITE_OK"
        | "\<not> isInterrupted e p" "\<not> readRc e f \<noteq> SQLITE_OK" "\<not> writeRc e p \<noteq> SQLITE_OK" 
          "backfill_loop e frame nB mx mp it' f (db(p := Some (frame f))) = (rc, db')"
        using 1(4) eq False copy by (auto split: if_splits)
      then show ?thesis
      proof cases
        case 3
        have "iter_inv it'" using it' by blast
        note IH = 1(2) [OF n [symmetric] refl refl False 3(1) copy 3(2,3) this 3(4), unfolded same prog(3)]
        show ?thesis
        proof (intro conjI allI impI)
          fix q
          show "db' q = db q \<or> iPrior it < q \<and> (\<exists>f. copied it nB mx mp q f)"
          proof (cases "q = p")
            case True
            with at prog(1) show ?thesis by blast
          next
            case False
            have "db' q = (db(p := Some (frame f))) q \<or> p < q \<and> (\<exists>f. copied it nB mx mp q f)" using IH by blast
            with False have "db' q = db q \<or> p < q \<and> (\<exists>f. copied it nB mx mp q f)" by simp
            with prog(1) show ?thesis by (meson less_trans)
          qed
        next
          fix q g assume rc: "rc = SQLITE_OK" and q: "iPrior it < q \<and> q < 0xFFFFFFFF \<and> copied it nB mx mp q g"
          show "db' q = Some (frame g)"
          proof (cases "q = p")
            case True
            then have "g = f" using here q by blast
            moreover have "db' p = (db(p := Some (frame f))) p" using IH by blast
            ultimately show ?thesis using True by simp
          next
            case False
            then have "p < q" using least [of q g] q by simp
            with IH rc q show ?thesis by blast
          qed
        qed
      qed (use at prog(1) in auto)
    qed
  qed
qed

section \<open>What readers see\<close>

text \<open>The content of a page for a reader of the frames \<open>lo\<close> to \<open>n\<close> of the log \<open>L\<close>.\<close>

definition log_view :: "(nat \<Rightarrow> 'a) \<Rightarrow> (nat \<Rightarrow> 'a option) \<Rightarrow> nat \<Rightarrow> nat \<Rightarrow> nat \<Rightarrow> nat list \<Rightarrow> 'a option" where
  "log_view frame db lo n p L = (if last_frame lo n p L \<noteq> 0 then Some (frame (last_frame lo n p L)) else db p)"

lemma readDbPage_ok:
  assumes "index_ok c w L" "\<And>i. pageRc w i = SQLITE_OK" "n \<le> length L"
  shows "wal_readDbPage frame db (reader w n lo) p = (SQLITE_OK, log_view frame db lo n p L)"
  using find_frame_ok [OF assms] by (simp add: wal_readDbPage_def log_view_def)

lemma last_frame_range: "last_frame lo n p L \<noteq> 0 \<Longrightarrow> lo \<le> last_frame lo n p L \<and> last_frame lo n p L \<le> n"
  using is_lastD(1) [OF last_frame_is_last] by blast

lemma last_frame_above: "0 < g \<Longrightarrow> lo \<le> g \<Longrightarrow> g \<le> n \<Longrightarrow> L ! (g - 1) = p \<Longrightarrow> last_frame lo n p L \<noteq> 0 \<and> g \<le> last_frame lo n p L"
proof -
  assume g: "0 < g" "lo \<le> g" "g \<le> n" "L ! (g - 1) = p"
  show ?thesis
  proof (cases "last_frame lo n p L = 0")
    case True
    with last_frame_is_last [of lo n p L] g show ?thesis by (auto simp: is_last_def)
  next
    case False
    with is_lastD(2) [OF last_frame_is_last False g(1)] g show ?thesis by blast
  qed
qed

lemma last_frame_in: "last_frame lo n p L \<noteq> 0 \<Longrightarrow> L ! (last_frame lo n p L - 1) = p"
  using is_lastD(1) [OF last_frame_is_last] by blast

lemma last_frame_later:
  assumes "lo \<le> lo'" "0 < lo'"
  shows "last_frame lo' n p L = (if lo' \<le> last_frame lo n p L then last_frame lo n p L else 0)"
proof -
  let ?f = "last_frame lo n p L"
  have "is_last (if lo' \<le> ?f then ?f else 0) (\<lambda>f. 0 < f \<and> f \<le> n \<and> lo' \<le> f \<and> L ! (f - 1) = p)"
  proof (cases "lo' \<le> ?f")
    case True
    then have f: "?f \<noteq> 0" using assms(2) by simp
    have "g \<le> ?f" if "0 < g \<and> g \<le> n \<and> lo' \<le> g \<and> L ! (g - 1) = p" for g
      using last_frame_above [of g lo n L p] that assms(1) by auto
    with True f show ?thesis using is_lastD(1) [OF last_frame_is_last f] by (simp add: is_last_def)
  next
    case False
    have "\<not> (0 < g \<and> g \<le> n \<and> lo' \<le> g \<and> L ! (g - 1) = p)" for g
      using last_frame_above [of g lo n L p] False assms(1) by auto
    with False show ?thesis by (simp add: is_last_def)
  qed
  then show ?thesis using is_last_unique [OF last_frame_is_last] by blast
qed

text \<open>
  What the first part of a checkpoint may do to the database file: \<open>partial\<close> if it was disturbed, \<open>complete\<close> if not. \<open>hi\<close>
  frames are committed, \<open>np\<close> is the size of the database then, \<open>nB\<close> frames were in the file before.
\<close>

definition partial :: "nat list \<Rightarrow> nat \<Rightarrow> nat \<Rightarrow> nat \<Rightarrow> nat \<Rightarrow> (nat \<Rightarrow> 'a option) \<Rightarrow> (nat \<Rightarrow> 'a option) \<Rightarrow> bool" where
  "partial L hi np nB mx db db' \<longleftrightarrow> (\<forall>p. (mx = hi \<longrightarrow> p \<le> np) \<longrightarrow>
     db' p = db p \<or> nB < last_frame (nB + 1) hi p L \<and> last_frame (nB + 1) hi p L \<le> mx)"

definition complete :: "(nat \<Rightarrow> 'a) \<Rightarrow> nat list \<Rightarrow> nat \<Rightarrow> nat \<Rightarrow> nat \<Rightarrow> nat \<Rightarrow> (nat \<Rightarrow> 'a option) \<Rightarrow> bool" where
  "complete frame L hi np nB mx db' \<longleftrightarrow> (\<forall>p\<le>np. nB < last_frame (nB + 1) hi p L \<and> last_frame (nB + 1) hi p L \<le> mx \<longrightarrow>
     db' p = Some (frame (last_frame (nB + 1) hi p L)))"

lemma old_reader_sees:
  assumes "partial L hi np nB mx db db'" "mx \<le> n" "n \<le> hi" "lo \<le> nB + 1" "n = hi \<longrightarrow> p \<le> np"
  shows "log_view frame db' lo n p L = log_view frame db lo n p L"
proof (cases "db' p = db p")
  case False
  define f where "f = last_frame (nB + 1) hi p L"
  have "mx = hi \<longrightarrow> p \<le> np" using assms(2,3,5) by auto
  with assms(1) False have f: "nB < f" "f \<le> mx" unfolding partial_def f_def by blast+
  then have "L ! (f - 1) = p" using last_frame_in [of "nB + 1" hi p L] by (simp add: f_def)
  then have "last_frame lo n p L \<noteq> 0" using last_frame_above [of f lo n L p] f assms(2,4) by simp
  then show ?thesis by (simp add: log_view_def)
qed (simp add: log_view_def)

lemma new_reader_sees:
  assumes "partial L hi np nB mx db db'" "complete frame L hi np nB mx db'" "nB \<le> mx" "p \<le> np"
  shows "log_view frame db' (mx + 1) hi p L = log_view frame db (nB + 1) hi p L"
proof -
  define f where "f = last_frame (nB + 1) hi p L"
  have later: "last_frame (mx + 1) hi p L = (if mx + 1 \<le> f then f else 0)"
    unfolding f_def using assms(3) by (intro last_frame_later) simp_all
  consider "f = 0" | "nB < f" "f \<le> mx" | "mx < f" using last_frame_range [of "nB + 1" hi p L] by (fastforce simp: f_def)
  then show ?thesis
  proof cases
    case 1
    then have "db' p = db p" using assms(1,4) by (auto simp: partial_def f_def)
    with 1 later show ?thesis by (simp add: log_view_def f_def)
  next
    case 2
    then have "db' p = Some (frame f)" using assms(2,4) by (simp add: complete_def f_def)
    with 2 later show ?thesis by (simp add: log_view_def f_def)
  next
    case 3
    with later show ?thesis by (simp add: log_view_def f_def)
  qed
qed

section \<open>The first part\<close>

lemma safe_loop_ok:
  "safe_loop n i lock mx marks rc = (stop, rc', mx', marks') \<Longrightarrow>
     mx' \<le> mx \<and> (stop \<longrightarrow> rc' \<noteq> SQLITE_OK \<and> rc' \<noteq> SQLITE_BUSY) \<and>
     (\<not> stop \<longrightarrow> (\<forall>j\<in>{i..<i + n}. lock j = SQLITE_BUSY \<longrightarrow> mx' \<le> marks ! j) \<and> (rc' = rc \<or> rc' = SQLITE_OK \<or> rc' = SQLITE_BUSY))"
proof (induction n arbitrary: i mx marks rc)
  case (Suc n)
  have step: "{i..<i + Suc n} = insert i {i + 1..<i + 1 + n}" by auto
  consider "\<not> mx > marks ! i" | "mx > marks ! i" "lock i = SQLITE_OK" | "mx > marks ! i" "lock i = SQLITE_BUSY"
    | "mx > marks ! i" "lock i \<noteq> SQLITE_OK" "lock i \<noteq> SQLITE_BUSY" by blast
  then show ?case
  proof cases
    case 1
    then have "safe_loop n (i + 1) lock mx marks rc = (stop, rc', mx', marks')" using Suc.prems by simp
    from Suc.IH [OF this] 1 show ?thesis unfolding step by auto
  next
    case 2
    then have "safe_loop n (i + 1) lock mx (marks[i := if i = 1 then mx else READMARK_NOT_USED]) SQLITE_OK = (stop, rc', mx', marks')"
      using Suc.prems by simp
    from Suc.IH [OF this] 2 show ?thesis unfolding step by auto
  next
    case 3
    then have "safe_loop n (i + 1) lock (marks ! i) marks SQLITE_BUSY = (stop, rc', mx', marks')" using Suc.prems by simp
    from Suc.IH [OF this] 3 show ?thesis unfolding step by auto
  next
    case 4
    then show ?thesis using Suc.prems by simp
  qed
qed simp

lemma safe_loop_free:
  "(\<And>i. lock i = SQLITE_OK) \<Longrightarrow> \<exists>marks'. safe_loop n i lock mx marks SQLITE_OK = (False, SQLITE_OK, mx, marks')"
  by (induction n arbitrary: i marks) (auto simp: Let_def)

text \<open>Nothing fails, no reader is in the way, and the size of the database is plausible.\<close>

definition undisturbed :: "'a ckpt_env \<Rightarrow> Wal \<Rightarrow> bool" where
  "undisturbed e w \<longleftrightarrow> (\<forall>i. busyRc e i = SQLITE_OK \<and> readRc e i = SQLITE_OK \<and> writeRc e i = SQLITE_OK \<and> \<not> isInterrupted e i) \<and>
     restartRc e = SQLITE_OK \<and> \<not> iterOom e \<and> syncWalRc e = SQLITE_OK \<and> fst (fileSize e) = SQLITE_OK \<and>
     hdrNPage (hdr w) * walPagesize w \<le> snd (fileSize e) + 65536 + mxFrame (hdr w) * walPagesize w \<and>
     truncateRc e = SQLITE_OK \<and> syncDbRc e = SQLITE_OK \<and> truncWalRc e = SQLITE_OK"

lemma backfill_loop_undisturbed:
  "undisturbed e w \<Longrightarrow> fst (backfill_loop e frame nB mx mp it iFrame db) = SQLITE_OK"
proof (induction e frame nB mx mp it iFrame db rule: backfill_loop.induct)
  case (1 e frame nB mx mp it iFrame db)
  obtain fin p f it' where n: "walIteratorNext it iFrame = (fin, p, f, it')" by (rule prod_cases4)
  have u: "\<not> isInterrupted e p" "\<not> readRc e f \<noteq> SQLITE_OK" "\<not> writeRc e p \<noteq> SQLITE_OK" using 1(3) by (simp_all add: undisturbed_def)
  consider fin | "\<not> fin" "f \<le> nB \<or> f > mx \<or> p > mp" | "\<not> fin" "\<not> (f \<le> nB \<or> f > mx \<or> p > mp)" by blast
  then show ?case
  proof cases
    case 1
    then show ?thesis unfolding backfill_loop_step [OF n] by simp
  next
    case 2
    show ?thesis using 1(1) [OF n [symmetric] refl refl 2(1) u(1) 2(2) 1(3)]
      unfolding backfill_loop_step [OF n] by (simp only: 2 u if_False if_True simp_thms)
  next
    case 3
    show ?thesis using 1(2) [OF n [symmetric] refl refl 3(1) u(1) 3(2) u(2,3) 1(3)]
      unfolding backfill_loop_step [OF n] by (simp only: 3 u if_False simp_thms)
  qed
qed

lemma backfill_end_ok:
  assumes "backfill_end e mx s = (rc, s')"
  shows "ckWal s' = ckWal s" "(mx = mxFrame (live (ckWal s)) \<longrightarrow> p \<le> hdrNPage (hdr (ckWal s))) \<Longrightarrow> dbFile s' p = dbFile s p"
    "rc = SQLITE_OK \<Longrightarrow> nBackfill (ckInfo s') = mx" "rc \<noteq> SQLITE_OK \<Longrightarrow> nBackfill (ckInfo s') = nBackfill (ckInfo s)"
    "undisturbed e w \<Longrightarrow> rc = SQLITE_OK"
  using assms by (auto simp: backfill_end_def Let_def undisturbed_def split: if_splits)

text \<open>The result of the part that holds the lock: how far it got, and what is in the file.\<close>

definition copy_result :: "(nat \<Rightarrow> 'a) \<Rightarrow> nat list \<Rightarrow> nat \<Rightarrow> 'a ckpt \<Rightarrow> 'a ckpt \<Rightarrow> bool" where
  "copy_result frame L mx s s' \<longleftrightarrow>
     (let hi = mxFrame (hdr (ckWal s)); np = hdrNPage (hdr (ckWal s)); nB = nBackfill (ckInfo s) in
      partial L hi np nB mx (dbFile s) (dbFile s') \<and>
      (nBackfill (ckInfo s') = nB \<or> nBackfill (ckInfo s') = mx \<and> complete frame L hi np nB mx (dbFile s')))"

lemma backfill_ok:
  assumes ok: "index_ok c w L" and rc: "\<And>i. pageRc w i = SQLITE_OK" and hi: "mxFrame (hdr w) \<le> length L" "live w = hdr w"
    and pages: "\<forall>p\<in>set L. 0 < p \<and> p < 0xFFFFFFFF"
    and s: "ckWal s = w" "nBackfill (ckInfo s) < mx" "mx \<le> mxFrame (hdr w)"
    and it: "walIteratorInit False w (nBackfill (ckInfo s)) = (SQLITE_OK, Some it)"
    and run: "backfill e frame mx (hdrNPage (hdr w)) it s = (r, s')"
  shows "ckWal s' = w \<and> copy_result frame L mx s s' \<and> (r = SQLITE_OK \<longrightarrow> nBackfill (ckInfo s') = mx) \<and> (undisturbed e w \<longrightarrow> r = SQLITE_OK)"
proof -
  define h where "h = mxFrame (hdr w)"
  define nB where "nB = nBackfill (ckInfo s)"
  define np where "np = hdrNPage (hdr w)"
  have nb: "nB < h" "h \<le> length L" using s hi by (simp_all add: nB_def h_def)
  obtain it' where i: "walIteratorInit False w nB = (SQLITE_OK, Some it')" "iPrior it' = 0" "iter_inv it'"
    "\<forall>p f. nB < f \<longrightarrow> iter_frame it' p f = (last_frame (nB + 1) h p L = f)"
    by (rule walIteratorInit_ok [OF ok rc h_def [symmetric] nb])
  have "it' = it" using i(1) it by (simp add: nB_def)
  note i = i(2-4) [unfolded this]
  obtain r1 db' where l: "backfill_loop e frame nB mx np it 0 (dbFile s) = (r1, db')" by fastforce
  note lo = backfill_loop_ok [OF i(2) l, unfolded i(1)]
  have cop: "copied it nB mx np p f \<longleftrightarrow> nB < f \<and> last_frame (nB + 1) h p L = f \<and> f \<le> mx \<and> p \<le> np" for p f
    unfolding copied_def using i(3) by blast
  have part: "db' p = dbFile s p \<or> nB < last_frame (nB + 1) h p L \<and> last_frame (nB + 1) h p L \<le> mx" for p
    using spec [OF conjunct1 [OF lo], of p] by (auto simp: cop)
  have comp: "complete frame L h np nB mx db'" if "r1 = SQLITE_OK"
    unfolding complete_def
  proof (intro allI impI)
    fix p assume p: "p \<le> np" "nB < last_frame (nB + 1) h p L \<and> last_frame (nB + 1) h p L \<le> mx"
    define f where "f = last_frame (nB + 1) h p L"
    have f: "f \<noteq> 0" "f \<le> length L" using p(2) s(3) nb by (simp_all add: f_def h_def)
    then have "L ! (f - 1) = p" using last_frame_in [of "nB + 1" h p L] by (simp add: f_def)
    then have "p \<in> set L" using f by (metis nth_mem diff_less le_trans less_le_trans less_numeral_extra(1) neq0_conv)
    then have "0 < p" "p < 0xFFFFFFFF" using pages by blast+
    moreover have "copied it nB mx np p f" using p cop by (simp add: f_def)
    ultimately have "db' p = Some (frame f)" using conjunct2 [OF lo] that by blast
    then show "db' p = Some (frame (last_frame (nB + 1) h p L))" by (simp add: f_def)
  qed
  define s1 where "s1 = s\<lparr>ckInfo := (ckInfo s)\<lparr>nBackfillAttempted := mx\<rparr>\<rparr>"
  define s2 where "s2 = s1\<lparr>dbFile := db'\<rparr>"
  have sx: "ckWal s1 = w" "dbFile s1 = dbFile s" "nBackfill (ckInfo s1) = nB" "ckWal s2 = w" "dbFile s2 = db'" "nBackfill (ckInfo s2) = nB"
    using s(1) by (simp_all add: s1_def s2_def nB_def)
  have res: "backfill e frame mx np it s =
      (if syncWalRc e \<noteq> SQLITE_OK then (syncWalRc e, s1)
       else if fst (fileSize e) \<noteq> SQLITE_OK then (fst (fileSize e), s1)
       else if snd (fileSize e) < np * walPagesize w \<and> snd (fileSize e) + 65536 + h * walPagesize w < np * walPagesize w
         then (SQLITE_CORRUPT, s1)
       else if r1 \<noteq> SQLITE_OK then (r1, s2) else backfill_end e mx s2)"
    using l s(1) by (simp add: backfill_def Let_def s1_def s2_def nB_def h_def)
  have cr: "copy_result frame L mx s t \<longleftrightarrow> partial L h np nB mx (dbFile s) (dbFile t) \<and>
      (nBackfill (ckInfo t) = nB \<or> nBackfill (ckInfo t) = mx \<and> complete frame L h np nB mx (dbFile t))" for t
    using s(1) by (simp add: copy_result_def Let_def h_def np_def nB_def)
  have run': "backfill e frame mx np it s = (r, s')" using run by (simp add: np_def)
  have und: "r1 = SQLITE_OK" if "undisturbed e w" using backfill_loop_undisturbed [OF that, of frame nB mx np it 0 "dbFile s"] l by simp
  consider "s' = s1" "r \<noteq> SQLITE_OK" "\<not> undisturbed e w" | "s' = s2" "r \<noteq> SQLITE_OK" "r1 \<noteq> SQLITE_OK" | "r1 = SQLITE_OK" "backfill_end e mx s2 = (r, s')"
    using run' unfolding res by (auto simp: undisturbed_def np_def h_def split: if_splits)
  then show ?thesis
  proof cases
    case 1
    then show ?thesis using sx by (simp add: cr partial_def)
  next
    case 2
    then show ?thesis using sx part und by (auto simp: cr partial_def)
  next
    case 3
    note en = backfill_end_ok [OF 3(2)]
    have lm: "mxFrame (live (ckWal s2)) = h" "hdrNPage (hdr (ckWal s2)) = np" using sx hi(2) by (simp_all add: h_def np_def)
    have same: "dbFile s' p = db' p" if "mx = h \<longrightarrow> p \<le> np" for p using en(2) [of p] that sx unfolding lm by simp
    have "partial L h np nB mx (dbFile s) (dbFile s')" using part same unfolding partial_def by metis
    moreover have "complete frame L h np nB mx (dbFile s')" using comp [OF 3(1)] same unfolding complete_def by metis
    ultimately show ?thesis using en(1,3,4,5) sx unfolding cr by metis
  qed
qed

lemma ckpt_copy_ok:
  assumes ok: "index_ok c w L" and rc: "\<And>i. pageRc w i = SQLITE_OK" and hi: "mxFrame (hdr w) \<le> length L" "live w = hdr w"
    and pages: "\<forall>p\<in>set L. 0 < p \<and> p < 0xFFFFFFFF"
    and s: "ckWal s = w" "nBackfill (ckInfo s) \<le> mxFrame (hdr w)"
    and run: "ckpt_copy e frame s = (stop, r, s')"
  shows "ckWal s' = w \<and> (stop \<longrightarrow> r \<noteq> SQLITE_OK) \<and>
    (undisturbed e w \<longrightarrow> \<not> stop \<and> r = SQLITE_OK \<and> nBackfill (ckInfo s') = mxFrame (hdr w)) \<and>
    (dbFile s' = dbFile s \<and> nBackfill (ckInfo s') = nBackfill (ckInfo s) \<or>
     busyRc e 0 = SQLITE_OK \<and> (\<exists>mx. nBackfill (ckInfo s) < mx \<and> mx \<le> mxFrame (hdr w) \<and>
       (\<forall>j\<in>{1..<5}. busyRc e j = SQLITE_BUSY \<longrightarrow> mx \<le> aReadMark (ckInfo s) ! j) \<and> copy_result frame L mx s s'))"
proof (cases "nBackfill (ckInfo s) < mxFrame (hdr w)")
  case False
  then have "(stop, r, s') = (False, SQLITE_OK, s)" using run s(1) by (simp add: ckpt_copy_def Let_def)
  with False s show ?thesis by simp
next
  case True
  obtain st r0 mx marks where sl: "safe_loop (WAL_NREADER - 1) 1 (busyRc e) (mxFrame (hdr w)) (aReadMark (ckInfo s)) SQLITE_OK = (st, r0, mx, marks)"
    by (rule prod_cases4)
  note slo = safe_loop_ok [OF sl]
  have fr: "\<not> st \<and> r0 = SQLITE_OK \<and> mx = mxFrame (hdr w)" if "undisturbed e w"
    using safe_loop_free [of "busyRc e" "WAL_NREADER - 1" 1 "mxFrame (hdr w)" "aReadMark (ckInfo s)"] that sl by (auto simp: undisturbed_def)
  define s1 where "s1 = s\<lparr>ckInfo := (ckInfo s)\<lparr>aReadMark := marks\<rparr>\<rparr>"
  have s1: "ckWal s1 = w" "dbFile s1 = dbFile s" "nBackfill (ckInfo s1) = nBackfill (ckInfo s)" using s(1) by (simp_all add: s1_def)
  have eq: "ckpt_copy e frame s = (if st then (True, r0, s1) else
      case (if nBackfill (ckInfo s) < mx then walIteratorInit (iterOom e) w (nBackfill (ckInfo s)) else (r0, None)) of (rc, pIter) \<Rightarrow>
        case (case pIter of None \<Rightarrow> (rc, s1) | Some it \<Rightarrow> if busyRc e 0 \<noteq> SQLITE_OK then (busyRc e 0, s1)
            else backfill e frame mx (hdrNPage (hdr w)) it s1) of
          (rc, s) \<Rightarrow> (False, if rc = SQLITE_BUSY then SQLITE_OK else rc, s))"
    unfolding ckpt_copy_def Let_def s(1) if_P [OF True] sl prod.case s1_def ..
  have early: ?thesis if "s' = s1" "stop \<longrightarrow> r \<noteq> SQLITE_OK" "\<not> undisturbed e w" using that s1 by simp
  show ?thesis
  proof (cases st)
    case True
    then have "s' = s1" "stop" "r = r0" using run unfolding eq by simp_all
    with slo fr True show ?thesis by (intro early) auto
  next
    case go: False
    show ?thesis
    proof (cases "nBackfill (ckInfo s) < mx")
      case False
      then have "s' = s1" "\<not> stop" using run go unfolding eq by (simp_all split: if_splits)
      moreover have "\<not> undisturbed e w" using fr False \<open>nBackfill (ckInfo s) < mxFrame (hdr w)\<close> by auto
      ultimately show ?thesis by (intro early) simp_all
    next
      case mx: True
      show ?thesis
      proof (cases "iterOom e")
        case True
        then have "walIteratorInit (iterOom e) w (nBackfill (ckInfo s)) = (SQLITE_NOMEM, None)" by (simp add: walIteratorInit_def Let_def)
        then have "s' = s1" "\<not> stop" using run go mx unfolding eq by simp_all
        then show ?thesis using True by (intro early) (simp_all add: undisturbed_def)
      next
        case False
        obtain it where it: "walIteratorInit False w (nBackfill (ckInfo s)) = (SQLITE_OK, Some it)"
          by (rule walIteratorInit_ok [OF ok rc refl \<open>nBackfill (ckInfo s) < mxFrame (hdr w)\<close> hi(1)])
        show ?thesis
        proof (cases "busyRc e 0 = SQLITE_OK")
          case busy: False
          then have "s' = s1" "\<not> stop" using run go mx it False unfolding eq by simp_all
          moreover have "\<not> undisturbed e w" using busy by (auto simp: undisturbed_def)
          ultimately show ?thesis by (intro early) simp_all
        next
          case free: True
          obtain r2 where b: "backfill e frame mx (hdrNPage (hdr w)) it s1 = (r2, s')" and r: "\<not> stop" "r = (if r2 = SQLITE_BUSY then SQLITE_OK else r2)"
            using run go mx it False free unfolding eq by (auto split: prod.splits)
          have m: "nBackfill (ckInfo s1) < mx" "mx \<le> mxFrame (hdr w)" using mx slo s1 by simp_all
          have it1: "walIteratorInit False w (nBackfill (ckInfo s1)) = (SQLITE_OK, Some it)" using it s1 by simp
          note bo = backfill_ok [OF ok rc hi pages s1(1) m it1 b]
          have "copy_result frame L mx s s'" using bo s1 s(1) by (simp add: copy_result_def)
          moreover have "\<forall>j\<in>{1..<5}. busyRc e j = SQLITE_BUSY \<longrightarrow> mx \<le> aReadMark (ckInfo s) ! j"
            using slo go by (simp add: WAL_NREADER_def)
          ultimately show ?thesis using bo r fr free mx m(2) by auto
        qed
      qed
    qed
  qed
qed

section \<open>The property\<close>

text \<open>A reader holds the read lock \<open>i\<close>, so that the checkpoint cannot get it, alone or with the others.\<close>

definition holds_lock :: "'a ckpt_env \<Rightarrow> nat \<Rightarrow> bool" where
  "holds_lock e i \<longleftrightarrow> busyRc e i = SQLITE_BUSY \<and> (0 < i \<longrightarrow> restartRc e = SQLITE_BUSY)"

lemma checkpoint_cases:
  assumes "walCheckpoint e frame eMode s = (r, s')"
  obtains (kept) s1 r1 stop where "ckpt_copy e frame s = (stop, r1, s1)" "s' = s1" "stop \<or> r1 \<noteq> SQLITE_OK \<Longrightarrow> r = r1"
      "\<not> stop \<Longrightarrow> r1 = SQLITE_OK \<Longrightarrow> eMode \<noteq> SQLITE_CHECKPOINT_PASSIVE \<Longrightarrow> r = SQLITE_OK \<Longrightarrow> nBackfill (ckInfo s1) \<ge> mxFrame (hdr (ckWal s1))"
      "undisturbed e w \<Longrightarrow> \<not> stop \<Longrightarrow> r1 = SQLITE_OK \<Longrightarrow> nBackfill (ckInfo s1) = mxFrame (hdr (ckWal s1)) \<Longrightarrow> r = SQLITE_OK"
    | (restarted) s1 where "ckpt_copy e frame s = (False, SQLITE_OK, s1)" "s' = ckpt_restart_hdr e s1" "restartRc e = SQLITE_OK" "r = truncWalRc e"
      "nBackfill (ckInfo s1) \<ge> mxFrame (hdr (ckWal s1))"
proof -
  obtain stop r1 s1 where c: "ckpt_copy e frame s = (stop, r1, s1)" by (rule prod_cases3)
  show ?thesis
  proof (cases "\<not> stop \<and> r1 = SQLITE_OK \<and> eMode \<noteq> SQLITE_CHECKPOINT_PASSIVE")
    case False
    then have "r = r1" "s' = s1" using assms c by (auto simp: walCheckpoint_def)
    with False c show ?thesis by (intro kept [OF c]) auto
  next
    case True
    then have re: "ckpt_restart e eMode s1 = (r, s')" using assms c by (simp add: walCheckpoint_def)
    show ?thesis
    proof (cases "s' = ckpt_restart_hdr e s1 \<and> r = truncWalRc e \<and> restartRc e = SQLITE_OK \<and> \<not> nBackfill (ckInfo s1) < mxFrame (hdr (ckWal s1))")
      case t: True
      with True c show ?thesis by (intro restarted [of s1]) simp_all
    next
      case False
      then have "s' = s1" using re by (auto simp: ckpt_restart_def split: if_splits)
      with True re c show ?thesis by (intro kept [OF c]) (auto simp: ckpt_restart_def undisturbed_def split: if_splits)
    qed
  qed
qed

lemma last_frame_empty [simp]: "last_frame lo 0 p L = 0"
  by (simp add: last_frame_def frames_of_def)

text \<open>What the first part leaves for readers.\<close>

lemma copied_view:
  assumes "mxFrame (hdr w) = hi" "hdrNPage (hdr w) = np" "ckWal s = w" "nBackfill (ckInfo s) \<le> hi"
    and c: "dbFile s1 = dbFile s \<and> nBackfill (ckInfo s1) = nBackfill (ckInfo s) \<or>
      free \<and> (\<exists>mx. nBackfill (ckInfo s) < mx \<and> mx \<le> hi \<and> (\<forall>j\<in>J. busy j \<longrightarrow> mx \<le> marks ! j) \<and> copy_result frame L mx s s1)"
  shows "nBackfill (ckInfo s1) \<le> hi"
    "p \<le> np \<Longrightarrow> log_view frame (dbFile s1) (nBackfill (ckInfo s1) + 1) hi p L = log_view frame (dbFile s) (nBackfill (ckInfo s) + 1) hi p L"
    "i \<in> J \<Longrightarrow> busy i \<Longrightarrow> marks ! i \<le> n \<Longrightarrow> n \<le> hi \<Longrightarrow> lo \<le> nBackfill (ckInfo s) + 1 \<Longrightarrow> (n = hi \<longrightarrow> p \<le> np) \<Longrightarrow>
      log_view frame (dbFile s1) lo n p L = log_view frame (dbFile s) lo n p L"
    "\<not> free \<Longrightarrow> dbFile s1 = dbFile s"
proof -
  define nB where "nB = nBackfill (ckInfo s)"
  have c': "dbFile s1 = dbFile s \<and> nBackfill (ckInfo s1) = nB \<or>
      free \<and> (\<exists>mx. nB < mx \<and> mx \<le> hi \<and> (\<forall>j\<in>J. busy j \<longrightarrow> mx \<le> marks ! j) \<and>
        partial L hi np nB mx (dbFile s) (dbFile s1) \<and>
        (nBackfill (ckInfo s1) = nB \<or> nBackfill (ckInfo s1) = mx \<and> complete frame L hi np nB mx (dbFile s1)))"
    using c by (simp add: copy_result_def Let_def assms(1-3) nB_def)
  show "nBackfill (ckInfo s1) \<le> hi" using c' assms(4) by (auto simp: nB_def)
  show "\<not> free \<Longrightarrow> dbFile s1 = dbFile s" using c' by blast
  show "log_view frame (dbFile s1) (nBackfill (ckInfo s1) + 1) hi p L = log_view frame (dbFile s) (nBackfill (ckInfo s) + 1) hi p L"
    if p: "p \<le> np"
    using c'
  proof (elim disjE conjE exE)
    fix mx assume m: "nB < mx" "mx \<le> hi" "partial L hi np nB mx (dbFile s) (dbFile s1)" "nBackfill (ckInfo s1) = nB"
    show ?thesis using old_reader_sees [OF m(3,2) order.refl order.refl] p m(4) by (simp add: nB_def)
  next
    fix mx assume m: "nB < mx" "mx \<le> hi" "partial L hi np nB mx (dbFile s) (dbFile s1)" "nBackfill (ckInfo s1) = mx"
      "complete frame L hi np nB mx (dbFile s1)"
    show ?thesis using new_reader_sees [OF m(3,5) _ p] m(1,4) by (simp add: nB_def)
  qed (simp add: nB_def)
  show "log_view frame (dbFile s1) lo n p L = log_view frame (dbFile s) lo n p L"
    if i: "i \<in> J" "busy i" and n: "marks ! i \<le> n" "n \<le> hi" "lo \<le> nBackfill (ckInfo s) + 1" "n = hi \<longrightarrow> p \<le> np"
    using c'
  proof (elim disjE conjE exE)
    fix mx assume m: "\<forall>j\<in>J. busy j \<longrightarrow> mx \<le> marks ! j" "partial L hi np nB mx (dbFile s) (dbFile s1)"
    then have "mx \<le> n" using i n(1) by (meson le_trans)
    then show ?thesis using old_reader_sees [OF m(2) _ n(2) _ n(4)] n(3) by (simp add: nB_def)
  next
    fix mx assume m: "\<forall>j\<in>J. busy j \<longrightarrow> mx \<le> marks ! j" "partial L hi np nB mx (dbFile s) (dbFile s1)"
    then have "mx \<le> n" using i n(1) by (meson le_trans)
    then show ?thesis using old_reader_sees [OF m(2) _ n(2) _ n(4)] n(3) by (simp add: nB_def)
  qed simp
qed

text \<open>
  C16. A checkpoint is invisible, whatever locks it cannot get, whatever system call fails and wherever it is interrupted, a page
  that is written in part included. After every history of writers, a reader that holds a read lock with its mark
  sees in every page what it saw before; a reader that ignores the log finds the database file
  unchanged; a reader that begins afterwards sees in every page of the database what it would have seen before, also when the log
  has been restarted. The modes other than \<open>PASSIVE\<close> only report success if the whole log is in the database file,
  and if nothing interferes they do, as does \<open>PASSIVE\<close>.
\<close>

theorem checkpoint_is_invisible:
  assumes "mxFrame (hdr w0) = 0" "mxFrame (live w0) = 0" "\<forall>i. pageRc w0 i = SQLITE_OK"
    "log_legal_all ops \<lparr>current = [], committed = [], restarts = nCkpt w0\<rparr>"
    "l = fold log_step ops \<lparr>current = [], committed = [], restarts = nCkpt w0\<rparr>"
    "run_wal ops w0 = (SQLITE_OK, w)" "\<forall>p\<in>set (current l). 0 < p \<and> p < 0xFFFFFFFF"
    "ckWal s = w\<lparr>hdr := live w\<rparr>" "nBackfill (ckInfo s) \<le> length (committed l)"
    "walCheckpoint e frame eMode s = (r, s')"
  shows "(\<forall>i n lo p. 1 \<le> i \<and> i < WAL_NREADER \<and> holds_lock e i \<and> aReadMark (ckInfo s) ! i \<le> n \<and> n \<le> length (committed l) \<and>
        lo \<le> nBackfill (ckInfo s) + 1 \<and> (n = length (committed l) \<longrightarrow> p \<le> hdrNPage (live w)) \<longrightarrow>
        wal_readDbPage frame (dbFile s') (reader (ckWal s') n lo) p = (SQLITE_OK, log_view frame (dbFile s) lo n p (current l))) \<and>
    (holds_lock e 0 \<longrightarrow> dbFile s' = dbFile s) \<and>
    (\<forall>p\<le>hdrNPage (live w).
        wal_readDbPage frame (dbFile s') (reader (ckWal s') (mxFrame (live (ckWal s'))) (nBackfill (ckInfo s') + 1)) p =
        (SQLITE_OK, log_view frame (dbFile s) (nBackfill (ckInfo s) + 1) (length (committed l)) p (current l))) \<and>
    (r = SQLITE_OK \<and> eMode \<noteq> SQLITE_CHECKPOINT_PASSIVE \<longrightarrow> nBackfill (ckInfo s') = mxFrame (live (ckWal s'))) \<and>
    (undisturbed e (ckWal s) \<longrightarrow> r = SQLITE_OK \<and> nBackfill (ckInfo s') = mxFrame (live (ckWal s')))"
proof -
  have "wal_inv w0 \<lparr>current = [], committed = [], restarts = nCkpt w0\<rparr>"
    using assms(1-3) by (simp add: wal_inv_def index_ok_def)
  from run_wal_ok [OF this assms(4)] have inv: "wal_inv w l" using assms(6) unfolding assms(5) by simp
  note d = wal_invD [OF inv]
  define c where "c = w\<lparr>hdr := live w\<rparr>"
  define hi where "hi = length (committed l)"
  define L where "L = current l"
  have ok: "index_ok False c L" using index_ok_fields [of c w] d(1) by (simp add: c_def L_def)
  have rc: "pageRc c i = SQLITE_OK" for i using d(2) by (simp add: c_def)
  have h: "mxFrame (hdr c) = hi" "live c = hdr c" "hdrNPage (hdr c) = hdrNPage (live w)" "mxFrame (hdr c) \<le> length L"
    using d(4,7) by (simp_all add: c_def hi_def L_def)
  have s: "ckWal s = c" "nBackfill (ckInfo s) \<le> mxFrame (hdr c)" using assms(8,9) h(1) by (simp_all add: c_def hi_def)
  have pages: "\<forall>p\<in>set L. 0 < p \<and> p < 0xFFFFFFFF" using assms(7) by (simp add: L_def)
  note copy = ckpt_copy_ok [OF ok rc h(4,2) pages s, of e frame]
  note view = copied_view [OF h(1,3) s(1) s(2) [unfolded h(1)]]
  note rd = readDbPage_ok [OF ok rc]
  show ?thesis
    using assms(10)
  proof (cases rule: checkpoint_cases [where w = c])
    case (kept s1 r1 stop)
    note co = copy [OF kept(1)]
    have w1: "ckWal s1 = c" using co by blast
    note v = view [OF co [THEN conjunct2, THEN conjunct2, THEN conjunct2, unfolded h(1)]]
    show ?thesis
    proof (intro conjI allI impI)
      fix i n lo p
      assume a: "1 \<le> i \<and> i < WAL_NREADER \<and> holds_lock e i \<and> aReadMark (ckInfo s) ! i \<le> n \<and> n \<le> length (committed l) \<and>
        lo \<le> nBackfill (ckInfo s) + 1 \<and> (n = length (committed l) \<longrightarrow> p \<le> hdrNPage (live w))"
      have "log_view frame (dbFile s1) lo n p L = log_view frame (dbFile s) lo n p L"
        using a by (intro v(3) [of i]) (simp_all add: hi_def holds_lock_def WAL_NREADER_def)
      moreover have "n \<le> length L" using a h(1,4) by (simp add: hi_def)
      ultimately show "wal_readDbPage frame (dbFile s') (reader (ckWal s') n lo) p = (SQLITE_OK, log_view frame (dbFile s) lo n p (current l))"
        using rd [of n frame "dbFile s1" lo p] w1 kept(2) by (simp add: L_def)
    next
      assume "holds_lock e 0"
      then show "dbFile s' = dbFile s" using v(4) kept(2) by (simp add: holds_lock_def)
    next
      fix p assume p: "p \<le> hdrNPage (live w)"
      have lv: "mxFrame (live (ckWal s1)) = hi" using w1 h by simp
      have "wal_readDbPage frame (dbFile s1) (reader c hi (nBackfill (ckInfo s1) + 1)) p =
          (SQLITE_OK, log_view frame (dbFile s1) (nBackfill (ckInfo s1) + 1) hi p L)" using h(1,4) by (intro rd) simp
      then show "wal_readDbPage frame (dbFile s') (reader (ckWal s') (mxFrame (live (ckWal s'))) (nBackfill (ckInfo s') + 1)) p =
          (SQLITE_OK, log_view frame (dbFile s) (nBackfill (ckInfo s) + 1) (length (committed l)) p (current l))"
        using v(2) [OF p] lv w1 kept(2) by (simp add: L_def hi_def)
    next
      assume a: "r = SQLITE_OK \<and> eMode \<noteq> SQLITE_CHECKPOINT_PASSIVE"
      then have "\<not> stop" "r1 = SQLITE_OK" using kept(3) co by auto
      with kept(4) a have "hi \<le> nBackfill (ckInfo s1)" using w1 h(1) by simp
      then show "nBackfill (ckInfo s') = mxFrame (live (ckWal s'))" using v(1) kept(2) w1 h by simp
    next
      assume u: "undisturbed e (ckWal s)"
      then have cc: "\<not> stop \<and> r1 = SQLITE_OK \<and> nBackfill (ckInfo s1) = mxFrame (hdr c)" using co s(1) by simp
      then show "r = SQLITE_OK" using kept(5) u s(1) w1 by simp
      show "nBackfill (ckInfo s') = mxFrame (live (ckWal s'))" using cc kept(2) w1 h by simp
    qed
  next
    case (restarted s1)
    note co = copy [OF restarted(1)]
    have w1: "ckWal s1 = c" using co by blast
    note v = view [OF co [THEN conjunct2, THEN conjunct2, THEN conjunct2, unfolded h(1)]]
    have nb: "nBackfill (ckInfo s1) = hi" using v(1) restarted(5) w1 h(1) by simp
    have s': "ckWal s' = walRestartHdr c (randomSalt e)" "nBackfill (ckInfo s') = 0" "dbFile s' = dbFile s1"
      using w1 restarted(2) by (simp_all add: ckpt_restart_hdr_def)
    have lv: "mxFrame (live (ckWal s')) = 0" "pageRc (ckWal s') = pageRc c" by (simp_all add: s'(1) walRestartHdr_def walIndexWriteHdr_def)
    show ?thesis
    proof (intro conjI allI impI)
      fix i n lo p
      assume "1 \<le> i \<and> i < WAL_NREADER \<and> holds_lock e i \<and> aReadMark (ckInfo s) ! i \<le> n \<and> n \<le> length (committed l) \<and>
        lo \<le> nBackfill (ckInfo s) + 1 \<and> (n = length (committed l) \<longrightarrow> p \<le> hdrNPage (live w))"
      then show "wal_readDbPage frame (dbFile s') (reader (ckWal s') n lo) p = (SQLITE_OK, log_view frame (dbFile s) lo n p (current l))"
        using restarted(3) by (auto simp: holds_lock_def)
    next
      assume "holds_lock e 0"
      then show "dbFile s' = dbFile s" using v(4) s'(3) by (simp add: holds_lock_def)
    next
      fix p assume p: "p \<le> hdrNPage (live w)"
      have "last_frame (hi + 1) hi p L = 0" using last_frame_range [of "hi + 1" hi p L] by fastforce
      then have "log_view frame (dbFile s) (nBackfill (ckInfo s) + 1) hi p L = dbFile s1 p"
        using v(2) [OF p] nb by (simp add: log_view_def)
      moreover have "index_ok False (ckWal s') []" by (simp add: index_ok_def)
      then have "wal_readDbPage frame (dbFile s') (reader (ckWal s') 0 1) p = (SQLITE_OK, dbFile s1 p)"
        using readDbPage_ok [of False "ckWal s'" "[]" 0 frame "dbFile s'" 1 p] rc lv(2) s'(3) by (simp add: log_view_def)
      ultimately show "wal_readDbPage frame (dbFile s') (reader (ckWal s') (mxFrame (live (ckWal s'))) (nBackfill (ckInfo s') + 1)) p =
          (SQLITE_OK, log_view frame (dbFile s) (nBackfill (ckInfo s) + 1) (length (committed l)) p (current l))"
        using lv(1) s'(2) by (simp add: L_def hi_def)
    next
      assume "undisturbed e (ckWal s)"
      then show "r = SQLITE_OK" using restarted(4) by (simp add: undisturbed_def)
    qed (use lv(1) s'(2) in simp_all)
  qed
qed

text \<open>Three frames of two pages; a passive checkpoint while a reader of the first frame holds lock 2.\<close>

definition test_env :: "nat \<Rightarrow> nat ckpt_env" where
  "test_env held = \<lparr>busyRc = (\<lambda>i. if i = held then SQLITE_BUSY else SQLITE_OK),
     restartRc = (if held = 9 then SQLITE_OK else SQLITE_BUSY), iterOom = False, syncWalRc = SQLITE_OK,
     fileSize = (SQLITE_OK, 4096), isInterrupted = (\<lambda>_. False), mallocFailed = False, readRc = (\<lambda>_. SQLITE_OK), writeRc = (\<lambda>_. SQLITE_OK),
     torn = (\<lambda>_. None), truncateRc = SQLITE_OK, syncDbRc = SQLITE_OK, randomSalt = [9, 9, 9, 9], truncWalRc = SQLITE_OK\<rparr>"

lemma checkpoint_is_invisible_witness:
  "\<exists>w r s'. run_wal [Frames 1024 [3, 5, 3] 5 True] test_wal = (SQLITE_OK, w) \<and>
     walCheckpoint (test_env 2) (\<lambda>f. 100 + f) SQLITE_CHECKPOINT_PASSIVE
       \<lparr>ckWal = w\<lparr>hdr := live w\<rparr>, ckInfo = \<lparr>nBackfill = 0, aReadMark = [0, 3, 1, 0, 0], nBackfillAttempted = 0\<rparr>, dbFile = (\<lambda>p. Some p)\<rparr> = (r, s') \<and>
     wal_readDbPage (\<lambda>f. 100 + f) (dbFile s') (reader (ckWal s') 1 1) 3 = (SQLITE_OK, Some 101) \<and>
     wal_readDbPage (\<lambda>f. 100 + f) (dbFile s') (reader (ckWal s') 1 1) 5 = (SQLITE_OK, Some 5)"
proof -
  let ?ops = "[Frames 1024 [3, 5, 3] 5 True]"
  let ?l = "\<lparr>current = [3, 5, 3], committed = [3, 5, 3], restarts = 0\<rparr>"
  have z: "mxFrame (hdr test_wal) = 0" "mxFrame (live test_wal) = 0" "\<forall>i. pageRc test_wal i = SQLITE_OK"
    by (simp_all add: test_wal_def Let_def)
  have legal: "log_legal_all ?ops \<lparr>current = [], committed = [], restarts = nCkpt test_wal\<rparr>" by simp
  have l: "?l = fold log_step ?ops \<lparr>current = [], committed = [], restarts = nCkpt test_wal\<rparr>"
    by (simp add: Let_def test_wal_def)
  have "wal_inv test_wal \<lparr>current = [], committed = [], restarts = nCkpt test_wal\<rparr>" using z by (simp add: wal_inv_def index_ok_def)
  from run_wal_ok [OF this legal] obtain w where w: "run_wal ?ops test_wal = (SQLITE_OK, w)" by blast
  let ?s = "\<lparr>ckWal = w\<lparr>hdr := live w\<rparr>, ckInfo = \<lparr>nBackfill = 0, aReadMark = [0, 3, 1, 0, 0], nBackfillAttempted = 0\<rparr>, dbFile = (\<lambda>p::nat. Some p)\<rparr>"
  obtain r s' where c: "walCheckpoint (test_env 2) (\<lambda>f. 100 + f) SQLITE_CHECKPOINT_PASSIVE ?s = (r, s')" by fastforce
  have see: "wal_readDbPage (\<lambda>f. 100 + f) (dbFile s') (reader (ckWal s') 1 1) p = (SQLITE_OK, log_view (\<lambda>f. 100 + f) (\<lambda>p. Some p) 1 1 p [3, 5, 3])" for p
  proof -
    have pages: "\<forall>p\<in>set (current ?l). 0 < p \<and> p < 0xFFFFFFFF" by simp
    have st: "ckWal ?s = w\<lparr>hdr := live w\<rparr>" "nBackfill (ckInfo ?s) \<le> length (committed ?l)" by simp_all
    have lock: "1 \<le> (2::nat) \<and> 2 < WAL_NREADER \<and> holds_lock (test_env 2) 2 \<and> aReadMark (ckInfo ?s) ! 2 \<le> 1 \<and> 1 \<le> length (committed ?l) \<and>
        1 \<le> nBackfill (ckInfo ?s) + 1 \<and> (1 = length (committed ?l) \<longrightarrow> p \<le> hdrNPage (live w))"
      by (simp add: WAL_NREADER_def holds_lock_def test_env_def)
    note sees = checkpoint_is_invisible [OF z legal l w pages st c, THEN conjunct1]
    from sees [THEN spec, THEN spec, THEN spec, THEN spec, THEN mp, OF lock] show ?thesis by simp
  qed
  have "log_view (\<lambda>f. 100 + f) (\<lambda>p. Some p) 1 1 3 [3, 5, 3] = Some 101" "log_view (\<lambda>f. 100 + f) (\<lambda>p. Some p) 1 1 5 [3, 5, 3] = Some 5"
    by (simp_all add: log_view_def last_frame_def frames_of_def)
  with w c see [of 3] see [of 5] show ?thesis by metis
qed

end
