(* ===== verification/Spec2Isabelle.thy ===== *)
theory Spec2Isabelle
  imports Bitvec_Selftest Rowset Varint Hash_Table Util_Parse Pager_Example Btree_Safe Wal_Ckpt
begin

text \<open>
  A verification library for the storage core of SQLite 3.51.2, as it is in
  \<open>src/sqlite-src-3510200/src\<close>. Paths below are relative to that directory.

  \<^bold>\<open>The program.\<close> SQLite keeps a database in one file of pages. The pager (\<open>pager.c\<close>) gives its client
  pages to read and write and makes a group of writes a transaction: before a page is changed its old
  content goes to a rollback journal, the journal is synced before the database file is written, and
  the end of the journal is the commit. A process that finds a journal left by a crash rolls it back
  before it reads. Above it the b-tree layer (\<open>btree.c\<close>) keeps the cells of tables and indexes on those
  pages: a page has a header, an array of pointers, and cells and free blocks that grow from its end. The pager keeps its pages in a page cache (\<open>pcache.c\<close>), remembers which of them are
  in the journal in bitmaps (\<open>bitvec.c\<close>), and calls the file system through the VFS. In its other journal mode the pager appends changed pages to a
  write-ahead log (\<open>wal.c\<close>), and an index in shared memory tells where the last version of a page is. Sets of rowids
  (\<open>rowset.c\<close>), symbol tables (\<open>hash.c\<close>), variable-length integers, arithmetic and number parsing
  (\<open>util.c\<close>) serve the layers above.

  \<^bold>\<open>Theories.\<close>
  \<^item> \<open>Prelude\<close>: types \<open>u8\<close> to \<open>u64\<close>, result codes, the allocator as a script of outcomes.
  \<^item> \<open>Page_Set\<close>: the interface of a set of page numbers, a locale that \<open>Bitvec\<close> interprets.
  \<^item> \<open>Bitvec\<close>, \<open>Bitvec_Selftest\<close>: \<open>bitvec.c\<close>. The three shapes of an object (bitmap, hash table,
    subdivision) are the constructors of \<open>bitvec_u\<close>; \<open>BitvecSet\<close>, \<open>BitvecClear\<close>, \<open>BitvecTest\<close> are the
    functions of the same names, with failing allocations. The self-test is the interpreter
    \<open>sqlite3BitvecBuiltinTest\<close>.
  \<^item> \<open>Rowset\<close>: \<open>rowset.c\<close>; \<open>Hash_Table\<close>: \<open>hash.c\<close> with \<open>Ci_Map\<close>, the interface of a map with
    case-insensitive keys; \<open>Str\<close>: comparison and quoting; \<open>Codec\<close>: the interface of encoders, used by
    \<open>Varint\<close> and \<open>Util_Arith\<close>; \<open>Util_Arith\<close> and \<open>Util_Parse\<close>: the integer parts of \<open>util.c\<close>.
  \<^item> \<open>Disk\<close>: files and crashes. A file is a list of bytes (the journal) or of pages (the database). A
    write is volatile until a sync. A crash applies or loses every volatile write of the journal as
    a whole when it lies within one sector, and leaves anything in the place it covers when it
    crosses a sector boundary; it leaves any content in a database page written since the last sync;
    a creation, truncation or deletion may or may not have reached the medium.
  \<^item> \<open>Pcache\<close>: \<open>pcache.c\<close>, the flags of pages, the dirty list and its merge sort.
  \<^item> \<open>Pager_State\<close>: \<open>struct Pager\<close> as the record \<open>pager\<close>, the calls to the system, and the program
    logic: \<open>runs\<close> (safety of every intermediate disk, result on success, success when nothing fails)
    and \<open>keeps\<close> (what a call leaves alone).
  \<^item> \<open>Pager_Journal\<close>: headers, records, checksums, the sub-journal, \<open>sqlite3PagerBegin\<close>,
    \<open>pager_open_journal\<close>, \<open>pager_write\<close>, \<open>syncJournal\<close>.
  \<^item> \<open>Pager_Commit\<close>: \<open>getPageNormal\<close>, \<open>sqlite3PagerWrite\<close> with large sectors, \<open>pager_write_pagelist\<close>,
    \<open>pagerStress\<close>, both phases of a commit, the three ways to end a journal.
  \<^item> \<open>Pager_Playback\<close>: \<open>readJournalHdr\<close>, \<open>pager_playback_one_page\<close>, \<open>pager_playback\<close>,
    \<open>hasHotJournal\<close>, \<open>sqlite3PagerSharedLock\<close>, and their termination.
  \<^item> \<open>Pager_Format\<close>: what a journal must look like on the medium; \<open>Pager_Recovery\<close>: such a journal is
    rolled back to the original database, from every crash during the rollback as well;
    \<open>Pager_Crash\<close>: journal and sync calls keep the disk recoverable; \<open>Pager_Content\<close> and \<open>Pager_View\<close>: the
    abstract database, a map from page numbers to contents, which the calls implement;
    \<open>Pager_Session\<close> and \<open>Pager_Flush\<close>: the invariants of the states of a transaction and
    the calls that change the database file; \<open>Pager_Txn\<close>: the calls of a client as a step relation,
    and what a crash leaves; \<open>Pager_Asserts\<close>: the debug invariant of the source;
    \<open>Pager_Rollback\<close>: the rollback of a transaction by the process that began it;
    \<open>Pager_Example\<close>: a transaction run by the simplifier, on which the properties are applied.
  \<^item> \<open>Btree_Page\<close>: the image of a page, a function from offsets to bytes in which the bytes past the page are the
    memory that follows it; \<open>struct MemPage\<close> as a record whose methods are names; the routines on the format of a page and
    of a cell, \<open>decodeFlags\<close>, \<open>btreeInitPage\<close>, \<open>btreeComputeFreeSpace\<close>, \<open>zeroPage\<close>. \<open>Btree_Cell\<close>: the
    sizes of cells as formulas, on which size routines and parsers agree.
  \<^item> \<open>Btree_Space\<close>: \<open>defragmentPage\<close>, \<open>pageFindSlot\<close>, \<open>allocateSpace\<close>, \<open>freeSpace\<close>, \<open>dropCell\<close>, \<open>insertCell\<close>,
    \<open>insertCellFast\<close>, with two assertions of the source as a result of their own.
  \<^item> \<open>Btree_Layout\<close>: regions, the list of freeblocks in the bytes and the invariant \<open>space_ok\<close>;
    \<open>Btree_Free\<close> and \<open>Btree_Alloc\<close>: freeing, slots and the gap keep it; \<open>Btree_List\<close>: the list of cells
    of a page and its invariant \<open>bpage_ok\<close>; \<open>Btree_Defrag\<close>, \<open>Btree_Insert\<close>, \<open>Btree_Drop\<close>: the
    operations implement those on the list; \<open>Btree_Run\<close>: sequences of operations from an empty page;
    \<open>Btree_Load\<close>: loading the bytes back; \<open>Btree_Safe\<close>: pages with arbitrary bytes.
  \<^item> \<open>Wal_Index\<close>: the index of the write-ahead log, with the parts of \<open>struct Wal\<close> it needs, and the operations of
    a writer and a reader on it; \<open>Wal_Find\<close>: one hash table holds a list of page numbers; \<open>Wal_View\<close>: the whole index
    holds the log, remnants of dead writers included. \<open>Wal_Iter\<close>: the merge sort of a checkpoint and the iterator
    over the log; \<open>Wal_Next\<close>: it gives each page once, with its last frame; \<open>Wal_Ckpt\<close>: \<open>walCheckpoint\<close>, with all
    locks and system calls answered by a record, and what readers see.

  \<^bold>\<open>What the properties say.\<close> C1 to C10 are about the pager: durability, atomicity in the second phase of a
  commit, rollback from a crash at any earlier system call and at any call of a recovery itself,
  success of a recovery that nothing disturbs, \<open>sqlite3PagerRollback\<close>, termination on arbitrary bytes, the refinement of
  the abstract database, and \<open>assert_pager_state\<close>. C11 to C14 are about b-tree pages: sizes of cells,
  the refinement of a list of cells, which says that free bytes are never lost to fragmentation, the round trip
  through the bytes, and corrupt pages. C15 and C16 are about the write-ahead log: its index refines the list of its frames, and checkpoints are invisible
  to readers. C17 to C20 are about the bitmap, C21 and C22 about sets of rowids, C23 to C27 about variable-length integers, C28 and C29 about strings, C30 and C31
  about hash tables, C32 to C39 about arithmetic and parsing, C40 about the sort of the dirty list.

  \<^bold>\<open>Bounds and fuel.\<close> The loop of \<open>pager_playback\<close> over journal headers has the fuel \<open>szJ + 2\<close> for a
  journal of \<open>szJ\<close> bytes; every header read moves the offset on by a sector, and C8 shows that it is
  enough for every content of the journal. The recursion of the bitmap is bounded by its size. All other loops are
  structural or have a measure. Page numbers are natural numbers; the crash theorems assume a
  database of at most 0xfffffffe pages, as \<open>SQLITE_MAX_PAGE_COUNT\<close> does.

  \<^bold>\<open>What the crash theorems assume.\<close> Journal modes \<open>DELETE\<close>, \<open>TRUNCATE\<close> and \<open>PERSIST\<close>, synchronous \<open>FULL\<close>
  (for durability a setting under which the end of the journal is durable, \<open>durable_end\<close>); a device
  without \<open>SAFE_APPEND\<close> and \<open>SEQUENTIAL\<close>, with sectors no larger than pages; a system call that fails
  has no effect; the last bytes of the journal do not look like the name of a super-journal. Locks
  are answers of the system: what two processes do at the same time is not modelled.

  \<^bold>\<open>Not modelled.\<close> In the pager: its side of the write-ahead log, journal modes \<open>MEMORY\<close> and \<open>OFF\<close>, memory-mapped pages, the backup API,
  writing and deleting super-journals, rolling back to a savepoint (the bitmaps and the
  sub-journal of savepoints are written as in the source), \<open>sqlite3PagerMovepage\<close>, opening, closing and the
  settings. Of the write-ahead log: writing and checksumming frames, recovery, how readers choose their
  marks; a checkpoint runs as one step against the other connections. In the b-tree layer: cursors, search and balancing, the pointer map, the free list of pages, schema and
  lock bookkeeping; the answers of \<open>sqlite3PagerWrite\<close> and \<open>ptrmapPutOvflPtr\<close> are arguments of an insertion.
  In the page cache: reference counts per page, the choice of the page to spill and
  \<open>pcache1.c\<close>. Of \<open>util.c\<close>: floating-point conversion and error messages. All other parts of the
  library are listed with reasons in \<open>PROJECT.json\<close>.
\<close>

end
